(* ===== verification/Prelude.thy ===== *)
theory Prelude
  imports "HOL-Library.Word"
begin

unbundle bit_operations_syntax

text \<open>
  Shared vocabulary of the development: the machine integers of the firmware, the faults a C
  program can run into, slot tables (fixed arrays with a ``used'' flag, the storage pattern of
  every AODVv2 table), and a locale for invariants of step systems.
\<close>

section \<open>Machine integers\<close>

type_synonym u8 = "8 word"
type_synonym u16 = "16 word"
type_synonym u32 = "32 word"
type_synonym u64 = "64 word"

lemma unat_and_mask: "unat (w AND mask n) = unat w mod 2 ^ n"
proof -
  have "unat (w AND mask n) = unat (take_bit n w)" by (simp only: take_bit_eq_mask)
  also have "\<dots> = take_bit n (unat w)" by (rule unsigned_take_bit_eq)
  finally show ?thesis by (simp only: take_bit_eq_mod)
qed

lemma unat_and_not_mask: "unat (w AND NOT (mask n)) = unat w div 2 ^ n * 2 ^ n"
proof -
  let ?x = "w AND mask n" and ?y = "w AND NOT (mask n)"
  have "?x AND ?y = 0" "?x OR ?y = w" by (rule bit_eqI; auto simp: bit_simps)+
  with word_plus_and_or [of ?x ?y] have sum: "w = ?x + ?y" by simp
  moreover have "?x \<le> w" by (simp add: word_le_nat_alt unat_and_mask)
  ultimately have "?y = w - ?x" by (simp add: algebra_simps)
  then have "unat ?y = unat w - unat w mod 2 ^ n"
    using \<open>?x \<le> w\<close> by (simp only: unat_sub unat_and_mask)
  then show ?thesis by (simp add: minus_mod_eq_div_mult)
qed

lemma and_7: "unat (w AND 7 :: u8) = unat w mod 8" and and_15: "unat (w AND 15 :: u8) = unat w mod 16"
  using unat_and_mask [of w 3] unat_and_mask [of w 4] by (simp_all add: mask_eq_exp_minus_1)

lemma unat_push: "unat x * 2 ^ n < 2 ^ LENGTH('a) \<Longrightarrow> unat (push_bit n x) = unat (x :: 'a :: len word) * 2 ^ n"
  unfolding unsigned_push_bit_eq by (simp add: push_bit_eq_mult take_bit_nat_eq_self)

lemma unat_drop: "unat (drop_bit n w) = unat w div 2 ^ n"
  unfolding unat_drop_bit_eq by (simp add: drop_bit_eq_div)

section \<open>Sizes\<close>

text \<open>A difference of two \<open>size_t\<close>, which are 32 bits wide on this program's microcontroller: it wraps.\<close>

definition size_diff :: "nat \<Rightarrow> nat \<Rightarrow> nat" where
  "size_diff a b = unat (of_nat a - of_nat b :: u32)"

lemma size_diff: "b \<le> a \<Longrightarrow> a < 2 ^ 32 \<Longrightarrow> size_diff a b = a - b"
proof -
  assume "b \<le> a" "a < 2 ^ 32"
  then have "(of_nat a - of_nat b :: u32) = of_nat (a - b)" "a - b < 2 ^ 32" by (simp_all add: of_nat_diff)
  then show ?thesis by (simp only: size_diff_def unsigned_of_nat) (simp add: take_bit_nat_eq_self)
qed

section \<open>Faults\<close>

text \<open>
  Where the C code would dereference NULL, leave an array or fail an assertion, the model stops
  with a value of this type. \<open>Relinked\<close> is for an intrusive node that is put into a list or tree while it already is in one, which
  leaves the links corrupted; \<open>NoFuel\<close> stands for a recursion that did not end within its fuel. A result
  \<open>Inr x\<close> says that none of this happened.
\<close>

datatype fault = NullDeref | OutOfBounds | AssertFail | Uninitialised | DivByZero | Relinked | NoFuel

type_synonym 'a outcome = "fault + 'a"

fun bnd :: "'e + 'a \<Rightarrow> ('a \<Rightarrow> 'e + 'b) \<Rightarrow> 'e + 'b" where
  "bnd (Inl e) f = Inl e"
| "bnd (Inr x) f = f x"

lemma bnd_cong: "m = m' \<Longrightarrow> (\<And>x. m' = Inr x \<Longrightarrow> f x = g x) \<Longrightarrow> bnd m f = bnd m' g"
  by (cases m') simp_all

definition guard :: "bool \<Rightarrow> 'e \<Rightarrow> 'e + unit" where
  "guard b e = (if b then Inr () else Inl e)"

definition deref :: "'a option \<Rightarrow> 'a outcome" where
  "deref p = (case p of None \<Rightarrow> Inl NullDeref | Some x \<Rightarrow> Inr x)"

named_theorems outcome_simps \<open>inversion of a chain of fallible steps that returned\<close>

lemma bnd_Inr_iff [outcome_simps]: "bnd m f = Inr y \<longleftrightarrow> (\<exists>x. m = Inr x \<and> f x = Inr y)"
  by (cases m) auto

lemma guard_Inr_iff [outcome_simps]: "guard b e = Inr u \<longleftrightarrow> b"
  by (simp add: guard_def)

lemma deref_Inr_iff [outcome_simps]: "deref p = Inr x \<longleftrightarrow> p = Some x"
  by (simp add: deref_def split: option.splits)

lemma guard_simps [simp]: "guard True e = Inr ()" "guard False e = Inl e"
  by (simp_all add: guard_def)

lemma deref_simps [simp]: "deref None = Inl NullDeref" "deref (Some x) = Inr x"
  by (simp_all add: deref_def)

text \<open>
  \<open>holds P m\<close>: if \<open>m\<close> returns, what it returns satisfies \<open>P\<close>. Read from right to left along a chain
  of steps it is a weakest precondition.
\<close>

definition holds :: "('a \<Rightarrow> bool) \<Rightarrow> 'e + 'a \<Rightarrow> bool" where
  "holds P m \<longleftrightarrow> (\<forall>x. m = Inr x \<longrightarrow> P x)"

lemma holds_return [simp]: "holds P (Inr x) \<longleftrightarrow> P x" "holds P (Inl e)"
  by (simp_all add: holds_def)

lemma holds_bnd [simp]: "holds P (bnd m f) \<longleftrightarrow> holds (\<lambda>x. holds P (f x)) m"
  by (cases m) simp_all

lemma holds_mono: "holds Q m \<Longrightarrow> (\<And>x. Q x \<Longrightarrow> P x) \<Longrightarrow> holds P m"
  by (simp add: holds_def)

lemma holds_split: "holds P (case p of (a, b) \<Rightarrow> f a b) \<longleftrightarrow> (case p of (a, b) \<Rightarrow> holds P (f a b))"
  by (cases p) simp

lemma holds_trivial: "(\<And>x. P x) \<Longrightarrow> holds P m"
  by (simp add: holds_def)

lemma holds_True [simp]: "holds (\<lambda>x. True) m"
  by (simp add: holds_def)

lemma holds_if: "(b \<Longrightarrow> holds P m) \<Longrightarrow> (\<not> b \<Longrightarrow> holds P n) \<Longrightarrow> holds P (if b then m else n)"
  by simp

lemma bnd_any: "(\<And>x. holds P (f x)) \<Longrightarrow> holds P (bnd m f)"
  by (cases m) simp_all

lemma bnd_keeps: "holds Q m \<Longrightarrow> (\<And>x. Q x \<Longrightarrow> holds P (f x)) \<Longrightarrow> holds P (bnd m f)"
  by (cases m) simp_all

lemma holdsD: "holds P m \<Longrightarrow> m = Inr x \<Longrightarrow> P x"
  by (simp add: holds_def)

section \<open>Byte buffers\<close>

text \<open>
  A C buffer is a list of bytes of fixed length; reads and writes outside it are faults.
\<close>

definition mem_get :: "u8 list \<Rightarrow> nat \<Rightarrow> u8 outcome" where
  "mem_get buf i = (if i < length buf then Inr (buf ! i) else Inl OutOfBounds)"

definition mem_read :: "u8 list \<Rightarrow> nat \<Rightarrow> nat \<Rightarrow> u8 list outcome" where
  "mem_read buf off n = (if off + n \<le> length buf then Inr (take n (drop off buf)) else Inl OutOfBounds)"

definition blit :: "u8 list \<Rightarrow> nat \<Rightarrow> u8 list \<Rightarrow> u8 list" where
  "blit buf off bs = take off buf @ bs @ drop (off + length bs) buf"

definition mem_write :: "u8 list \<Rightarrow> nat \<Rightarrow> u8 list \<Rightarrow> u8 list outcome" where
  "mem_write buf off bs = (if off + length bs \<le> length buf then Inr (blit buf off bs) else Inl OutOfBounds)"

lemma mem_get_Inr_iff [outcome_simps]: "mem_get buf i = Inr b \<longleftrightarrow> i < length buf \<and> b = buf ! i"
  by (auto simp: mem_get_def)

lemma mem_read_Inr_iff [outcome_simps]:
  "mem_read buf off n = Inr bs \<longleftrightarrow> off + n \<le> length buf \<and> bs = take n (drop off buf)"
  by (auto simp: mem_read_def)

lemma mem_write_Inr_iff [outcome_simps]:
  "mem_write buf off bs = Inr buf' \<longleftrightarrow> off + length bs \<le> length buf \<and> buf' = blit buf off bs"
  by (auto simp: mem_write_def)

lemma blit_length [simp]: "off + length bs \<le> length buf \<Longrightarrow> length (blit buf off bs) = length buf"
  by (simp add: blit_def)

lemma nth_blit:
  "off + length bs \<le> length buf \<Longrightarrow> i < length buf \<Longrightarrow>
     blit buf off bs ! i = (if off \<le> i \<and> i < off + length bs then bs ! (i - off) else buf ! i)"
  by (auto simp: blit_def nth_append min_def)

text \<open>\<open>memcmp\<close> of two byte strings of the same length: the sign of the first difference.\<close>

fun memcmp :: "u8 list \<Rightarrow> u8 list \<Rightarrow> int" where
  "memcmp (x # xs) (y # ys) = (if x < y then -1 else if y < x then 1 else memcmp xs ys)"
| "memcmp _ _ = 0"

section \<open>The first index of a list that satisfies a test\<close>

text \<open>
  The search loop \<open>for (i = 0; i < ARRAY_SIZE(a); i++) if (P(a[i])) ... return\<close>.
\<close>

fun first_idx :: "('a \<Rightarrow> bool) \<Rightarrow> 'a list \<Rightarrow> nat option" where
  "first_idx P [] = None"
| "first_idx P (x # xs) = (if P x then Some 0 else map_option Suc (first_idx P xs))"

lemma first_idx_None_iff: "first_idx P xs = None \<longleftrightarrow> (\<forall>x \<in> set xs. \<not> P x)"
  by (induction xs) auto

lemma first_idx_SomeD:
  "first_idx P xs = Some i \<Longrightarrow> i < length xs \<and> P (xs ! i) \<and> (\<forall>j < i. \<not> P (xs ! j))"
  by (induction xs arbitrary: i) (auto simp: less_Suc_eq_0_disj split: if_splits)

lemma first_idx_Some_iff:
  "first_idx P xs = Some i \<longleftrightarrow> i < length xs \<and> P (xs ! i) \<and> (\<forall>j < i. \<not> P (xs ! j))"
proof (induction xs arbitrary: i)
  case (Cons x xs)
  show ?case
  proof (cases i)
    case 0
    then show ?thesis by (cases "P x"; cases "first_idx P xs"; simp)
  next
    case (Suc k)
    then show ?thesis by (simp add: Cons.IH All_less_Suc2)
  qed
qed simp

lemma first_idx_exists: "i < length xs \<Longrightarrow> P (xs ! i) \<Longrightarrow> first_idx P xs \<noteq> None"
  by (auto simp: first_idx_None_iff)

lemma first_idx_unique:
  assumes "i < length xs" and "P (xs ! i)" and "\<And>j. j < length xs \<Longrightarrow> P (xs ! j) \<Longrightarrow> j = i"
  shows "first_idx P xs = Some i"
proof -
  have "\<forall>j < i. \<not> P (xs ! j)"
  proof (intro allI impI notI)
    fix j assume "j < i" and "P (xs ! j)"
    with assms(1) have "j = i" by (intro assms(3)) simp_all
    with \<open>j < i\<close> show False by simp
  qed
  with assms(1,2) show ?thesis by (simp add: first_idx_Some_iff)
qed

section \<open>The order of a tree with equal keys\<close>

text \<open>
  What \<open>avl_insert\<close> does to the list of a tree's elements (theory \<open>Avl\<close>): \<open>c y\<close> is the comparison of the new
  element with \<open>y\<close>. A new element goes in front of the first larger one, except that among equal ones it
  comes second.
\<close>

fun tree_add :: "('a \<Rightarrow> int) \<Rightarrow> 'a \<Rightarrow> 'a list \<Rightarrow> 'a list" where
  "tree_add c x [] = [x]"
| "tree_add c x (y # ys) = (if 0 < c y then y # tree_add c x ys else if c y = 0 then y # x # ys else x # y # ys)"

text \<open>\<open>avl_comp_uint8\<close>, \<open>avl_comp_uint16\<close>, \<open>avl_comp_uint32\<close> and \<open>avl_comp_int32\<close>.\<close>

definition avl_comp :: "'k :: linorder \<Rightarrow> 'k \<Rightarrow> int" where
  "avl_comp k1 k2 = (if k1 > k2 then 1 else if k2 > k1 then -1 else 0)"

lemma avl_comp_iff [simp]: "0 < avl_comp a b \<longleftrightarrow> b < a" "avl_comp a b < 0 \<longleftrightarrow> a < b" "avl_comp a b = 0 \<longleftrightarrow> a = b"
  by (auto simp: avl_comp_def)

lemma set_tree_add [simp]: "set (tree_add c x xs) = insert x (set xs)"
  by (induction xs) auto

lemma sorted_tree_add: "sorted (map f xs) \<Longrightarrow> sorted (map f (tree_add (\<lambda>y. avl_comp (f x) (f y)) x xs))"
  by (induction xs) auto

text \<open>What the trees rely on of their comparison function: the sign of its result is a total preorder.\<close>

locale key_order =
  fixes cmp :: "'k \<Rightarrow> 'k \<Rightarrow> int"
  assumes flip: "0 < cmp a b \<longleftrightarrow> cmp b a < 0"
    and less_trans: "cmp a b < 0 \<Longrightarrow> cmp b c < 0 \<Longrightarrow> cmp a c < 0"
    and less_equal: "cmp a b < 0 \<Longrightarrow> cmp b c = 0 \<Longrightarrow> cmp a c < 0"
    and equal_less: "cmp a b = 0 \<Longrightarrow> cmp b c < 0 \<Longrightarrow> cmp a c < 0"
    and equal_trans: "cmp a b = 0 \<Longrightarrow> cmp b c = 0 \<Longrightarrow> cmp a c = 0"
begin

lemma equal_sym: "cmp a b = 0 \<longleftrightarrow> cmp b a = 0"
  using flip [of a b] flip [of b a] by linarith

lemma refl_zero [simp]: "cmp a a = 0"
  using flip [of a a] by linarith

lemma greater_trans: "0 < cmp a b \<Longrightarrow> 0 < cmp b c \<Longrightarrow> 0 < cmp a c"
  using less_trans [of c b a] by (simp add: flip)

lemma greater_equal: "0 < cmp a b \<Longrightarrow> cmp b c = 0 \<Longrightarrow> 0 < cmp a c"
  using equal_less [of c b a] by (simp add: flip equal_sym)

lemma equal_greater: "cmp a b = 0 \<Longrightarrow> 0 < cmp b c \<Longrightarrow> 0 < cmp a c"
  using less_equal [of c b a] by (simp add: flip equal_sym)

text \<open>Insertion keeps a list sorted.\<close>

lemma tree_add_sorted:
  "sorted_wrt (\<lambda>x y. cmp (f x) (f y) \<le> 0) xs \<Longrightarrow> sorted_wrt (\<lambda>x y. cmp (f x) (f y) \<le> 0) (tree_add (\<lambda>y. cmp (f x) (f y)) x xs)"
proof (induction xs)
  case (Cons y ys)
  have le: "cmp (f x) (f z) \<le> 0" if "cmp (f x) (f y) \<le> 0" "cmp (f y) (f z) \<le> 0" for z
    using that less_trans [of "f x" "f y" "f z"] less_equal [of "f x" "f y" "f z"] equal_less [of "f x" "f y" "f z"] equal_trans [of "f x" "f y" "f z"]
    by (auto simp: le_less)
  have "cmp (f y) (f x) \<le> 0" if "0 < cmp (f x) (f y)" using that flip by (simp add: less_imp_le)
  moreover have "cmp (f y) (f x) \<le> 0" if "cmp (f x) (f y) = 0" using that equal_sym [of "f x" "f y"] by simp
  ultimately show ?case using Cons le by auto
qed simp

end

interpretation avl_keys: key_order avl_comp
  by unfold_locales auto

section \<open>Slot tables\<close>

text \<open>
  The four AODVv2 tables (router clients, local routes, multicast messages, buffered packets)
  are arrays of slots with a ``used'' flag; storing an item scans for the first unused slot.
  The interface: \<open>place a es\<close> stores \<open>a\<close>, \<open>image a e\<close> is what the slot \<open>e\<close> becomes.
\<close>

definition n_used :: "('e \<Rightarrow> bool) \<Rightarrow> 'e list \<Rightarrow> nat" where
  "n_used used es = length (filter used es)"

lemma n_used_le: "n_used used es \<le> length es"
  by (simp add: n_used_def)

lemma n_used_update:
  "i < length es \<Longrightarrow> \<not> used (es ! i) \<Longrightarrow> used e \<Longrightarrow> n_used used (es[i := e]) = Suc (n_used used es)"
proof (induction es arbitrary: i)
  case (Cons x es)
  then show ?case by (cases i) (auto simp: n_used_def)
qed simp

locale slot_table =
  fixes used :: "'e \<Rightarrow> bool"
    and place :: "'a \<Rightarrow> 'e list \<Rightarrow> nat option \<times> 'e list"
    and image :: "'a \<Rightarrow> 'e \<Rightarrow> 'e"
  assumes place_free:
      "first_idx (\<lambda>e. \<not> used e) es = Some i \<Longrightarrow> place a es = (Some i, es[i := image a (es ! i)])"
    and place_full: "first_idx (\<lambda>e. \<not> used e) es = None \<Longrightarrow> place a es = (None, es)"
    and image_used: "used (image a e)"
begin

lemma place_None_iff: "fst (place a es) = None \<longleftrightarrow> (\<forall>e \<in> set es. used e)"
proof (cases "first_idx (\<lambda>e. \<not> used e) es")
  case None
  then have "\<forall>e \<in> set es. used e" by (simp add: first_idx_None_iff)
  with None show ?thesis by (simp add: place_full)
next
  case (Some i)
  then have "es ! i \<in> set es \<and> \<not> used (es ! i)" by (simp add: first_idx_Some_iff)
  with Some show ?thesis by (auto simp: place_free)
qed

lemma place_None_same: "fst (place a es) = None \<Longrightarrow> snd (place a es) = es"
  by (cases "first_idx (\<lambda>e. \<not> used e) es") (auto simp: place_free place_full)

lemma place_SomeD:
  assumes "place a es = (Some i, es')"
  shows "i < length es" and "\<not> used (es ! i)" and "es' = es[i := image a (es ! i)]"
  using assms by (cases "first_idx (\<lambda>e. \<not> used e) es"; auto simp: place_free place_full dest: first_idx_SomeD)+

lemma place_length: "length (snd (place a es)) = length es"
  by (cases "first_idx (\<lambda>e. \<not> used e) es") (auto simp: place_free place_full)

lemma place_stored: "place a es = (Some i, es') \<Longrightarrow> es' ! i = image a (es ! i) \<and> used (es' ! i)"
  using place_SomeD [of a es i es'] by (simp add: image_used)

lemma place_frame: "place a es = (r, es') \<Longrightarrow> j < length es \<Longrightarrow> used (es ! j) \<Longrightarrow> es' ! j = es ! j"
proof (cases r)
  case (Some i)
  assume "place a es = (r, es')" "j < length es" "used (es ! j)"
  with Some place_SomeD [of a es i es'] show ?thesis by (cases "j = i") simp_all
next
  case None
  assume "place a es = (r, es')"
  with None place_None_same [of a es] show ?thesis by simp
qed

lemma place_count:
  "n_used used (snd (place a es)) = (if fst (place a es) = None then n_used used es else Suc (n_used used es))"
proof (cases "first_idx (\<lambda>e. \<not> used e) es")
  case (Some i)
  then show ?thesis
    by (auto simp: place_free image_used n_used_update dest!: first_idx_SomeD)
qed (simp add: place_full)

lemma place_capacity: "length es = n \<Longrightarrow> n_used used (snd (place a es)) \<le> n"
  using n_used_le [of used "snd (place a es)"] by (simp add: place_length)

end

section \<open>Step systems\<close>

text \<open>Runs of a nondeterministic system and the lifting of a step invariant to all of them.\<close>

inductive run :: "('s \<Rightarrow> 's \<Rightarrow> bool) \<Rightarrow> 's \<Rightarrow> 's \<Rightarrow> bool" for step where
  run_refl: "run step s s"
| run_step: "run step s t \<Longrightarrow> step t u \<Longrightarrow> run step s u"

lemma run_single: "step s t \<Longrightarrow> run step s t"
  by (rule run_step [OF run_refl])

lemma run_two: "step s t \<Longrightarrow> step t u \<Longrightarrow> run step s u"
  by (rule run_step [OF run_single])

lemma run_trans: "run step s t \<Longrightarrow> run step t u \<Longrightarrow> run step s u"
  by (rotate_tac, induction rule: run.induct) (auto intro: run_step)

locale step_system =
  fixes init :: "'s \<Rightarrow> bool"
    and step :: "'s \<Rightarrow> 's \<Rightarrow> bool"
    and inv :: "'s \<Rightarrow> bool"
  assumes inv_init: "init s \<Longrightarrow> inv s"
    and inv_step: "inv s \<Longrightarrow> step s t \<Longrightarrow> inv t"
begin

lemma inv_run: "run step s t \<Longrightarrow> inv s \<Longrightarrow> inv t"
  by (induction rule: run.induct) (auto intro: inv_step)

lemma inv_reachable: "init s \<Longrightarrow> run step s t \<Longrightarrow> inv t"
  by (blast intro: inv_run inv_init)

end

end
