(* ===== verification/Riot.thy ===== *)
theory Riot
  imports Prelude
begin

text \<open>
  RIOT-OS is not part of this repository: its IPv6 address and timex functions are parameters of
  the model, the fields of the record \<open>riot\<close>. What the firmware relies on is stated by the named
  hypotheses \<open>addr_ok\<close>, \<open>prefix_ok\<close> and \<open>timex_ok\<close> (RIOT's API documentation); \<open>riot_ref\<close> is a
  concrete instance that meets them, used by the witnesses. \<open>world\<close> carries what the environment
  answers to each call: clock readings, whether \<open>malloc\<close> succeeds, what \<open>msg_send\<close> returns.
\<close>

section \<open>Addresses and timestamps\<close>

text \<open>An \<open>ipv6_addr_t\<close> is 16 bytes, read here as one big-endian 128-bit word.\<close>

type_synonym ipv6_addr = "128 word"

record timex =
  seconds :: u32
  microseconds :: u32

record riot =
  ipv6_addr_equal :: "ipv6_addr \<Rightarrow> ipv6_addr \<Rightarrow> bool"
  ipv6_addr_is_unspecified :: "ipv6_addr \<Rightarrow> bool"
  ipv6_addr_match_prefix :: "ipv6_addr \<Rightarrow> ipv6_addr \<Rightarrow> u8"
  ipv6_addr_init_prefix :: "ipv6_addr \<Rightarrow> ipv6_addr \<Rightarrow> u8 \<Rightarrow> ipv6_addr"
  timex_set :: "u32 \<Rightarrow> u32 \<Rightarrow> timex"
  timex_add :: "timex \<Rightarrow> timex \<Rightarrow> timex"
  timex_sub :: "timex \<Rightarrow> timex \<Rightarrow> timex"
  timex_cmp :: "timex \<Rightarrow> timex \<Rightarrow> int"

definition timex_zero :: timex where
  "timex_zero = \<lparr>seconds = 0, microseconds = 0\<rparr>"

section \<open>The documented behaviour\<close>

text \<open>Two addresses agree on their first \<open>n\<close> bits.\<close>

definition pfx_eq :: "nat \<Rightarrow> ipv6_addr \<Rightarrow> ipv6_addr \<Rightarrow> bool" where
  "pfx_eq n a b \<longleftrightarrow> (\<forall>i \<in> {..<n}. bit a (127 - i) = bit b (127 - i))"

definition addr_ok :: "riot \<Rightarrow> bool" where
  "addr_ok R \<longleftrightarrow> (\<forall>a b. ipv6_addr_equal R a b = (a = b)) \<and>
                 (\<forall>a. ipv6_addr_is_unspecified R a = (a = 0))"

text \<open>
  \<open>ipv6_addr_match_prefix\<close> counts the leading bits two addresses share; \<open>ipv6_addr_init_prefix\<close>
  copies the first \<open>n\<close> bits and leaves the remaining bits of its output untouched.
\<close>

definition prefix_ok :: "riot \<Rightarrow> bool" where
  "prefix_ok R \<longleftrightarrow>
     (\<forall>a b n. unat n \<le> 128 \<longrightarrow> (n \<le> ipv6_addr_match_prefix R a b) = pfx_eq (unat n) a b) \<and>
     (\<forall>out p n i. unat n \<le> 128 \<longrightarrow> i < 128 \<longrightarrow>
        bit (ipv6_addr_init_prefix R out p n) (127 - i) =
        (if i < unat n then bit p (127 - i) else bit out (127 - i)))"

text \<open>A timestamp in microseconds; RIOT keeps timestamps normalised.\<close>

definition usec :: "timex \<Rightarrow> nat" where
  "usec t = unat (seconds t) * 1000000 + unat (microseconds t)"

definition normal :: "timex \<Rightarrow> bool" where
  "normal t \<longleftrightarrow> unat (microseconds t) < 1000000"

definition timex_ok :: "riot \<Rightarrow> bool" where
  "timex_ok R \<longleftrightarrow>
     (\<forall>s. timex_set R s 0 = \<lparr>seconds = s, microseconds = 0\<rparr>) \<and>
     (\<forall>a b. normal a \<longrightarrow> normal b \<longrightarrow>
        timex_cmp R a b = (if usec a < usec b then -1 else if usec a = usec b then 0 else 1)) \<and>
     (\<forall>a b. normal a \<longrightarrow> normal b \<longrightarrow> usec a + usec b < 2 ^ 32 * 1000000 \<longrightarrow>
        normal (timex_add R a b) \<and> usec (timex_add R a b) = usec a + usec b) \<and>
     (\<forall>a b. normal a \<longrightarrow> normal b \<longrightarrow> usec b \<le> usec a \<longrightarrow>
        normal (timex_sub R a b) \<and> usec (timex_sub R a b) = usec a - usec b)"

definition riot_ok :: "riot \<Rightarrow> bool" where
  "riot_ok R \<longleftrightarrow> addr_ok R \<and> prefix_ok R \<and> timex_ok R"

lemma riot_okD [dest]: "riot_ok R \<Longrightarrow> addr_ok R" "riot_ok R \<Longrightarrow> prefix_ok R" "riot_ok R \<Longrightarrow> timex_ok R"
  by (simp_all add: riot_ok_def)

lemma addr_equal [simp]: "addr_ok R \<Longrightarrow> ipv6_addr_equal R a b \<longleftrightarrow> a = b"
  by (simp add: addr_ok_def)

lemma addr_unspecified [simp]: "addr_ok R \<Longrightarrow> ipv6_addr_is_unspecified R a \<longleftrightarrow> a = 0"
  by (simp add: addr_ok_def)

lemma match_prefix: "prefix_ok R \<Longrightarrow> unat n \<le> 128 \<Longrightarrow> n \<le> ipv6_addr_match_prefix R a b \<longleftrightarrow> pfx_eq (unat n) a b"
  by (simp add: prefix_ok_def)

lemma bit_init_prefix:
  "prefix_ok R \<Longrightarrow> unat n \<le> 128 \<Longrightarrow> i < 128 \<Longrightarrow>
     bit (ipv6_addr_init_prefix R out p n) (127 - i) = (if i < unat n then bit p (127 - i) else bit out (127 - i))"
  by (simp add: prefix_ok_def)

lemma pfx_eq_refl [simp]: "pfx_eq n a a"
  by (simp add: pfx_eq_def)

lemma pfx_eq_sym: "pfx_eq n a b \<Longrightarrow> pfx_eq n b a"
  by (simp add: pfx_eq_def)

lemma pfx_eq_trans: "pfx_eq n a b \<Longrightarrow> pfx_eq n b c \<Longrightarrow> pfx_eq n a c"
  by (simp add: pfx_eq_def)

lemma pfx_eq_common: "pfx_eq n a c \<Longrightarrow> pfx_eq n b c \<Longrightarrow> pfx_eq n a b"
  by (simp add: pfx_eq_def)

lemma pfx_eq_mono: "pfx_eq n a b \<Longrightarrow> m \<le> n \<Longrightarrow> pfx_eq m a b"
  by (simp add: pfx_eq_def)

lemma pfx_eq_128: "pfx_eq 128 a b \<longleftrightarrow> a = b"
proof
  assume eq: "pfx_eq 128 a b"
  show "a = b"
  proof (rule bit_word_eqI)
    fix n assume "n < LENGTH(128)"
    with eq have "bit a (127 - (127 - n)) = bit b (127 - (127 - n))"
      unfolding pfx_eq_def by (intro bspec [where x = "127 - n"]) auto
    with \<open>n < LENGTH(128)\<close> show "bit a n = bit b n" by simp
  qed
qed simp

lemma pfx_eq_init_prefix: "prefix_ok R \<Longrightarrow> unat n \<le> 128 \<Longrightarrow> pfx_eq (unat n) (ipv6_addr_init_prefix R out p n) p"
  by (simp add: pfx_eq_def bit_init_prefix)

lemma init_prefix_full: "prefix_ok R \<Longrightarrow> ipv6_addr_init_prefix R out p 128 = p"
  using pfx_eq_init_prefix [of R 128 out p] by (simp add: pfx_eq_128)

lemma timex_cmp_usec:
  "timex_ok R \<Longrightarrow> normal a \<Longrightarrow> normal b \<Longrightarrow>
     timex_cmp R a b = (if usec a < usec b then -1 else if usec a = usec b then 0 else 1)"
  by (simp add: timex_ok_def)

lemma timex_set_sec: "timex_ok R \<Longrightarrow> timex_set R s 0 = \<lparr>seconds = s, microseconds = 0\<rparr>"
  by (simp add: timex_ok_def)

lemma timex_add_usec:
  "timex_ok R \<Longrightarrow> normal a \<Longrightarrow> normal b \<Longrightarrow> usec a + usec b < 2 ^ 32 * 1000000 \<Longrightarrow>
     normal (timex_add R a b) \<and> usec (timex_add R a b) = usec a + usec b"
  by (simp add: timex_ok_def)

lemma timex_sub_usec:
  "timex_ok R \<Longrightarrow> normal a \<Longrightarrow> normal b \<Longrightarrow> usec b \<le> usec a \<Longrightarrow>
     normal (timex_sub R a b) \<and> usec (timex_sub R a b) = usec a - usec b"
  by (simp add: timex_ok_def)

lemma normal_seconds [simp]: "normal \<lparr>seconds = s, microseconds = 0\<rparr>"
  by (simp add: normal_def)

lemma usec_seconds [simp]: "usec \<lparr>seconds = s, microseconds = 0\<rparr> = unat s * 1000000"
  by (simp add: usec_def)

lemma normal_zero [simp]: "normal timex_zero" and usec_zero [simp]: "usec timex_zero = 0"
  by (simp_all add: timex_zero_def)

lemma usec_eq_0_iff: "usec t = 0 \<longleftrightarrow> t = timex_zero"
  by (cases t) (simp add: usec_def timex_zero_def unat_eq_0)

section \<open>A reference instance\<close>

definition of_usec :: "nat \<Rightarrow> timex" where
  "of_usec u = \<lparr>seconds = of_nat (u div 1000000), microseconds = of_nat (u mod 1000000)\<rparr>"

definition riot_ref :: riot where
  "riot_ref = \<lparr>
     ipv6_addr_equal = (=),
     ipv6_addr_is_unspecified = (\<lambda>a. a = 0),
     ipv6_addr_match_prefix =
       (\<lambda>a b. of_nat (length (takeWhile (\<lambda>i. bit a (127 - i) = bit b (127 - i)) [0..<128]))),
     ipv6_addr_init_prefix =
       (\<lambda>out p n. (out AND mask (128 - unat n)) OR (p AND NOT (mask (128 - unat n)))),
     timex_set = (\<lambda>s u. \<lparr>seconds = s, microseconds = u\<rparr>),
     timex_add = (\<lambda>a b. of_usec (usec a + usec b)),
     timex_sub = (\<lambda>a b. of_usec (usec a - usec b)),
     timex_cmp = (\<lambda>a b. if usec a < usec b then -1 else if usec a = usec b then 0 else 1)\<rparr>"

lemma le_length_takeWhile:
  "n \<le> length xs \<Longrightarrow> n \<le> length (takeWhile P xs) \<longleftrightarrow> (\<forall>i < n. P (xs ! i))"
proof (induction xs arbitrary: n)
  case (Cons x xs)
  then show ?case by (cases n) (auto simp: All_less_Suc2)
qed simp

lemma of_usec:
  "u < 2 ^ 32 * 1000000 \<Longrightarrow> normal (of_usec u) \<and> usec (of_usec u) = u"
proof -
  assume "u < 2 ^ 32 * 1000000"
  then have "u div 1000000 < 2 ^ 32" by (simp add: less_mult_imp_div_less)
  moreover have "u mod 1000000 < 2 ^ 32" by (rule less_trans [OF mod_less_divisor]) simp_all
  ultimately show ?thesis by (simp add: normal_def usec_def of_usec_def unat_of_nat take_bit_nat_eq_self)
qed

lemma usec_bound: "normal t \<Longrightarrow> usec t < 2 ^ 32 * 1000000"
  using unsigned_less [of "seconds t", where ?'a = nat] by (simp add: usec_def normal_def)

lemma addr_ok_ref: "addr_ok riot_ref"
  by (simp add: addr_ok_def riot_ref_def)

lemma prefix_ok_ref: "prefix_ok riot_ref"
proof -
  have match: "n \<le> ipv6_addr_match_prefix riot_ref a b \<longleftrightarrow> pfx_eq (unat n) a b" if "unat n \<le> 128" for n a b
  proof -
    let ?P = "\<lambda>i. bit a (127 - i) = bit b (127 - i)"
    have "length (takeWhile ?P [0..<128]) \<le> 128"
      by (rule order_trans [OF length_takeWhile_le]) simp
    then have "n \<le> ipv6_addr_match_prefix riot_ref a b \<longleftrightarrow> unat n \<le> length (takeWhile ?P [0..<128])"
      by (simp add: riot_ref_def word_le_nat_alt unat_of_nat)
    also have "\<dots> \<longleftrightarrow> (\<forall>i < unat n. ?P ([0..<128] ! i))"
      using that by (intro le_length_takeWhile) simp
    also have "\<dots> \<longleftrightarrow> pfx_eq (unat n) a b"
      using that by (auto simp: pfx_eq_def)
    finally show ?thesis .
  qed
  have init: "bit (ipv6_addr_init_prefix riot_ref out p n) (127 - i) =
      (if i < unat n then bit p (127 - i) else bit out (127 - i))"
    if "unat n \<le> 128" and "i < 128" for out p :: ipv6_addr and n i
    using that by (auto simp: riot_ref_def bit_simps)
  from match init show ?thesis by (simp add: prefix_ok_def)
qed

lemma timex_ok_ref: "timex_ok riot_ref"
proof -
  have "normal (of_usec (usec a - usec b)) \<and> usec (of_usec (usec a - usec b)) = usec a - usec b"
    if "normal a" for a b
    using usec_bound [OF that] by (intro of_usec) simp
  then show ?thesis by (simp add: timex_ok_def riot_ref_def of_usec)
qed

lemma riot_ok_ref [simp]: "riot_ok riot_ref"
  by (simp add: riot_ok_def addr_ok_ref prefix_ok_ref timex_ok_ref)

section \<open>What the environment answers\<close>

text \<open>
  Every call into the environment consumes one \<open>tick\<close>: the \<open>n\<close>-th call reads the \<open>n\<close>-th answer.
\<close>

record world =
  clk :: "nat \<Rightarrow> timex"
  malloc_ok :: "nat \<Rightarrow> bool"
  send_ok :: "nat \<Rightarrow> bool"
  tick :: nat

definition xtimer_now_timex :: "world \<Rightarrow> timex \<times> world" where
  "xtimer_now_timex w = (clk w (tick w), w\<lparr>tick := Suc (tick w)\<rparr>)"

text \<open>The environment whose clock stands still and whose calls succeed, for the concrete inputs.\<close>

definition world_at :: "timex \<Rightarrow> world" where
  "world_at t = \<lparr>clk = (\<lambda>_. t), malloc_ok = (\<lambda>_. True), send_ok = (\<lambda>_. True), tick = 0\<rparr>"

text \<open>Calls move the environment on, but do not change what it will answer.\<close>

definition same_env :: "world \<Rightarrow> world \<Rightarrow> bool" where
  "same_env w w' \<longleftrightarrow> clk w' = clk w \<and> malloc_ok w' = malloc_ok w \<and> send_ok w' = send_ok w"

lemma same_env_refl [simp]: "same_env w w"
  by (simp add: same_env_def)

lemma same_env_trans [trans]: "same_env w w' \<Longrightarrow> same_env w' w'' \<Longrightarrow> same_env w w''"
  by (simp add: same_env_def)

lemma same_env_tick [simp]: "same_env w (w'\<lparr>tick := k\<rparr>) = same_env w w'" "same_env (w\<lparr>tick := k\<rparr>) w' = same_env w w'"
  by (simp_all add: same_env_def)

lemma same_env_now: "xtimer_now_timex w = (t, w') \<Longrightarrow> same_env w w'"
  by (auto simp: xtimer_now_timex_def)

end
