(* ===== verification/Metric.thy ===== *)
theory Metric
  imports Riot
begin

text \<open>
  Metric handling, \<open>mesh/sys/net/aodvv2/aoddv2_metric.c\<close>. A \<open>routing_metric_t\<close> holds whatever
  extension type a received TLV carried, so it is a byte here, with the enumerators as constants.
\<close>

type_synonym routing_metric = u8

definition METRIC_HOP_COUNT :: routing_metric where
  "METRIC_HOP_COUNT = 3"

definition CONFIG_AODVV2_DEFAULT_METRIC :: routing_metric where
  "CONFIG_AODVV2_DEFAULT_METRIC = METRIC_HOP_COUNT"

definition aodvv2_metric_link_cost :: "routing_metric \<Rightarrow> u8" where
  "aodvv2_metric_link_cost metric_type = (if metric_type = METRIC_HOP_COUNT then 1 else 0)"

definition aodvv2_metric_loop_free :: "routing_metric \<Rightarrow> u8 \<Rightarrow> u8 \<Rightarrow> bool" where
  "aodvv2_metric_loop_free metric_type a b = (if metric_type = METRIC_HOP_COUNT then a \<le> b else False)"

definition aodvv2_metric_max :: "routing_metric \<Rightarrow> u8" where
  "aodvv2_metric_max metric_type = (if metric_type = METRIC_HOP_COUNT then 255 else 0)"

definition aodvv2_metric_update :: "routing_metric \<Rightarrow> u8 \<Rightarrow> u8" where
  "aodvv2_metric_update metric_type metric = (if metric_type = METRIC_HOP_COUNT then metric + 1 else metric)"

text \<open>
  The admission test of both message handlers, \<open>aodvv2_metric_max(t) - link_cost <= metric\<close>, in C's
  \<open>int\<close> arithmetic.
\<close>

definition metric_limit_reached :: "routing_metric \<Rightarrow> u8 \<Rightarrow> bool" where
  "metric_limit_reached metric_type metric \<longleftrightarrow>
     int (unat (aodvv2_metric_max metric_type)) - int (unat (aodvv2_metric_link_cost metric_type)) \<le> int (unat metric)"

lemma metric_limit_reached_iff:
  "metric_limit_reached t m \<longleftrightarrow> t \<noteq> METRIC_HOP_COUNT \<or> 254 \<le> unat m"
proof -
  have "(254::int) \<le> int (unat m) \<longleftrightarrow> 254 \<le> unat m"
    using of_nat_le_iff [of 254 "unat m", where ?'a = int] by (simp only: of_nat_numeral)
  then show ?thesis
    by (auto simp: metric_limit_reached_def aodvv2_metric_max_def aodvv2_metric_link_cost_def)
qed

text \<open>
  A metric that passes the admission test belongs to the hop-count type, and neither the update
  nor adding the link cost wraps its byte: the updated metric is exactly one larger and at most 255.
\<close>

lemma metric_update_no_wrap:
  assumes "\<not> metric_limit_reached t m"
  shows "t = METRIC_HOP_COUNT \<and> unat (aodvv2_metric_update t m) = unat m + 1 \<and>
    unat (aodvv2_metric_update t m) \<le> 254 \<and>
    unat (aodvv2_metric_update t m + aodvv2_metric_link_cost t) = unat m + 2 \<and>
    aodvv2_metric_loop_free t m (aodvv2_metric_update t m)"
proof -
  from assms have t: "t = METRIC_HOP_COUNT" and m: "unat m < 254"
    by (auto simp: metric_limit_reached_iff)
  then have "unat (m + 1) = unat m + 1" "unat (m + 1 + 1) = unat m + 2"
    by (simp_all add: unat_word_ariths)
  with t m show ?thesis
    by (simp add: aodvv2_metric_update_def aodvv2_metric_link_cost_def aodvv2_metric_loop_free_def word_le_nat_alt)
qed

lemma metric_update_no_wrap_witness:
  "\<not> metric_limit_reached METRIC_HOP_COUNT 253 \<and> unat (aodvv2_metric_update METRIC_HOP_COUNT 253) = 254"
proof -
  have h: "\<not> metric_limit_reached METRIC_HOP_COUNT 253" by (simp add: metric_limit_reached_iff)
  show ?thesis using h metric_update_no_wrap [OF h] by simp
qed

end
