(* ===== verification/Seqnum.thy ===== *)
theory Seqnum
  imports Riot
begin

text \<open>
  The router's own sequence number (\<open>mesh/sys/net/aodvv2/aodvv2_seqnum.c\<close>) and the comparison of
  sequence numbers (\<open>include/net/aodvv2/seqnum.h\<close>). The counter is an atomic of at least 32 bits;
  \<open>aodvv2_seqnum_inc\<close> is two atomic steps, and who takes a number reads it in a third, so concurrent use
  is a step system of its own.
\<close>

section \<open>Sequential behaviour\<close>

definition aodvv2_seqnum_init :: u32 where
  "aodvv2_seqnum_init = 1"

definition aodvv2_seqnum_inc :: "u32 \<Rightarrow> u32" where
  "aodvv2_seqnum_inc seqnum =
     (let old = seqnum; stored = seqnum + 1 in if old \<ge> 65535 then 1 else stored)"

definition aodvv2_seqnum_get :: "u32 \<Rightarrow> u16" where
  "aodvv2_seqnum_get seqnum = ucast seqnum"

definition aodvv2_seqnum_cmp :: "u16 \<Rightarrow> u16 \<Rightarrow> int" where
  "aodvv2_seqnum_cmp existing received =
     sint (ucast ((ucast received :: u32) - (ucast existing :: u32)) :: u16)"

text \<open>The counter runs through 1 .. 65535 and wraps to 1, never to 0.\<close>

lemma seqnum_inc_unat:
  "1 \<le> unat s \<Longrightarrow> unat s \<le> 65535 \<Longrightarrow> unat (aodvv2_seqnum_inc s) = unat s mod 65535 + 1"
proof -
  assume le: "1 \<le> unat s" "unat s \<le> 65535"
  show ?thesis
  proof (cases "s \<ge> 65535")
    case True
    with le have "unat s = 65535" by (simp add: word_le_nat_alt)
    with True show ?thesis by (simp add: aodvv2_seqnum_inc_def)
  next
    case False
    then have lt: "unat s < 65535" by (simp add: word_le_nat_alt)
    then have "unat (s + 1) = unat s + 1" by (simp add: unat_word_ariths)
    with False lt show ?thesis by (simp add: aodvv2_seqnum_inc_def)
  qed
qed

lemma seqnum_after: "unat ((aodvv2_seqnum_inc ^^ n) aodvv2_seqnum_init) = n mod 65535 + 1"
proof (induction n)
  case (Suc n)
  have "n mod 65535 < 65535" by simp
  then show ?case using Suc by (simp add: seqnum_inc_unat mod_Suc)
qed (simp add: aodvv2_seqnum_init_def)

lemma unat_seqnum_get: "unat s \<le> 65535 \<Longrightarrow> unat (aodvv2_seqnum_get s) = unat s"
  by (simp add: aodvv2_seqnum_get_def unsigned_ucast_eq take_bit_nat_eq_self)

text \<open>
  After initialisation and any number of increments the sequence number a router announces is
  \<open>n mod 65535 + 1\<close>: it starts at 1, counts up, wraps from 65535 to 1 and is never 0, the value
  the message handlers treat as ``missing''.
\<close>

lemma seqnum_counts:
  "unat (aodvv2_seqnum_get ((aodvv2_seqnum_inc ^^ n) aodvv2_seqnum_init)) = n mod 65535 + 1"
proof -
  have "n mod 65535 < 65535" by simp
  then show ?thesis by (simp add: unat_seqnum_get seqnum_after)
qed

section \<open>Comparison\<close>

lemma seqnum_cmp_sint: "aodvv2_seqnum_cmp a b = sint (b - a)"
proof -
  have "(ucast ((ucast b :: u32) - (ucast a :: u32)) :: u16) = b - a"
    by transfer (simp add: take_bit_diff)
  then show ?thesis by (simp add: aodvv2_seqnum_cmp_def)
qed

lemma seqnum_cmp_refl [simp]: "aodvv2_seqnum_cmp a a = 0"
  by (simp add: seqnum_cmp_sint)

lemma seqnum_cmp_0_iff: "aodvv2_seqnum_cmp a b = 0 \<longleftrightarrow> a = b"
  by (auto simp: seqnum_cmp_sint signed_eq_0_iff)

lemma sint_u16: "sint (w :: u16) = (if uint w < 32768 then uint w else uint w - 65536)"
proof -
  have w: "0 \<le> uint w" "uint w < 65536" using uint_bounded [of w] by simp_all
  have "sint w = (uint w + 32768) mod 65536 - 32768"
    by (simp add: sint_uint signed_take_bit_eq_take_bit_shift take_bit_eq_mod)
  also have "(uint w + 32768) mod 65536 = (if uint w < 32768 then uint w + 32768 else uint w - 32768)"
  proof (cases "uint w < 32768")
    case True
    with w show ?thesis by simp
  next
    case False
    then have "(uint w + 32768) mod 65536 = (uint w - 32768 + 65536) mod 65536" by (simp add: algebra_simps)
    also have "\<dots> = (uint w - 32768) mod 65536" by (simp only: mod_add_self2)
    also have "\<dots> = uint w - 32768" using w False by simp
    finally show ?thesis using False by simp
  qed
  finally show ?thesis by simp
qed

lemma uint_diff_u16: "uint (b - a :: u16) = (if uint a \<le> uint b then uint b - uint a else uint b - uint a + 65536)"
  by (simp add: uint_sub_if' word_le_def)

text \<open>The two directions of a comparison are opposite, half a number space apart excepted.\<close>

lemma seqnum_cmp_swap: "aodvv2_seqnum_cmp a b \<noteq> -32768 \<Longrightarrow> aodvv2_seqnum_cmp b a = - aodvv2_seqnum_cmp a b"
  using uint_bounded [of a] uint_bounded [of b]
  by (auto simp: seqnum_cmp_sint sint_u16 uint_diff_u16 split: if_splits)

lemma seqnum_inc_pow:
  "1 \<le> unat s \<Longrightarrow> unat s \<le> 65535 \<Longrightarrow>
     unat ((aodvv2_seqnum_inc ^^ k) s) = (unat s - 1 + k) mod 65535 + 1"
proof (induction k)
  case (Suc k)
  have "(unat s - 1 + k) mod 65535 < 65535" by simp
  then have "unat ((aodvv2_seqnum_inc ^^ Suc k) s) = Suc ((unat s - 1 + k) mod 65535) mod 65535 + 1"
    using Suc by (simp add: seqnum_inc_unat)
  also have "Suc ((unat s - 1 + k) mod 65535) mod 65535 = (unat s - 1 + Suc k) mod 65535"
    by (simp add: mod_Suc_eq)
  finally show ?case .
qed auto

lemma seqnum_newer:
  assumes "1 \<le> unat s" and "unat s \<le> 65535" and "1 \<le> k" and "k \<le> 32766"
  shows "aodvv2_seqnum_cmp (aodvv2_seqnum_get s) (aodvv2_seqnum_get ((aodvv2_seqnum_inc ^^ k) s)) > 0"
proof -
  let ?t = "(aodvv2_seqnum_inc ^^ k) s"
  have t: "unat ?t = (unat s - 1 + k) mod 65535 + 1" by (rule seqnum_inc_pow [OF assms(1,2)])
  have "(unat s - 1 + k) mod 65535 < 65535" by simp
  with t have le: "unat ?t \<le> 65535" by linarith
  have uint: "uint (aodvv2_seqnum_get r) = int (unat r)" if "unat r \<le> 65535" for r
    using unat_seqnum_get [OF that] by (metis uint_nat)
  have "int (unat ?t) - int (unat s) = int k \<or> int (unat ?t) - int (unat s) = int k - 65535"
  proof (cases "unat s - 1 + k < 65535")
    case True
    with t assms show ?thesis by simp
  next
    case False
    with assms have "(unat s - 1 + k) mod 65535 = unat s - 1 + k - 65535"
      by (subst le_mod_geq) auto
    with t False assms show ?thesis by simp
  qed
  then show ?thesis
    using assms le by (auto simp: seqnum_cmp_sint sint_u16 uint_diff_u16 uint)
qed

text \<open>
  A router's newer sequence number always compares as newer: after 1 to 32766 increments,
  also across the wrap from 65535 to 1, \<open>aodvv2_seqnum_cmp old new\<close> is positive.
\<close>

lemma seqnum_increments_are_newer:
  assumes "1 \<le> unat s" and "unat s \<le> 65535" and "1 \<le> k" and "k \<le> 32766"
  shows "aodvv2_seqnum_cmp (aodvv2_seqnum_get s) (aodvv2_seqnum_get ((aodvv2_seqnum_inc ^^ k) s)) > 0"
  using assms by (rule seqnum_newer)

lemma seqnum_increments_are_newer_witness:
  "aodvv2_seqnum_cmp (aodvv2_seqnum_get 65535) (aodvv2_seqnum_get ((aodvv2_seqnum_inc ^^ 1) 65535)) > 0"
  by (rule seqnum_increments_are_newer) simp_all

section \<open>Threads that take a number\<close>

text \<open>
  Who needs a number (\<open>aodvv2_find_route\<close> in any thread, the RREP's address callback in the AODVv2 thread)
  calls \<open>aodvv2_seqnum_get\<close> and then \<open>aodvv2_seqnum_inc\<close>. That is an atomic load, an \<open>atomic_fetch_add\<close> and, when the old value was at least 65535, a separate
  \<open>atomic_store\<close>. A thread is \<open>Idle\<close>, has its number but has not incremented (\<open>Got\<close>), or stands between the last two (\<open>WillStore\<close>).
  \<open>seq_issued\<close> lists the numbers obtained, with the threads that did.
\<close>

datatype seq_pc = Idle | Got | WillStore

record seq_sys =
  seq_val :: u32
  seq_pcs :: "seq_pc list"
  seq_issued :: "(nat \<times> u16) list"

inductive seqnum_step :: "seq_sys \<Rightarrow> seq_sys \<Rightarrow> bool" where
  load: "i < length (seq_pcs s) \<Longrightarrow> seq_pcs s ! i = Idle \<Longrightarrow>
    seqnum_step s (s\<lparr>seq_pcs := (seq_pcs s)[i := Got], seq_issued := seq_issued s @ [(i, aodvv2_seqnum_get (seq_val s))]\<rparr>)"
| fetch_add: "i < length (seq_pcs s) \<Longrightarrow> seq_pcs s ! i = Got \<Longrightarrow>
    seqnum_step s (s\<lparr>seq_val := seq_val s + 1,
      seq_pcs := (seq_pcs s)[i := if seq_val s \<ge> 65535 then WillStore else Idle]\<rparr>)"
| store: "i < length (seq_pcs s) \<Longrightarrow> seq_pcs s ! i = WillStore \<Longrightarrow>
    seqnum_step s (s\<lparr>seq_val := 1, seq_pcs := (seq_pcs s)[i := Idle]\<rparr>)"

inductive_cases seqnum_stepE: "seqnum_step s t"

definition seq_init :: "nat \<Rightarrow> seq_sys" where
  "seq_init n = \<lparr>seq_val = aodvv2_seqnum_init, seq_pcs = replicate n Idle, seq_issued = []\<rparr>"

definition pending :: "seq_sys \<Rightarrow> nat" where
  "pending s = n_used (\<lambda>p. p = WillStore) (seq_pcs s)"

definition seq_inv :: "nat \<Rightarrow> seq_sys \<Rightarrow> bool" where
  "seq_inv n s \<longleftrightarrow> length (seq_pcs s) = n \<and> 1 \<le> unat (seq_val s) \<and> unat (seq_val s) \<le> 65535 + pending s"

text \<open>A thread's increment that no other interrupts is the sequential operation.\<close>

lemma seqnum_inc_run:
  assumes "i < length (seq_pcs s)" and "seq_pcs s ! i = Got"
  shows "run seqnum_step s (s\<lparr>seq_val := aodvv2_seqnum_inc (seq_val s), seq_pcs := (seq_pcs s)[i := Idle]\<rparr>)"
proof (cases "seq_val s \<ge> 65535")
  case True
  let ?m = "s\<lparr>seq_val := seq_val s + 1, seq_pcs := (seq_pcs s)[i := WillStore]\<rparr>"
  have "seqnum_step s ?m" using fetch_add [OF assms] True by simp
  moreover have "seqnum_step ?m (?m\<lparr>seq_val := 1, seq_pcs := (seq_pcs ?m)[i := Idle]\<rparr>)"
    using assms by (intro store) simp_all
  ultimately show ?thesis using True run_two [of seqnum_step s ?m] by (simp add: aodvv2_seqnum_inc_def)
next
  case False
  then show ?thesis using fetch_add [OF assms] by (simp add: aodvv2_seqnum_inc_def run_single)
qed

lemma seqnum_step_alone:
  assumes "i < length (seq_pcs s)" and "seq_pcs s ! i = Idle"
  shows "run seqnum_step s (s\<lparr>seq_val := aodvv2_seqnum_inc (seq_val s),
    seq_issued := seq_issued s @ [(i, aodvv2_seqnum_get (seq_val s))]\<rparr>)"
proof -
  let ?m = "s\<lparr>seq_pcs := (seq_pcs s)[i := Got], seq_issued := seq_issued s @ [(i, aodvv2_seqnum_get (seq_val s))]\<rparr>"
  have "run seqnum_step s ?m" by (rule run_single, rule load [OF assms])
  moreover have "run seqnum_step ?m (?m\<lparr>seq_val := aodvv2_seqnum_inc (seq_val ?m), seq_pcs := (seq_pcs ?m)[i := Idle]\<rparr>)"
    using assms by (intro seqnum_inc_run) simp_all
  ultimately have "run seqnum_step s (?m\<lparr>seq_val := aodvv2_seqnum_inc (seq_val ?m), seq_pcs := (seq_pcs ?m)[i := Idle]\<rparr>)"
    by (rule run_trans)
  moreover have "(seq_pcs s)[i := Idle] = seq_pcs s" using assms(2) by (metis list_update_id)
  then have "?m\<lparr>seq_val := aodvv2_seqnum_inc (seq_val ?m), seq_pcs := (seq_pcs ?m)[i := Idle]\<rparr> =
      s\<lparr>seq_val := aodvv2_seqnum_inc (seq_val s), seq_issued := seq_issued s @ [(i, aodvv2_seqnum_get (seq_val s))]\<rparr>"
    by (cases s) simp
  ultimately show ?thesis by metis
qed

lemma n_used_clear:
  "i < length es \<Longrightarrow> used (es ! i) \<Longrightarrow> \<not> used e \<Longrightarrow> Suc (n_used used (es[i := e])) = n_used used es"
proof (induction es arbitrary: i)
  case (Cons x es)
  then show ?case by (cases i) (auto simp: n_used_def)
qed simp

lemma n_used_same: "i < length es \<Longrightarrow> \<not> used (es ! i) \<Longrightarrow> \<not> used e \<Longrightarrow> n_used used (es[i := e]) = n_used used es"
proof (induction es arbitrary: i)
  case (Cons x es)
  then show ?case by (cases i) (auto simp: n_used_def)
qed simp

lemma seq_inv_step:
  assumes inv: "seq_inv n s" and "seqnum_step s t" and small: "n < 2 ^ 31"
  shows "seq_inv n t"
  using assms(2)
proof (cases rule: seqnum_step.cases)
  case (fetch_add i)
  have pend: "pending s \<le> n"
    using inv n_used_le [of _ "seq_pcs s"] by (auto simp: pending_def seq_inv_def)
  with inv small have up: "unat (seq_val s + 1) = unat (seq_val s) + 1"
    by (simp add: seq_inv_def unat_word_ariths)
  show ?thesis
  proof (cases "seq_val s \<ge> 65535")
    case True
    then have "pending t = Suc (pending s)"
      using fetch_add by (simp add: pending_def n_used_update)
    with True fetch_add inv up show ?thesis by (simp add: seq_inv_def)
  next
    case False
    then have "unat (seq_val s) < 65535" by (simp add: word_le_nat_alt)
    with False fetch_add inv up show ?thesis by (simp add: seq_inv_def)
  qed
next
  case (load i)
  then have "pending t = pending s" by (simp add: pending_def n_used_same)
  with load inv show ?thesis by (simp add: seq_inv_def)
qed (use inv in \<open>auto simp: seq_inv_def\<close>)

interpretation seq_threads: step_system "\<lambda>s. s = seq_init n \<and> n < 2 ^ 31" seqnum_step
    "\<lambda>s. seq_inv n s \<and> n < 2 ^ 31" for n
proof unfold_locales
  fix s assume "s = seq_init n \<and> n < 2 ^ 31"
  then show "seq_inv n s \<and> n < 2 ^ 31"
    by (simp add: seq_inv_def seq_init_def aodvv2_seqnum_init_def)
qed (auto intro: seq_inv_step)

text \<open>
  However threads interleave their increments, a sequence number of 0 or above 65535 is visible
  only while some thread stands between its two atomic operations; when none does, the counter is
  between 1 and 65535.
\<close>

lemma seqnum_quiescent_valid:
  assumes "n < 2 ^ 31" and "run seqnum_step (seq_init n) t" and "WillStore \<notin> set (seq_pcs t)"
  shows "1 \<le> unat (seq_val t) \<and> unat (seq_val t) \<le> 65535 \<and> aodvv2_seqnum_get (seq_val t) \<noteq> 0"
proof -
  have "seq_inv n t"
    using seq_threads.inv_reachable [of "seq_init n" n t] assms by simp
  moreover have "filter (\<lambda>p. p = WillStore) (seq_pcs t) = []"
    using assms(3) by (auto simp: filter_empty_conv)
  then have "pending t = 0" by (simp add: pending_def n_used_def)
  ultimately have "1 \<le> unat (seq_val t)" "unat (seq_val t) \<le> 65535" by (auto simp: seq_inv_def)
  moreover from this have "unat (aodvv2_seqnum_get (seq_val t)) \<noteq> 0" by (simp add: unat_seqnum_get)
  ultimately show ?thesis by auto
qed

lemma seqnum_quiescent_valid_witness:
  "aodvv2_seqnum_get (seq_val (seq_init 2)) \<noteq> 0"
  using seqnum_quiescent_valid [of 2 "seq_init 2"] by (simp add: run_refl) (simp add: seq_init_def)

text \<open>
  C20. Taking a number is not one operation. Whatever the counter's value and whatever other threads do, two threads that are about to take a
  number can both obtain the number \<open>aodvv2_seqnum_get\<close> reads now, after which the counter has
  moved on by two as if both had had a number of their own. And when the counter stands at 65535 the second of two
  threads can obtain 0, the value that message handlers treat as missing, because the increment and the reset to 1 are two operations.
\<close>

theorem seqnum_inc_not_atomic:
  assumes "i < length (seq_pcs s)" and "j < length (seq_pcs s)" and "i \<noteq> j" and "seq_pcs s ! i = Idle" and "seq_pcs s ! j = Idle"
  shows "run seqnum_step s (s\<lparr>seq_val := aodvv2_seqnum_inc (aodvv2_seqnum_inc (seq_val s)),
      seq_issued := seq_issued s @ [(i, aodvv2_seqnum_get (seq_val s)), (j, aodvv2_seqnum_get (seq_val s))]\<rparr>) \<and>
    (seq_val s = 65535 \<longrightarrow> (\<exists>t. run seqnum_step s t \<and> seq_issued t = seq_issued s @ [(i, 65535), (j, 0)]))"
proof
  let ?n = "aodvv2_seqnum_get (seq_val s)"
  let ?a = "s\<lparr>seq_pcs := (seq_pcs s)[i := Got], seq_issued := seq_issued s @ [(i, ?n)]\<rparr>"
  let ?b = "?a\<lparr>seq_pcs := (seq_pcs s)[i := Got, j := Got], seq_issued := seq_issued s @ [(i, ?n), (j, ?n)]\<rparr>"
  let ?c = "?b\<lparr>seq_val := aodvv2_seqnum_inc (seq_val ?b), seq_pcs := (seq_pcs ?b)[i := Idle]\<rparr>"
  let ?d = "?c\<lparr>seq_val := aodvv2_seqnum_inc (seq_val ?c), seq_pcs := (seq_pcs ?c)[j := Idle]\<rparr>"
  have 1: "run seqnum_step s ?a" by (rule run_single, rule load [OF assms(1,4)])
  have 2: "run seqnum_step ?a ?b" using load [of j ?a] assms by (intro run_single) simp
  have 3: "run seqnum_step ?b ?c" using assms by (intro seqnum_inc_run) simp_all
  have 4: "run seqnum_step ?c ?d" using assms by (intro seqnum_inc_run) simp_all
  have "(seq_pcs s)[i := Got, j := Got, i := Idle, j := Idle] = seq_pcs s"
    using assms by (intro nth_equalityI) (auto simp: nth_list_update)
  then have "?d = s\<lparr>seq_val := aodvv2_seqnum_inc (aodvv2_seqnum_inc (seq_val s)),
      seq_issued := seq_issued s @ [(i, ?n), (j, ?n)]\<rparr>" by (cases s) simp
  moreover have "run seqnum_step s ?d" by (rule run_trans [OF 1 run_trans [OF 2 run_trans [OF 3 4]]])
  ultimately show "run seqnum_step s (s\<lparr>seq_val := aodvv2_seqnum_inc (aodvv2_seqnum_inc (seq_val s)),
      seq_issued := seq_issued s @ [(i, ?n), (j, ?n)]\<rparr>)" by (rule subst)
  show "seq_val s = 65535 \<longrightarrow> (\<exists>t. run seqnum_step s t \<and> seq_issued t = seq_issued s @ [(i, 65535), (j, 0)])"
  proof
    assume v: "seq_val s = 65535"
    let ?e = "?a\<lparr>seq_val := 65536, seq_pcs := (seq_pcs s)[i := WillStore]\<rparr>"
    let ?f = "?e\<lparr>seq_pcs := (seq_pcs ?e)[j := Got], seq_issued := seq_issued ?e @ [(j, aodvv2_seqnum_get 65536)]\<rparr>"
    have "run seqnum_step ?a ?e" using fetch_add [of i ?a] assms v by (intro run_single) simp
    moreover have "run seqnum_step ?e ?f" using load [of j ?e] assms by (intro run_single) simp
    ultimately have "run seqnum_step s ?f" by (rule run_trans [OF 1 run_trans])
    moreover have "seq_issued ?f = seq_issued s @ [(i, 65535), (j, 0)]" by (simp add: v aodvv2_seqnum_get_def)
    ultimately show "\<exists>t. run seqnum_step s t \<and> seq_issued t = seq_issued s @ [(i, 65535), (j, 0)]" by blast
  qed
qed

theorem seqnum_inc_not_atomic_witness:
  "run seqnum_step (seq_init 2) ((seq_init 2)\<lparr>seq_val := 3, seq_issued := [(0, 1), (1, 1)]\<rparr>)"
proof -
  have "run seqnum_step (seq_init 2) ((seq_init 2)\<lparr>seq_val := aodvv2_seqnum_inc (aodvv2_seqnum_inc (seq_val (seq_init 2))),
      seq_issued := seq_issued (seq_init 2) @ [(0, aodvv2_seqnum_get (seq_val (seq_init 2))), (1, aodvv2_seqnum_get (seq_val (seq_init 2)))]\<rparr>)"
    by (rule seqnum_inc_not_atomic [THEN conjunct1]) (simp_all add: seq_init_def)
  then show ?thesis by (simp add: seq_init_def aodvv2_seqnum_init_def aodvv2_seqnum_inc_def aodvv2_seqnum_get_def word_le_nat_alt)
qed

end
