(* ===== verification/Message.thy ===== *)
theory Message
  imports Metric Seqnum
begin

text \<open>
  The data an AODVv2 message carries (\<open>include/net/aodvv2/rfc5444.h\<close>) and the result codes of the
  RFC 5444 library that the message handlers return (\<open>rfc5444/rfc5444_context.h\<close>).
\<close>

record node_data =
  nd_addr :: ipv6_addr
  nd_pfx_len :: u8
  nd_metric :: u8
  nd_seqnum :: u16

record aodvv2_message =
  msg_hop_limit :: u8
  sender :: ipv6_addr
  metric_type :: routing_metric
  orig_node :: node_data
  targ_node :: node_data
  seqnortr :: ipv6_addr
  timestamp :: timex

definition node_zero :: node_data where
  "node_zero = \<lparr>nd_addr = 0, nd_pfx_len = 0, nd_metric = 0, nd_seqnum = 0\<rparr>"

definition message_zero :: aodvv2_message where
  "message_zero = \<lparr>msg_hop_limit = 0, sender = 0, metric_type = 0, orig_node = node_zero,
     targ_node = node_zero, seqnortr = 0, timestamp = timex_zero\<rparr>"

definition RFC5444_OKAY :: int where "RFC5444_OKAY = 0"
definition RFC5444_DROP_TLV :: int where "RFC5444_DROP_TLV = 1"
definition RFC5444_DROP_ADDRESS :: int where "RFC5444_DROP_ADDRESS = 2"
definition RFC5444_DROP_MSG_BUT_FORWARD :: int where "RFC5444_DROP_MSG_BUT_FORWARD = 3"
definition RFC5444_DROP_MESSAGE :: int where "RFC5444_DROP_MESSAGE = 4"
definition RFC5444_DROP_PACKET :: int where "RFC5444_DROP_PACKET = 5"
definition RFC5444_UNSUPPORTED_VERSION :: int where "RFC5444_UNSUPPORTED_VERSION = -1"
definition RFC5444_END_OF_BUFFER :: int where "RFC5444_END_OF_BUFFER = -2"
definition RFC5444_BAD_TLV_IDXFLAGS :: int where "RFC5444_BAD_TLV_IDXFLAGS = -3"
definition RFC5444_BAD_TLV_VALUEFLAGS :: int where "RFC5444_BAD_TLV_VALUEFLAGS = -4"
definition RFC5444_BAD_TLV_LENGTH :: int where "RFC5444_BAD_TLV_LENGTH = -5"
definition RFC5444_OUT_OF_MEMORY :: int where "RFC5444_OUT_OF_MEMORY = -6"
definition RFC5444_EMPTY_ADDRBLOCK :: int where "RFC5444_EMPTY_ADDRBLOCK = -7"
definition RFC5444_BAD_MSG_TAILFLAGS :: int where "RFC5444_BAD_MSG_TAILFLAGS = -8"
definition RFC5444_BAD_MSG_PREFIXFLAGS :: int where "RFC5444_BAD_MSG_PREFIXFLAGS = -9"
definition RFC5444_MTU_TOO_SMALL :: int where "RFC5444_MTU_TOO_SMALL = -12"
definition RFC5444_TOO_LARGE :: int where "RFC5444_TOO_LARGE = -16"
definition RFC5444_BAD_ADDR_HEAD_LENGTH :: int where "RFC5444_BAD_ADDR_HEAD_LENGTH = -18"
definition RFC5444_BAD_ADDR_TAIL_LENGTH :: int where "RFC5444_BAD_ADDR_TAIL_LENGTH = -19"
definition RFC5444_BAD_TLV_INDEX :: int where "RFC5444_BAD_TLV_INDEX = -20"

lemmas rfc5444_results =
  RFC5444_OKAY_def RFC5444_DROP_TLV_def RFC5444_DROP_ADDRESS_def RFC5444_DROP_MSG_BUT_FORWARD_def
  RFC5444_DROP_MESSAGE_def RFC5444_DROP_PACKET_def RFC5444_UNSUPPORTED_VERSION_def
  RFC5444_END_OF_BUFFER_def RFC5444_BAD_TLV_IDXFLAGS_def RFC5444_BAD_TLV_VALUEFLAGS_def
  RFC5444_BAD_TLV_LENGTH_def RFC5444_OUT_OF_MEMORY_def RFC5444_EMPTY_ADDRBLOCK_def
  RFC5444_BAD_MSG_TAILFLAGS_def RFC5444_BAD_MSG_PREFIXFLAGS_def RFC5444_MTU_TOO_SMALL_def
  RFC5444_TOO_LARGE_def RFC5444_BAD_ADDR_HEAD_LENGTH_def RFC5444_BAD_ADDR_TAIL_LENGTH_def
  RFC5444_BAD_TLV_INDEX_def

end
