(* ===== verification/Netaddr.thy ===== *)
theory Netaddr
  imports Message "HOL-Library.Signed_Division"
begin

text \<open>
  Binary network addresses, \<open>core/contrib/oonf_api/common/netaddr.c\<close> and \<open>netaddr.h\<close>, the part that
  works on bytes (the textual forms are in \<open>NetaddrText\<close>). The numbers of the address families come from
  the platform's headers: they are the parameter \<open>F\<close>.
\<close>

section \<open>Data\<close>

record af =
  AF_UNSPEC :: u8
  AF_INET :: u8
  AF_INET6 :: u8
  AF_MAX :: u8

definition AF_MAC48 :: "af \<Rightarrow> u8" where "AF_MAC48 F = AF_MAX F + 1"
definition AF_EUI64 :: "af \<Rightarrow> u8" where "AF_EUI64 F = AF_MAX F + 2"
definition AF_UUID :: "af \<Rightarrow> u8" where "AF_UUID F = AF_MAX F + 3"

definition af_ok :: "af \<Rightarrow> bool" where
  "af_ok F \<longleftrightarrow> distinct [AF_UNSPEC F, AF_INET F, AF_INET6 F, AF_MAC48 F, AF_EUI64 F, AF_UUID F] \<and> AF_UNSPEC F = 0"

definition af_ref :: af where
  "af_ref = \<lparr>AF_UNSPEC = 0, AF_INET = 2, AF_INET6 = 10, AF_MAX = 46\<rparr>"

lemma af_ok_ref [simp]: "af_ok af_ref"
  by (simp add: af_ok_def af_ref_def AF_MAC48_def AF_EUI64_def AF_UUID_def)

definition NETADDR_MAX_LENGTH :: nat where "NETADDR_MAX_LENGTH = 16"

record netaddr =
  na_addr :: "u8 list"
  na_type :: u8
  na_prefix_len :: u8

definition netaddr_wf :: "netaddr \<Rightarrow> bool" where
  "netaddr_wf a \<longleftrightarrow> length (na_addr a) = NETADDR_MAX_LENGTH"

section \<open>Operations\<close>

definition netaddr_get_af_maxprefix :: "af \<Rightarrow> u8 \<Rightarrow> u8" where
  "netaddr_get_af_maxprefix F af_type =
     (if af_type = AF_INET F then 32
      else if af_type = AF_INET6 F then 128
      else if af_type = AF_MAC48 F then 48
      else if af_type = AF_EUI64 F then 64
      else 0)"

definition netaddr_get_maxprefix :: "af \<Rightarrow> netaddr \<Rightarrow> u8" where
  "netaddr_get_maxprefix F n = netaddr_get_af_maxprefix F (na_type n)"

text \<open>
  \<open>binary\<close> is the buffer the source pointer points to: the copy reads its first \<open>len\<close> bytes, cut to 16
  where the length names no family.
\<close>

definition netaddr_from_binary_prefix ::
    "af \<Rightarrow> u8 list \<Rightarrow> nat \<Rightarrow> u8 \<Rightarrow> u8 \<Rightarrow> (netaddr \<times> int) outcome" where
  "netaddr_from_binary_prefix F binary len addr_type prefix_len =
     (let (ty, len) =
        (if addr_type \<noteq> 0 then (addr_type, len)
         else if len = 4 then (AF_INET F, len)
         else if len = 6 then (AF_MAC48 F, len)
         else if len = 8 then (AF_EUI64 F, len)
         else if len = 16 then (AF_INET6 F, len)
         else (AF_UNSPEC F, if len > 16 then 16 else len));
          prefix_len = (if prefix_len = 255 then of_nat (len * 8) else prefix_len)
      in bnd (mem_read binary 0 len) (\<lambda>bs.
         bnd (mem_write (replicate NETADDR_MAX_LENGTH 0) 0 bs) (\<lambda>a.
         Inr (\<lparr>na_addr = a, na_type = ty, na_prefix_len = prefix_len\<rparr>, if ty = AF_UNSPEC F then -1 else 0))))"

definition netaddr_from_binary :: "af \<Rightarrow> u8 list \<Rightarrow> nat \<Rightarrow> u8 \<Rightarrow> (netaddr \<times> int) outcome" where
  "netaddr_from_binary F binary len addr_type = netaddr_from_binary_prefix F binary len addr_type 255"

definition netaddr_to_binary :: "af \<Rightarrow> u8 list \<Rightarrow> netaddr \<Rightarrow> nat \<Rightarrow> (u8 list \<times> int) outcome" where
  "netaddr_to_binary F dst src len =
     (let addr_len = unat (drop_bit 3 (netaddr_get_maxprefix F src)) in
      if addr_len = 0 \<or> len < addr_len then Inr (dst, -1)
      else bnd (mem_write dst 0 (take addr_len (na_addr src))) (\<lambda>d. Inr (d, 0)))"

definition netaddr_create_host_bin :: "af \<Rightarrow> netaddr \<Rightarrow> u8 list \<Rightarrow> nat \<Rightarrow> (netaddr \<times> int) outcome" where
  "netaddr_create_host_bin F netmask number num_length =
     (let host = netmask\<lparr>na_prefix_len := netaddr_get_maxprefix F netmask\<rparr>;
          hp = uint (na_prefix_len host); np = uint (na_prefix_len netmask)
      in if na_prefix_len host = 0 then Inr (host, -1)
         else if na_prefix_len host = na_prefix_len netmask \<or> num_length = 0 then Inr (host, 0)
         else let host_part_length = unat (word_of_int ((hp - np + 7) sdiv 8) :: u8)
           in bnd
            (if host_part_length > num_length
             then Inr (na_addr host, size_diff (nat hp div 8) num_length, 0)
             else let host_index = nat np div 8; number_index = num_length - host_part_length
               in if (na_prefix_len netmask AND 7) \<noteq> 0
                  then let m = drop_bit (unat (na_prefix_len netmask AND 7)) (255 :: u8)
                    in bnd (mem_get (na_addr host) host_index) (\<lambda>h. bnd (mem_get number number_index) (\<lambda>b.
                       bnd (mem_write (na_addr host) host_index [h AND NOT m OR (b AND m)]) (\<lambda>a.
                       Inr (a, host_index + 1, number_index + 1))))
                  else Inr (na_addr host, host_index, number_index))
            (\<lambda>(a, host_index, number_index).
             bnd (mem_read number number_index (size_diff num_length number_index)) (\<lambda>bs.
             bnd (mem_write a host_index bs) (\<lambda>a'. Inr (host\<lparr>na_addr := a'\<rparr>, 0)))))"

text \<open>The loop of \<open>netaddr_create_prefix\<close> from octet \<open>len\<close> on; \<open>n\<close> counts the octets left.\<close>

definition mask_octet :: "u8 \<Rightarrow> u8 option" where
  "mask_octet b = (if b = 254 then Some 7 else if b = 252 then Some 6 else if b = 248 then Some 5
     else if b = 240 then Some 4 else if b = 224 then Some 3 else if b = 192 then Some 2
     else if b = 128 then Some 1 else if b = 0 then Some 0 else None)"

fun create_prefix_loop :: "bool \<Rightarrow> u8 list \<Rightarrow> u8 list \<Rightarrow> nat \<Rightarrow> nat \<Rightarrow> netaddr \<Rightarrow> netaddr \<times> int" where
  "create_prefix_loop trunc host netmask len 0 p = (p, 0)"
| "create_prefix_loop trunc host netmask len (Suc n) p =
     (let p' = (if trunc then p\<lparr>na_addr := (na_addr p)[len := host ! len AND netmask ! len]\<rparr> else p) in
      if netmask ! len = 255
      then create_prefix_loop trunc host netmask (len + 2) (n - 1) (p'\<lparr>na_prefix_len := na_prefix_len p' + 8\<rparr>)
      else case mask_octet (netmask ! len) of
          None \<Rightarrow> (p', -1)
        | Some k \<Rightarrow> (p'\<lparr>na_prefix_len := na_prefix_len p' + k\<rparr>, 0))"

definition netaddr_create_prefix :: "af \<Rightarrow> netaddr \<Rightarrow> netaddr \<Rightarrow> netaddr \<Rightarrow> bool \<Rightarrow> netaddr \<times> int" where
  "netaddr_create_prefix F prefix host netmask trunc =
     (if na_type host \<noteq> na_type netmask \<or> na_type host = AF_UNSPEC F then (prefix, -1)
      else let p = prefix\<lparr>na_prefix_len := 0, na_type := na_type host\<rparr>;
               p' = (if trunc then p else p\<lparr>na_addr := na_addr host\<rparr>)
        in create_prefix_loop trunc (na_addr host) (na_addr netmask) 0
             (unat (netaddr_get_af_maxprefix F (na_type host)) div 8) p')"

text \<open>
  \<open>netaddr_truncate\<close> into another object (\<open>dst \<noteq> src\<close>) and in place. The mask table has 8 entries.
\<close>

definition MASK :: "u8 list" where
  "MASK = [0, 0x80, 0xc0, 0xe0, 0xf0, 0xf8, 0xfc, 0xfe]"

definition netaddr_truncate :: "netaddr \<Rightarrow> netaddr \<Rightarrow> bool \<Rightarrow> netaddr outcome" where
  "netaddr_truncate dst src same =
     (let byte_prefix = unat (na_prefix_len src) div 8;
          bit_prefix = unat (na_prefix_len src AND 7)
      in bnd (if same then Inr src
              else bnd (mem_read (na_addr src) 0 byte_prefix) (\<lambda>bs.
                   bnd (mem_write (na_addr dst) 0 bs) (\<lambda>a.
                   Inr (dst\<lparr>na_prefix_len := na_prefix_len src, na_type := na_type src, na_addr := a\<rparr>))))
        (\<lambda>d. bnd (if bit_prefix \<noteq> 0
                 then bnd (mem_get (na_addr src) byte_prefix) (\<lambda>b.
                      bnd (mem_write (na_addr d) byte_prefix [b AND MASK ! bit_prefix]) (\<lambda>a. Inr (a, byte_prefix + 1)))
                 else Inr (na_addr d, byte_prefix))
        (\<lambda>(a, byte_prefix).
           if byte_prefix < 16
           then bnd (mem_write a byte_prefix (replicate (16 - byte_prefix) 0)) (\<lambda>a'. Inr (d\<lparr>na_addr := a'\<rparr>))
           else Inr (d\<lparr>na_addr := a\<rparr>))))"

definition binary_is_in_subnet :: "netaddr \<Rightarrow> u8 list \<Rightarrow> bool outcome" where
  "binary_is_in_subnet subnet bin =
     (let byte_length = unat (na_prefix_len subnet) div 8; bit_length = unat (na_prefix_len subnet) mod 8 in
      bnd (mem_read (na_addr subnet) 0 byte_length) (\<lambda>s. bnd (mem_read bin 0 byte_length) (\<lambda>b.
        if s \<noteq> b then Inr False
        else if bit_length \<noteq> 0
        then bnd (mem_get (na_addr subnet) byte_length) (\<lambda>s. bnd (mem_get bin byte_length) (\<lambda>b.
             Inr (drop_bit (8 - bit_length) s = drop_bit (8 - bit_length) b)))
        else Inr True)))"

definition netaddr_is_in_subnet :: "netaddr \<Rightarrow> netaddr \<Rightarrow> bool outcome" where
  "netaddr_is_in_subnet subnet addr =
     (if na_type subnet \<noteq> na_type addr then Inr False else binary_is_in_subnet subnet (na_addr addr))"

definition netaddr_binary_is_in_subnet :: "af \<Rightarrow> netaddr \<Rightarrow> u8 list \<Rightarrow> nat \<Rightarrow> u8 \<Rightarrow> bool outcome" where
  "netaddr_binary_is_in_subnet F subnet bin len af_family =
     (if na_type subnet \<noteq> af_family \<or> unat (netaddr_get_maxprefix F subnet) \<noteq> len * 8 then Inr False
      else binary_is_in_subnet subnet bin)"

definition netaddr_isequal_binary :: "af \<Rightarrow> netaddr \<Rightarrow> u8 list \<Rightarrow> nat \<Rightarrow> u16 \<Rightarrow> u8 \<Rightarrow> bool outcome" where
  "netaddr_isequal_binary F addr bin len family prefix_len =
     (if ucast (na_type addr) \<noteq> family \<or> na_prefix_len addr \<noteq> prefix_len then Inr False
      else let addr_len = unat (drop_bit 3 (netaddr_get_maxprefix F addr)) in
        if addr_len \<noteq> len then Inr False
        else bnd (mem_read bin 0 addr_len) (\<lambda>b. Inr (take addr_len (na_addr addr) = b)))"

definition netaddr_bytes :: "netaddr \<Rightarrow> u8 list" where
  "netaddr_bytes a = na_addr a @ [na_type a, na_prefix_len a]"

definition netaddr_cmp :: "netaddr \<Rightarrow> netaddr \<Rightarrow> int" where
  "netaddr_cmp a1 a2 = memcmp (netaddr_bytes a1) (netaddr_bytes a2)"

definition netaddr_embed_ipv4_compatible :: "af \<Rightarrow> netaddr \<Rightarrow> netaddr \<Rightarrow> netaddr" where
  "netaddr_embed_ipv4_compatible F dst src =
     dst\<lparr>na_addr := blit (blit (na_addr dst) 0 (replicate 12 0)) 12 (take 4 (na_addr src)),
         na_type := AF_INET6 F, na_prefix_len := na_prefix_len src + 96\<rparr>"

definition netaddr_extract_ipv4_compatible :: "af \<Rightarrow> netaddr \<Rightarrow> netaddr \<Rightarrow> netaddr" where
  "netaddr_extract_ipv4_compatible F dst src =
     dst\<lparr>na_addr := blit (blit (na_addr dst) 0 (take 4 (drop 12 (na_addr src)))) 4 (replicate 12 0),
         na_type := AF_INET F, na_prefix_len := na_prefix_len src - 96\<rparr>"

section \<open>Octets of an IPv6 address\<close>

definition addr_bytes :: "ipv6_addr \<Rightarrow> u8 list" where
  "addr_bytes a = map (\<lambda>i. ucast (drop_bit (8 * (15 - i)) a)) [0..<16]"

definition bytes_addr :: "u8 list \<Rightarrow> ipv6_addr" where
  "bytes_addr bs = foldl (\<lambda>a b. push_bit 8 a OR ucast b) 0 bs"

lemma addr_bytes_length [simp]: "length (addr_bytes a) = 16"
  by (simp add: addr_bytes_def)

lemma bit_bytes_addr:
  "length bs \<le> 16 \<Longrightarrow> bit (bytes_addr bs) n \<longleftrightarrow> n < 8 * length bs \<and> bit (bs ! (length bs - 1 - n div 8)) (n mod 8)"
proof (induction bs arbitrary: n rule: rev_induct)
  case (snoc b bs)
  have step: "bytes_addr (bs @ [b]) = push_bit 8 (bytes_addr bs) OR ucast b"
    by (simp add: bytes_addr_def)
  show ?case
  proof (cases "n < 8")
    case True
    with snoc.prems show ?thesis by (simp add: step bit_simps nth_append)
  next
    case False
    then obtain m where n: "n = m + 8" by (metis add.commute le_Suc_ex not_less)
    from snoc.prems have len: "length bs \<le> 15" by simp
    then have IH: "bit (bytes_addr bs) m \<longleftrightarrow> m < 8 * length bs \<and> bit (bs ! (length bs - 1 - m div 8)) (m mod 8)"
      by (intro snoc.IH) simp
    have "\<not> bit b n" using False by (auto dest: bit_imp_le_length)
    then have "bit (bytes_addr (bs @ [b])) n \<longleftrightarrow> m + 8 < 128 \<and> bit (bytes_addr bs) m"
      using n by (simp add: step bit_or_iff bit_push_bit_iff bit_ucast_iff)
    also have "\<dots> \<longleftrightarrow> m < 8 * length bs \<and> bit (bs ! (length bs - 1 - m div 8)) (m mod 8)"
      using IH len by auto
    also have "\<dots> \<longleftrightarrow> n < 8 * length (bs @ [b]) \<and>
        bit ((bs @ [b]) ! (length (bs @ [b]) - 1 - n div 8)) (n mod 8)"
    proof (cases "m < 8 * length bs")
      case True
      then have "length bs - Suc (m div 8) < length bs" by (cases bs) auto
      moreover have "n div 8 = Suc (m div 8)" "n mod 8 = m mod 8" by (simp_all add: n)
      ultimately show ?thesis using True n by (simp add: nth_append)
    qed (simp add: n)
    finally show ?thesis .
  qed
qed (simp add: bytes_addr_def)

lemma bytes_addr_bytes [simp]: "bytes_addr (addr_bytes a) = a"
proof (rule bit_word_eqI)
  fix n assume "n < LENGTH(128)"
  moreover from this have "8 * (15 - (15 - n div 8)) + n mod 8 = n" by simp
  ultimately show "bit (bytes_addr (addr_bytes a)) n = bit a n"
    by (auto simp: bit_bytes_addr addr_bytes_def bit_simps)
qed

lemma addr_bytes_addr [simp]: "length bs = 16 \<Longrightarrow> addr_bytes (bytes_addr bs) = bs"
proof (rule nth_equalityI)
  fix i assume len: "length bs = 16" and i: "i < length (addr_bytes (bytes_addr bs))"
  show "addr_bytes (bytes_addr bs) ! i = bs ! i"
  proof (rule bit_word_eqI)
    fix n assume n: "n < LENGTH(8)"
    with i have "8 * (15 - i) + n < 128" "(8 * (15 - i) + n) div 8 = 15 - i" "(8 * (15 - i) + n) mod 8 = n" by auto
    with len i n show "bit (addr_bytes (bytes_addr bs) ! i) n = bit (bs ! i) n"
      by (auto simp: addr_bytes_def bit_simps bit_bytes_addr)
  qed
qed simp

lemma octet_index: "t < 8 \<Longrightarrow> (8 * j + t) div 8 = j \<and> (8 * j + t) mod 8 = (t :: nat)"
  by simp

lemma bit_octet:
  assumes "length bs = 16" and "i < 128"
  shows "bit (bytes_addr bs) (127 - i) = bit (bs ! (i div 8)) (7 - i mod 8)"
proof -
  define j t where "j = i div 8" and "t = i mod 8"
  then have i: "i = 8 * j + t" "t < 8" by simp_all
  with assms(2) have j: "j \<le> 15" by simp
  with i have "127 - i = 8 * (15 - j) + (7 - t)" by simp
  then have "(127 - i) div 8 = 15 - j" "(127 - i) mod 8 = 7 - t" by (simp_all add: octet_index)
  moreover have "127 - i < 128" by simp
  ultimately show ?thesis using assms j by (simp add: bit_bytes_addr flip: j_def t_def)
qed

text \<open>Agreement on the first \<open>8 k + r\<close> bits, octet by octet.\<close>

lemma pfx_eq_octets:
  assumes len: "length s = 16" "length b = 16" and n: "8 * k + r \<le> 128" "r < 8"
  shows "pfx_eq (8 * k + r) (bytes_addr s) (bytes_addr b) \<longleftrightarrow>
    take k s = take k b \<and> (r \<noteq> 0 \<longrightarrow> drop_bit (8 - r) (s ! k) = drop_bit (8 - r) (b ! k))"
proof
  assume eq: "pfx_eq (8 * k + r) (bytes_addr s) (bytes_addr b)"
  have bits: "bit (s ! j) q = bit (b ! j) q" if "q < 8" "8 * j + (7 - q) < 8 * k + r" for j q
  proof -
    let ?i = "8 * j + (7 - q)"
    have "?i < 128" "?i div 8 = j" "?i mod 8 = 7 - q" using that n octet_index [of "7 - q" j] by simp_all
    moreover have "bit (bytes_addr s) (127 - ?i) = bit (bytes_addr b) (127 - ?i)"
      using eq that(2) unfolding pfx_eq_def by blast
    ultimately show ?thesis
      using bit_octet [OF len(1), of ?i] bit_octet [OF len(2), of ?i] that(1) by simp
  qed
  have "take k s = take k b"
  proof (rule nth_equalityI)
    fix j assume j: "j < length (take k s)"
    show "take k s ! j = take k b ! j"
      using j len by (auto intro!: bit_word_eqI bits)
  qed (simp add: len)
  moreover have "drop_bit (8 - r) (s ! k) = drop_bit (8 - r) (b ! k)" if "r \<noteq> 0"
  proof (rule bit_word_eqI)
    fix q assume "q < LENGTH(8)"
    show "bit (drop_bit (8 - r) (s ! k)) q = bit (drop_bit (8 - r) (b ! k)) q"
    proof (cases "8 - r + q < 8")
      case True
      with that n have "8 * k + (7 - (8 - r + q)) < 8 * k + r" by simp
      with True bits [of "8 - r + q" k] show ?thesis by (simp add: bit_drop_bit_eq)
    next
      case False
      then show ?thesis by (auto simp: bit_drop_bit_eq dest: bit_imp_le_length)
    qed
  qed
  ultimately show "take k s = take k b \<and> (r \<noteq> 0 \<longrightarrow> drop_bit (8 - r) (s ! k) = drop_bit (8 - r) (b ! k))" by blast
next
  assume eq: "take k s = take k b \<and> (r \<noteq> 0 \<longrightarrow> drop_bit (8 - r) (s ! k) = drop_bit (8 - r) (b ! k))"
  show "pfx_eq (8 * k + r) (bytes_addr s) (bytes_addr b)"
    unfolding pfx_eq_def
  proof (intro ballI)
    fix i assume "i \<in> {..<8 * k + r}"
    then have i: "i < 8 * k + r" "i < 128" using n by auto
    have "bit (s ! (i div 8)) (7 - i mod 8) = bit (b ! (i div 8)) (7 - i mod 8)"
    proof (cases "i div 8 < k")
      case True
      with eq have "take k s ! (i div 8) = take k b ! (i div 8)" by simp
      with True len i show ?thesis by simp
    next
      case False
      with i n have k: "i div 8 = k" by auto
      with i have "i mod 8 < r" using div_mult_mod_eq [of i 8] by simp
      with eq have "bit (drop_bit (8 - r) (s ! k)) (r - 1 - i mod 8) = bit (drop_bit (8 - r) (b ! k)) (r - 1 - i mod 8)"
        by auto
      moreover have "8 - r + (r - 1 - i mod 8) = 7 - i mod 8" using \<open>i mod 8 < r\<close> n by simp
      ultimately show ?thesis by (simp add: bit_drop_bit_eq k)
    qed
    with len i show "bit (bytes_addr s) (127 - i) = bit (bytes_addr b) (127 - i)" by (simp add: bit_octet)
  qed
qed

section \<open>Subnets and truncation, bit by bit\<close>

lemma subnet_octets:
  assumes "length (na_addr subnet) = 16" and "length bin = 16" and "unat (na_prefix_len subnet) \<le> 128"
  shows "binary_is_in_subnet subnet bin =
    Inr (pfx_eq (unat (na_prefix_len subnet)) (bytes_addr (na_addr subnet)) (bytes_addr bin))"
proof -
  define k r where "k = unat (na_prefix_len subnet) div 8" and "r = unat (na_prefix_len subnet) mod 8"
  then have n: "unat (na_prefix_len subnet) = 8 * k + r" "r < 8" by simp_all
  with assms(3) have k: "k \<le> 16" "r \<noteq> 0 \<Longrightarrow> k < 16" by auto
  show ?thesis
    using pfx_eq_octets [OF assms(1,2), of k r] n k assms
    unfolding binary_is_in_subnet_def Let_def mem_read_def mem_get_def by (simp flip: k_def r_def)
qed

text \<open>
  C26. \<open>netaddr_is_in_subnet\<close> on addresses of one family and a prefix length of at most 128 never reads
  outside the 16 octets and decides agreement on the prefix, bit by bit.
\<close>

theorem netaddr_subnet_is_prefix:
  assumes "netaddr_wf subnet" and "netaddr_wf a" and "unat (na_prefix_len subnet) \<le> 128"
  shows "netaddr_is_in_subnet subnet a =
    Inr (na_type subnet = na_type a \<and>
         pfx_eq (unat (na_prefix_len subnet)) (bytes_addr (na_addr subnet)) (bytes_addr (na_addr a)))"
  using assms subnet_octets [of subnet "na_addr a"]
  by (simp add: netaddr_is_in_subnet_def netaddr_wf_def NETADDR_MAX_LENGTH_def)

theorem netaddr_subnet_is_prefix_witness:
  "netaddr_is_in_subnet \<lparr>na_addr = replicate 16 0, na_type = 10, na_prefix_len = 9\<rparr>
      \<lparr>na_addr = replicate 16 0, na_type = 10, na_prefix_len = 128\<rparr> = Inr True"
  by (subst netaddr_subnet_is_prefix) (simp_all add: netaddr_wf_def NETADDR_MAX_LENGTH_def)

lemma bit_MASK: "r < 8 \<Longrightarrow> q < 8 \<Longrightarrow> bit (MASK ! r) q \<longleftrightarrow> 8 - r \<le> q"
proof -
  have "\<forall>r < 8. \<forall>q < 8. bit (MASK ! r) q \<longleftrightarrow> 8 - r \<le> q"
    by (simp add: MASK_def numeral_eq_Suc All_less_Suc2 nth_Cons' bit_simps)
  then show "r < 8 \<Longrightarrow> q < 8 \<Longrightarrow> ?thesis" by blast
qed

text \<open>What truncation leaves in octet \<open>j\<close>.\<close>

definition trunc_octet :: "nat \<Rightarrow> u8 list \<Rightarrow> nat \<Rightarrow> u8" where
  "trunc_octet n a j = (if j < n div 8 then a ! j
     else if j = n div 8 \<and> n mod 8 \<noteq> 0 then a ! j AND MASK ! (n mod 8) else 0)"

lemma truncate_octets:
  assumes len: "length (na_addr src) = 16" "length (na_addr dst) = 16" and n: "unat (na_prefix_len src) \<le> 128"
    and same: "same \<longrightarrow> dst = src"
  shows "netaddr_truncate dst src same = Inr (src\<lparr>na_addr := map (trunc_octet (unat (na_prefix_len src)) (na_addr src)) [0..<16]\<rparr>)"
proof -
  define k r where "k = unat (na_prefix_len src) div 8" and "r = unat (na_prefix_len src) mod 8"
  then have kr: "unat (na_prefix_len src) = 8 * k + r" "r < 8" by simp_all
  with n have k: "k \<le> 16" "r \<noteq> 0 \<Longrightarrow> k < 16" by auto
  define d where "d = (if same then src else dst\<lparr>na_prefix_len := na_prefix_len src, na_type := na_type src,
    na_addr := blit (na_addr dst) 0 (take k (na_addr src))\<rparr>)"
  have d: "na_type d = na_type src" "na_prefix_len d = na_prefix_len src" "length (na_addr d) = 16"
      "\<And>j. j < k \<Longrightarrow> na_addr d ! j = na_addr src ! j" and more: "netaddr.more d = netaddr.more src"
    using len k by (auto simp: d_def nth_blit)
  define a where "a = (if r \<noteq> 0 then blit (na_addr d) k [na_addr src ! k AND MASK ! r] else na_addr d)"
  define m where "m = (if r \<noteq> 0 then k + 1 else k)"
  have m: "m \<le> 16" using k by (auto simp: m_def)
  have a: "length a = 16" using d k by (cases "r = 0") (simp_all add: a_def)
  have first: "(if same then Inr src
              else bnd (mem_read (na_addr src) 0 k) (\<lambda>bs.
                   bnd (mem_write (na_addr dst) 0 bs) (\<lambda>a.
                   Inr (dst\<lparr>na_prefix_len := na_prefix_len src, na_type := na_type src, na_addr := a\<rparr>)))) = Inr d"
    using len k by (simp add: d_def mem_read_def mem_write_def)
  have "netaddr_truncate dst src same = Inr (d\<lparr>na_addr := (if m < 16 then blit a m (replicate (16 - m) 0) else a)\<rparr>)"
  proof (cases "r = 0")
    case True
    then have "m = k" "a = na_addr d" by (simp_all add: m_def a_def)
    with True d(3) k show ?thesis
      by (simp add: netaddr_truncate_def Let_def and_7 first mem_write_def flip: k_def r_def)
  next
    case False
    with k have "k < 16" by simp
    moreover from False have "m = k + 1" "a = blit (na_addr d) k [na_addr src ! k AND MASK ! r]" by (simp_all add: m_def a_def)
    ultimately show ?thesis using False d(3) len(1)
      by (simp add: netaddr_truncate_def Let_def and_7 first mem_write_def mem_get_def flip: k_def r_def)
  qed
  moreover have "(if m < 16 then blit a m (replicate (16 - m) 0) else a) = map (trunc_octet (unat (na_prefix_len src)) (na_addr src)) [0..<16]"
    (is "?lhs = ?rhs")
  proof (rule nth_equalityI)
    show "length ?lhs = length ?rhs" using a m by simp
    fix j assume "j < length ?lhs"
    then have j: "j < 16" using a m by (simp split: if_splits)
    have *: "?lhs ! j = (if m \<le> j then 0 else a ! j)" using a m j by (simp add: nth_blit)
    consider "j < k" | "j = k" | "k < j" by linarith
    then show "?lhs ! j = ?rhs ! j"
      unfolding * using j d k by cases (auto simp: a_def m_def nth_blit trunc_octet_def simp flip: k_def r_def)
  qed
  ultimately show ?thesis using d more by simp
qed

lemma bit_trunc_octet:
  "n \<le> 128 \<Longrightarrow> i < 128 \<Longrightarrow> bit (trunc_octet n a (i div 8)) (7 - i mod 8) \<longleftrightarrow> i < n \<and> bit (a ! (i div 8)) (7 - i mod 8)"
proof -
  assume "n \<le> 128" "i < 128"
  define k r where "k = n div 8" and "r = n mod 8"
  define j t where "j = i div 8" and "t = i mod 8"
  have i: "i = 8 * j + t" "t < 8" and n: "n = 8 * k + r" "r < 8"
    unfolding k_def r_def j_def t_def by simp_all
  consider "j < k" | "j = k" | "k < j" by linarith
  then show ?thesis
  proof cases
    case 2
    then have "8 - r \<le> 7 - t \<and> r \<noteq> 0 \<longleftrightarrow> t < r" using i n by auto
    with 2 i n show ?thesis
      by (auto simp: trunc_octet_def bit_and_iff bit_MASK simp flip: k_def r_def j_def t_def)
  qed (use i n in \<open>auto simp: trunc_octet_def simp flip: k_def r_def j_def t_def\<close>)
qed

text \<open>
  \<open>netaddr_truncate\<close>, in place or into another object, never leaves the 16 octets for a prefix
  length of at most 128, keeps family and prefix length, keeps the bits of the prefix and clears all
  others.
\<close>

lemma netaddr_truncate_spec:
  assumes "netaddr_wf src" and "netaddr_wf dst" and "unat (na_prefix_len src) \<le> 128" and "same \<longrightarrow> dst = src"
  shows "\<exists>t. netaddr_truncate dst src same = Inr t \<and> netaddr_wf t \<and>
    na_type t = na_type src \<and> na_prefix_len t = na_prefix_len src \<and>
    (\<forall>i < 128. bit (bytes_addr (na_addr t)) (127 - i) \<longleftrightarrow>
       i < unat (na_prefix_len src) \<and> bit (bytes_addr (na_addr src)) (127 - i))"
proof -
  from assms have "netaddr_truncate dst src same =
      Inr (src\<lparr>na_addr := map (trunc_octet (unat (na_prefix_len src)) (na_addr src)) [0..<16]\<rparr>)"
    by (intro truncate_octets) (simp_all add: netaddr_wf_def NETADDR_MAX_LENGTH_def)
  moreover have "bit (bytes_addr (map (trunc_octet (unat (na_prefix_len src)) (na_addr src)) [0..<16])) (127 - i) \<longleftrightarrow>
      i < unat (na_prefix_len src) \<and> bit (bytes_addr (na_addr src)) (127 - i)" if "i < 128" for i
  proof -
    from that have "i div 8 < 16" by simp
    with that assms show ?thesis
      by (simp add: bit_octet bit_trunc_octet netaddr_wf_def NETADDR_MAX_LENGTH_def)
  qed
  ultimately show ?thesis by (simp add: netaddr_wf_def NETADDR_MAX_LENGTH_def)
qed

lemma netaddr_truncate_spec_witness:
  "\<exists>t. netaddr_truncate \<lparr>na_addr = replicate 16 0, na_type = 0, na_prefix_len = 0\<rparr>
      \<lparr>na_addr = replicate 16 255, na_type = 10, na_prefix_len = 12\<rparr> False = Inr t \<and> na_type t = 10 \<and>
     bit (bytes_addr (na_addr t)) 116 \<and> \<not> bit (bytes_addr (na_addr t)) 115"
proof -
  let ?src = "\<lparr>na_addr = replicate 16 255, na_type = 10, na_prefix_len = 12\<rparr>"
  obtain t where t: "netaddr_truncate \<lparr>na_addr = replicate 16 0, na_type = 0, na_prefix_len = 0\<rparr> ?src False = Inr t"
      "na_type t = na_type ?src"
    and bits: "\<forall>i < 128. bit (bytes_addr (na_addr t)) (127 - i) \<longleftrightarrow>
       i < unat (na_prefix_len ?src) \<and> bit (bytes_addr (na_addr ?src)) (127 - i)"
    using netaddr_truncate_spec [of ?src "\<lparr>na_addr = replicate 16 0, na_type = 0, na_prefix_len = 0\<rparr>" False]
    by (auto simp: netaddr_wf_def NETADDR_MAX_LENGTH_def)
  have "bit (bytes_addr (replicate 16 255)) 116"
    using bit_octet [of "replicate 16 255" 11] by simp
  with bits [rule_format, of 11] bits [rule_format, of 12] t show ?thesis by simp
qed

lemma create_prefix_loop_numeral [simp]:
  "create_prefix_loop trunc host netmask len (numeral v) p =
     (let p' = (if trunc then p\<lparr>na_addr := (na_addr p)[len := host ! len AND netmask ! len]\<rparr> else p) in
      if netmask ! len = 255
      then create_prefix_loop trunc host netmask (len + 2) (numeral v - 2) (p'\<lparr>na_prefix_len := na_prefix_len p' + 8\<rparr>)
      else case mask_octet (netmask ! len) of
          None \<Rightarrow> (p', -1)
        | Some k \<Rightarrow> (p'\<lparr>na_prefix_len := na_prefix_len p' + k\<rparr>, 0))"
  by (simp add: numeral_eq_Suc)

text \<open>
  \<open>netaddr_create_prefix\<close> advances its octet counter twice after an octet of 255 (once in the
  case, once in the loop head), so every second octet of the mask is skipped: the IPv4 mask
  255.255.255.0 gives prefix length 16, not 24, and with \<open>truncate\<close> the second octet is left as it was.
\<close>

lemma netaddr_create_prefix_skips_octets:
  "af_ok F \<Longrightarrow> netaddr_create_prefix F \<lparr>na_addr = replicate 16 0, na_type = 0, na_prefix_len = 0\<rparr>
      \<lparr>na_addr = [10, 1, 2, 3] @ replicate 12 0, na_type = AF_INET F, na_prefix_len = 32\<rparr>
      \<lparr>na_addr = [255, 255, 255, 0] @ replicate 12 0, na_type = AF_INET F, na_prefix_len = 32\<rparr> True =
    (\<lparr>na_addr = [10, 0, 2, 0] @ replicate 12 0, na_type = AF_INET F, na_prefix_len = 16\<rparr>, 0)"
proof -
  assume F: "af_ok F"
  have list: "replicate 16 (0 :: u8) = [0, 0, 0, 0] @ replicate 12 0"
    by (simp add: numeral_eq_Suc)
  from F show ?thesis
    by (auto simp: netaddr_create_prefix_def netaddr_get_af_maxprefix_def af_ok_def mask_octet_def list)
qed

lemma netaddr_create_prefix_skips_octets_witness:
  "na_prefix_len (fst (netaddr_create_prefix af_ref \<lparr>na_addr = replicate 16 0, na_type = 0, na_prefix_len = 0\<rparr>
      \<lparr>na_addr = [10, 1, 2, 3] @ replicate 12 0, na_type = AF_INET af_ref, na_prefix_len = 32\<rparr>
      \<lparr>na_addr = [255, 255, 255, 0] @ replicate 12 0, na_type = AF_INET af_ref, na_prefix_len = 32\<rparr> True)) = 16"
  by (subst netaddr_create_prefix_skips_octets) simp_all

end
