(* ===== verification/RfcParse.thy ===== *)
theory RfcParse
  imports Netaddr
begin

text \<open>
  The parser of RFC 5444 packets, \<open>core/contrib/oonf_api/rfc5444/rfc5444_reader.c\<close>: TLVs, TLV blocks and
  address blocks. A packet is the list \<open>bs\<close> of its bytes, a pointer into it is an index, \<open>eob\<close> the
  index of the first byte after the part being parsed. Reading outside \<open>bs\<close> is a fault. The AVL tree
  of a TLV block is the list of its entries in tree order (insertion after equal keys).
\<close>

section \<open>Bit maps\<close>

text \<open>\<open>common/bitmap256.h\<close>: four words of 64 bits.\<close>

type_synonym bitmap256 = "u64 list"

definition bitmap256_empty :: bitmap256 where
  "bitmap256_empty = replicate 4 0"

definition bitmap256_get :: "bitmap256 \<Rightarrow> u8 \<Rightarrow> bool" where
  "bitmap256_get m b = (m ! unat (drop_bit 6 b) AND push_bit (unat (b AND 63)) 1 \<noteq> 0)"

definition bitmap256_set :: "bitmap256 \<Rightarrow> u8 \<Rightarrow> bitmap256" where
  "bitmap256_set m b = m[unat (drop_bit 6 b) := m ! unat (drop_bit 6 b) OR push_bit (unat (b AND 63)) 1]"

definition bitmap256_reset :: "bitmap256 \<Rightarrow> u8 \<Rightarrow> bitmap256" where
  "bitmap256_reset m b = m[unat (drop_bit 6 b) := m ! unat (drop_bit 6 b) AND NOT (push_bit (unat (b AND 63)) 1)]"

definition bitmap256_is_subset :: "bitmap256 \<Rightarrow> bitmap256 \<Rightarrow> bool" where
  "bitmap256_is_subset reference sub = list_all (\<lambda>i. reference ! i = reference ! i OR sub ! i) [0..<4]"

section \<open>Data\<close>

definition RFC5444_MAX_ADDRLEN :: nat where "RFC5444_MAX_ADDRLEN = 16"
definition RFC5444_TLV_FLAG_TYPEEXT :: u8 where "RFC5444_TLV_FLAG_TYPEEXT = 0x80"
definition RFC5444_TLV_FLAG_SINGLE_IDX :: u8 where "RFC5444_TLV_FLAG_SINGLE_IDX = 0x40"
definition RFC5444_TLV_FLAG_MULTI_IDX :: u8 where "RFC5444_TLV_FLAG_MULTI_IDX = 0x20"
definition RFC5444_TLV_FLAG_VALUE :: u8 where "RFC5444_TLV_FLAG_VALUE = 0x10"
definition RFC5444_TLV_FLAG_EXTVALUE :: u8 where "RFC5444_TLV_FLAG_EXTVALUE = 0x08"
definition RFC5444_TLV_FLAG_MULTIVALUE :: u8 where "RFC5444_TLV_FLAG_MULTIVALUE = 0x04"
definition RFC5444_ADDR_FLAG_HEAD :: u8 where "RFC5444_ADDR_FLAG_HEAD = 0x80"
definition RFC5444_ADDR_FLAG_FULLTAIL :: u8 where "RFC5444_ADDR_FLAG_FULLTAIL = 0x40"
definition RFC5444_ADDR_FLAG_ZEROTAIL :: u8 where "RFC5444_ADDR_FLAG_ZEROTAIL = 0x20"
definition RFC5444_ADDR_FLAG_SINGLEPLEN :: u8 where "RFC5444_ADDR_FLAG_SINGLEPLEN = 0x10"
definition RFC5444_ADDR_FLAG_MULTIPLEN :: u8 where "RFC5444_ADDR_FLAG_MULTIPLEN = 0x08"

lemmas rfc5444_tlv_flags =
  RFC5444_TLV_FLAG_TYPEEXT_def RFC5444_TLV_FLAG_SINGLE_IDX_def RFC5444_TLV_FLAG_MULTI_IDX_def
  RFC5444_TLV_FLAG_VALUE_def RFC5444_TLV_FLAG_EXTVALUE_def RFC5444_TLV_FLAG_MULTIVALUE_def

lemmas rfc5444_addr_flags =
  RFC5444_ADDR_FLAG_HEAD_def RFC5444_ADDR_FLAG_FULLTAIL_def RFC5444_ADDR_FLAG_ZEROTAIL_def
  RFC5444_ADDR_FLAG_SINGLEPLEN_def RFC5444_ADDR_FLAG_MULTIPLEN_def

text \<open>
  \<open>rfc5444_reader_tlvblock_entry\<close>. Value pointers are indices into the packet, \<open>None\<close> for NULL;
  \<open>next_entry\<close> is the position of the next matching entry in its block.
\<close>

record tlv_entry =
  tlv_type :: u8
  tlv_flags :: u8
  tlv_type_ext :: u8
  tlv_length :: u16
  single_value :: "nat option"
  tlv_index1 :: u8
  tlv_index2 :: u8
  next_entry :: "nat option"
  tlv_order :: u16
  tlv_value :: "nat option"
  multivalue_tlv :: bool
  int_drop_tlv :: bitmap256

definition tlv_zero :: tlv_entry where
  "tlv_zero = \<lparr>tlv_type = 0, tlv_flags = 0, tlv_type_ext = 0, tlv_length = 0, single_value = None,
     tlv_index1 = 0, tlv_index2 = 0, next_entry = None, tlv_order = 0, tlv_value = None,
     multivalue_tlv = False, int_drop_tlv = bitmap256_empty\<rparr>"

record addrblock_entry =
  ab_tlvblock :: "tlv_entry list"
  num_addr :: u8
  mid_start :: u8
  mid_len :: u8
  prefixes :: "nat option"
  mid_src :: nat
  ab_addr :: "u8 list"
  prefixlen :: u8
  addr_block_ptr :: nat
  addr_block_size :: nat
  addr_tlv_size :: nat
  dropAddr :: bitmap256

definition addrblock_zero :: addrblock_entry where
  "addrblock_zero = \<lparr>ab_tlvblock = [], num_addr = 0, mid_start = 0, mid_len = 0, prefixes = None, mid_src = 0,
     ab_addr = replicate RFC5444_MAX_ADDRLEN 0, prefixlen = 0, addr_block_ptr = 0, addr_block_size = 0,
     addr_tlv_size = 0, dropAddr = bitmap256_empty\<rparr>"

section \<open>Reading bytes\<close>

text \<open>
  The reading position together with the result so far. After the first error nothing is read and
  the value is 0. \<open>get_u16\<close> reads the high byte first (the C expression leaves the order of its two
  calls open; this is the order that gives network byte order).
\<close>

type_synonym pos = "nat \<times> int"

definition rfc5444_get_u8 :: "u8 list \<Rightarrow> nat \<Rightarrow> pos \<Rightarrow> (u8 \<times> pos) outcome" where
  "rfc5444_get_u8 bs eob = (\<lambda>(ptr, result).
     if result \<noteq> RFC5444_OKAY then Inr (0, ptr, result)
     else if ptr \<ge> eob then Inr (0, ptr, RFC5444_END_OF_BUFFER)
     else bnd (mem_get bs ptr) (\<lambda>b. Inr (b, ptr + 1, result)))"

definition rfc5444_get_u16 :: "u8 list \<Rightarrow> nat \<Rightarrow> pos \<Rightarrow> (u16 \<times> pos) outcome" where
  "rfc5444_get_u16 bs eob p =
     bnd (rfc5444_get_u8 bs eob p) (\<lambda>(hi, p). bnd (rfc5444_get_u8 bs eob p) (\<lambda>(lo, p).
     Inr (push_bit 8 (ucast hi) OR ucast lo, p)))"

definition calc_tlvblock_intorder :: "u8 \<Rightarrow> u8 \<Rightarrow> u16" where
  "calc_tlvblock_intorder ty ext = push_bit 8 (ucast ty) OR ucast ext"

section \<open>TLVs\<close>

text \<open>
  \<open>_parse_tlv\<close> writes into the entry its caller passes, which keeps the fields it does not set from the
  TLV before. The result is the code, the entry and the position; on an error the caller drops the
  entry.
\<close>

definition parse_tlv_index :: "u8 list \<Rightarrow> nat \<Rightarrow> u8 \<Rightarrow> u8 \<Rightarrow> pos \<Rightarrow> ((u8 \<times> u8) \<times> pos) outcome" where
  "parse_tlv_index bs eob addr_count masked p =
     (if masked = 0 then Inr ((0, addr_count - 1), p)
      else if masked = RFC5444_TLV_FLAG_SINGLE_IDX
      then bnd (rfc5444_get_u8 bs eob p) (\<lambda>(i, p). Inr ((i, i), p))
      else bnd (rfc5444_get_u8 bs eob p) (\<lambda>(i, p). bnd (rfc5444_get_u8 bs eob p) (\<lambda>(j, p). Inr ((i, j), p))))"

definition parse_tlv_length :: "u8 list \<Rightarrow> nat \<Rightarrow> u8 \<Rightarrow> pos \<Rightarrow> (u16 \<times> pos) outcome" where
  "parse_tlv_length bs eob masked p =
     (if masked = 0 then Inr (0, p)
      else if masked = RFC5444_TLV_FLAG_VALUE
      then bnd (rfc5444_get_u8 bs eob p) (\<lambda>(n, p). Inr (ucast n, p))
      else rfc5444_get_u16 bs eob p)"

text \<open>The end of \<open>_parse_tlv\<close>: the value of a TLV whose fields are known to fit.\<close>

definition parse_tlv_value :: "tlv_entry \<Rightarrow> nat \<Rightarrow> (int \<times> tlv_entry \<times> nat) outcome" where
  "parse_tlv_value e ptr =
     (if tlv_length e = 0 then Inr (RFC5444_OKAY, e\<lparr>tlv_value := None\<rparr>, ptr)
      else let e = e\<lparr>tlv_value := Some ptr\<rparr>;
               ptr' = ptr + unat (tlv_length e);
               count = tlv_index2 e - tlv_index1 e + 1;
               e = (if count = 1 then e\<lparr>multivalue_tlv := False\<rparr> else e)
        in if \<not> multivalue_tlv e then Inr (RFC5444_OKAY, e\<lparr>single_value := tlv_value e\<rparr>, ptr')
           else if count = 0 then Inl DivByZero
           else if unat (tlv_length e) mod unat count \<noteq> 0 then Inr (RFC5444_BAD_TLV_LENGTH, e, ptr')
           else Inr (RFC5444_OKAY, e\<lparr>tlv_length := of_nat (unat (tlv_length e) div unat count)\<rparr>, ptr'))"

definition parse_tlv_head :: "u8 list \<Rightarrow> nat \<Rightarrow> nat \<Rightarrow> (u8 \<times> u8 \<times> u8 \<times> pos) outcome" where
  "parse_tlv_head bs eob ptr =
     bnd (rfc5444_get_u8 bs eob (ptr, RFC5444_OKAY)) (\<lambda>(ty, p).
     bnd (rfc5444_get_u8 bs eob p) (\<lambda>(fl, p).
     bnd (if fl AND RFC5444_TLV_FLAG_TYPEEXT \<noteq> 0 then rfc5444_get_u8 bs eob p else Inr (0, p)) (\<lambda>(ext, p).
     Inr (ty, fl, ext, p))))"

definition parse_tlv :: "u8 list \<Rightarrow> nat \<Rightarrow> u8 \<Rightarrow> tlv_entry \<Rightarrow> nat \<Rightarrow> (int \<times> tlv_entry \<times> nat) outcome" where
  "parse_tlv bs eob addr_count e ptr =
     bnd (parse_tlv_head bs eob ptr) (\<lambda>(ty, fl, ext, p).
     let idx = fl AND (RFC5444_TLV_FLAG_SINGLE_IDX OR RFC5444_TLV_FLAG_MULTI_IDX);
         val = fl AND (RFC5444_TLV_FLAG_VALUE OR RFC5444_TLV_FLAG_EXTVALUE)
     in if idx = RFC5444_TLV_FLAG_SINGLE_IDX OR RFC5444_TLV_FLAG_MULTI_IDX
        then Inr (RFC5444_BAD_TLV_IDXFLAGS, e, eob)
        else bnd (parse_tlv_index bs eob addr_count idx p) (\<lambda>((i1, i2), p).
          if addr_count > 0 \<and> (i1 \<ge> addr_count \<or> i2 \<ge> addr_count) then Inr (RFC5444_BAD_TLV_INDEX, e, eob)
          else if val = RFC5444_TLV_FLAG_EXTVALUE then Inr (RFC5444_BAD_TLV_VALUEFLAGS, e, eob)
          else bnd (parse_tlv_length bs eob val p) (\<lambda>(len, ptr', result).
            if ptr' + unat len > eob then Inr (RFC5444_END_OF_BUFFER, e, eob)
            else if result \<noteq> RFC5444_OKAY then Inr (result, e, eob)
            else parse_tlv_value (e\<lparr>tlv_type := ty, tlv_flags := fl, tlv_type_ext := ext,
                   tlv_order := calc_tlvblock_intorder ty ext, tlv_index1 := i1, tlv_index2 := i2, tlv_length := len,
                   multivalue_tlv := (fl AND RFC5444_TLV_FLAG_MULTIVALUE \<noteq> 0)\<rparr>) ptr')))"

section \<open>What a successful read says\<close>

lemma get_u8_total: "eob \<le> length bs \<Longrightarrow> \<exists>b p'. rfc5444_get_u8 bs eob p = Inr (b, p')"
  by (cases p) (auto simp: rfc5444_get_u8_def mem_get_def)

lemma get_u16_total: "eob \<le> length bs \<Longrightarrow> \<exists>b p'. rfc5444_get_u16 bs eob p = Inr (b, p')"
proof -
  assume le: "eob \<le> length bs"
  obtain hi p1 where hi: "rfc5444_get_u8 bs eob p = Inr (hi, p1)" using get_u8_total [OF le] by blast
  obtain lo p2 where "rfc5444_get_u8 bs eob p1 = Inr (lo, p2)" using get_u8_total [OF le] by blast
  with hi show ?thesis by (simp add: rfc5444_get_u16_def)
qed

lemma get_u8_okay:
  "rfc5444_get_u8 bs eob p = Inr (b, ptr', RFC5444_OKAY) \<Longrightarrow>
     p = (ptr' - 1, RFC5444_OKAY) \<and> 0 < ptr' \<and> ptr' \<le> eob \<and> ptr' \<le> length bs \<and> b = bs ! (ptr' - 1)"
  by (cases p) (auto simp: rfc5444_get_u8_def outcome_simps rfc5444_results split: if_splits)

lemma get_u8_mono: "rfc5444_get_u8 bs eob (ptr, r) = Inr (b, ptr', r') \<Longrightarrow> ptr \<le> ptr'"
  by (auto simp: rfc5444_get_u8_def outcome_simps split: if_splits)

lemma get_u16_okay:
  assumes "rfc5444_get_u16 bs eob p = Inr (v, ptr', RFC5444_OKAY)"
  shows "p = (ptr' - 2, RFC5444_OKAY) \<and> 2 \<le> ptr' \<and> ptr' \<le> eob \<and> ptr' \<le> length bs \<and>
    v = push_bit 8 (ucast (bs ! (ptr' - 2))) OR ucast (bs ! (ptr' - 1))"
proof -
  from assms obtain hi p1 lo where hi: "rfc5444_get_u8 bs eob p = Inr (hi, p1)"
    and lo: "rfc5444_get_u8 bs eob p1 = Inr (lo, ptr', RFC5444_OKAY)" and v: "v = push_bit 8 (ucast hi) OR ucast lo"
    by (auto simp: rfc5444_get_u16_def outcome_simps)
  from get_u8_okay [OF lo] have p1: "p1 = (ptr' - 1, RFC5444_OKAY)" "0 < ptr'" "ptr' \<le> eob" "ptr' \<le> length bs"
    "lo = bs ! (ptr' - 1)" by simp_all
  from get_u8_okay [of bs eob p hi "ptr' - 1"] hi p1
  have "p = (ptr' - 1 - 1, RFC5444_OKAY)" "0 < ptr' - 1" "hi = bs ! (ptr' - 1 - 1)" by simp_all
  then show ?thesis using p1 v by (simp add: numeral_2_eq_2)
qed

lemma get_u8_error: "rfc5444_get_u8 bs eob (ptr, r) = Inr (b, ptr', r') \<Longrightarrow> r \<noteq> RFC5444_OKAY \<Longrightarrow> ptr' = ptr \<and> r' = r \<and> b = 0"
  by (simp add: rfc5444_get_u8_def)

text \<open>The value of a TLV is a region of the packet; a multi-value TLV has one part per address.\<close>

definition tlv_extent :: "tlv_entry \<Rightarrow> nat" where
  "tlv_extent e = (if multivalue_tlv e
     then unat (tlv_length e) * unat (tlv_index2 e - tlv_index1 e + 1) else unat (tlv_length e))"

definition tlv_ok :: "u8 \<Rightarrow> nat \<Rightarrow> tlv_entry \<Rightarrow> bool" where
  "tlv_ok addr_count eob e \<longleftrightarrow>
     (addr_count > 0 \<longrightarrow> tlv_index1 e < addr_count \<and> tlv_index2 e < addr_count) \<and>
     tlv_order e = calc_tlvblock_intorder (tlv_type e) (tlv_type_ext e) \<and>
     (case tlv_value e of None \<Rightarrow> tlv_length e = 0
      | Some v \<Rightarrow> v + tlv_extent e \<le> eob \<and> (\<not> multivalue_tlv e \<longrightarrow> single_value e = Some v)) \<and>
     length (int_drop_tlv e) = 4"

lemma parse_tlv_value_okay:
  assumes "parse_tlv_value e ptr = Inr (RFC5444_OKAY, e', ptr')" and "ptr + unat (tlv_length e) \<le> eob"
  shows "ptr' = ptr + unat (tlv_length e) \<and> tlv_index1 e' = tlv_index1 e \<and> tlv_index2 e' = tlv_index2 e \<and>
    tlv_order e' = tlv_order e \<and> tlv_type e' = tlv_type e \<and> tlv_type_ext e' = tlv_type_ext e \<and>
    int_drop_tlv e' = int_drop_tlv e \<and>
    (case tlv_value e' of None \<Rightarrow> tlv_length e' = 0
      | Some v \<Rightarrow> v = ptr \<and> v + tlv_extent e' \<le> eob \<and> (\<not> multivalue_tlv e' \<longrightarrow> single_value e' = Some v))"
proof -
  have "unat (of_nat (unat (l :: u16) div n) :: u16) * n \<le> unat l" for l n
  proof -
    have "unat l div n \<le> unat l" by simp
    also have "\<dots> < 2 ^ 16" using unsigned_less [of l, where ?'a = nat] by simp
    finally show ?thesis by (simp add: unat_of_nat take_bit_nat_eq_self)
  qed
  note part = order_trans [OF add_left_mono [OF this] assms(2)]
  from assms part [of "unat (tlv_index2 e - tlv_index1 e + 1)"] show ?thesis
    by (auto simp: parse_tlv_value_def Let_def tlv_extent_def RFC5444_OKAY_def RFC5444_BAD_TLV_LENGTH_def
        split: if_splits option.splits)
qed

lemma parse_tlv_length_okay:
  "parse_tlv_length bs eob val p = Inr (len, ptr', RFC5444_OKAY) \<Longrightarrow> \<exists>q \<le> ptr'. p = (q, RFC5444_OKAY)"
  by (auto simp: parse_tlv_length_def outcome_simps split: if_splits dest!: get_u8_okay get_u16_okay)

lemma parse_tlv_index_okay:
  "parse_tlv_index bs eob ac idx p = Inr (ij, q, RFC5444_OKAY) \<Longrightarrow> \<exists>q' \<le> q. p = (q', RFC5444_OKAY)"
  by (auto simp: parse_tlv_index_def outcome_simps split: if_splits dest!: get_u8_okay)

lemma parse_tlv_index_total: "eob \<le> length bs \<Longrightarrow> \<exists>ij p'. parse_tlv_index bs eob ac idx p = Inr (ij, p')"
proof -
  assume le: "eob \<le> length bs"
  obtain i p1 where i: "rfc5444_get_u8 bs eob p = Inr (i, p1)" using get_u8_total [OF le] by blast
  obtain j p2 where "rfc5444_get_u8 bs eob p1 = Inr (j, p2)" using get_u8_total [OF le] by blast
  with i show ?thesis by (simp add: parse_tlv_index_def)
qed

lemma parse_tlv_length_total: "eob \<le> length bs \<Longrightarrow> \<exists>n p'. parse_tlv_length bs eob val p = Inr (n, p')"
proof -
  assume le: "eob \<le> length bs"
  obtain n p1 where n: "rfc5444_get_u8 bs eob p = Inr (n, p1)" using get_u8_total [OF le] by blast
  obtain m p2 where "rfc5444_get_u16 bs eob p = Inr (m, p2)" using get_u16_total [OF le] by blast
  with n show ?thesis by (simp add: parse_tlv_length_def)
qed

lemma parse_tlv_head_okay:
  assumes "parse_tlv_head bs eob ptr = Inr (ty, fl, ext, q, RFC5444_OKAY)"
  shows "ptr + 2 \<le> q \<and> q \<le> eob"
proof -
  from assms obtain p1 p2 where 1: "rfc5444_get_u8 bs eob (ptr, RFC5444_OKAY) = Inr (ty, p1)"
    and 2: "rfc5444_get_u8 bs eob p1 = Inr (fl, p2)"
    and 3: "(if fl AND RFC5444_TLV_FLAG_TYPEEXT \<noteq> 0 then rfc5444_get_u8 bs eob p2 else Inr (0, p2)) =
      Inr (ext, q, RFC5444_OKAY)"
    unfolding parse_tlv_head_def by (auto simp: bnd_Inr_iff)
  have "\<exists>q2 \<le> q. p2 = (q2, RFC5444_OKAY) \<and> (q2 = q \<or> q \<le> eob)"
  proof (cases "fl AND RFC5444_TLV_FLAG_TYPEEXT = 0")
    case False
    with 3 get_u8_okay [of bs eob p2 ext q] show ?thesis by (intro exI [where x = "q - 1"]) simp
  qed (use 3 in simp)
  then obtain q2 where q2: "q2 \<le> q" "p2 = (q2, RFC5444_OKAY)" "q2 = q \<or> q \<le> eob" by blast
  with 2 get_u8_okay [of bs eob p1 fl q2] have q1: "p1 = (q2 - 1, RFC5444_OKAY)" "0 < q2" "q2 \<le> eob" by simp_all
  with 1 get_u8_okay [of bs eob "(ptr, RFC5444_OKAY)" ty "q2 - 1"] have "ptr = q2 - 1 - 1" "0 < q2 - 1" by simp_all
  with q1 q2 show ?thesis by linarith
qed

lemma parse_tlv_head_total: "eob \<le> length bs \<Longrightarrow> \<exists>r. parse_tlv_head bs eob ptr = Inr r"
proof -
  assume le: "eob \<le> length bs"
  obtain ty p1 where 1: "rfc5444_get_u8 bs eob (ptr, RFC5444_OKAY) = Inr (ty, p1)" using get_u8_total [OF le] by blast
  obtain fl p2 where 2: "rfc5444_get_u8 bs eob p1 = Inr (fl, p2)" using get_u8_total [OF le] by blast
  obtain ext p3 where "rfc5444_get_u8 bs eob p2 = Inr (ext, p3)" using get_u8_total [OF le] by blast
  with 1 2 show ?thesis by (simp add: parse_tlv_head_def)
qed

lemma parse_tlv_okay:
  assumes run: "parse_tlv bs eob ac e ptr = Inr (RFC5444_OKAY, e', ptr')"
  shows "ptr + 2 \<le> ptr' \<and> ptr' \<le> eob \<and> (length (int_drop_tlv e) = 4 \<longrightarrow> tlv_ok ac eob e')"
proof -
  note codes = RFC5444_OKAY_def RFC5444_BAD_TLV_IDXFLAGS_def RFC5444_BAD_TLV_INDEX_def
    RFC5444_BAD_TLV_VALUEFLAGS_def RFC5444_END_OF_BUFFER_def
  from run obtain ty fl ext p3 where head: "parse_tlv_head bs eob ptr = Inr (ty, fl, ext, p3)"
    unfolding parse_tlv_def bnd_Inr_iff by auto
  with run obtain i1 i2 p4 where
      4: "parse_tlv_index bs eob ac (fl AND (RFC5444_TLV_FLAG_SINGLE_IDX OR RFC5444_TLV_FLAG_MULTI_IDX)) p3 = Inr ((i1, i2), p4)"
    unfolding parse_tlv_def Let_def by (auto simp: outcome_simps codes split: if_splits)
  with run head obtain len q where 5: "ac > 0 \<longrightarrow> i1 < ac \<and> i2 < ac" and
      6: "parse_tlv_length bs eob (fl AND (RFC5444_TLV_FLAG_VALUE OR RFC5444_TLV_FLAG_EXTVALUE)) p4 = Inr (len, q, RFC5444_OKAY)" and
      7: "q + unat len \<le> eob" and
      8: "parse_tlv_value (e\<lparr>tlv_type := ty, tlv_flags := fl, tlv_type_ext := ext,
                   tlv_order := calc_tlvblock_intorder ty ext, tlv_index1 := i1, tlv_index2 := i2, tlv_length := len,
                   multivalue_tlv := (fl AND RFC5444_TLV_FLAG_MULTIVALUE \<noteq> 0)\<rparr>) q = Inr (RFC5444_OKAY, e', ptr')"
    unfolding parse_tlv_def Let_def by (auto simp: outcome_simps codes not_le not_less split: if_splits)
  from parse_tlv_length_okay [OF 6] obtain q4 where q4: "q4 \<le> q" "p4 = (q4, RFC5444_OKAY)" by blast
  with 4 parse_tlv_index_okay obtain q3 where q3: "q3 \<le> q4" "p3 = (q3, RFC5444_OKAY)" by blast
  with head parse_tlv_head_okay have "ptr + 2 \<le> q3" by blast
  with parse_tlv_value_okay [OF 8, of eob] 7 5 q3 q4 show ?thesis
    by (auto simp: tlv_ok_def split: option.splits)
qed

lemma parse_tlv_value_fault: "parse_tlv_value e ptr = Inl f \<Longrightarrow> f = DivByZero \<and> tlv_index2 e - tlv_index1 e + 1 = 0"
  by (auto simp: parse_tlv_value_def Let_def split: if_splits)

lemma bnd_Inl_iff: "bnd m f = Inl e \<longleftrightarrow> m = Inl e \<or> (\<exists>x. m = Inr x \<and> f x = Inl e)"
  by (cases m) auto

lemma parse_tlv_fault:
  assumes le: "eob \<le> length bs" and run: "parse_tlv bs eob ac e ptr = Inl f"
  shows "f = DivByZero"
proof -
  obtain ty fl ext p3 where head: "parse_tlv_head bs eob ptr = Inr (ty, fl, ext, p3)"
    using parse_tlv_head_total [OF le] by (metis prod_cases4)
  obtain i1 i2 p4 where
      4: "parse_tlv_index bs eob ac (fl AND (RFC5444_TLV_FLAG_SINGLE_IDX OR RFC5444_TLV_FLAG_MULTI_IDX)) p3 = Inr ((i1, i2), p4)"
    using parse_tlv_index_total [OF le] by (metis surj_pair)
  obtain len q r where
      6: "parse_tlv_length bs eob (fl AND (RFC5444_TLV_FLAG_VALUE OR RFC5444_TLV_FLAG_EXTVALUE)) p4 = Inr (len, q, r)"
    using parse_tlv_length_total [OF le] by (metis surj_pair)
  from run head 4 6 show ?thesis
    by (auto simp: parse_tlv_def Let_def dest: parse_tlv_value_fault split: if_splits)
qed

section \<open>TLV blocks\<close>

text \<open>\<open>avl_insert\<close> into the tree of a TLV block, ordered by \<open>_order\<close>, equal keys allowed.\<close>

definition tlv_insert :: "tlv_entry \<Rightarrow> tlv_entry list \<Rightarrow> tlv_entry list" where
  "tlv_insert e = tree_add (\<lambda>x. avl_comp (tlv_order e) (tlv_order x)) e"

definition calloc :: "world \<Rightarrow> bool \<times> world" where
  "calloc w = (malloc_ok w (tick w), w\<lparr>tick := Suc (tick w)\<rparr>)"

text \<open>
  The loop over the TLVs. It is given \<open>eob\<close>, not the end of its block, to read up to; \<open>e\<close> is the static
  entry that is reused from TLV to TLV.
\<close>

function parse_tlvs :: "u8 list \<Rightarrow> nat \<Rightarrow> nat \<Rightarrow> u8 \<Rightarrow> tlv_entry \<Rightarrow> tlv_entry list \<Rightarrow> nat \<Rightarrow> world \<Rightarrow>
    (int \<times> tlv_entry list \<times> nat \<times> world) outcome" where
  "parse_tlvs bs eob block_end addr_count e es ptr w =
     (if ptr < block_end
      then case parse_tlv bs eob addr_count e ptr of
          Inl f \<Rightarrow> Inl f
        | Inr (result, e', ptr') \<Rightarrow>
            if result \<noteq> RFC5444_OKAY then Inr (result, [], eob, w)
            else let (ok, w') = calloc w in
              if \<not> ok then Inr (RFC5444_OUT_OF_MEMORY, [], eob, w')
              else parse_tlvs bs eob block_end addr_count e' (tlv_insert e' es) ptr' w'
      else Inr (RFC5444_OKAY, es, ptr, w))"
  by pat_completeness auto
termination
proof (relation "measure (\<lambda>(bs, eob, block_end, addr_count, e, es, ptr, w). block_end - ptr)", goal_cases)
  case (2 bs eob block_end addr_count e es ptr w r result r' e' ptr' r'' ok w')
  then have "parse_tlv bs eob addr_count e ptr = Inr (RFC5444_OKAY, e', ptr')" by simp
  from parse_tlv_okay [OF this] 2(1) show ?case by (auto intro: diff_less_mono2)
qed simp

declare parse_tlvs.simps [simp del]

definition parse_tlvblock :: "u8 list \<Rightarrow> nat \<Rightarrow> u8 \<Rightarrow> nat \<Rightarrow> world \<Rightarrow>
    (int \<times> tlv_entry list \<times> nat \<times> world) outcome" where
  "parse_tlvblock bs eob addr_count ptr w =
     bnd (rfc5444_get_u16 bs eob (ptr, RFC5444_OKAY)) (\<lambda>(len, ptr', result).
     let block_end = ptr + 2 + unat len in
     if block_end > eob then Inr (RFC5444_END_OF_BUFFER, [], eob, w)
     else parse_tlvs bs eob block_end addr_count tlv_zero [] ptr' w)"

text \<open>The entries of a parsed block: in tree order, each with its value inside the packet.\<close>

definition block_ok :: "u8 \<Rightarrow> nat \<Rightarrow> tlv_entry list \<Rightarrow> bool" where
  "block_ok addr_count eob es \<longleftrightarrow> sorted (map (\<lambda>e. unat (tlv_order e)) es) \<and> (\<forall>e \<in> set es. tlv_ok addr_count eob e)"

lemma tlv_insert_set [simp]: "set (tlv_insert e es) = insert e (set es)"
  by (simp add: tlv_insert_def)

lemma tlv_insert_sorted:
  assumes "sorted (map (\<lambda>e. unat (tlv_order e)) es)"
  shows "sorted (map (\<lambda>e. unat (tlv_order e)) (tlv_insert e es))"
proof -
  have "avl_comp a b = avl_comp (unat a) (unat b)" for a b :: u16
    by (simp add: avl_comp_def word_less_nat_alt)
  with sorted_tree_add [OF assms] show ?thesis by (simp add: tlv_insert_def)
qed

lemma parse_tlvs_okay:
  assumes "parse_tlvs bs eob block_end ac e es ptr w = Inr (result, es', ptr', w')"
    and "block_ok ac eob es" and "length (int_drop_tlv e) = 4" and "ptr \<le> eob"
  shows "block_ok ac eob es' \<and> ptr' \<le> eob \<and> (result = RFC5444_OKAY \<longrightarrow> ptr \<le> ptr' \<and> block_end \<le> ptr') \<and>
    (result \<noteq> RFC5444_OKAY \<longrightarrow> es' = [] \<and> ptr' = eob)"
  using assms
proof (induction bs eob block_end ac e es ptr w rule: parse_tlvs.induct)
  case (1 bs eob block_end ac e es ptr w)
  show ?case
  proof (cases "ptr < block_end")
    case False
    with 1 show ?thesis by (simp add: parse_tlvs.simps)
  next
    case True
    obtain code e1 ptr1 where tlv: "parse_tlv bs eob ac e ptr = Inr (code, e1, ptr1)"
      using 1(2) True by (cases "parse_tlv bs eob ac e ptr") (auto simp: parse_tlvs.simps)
    obtain ok w1 where w1: "calloc w = (ok, w1)" by (metis surj_pair)
    show ?thesis
    proof (cases "code = RFC5444_OKAY \<and> ok")
      case False
      with 1(2) True tlv w1 show ?thesis
        by (auto simp: parse_tlvs.simps block_ok_def RFC5444_OKAY_def RFC5444_OUT_OF_MEMORY_def split: if_splits)
    next
      case okay: True
      with parse_tlv_okay [of bs eob ac e ptr e1 ptr1] tlv 1(4)
      have step: "ptr + 2 \<le> ptr1" "ptr1 \<le> eob" "tlv_ok ac eob e1" by simp_all
      moreover from 1(3) step have "block_ok ac eob (tlv_insert e1 es)"
        by (auto simp: block_ok_def tlv_insert_sorted)
      moreover from step have "length (int_drop_tlv e1) = 4" by (simp add: tlv_ok_def)
      moreover from 1(2) True tlv w1 okay
      have "parse_tlvs bs eob block_end ac e1 (tlv_insert e1 es) ptr1 w1 = Inr (result, es', ptr', w')"
        by (simp add: parse_tlvs.simps [of _ _ _ _ _ es])
      ultimately have "block_ok ac eob es' \<and> ptr' \<le> eob \<and> (result = RFC5444_OKAY \<longrightarrow> ptr1 \<le> ptr' \<and> block_end \<le> ptr') \<and>
          (result \<noteq> RFC5444_OKAY \<longrightarrow> es' = [] \<and> ptr' = eob)"
        using okay w1 by (intro "1.IH" [OF True tlv refl refl]) simp_all
      with step(1) show ?thesis by linarith
    qed
  qed
qed

lemma parse_tlvs_fault:
  assumes "eob \<le> length bs" and "parse_tlvs bs eob block_end ac e es ptr w = Inl f"
  shows "f = DivByZero"
  using assms
proof (induction bs eob block_end ac e es ptr w rule: parse_tlvs.induct)
  case (1 bs eob block_end ac e es ptr w)
  from 1(3) have lt: "ptr < block_end" by (simp add: parse_tlvs.simps split: if_splits)
  show ?case
  proof (cases "parse_tlv bs eob ac e ptr")
    case (Inl f')
    with 1(3) lt have "f' = f" by (simp add: parse_tlvs.simps)
    with parse_tlv_fault [OF 1(2) Inl] show ?thesis by simp
  next
    case (Inr r)
    obtain code e1 ptr1 where r: "r = (code, e1, ptr1)" by (cases r)
    obtain ok w1 where w1: "calloc w = (ok, w1)" by (metis surj_pair)
    from 1(3) lt Inr r w1 have okay: "\<not> code \<noteq> RFC5444_OKAY" "ok"
      and rest: "parse_tlvs bs eob block_end ac e1 (tlv_insert e1 es) ptr1 w1 = Inl f"
      by (auto simp: parse_tlvs.simps [of _ _ _ _ _ es] split: if_splits)
    show ?thesis
      by (rule "1.IH" [OF lt Inr r [symmetric] refl okay(1) refl w1 [symmetric] _ 1(2) rest]) (simp add: okay)
  qed
qed

lemma block_ok_Nil [simp]: "block_ok ac eob []"
  by (simp add: block_ok_def)

lemma length_drop_zero [simp]: "length (int_drop_tlv tlv_zero) = 4"
  by (simp add: tlv_zero_def bitmap256_empty_def)

lemma get_u16_advance:
  assumes "rfc5444_get_u16 bs eob (ptr, RFC5444_OKAY) = Inr (len, ptr', r)" and "ptr + 2 + n \<le> eob"
  shows "r = RFC5444_OKAY \<and> ptr' = ptr + 2"
  using assms by (auto simp: rfc5444_get_u16_def rfc5444_get_u8_def outcome_simps split: if_splits)

lemma parse_tlvblock_okay:
  assumes "parse_tlvblock bs eob ac ptr w = Inr (result, es, ptr', w')"
  shows "block_ok ac eob es \<and> ptr' \<le> eob \<and> (result = RFC5444_OKAY \<longrightarrow> ptr + 2 \<le> ptr') \<and>
    (result \<noteq> RFC5444_OKAY \<longrightarrow> es = [] \<and> ptr' = eob)"
proof -
  from assms obtain len p r where len: "rfc5444_get_u16 bs eob (ptr, RFC5444_OKAY) = Inr (len, p, r)"
    by (auto simp: parse_tlvblock_def bnd_Inr_iff)
  show ?thesis
  proof (cases "ptr + 2 + unat len > eob")
    case True
    with assms len show ?thesis by (simp add: parse_tlvblock_def RFC5444_OKAY_def RFC5444_END_OF_BUFFER_def)
  next
    case False
    with get_u16_advance [OF len, of "unat len"] have p: "p = ptr + 2" by simp
    from False assms len have "parse_tlvs bs eob (ptr + 2 + unat len) ac tlv_zero [] p w = Inr (result, es, ptr', w')"
      by (simp add: parse_tlvblock_def)
    from parse_tlvs_okay [OF this] p False show ?thesis by simp
  qed
qed

lemma parse_tlvblock_fault:
  "eob \<le> length bs \<Longrightarrow> parse_tlvblock bs eob ac ptr w = Inl f \<Longrightarrow> f = DivByZero"
  using get_u16_total [of eob bs "(ptr, RFC5444_OKAY)"]
  by (auto simp: parse_tlvblock_def Let_def dest: parse_tlvs_fault split: if_splits)

section \<open>Address blocks\<close>

text \<open>
  \<open>_parse_addrblock\<close> into a cleared entry. The lengths are bytes: \<open>mid_len\<close> wraps. The single prefix
  length is read without looking at \<open>eob\<close>. The result is the code, the entry and the position.
\<close>

definition parse_addr_head :: "u8 list \<Rightarrow> nat \<Rightarrow> u8 \<Rightarrow> u8 \<Rightarrow> addrblock_entry \<Rightarrow> pos \<Rightarrow>
    (int + addrblock_entry \<times> pos) outcome" where
  "parse_addr_head bs eob addr_len flags a p =
     (if flags AND RFC5444_ADDR_FLAG_HEAD = 0 then Inr (Inr (a, p))
      else bnd (rfc5444_get_u8 bs eob p) (\<lambda>(h, ptr, result).
        if h < 1 \<or> unat h \<ge> RFC5444_MAX_ADDRLEN \<or> h \<ge> addr_len then Inr (Inl RFC5444_BAD_ADDR_HEAD_LENGTH)
        else if ptr + unat h > eob then Inr (Inl RFC5444_END_OF_BUFFER)
        else bnd (mem_read bs ptr (unat h)) (\<lambda>head. bnd (mem_write (ab_addr a) 0 head) (\<lambda>addr.
          Inr (Inr (a\<lparr>mid_start := h, ab_addr := addr, mid_len := mid_len a - h\<rparr>, ptr + unat h, result))))))"

definition parse_addr_tail :: "u8 list \<Rightarrow> nat \<Rightarrow> u8 \<Rightarrow> u8 \<Rightarrow> addrblock_entry \<Rightarrow> pos \<Rightarrow>
    (int + addrblock_entry \<times> pos) outcome" where
  "parse_addr_tail bs eob addr_len flags a p =
     (let masked = flags AND (RFC5444_ADDR_FLAG_FULLTAIL OR RFC5444_ADDR_FLAG_ZEROTAIL) in
      if masked = RFC5444_ADDR_FLAG_ZEROTAIL
      then bnd (rfc5444_get_u8 bs eob p) (\<lambda>(t, p). Inr (Inr (a\<lparr>mid_len := mid_len a - t\<rparr>, p)))
      else if masked = RFC5444_ADDR_FLAG_FULLTAIL
      then bnd (rfc5444_get_u8 bs eob p) (\<lambda>(t, ptr, result).
        if t < 1 \<or> unat t \<ge> RFC5444_MAX_ADDRLEN \<or> t \<ge> addr_len then Inr (Inl RFC5444_BAD_ADDR_TAIL_LENGTH)
        else if ptr + unat t > eob then Inr (Inl RFC5444_END_OF_BUFFER)
        else bnd (mem_read bs ptr (unat t)) (\<lambda>tl. bnd (mem_write (ab_addr a) (unat addr_len - unat t) tl) (\<lambda>addr.
          Inr (Inr (a\<lparr>ab_addr := addr, mid_len := mid_len a - t\<rparr>, ptr + unat t, result)))))
      else if masked \<noteq> 0 then Inr (Inl RFC5444_BAD_MSG_TAILFLAGS)
      else Inr (Inr (a, p)))"

definition parse_addr_prefix :: "u8 list \<Rightarrow> u8 \<Rightarrow> u8 \<Rightarrow> addrblock_entry \<Rightarrow> nat \<Rightarrow>
    (int + addrblock_entry \<times> nat) outcome" where
  "parse_addr_prefix bs addr_len flags a ptr =
     (let masked = flags AND (RFC5444_ADDR_FLAG_SINGLEPLEN OR RFC5444_ADDR_FLAG_MULTIPLEN) in
      if masked = 0 then Inr (Inr (a\<lparr>prefixlen := addr_len * 8\<rparr>, ptr))
      else if masked = RFC5444_ADDR_FLAG_SINGLEPLEN
      then bnd (mem_get bs ptr) (\<lambda>b. Inr (Inr (a\<lparr>prefixlen := b\<rparr>, ptr + 1)))
      else if masked = RFC5444_ADDR_FLAG_MULTIPLEN
      then Inr (Inr (a\<lparr>prefixes := Some ptr\<rparr>, ptr + unat (num_addr a)))
      else Inr (Inl RFC5444_BAD_MSG_PREFIXFLAGS))"

text \<open>Steps that may end in a result code.\<close>

definition step_bind :: "('c + 'a) outcome \<Rightarrow> ('a \<Rightarrow> ('c + 'b) outcome) \<Rightarrow> ('c + 'b) outcome" where
  "step_bind m f = bnd m (\<lambda>r. case r of Inl code \<Rightarrow> Inr (Inl code) | Inr x \<Rightarrow> f x)"

lemma step_bind_okay [outcome_simps]: "step_bind m f = Inr (Inr y) \<longleftrightarrow> (\<exists>x. m = Inr (Inr x) \<and> f x = Inr (Inr y))"
proof (cases m)
  case (Inr r)
  then show ?thesis by (cases r) (auto simp: step_bind_def)
qed (simp add: step_bind_def)

definition parse_addr_count :: "u8 list \<Rightarrow> nat \<Rightarrow> nat \<Rightarrow> (int + u8 \<times> u8 \<times> pos) outcome" where
  "parse_addr_count bs eob start =
     bnd (rfc5444_get_u8 bs eob (start, RFC5444_OKAY)) (\<lambda>(n, p).
     if n = 0 then Inr (Inl RFC5444_EMPTY_ADDRBLOCK)
     else bnd (rfc5444_get_u8 bs eob p) (\<lambda>(flags, p). Inr (Inr (n, flags, p))))"

definition parse_addr_mid :: "nat \<Rightarrow> addrblock_entry \<Rightarrow> nat \<Rightarrow> (int + addrblock_entry \<times> nat) outcome" where
  "parse_addr_mid eob a ptr =
     (let ptr' = ptr + unat (mid_len a) * unat (num_addr a) in
      if ptr' > eob then Inr (Inl RFC5444_END_OF_BUFFER) else Inr (Inr (a\<lparr>mid_src := ptr\<rparr>, ptr')))"

definition parse_addrblock :: "u8 list \<Rightarrow> nat \<Rightarrow> u8 \<Rightarrow> nat \<Rightarrow> (int + addrblock_entry \<times> nat) outcome" where
  "parse_addrblock bs eob addr_len start =
     step_bind (parse_addr_count bs eob start) (\<lambda>(n, flags, p).
     step_bind (parse_addr_head bs eob addr_len flags
       (addrblock_zero\<lparr>addr_block_ptr := start, num_addr := n, mid_len := addr_len\<rparr>) p) (\<lambda>(a, p).
     step_bind (parse_addr_tail bs eob addr_len flags a p) (\<lambda>(a, ptr, result).
     step_bind (parse_addr_mid eob a ptr) (\<lambda>(a, ptr).
     step_bind (parse_addr_prefix bs addr_len flags a ptr) (\<lambda>(a, ptr).
       if ptr > eob then Inr (Inl RFC5444_END_OF_BUFFER)
       else if result \<noteq> RFC5444_OKAY then Inr (Inl result)
       else Inr (Inr (a\<lparr>addr_block_size := ptr - start\<rparr>, ptr)))))))"

text \<open>The address of index \<open>i\<close>: the middle part is copied between head and tail (\<open>schedule_msgaddr_consumer\<close>).\<close>

definition assemble_addr :: "u8 list \<Rightarrow> addrblock_entry \<Rightarrow> nat \<Rightarrow> addrblock_entry outcome" where
  "assemble_addr bs a i =
     bnd (mem_read bs (mid_src a + unat (mid_len a) * i) (unat (mid_len a))) (\<lambda>m.
     bnd (mem_write (ab_addr a) (unat (mid_start a)) m) (\<lambda>addr. Inr (a\<lparr>ab_addr := addr\<rparr>)))"

definition block_end_of :: "addrblock_entry \<Rightarrow> nat" where
  "block_end_of a = mid_src a + unat (mid_len a) * unat (num_addr a)"

definition addrblock_ok :: "nat \<Rightarrow> addrblock_entry \<Rightarrow> bool" where
  "addrblock_ok eob a \<longleftrightarrow> length (ab_addr a) = 16 \<and> num_addr a \<noteq> 0 \<and> unat (mid_start a) < 16 \<and> block_end_of a \<le> eob \<and>
     (case prefixes a of None \<Rightarrow> True | Some p \<Rightarrow> p + unat (num_addr a) \<le> eob) \<and>
     length (dropAddr a) = 4 \<and> ab_tlvblock a = []"

lemma parse_addr_head_okay:
  assumes "parse_addr_head bs eob al fl a p = Inr (Inr (a', p'))" and "length (ab_addr a) = 16"
  shows "length (ab_addr a') = 16 \<and> num_addr a' = num_addr a \<and> prefixes a' = prefixes a \<and> dropAddr a' = dropAddr a \<and>
    ab_tlvblock a' = ab_tlvblock a \<and> fst p \<le> fst p' \<and> (mid_start a' = mid_start a \<or> unat (mid_start a') < 16)"
  using assms
  by (cases p) (auto simp: parse_addr_head_def outcome_simps RFC5444_MAX_ADDRLEN_def not_le split: if_splits dest!: get_u8_mono)

lemma parse_addr_tail_okay:
  assumes "parse_addr_tail bs eob al fl a p = Inr (Inr (a', p'))" and "length (ab_addr a) = 16"
  shows "length (ab_addr a') = 16 \<and> num_addr a' = num_addr a \<and> prefixes a' = prefixes a \<and> dropAddr a' = dropAddr a \<and>
    ab_tlvblock a' = ab_tlvblock a \<and> fst p \<le> fst p' \<and> mid_start a' = mid_start a"
  using assms
  by (cases p) (auto simp: parse_addr_tail_def outcome_simps Let_def split: if_splits dest!: get_u8_mono)

lemma parse_addr_prefix_okay:
  assumes "parse_addr_prefix bs al fl a ptr = Inr (Inr (a', ptr'))" and "prefixes a = None"
  shows "ptr \<le> ptr' \<and> ab_addr a' = ab_addr a \<and> num_addr a' = num_addr a \<and> dropAddr a' = dropAddr a \<and>
    ab_tlvblock a' = ab_tlvblock a \<and> mid_start a' = mid_start a \<and> mid_src a' = mid_src a \<and> mid_len a' = mid_len a \<and>
    (case prefixes a' of None \<Rightarrow> True | Some p \<Rightarrow> p + unat (num_addr a') \<le> ptr')"
  using assms by (auto simp: parse_addr_prefix_def outcome_simps Let_def split: if_splits)

lemma parse_addrblock_okay:
  assumes run: "parse_addrblock bs eob al start = Inr (Inr (a, ptr'))"
  shows "addrblock_ok eob a \<and> start \<le> ptr' \<and> ptr' \<le> eob"
proof -
  let ?a0 = "\<lambda>n. addrblock_zero\<lparr>addr_block_ptr := start, num_addr := n, mid_len := al\<rparr>"
  from run obtain n fl p a1 p1 a2 p2 r a3 p3 a4 where
      0: "parse_addr_count bs eob start = Inr (Inr (n, fl, p))" and
      1: "parse_addr_head bs eob al fl (?a0 n) p = Inr (Inr (a1, p1))" and
      2: "parse_addr_tail bs eob al fl a1 p1 = Inr (Inr (a2, p2, r))" and
      3: "parse_addr_mid eob a2 p2 = Inr (Inr (a3, p3))" and
      4: "parse_addr_prefix bs al fl a3 p3 = Inr (Inr (a4, ptr'))" and
      5: "ptr' \<le> eob" "a = a4\<lparr>addr_block_size := ptr' - start\<rparr>"
    unfolding parse_addrblock_def by (auto simp: step_bind_okay not_less split: if_splits)
  have zero: "length (ab_addr (?a0 n)) = 16" "prefixes (?a0 n) = None" "length (dropAddr (?a0 n)) = 4" "ab_tlvblock (?a0 n) = []"
    "mid_start (?a0 n) = 0"
    by (simp_all add: addrblock_zero_def RFC5444_MAX_ADDRLEN_def bitmap256_empty_def)
  from 0 have "n \<noteq> 0" "start \<le> fst p"
    by (auto simp: parse_addr_count_def bnd_Inr_iff split: if_splits dest!: get_u8_mono)
  note h = parse_addr_head_okay [OF 1 zero(1)]
  note t = parse_addr_tail_okay [OF 2 conjunct1 [OF h]]
  from 3 have m: "a3 = a2\<lparr>mid_src := p2\<rparr>" "p3 = p2 + unat (mid_len a2) * unat (num_addr a2)" "p3 \<le> eob"
    by (auto simp: parse_addr_mid_def Let_def not_less split: if_splits)
  have "prefixes a3 = None" using h t m zero by simp
  note x = parse_addr_prefix_okay [OF 4 this]
  show ?thesis
    using h t m x zero 5 \<open>n \<noteq> 0\<close> \<open>start \<le> fst p\<close>
    by (auto simp: addrblock_ok_def block_end_of_def split: option.splits)
qed

lemma step_bind_Inl: "step_bind m f = Inl e \<longleftrightarrow> m = Inl e \<or> (\<exists>x. m = Inr (Inr x) \<and> f x = Inl e)"
proof (cases m)
  case (Inr r)
  then show ?thesis by (cases r) (auto simp: step_bind_def)
qed (simp add: step_bind_def)

lemma get_u8_no_fault: "eob \<le> length bs \<Longrightarrow> rfc5444_get_u8 bs eob p \<noteq> Inl f"
  using get_u8_total [of eob bs p] by auto

lemma parse_addr_count_no_fault: "eob \<le> length bs \<Longrightarrow> parse_addr_count bs eob start \<noteq> Inl f"
  by (auto simp: parse_addr_count_def bnd_Inl_iff get_u8_no_fault split: if_splits)

lemma parse_addr_head_no_fault:
  "eob \<le> length bs \<Longrightarrow> length (ab_addr a) = 16 \<Longrightarrow> parse_addr_head bs eob al fl a p \<noteq> Inl f"
  by (auto simp: parse_addr_head_def bnd_Inl_iff get_u8_no_fault mem_read_def mem_write_def RFC5444_MAX_ADDRLEN_def split: if_splits)

lemma parse_addr_tail_no_fault:
  "eob \<le> length bs \<Longrightarrow> length (ab_addr a) = 16 \<Longrightarrow> unat al \<le> 16 \<Longrightarrow> parse_addr_tail bs eob al fl a p \<noteq> Inl f"
  by (auto simp: parse_addr_tail_def bnd_Inl_iff get_u8_no_fault mem_read_def mem_write_def RFC5444_MAX_ADDRLEN_def Let_def
      word_le_nat_alt split: if_splits)

lemma parse_addr_mid_no_fault: "parse_addr_mid eob a ptr \<noteq> Inl f"
  by (simp add: parse_addr_mid_def Let_def)

lemma parse_addr_prefix_fault: "parse_addr_prefix bs al fl a ptr = Inl f \<Longrightarrow> f = OutOfBounds \<and> length bs \<le> ptr"
  by (auto simp: parse_addr_prefix_def Let_def mem_get_def split: if_splits)

lemma parse_addrblock_fault:
  assumes le: "eob \<le> length bs" and al: "unat al \<le> 16" and run: "parse_addrblock bs eob al start = Inl f"
  shows "f = OutOfBounds \<and> eob = length bs"
proof -
  let ?a0 = "\<lambda>n. addrblock_zero\<lparr>addr_block_ptr := start, num_addr := n, mid_len := al\<rparr>"
  have zero: "length (ab_addr (?a0 n)) = 16" for n by (simp add: addrblock_zero_def RFC5444_MAX_ADDRLEN_def)
  have tail: "parse_addr_tail bs eob al fl a1 p1 \<noteq> Inl f" if "parse_addr_head bs eob al fl (?a0 n) p = Inr (Inr (a1, p1))" for n fl p a1 p1
    using parse_addr_head_okay [OF that zero] le al by (intro parse_addr_tail_no_fault) simp_all
  from run tail obtain n fl p a1 p1 a2 p2 r a3 p3 where
      3: "parse_addr_mid eob a2 p2 = Inr (Inr (a3, p3))" and
      4: "parse_addr_prefix bs al fl a3 p3 = Inl f"
    unfolding parse_addrblock_def
    by (auto simp: step_bind_Inl parse_addr_count_no_fault [OF le] parse_addr_head_no_fault [OF le zero] parse_addr_mid_no_fault
        split: if_splits)
  from 3 have "p3 \<le> eob" by (auto simp: parse_addr_mid_def Let_def split: if_splits)
  with parse_addr_prefix_fault [OF 4] le show ?thesis by simp
qed

section \<open>Properties of the parser\<close>

text \<open>
  C22. Parsing one TLV never reads outside the buffer: it returns, or divides by zero. When it
  succeeds it has consumed at least two bytes and not passed the end, the two address indices are
  below the number of addresses, and the value, all parts of a multi-value together, lies inside the
  buffer.
\<close>

theorem tlv_parse_bounds:
  assumes "eob \<le> length bs" and "length (int_drop_tlv e) = 4"
  shows "case parse_tlv bs eob addr_count e ptr of
      Inl f \<Rightarrow> f = DivByZero
    | Inr (result, e', ptr') \<Rightarrow> result = RFC5444_OKAY \<longrightarrow> ptr + 2 \<le> ptr' \<and> ptr' \<le> eob \<and> tlv_ok addr_count eob e'"
  using assms parse_tlv_fault [OF assms(1)] parse_tlv_okay
  by (fastforce split: sum.splits prod.splits)

theorem tlv_parse_bounds_witness:
  "case parse_tlv [1, 0x10, 1, 42] 4 2 tlv_zero 0 of
      Inl f \<Rightarrow> f = DivByZero
    | Inr (result, e', ptr') \<Rightarrow> result = RFC5444_OKAY \<longrightarrow> 0 + 2 \<le> ptr' \<and> ptr' \<le> 4 \<and> tlv_ok 2 4 e'"
  by (rule tlv_parse_bounds) simp_all

text \<open>
  C23. Parsing a TLV block always ends, with a result or a division by zero. A block that is accepted
  has its entries in the order of type and extension, each with its value inside the buffer; a block
  that is rejected leaves no entries and the position at the end.
\<close>

theorem tlvblock_parse_ok:
  assumes "eob \<le> length bs"
  shows "case parse_tlvblock bs eob addr_count ptr w of
      Inl f \<Rightarrow> f = DivByZero
    | Inr (result, es, ptr', w') \<Rightarrow> block_ok addr_count eob es \<and> ptr' \<le> eob \<and>
        (result = RFC5444_OKAY \<longrightarrow> ptr + 2 \<le> ptr') \<and> (result \<noteq> RFC5444_OKAY \<longrightarrow> es = [] \<and> ptr' = eob)"
  using parse_tlvblock_fault [OF assms] parse_tlvblock_okay
  by (fastforce split: sum.splits prod.splits)

theorem tlvblock_parse_ok_witness:
  "case parse_tlvblock [0, 4, 1, 0x10, 1, 42] 6 2 0 (world_at timex_zero) of
      Inl f \<Rightarrow> f = DivByZero
    | Inr (result, es, ptr', w') \<Rightarrow> block_ok 2 6 es \<and> ptr' \<le> 6 \<and>
        (result = RFC5444_OKAY \<longrightarrow> 0 + 2 \<le> ptr') \<and> (result \<noteq> RFC5444_OKAY \<longrightarrow> es = [] \<and> ptr' = 6)"
  by (rule tlvblock_parse_ok) simp

text \<open>
  A message TLV with a value, the multi-value flag and no index makes the parser divide by zero:
  without addresses \<open>index2\<close> is 255, so the byte \<open>count = index2 - index1 + 1\<close> is 0. The same happens in an
  address block to a TLV whose start index is one above its stop index.
\<close>

lemma tlv_multivalue_divides_by_zero:
  "parse_tlv [ty, 0x14, 1, v] 4 0 tlv_zero 0 = Inl DivByZero \<and>
   parse_tlv [ty, 0x34, 1, 0, 1, v] 6 2 tlv_zero 0 = Inl DivByZero"
  by (simp add: parse_tlv_def parse_tlv_head_def rfc5444_get_u8_def mem_get_def rfc5444_tlv_flags RFC5444_OKAY_def
      parse_tlv_index_def parse_tlv_length_def parse_tlv_value_def Let_def word_le_nat_alt)

text \<open>
  C24. An accepted address block keeps all it points to inside the buffer, and the address with index
  \<open>i\<close> can be put together without writing outside the entry's 16 bytes exactly if head and middle
  part are no longer than 16.
\<close>

theorem addr_assembly_safe_iff:
  assumes "eob \<le> length bs" and "parse_addrblock bs eob addr_len start = Inr (Inr (a, ptr'))" and "i < unat (num_addr a)"
  shows "addrblock_ok eob a \<and> start \<le> ptr' \<and> ptr' \<le> eob \<and>
    assemble_addr bs a i = (if unat (mid_start a) + unat (mid_len a) \<le> 16
       then Inr (a\<lparr>ab_addr := blit (ab_addr a) (unat (mid_start a))
                     (take (unat (mid_len a)) (drop (mid_src a + unat (mid_len a) * i) bs))\<rparr>)
       else Inl OutOfBounds)"
proof -
  note ok = parse_addrblock_okay [OF assms(2)]
  have "unat (mid_len a) * i + unat (mid_len a) = unat (mid_len a) * Suc i" by simp
  also have "\<dots> \<le> unat (mid_len a) * unat (num_addr a)" using assms(3) by (intro mult_le_mono2) simp
  finally have "mid_src a + unat (mid_len a) * i + unat (mid_len a) \<le> length bs"
    using ok assms(1) by (simp add: addrblock_ok_def block_end_of_def)
  with ok show ?thesis
    by (auto simp: assemble_addr_def mem_read_def mem_write_def addrblock_ok_def)
qed

lemmas parse_addr_defs =
  parse_addrblock_def parse_addr_count_def parse_addr_head_def parse_addr_tail_def parse_addr_mid_def parse_addr_prefix_def
  step_bind_def rfc5444_get_u8_def rfc5444_addr_flags RFC5444_OKAY_def Let_def mem_get_def

theorem addr_assembly_safe_iff_witness:
  "\<exists>a p. parse_addrblock ([1, 0] @ replicate 16 7) 18 16 0 = Inr (Inr (a, p)) \<and> addrblock_ok 18 a"
proof -
  have "\<exists>a p. parse_addrblock ([1, 0] @ replicate 16 7) 18 16 0 = Inr (Inr (a, p)) \<and> num_addr a = 1"
    by (simp add: parse_addr_defs addrblock_zero_def)
  then obtain a p where run: "parse_addrblock ([1, 0] @ replicate 16 7) 18 16 0 = Inr (Inr (a, p))" and "num_addr a = 1"
    by blast
  then show ?thesis using addr_assembly_safe_iff [OF _ run, of 0] by auto
qed

text \<open>
  C25. A packet can make the reader write past an address buffer: a block without head and with a
  zero tail longer than the address wraps \<open>mid_len\<close>, here to 255; the block is accepted when 255 bytes
  follow, and copying them into the 16 byte buffer runs out of it.
\<close>

theorem addrblock_mid_overflow:
  assumes "length payload = 255"
  shows "\<exists>a. parse_addrblock ([1, 0x20, 17] @ payload) 258 16 0 = Inr (Inr (a, 258)) \<and>
    mid_len a = 255 \<and> assemble_addr ([1, 0x20, 17] @ payload) a 0 = Inl OutOfBounds"
proof -
  have "unat (-1 :: u8) = 255" by (simp add: unsigned_minus_1_eq_mask mask_eq_exp_minus_1)
  with assms show ?thesis
    by (simp add: parse_addr_defs addrblock_zero_def assemble_addr_def mem_read_def mem_write_def RFC5444_MAX_ADDRLEN_def)
qed

theorem addrblock_mid_overflow_witness:
  "\<exists>a. parse_addrblock ([1, 0x20, 17] @ replicate 255 0) 258 16 0 = Inr (Inr (a, 258)) \<and>
    mid_len a = 255 \<and> assemble_addr ([1, 0x20, 17] @ replicate 255 0) a 0 = Inl OutOfBounds"
  by (rule addrblock_mid_overflow) simp

end
