(* ===== verification/RfcTlvWriter.thy ===== *)
theory RfcTlvWriter
  imports RfcParse
begin

text \<open>
  Writing TLVs, \<open>core/contrib/oonf_api/rfc5444/rfc5444_tlv_writer.c\<close>, and the proof that the parser of
  \<open>rfc5444_reader.c\<close> reads back what it writes.
\<close>

section \<open>Operations\<close>

definition calc_tlv_size :: "bool \<Rightarrow> nat \<Rightarrow> nat" where
  "calc_tlv_size has_exttype len =
     2 + (if has_exttype then 1 else 0) + len + (if len > 255 then 2 else if len > 0 then 1 else 0)"

definition write_tlv_flags :: "u8 \<Rightarrow> u8 \<Rightarrow> u8 \<Rightarrow> nat \<Rightarrow> u8" where
  "write_tlv_flags exttype idx1 idx2 len =
     (if exttype > 0 then RFC5444_TLV_FLAG_TYPEEXT else 0) OR
     (if idx1 = idx2 then RFC5444_TLV_FLAG_SINGLE_IDX
      else if idx1 > 0 \<or> idx2 < 255 then RFC5444_TLV_FLAG_MULTI_IDX else 0) OR
     (if len > 255 then RFC5444_TLV_FLAG_EXTVALUE else 0) OR
     (if len > 0 then RFC5444_TLV_FLAG_VALUE else 0)"

text \<open>The bytes \<open>_write_tlv\<close> stores from \<open>ptr\<close> on; \<open>v\<close> is the value it copies, \<open>length\<close> its length.\<close>

definition write_tlv :: "u8 \<Rightarrow> u8 \<Rightarrow> u8 \<Rightarrow> u8 \<Rightarrow> u8 list \<Rightarrow> u8 list" where
  "write_tlv type exttype idx1 idx2 v =
     [type, write_tlv_flags exttype idx1 idx2 (length v)] @
     (if exttype \<noteq> 0 then [exttype] else []) @
     (if idx1 > 0 \<or> idx2 < 255 then idx1 # (if idx1 \<noteq> idx2 then [idx2] else []) else []) @
     (if length v > 255 then [of_nat (drop_bit 8 (length v))] else []) @
     (if length v > 0 then of_nat (length v) # v else [])"

record tlv_writer_data =
  tw_buffer :: "u8 list"
  tw_header :: nat
  tw_added :: nat
  tw_allocated :: nat
  tw_set :: nat
  tw_max :: nat

definition tlv_writer_init :: "tlv_writer_data \<Rightarrow> nat \<Rightarrow> nat \<Rightarrow> tlv_writer_data outcome" where
  "tlv_writer_init d maximum mtu =
     bnd (mem_write (tw_buffer d) 0 (replicate mtu 0)) (\<lambda>b.
     Inr (d\<lparr>tw_header := 0, tw_added := 0, tw_allocated := 0, tw_set := 0, tw_max := maximum, tw_buffer := b\<rparr>))"

definition tlv_writer_add :: "tlv_writer_data \<Rightarrow> u8 \<Rightarrow> u8 \<Rightarrow> u8 list \<Rightarrow> (int \<times> tlv_writer_data) outcome" where
  "tlv_writer_add d type exttype v =
     (let s = calc_tlv_size (exttype \<noteq> 0) (length v) in
      if tw_header d + tw_added d + tw_allocated d + s > tw_max d then Inr (RFC5444_MTU_TOO_SMALL, d)
      else bnd (mem_write (tw_buffer d) (tw_header d + tw_added d) (write_tlv type exttype 0 255 v)) (\<lambda>b.
        Inr (RFC5444_OKAY, d\<lparr>tw_buffer := b, tw_added := tw_added d + s\<rparr>)))"

definition tlv_writer_allocate :: "tlv_writer_data \<Rightarrow> bool \<Rightarrow> nat \<Rightarrow> int \<times> tlv_writer_data" where
  "tlv_writer_allocate d has_exttype len =
     (let s = calc_tlv_size has_exttype len in
      if tw_header d + tw_added d + tw_allocated d + s > tw_max d then (RFC5444_MTU_TOO_SMALL, d)
      else (RFC5444_OKAY, d\<lparr>tw_allocated := tw_allocated d + s\<rparr>))"

text \<open>The difference of the sizes is unsigned: it wraps to a large number when \<open>set\<close> exceeds \<open>allocated\<close>.\<close>

definition tlv_writer_set :: "tlv_writer_data \<Rightarrow> u8 \<Rightarrow> u8 \<Rightarrow> u8 list \<Rightarrow> (int \<times> tlv_writer_data) outcome" where
  "tlv_writer_set d type exttype v =
     (let s = calc_tlv_size (exttype \<noteq> 0) (length v) in
      if tw_set d \<le> tw_allocated d \<and> tw_allocated d - tw_set d < s then Inr (RFC5444_MTU_TOO_SMALL, d)
      else bnd (mem_write (tw_buffer d) (tw_header d + tw_added d + tw_set d) (write_tlv type exttype 0 255 v)) (\<lambda>b.
        Inr (RFC5444_OKAY, d\<lparr>tw_buffer := b, tw_set := tw_set d + s\<rparr>)))"

text \<open>The size the writer accounts for is the size it writes.\<close>

lemma write_tlv_length: "length (write_tlv ty ext 0 255 v) = calc_tlv_size (ext \<noteq> 0) (length v)"
  by (simp add: write_tlv_def calc_tlv_size_def)

definition writer_inv :: "tlv_writer_data \<Rightarrow> bool" where
  "writer_inv d \<longleftrightarrow> tw_max d \<le> length (tw_buffer d) \<and> tw_set d \<le> tw_allocated d \<and>
     tw_header d + tw_added d + tw_allocated d \<le> tw_max d"

section \<open>Round trip\<close>

lemma get_u8_drop:
  "drop ptr bs = b # rest \<Longrightarrow> ptr < eob \<Longrightarrow> rfc5444_get_u8 bs eob (ptr, RFC5444_OKAY) = Inr (b, ptr + 1, RFC5444_OKAY)"
proof -
  assume d: "drop ptr bs = b # rest" and "ptr < eob"
  then have "ptr < length bs" by (metis drop_all list.distinct(1) not_le)
  moreover from this d have "bs ! ptr = b" by (metis Cons_nth_drop_Suc list.inject)
  ultimately show ?thesis using \<open>ptr < eob\<close> by (simp add: rfc5444_get_u8_def mem_get_def)
qed

lemma drop_step: "drop ptr bs = b # rest \<Longrightarrow> drop (Suc ptr) bs = rest"
  by (metis drop_Suc list.sel(3) tl_drop)

lemma flags_typeext: "write_tlv_flags ext i j n AND RFC5444_TLV_FLAG_TYPEEXT \<noteq> 0 \<longleftrightarrow> ext \<noteq> 0"
  by (auto simp: write_tlv_flags_def rfc5444_tlv_flags word_gt_0)

lemma flags_multivalue: "write_tlv_flags ext i j n AND RFC5444_TLV_FLAG_MULTIVALUE = 0"
  by (auto simp: write_tlv_flags_def rfc5444_tlv_flags)

lemma flags_index:
  "write_tlv_flags ext i j n AND (RFC5444_TLV_FLAG_SINGLE_IDX OR RFC5444_TLV_FLAG_MULTI_IDX) =
     (if i = j then RFC5444_TLV_FLAG_SINGLE_IDX else if i > 0 \<or> j < 255 then RFC5444_TLV_FLAG_MULTI_IDX else 0)"
  by (auto simp: write_tlv_flags_def rfc5444_tlv_flags)

lemma flags_value:
  "write_tlv_flags ext i j n AND (RFC5444_TLV_FLAG_VALUE OR RFC5444_TLV_FLAG_EXTVALUE) =
     (if n > 255 then RFC5444_TLV_FLAG_EXTVALUE OR RFC5444_TLV_FLAG_VALUE else if n > 0 then RFC5444_TLV_FLAG_VALUE else 0)"
  by (auto simp: write_tlv_flags_def rfc5444_tlv_flags)

lemma u16_bytes: "n < 65536 \<Longrightarrow> push_bit 8 (ucast (of_nat (drop_bit 8 n) :: u8)) OR ucast (of_nat n :: u8) = (of_nat n :: u16)"
proof (rule bit_word_eqI)
  fix k assume "n < 65536" and "k < LENGTH(16)"
  then show "bit (push_bit 8 (ucast (of_nat (drop_bit 8 n) :: u8)) OR ucast (of_nat n :: u8) :: u16) k = bit (of_nat n :: u16) k"
    by (cases "k < 8") (auto simp: bit_simps)
qed

lemma parse_head_written:
  assumes "drop ptr bs = [ty, fl] @ (if ext \<noteq> 0 then [ext] else []) @ rest" and "fl AND RFC5444_TLV_FLAG_TYPEEXT \<noteq> 0 \<longleftrightarrow> ext \<noteq> 0"
    and "ptr + 2 + (if ext \<noteq> 0 then 1 else 0) \<le> eob"
  shows "parse_tlv_head bs eob ptr = Inr (ty, fl, ext, ptr + 2 + (if ext \<noteq> 0 then 1 else 0), RFC5444_OKAY) \<and>
    drop (ptr + 2 + (if ext \<noteq> 0 then 1 else 0)) bs = rest"
proof -
  from assms(1) have 0: "drop ptr bs = ty # fl # (if ext \<noteq> 0 then [ext] else []) @ rest" by simp
  from drop_step [OF this] have 1: "drop (ptr + 1) bs = fl # (if ext \<noteq> 0 then [ext] else []) @ rest" by simp
  from drop_step [OF this] have 2: "drop (ptr + 2) bs = (if ext \<noteq> 0 then [ext] else []) @ rest" by simp
  note g = get_u8_drop [OF 0, of eob] get_u8_drop [OF 1, of eob]
  show ?thesis
  proof (cases "ext = 0")
    case True
    with g assms 2 show ?thesis by (simp add: parse_tlv_head_def)
  next
    case False
    with 2 have 2: "drop (ptr + 2) bs = ext # rest" by simp
    from False g assms get_u8_drop [OF 2, of eob] drop_step [OF 2] show ?thesis by (simp add: parse_tlv_head_def)
  qed
qed

definition idx_bytes :: "u8 \<Rightarrow> u8 \<Rightarrow> u8 list" where
  "idx_bytes i j = (if i > 0 \<or> j < 255 then i # (if i \<noteq> j then [j] else []) else [])"

definition len_bytes :: "nat \<Rightarrow> u8 list" where
  "len_bytes n = (if n > 255 then [of_nat (drop_bit 8 n)] else []) @ (if n > 0 then [of_nat n] else [])"

lemma write_tlv_parts:
  "write_tlv ty ext i j v = [ty, write_tlv_flags ext i j (length v)] @ (if ext \<noteq> 0 then [ext] else []) @
     idx_bytes i j @ len_bytes (length v) @ v"
  by (simp add: write_tlv_def idx_bytes_def len_bytes_def)

lemma max_byte: "(j :: u8) < 255 \<longleftrightarrow> j \<noteq> 255"
  using unsigned_less [of j, where ?'a = nat] by (auto simp: word_less_nat_alt word_unat_eq_iff)

lemma parse_index_written:
  assumes "drop ptr bs = idx_bytes i j @ rest" and "ptr + length (idx_bytes i j) \<le> eob"
  shows "parse_tlv_index bs eob ac (if i = j then RFC5444_TLV_FLAG_SINGLE_IDX
      else if i > 0 \<or> j < 255 then RFC5444_TLV_FLAG_MULTI_IDX else 0) (ptr, RFC5444_OKAY) =
    Inr ((i, if i = 0 \<and> j = 255 then ac - 1 else j), ptr + length (idx_bytes i j), RFC5444_OKAY) \<and>
    drop (ptr + length (idx_bytes i j)) bs = rest"
proof (cases "i = 0 \<and> j = 255")
  case True
  with assms show ?thesis by (auto simp: parse_tlv_index_def idx_bytes_def)
next
  case False
  then have some: "i > 0 \<or> j < 255" by (auto simp: max_byte word_gt_0)
  show ?thesis
  proof (cases "i = j")
    case True
    with assms some have 0: "drop ptr bs = i # rest" by (simp add: idx_bytes_def)
    have "idx_bytes i j = [i]" using True some by (simp add: idx_bytes_def)
    with get_u8_drop [OF 0, of eob] drop_step [OF 0] assms True False show ?thesis
      by (auto simp: parse_tlv_index_def rfc5444_tlv_flags)
  next
    case ne: False
    with assms some have 0: "drop ptr bs = i # j # rest" by (simp add: idx_bytes_def)
    from drop_step [OF 0] have 1: "drop (ptr + 1) bs = j # rest" by simp
    have "idx_bytes i j = [i, j]" using ne some by (simp add: idx_bytes_def)
    with get_u8_drop [OF 0, of eob] get_u8_drop [OF 1, of eob] drop_step [OF 1] assms ne some False show ?thesis
      by (auto simp: parse_tlv_index_def rfc5444_tlv_flags)
  qed
qed

lemma parse_length_written:
  assumes "drop ptr bs = len_bytes n @ rest" and "ptr + length (len_bytes n) \<le> eob" and "n < 65536"
  shows "parse_tlv_length bs eob (if n > 255 then RFC5444_TLV_FLAG_EXTVALUE OR RFC5444_TLV_FLAG_VALUE
      else if n > 0 then RFC5444_TLV_FLAG_VALUE else 0) (ptr, RFC5444_OKAY) =
    Inr (of_nat n, ptr + length (len_bytes n), RFC5444_OKAY) \<and>
    drop (ptr + length (len_bytes n)) bs = rest"
proof -
  consider "n = 0" | "0 < n" "n \<le> 255" | "255 < n" by linarith
  then show ?thesis
  proof cases
    case 1
    with assms show ?thesis by (simp add: parse_tlv_length_def len_bytes_def)
  next
    case 2
    then have l: "len_bytes n = [of_nat n]" by (simp add: len_bytes_def)
    with assms have 0: "drop ptr bs = of_nat n # rest" by simp
    have "(ucast (of_nat n :: u8) :: u16) = of_nat n"
      using 2 by (simp add: word_unat_eq_iff unat_of_nat unsigned_ucast_eq take_bit_nat_eq_self)
    with l 2 get_u8_drop [OF 0, of eob] drop_step [OF 0] assms show ?thesis
      by (simp add: parse_tlv_length_def rfc5444_tlv_flags)
  next
    case 3
    then have l: "len_bytes n = [of_nat (drop_bit 8 n), of_nat n]" by (simp add: len_bytes_def)
    with assms have 0: "drop ptr bs = of_nat (drop_bit 8 n) # of_nat n # rest" by simp
    from drop_step [OF 0] have 1: "drop (ptr + 1) bs = of_nat n # rest" by simp
    from l 3 get_u8_drop [OF 0, of eob] get_u8_drop [OF 1, of eob] drop_step [OF 1] assms u16_bytes [of n] show ?thesis
      by (simp add: parse_tlv_length_def rfc5444_tlv_flags rfc5444_get_u16_def)
  qed
qed

text \<open>
  C21. What \<open>_write_tlv\<close> writes, \<open>_parse_tlv\<close> reads back, wherever it stands in a packet: type, extension,
  indices (the whole range when none is written), length and value, and the position after it. Values
  of up to 65535 bytes; the indices must be those of the block.
\<close>

theorem tlv_write_parse_roundtrip:
  assumes "drop ptr bs = write_tlv ty ext i j v @ rest" and "ptr + length (write_tlv ty ext i j v) \<le> eob"
    and "length v < 65536" and "0 < ac \<longrightarrow> i < ac \<and> (j < ac \<or> i = 0 \<and> j = 255)"
  shows "\<exists>e'. parse_tlv bs eob ac e ptr = Inr (RFC5444_OKAY, e', ptr + length (write_tlv ty ext i j v)) \<and>
    tlv_type e' = ty \<and> tlv_type_ext e' = ext \<and> tlv_index1 e' = i \<and>
    tlv_index2 e' = (if i = 0 \<and> j = 255 then ac - 1 else j) \<and>
    unat (tlv_length e') = length v \<and> \<not> multivalue_tlv e' \<and>
    (case tlv_value e' of None \<Rightarrow> v = []
     | Some p \<Rightarrow> single_value e' = Some p \<and> take (length v) (drop p bs) = v)"
proof -
  let ?fl = "write_tlv_flags ext i j (length v)"
  let ?p1 = "ptr + 2 + (if ext \<noteq> 0 then 1 else 0)"
  let ?p2 = "?p1 + length (idx_bytes i j)" 
  let ?p3 = "?p2 + length (len_bytes (length v))"
  have len: "ptr + length (write_tlv ty ext i j v) = ?p3 + length v" by (simp add: write_tlv_parts)
  with assms(2) have le: "?p3 + length v \<le> eob" by simp
  from assms(1) have "drop ptr bs = [ty, ?fl] @ (if ext \<noteq> 0 then [ext] else []) @ (idx_bytes i j @ len_bytes (length v) @ v @ rest)"
    by (simp add: write_tlv_parts)
  note head = parse_head_written [OF this flags_typeext, of eob]
  from head le have head1: "parse_tlv_head bs eob ptr = Inr (ty, ?fl, ext, ?p1, RFC5444_OKAY)"
    and d1: "drop ?p1 bs = idx_bytes i j @ len_bytes (length v) @ v @ rest" by simp_all
  from parse_index_written [OF d1, of eob ac] le
  have idx: "parse_tlv_index bs eob ac (?fl AND (RFC5444_TLV_FLAG_SINGLE_IDX OR RFC5444_TLV_FLAG_MULTI_IDX)) (?p1, RFC5444_OKAY) =
      Inr ((i, if i = 0 \<and> j = 255 then ac - 1 else j), ?p2, RFC5444_OKAY)"
    and d2: "drop ?p2 bs = len_bytes (length v) @ v @ rest" by (simp_all add: flags_index)
  from parse_length_written [OF d2, of eob] le assms(3)
  have lens: "parse_tlv_length bs eob (?fl AND (RFC5444_TLV_FLAG_VALUE OR RFC5444_TLV_FLAG_EXTVALUE)) (?p2, RFC5444_OKAY) =
      Inr (of_nat (length v), ?p3, RFC5444_OKAY)"
    and d3: "drop ?p3 bs = v @ rest" by (simp_all add: flags_value)
  have n: "unat (of_nat (length v) :: u16) = length v" using assms(3) by (simp add: unat_of_nat take_bit_nat_eq_self)
  have no_bad: "?fl AND (RFC5444_TLV_FLAG_SINGLE_IDX OR RFC5444_TLV_FLAG_MULTI_IDX) \<noteq> RFC5444_TLV_FLAG_SINGLE_IDX OR RFC5444_TLV_FLAG_MULTI_IDX"
    "?fl AND (RFC5444_TLV_FLAG_VALUE OR RFC5444_TLV_FLAG_EXTVALUE) \<noteq> RFC5444_TLV_FLAG_EXTVALUE"
    unfolding flags_index flags_value by (simp_all add: rfc5444_tlv_flags)
  define j' where "j' = (if i = 0 \<and> j = 255 then ac - 1 else j)"
  have pred: "ac - 1 < ac" if "0 < ac"
  proof -
    from that have "ac \<noteq> 0" by auto
    with unat_minus_one [of ac] unat_gt_0 [of ac] show ?thesis by (simp add: word_less_nat_alt)
  qed
  have index: "\<not> (ac > 0 \<and> (i \<ge> ac \<or> j' \<ge> ac))"
    using assms(4) pred by (auto simp: j'_def not_le)
  define p3 fl where "p3 = ?p3" and "fl = ?fl"
  let ?e = "e\<lparr>tlv_type := ty, tlv_flags := fl, tlv_type_ext := ext, tlv_order := calc_tlvblock_intorder ty ext,
    tlv_index1 := i, tlv_index2 := j', tlv_length := of_nat (length v), multivalue_tlv := (fl AND RFC5444_TLV_FLAG_MULTIVALUE \<noteq> 0)\<rparr>"
  have "\<not> p3 + unat (of_nat (length v) :: u16) > eob" using le n by (simp add: p3_def)
  then have "parse_tlv bs eob ac e ptr = parse_tlv_value ?e p3"
    using index no_bad
    unfolding parse_tlv_def head1 bnd.simps Let_def prod.case fl_def [symmetric]
    by (simp only: idx [folded fl_def j'_def] lens [folded fl_def p3_def] bnd.simps prod.case if_False not_False_eq_True
        if_True simp_thms)
  moreover have "parse_tlv_value ?e p3 = Inr (RFC5444_OKAY, (if v = [] then ?e\<lparr>tlv_value := None\<rparr>
      else ?e\<lparr>tlv_value := Some p3, single_value := Some p3\<rparr>), p3 + length v)"
    using n flags_multivalue [of ext i j "length v"]
    by (auto simp: parse_tlv_value_def Let_def unat_eq_0 [symmetric] simp flip: fl_def)
  moreover have "drop p3 bs = v @ rest" using d3 by (simp only: p3_def)
  moreover have "ptr + length (write_tlv ty ext i j v) = p3 + length v" using len by (simp only: p3_def)
  ultimately show ?thesis
    using n flags_multivalue [of ext i j "length v"] by (auto simp flip: j'_def fl_def)
qed

theorem tlv_write_parse_roundtrip_witness:
  "\<exists>e'. parse_tlv ([9] @ write_tlv 1 0 0 0 [7, 8]) 7 1 tlv_zero 1 = Inr (RFC5444_OKAY, e', 7) \<and>
     tlv_type e' = 1 \<and> unat (tlv_length e') = 2"
proof -
  have len: "length (write_tlv 1 0 0 0 [7, 8]) = 6" by (simp add: write_tlv_def)
  have "drop 1 ([9] @ write_tlv 1 0 0 0 [7, 8]) = write_tlv 1 0 0 0 [7, 8] @ []" by simp
  from tlv_write_parse_roundtrip [OF this, of 7 1 tlv_zero] len show ?thesis by auto
qed

text \<open>
  The writer never leaves its buffer: with its invariant (allocated TLVs within the maximum, the
  maximum within the buffer) adding and setting a TLV either changes nothing and reports that it is
  too large, or writes it and keeps the invariant.
\<close>

lemma tlv_writer_in_bounds:
  assumes "writer_inv d"
  shows "(\<exists>r d'. tlv_writer_add d ty ext v = Inr (r, d') \<and> (r \<noteq> RFC5444_OKAY \<longrightarrow> d' = d) \<and> writer_inv d') \<and>
    (\<exists>r d'. tlv_writer_set d ty ext v = Inr (r, d') \<and> (r \<noteq> RFC5444_OKAY \<longrightarrow> d' = d) \<and> writer_inv d') \<and>
    writer_inv (snd (tlv_writer_allocate d (ext \<noteq> 0) n))"
proof (intro conjI)
  show "\<exists>r d'. tlv_writer_add d ty ext v = Inr (r, d') \<and> (r \<noteq> RFC5444_OKAY \<longrightarrow> d' = d) \<and> writer_inv d'"
    using assms
    by (simp add: tlv_writer_add_def writer_inv_def Let_def mem_write_def write_tlv_length)
  show "\<exists>r d'. tlv_writer_set d ty ext v = Inr (r, d') \<and> (r \<noteq> RFC5444_OKAY \<longrightarrow> d' = d) \<and> writer_inv d'"
    using assms
    by (auto simp: tlv_writer_set_def writer_inv_def Let_def mem_write_def write_tlv_length not_less)
  show "writer_inv (snd (tlv_writer_allocate d (ext \<noteq> 0) n))"
    using assms by (simp add: tlv_writer_allocate_def writer_inv_def Let_def)
qed

lemma tlv_writer_in_bounds_witness:
  "\<exists>r d'. tlv_writer_add \<lparr>tw_buffer = replicate 8 0, tw_header = 0, tw_added = 0, tw_allocated = 4, tw_set = 0, tw_max = 8\<rparr>
     1 0 [7] = Inr (r, d') \<and> writer_inv d'"
proof -
  have "writer_inv \<lparr>tw_buffer = replicate 8 0, tw_header = 0, tw_added = 0, tw_allocated = 4, tw_set = 0, tw_max = 8\<rparr>"
    by (simp add: writer_inv_def)
  from tlv_writer_in_bounds [OF this] show ?thesis by blast
qed

end
