(* ===== verification/RfcWriter.thy ===== *)
theory RfcWriter
  imports RfcTlvWriter
begin

text \<open>
  The state of the RFC 5444 writer and the operations on it,
  \<open>core/contrib/oonf_api/rfc5444/rfc5444_writer.c\<close>: registering messages, content providers, TLV types and
  targets, and collecting addresses and address TLVs for a message. AVL trees are lists in key order.
  Pointers to TLV types, providers and handlers (objects of the firmware) are numbers; a message is
  known by its type, an address by its position in the order of allocation.
\<close>

section \<open>State\<close>

datatype writer_state = WRITER_NONE | WRITER_ADD_PKTHEADER | WRITER_ADD_PKTTLV | WRITER_ADD_HEADER |
  WRITER_ADD_MSGTLV | WRITER_ADD_ADDRESSES | WRITER_FINISH_MSGTLV | WRITER_FINISH_HEADER |
  WRITER_FINISH_PKTTLV | WRITER_FINISH_PKTHEADER

record tlvtype =
  tt_type :: u8
  tt_exttype :: u8
  tt_creator :: "u8 option"
  tt_full :: int
  tlvblock_count :: "int list"
  tlvblock_multi :: "bool list"
  tt_same_value :: bool

record addrtlv =
  at_tlvtype :: nat
  at_length :: u16
  at_value :: "nat option"
  at_same_value :: bool
  at_same_length :: bool

record wr_address =
  wa_index :: u32
  wa_address :: netaddr
  wa_tlvs :: "addrtlv list"
  wa_headlen :: u8
  wa_multiplen :: bool
  wa_block_end :: "nat option"
  wa_block_start :: "nat option"
  wa_mandatory :: bool
  wa_done :: bool

record provider =
  cp_id :: nat
  cp_priority :: int

record wr_message =
  wm_type :: u8
  wm_registered :: bool
  wm_target_specific :: bool
  wm_has_hopcount :: bool
  wm_hopcount :: u8
  wm_has_hoplimit :: bool
  wm_hoplimit :: u8
  wm_has_origaddr :: bool
  wm_orig_addr :: "u8 list"
  wm_has_seqno :: bool
  wm_seqno :: u16
  wm_addrs :: "wr_address list"
  wm_addr_head :: "nat list"
  wm_nonmandatory :: "nat list"
  wm_tlvtypes :: "nat list"
  wm_providers :: "provider list"
  wm_bin_addr_size :: nat
  add_message_header :: "nat option"

record target =
  packet_size :: nat
  tg_has_seqno :: bool
  tg_seqno :: u16
  is_flushed :: bool
  tg_pkt :: tlv_writer_data
  bin_msgs_size :: nat

text \<open>A postprocessor or forward handler: its priority and its number.\<close>

type_synonym handler = "int \<times> nat"

text \<open>\<open>sent\<close> records the calls of the targets' \<open>sendPacket\<close>: the target and the packet.\<close>

record writer =
  msgcreators :: "wr_message list"
  targets :: "target list"
  pkthandlers :: "nat list"
  processors :: "handler list"
  forwarding_processors :: "handler list"
  addr_tlvtype_head :: "nat list"
  tlvtypes :: "nat \<Rightarrow> tlvtype"
  w_msg :: tlv_writer_data
  w_msg_size :: nat
  msg_addr_len :: nat
  msg_target :: "nat option"
  addrtlv_buffer :: "u8 list"
  addrtlv_used :: nat
  w_state :: writer_state
  w_env :: world
  sent :: "(nat \<times> u8 list) list"

definition RFC5444_DUPLICATE_TLV :: int where "RFC5444_DUPLICATE_TLV = -10"
definition RFC5444_OUT_OF_ADDRTLV_MEM :: int where "RFC5444_OUT_OF_ADDRTLV_MEM = -11"
definition RFC5444_NO_MSGCREATOR :: int where "RFC5444_NO_MSGCREATOR = -13"

definition writer_calloc :: "writer \<Rightarrow> bool \<times> writer" where
  "writer_calloc wr = (malloc_ok (w_env wr) (tick (w_env wr)), wr\<lparr>w_env := (w_env wr)\<lparr>tick := Suc (tick (w_env wr))\<rparr>\<rparr>)"

definition in_state :: "writer_state \<Rightarrow> writer \<Rightarrow> unit outcome" where
  "in_state st wr = guard (w_state wr = st) AssertFail"

section \<open>Messages and TLV types\<close>

definition get_fulltype :: "u8 \<Rightarrow> u8 \<Rightarrow> int" where
  "get_fulltype type exttype = uint type * 256 + uint exttype"

text \<open>Insertion into a tree by \<open>avl_insert\<close> with the comparison of keys, and \<open>avl_find\<close>.\<close>

definition tree_insert :: "('a \<Rightarrow> 'k :: linorder) \<Rightarrow> 'a \<Rightarrow> 'a list \<Rightarrow> 'a list" where
  "tree_insert key x = tree_add (\<lambda>y. avl_comp (key x) (key y)) x"

definition tree_find :: "('a \<Rightarrow> 'k) \<Rightarrow> 'k \<Rightarrow> 'a list \<Rightarrow> 'a option" where
  "tree_find key k xs = find (\<lambda>x. key x = k) xs"

definition find_msg :: "u8 \<Rightarrow> writer \<Rightarrow> wr_message option" where
  "find_msg ty wr = tree_find wm_type ty (msgcreators wr)"

definition upd_msg :: "u8 \<Rightarrow> (wr_message \<Rightarrow> wr_message) \<Rightarrow> writer \<Rightarrow> writer" where
  "upd_msg ty f wr = wr\<lparr>msgcreators := map (\<lambda>m. if wm_type m = ty then f m else m) (msgcreators wr)\<rparr>"

definition message_calloc :: wr_message where
  "message_calloc = \<lparr>wm_type = 0, wm_registered = False, wm_target_specific = False, wm_has_hopcount = False,
     wm_hopcount = 0, wm_has_hoplimit = False, wm_hoplimit = 0, wm_has_origaddr = False,
     wm_orig_addr = replicate 16 0, wm_has_seqno = False, wm_seqno = 0, wm_addrs = [], wm_addr_head = [],
     wm_nonmandatory = [], wm_tlvtypes = [], wm_providers = [], wm_bin_addr_size = 0, add_message_header = None\<rparr>"

text \<open>\<open>_get_message\<close>: the result says whether there is a message object of the type now.\<close>

definition get_message :: "u8 \<Rightarrow> writer \<Rightarrow> bool \<times> writer" where
  "get_message ty wr =
     (if find_msg ty wr \<noteq> None then (True, wr)
      else let (ok, wr) = writer_calloc wr in
        if \<not> ok then (False, wr)
        else (True, wr\<lparr>msgcreators := tree_insert wm_type (message_calloc\<lparr>wm_type := ty\<rparr>) (msgcreators wr)\<rparr>))"

definition tlvtype_added :: "nat \<Rightarrow> writer \<Rightarrow> bool" where
  "tlvtype_added t wr \<longleftrightarrow> t \<in> set (addr_tlvtype_head wr) \<or> (\<exists>m \<in> set (msgcreators wr). t \<in> set (wm_tlvtypes m))"

definition register_addrtlvtype :: "u8 option \<Rightarrow> nat \<Rightarrow> writer \<Rightarrow> writer outcome" where
  "register_addrtlvtype msg t wr =
     (let tt = tlvtypes wr t;
          wr = wr\<lparr>tlvtypes := (tlvtypes wr)(t := tt\<lparr>tt_creator := msg, tt_full := get_fulltype (tt_type tt) (tt_exttype tt)\<rparr>)\<rparr>
      in bnd (guard (\<not> tlvtype_added t wr) AssertFail) (\<lambda>_.
        Inr (case msg of
               Some ty \<Rightarrow> upd_msg ty (\<lambda>m. m\<lparr>wm_tlvtypes := wm_tlvtypes m @ [t]\<rparr>) wr
             | None \<Rightarrow> wr\<lparr>addr_tlvtype_head := addr_tlvtype_head wr @ [t]\<rparr>)))"

definition rfc5444_writer_register_addrtlvtype :: "nat \<Rightarrow> int \<Rightarrow> writer \<Rightarrow> (int \<times> writer) outcome" where
  "rfc5444_writer_register_addrtlvtype t msgtype wr =
     bnd (in_state WRITER_NONE wr) (\<lambda>_.
     if 0 \<le> msgtype \<and> msgtype \<le> 255
     then let (ok, wr) = get_message (of_int msgtype) wr in
       if \<not> ok then Inr (-1, wr)
       else bnd (register_addrtlvtype (Some (of_int msgtype)) t wr) (\<lambda>wr. Inr (0, wr))
     else bnd (register_addrtlvtype None t wr) (\<lambda>wr. Inr (0, wr)))"

definition lazy_free_message :: "u8 \<Rightarrow> writer \<Rightarrow> writer" where
  "lazy_free_message ty wr =
     (case find_msg ty wr of None \<Rightarrow> wr
      | Some m \<Rightarrow>
          if \<not> wm_registered m \<and> wm_addr_head m = [] \<and> wm_tlvtypes m = [] \<and> wm_providers m = []
          then wr\<lparr>msgcreators := filter (\<lambda>m. wm_type m \<noteq> ty) (msgcreators wr)\<rparr> else wr)"

definition rfc5444_writer_unregister_addrtlvtype :: "nat \<Rightarrow> writer \<Rightarrow> writer outcome" where
  "rfc5444_writer_unregister_addrtlvtype t wr =
     bnd (in_state WRITER_NONE wr) (\<lambda>_.
     if \<not> tlvtype_added t wr then Inr wr
     else let wr = wr\<lparr>addr_tlvtype_head := remove1 t (addr_tlvtype_head wr),
                msgcreators := map (\<lambda>m. m\<lparr>wm_tlvtypes := remove1 t (wm_tlvtypes m)\<rparr>) (msgcreators wr)\<rparr>
       in Inr (case tt_creator (tlvtypes wr t) of Some ty \<Rightarrow> lazy_free_message ty wr | None \<Rightarrow> wr))"

section \<open>Registration\<close>

fun register_addrtlvtypes :: "u8 \<Rightarrow> nat list \<Rightarrow> writer \<Rightarrow> writer outcome" where
  "register_addrtlvtypes ty [] wr = Inr wr"
| "register_addrtlvtypes ty (t # ts) wr = bnd (register_addrtlvtype (Some ty) t wr) (register_addrtlvtypes ty ts)"

fun unregister_addrtlvtypes :: "nat list \<Rightarrow> writer \<Rightarrow> writer outcome" where
  "unregister_addrtlvtypes [] wr = Inr wr"
| "unregister_addrtlvtypes (t # ts) wr = bnd (rfc5444_writer_unregister_addrtlvtype t wr) (unregister_addrtlvtypes ts)"

text \<open>
  Providers, handlers and packet handlers are objects of the caller with the tree or list node inside; the
  number in the model is the object's identity. Only the TLV types are checked for being registered
  already. For the others a second registration links the node again while it stands in the list
  or tree: \<open>oonf_list_add_tail\<close> and \<open>avl_insert\<close> overwrite its links, and the structure is
  corrupted (\<open>list.h\<close>, \<open>__oonf_list_add\<close>). The model does not follow that and stops with \<open>Relinked\<close>.
\<close>

definition provider_added :: "provider \<Rightarrow> writer \<Rightarrow> bool" where
  "provider_added cpr wr \<longleftrightarrow> (\<exists>m \<in> set (msgcreators wr). \<exists>c \<in> set (wm_providers m). cp_id c = cp_id cpr)"

definition handler_added :: "handler \<Rightarrow> handler list \<Rightarrow> bool" where
  "handler_added h hs \<longleftrightarrow> (\<exists>h' \<in> set hs. snd h' = snd h)"

definition rfc5444_writer_register_msgcontentprovider :: "u8 \<Rightarrow> provider \<Rightarrow> nat list \<Rightarrow> writer \<Rightarrow> (int \<times> writer) outcome" where
  "rfc5444_writer_register_msgcontentprovider ty cpr addrtlvs wr =
     bnd (in_state WRITER_NONE wr) (\<lambda>_.
     let (ok, wr) = get_message ty wr in
     if \<not> ok then Inr (-1, wr)
     else bnd (register_addrtlvtypes ty addrtlvs wr) (\<lambda>wr.
       bnd (guard (\<not> provider_added cpr wr) Relinked) (\<lambda>_.
       Inr (0, upd_msg ty (\<lambda>m. m\<lparr>wm_providers := tree_insert cp_priority cpr (wm_providers m)\<rparr>) wr))))"

definition rfc5444_writer_unregister_content_provider :: "u8 \<Rightarrow> provider \<Rightarrow> nat list \<Rightarrow> writer \<Rightarrow> writer outcome" where
  "rfc5444_writer_unregister_content_provider ty cpr addrtlvs wr =
     bnd (in_state WRITER_NONE wr) (\<lambda>_.
     case find_msg ty wr of
       None \<Rightarrow> Inr wr
     | Some m \<Rightarrow>
         if cpr \<notin> set (wm_providers m) then Inr wr
         else bnd (unregister_addrtlvtypes addrtlvs wr) (\<lambda>wr.
           Inr (lazy_free_message ty (upd_msg ty (\<lambda>m. m\<lparr>wm_providers := remove1 cpr (wm_providers m)\<rparr>) wr))))"

definition rfc5444_writer_register_message :: "u8 \<Rightarrow> bool \<Rightarrow> writer \<Rightarrow> (u8 option \<times> writer) outcome" where
  "rfc5444_writer_register_message ty if_specific wr =
     bnd (in_state WRITER_NONE wr) (\<lambda>_.
     let (ok, wr) = get_message ty wr in
     if \<not> ok then Inr (None, wr)
     else case find_msg ty wr of
         None \<Rightarrow> Inr (None, wr)
       | Some m \<Rightarrow> if wm_registered m then Inr (None, wr)
           else Inr (Some ty, upd_msg ty (\<lambda>m. m\<lparr>wm_registered := True, wm_target_specific := if_specific\<rparr>) wr))"

definition writer_free_addresses :: "u8 \<Rightarrow> writer \<Rightarrow> writer" where
  "writer_free_addresses ty wr =
     (upd_msg ty (\<lambda>m. m\<lparr>wm_addrs := [], wm_addr_head := [], wm_nonmandatory := []\<rparr>) wr)\<lparr>addrtlv_used := 0\<rparr>"

definition rfc5444_writer_unregister_message :: "u8 \<Rightarrow> writer \<Rightarrow> writer outcome" where
  "rfc5444_writer_unregister_message ty wr =
     bnd (in_state WRITER_NONE wr) (\<lambda>_.
     if find_msg ty wr = None then Inr wr
     else let wr = writer_free_addresses ty wr;
              wr = upd_msg ty (\<lambda>m. m\<lparr>wm_registered := False\<rparr>) wr
       in Inr (lazy_free_message ty wr))"

definition rfc5444_writer_register_postprocessor :: "handler \<Rightarrow> writer \<Rightarrow> writer outcome" where
  "rfc5444_writer_register_postprocessor h wr =
     bnd (guard (\<not> handler_added h (processors wr)) Relinked) (\<lambda>_.
     Inr (wr\<lparr>processors := tree_insert fst h (processors wr)\<rparr>))"

definition rfc5444_writer_unregister_postprocessor :: "handler \<Rightarrow> writer \<Rightarrow> writer" where
  "rfc5444_writer_unregister_postprocessor h wr = wr\<lparr>processors := remove1 h (processors wr)\<rparr>"

definition rfc5444_writer_register_forward_handler :: "handler \<Rightarrow> writer \<Rightarrow> writer outcome" where
  "rfc5444_writer_register_forward_handler h wr =
     bnd (guard (\<not> handler_added h (forwarding_processors wr)) Relinked) (\<lambda>_.
     Inr (wr\<lparr>forwarding_processors := tree_insert fst h (forwarding_processors wr)\<rparr>))"

definition rfc5444_writer_unregister_forward_handler :: "handler \<Rightarrow> writer \<Rightarrow> writer" where
  "rfc5444_writer_unregister_forward_handler h wr = wr\<lparr>forwarding_processors := remove1 h (forwarding_processors wr)\<rparr>"

definition rfc5444_writer_register_pkthandler :: "nat \<Rightarrow> writer \<Rightarrow> writer outcome" where
  "rfc5444_writer_register_pkthandler h wr =
     bnd (in_state WRITER_NONE wr) (\<lambda>_.
     bnd (guard (h \<notin> set (pkthandlers wr)) Relinked) (\<lambda>_.
     Inr (wr\<lparr>pkthandlers := pkthandlers wr @ [h]\<rparr>)))"

definition rfc5444_writer_unregister_pkthandler :: "nat \<Rightarrow> writer \<Rightarrow> writer outcome" where
  "rfc5444_writer_unregister_pkthandler h wr = bnd (in_state WRITER_NONE wr) (\<lambda>_. Inr (wr\<lparr>pkthandlers := remove1 h (pkthandlers wr)\<rparr>))"

text \<open>A target is known by its place in the list; the record given to this function is that of an interface that is not in it.\<close>

definition rfc5444_writer_register_target :: "target \<Rightarrow> writer \<Rightarrow> writer outcome" where
  "rfc5444_writer_register_target tg wr =
     bnd (in_state WRITER_NONE wr) (\<lambda>_.
     bnd (guard (packet_size tg > 0) AssertFail) (\<lambda>_.
     bnd (tlv_writer_init (tg_pkt tg) (packet_size tg) (packet_size tg)) (\<lambda>pkt.
     Inr (wr\<lparr>targets := targets wr @ [tg\<lparr>tg_pkt := pkt, is_flushed := True\<rparr>]\<rparr>))))"

definition rfc5444_writer_unregister_target :: "nat \<Rightarrow> writer \<Rightarrow> writer outcome" where
  "rfc5444_writer_unregister_target i wr =
     bnd (in_state WRITER_NONE wr) (\<lambda>_. Inr (wr\<lparr>targets := take i (targets wr) @ drop (Suc i) (targets wr)\<rparr>))"

text \<open>
  \<open>rfc5444_writer_init\<close>. The buffers and their sizes have been set by the caller. The message buffer
  is initialised with a maximum of 0.
\<close>

definition rfc5444_writer_init :: "writer \<Rightarrow> writer outcome" where
  "rfc5444_writer_init wr =
     bnd (guard (w_msg_size wr > 0) AssertFail) (\<lambda>_.
     bnd (guard (addrtlv_buffer wr \<noteq> []) AssertFail) (\<lambda>_.
     bnd (tlv_writer_init (w_msg wr) 0 (w_msg_size wr)) (\<lambda>msg.
     Inr (wr\<lparr>w_msg := msg, targets := [], pkthandlers := [], addr_tlvtype_head := [], msgcreators := [], processors := [],
            forwarding_processors := [], w_state := WRITER_NONE\<rparr>))))"

section \<open>Collecting addresses and their TLVs\<close>

definition copy_addrtlv_value :: "u8 list \<Rightarrow> writer \<Rightarrow> (nat option \<times> writer) outcome" where
  "copy_addrtlv_value v wr =
     (if addrtlv_used wr + length v > length (addrtlv_buffer wr) then Inr (None, wr)
      else bnd (mem_write (addrtlv_buffer wr) (addrtlv_used wr) v) (\<lambda>b.
        Inr (Some (addrtlv_used wr), wr\<lparr>addrtlv_buffer := b, addrtlv_used := addrtlv_used wr + length v\<rparr>)))"

definition tlv_key :: "writer \<Rightarrow> addrtlv \<Rightarrow> u32" where
  "tlv_key wr a = of_int (tt_full (tlvtypes wr (at_tlvtype a)))"

text \<open>The address pointer is the address' position in the message \<open>ty\<close>; it may be NULL.\<close>

definition rfc5444_writer_add_addrtlv ::
    "u8 \<Rightarrow> nat option \<Rightarrow> nat \<Rightarrow> u8 list \<Rightarrow> bool \<Rightarrow> writer \<Rightarrow> (int \<times> writer) outcome" where
  "rfc5444_writer_add_addrtlv ty addr t v allow_dup wr =
     bnd (in_state WRITER_ADD_ADDRESSES wr) (\<lambda>_.
     bnd (deref addr) (\<lambda>i.
     bnd (deref (find_msg ty wr)) (\<lambda>m.
     let a = wm_addrs m ! i; key = (of_int (tt_full (tlvtypes wr t)) :: u32) in
     if \<not> allow_dup \<and> tree_find (tlv_key wr) key (wa_tlvs a) \<noteq> None then Inr (RFC5444_DUPLICATE_TLV, wr)
     else let (ok, wr) = writer_calloc wr in
       if \<not> ok then Inr (RFC5444_OUT_OF_MEMORY, wr)
       else bnd (if v = [] then Inr (None, wr) else copy_addrtlv_value v wr) (\<lambda>(p, wr).
         if v \<noteq> [] \<and> p = None then Inr (RFC5444_OUT_OF_ADDRTLV_MEM, wr)
         else let tlv = \<lparr>at_tlvtype = t, at_length = of_nat (length v), at_value = p,
                  at_same_value = False, at_same_length = False\<rparr>;
                a = a\<lparr>wa_tlvs := tree_insert (tlv_key wr) tlv (wa_tlvs a)\<rparr>
           in Inr (RFC5444_OKAY, upd_msg ty (\<lambda>m. m\<lparr>wm_addrs := (wm_addrs m)[i := a]\<rparr>) wr)))))"

definition address_calloc :: wr_address where
  "address_calloc = \<lparr>wa_index = 0, wa_address = \<lparr>na_addr = replicate 16 0, na_type = 0, na_prefix_len = 0\<rparr>, wa_tlvs = [],
     wa_headlen = 0, wa_multiplen = False, wa_block_end = None, wa_block_start = None, wa_mandatory = False, wa_done = False\<rparr>"

definition find_address :: "netaddr \<Rightarrow> wr_message \<Rightarrow> nat option" where
  "find_address naddr m = first_idx (\<lambda>a. netaddr_cmp (wa_address a) naddr = 0) (wm_addrs m)"

definition rfc5444_writer_add_address :: "u8 \<Rightarrow> netaddr \<Rightarrow> bool \<Rightarrow> writer \<Rightarrow> (nat option \<times> writer) outcome" where
  "rfc5444_writer_add_address ty naddr mandatory wr =
     bnd (in_state WRITER_ADD_ADDRESSES wr) (\<lambda>_.
     bnd (deref (find_msg ty wr)) (\<lambda>m.
     case find_address naddr m of
       Some i \<Rightarrow> Inr (Some i, upd_msg ty (\<lambda>m. m\<lparr>wm_addrs := (wm_addrs m)[i := (wm_addrs m ! i)
           \<lparr>wa_mandatory := wa_mandatory (wm_addrs m ! i) \<or> mandatory\<rparr>]\<rparr>) wr)
     | None \<Rightarrow> let (ok, wr) = writer_calloc wr; i = length (wm_addrs m) in
         if \<not> ok then Inr (None, wr)
         else Inr (Some i, upd_msg ty (\<lambda>m. m\<lparr>wm_addrs := wm_addrs m @ [address_calloc\<lparr>wa_address := naddr, wa_mandatory := mandatory\<rparr>],
                wm_addr_head := (if mandatory then wm_addr_head m @ [i] else wm_addr_head m),
                wm_nonmandatory := (if mandatory then wm_nonmandatory m else wm_nonmandatory m @ [i])\<rparr>) wr)))"

section \<open>TLV values share one buffer\<close>

lemma upd_msg_fields [simp]:
  "addrtlv_buffer (upd_msg ty f wr) = addrtlv_buffer wr" "addrtlv_used (upd_msg ty f wr) = addrtlv_used wr"
  "w_state (upd_msg ty f wr) = w_state wr" "tlvtypes (upd_msg ty f wr) = tlvtypes wr" "w_env (upd_msg ty f wr) = w_env wr"
  "w_msg (upd_msg ty f wr) = w_msg wr" "targets (upd_msg ty f wr) = targets wr" "msg_addr_len (upd_msg ty f wr) = msg_addr_len wr"
  by (simp_all add: upd_msg_def)

lemma writer_calloc_fields [simp]:
  "writer_calloc wr = (ok, wr') \<Longrightarrow> addrtlv_buffer wr' = addrtlv_buffer wr \<and> addrtlv_used wr' = addrtlv_used wr \<and>
     tlvtypes wr' = tlvtypes wr \<and> msgcreators wr' = msgcreators wr \<and> w_state wr' = w_state wr"
  by (auto simp: writer_calloc_def)

lemma set_tree_insert [simp]: "set (tree_insert key x xs) = insert x (set xs)"
  by (simp add: tree_insert_def)

lemma find_msg_upd:
  "find_msg ty wr = Some m \<Longrightarrow> (\<And>m. wm_type (f m) = wm_type m) \<Longrightarrow> find_msg ty (upd_msg ty f wr) = Some (f m)"
proof -
  assume *: "\<And>m. wm_type (f m) = wm_type m"
  have "find (\<lambda>m. wm_type m = ty) ms = Some m \<Longrightarrow>
      find (\<lambda>m. wm_type m = ty) (map (\<lambda>m. if wm_type m = ty then f m else m) ms) = Some (f m)" for ms
    by (induction ms) (auto simp: * split: if_splits)
  then show "find_msg ty wr = Some m \<Longrightarrow> find_msg ty (upd_msg ty f wr) = Some (f m)"
    by (simp add: find_msg_def tree_find_def upd_msg_def)
qed

lemma copy_value_spec:
  assumes "copy_addrtlv_value v wr = Inr (Some p, wr')"
  shows "p = addrtlv_used wr \<and> addrtlv_used wr' = p + length v \<and> p + length v \<le> length (addrtlv_buffer wr') \<and>
    length (addrtlv_buffer wr') = length (addrtlv_buffer wr) \<and>
    mem_read (addrtlv_buffer wr') p (length v) = Inr v \<and> take p (addrtlv_buffer wr') = take p (addrtlv_buffer wr) \<and>
    msgcreators wr' = msgcreators wr"
  using assms by (auto simp: copy_addrtlv_value_def mem_write_def mem_read_def blit_def split: if_splits)

text \<open>
  The values of address TLVs are stored back to back in the writer's buffer: adding a TLV with a
  value either changes no address and no byte of the buffer (duplicate, out of memory, buffer full), or
  the value can be read back at the position recorded in the TLV, inside the buffer, the values stored
  before keep their bytes, and the fill level grows by the length of the value.
\<close>

lemma addrtlv_value_stored:
  assumes "find_msg ty wr = Some m" and "i < length (wm_addrs m)" and "v \<noteq> []" and "length v < 65536"
    and "rfc5444_writer_add_addrtlv ty (Some i) t v dup wr = Inr (r, wr')"
  shows "if r \<noteq> RFC5444_OKAY then msgcreators wr' = msgcreators wr \<and> addrtlv_buffer wr' = addrtlv_buffer wr
    else \<exists>m' a. find_msg ty wr' = Some m' \<and> a \<in> set (wa_tlvs (wm_addrs m' ! i)) \<and> at_tlvtype a = t \<and>
      at_value a = Some (addrtlv_used wr) \<and> unat (at_length a) = length v \<and>
      mem_read (addrtlv_buffer wr') (addrtlv_used wr) (length v) = Inr v \<and>
      take (addrtlv_used wr) (addrtlv_buffer wr') = take (addrtlv_used wr) (addrtlv_buffer wr) \<and>
      addrtlv_used wr' = addrtlv_used wr + length v"
proof -
  let ?a = "wm_addrs m ! i"
  obtain ok w1 where calloc: "writer_calloc wr = (ok, w1)" by (metis surj_pair)
  note w1 = writer_calloc_fields [OF calloc]
  show ?thesis
  proof (cases "r = RFC5444_OKAY")
    case False
    with assms calloc w1 show ?thesis
      by (auto simp: rfc5444_writer_add_addrtlv_def outcome_simps Let_def RFC5444_OKAY_def copy_addrtlv_value_def
          split: if_splits prod.splits)
  next
    case True
    from assms True calloc obtain p w2 where copy: "copy_addrtlv_value v w1 = Inr (Some p, w2)"
      and wr': "wr' = upd_msg ty (\<lambda>m. m\<lparr>wm_addrs := (wm_addrs m)[i := ?a\<lparr>wa_tlvs := tree_insert (tlv_key w2)
          \<lparr>at_tlvtype = t, at_length = of_nat (length v), at_value = Some p, at_same_value = False, at_same_length = False\<rparr>
          (wa_tlvs ?a)\<rparr>]\<rparr>) w2"
      by (auto simp: rfc5444_writer_add_addrtlv_def outcome_simps Let_def rfc5444_results RFC5444_DUPLICATE_TLV_def
          RFC5444_OUT_OF_ADDRTLV_MEM_def split: if_splits)
    note copied = copy_value_spec [OF copy]
    have m2: "find_msg ty w2 = Some m" using assms(1) copied w1 by (simp add: find_msg_def)
    let ?tlv = "\<lparr>at_tlvtype = t, at_length = of_nat (length v), at_value = Some p, at_same_value = False, at_same_length = False\<rparr>"
    let ?m = "m\<lparr>wm_addrs := (wm_addrs m)[i := ?a\<lparr>wa_tlvs := tree_insert (tlv_key w2) ?tlv (wa_tlvs ?a)\<rparr>]\<rparr>"
    have m': "find_msg ty wr' = Some ?m" unfolding wr' by (rule find_msg_upd [OF m2]) simp
    have p: "p = addrtlv_used wr" using copied w1 by simp
    have len: "unat (of_nat (length v) :: u16) = length v"
      using assms(4) by (simp add: unat_of_nat take_bit_nat_eq_self)
    have tlv: "?tlv \<in> set (wa_tlvs (wm_addrs ?m ! i))" using assms(2) by simp
    have buf: "mem_read (addrtlv_buffer wr') (addrtlv_used wr) (length v) = Inr v"
        "take (addrtlv_used wr) (addrtlv_buffer wr') = take (addrtlv_used wr) (addrtlv_buffer wr)"
        "addrtlv_used wr' = addrtlv_used wr + length v"
      using copied w1 p by (simp_all add: wr')
    have "\<exists>m' a. find_msg ty wr' = Some m' \<and> a \<in> set (wa_tlvs (wm_addrs m' ! i)) \<and> at_tlvtype a = t \<and>
        at_value a = Some (addrtlv_used wr) \<and> unat (at_length a) = length v"
      by (rule exI [where x = ?m], rule exI [where x = ?tlv]) (use m' tlv p len in simp)
    with True buf show ?thesis by simp
  qed
qed

definition tlvtype_zero :: tlvtype where
  "tlvtype_zero = \<lparr>tt_type = 0, tt_exttype = 0, tt_creator = None, tt_full = 0, tlvblock_count = replicate 16 0,
     tlvblock_multi = replicate 16 False, tt_same_value = False\<rparr>"

text \<open>A writer in the middle of collecting the addresses of a message of type 10, with one address.\<close>

definition writer_ref :: writer where
  "writer_ref = \<lparr>msgcreators = [message_calloc\<lparr>wm_type := 10, wm_addrs := [address_calloc]\<rparr>], targets = [], pkthandlers = [],
     processors = [], forwarding_processors = [], addr_tlvtype_head = [], tlvtypes = (\<lambda>_. tlvtype_zero),
     w_msg = \<lparr>tw_buffer = [], tw_header = 0, tw_added = 0, tw_allocated = 0, tw_set = 0, tw_max = 0\<rparr>, w_msg_size = 0,
     msg_addr_len = 16, msg_target = None, addrtlv_buffer = replicate 4 0, addrtlv_used = 0, w_state = WRITER_ADD_ADDRESSES, w_env = world_at timex_zero, sent = []\<rparr>"

lemma addrtlv_value_stored_witness:
  "\<exists>wr'. rfc5444_writer_add_addrtlv 10 (Some 0) 5 [7, 8] False writer_ref = Inr (RFC5444_OKAY, wr') \<and>
     mem_read (addrtlv_buffer wr') 0 2 = Inr [7, 8]"
proof -
  have m: "find_msg 10 writer_ref = Some (message_calloc\<lparr>wm_type := 10, wm_addrs := [address_calloc]\<rparr>)"
    by (simp add: find_msg_def tree_find_def writer_ref_def)
  have "case rfc5444_writer_add_addrtlv 10 (Some 0) 5 [7, 8] False writer_ref of Inr (r, _) \<Rightarrow> r = RFC5444_OKAY | Inl _ \<Rightarrow> False"
    by code_simp
  then obtain wr' where run: "rfc5444_writer_add_addrtlv 10 (Some 0) 5 [7, 8] False writer_ref = Inr (RFC5444_OKAY, wr')"
    by (auto split: sum.splits prod.splits)
  have used: "addrtlv_used writer_ref = 0" by (simp add: writer_ref_def)
  from addrtlv_value_stored [OF m _ _ _ run] have "mem_read (addrtlv_buffer wr') 0 2 = Inr [7, 8]"
    by (auto simp: used numeral_2_eq_2)
  with run show ?thesis by blast
qed

end
