(* ===== verification/RfcCompress.thy ===== *)
theory RfcCompress
  imports RfcWriter
begin

text \<open>
  How the writer splits the addresses of a message into address blocks, \<open>_close_addrblock\<close> and
  \<open>_compress_address\<close> of \<open>core/contrib/oonf_api/rfc5444/rfc5444_msg_generator.c\<close>. For every possible
  length of the common head one session keeps the cost of the encoding so far. Callers pass an
  address length of at most 16, the number of sessions.
\<close>

record acs =
  acs_ptr :: "nat option"
  acs_total :: int
  acs_current :: int
  acs_multiplen :: bool
  acs_closed :: bool

definition acs_zero :: acs where
  "acs_zero = \<lparr>acs_ptr = None, acs_total = 0, acs_current = 0, acs_multiplen = False, acs_closed = False\<rparr>"

definition acs_clear :: "acs list" where
  "acs_clear = replicate RFC5444_MAX_ADDRLEN acs_zero"

definition acs_at :: "acs list \<Rightarrow> nat \<Rightarrow> acs outcome" where
  "acs_at s i = (if i < length s then Inr (s ! i) else Inl OutOfBounds)"

section \<open>Closing a block\<close>

definition close_best :: "acs list \<Rightarrow> nat \<Rightarrow> nat \<Rightarrow> (nat \<times> int) outcome" where
  "close_best s addrlen common_head =
     bnd (acs_at s common_head) (\<lambda>a.
     Inr (foldl (\<lambda>(best, size) i. if acs_total (s ! i) < size then (i, acs_total (s ! i)) else (best, size))
            (common_head, acs_total a) [Suc common_head..<addrlen]))"

definition close_addrblock :: "acs list \<Rightarrow> nat \<Rightarrow> wr_address \<Rightarrow> nat \<Rightarrow> (acs list \<times> wr_address) outcome" where
  "close_addrblock s addrlen last_addr common_head =
     (if common_head > addrlen then Inr (s, last_addr)
      else bnd (close_best s addrlen common_head) (\<lambda>(best, size).
        Inr (map (\<lambda>i. if common_head < i \<and> i < addrlen then (s ! i)\<lparr>acs_total := size\<rparr> else s ! i) [0..<length s],
             if \<not> acs_closed (s ! best) \<or> wa_block_start last_addr = None
             then last_addr\<lparr>wa_block_start := acs_ptr (s ! best), wa_multiplen := acs_multiplen (s ! best), wa_headlen := of_nat best\<rparr>
             else last_addr)))"

section \<open>Adding an address\<close>

text \<open>The bytes of a TLV's value.\<close>

definition value_bytes :: "writer \<Rightarrow> addrtlv \<Rightarrow> u8 list" where
  "value_bytes wr a = (case at_value a of None \<Rightarrow> [] | Some p \<Rightarrow> take (unat (at_length a)) (drop p (addrtlv_buffer wr)))"

definition mark_tlv :: "writer \<Rightarrow> wr_address option \<Rightarrow> addrtlv \<Rightarrow> addrtlv" where
  "mark_tlv wr last_addr t =
     (let t = t\<lparr>at_same_length := False, at_same_value := False\<rparr> in
      case last_addr of None \<Rightarrow> t
      | Some l \<Rightarrow> (case tree_find (tlv_key wr) (tlv_key wr t) (wa_tlvs l) of None \<Rightarrow> t
          | Some lt \<Rightarrow> if at_length lt = at_length t
              then t\<lparr>at_same_length := True, at_same_value := (value_bytes wr t = value_bytes wr lt)\<rparr> else t))"

definition tlv_cost :: "tlvtype \<Rightarrow> addrtlv \<Rightarrow> int" where
  "tlv_cost tt t = 2 + (if tt_exttype tt > 0 then 1 else 0) + 2 + (if at_length t > 255 then 1 else 0) +
     (if at_length t > 0 then 1 else 0) + uint (at_length t)"

text \<open>The costs of a new block and of continuing the old one, with the TLVs of the address added.\<close>

definition add_tlv_cost :: "(nat \<Rightarrow> tlvtype) \<Rightarrow> nat \<Rightarrow> bool \<Rightarrow> int \<times> int \<Rightarrow> addrtlv \<Rightarrow> int \<times> int" where
  "add_tlv_cost tts i closed = (\<lambda>(new_cost, continue_cost) t.
     let tt = tts (at_tlvtype t); cost = tlv_cost tt t in
     (new_cost + cost,
      if closed \<or> \<not> at_same_length t then continue_cost + cost
      else if tlvblock_multi tt ! i then continue_cost + uint (at_length t)
      else if \<not> at_same_value t then continue_cost + uint (at_length t) * tlvblock_count tt ! i
      else continue_cost))"

definition count_tlv :: "nat \<Rightarrow> bool \<Rightarrow> (nat \<Rightarrow> tlvtype) \<Rightarrow> addrtlv \<Rightarrow> (nat \<Rightarrow> tlvtype)" where
  "count_tlv i closed tts t =
     (let tt = tts (at_tlvtype t) in
      tts(at_tlvtype t := (if closed \<or> \<not> at_same_length t
        then tt\<lparr>tlvblock_count := (tlvblock_count tt)[i := 1], tlvblock_multi := (tlvblock_multi tt)[i := False]\<rparr>
        else tt\<lparr>tlvblock_count := (tlvblock_count tt)[i := tlvblock_count tt ! i + 1],
                tlvblock_multi := (if at_same_value t then tlvblock_multi tt else (tlvblock_multi tt)[i := True])\<rparr>)))"

text \<open>
  The cost of continuing with another prefix length: the difference of two \<open>uint32_t\<close> indices is added
  to an \<open>int\<close>, which makes the sum unsigned before it is stored as an \<open>int\<close> again.
\<close>

definition continue_base :: "nat \<Rightarrow> nat \<Rightarrow> int \<Rightarrow> acs \<Rightarrow> u32 \<Rightarrow> u32 \<Rightarrow> int \<times> acs" where
  "continue_base addrlen i same_prefixlen a start_index index =
     (let cost = int addrlen - int i in
      if acs_multiplen a then (cost + 1, a)
      else if same_prefixlen = 1 then (sint (of_int cost + (start_index - index + 1)), a\<lparr>acs_multiplen := True\<rparr>)
      else (cost, a))"

text \<open>The session after the costs are known: a new block, or one more address in the old one.\<close>

definition head_session :: "nat \<Rightarrow> bool \<Rightarrow> bool \<Rightarrow> int \<Rightarrow> int \<Rightarrow> int \<Rightarrow> acs \<Rightarrow> bool \<times> acs" where
  "head_session ptr has_last closed last_total new_cost cc a =
     (let restart = (closed \<or> acs_total a + cc > last_total + new_cost);
          a = (if restart then a\<lparr>acs_ptr := Some ptr, acs_multiplen := False, acs_total := last_total, acs_current := new_cost\<rparr>
               else a\<lparr>acs_current := cc\<rparr>)
      in (restart, if has_last then a\<lparr>acs_closed := restart\<rparr> else a))"

text \<open>One round of the loop over the head lengths.\<close>

definition compress_head :: "nat \<Rightarrow> wr_address list \<Rightarrow> nat \<Rightarrow> wr_address \<Rightarrow> bool \<Rightarrow> nat \<Rightarrow> int \<Rightarrow> nat \<Rightarrow>
    acs list \<times> (nat \<Rightarrow> tlvtype) \<Rightarrow> (acs list \<times> (nat \<Rightarrow> tlvtype)) outcome" where
  "compress_head addrlen addrs ptr addr has_last common_head same_prefixlen i = (\<lambda>(s, tts).
     let closed = (\<not> has_last \<or> common_head < i);
         special = (unat (na_prefix_len (wa_address addr)) \<noteq> addrlen * 8);
         new_cost = 2 + (if i > 0 then 1 else 0) + int addrlen + (if special then 1 else 0)
     in bnd (if closed then Inr (0, s ! i)
             else bnd (deref (acs_ptr (s ! i))) (\<lambda>p.
               Inr (continue_base addrlen i same_prefixlen (s ! i) (wa_index (addrs ! p)) (wa_index addr)))) (\<lambda>(cc, a).
        let (new_cost, cc) = foldl (add_tlv_cost tts i closed) (new_cost + 2, cc) (wa_tlvs addr);
            (restart, a) = head_session ptr has_last closed (acs_total (s ! (addrlen - 1))) new_cost cc a
        in Inr (s[i := a], foldl (count_tlv i restart) tts (wa_tlvs addr))))"

fun compress_heads :: "nat \<Rightarrow> wr_address list \<Rightarrow> nat \<Rightarrow> wr_address \<Rightarrow> bool \<Rightarrow> nat \<Rightarrow> int \<Rightarrow> nat list \<Rightarrow>
    acs list \<times> (nat \<Rightarrow> tlvtype) \<Rightarrow> (acs list \<times> (nat \<Rightarrow> tlvtype)) outcome" where
  "compress_heads addrlen addrs ptr addr hl ch sp [] st = Inr st"
| "compress_heads addrlen addrs ptr addr hl ch sp (i # is) st =
     bnd (compress_head addrlen addrs ptr addr hl ch sp i st) (compress_heads addrlen addrs ptr addr hl ch sp is)"

definition common_bytes :: "nat \<Rightarrow> netaddr \<Rightarrow> netaddr \<Rightarrow> nat" where
  "common_bytes addrlen a b = length (takeWhile (\<lambda>(x, y). x = y) (zip (take addrlen (na_addr a)) (take addrlen (na_addr b))))"

text \<open>The block of the address \<open>l\<close> in front of the new one, if there is one, may end with it.\<close>

definition compress_close :: "acs list \<Rightarrow> nat \<Rightarrow> wr_address list \<Rightarrow> nat option \<Rightarrow> wr_address \<Rightarrow> int \<Rightarrow>
    (int \<times> nat \<times> acs list \<times> wr_address list) outcome" where
  "compress_close s addrlen addrs prev addr same_prefixlen =
     (case prev of
        None \<Rightarrow> Inr (same_prefixlen, 0, s, addrs)
      | Some l \<Rightarrow>
          let last_addr = addrs ! l; common_head = common_bytes addrlen (wa_address last_addr) (wa_address addr)
          in bnd (close_addrblock s addrlen last_addr common_head) (\<lambda>(s, last_addr).
             Inr (if na_prefix_len (wa_address last_addr) = na_prefix_len (wa_address addr) then same_prefixlen + 1 else 1,
                  common_head, s, addrs[l := last_addr])))"

definition compress_next :: "writer \<Rightarrow> nat \<Rightarrow> nat option \<Rightarrow> int \<times> nat \<times> acs list \<times> wr_address list \<Rightarrow>
    (int \<times> acs list \<times> wr_address list \<times> writer) outcome" where
  "compress_next wr ptr prev = (\<lambda>(same_prefixlen, common_head, s, addrs).
     let addrlen = msg_addr_len wr;
         addr = (addrs ! ptr)\<lparr>wa_tlvs := map (mark_tlv wr (map_option ((!) addrs) prev)) (wa_tlvs (addrs ! ptr))\<rparr>;
         addrs = addrs[ptr := addr]
     in bnd (compress_heads addrlen addrs ptr addr (prev \<noteq> None) common_head same_prefixlen [0..<addrlen] (s, tlvtypes wr)) (\<lambda>(s, tts).
        Inr (same_prefixlen, s, addrs, wr\<lparr>tlvtypes := tts\<rparr>)))"

text \<open>
  \<open>_compress_address\<close>: \<open>frag\<close> are the addresses of the fragment so far, the new one last. The result is
  the number of addresses with the same prefix length, the sessions, the addresses and the writer.
\<close>

definition compress_address :: "acs list \<Rightarrow> writer \<Rightarrow> wr_address list \<Rightarrow> nat list \<Rightarrow> int \<Rightarrow>
    (int \<times> acs list \<times> wr_address list \<times> writer) outcome" where
  "compress_address s wr addrs frag same_prefixlen =
     (let ptr = last frag; prev = (if length frag < 2 then None else Some (frag ! (length frag - 2)))
      in bnd (compress_close s (msg_addr_len wr) addrs prev (addrs ! ptr) same_prefixlen) (compress_next wr ptr prev))"

section \<open>When it works\<close>

text \<open>After the first address every session has a current block.\<close>

definition sessions_ok :: "acs list \<Rightarrow> bool" where
  "sessions_ok s \<longleftrightarrow> length s = RFC5444_MAX_ADDRLEN \<and> (\<forall>a \<in> set s. acs_ptr a \<noteq> None)"

lemma head_session_ptr: "closed \<or> acs_ptr a \<noteq> None \<Longrightarrow> acs_ptr (snd (head_session ptr hl closed lt nc cc a)) \<noteq> None"
  by (auto simp: head_session_def Let_def)

lemma compress_head_returns:
  assumes "i < length s" and "has_last \<longrightarrow> acs_ptr (s ! i) \<noteq> None"
  shows "\<exists>a tts'. compress_head addrlen addrs ptr addr has_last ch sp i (s, tts) = Inr (s[i := a], tts') \<and> acs_ptr a \<noteq> None"
proof -
  let ?closed = "\<not> has_last \<or> ch < i"
  let ?base = "if ?closed then Inr (0, s ! i) else bnd (deref (acs_ptr (s ! i))) (\<lambda>p.
      Inr (continue_base addrlen i sp (s ! i) (wa_index (addrs ! p)) (wa_index addr)))"
  have "\<exists>cc a. ?base = Inr (cc, a) \<and> (?closed \<or> acs_ptr a \<noteq> None)"
    using assms(2) by (auto simp: continue_base_def Let_def)
  then obtain cc a where base: "?base = Inr (cc, a)" and a: "?closed \<or> acs_ptr a \<noteq> None" by blast
  let ?special = "unat (na_prefix_len (wa_address addr)) \<noteq> addrlen * 8"
  let ?new = "2 + (if i > 0 then 1 else 0) + int addrlen + (if ?special then 1 else 0)"
  obtain nc cc' where f: "foldl (add_tlv_cost tts i ?closed) (?new + 2, cc) (wa_tlvs addr) = (nc, cc')" by (metis surj_pair)
  obtain restart a' where h: "head_session ptr has_last ?closed (acs_total (s ! (addrlen - 1))) nc cc' a = (restart, a')"
    by (metis surj_pair)
  have "compress_head addrlen addrs ptr addr has_last ch sp i (s, tts) =
      Inr (s[i := a'], foldl (count_tlv i restart) tts (wa_tlvs addr))"
    unfolding compress_head_def Let_def prod.case base bnd.simps f h ..
  moreover have "acs_ptr a' \<noteq> None"
    using head_session_ptr [OF a, of ptr has_last "acs_total (s ! (addrlen - 1))" nc cc'] unfolding h snd_conv .
  ultimately show ?thesis by blast
qed

lemma compress_heads_return:
  "set is \<subseteq> {..<length s} \<Longrightarrow> (has_last \<longrightarrow> (\<forall>a \<in> set s. acs_ptr a \<noteq> None)) \<Longrightarrow>
     \<exists>s' tts'. compress_heads addrlen addrs ptr addr has_last ch sp is (s, tts) = Inr (s', tts') \<and> length s' = length s \<and>
       (has_last \<longrightarrow> (\<forall>a \<in> set s'. acs_ptr a \<noteq> None)) \<and> (\<forall>i \<in> set is. acs_ptr (s' ! i) \<noteq> None) \<and>
       (\<forall>i < length s. acs_ptr (s ! i) \<noteq> None \<longrightarrow> acs_ptr (s' ! i) \<noteq> None)"
proof (induction "is" arbitrary: s tts)
  case (Cons i "is")
  have i: "i < length s" using Cons.prems(1) by simp
  with Cons.prems(2) have "has_last \<longrightarrow> acs_ptr (s ! i) \<noteq> None" by simp
  from compress_head_returns [OF i this] obtain a tts1 where
    1: "compress_head addrlen addrs ptr addr has_last ch sp i (s, tts) = Inr (s[i := a], tts1)" and a: "acs_ptr a \<noteq> None" by blast
  have "has_last \<longrightarrow> (\<forall>a \<in> set (s[i := a]). acs_ptr a \<noteq> None)"
    using Cons.prems(2) a by (auto dest!: set_update_subset_insert [THEN subsetD])
  with Cons.IH [of "s[i := a]" tts1] Cons.prems(1) obtain s' tts' where
    2: "compress_heads addrlen addrs ptr addr has_last ch sp is (s[i := a], tts1) = Inr (s', tts')" "length s' = length s"
      "has_last \<longrightarrow> (\<forall>a \<in> set s'. acs_ptr a \<noteq> None)" "\<forall>i \<in> set is. acs_ptr (s' ! i) \<noteq> None"
      "\<forall>j < length s. acs_ptr (s[i := a] ! j) \<noteq> None \<longrightarrow> acs_ptr (s' ! j) \<noteq> None" by auto
  have keep: "\<forall>j < length s. acs_ptr (s ! j) \<noteq> None \<longrightarrow> acs_ptr (s' ! j) \<noteq> None"
  proof (intro allI impI)
    fix j assume "j < length s" "acs_ptr (s ! j) \<noteq> None"
    with 2(5) a show "acs_ptr (s' ! j) \<noteq> None" by (cases "j = i") auto
  qed
  have "acs_ptr (s' ! i) \<noteq> None" using 2(5) i a by simp
  with 1 2 keep show ?case by (intro exI [where x = s'] exI [where x = tts']) simp
qed simp

lemma common_bytes_le: "common_bytes n a b \<le> n"
  unfolding common_bytes_def by (rule order_trans [OF length_takeWhile_le]) simp

lemma length_takeWhile_all: "length (takeWhile P xs) = length xs \<longleftrightarrow> (\<forall>x \<in> set xs. P x)"
  using le_length_takeWhile [of "length xs" xs P] length_takeWhile_le [of P xs]
  by (auto simp: all_set_conv_all_nth)

lemma common_bytes_full:
  assumes "length (na_addr a) = n" and "length (na_addr b) = n"
  shows "common_bytes n a b = n \<longleftrightarrow> na_addr a = na_addr b"
proof -
  let ?P = "\<lambda>(x, y). x = (y :: u8)" and ?z = "zip (na_addr a) (na_addr b)"
  have z: "length ?z = n" using assms by simp
  have "common_bytes n a b = n \<longleftrightarrow> length (takeWhile ?P ?z) = length ?z"
    using assms by (simp add: common_bytes_def)
  also have "\<dots> \<longleftrightarrow> (\<forall>x \<in> set ?z. ?P x)" by (rule length_takeWhile_all)
  also have "\<dots> \<longleftrightarrow> na_addr a = na_addr b"
    using assms by (auto simp: set_zip list_eq_iff_nth_eq)
  finally show ?thesis .
qed

text \<open>
  C28. Adding an address to a fragment either stays inside the 16 compression sessions and leaves every
  one of them with a current block, or it reads past them; and it reads past them exactly when the
  address in front of the new one has the same 16 bytes (and so another prefix length, as the addresses
  of a message differ): the guard of \<open>_close_addrblock\<close> lets through a common head as long as the
  address.
\<close>

theorem compress_address_safe_iff:
  assumes "msg_addr_len wr = RFC5444_MAX_ADDRLEN" and "sessions_ok s" and "l < length addrs" and "p < length addrs" and "l \<noteq> p"
    and "length (na_addr (wa_address (addrs ! l))) = 16" and "length (na_addr (wa_address (addrs ! p))) = 16"
  shows "if na_addr (wa_address (addrs ! l)) = na_addr (wa_address (addrs ! p))
    then compress_address s wr addrs [l, p] n = Inl OutOfBounds
    else \<exists>n' s' addrs' wr'. compress_address s wr addrs [l, p] n = Inr (n', s', addrs', wr') \<and> sessions_ok s'"
proof -
  let ?ch = "common_bytes 16 (wa_address (addrs ! l)) (wa_address (addrs ! p))"
  have le: "?ch \<le> 16" by (rule common_bytes_le)
  have full: "?ch = 16 \<longleftrightarrow> na_addr (wa_address (addrs ! l)) = na_addr (wa_address (addrs ! p))"
    using assms(6,7) by (rule common_bytes_full)
  have s: "length s = 16" "\<forall>a \<in> set s. acs_ptr a \<noteq> None" using assms(2) by (simp_all add: sessions_ok_def RFC5444_MAX_ADDRLEN_def)
  have len: "msg_addr_len wr = 16" using assms(1) by (simp add: RFC5444_MAX_ADDRLEN_def)
  have addr: "compress_address s wr addrs [l, p] n =
      bnd (compress_close s 16 addrs (Some l) (addrs ! p) n) (compress_next wr p (Some l))"
    by (simp add: compress_address_def len Let_def)
  show ?thesis
  proof (cases "na_addr (wa_address (addrs ! l)) = na_addr (wa_address (addrs ! p))")
    case True
    with full s have "close_addrblock s 16 (addrs ! l) ?ch = Inl OutOfBounds"
      by (simp add: close_addrblock_def close_best_def acs_at_def)
    with True show ?thesis unfolding addr by (simp add: compress_close_def)
  next
    case False
    with full le have ch: "?ch < 16" by simp
    have "\<exists>best sz. close_best s 16 ?ch = Inr (best, sz)"
      using ch s by (simp add: close_best_def acs_at_def)
    then obtain best sz where best: "close_best s 16 ?ch = Inr (best, sz)" by blast
    have "\<exists>s1 last1. close_addrblock s 16 (addrs ! l) ?ch = Inr (s1, last1) \<and> length s1 = 16 \<and> (\<forall>a \<in> set s1. acs_ptr a \<noteq> None)"
      using ch s unfolding close_addrblock_def best by auto
    then obtain s1 last1 where close: "close_addrblock s 16 (addrs ! l) ?ch = Inr (s1, last1)" and s1: "length s1 = 16"
        "\<forall>a \<in> set s1. acs_ptr a \<noteq> None" by blast
    obtain n1 where c: "compress_close s 16 addrs (Some l) (addrs ! p) n = Inr (n1, ?ch, s1, addrs[l := last1])"
      by (simp add: compress_close_def close)
    have sub: "set [0..<16] \<subseteq> {..<length s1}" using s1 by auto
    have all: "True \<longrightarrow> (\<forall>a \<in> set s1. acs_ptr a \<noteq> None)" using s1 by simp
    let ?as = "addrs[l := last1]"
    let ?a = "(?as ! p)\<lparr>wa_tlvs := map (mark_tlv wr (map_option ((!) ?as) (Some l))) (wa_tlvs (?as ! p))\<rparr>"
    from compress_heads_return [OF sub all, of 16 "?as[p := ?a]" p ?a ?ch n1 "tlvtypes wr"] obtain s2 tts
      where h: "compress_heads 16 (?as[p := ?a]) p ?a True ?ch n1 [0..<16] (s1, tlvtypes wr) = Inr (s2, tts)"
        and s2: "length s2 = length s1" "\<forall>a \<in> set s2. acs_ptr a \<noteq> None" by blast
    have sm: "(Some l \<noteq> None) = True" by simp
    have "compress_next wr p (Some l) (n1, ?ch, s1, ?as) = Inr (n1, s2, ?as[p := ?a], wr\<lparr>tlvtypes := tts\<rparr>)"
      by (simp only: compress_next_def Let_def prod.case len h bnd.simps sm)
    with False s1 s2 show ?thesis unfolding addr c
      by (simp add: sessions_ok_def RFC5444_MAX_ADDRLEN_def)
  qed
qed

definition compress_addrs :: "u8 \<Rightarrow> wr_address list" where
  "compress_addrs last_byte = [address_calloc\<lparr>wa_address := \<lparr>na_addr = replicate 15 0 @ [1], na_type = 10, na_prefix_len = 64\<rparr>\<rparr>,
     address_calloc\<lparr>wa_address := \<lparr>na_addr = replicate 15 0 @ [last_byte], na_type = 10, na_prefix_len = 128\<rparr>\<rparr>]"

theorem compress_address_safe_iff_witness:
  "let s = replicate 16 (acs_zero\<lparr>acs_ptr := Some 0\<rparr>) in
   compress_address s writer_ref (compress_addrs 1) [0, 1] 1 = Inl OutOfBounds \<and>
   (\<exists>r. compress_address s writer_ref (compress_addrs 2) [0, 1] 1 = Inr r)"
proof -
  let ?s = "replicate 16 (acs_zero\<lparr>acs_ptr := Some 0\<rparr>)"
  have len: "msg_addr_len writer_ref = RFC5444_MAX_ADDRLEN" by (simp add: writer_ref_def RFC5444_MAX_ADDRLEN_def)
  have s: "sessions_ok ?s" by (simp add: sessions_ok_def RFC5444_MAX_ADDRLEN_def)
  note use = compress_address_safe_iff [OF len s, of 0 _ 1]
  show ?thesis
    using use [of "compress_addrs 1" 1] use [of "compress_addrs 2" 1]
    by (auto simp: compress_addrs_def Let_def)
qed

end
