(* ===== verification/RfcSchedule.thy ===== *)
theory RfcSchedule
  imports RfcParse
begin

text \<open>
  How \<open>core/contrib/oonf_api/rfc5444/rfc5444_reader.c\<close> runs its consumers over a parsed message, and the
  handling of messages and packets. A consumer's callbacks are functions on the state \<open>'s\<close> of the
  program that registered them.
\<close>

section \<open>Data\<close>

datatype context_type = CONTEXT_PACKET | CONTEXT_MESSAGE | CONTEXT_ADDRESS

text \<open>\<open>rfc5444_reader_tlvblock_context\<close>; \<open>pkt_buffer\<close> is the packet, other pointers index it.\<close>

record ctx =
  ctx_type :: context_type
  pkt_version :: u8
  pkt_flags :: u8
  has_pktseqno :: bool
  pkt_seqno :: u16
  pkt_buffer :: "u8 list"
  msg_type :: u8
  msg_flags :: u8
  addr_len :: u8
  has_hopcount :: bool
  hopcount :: u8
  has_hoplimit :: bool
  hoplimit :: u8
  has_origaddr :: bool
  orig_addr :: netaddr
  has_seqno :: bool
  seqno :: u16
  msg_buffer :: "nat option"
  msg_size :: nat
  do_not_forward :: bool
  ctx_addr :: netaddr
  addr_block_buffer :: "nat option"
  ctx_addr_block_size :: nat
  ctx_addr_tlv_size :: nat
  addr_index :: u8

definition netaddr_zero :: netaddr where
  "netaddr_zero = \<lparr>na_addr = replicate 16 0, na_type = 0, na_prefix_len = 0\<rparr>"

definition ctx_zero :: ctx where
  "ctx_zero = \<lparr>ctx_type = CONTEXT_PACKET, pkt_version = 0, pkt_flags = 0, has_pktseqno = False, pkt_seqno = 0,
     pkt_buffer = [], msg_type = 0, msg_flags = 0, addr_len = 0, has_hopcount = False, hopcount = 0,
     has_hoplimit = False, hoplimit = 0, has_origaddr = False, orig_addr = netaddr_zero, has_seqno = False,
     seqno = 0, msg_buffer = None, msg_size = 0, do_not_forward = False, ctx_addr = netaddr_zero,
     addr_block_buffer = None, ctx_addr_block_size = 0, ctx_addr_tlv_size = 0, addr_index = 0\<rparr>"

text \<open>
  \<open>rfc5444_reader_tlvblock_consumer_entry\<close>: \<open>ce_id\<close> is its place in the array it was registered from,
  \<open>ce_tlv\<close> the position of the TLV it points to. \<open>copy_value\<close> is the private buffer, \<open>None\<close> for NULL;
  that the copy fits is checked, but its contents do not reach the callbacks (no consumer of the
  firmware has such a buffer).
\<close>

record cons_entry =
  ce_id :: nat
  ce_mandatory :: bool
  ce_type :: u8
  ce_type_ext :: u8
  match_type_ext :: bool
  min_length :: u16
  max_length :: u16
  match_length :: bool
  copy_value :: "u8 list option"
  ce_tlv :: "nat option"

type_synonym 's cb = "ctx \<Rightarrow> 's \<Rightarrow> (int \<times> 's) outcome"

text \<open>A block callback sees the TLVs its array of entries points to; it answers with the entries it sets to drop.\<close>

type_synonym 's block_cb = "ctx \<Rightarrow> (nat \<Rightarrow> tlv_entry option) \<Rightarrow> 's \<Rightarrow> (int \<times> nat list \<times> 's) outcome"

record 's consumer =
  c_id :: nat
  c_order :: int
  default_msg_consumer :: bool
  c_msg_id :: u8
  addrblock_consumer :: bool
  consumer_list :: "cons_entry list"
  start_callback :: "'s cb option"
  end_callback :: "(ctx \<Rightarrow> bool \<Rightarrow> 's \<Rightarrow> (int \<times> 's) outcome) option"
  tlv_callback :: "(tlv_entry \<Rightarrow> 's cb) option"
  block_callback :: "'s block_cb option"
  block_callback_failed_constraints :: "'s block_cb option"

section \<open>Registration\<close>

definition calc_tlvconsumer_intorder :: "cons_entry \<Rightarrow> u16" where
  "calc_tlvconsumer_intorder e = push_bit 8 (ucast (ce_type e)) OR ucast (ce_type_ext e)"

definition consumer_avl_comp :: "'s consumer \<Rightarrow> 's consumer \<Rightarrow> int" where
  "consumer_avl_comp c1 c2 =
     (if c_order c1 > c_order c2 then 1
      else if c_order c1 < c_order c2 then -1
      else if addrblock_consumer c1 \<and> \<not> addrblock_consumer c2 then 1
      else if \<not> addrblock_consumer c1 \<and> addrblock_consumer c2 then -1
      else 0)"

text \<open>
  The sorted insertion of \<open>_add_consumer\<close>: after the last entry whose order is not larger, at the head
  when there is none; then the maximal length is raised to the minimal one.
\<close>

definition insert_cons_entry :: "cons_entry list \<Rightarrow> cons_entry \<Rightarrow> cons_entry list" where
  "insert_cons_entry l e =
     (let small = rev (dropWhile (\<lambda>x. \<not> calc_tlvconsumer_intorder x \<le> calc_tlvconsumer_intorder e) (rev l))
      in small @ e\<lparr>max_length := (if min_length e > max_length e then min_length e else max_length e)\<rparr> # drop (length small) l)"

definition add_consumer :: "'s consumer \<Rightarrow> 's consumer list \<Rightarrow> cons_entry list \<Rightarrow> 's consumer list" where
  "add_consumer c tree entries =
     (let c' = c\<lparr>consumer_list := foldl insert_cons_entry [] entries\<rparr> in
      tree_add (consumer_avl_comp c') c' tree)"

text \<open>\<open>_free_consumer\<close>, for a consumer that stands in this tree or in none.\<close>

definition free_consumer :: "'s consumer list \<Rightarrow> 's consumer \<Rightarrow> 's consumer list" where
  "free_consumer tree c = filter (\<lambda>d. c_id d \<noteq> c_id c) tree"

text \<open>\<open>struct rfc5444_reader\<close>; the functions that allocate and free entries are the environment's.\<close>

record 's reader =
  packet_consumer :: "'s consumer list"
  message_consumer :: "'s consumer list"
  forward_message :: "(ctx \<Rightarrow> nat \<Rightarrow> nat \<Rightarrow> 's \<Rightarrow> 's outcome) option"

definition rfc5444_reader_init :: "'s reader \<Rightarrow> 's reader" where
  "rfc5444_reader_init rd = rd\<lparr>packet_consumer := [], message_consumer := []\<rparr>"

definition rfc5444_reader_cleanup :: "'s reader \<Rightarrow> 's reader" where
  "rfc5444_reader_cleanup rd = rd\<lparr>packet_consumer := [], message_consumer := []\<rparr>"

definition rfc5444_reader_add_packet_consumer :: "'s consumer \<Rightarrow> cons_entry list \<Rightarrow> 's reader \<Rightarrow> 's reader" where
  "rfc5444_reader_add_packet_consumer c entries rd = rd\<lparr>packet_consumer := add_consumer c (packet_consumer rd) entries\<rparr>"

definition rfc5444_reader_add_message_consumer :: "'s consumer \<Rightarrow> cons_entry list \<Rightarrow> 's reader \<Rightarrow> 's reader" where
  "rfc5444_reader_add_message_consumer c entries rd = rd\<lparr>message_consumer := add_consumer c (message_consumer rd) entries\<rparr>"

definition rfc5444_reader_remove_packet_consumer :: "'s consumer \<Rightarrow> 's reader \<Rightarrow> 's reader outcome" where
  "rfc5444_reader_remove_packet_consumer c rd =
     bnd (guard (\<not> addrblock_consumer c \<and> c_msg_id c = 0) AssertFail) (\<lambda>_.
     Inr (rd\<lparr>packet_consumer := free_consumer (packet_consumer rd) c\<rparr>))"

definition rfc5444_reader_remove_message_consumer :: "'s consumer \<Rightarrow> 's reader \<Rightarrow> 's reader" where
  "rfc5444_reader_remove_message_consumer c rd = rd\<lparr>message_consumer := free_consumer (message_consumer rd) c\<rparr>"

lemma filter_tree_add: "\<not> P x \<Longrightarrow> (\<And>y. y \<in> set xs \<Longrightarrow> P y) \<Longrightarrow> filter P (tree_add f x xs) = xs"
  by (induction xs) (auto intro!: filter_True)

lemma free_added_consumer:
  "c_id c \<notin> c_id ` set tree \<Longrightarrow> free_consumer (add_consumer c tree entries) c = tree"
  unfolding free_consumer_def add_consumer_def Let_def by (rule filter_tree_add) (simp, metis imageI)

text \<open>Removing a message consumer undoes adding it.\<close>

lemma remove_added_message_consumer:
  "c_id c \<notin> c_id ` set (message_consumer rd) \<Longrightarrow>
   rfc5444_reader_remove_message_consumer c (rfc5444_reader_add_message_consumer c entries rd) = rd"
  by (simp add: rfc5444_reader_remove_message_consumer_def rfc5444_reader_add_message_consumer_def free_added_consumer)

lemma remove_added_packet_consumer:
  "c_id c \<notin> c_id ` set (packet_consumer rd) \<Longrightarrow> \<not> addrblock_consumer c \<Longrightarrow> c_msg_id c = 0 \<Longrightarrow>
   rfc5444_reader_remove_packet_consumer c (rfc5444_reader_add_packet_consumer c entries rd) = Inr rd"
  by (simp add: rfc5444_reader_remove_packet_consumer_def rfc5444_reader_add_packet_consumer_def free_added_consumer guard_def)

text \<open>The comparison of consumers orders by \<open>order\<close>, message consumers before address consumers.\<close>

interpretation consumer_keys: key_order consumer_avl_comp
  by unfold_locales (auto simp: consumer_avl_comp_def split: if_splits)

section \<open>TLV blocks\<close>

text \<open>Both pointers may be NULL.\<close>

definition compare_tlvtypes :: "tlv_entry option \<Rightarrow> cons_entry option \<Rightarrow> int" where
  "compare_tlvtypes tlv entry =
     (case entry of
        None \<Rightarrow> (case tlv of None \<Rightarrow> 0 | Some t \<Rightarrow> -1)
      | Some e \<Rightarrow> (case tlv of None \<Rightarrow> 1
          | Some t \<Rightarrow> if match_type_ext e then uint (tlv_order t) - uint (calc_tlvconsumer_intorder e)
                     else uint (tlv_type t) - uint (ce_type e)))"

text \<open>
  The state of the loop of \<open>_schedule_tlvblock\<close>: the TLVs and the consumer's entries with the positions
  in both lists (a position at the end is the NULL pointer), the flag and result, and whether the
  loop was left early.
\<close>

record 's sched =
  s_tlvs :: "tlv_entry list"
  s_cons :: "cons_entry list"
  s_ti :: nat
  s_ci :: nat
  constraints_failed :: bool
  s_result :: int
  s_stop :: bool
  s_state :: 's

definition at :: "'a list \<Rightarrow> nat \<Rightarrow> 'a option" where
  "at xs i = (if i < length xs then Some (xs ! i) else None)"

text \<open>The end of the chain of \<open>next_entry\<close> pointers that starts at \<open>i\<close>; it visits no TLV twice.\<close>

fun chain_last :: "nat \<Rightarrow> tlv_entry list \<Rightarrow> nat \<Rightarrow> nat" where
  "chain_last 0 es i = i"
| "chain_last (Suc n) es i = (case next_entry (es ! i) of None \<Rightarrow> i | Some j \<Rightarrow> chain_last n es j)"

definition sched_index_match :: "u8 \<Rightarrow> tlv_entry option \<Rightarrow> bool" where
  "sched_index_match idx tlv = (case tlv of None \<Rightarrow> False
     | Some t \<Rightarrow> \<not> bitmap256_get (int_drop_tlv t) idx \<and> tlv_index1 t \<le> idx \<and> idx \<le> tlv_index2 t)"

definition sched_multivalue :: "u8 \<Rightarrow> tlv_entry \<Rightarrow> tlv_entry" where
  "sched_multivalue idx t =
     (if multivalue_tlv t
      then t\<lparr>single_value := map_option (\<lambda>v. v + (unat idx - unat (tlv_index1 t)) * unat (tlv_length t)) (tlv_value t)\<rparr>
      else t)"

text \<open>The TLV at \<open>ti\<close> matches the consumer entry at \<open>ci\<close>.\<close>

definition sched_attach :: "u8 list \<Rightarrow> 's sched \<Rightarrow> 's sched outcome" where
  "sched_attach bs st =
     (let ti = s_ti st; ci = s_ci st; t = (s_tlvs st ! ti)\<lparr>next_entry := None\<rparr>; e = s_cons st ! ci;
          es = (s_tlvs st)[ti := t];
          st = st\<lparr>s_tlvs := es, constraints_failed := constraints_failed st \<or>
                    (match_length e \<and> (tlv_length t < min_length e \<or> tlv_length t > max_length e))\<rparr>
      in case ce_tlv e of
          None \<Rightarrow>
            (case copy_value e of
               Some buf \<Rightarrow>
                 if tlv_length t > 0
                 then bnd (deref (single_value t)) (\<lambda>v.
                      bnd (mem_read bs v (min (unat (max_length e)) (unat (tlv_length t)))) (\<lambda>d.
                      bnd (mem_write buf 0 d) (\<lambda>buf'.
                      Inr (st\<lparr>s_cons := (s_cons st)[ci := e\<lparr>ce_tlv := Some ti, copy_value := Some buf'\<rparr>]\<rparr>))))
                 else Inr (st\<lparr>s_cons := (s_cons st)[ci := e\<lparr>ce_tlv := Some ti\<rparr>]\<rparr>)
             | None \<Rightarrow> Inr (st\<lparr>s_cons := (s_cons st)[ci := e\<lparr>ce_tlv := Some ti\<rparr>]\<rparr>))
        | Some f \<Rightarrow>
            let l = chain_last (length es) es f in
            Inr (st\<lparr>s_tlvs := es[l := (es ! l)\<lparr>next_entry := Some ti\<rparr>]\<rparr>))"

definition sched_advance :: "bool \<Rightarrow> 's sched \<Rightarrow> 's sched" where
  "sched_advance matched st =
     (let tlv = at (s_tlvs st) (s_ti st); e = at (s_cons st) (s_ci st);
          ti = (if tlv \<noteq> None \<and> compare_tlvtypes tlv e \<le> 0 then Suc (s_ti st) else s_ti st)
      in if compare_tlvtypes (at (s_tlvs st) ti) e > 0
         then st\<lparr>s_ti := ti, constraints_failed := constraints_failed st \<or> (ce_mandatory (the e) \<and> \<not> matched),
                 s_ci := Suc (s_ci st),
                 s_cons := (if Suc (s_ci st) < length (s_cons st)
                   then (s_cons st)[Suc (s_ci st) := (s_cons st ! Suc (s_ci st))\<lparr>ce_tlv := None\<rparr>] else s_cons st)\<rparr>
         else st\<lparr>s_ti := ti\<rparr>)"

definition sched_tlv_callback :: "'s consumer \<Rightarrow> ctx \<Rightarrow> u8 \<Rightarrow> bool \<Rightarrow> bool \<Rightarrow> 's sched \<Rightarrow> (bool \<times> 's sched) outcome" where
  "sched_tlv_callback c cx idx index_match matched st =
     (case tlv_callback c of
        None \<Rightarrow> Inr (matched, st)
      | Some cb \<Rightarrow>
          if \<not> index_match then Inr (matched, st)
          else bnd (cb (s_tlvs st ! s_ti st) cx (s_state st)) (\<lambda>(result, s).
            if result = RFC5444_DROP_TLV
            then Inr (False, st\<lparr>s_state := s, s_result := RFC5444_OKAY, s_tlvs := (s_tlvs st)[s_ti st :=
                   (s_tlvs st ! s_ti st)\<lparr>int_drop_tlv := bitmap256_set (int_drop_tlv (s_tlvs st ! s_ti st)) idx\<rparr>]\<rparr>)
            else Inr (matched, st\<lparr>s_state := s, s_result := result, s_stop := (result \<noteq> RFC5444_OKAY)\<rparr>)))"

definition sched_match :: "u8 list \<Rightarrow> bool \<Rightarrow> 's sched \<Rightarrow> 's sched outcome" where
  "sched_match bs matched st =
     (let tlv = at (s_tlvs st) (s_ti st); e = at (s_cons st) (s_ci st) in
      if compare_tlvtypes tlv e \<ge> 0
      then let st = st\<lparr>constraints_failed := constraints_failed st \<or> (ce_mandatory (the e) \<and> \<not> matched)\<rparr>
        in if matched then sched_attach bs st else Inr st
      else Inr st)"

definition sched_step :: "u8 list \<Rightarrow> 's consumer \<Rightarrow> ctx \<Rightarrow> u8 \<Rightarrow> 's sched \<Rightarrow> 's sched outcome" where
  "sched_step bs c cx idx st =
     (let tlv = at (s_tlvs st) (s_ti st); e = at (s_cons st) (s_ci st);
          index_match = sched_index_match idx tlv;
          matched = (index_match \<and> e \<noteq> None \<and> compare_tlvtypes tlv e = 0);
          st = (if index_match then st\<lparr>s_tlvs := (s_tlvs st)[s_ti st := sched_multivalue idx (the tlv)]\<rparr> else st)
      in bnd (sched_tlv_callback c cx idx index_match matched st) (\<lambda>(matched, st).
           if s_stop st then Inr st
           else bnd (sched_match bs matched st) (\<lambda>st. Inr (sched_advance matched st))))"

fun sched_loop :: "nat \<Rightarrow> u8 list \<Rightarrow> 's consumer \<Rightarrow> ctx \<Rightarrow> u8 \<Rightarrow> 's sched \<Rightarrow> 's sched outcome" where
  "sched_loop 0 bs c cx idx st = Inr st"
| "sched_loop (Suc n) bs c cx idx st =
     (if s_stop st \<or> (s_ti st \<ge> length (s_tlvs st) \<and> s_ci st \<ge> length (s_cons st)) then Inr st
      else bnd (sched_step bs c cx idx st) (sched_loop n bs c cx idx))"

text \<open>The TLV an entry of the registered array points to.\<close>

definition cons_tlv :: "tlv_entry list \<Rightarrow> cons_entry list \<Rightarrow> nat \<Rightarrow> tlv_entry option" where
  "cons_tlv tlvs es k = (case filter (\<lambda>e. ce_id e = k) es of [] \<Rightarrow> None
     | e # _ \<Rightarrow> map_option ((!) tlvs) (ce_tlv e))"

definition drop_tlvs :: "u8 \<Rightarrow> nat list \<Rightarrow> cons_entry list \<Rightarrow> tlv_entry list \<Rightarrow> tlv_entry list" where
  "drop_tlvs idx ids es tlvs = foldl (\<lambda>ts e. case ce_tlv e of
       Some k \<Rightarrow> if ce_id e \<in> set ids then ts[k := (ts ! k)\<lparr>int_drop_tlv := bitmap256_set (int_drop_tlv (ts ! k)) idx\<rparr>] else ts
     | None \<Rightarrow> ts) tlvs es"

definition schedule_tlvblock ::
    "'s consumer \<Rightarrow> ctx \<Rightarrow> tlv_entry list \<Rightarrow> u8 \<Rightarrow> 's \<Rightarrow> (int \<times> tlv_entry list \<times> 's) outcome" where
  "schedule_tlvblock c cx entries idx s =
     (let cons = (case consumer_list c of [] \<Rightarrow> [] | e # es \<Rightarrow> e\<lparr>ce_tlv := None\<rparr> # es);
          st0 = \<lparr>s_tlvs = entries, s_cons = cons, s_ti = 0, s_ci = 0, constraints_failed = False,
                 s_result = RFC5444_OKAY, s_stop = False, s_state = s\<rparr>
      in bnd (sched_loop (length entries + length cons) (pkt_buffer cx) c cx idx st0) (\<lambda>st.
         if s_stop st then Inr (s_result st, s_tlvs st, s_state st)
         else case (if constraints_failed st then block_callback_failed_constraints c else block_callback c) of
             None \<Rightarrow> Inr (s_result st, s_tlvs st, s_state st)
           | Some cb \<Rightarrow> bnd (cb cx (cons_tlv (s_tlvs st) (s_cons st)) (s_state st)) (\<lambda>(result, ids, s).
               if result = RFC5444_DROP_TLV
               then Inr (RFC5444_OKAY, drop_tlvs idx ids (s_cons st) (s_tlvs st), s)
               else Inr (result, s_tlvs st, s))))"

section \<open>Consumers of a message\<close>

definition start_of_context :: "'s cb option \<Rightarrow> ctx \<Rightarrow> int \<Rightarrow> 's \<Rightarrow> (int \<times> 's) outcome" where
  "start_of_context cb cx result s = (case cb of None \<Rightarrow> Inr (result, s) | Some f \<Rightarrow> f cx s)"

definition schedule_msgtlv_consumer ::
    "'s consumer \<Rightarrow> ctx \<Rightarrow> tlv_entry list \<Rightarrow> 's \<Rightarrow> (int \<times> tlv_entry list \<times> 's) outcome" where
  "schedule_msgtlv_consumer c cx entries s =
     bnd (start_of_context (start_callback c) cx RFC5444_OKAY s) (\<lambda>(result, s).
       if result = RFC5444_OKAY then schedule_tlvblock c cx entries 0 s else Inr (result, entries, s))"

text \<open>One address of a block: assembled, then shown to the consumer.\<close>

definition schedule_addr :: "af \<Rightarrow> 's consumer \<Rightarrow> ctx \<Rightarrow> addrblock_entry \<Rightarrow> u8 \<Rightarrow> 's \<Rightarrow>
    (int \<times> ctx \<times> addrblock_entry \<times> 's) outcome" where
  "schedule_addr F c cx a i s =
     bnd (assemble_addr (pkt_buffer cx) a (unat i)) (\<lambda>a.
     bnd (case prefixes a of Some p \<Rightarrow> mem_get (pkt_buffer cx) (p + unat i) | None \<Rightarrow> Inr (prefixlen a)) (\<lambda>plen.
     bnd (netaddr_from_binary_prefix F (ab_addr a) (unat (addr_len cx)) 0 plen) (\<lambda>(addr, _).
     let cx = cx\<lparr>ctx_addr := addr, addr_index := i\<rparr> in
     bnd (start_of_context (start_callback c) cx RFC5444_OKAY s) (\<lambda>(result, s).
     bnd (if result = RFC5444_OKAY then schedule_tlvblock c cx (ab_tlvblock a) i s
          else Inr (result, ab_tlvblock a, s)) (\<lambda>(result, tlvs, s).
     let a = a\<lparr>ab_tlvblock := tlvs\<rparr> in
     bnd (case end_callback c of None \<Rightarrow> Inr (result, s)
          | Some f \<Rightarrow> bnd (f cx (result \<noteq> RFC5444_OKAY) s) (\<lambda>(r, s). Inr (if r > result then r else result, s))) (\<lambda>(result, s).
     if result = RFC5444_DROP_ADDRESS
     then Inr (RFC5444_OKAY, cx, a\<lparr>dropAddr := bitmap256_set (dropAddr a) i\<rparr>, s)
     else Inr (result, cx, a, s)))))))"

fun schedule_addrs :: "af \<Rightarrow> 's consumer \<Rightarrow> ctx \<Rightarrow> addrblock_entry \<Rightarrow> u8 list \<Rightarrow> 's \<Rightarrow>
    (int \<times> ctx \<times> addrblock_entry \<times> 's) outcome" where
  "schedule_addrs F c cx a [] s = Inr (RFC5444_OKAY, cx, a, s)"
| "schedule_addrs F c cx a (i # is) s =
     (if bitmap256_get (dropAddr a) i then schedule_addrs F c cx a is s
      else bnd (schedule_addr F c cx a i s) (\<lambda>(result, cx, a, s).
        if result \<noteq> RFC5444_OKAY then Inr (result, cx, a, s) else schedule_addrs F c cx a is s))"

fun schedule_blocks :: "af \<Rightarrow> 's consumer \<Rightarrow> ctx \<Rightarrow> addrblock_entry list \<Rightarrow> 's \<Rightarrow>
    (int \<times> ctx \<times> addrblock_entry list \<times> 's) outcome" where
  "schedule_blocks F c cx [] s = Inr (RFC5444_OKAY, cx\<lparr>addr_block_buffer := None\<rparr>, [], s)"
| "schedule_blocks F c cx (a # as) s =
     bnd (schedule_addrs F c (cx\<lparr>addr_block_buffer := Some (addr_block_ptr a), ctx_addr_block_size := addr_block_size a,
            ctx_addr_tlv_size := addr_tlv_size a\<rparr>) a (map of_nat [0..<unat (num_addr a)]) s) (\<lambda>(result, cx, a, s).
       if result \<noteq> RFC5444_OKAY then Inr (result, cx, a # as, s)
       else bnd (schedule_blocks F c cx as s) (\<lambda>(result, cx, as, s). Inr (result, cx, a # as, s)))"

definition schedule_msgaddr_consumer :: "af \<Rightarrow> 's consumer \<Rightarrow> ctx \<Rightarrow> addrblock_entry list \<Rightarrow> 's \<Rightarrow>
    (int \<times> ctx \<times> addrblock_entry list \<times> 's) outcome" where
  "schedule_msgaddr_consumer F c cx blocks s = schedule_blocks F c (cx\<lparr>ctx_type := CONTEXT_ADDRESS\<rparr>) blocks s"

text \<open>The end callbacks of the consumers given in reverse tree order.\<close>

fun schedule_end_message_cbs :: "ctx \<Rightarrow> 's consumer list \<Rightarrow> int \<Rightarrow> 's \<Rightarrow> (int \<times> 's) outcome" where
  "schedule_end_message_cbs cx [] result s = Inr (result, s)"
| "schedule_end_message_cbs cx (c # cs) result s =
     (if \<not> addrblock_consumer c \<and> (default_msg_consumer c \<or> c_msg_id c = msg_type cx)
      then case end_callback c of
          None \<Rightarrow> schedule_end_message_cbs cx cs result s
        | Some f \<Rightarrow> bnd (f cx (result \<noteq> RFC5444_OKAY) s) (\<lambda>(r, s).
            schedule_end_message_cbs cx cs (if r > result then r else result) s)
      else schedule_end_message_cbs cx cs result s)"

text \<open>
  The loop over the consumers (\<open>i\<close> is the position of the next one in the tree \<open>all\<close>); \<open>same_order\<close> is
  the range whose end callbacks are due. The last component tells that the code jumped to the
  cleanup.
\<close>

definition due :: "'s consumer list \<Rightarrow> nat \<times> nat \<Rightarrow> 's consumer list" where
  "due all r = rev (take (Suc (snd r) - fst r) (drop (fst r) all))"

record 's mrun =
  m_ctx :: ctx
  m_tlvs :: "tlv_entry list"
  m_blocks :: "addrblock_entry list"
  m_same :: "(nat \<times> nat) option"
  m_result :: int
  m_state :: 's

definition end_same_order :: "'s consumer list \<Rightarrow> 's mrun \<Rightarrow> 's mrun outcome" where
  "end_same_order all m = (case m_same m of None \<Rightarrow> Inr m
     | Some r \<Rightarrow> bnd (schedule_end_message_cbs ((m_ctx m)\<lparr>ctx_type := CONTEXT_MESSAGE\<rparr>) (due all r) (m_result m) (m_state m))
         (\<lambda>(result, s). Inr (m\<lparr>m_ctx := (m_ctx m)\<lparr>ctx_type := CONTEXT_MESSAGE\<rparr>, m_result := result, m_state := s\<rparr>)))"

fun run_consumers :: "af \<Rightarrow> 's consumer list \<Rightarrow> nat \<Rightarrow> 's consumer list \<Rightarrow> 's mrun \<Rightarrow> ('s mrun \<times> bool) outcome" where
  "run_consumers F all i [] m = Inr (m, False)"
| "run_consumers F all i (c # cs) m =
     (if \<not> default_msg_consumer c \<and> c_msg_id c \<noteq> msg_type (m_ctx m) then run_consumers F all (Suc i) cs m
      else bnd (case m_same m of
                  Some (f, l) \<Rightarrow> if c_order c > c_order (all ! l)
                    then bnd (end_same_order all m) (\<lambda>m. if m_result m \<noteq> RFC5444_OKAY then Inr (m, True)
                           else Inr (m\<lparr>m_same := None\<rparr>, False))
                    else Inr (m, False)
                | None \<Rightarrow> Inr (m, False))
        (\<lambda>(m, cleanup). if cleanup then Inr (m, True)
          else bnd (if addrblock_consumer c
                    then bnd (schedule_msgaddr_consumer F c (m_ctx m) (m_blocks m) (m_state m)) (\<lambda>(result, cx, bl, s).
                         Inr (m\<lparr>m_ctx := cx, m_blocks := bl, m_result := result, m_state := s\<rparr>))
                    else let cx = (m_ctx m)\<lparr>ctx_type := CONTEXT_MESSAGE\<rparr> in
                         bnd (schedule_msgtlv_consumer c cx (m_tlvs m) (m_state m)) (\<lambda>(result, tlvs, s).
                         Inr (m\<lparr>m_ctx := cx, m_tlvs := tlvs, m_result := result, m_state := s,
                           m_same := (case m_same m of None \<Rightarrow> Some (i, i) | Some (f, l) \<Rightarrow> Some (f, i))\<rparr>)))
          (\<lambda>m. if m_result m \<noteq> RFC5444_OKAY then Inr (m, False) else run_consumers F all (Suc i) cs m)))"

definition run_message :: "af \<Rightarrow> 's consumer list \<Rightarrow> 's mrun \<Rightarrow> 's mrun outcome" where
  "run_message F cs m =
     bnd (run_consumers F cs 0 cs m) (\<lambda>(m, cleanup). if cleanup then Inr m else end_same_order cs m)"

section \<open>Messages\<close>

definition RFC5444_MSG_FLAG_ORIGINATOR :: u8 where "RFC5444_MSG_FLAG_ORIGINATOR = 0x80"
definition RFC5444_MSG_FLAG_HOPLIMIT :: u8 where "RFC5444_MSG_FLAG_HOPLIMIT = 0x40"
definition RFC5444_MSG_FLAG_HOPCOUNT :: u8 where "RFC5444_MSG_FLAG_HOPCOUNT = 0x20"
definition RFC5444_MSG_FLAG_SEQNO :: u8 where "RFC5444_MSG_FLAG_SEQNO = 0x10"
definition RFC5444_MSG_FLAG_ADDRLENMASK :: u8 where "RFC5444_MSG_FLAG_ADDRLENMASK = 0x0f"

text \<open>
  The header of a message. The result is a code with the context filled so far, or the context with the
  header's fields, the position after the header and the end of the message.
\<close>

definition parse_msg_origaddr :: "af \<Rightarrow> u8 list \<Rightarrow> nat \<Rightarrow> ctx \<Rightarrow> pos \<Rightarrow> (int \<times> ctx + ctx \<times> pos) outcome" where
  "parse_msg_origaddr F bs eob cx p =
     (if \<not> has_origaddr cx then Inr (Inr (cx, p))
      else let len = unat (addr_len cx) in
        if fst p + len > eob then Inr (Inl (RFC5444_END_OF_BUFFER, cx))
        else bnd (netaddr_from_binary F (drop (fst p) bs) len 0) (\<lambda>(addr, _).
          Inr (Inr (cx\<lparr>orig_addr := addr\<rparr>, fst p + len, snd p))))"

definition get_if :: "bool \<Rightarrow> u8 list \<Rightarrow> nat \<Rightarrow> pos \<Rightarrow> u8 \<Rightarrow> (u8 \<times> pos) outcome" where
  "get_if b bs eob p old = (if b then rfc5444_get_u8 bs eob p else Inr (old, p))"

definition parse_msg_start :: "u8 list \<Rightarrow> nat \<Rightarrow> nat \<Rightarrow> (u8 \<times> u8 \<times> u16 \<times> pos) outcome" where
  "parse_msg_start bs eob start =
     bnd (rfc5444_get_u8 bs eob (start, RFC5444_OKAY)) (\<lambda>(ty, p).
     bnd (rfc5444_get_u8 bs eob p) (\<lambda>(flags, p).
     bnd (rfc5444_get_u16 bs eob p) (\<lambda>(sz, p). Inr (ty, flags, sz, p))))"

definition parse_msg_optional :: "u8 list \<Rightarrow> nat \<Rightarrow> u8 \<Rightarrow> ctx \<Rightarrow> pos \<Rightarrow> (ctx \<times> pos) outcome" where
  "parse_msg_optional bs eob flags cx p =
     (let hl = (flags AND RFC5444_MSG_FLAG_HOPLIMIT \<noteq> 0); hc = (flags AND RFC5444_MSG_FLAG_HOPCOUNT \<noteq> 0);
          sq = (flags AND RFC5444_MSG_FLAG_SEQNO \<noteq> 0) in
      bnd (get_if hl bs eob p (hoplimit cx)) (\<lambda>(limit, p).
      bnd (get_if hc bs eob p (hopcount cx)) (\<lambda>(count, p).
      bnd (if sq then rfc5444_get_u16 bs eob p else Inr (seqno cx, p)) (\<lambda>(sn, p).
      Inr (cx\<lparr>has_hoplimit := hl, hoplimit := limit, has_hopcount := hc, hopcount := count, has_seqno := sq, seqno := sn\<rparr>, p)))))"

definition parse_msg_header :: "af \<Rightarrow> u8 list \<Rightarrow> nat \<Rightarrow> ctx \<Rightarrow> nat \<Rightarrow> (int \<times> ctx + ctx \<times> nat \<times> nat \<times> u16) outcome" where
  "parse_msg_header F bs eob cx start =
     bnd (parse_msg_start bs eob start) (\<lambda>(ty, flags, sz, p).
     step_bind (parse_msg_origaddr F bs eob
       (cx\<lparr>do_not_forward := False, msg_type := ty, addr_len := (flags AND RFC5444_MSG_FLAG_ADDRLENMASK) + 1,
           msg_flags := flags AND NOT RFC5444_MSG_FLAG_ADDRLENMASK,
           has_origaddr := (flags AND RFC5444_MSG_FLAG_ORIGINATOR \<noteq> 0)\<rparr>) p) (\<lambda>(cx, p).
     bnd (parse_msg_optional bs eob flags cx p) (\<lambda>(cx, p).
     if start + unat sz > eob then Inr (Inl (RFC5444_END_OF_BUFFER, cx))
     else if snd p \<noteq> RFC5444_OKAY then Inr (Inl (snd p, cx))
     else Inr (Inr (cx, fst p, start + unat sz, sz)))))"

text \<open>The address blocks of a message up to its end, each with its TLV block.\<close>

function parse_blocks :: "u8 list \<Rightarrow> nat \<Rightarrow> u8 \<Rightarrow> nat \<Rightarrow> addrblock_entry list \<Rightarrow> world \<Rightarrow>
    (int \<times> addrblock_entry list \<times> world) outcome" where
  "parse_blocks bs msg_end al ptr blocks w =
     (if ptr < msg_end
      then let (ok, w) = calloc w in
        if \<not> ok then Inr (RFC5444_OUT_OF_MEMORY, [], w)
        else case parse_addrblock bs msg_end al ptr of
            Inl f \<Rightarrow> Inl f
          | Inr (Inl code) \<Rightarrow> Inr (code, [], w)
          | Inr (Inr (a, ptr1)) \<Rightarrow>
             (case parse_tlvblock bs msg_end (num_addr a) ptr1 w of
                Inl f \<Rightarrow> Inl f
              | Inr (result, tlvs, ptr2, w) \<Rightarrow>
                  if result \<noteq> RFC5444_OKAY then Inr (result, [], w)
                  else parse_blocks bs msg_end al ptr2 (blocks @ [a\<lparr>ab_tlvblock := tlvs,
                         addr_tlv_size := ptr2 - addr_block_size a - addr_block_ptr a\<rparr>]) w)
      else Inr (RFC5444_OKAY, blocks, w))"
  by pat_completeness auto
termination
proof (relation "measure (\<lambda>(bs, msg_end, al, ptr, blocks, w). msg_end - ptr)", goal_cases)
  case (2 bs msg_end al ptr blocks w c ok w1 r1 r2 a ptr1 r3 result r4 tlvs r5 ptr2 w2)
  then have a: "parse_addrblock bs msg_end al ptr = Inr (Inr (a, ptr1))"
    and t: "parse_tlvblock bs msg_end (num_addr a) ptr1 w1 = Inr (RFC5444_OKAY, tlvs, ptr2, w2)" by simp_all
  from parse_addrblock_okay [OF a] parse_tlvblock_okay [OF t] 2(1) show ?case by auto
qed simp

declare parse_blocks.simps [simp del]

text \<open>
  \<open>_handle_message\<close>: the header, the message TLVs, the address blocks, the consumers, then forwarding
  when the reader has a function for it. The result is the code and the position after the message.
\<close>

definition handle_parsed_message ::
    "af \<Rightarrow> 's consumer list \<Rightarrow> (ctx \<Rightarrow> nat \<Rightarrow> nat \<Rightarrow> 's \<Rightarrow> 's outcome) option \<Rightarrow> nat \<Rightarrow> nat \<Rightarrow> 's mrun \<Rightarrow>
      (int \<times> ctx \<times> 's) outcome" where
  "handle_parsed_message F cs forward start msg_end m =
     bnd (run_message F cs m) (\<lambda>m.
     let cx = (m_ctx m)\<lparr>msg_buffer := None\<rparr>; result = m_result m in
     bnd (case forward of
            Some f \<Rightarrow> if (result = RFC5444_OKAY \<or> result = RFC5444_DROP_MSG_BUT_FORWARD) \<and> \<not> do_not_forward cx \<and>
                 has_hoplimit cx \<and> hoplimit cx > 1
               then f (cx\<lparr>ctx_type := CONTEXT_MESSAGE\<rparr>) start (msg_end - start) (m_state m)
               else Inr (m_state m)
          | None \<Rightarrow> Inr (m_state m)) (\<lambda>s.
     Inr (if result > RFC5444_OKAY \<and> result \<noteq> RFC5444_DROP_PACKET then RFC5444_OKAY else result, cx, s)))"

definition handle_message ::
    "af \<Rightarrow> 's consumer list \<Rightarrow> (ctx \<Rightarrow> nat \<Rightarrow> nat \<Rightarrow> 's \<Rightarrow> 's outcome) option \<Rightarrow> nat \<Rightarrow> ctx \<Rightarrow> nat \<Rightarrow>
      world \<Rightarrow> 's \<Rightarrow> (int \<times> ctx + ctx \<times> nat \<times> world \<times> 's \<times> int) outcome" where
  "handle_message F cs forward eob cx start w s =
     step_bind (parse_msg_header F (pkt_buffer cx) eob cx start) (\<lambda>(cx, ptr, msg_end, size).
     bnd (parse_tlvblock (pkt_buffer cx) msg_end 0 ptr w) (\<lambda>(code, tlvs, ptr, w).
     if code \<noteq> RFC5444_OKAY then Inr (Inl (code, cx))
     else bnd (parse_blocks (pkt_buffer cx) msg_end (addr_len cx) ptr [] w) (\<lambda>(code, blocks, w).
     if code \<noteq> RFC5444_OKAY then Inr (Inl (code, cx))
     else bnd (handle_parsed_message F cs forward start msg_end
            \<lparr>m_ctx = cx\<lparr>msg_buffer := Some start, msg_size := unat size\<rparr>, m_tlvs = tlvs, m_blocks = blocks,
             m_same = None, m_result = RFC5444_OKAY, m_state = s\<rparr>) (\<lambda>(result, cx, s).
          Inr (Inr (cx, msg_end, w, s, result))))))"

lemma get_u16_mono: "rfc5444_get_u16 bs eob p = Inr (v, p') \<Longrightarrow> fst p \<le> fst p'"
  by (cases p; cases p') (auto simp: rfc5444_get_u16_def bnd_Inr_iff dest!: get_u8_mono)

lemma get_if_mono: "get_if b bs eob p old = Inr (v, p') \<Longrightarrow> fst p \<le> fst p'"
  by (cases p; cases p') (auto simp: get_if_def dest!: get_u8_mono split: if_splits)

lemma parse_msg_origaddr_okay:
  "parse_msg_origaddr F bs eob cx p = Inr (Inr (cx', p')) \<Longrightarrow> fst p \<le> fst p' \<and> pkt_buffer cx' = pkt_buffer cx"
  by (auto simp: parse_msg_origaddr_def bnd_Inr_iff Let_def split: if_splits)

lemma parse_msg_start_okay: "parse_msg_start bs eob start = Inr (ty, flags, sz, p) \<Longrightarrow> start \<le> fst p"
  by (cases p) (fastforce simp: parse_msg_start_def bnd_Inr_iff dest!: get_u8_mono get_u16_mono)

lemma parse_msg_optional_okay:
  assumes "parse_msg_optional bs eob flags cx p = Inr (cx', p')"
  shows "fst p \<le> fst p' \<and> pkt_buffer cx' = pkt_buffer cx"
proof -
  from assms obtain l p1 n p2 sn where
    1: "get_if (flags AND RFC5444_MSG_FLAG_HOPLIMIT \<noteq> 0) bs eob p (hoplimit cx) = Inr (l, p1)" and
    2: "get_if (flags AND RFC5444_MSG_FLAG_HOPCOUNT \<noteq> 0) bs eob p1 (hopcount cx) = Inr (n, p2)" and
    3: "(if flags AND RFC5444_MSG_FLAG_SEQNO \<noteq> 0 then rfc5444_get_u16 bs eob p2 else Inr (seqno cx, p2)) = Inr (sn, p')" and
    cx: "pkt_buffer cx' = pkt_buffer cx"
    unfolding parse_msg_optional_def Let_def by (auto simp: bnd_Inr_iff)
  from 3 have "fst p2 \<le> fst p'" by (auto split: if_splits dest: get_u16_mono)
  with get_if_mono [OF 1] get_if_mono [OF 2] cx show ?thesis by simp
qed

lemma parse_msg_header_okay:
  assumes "parse_msg_header F bs eob cx start = Inr (Inr (cx', ptr, msg_end, sz))"
  shows "start \<le> ptr \<and> msg_end \<le> eob \<and> pkt_buffer cx' = pkt_buffer cx"
proof -
  from assms obtain ty flags sz' p where 1: "parse_msg_start bs eob start = Inr (ty, flags, sz', p)"
    by (auto simp: parse_msg_header_def bnd_Inr_iff)
  let ?cx = "cx\<lparr>do_not_forward := False, msg_type := ty, addr_len := (flags AND RFC5444_MSG_FLAG_ADDRLENMASK) + 1,
           msg_flags := flags AND NOT RFC5444_MSG_FLAG_ADDRLENMASK,
           has_origaddr := (flags AND RFC5444_MSG_FLAG_ORIGINATOR \<noteq> 0)\<rparr>"
  from assms 1 obtain cx2 p2 p3 where 2: "parse_msg_origaddr F bs eob ?cx p = Inr (Inr (cx2, p2))"
    and 3: "parse_msg_optional bs eob flags cx2 p2 = Inr (cx', p3)" and rest: "ptr = fst p3" "msg_end \<le> eob"
    by (auto simp: parse_msg_header_def bnd_Inr_iff step_bind_okay not_less split: if_splits)
  from parse_msg_start_okay [OF 1] parse_msg_origaddr_okay [OF 2] parse_msg_optional_okay [OF 3] rest
  show ?thesis by simp
qed

definition RFC5444_PKT_FLAGMASK :: u8 where "RFC5444_PKT_FLAGMASK = 0x0f"
definition RFC5444_PKT_FLAG_SEQNO :: u8 where "RFC5444_PKT_FLAG_SEQNO = 0x08"
definition RFC5444_PKT_FLAG_TLV :: u8 where "RFC5444_PKT_FLAG_TLV = 0x04"

definition rfc5444_get_pktversion :: "u8 \<Rightarrow> u8" where
  "rfc5444_get_pktversion v = drop_bit 4 v"

lemma handle_message_progress:
  assumes "handle_message F cs forward eob cx start w s = Inr (Inr (cx', msg_end, w', s', result))"
  shows "start < msg_end \<and> msg_end \<le> eob"
proof -
  from assms obtain cx1 ptr sz tlvs ptr1 w1 where
    1: "parse_msg_header F (pkt_buffer cx) eob cx start = Inr (Inr (cx1, ptr, msg_end, sz))" and
    2: "parse_tlvblock (pkt_buffer cx1) msg_end 0 ptr w = Inr (RFC5444_OKAY, tlvs, ptr1, w1)"
    by (auto simp: handle_message_def bnd_Inr_iff step_bind_okay split: if_splits)
  from parse_msg_header_okay [OF 1] parse_tlvblock_okay [OF 2] show ?thesis by auto
qed

function handle_messages ::
    "af \<Rightarrow> 's consumer list \<Rightarrow> (ctx \<Rightarrow> nat \<Rightarrow> nat \<Rightarrow> 's \<Rightarrow> 's outcome) option \<Rightarrow> nat \<Rightarrow> ctx \<Rightarrow> nat \<Rightarrow>
      world \<Rightarrow> 's \<Rightarrow> (int \<times> ctx \<times> 's) outcome" where
  "handle_messages F cs forward eob cx ptr w s =
     (if ptr < eob
      then case handle_message F cs forward eob cx ptr w s of
          Inl f \<Rightarrow> Inl f
        | Inr (Inl (code, cx')) \<Rightarrow> Inr (code, cx', s)
        | Inr (Inr (cx', ptr', w', s', result)) \<Rightarrow>
            if result \<noteq> RFC5444_OKAY then Inr (result, cx', s') else handle_messages F cs forward eob cx' ptr' w' s'
      else Inr (RFC5444_OKAY, cx, s))"
  by pat_completeness auto
termination
proof (relation "measure (\<lambda>(F, cs, forward, eob, cx, ptr, w, s). eob - ptr)", goal_cases)
  case (2 F cs forward eob cx ptr w s a b cx' r1 ptr' r2 w' r3 s' result)
  then have "handle_message F cs forward eob cx ptr w s = Inr (Inr (cx', ptr', w', s', result))" by simp
  from handle_message_progress [OF this] 2(1) show ?case by (auto intro: diff_less_mono2)
qed simp

declare handle_messages.simps [simp del]

text \<open>
  \<open>rfc5444_reader_handle_packet\<close>. The packet consumers see the packet's TLVs first; one that answers with a code other
  than okay ends the packet. Then message after message is handled until one reports a result other than okay. At the
  end the consumers that were started are told, the last one first; their answers are not looked at.
\<close>

fun start_packet :: "'s consumer list \<Rightarrow> bool \<Rightarrow> ctx \<Rightarrow> 's consumer list \<Rightarrow> tlv_entry list \<Rightarrow> 's \<Rightarrow>
    (int \<times> 's consumer list \<times> 's) outcome" where
  "start_packet [] has_tlv cx started entries s = Inr (RFC5444_OKAY, started, s)"
| "start_packet (c # cs) has_tlv cx started entries s =
     bnd (start_of_context (start_callback c) cx RFC5444_OKAY s) (\<lambda>(result, s).
     bnd (if result = RFC5444_OKAY \<and> has_tlv \<and> (tlv_callback c \<noteq> None \<or> block_callback c \<noteq> None)
          then schedule_tlvblock c cx entries 0 s else Inr (result, entries, s)) (\<lambda>(result, entries, s).
     if result \<noteq> RFC5444_OKAY then Inr (result, c # started, s)
     else start_packet cs has_tlv cx (c # started) entries s))"

fun end_packet :: "'s consumer list \<Rightarrow> ctx \<Rightarrow> bool \<Rightarrow> 's \<Rightarrow> 's outcome" where
  "end_packet [] cx dropped s = Inr s"
| "end_packet (c # cs) cx dropped s =
     (case end_callback c of None \<Rightarrow> end_packet cs cx dropped s
      | Some f \<Rightarrow> bnd (f cx dropped s) (\<lambda>(_, s). end_packet cs cx dropped s))"

definition deliver_packet :: "af \<Rightarrow> 's reader \<Rightarrow> bool \<Rightarrow> nat \<Rightarrow> ctx \<Rightarrow> tlv_entry list \<Rightarrow> nat \<Rightarrow> world \<Rightarrow> 's \<Rightarrow> (int \<times> 's) outcome" where
  "deliver_packet F rd has_tlv eob cx entries ptr w s =
     bnd (start_packet (packet_consumer rd) has_tlv cx [] entries s) (\<lambda>(result, started, s).
     bnd (if result = RFC5444_OKAY
          then handle_messages F (message_consumer rd) (forward_message rd) eob cx ptr w s
          else Inr (result, cx, s)) (\<lambda>(result, cx, s).
     bnd (end_packet started cx (result \<noteq> RFC5444_OKAY) s) (\<lambda>s.
     Inr (if result = RFC5444_DROP_PACKET then RFC5444_OKAY else result, s))))"

definition rfc5444_reader_handle_packet :: "af \<Rightarrow> 's reader \<Rightarrow> u8 list \<Rightarrow> world \<Rightarrow> 's \<Rightarrow> (int \<times> 's) outcome" where
  "rfc5444_reader_handle_packet F rd bs w s =
     (let eob = length bs in
      if eob > 65535 then Inr (RFC5444_TOO_LARGE, s)
      else bnd (rfc5444_get_u8 bs eob (0, RFC5444_OKAY)) (\<lambda>(first_byte, p).
        let cx = ctx_zero\<lparr>pkt_version := rfc5444_get_pktversion first_byte, pkt_flags := first_byte AND RFC5444_PKT_FLAGMASK\<rparr> in
        if pkt_version cx \<noteq> 0 then Inr (RFC5444_UNSUPPORTED_VERSION, s)
        else let sq = (pkt_flags cx AND RFC5444_PKT_FLAG_SEQNO \<noteq> 0); has_tlv = (pkt_flags cx AND RFC5444_PKT_FLAG_TLV \<noteq> 0) in
          bnd (if sq then rfc5444_get_u16 bs eob p else Inr (0, p)) (\<lambda>(sn, ptr, result).
          if result \<noteq> RFC5444_OKAY then Inr (result, s)
          else bnd (if has_tlv then parse_tlvblock bs eob 0 ptr w
                    else Inr (RFC5444_OKAY, [], ptr, w)) (\<lambda>(result, entries, ptr, w).
            if result \<noteq> RFC5444_OKAY then Inr (result, s)
            else deliver_packet F rd has_tlv eob (cx\<lparr>has_pktseqno := sq, pkt_seqno := sn, pkt_buffer := bs\<rparr>) entries ptr w s))))"

text \<open>
  Exactly the packet consumers that were started are told at the end, the last one first: a prefix of the tree, and
  all of it when none of them ended the packet.
\<close>

lemma start_packet_started:
  "start_packet ds has_tlv cx started entries s = Inr (r, started', s') \<Longrightarrow>
   \<exists>k \<le> length ds. started' = rev (take k ds) @ started \<and> (r = RFC5444_OKAY \<longrightarrow> k = length ds)"
proof (induction ds arbitrary: started entries s)
  case (Cons c ds)
  from Cons.prems obtain r2 es s2 where
    step: "(if r2 \<noteq> RFC5444_OKAY then Inr (r2, c # started, s2) else start_packet ds has_tlv cx (c # started) es s2) = Inr (r, started', s')"
    by (simp only: start_packet.simps bnd_Inr_iff split_paired_Ex prod.case) blast
  show ?case
  proof (cases "r2 = RFC5444_OKAY")
    case True
    with step Cons.IH [of "c # started" es s2] obtain k where
      "k \<le> length ds" "started' = rev (take k ds) @ c # started" "r = RFC5444_OKAY \<longrightarrow> k = length ds" by auto
    then show ?thesis by (intro exI [of _ "Suc k"]) simp
  next
    case False
    with step show ?thesis by (intro exI [of _ 1]) auto
  qed
qed simp

section \<open>The walk over both lists ends\<close>

definition sched_done :: "'s sched \<Rightarrow> bool" where
  "sched_done st \<longleftrightarrow> s_stop st \<or> s_ti st \<ge> length (s_tlvs st) \<and> s_ci st \<ge> length (s_cons st)"

definition sched_left :: "'s sched \<Rightarrow> nat" where
  "sched_left st = (length (s_tlvs st) - s_ti st) + (length (s_cons st) - s_ci st)"

lemma sched_attach_frame:
  "sched_attach bs st = Inr st' \<Longrightarrow> length (s_tlvs st') = length (s_tlvs st) \<and> length (s_cons st') = length (s_cons st) \<and>
     s_ti st' = s_ti st \<and> s_ci st' = s_ci st \<and> s_stop st' = s_stop st"
  by (auto simp: sched_attach_def Let_def bnd_Inr_iff split: option.splits if_splits)

lemma sched_advance_progress:
  assumes "\<not> sched_done st"
  shows "sched_left (sched_advance m st) < sched_left st \<and> s_stop (sched_advance m st) = s_stop st"
proof -
  from assms have some: "s_ti st < length (s_tlvs st) \<or> s_ci st < length (s_cons st)" by (auto simp: sched_done_def)
  show ?thesis
  proof (cases "s_ti st < length (s_tlvs st) \<and> compare_tlvtypes (at (s_tlvs st) (s_ti st)) (at (s_cons st) (s_ci st)) \<le> 0")
    case True
    then show ?thesis by (auto simp: sched_advance_def Let_def sched_left_def at_def)
  next
    case False
    with some have pos: "compare_tlvtypes (at (s_tlvs st) (s_ti st)) (at (s_cons st) (s_ci st)) > 0"
      by (cases "s_ti st < length (s_tlvs st)") (auto simp: compare_tlvtypes_def at_def)
    then have "s_ci st < length (s_cons st)"
      by (auto simp: compare_tlvtypes_def at_def split: option.splits if_splits)
    with False pos show ?thesis by (auto simp: sched_advance_def Let_def sched_left_def at_def)
  qed
qed

lemma sched_tlv_callback_frame:
  "sched_tlv_callback c cx idx im m st = Inr (m', st') \<Longrightarrow> length (s_tlvs st') = length (s_tlvs st) \<and>
     length (s_cons st') = length (s_cons st) \<and> s_ti st' = s_ti st \<and> s_ci st' = s_ci st"
  by (auto simp: sched_tlv_callback_def bnd_Inr_iff split: option.splits if_splits)

lemma sched_match_frame:
  "sched_match bs m st = Inr st' \<Longrightarrow> length (s_tlvs st') = length (s_tlvs st) \<and>
     length (s_cons st') = length (s_cons st) \<and> s_ti st' = s_ti st \<and> s_ci st' = s_ci st \<and> s_stop st' = s_stop st"
  by (auto simp: sched_match_def Let_def split: if_splits dest!: sched_attach_frame)

lemma sched_step_progress:
  assumes "sched_step bs c cx idx st = Inr st'" and "\<not> sched_done st"
  shows "s_stop st' \<or> sched_left st' < sched_left st"
proof -
  define im where "im = sched_index_match idx (at (s_tlvs st) (s_ti st))"
  define m0 where "m0 = (im \<and> at (s_cons st) (s_ci st) \<noteq> None \<and>
      compare_tlvtypes (at (s_tlvs st) (s_ti st)) (at (s_cons st) (s_ci st)) = 0)"
  define st0 where "st0 = (if im then st\<lparr>s_tlvs := (s_tlvs st)[s_ti st := sched_multivalue idx (the (at (s_tlvs st) (s_ti st)))]\<rparr> else st)"
  from assms(1) obtain m st1 where 1: "sched_tlv_callback c cx idx im m0 st0 = Inr (m, st1)"
    and 2: "(if s_stop st1 then Inr st1 else bnd (sched_match bs m st1) (\<lambda>st. Inr (sched_advance m st))) = Inr st'"
    unfolding sched_step_def Let_def im_def [symmetric] m0_def [symmetric] st0_def [symmetric]
    by (auto simp: bnd_Inr_iff)
  have st0: "length (s_tlvs st0) = length (s_tlvs st)" "length (s_cons st0) = length (s_cons st)"
      "s_ti st0 = s_ti st" "s_ci st0 = s_ci st" by (simp_all add: st0_def)
  show ?thesis
  proof (cases "s_stop st1")
    case True
    with 2 show ?thesis by simp
  next
    case False
    with 2 obtain st2 where 3: "sched_match bs m st1 = Inr st2" and st': "st' = sched_advance m st2"
      by (auto simp: bnd_Inr_iff)
    have "sched_left st2 = sched_left st" "\<not> sched_done st2"
      using sched_tlv_callback_frame [OF 1] sched_match_frame [OF 3] st0 False assms(2)
      by (auto simp: sched_left_def sched_done_def)
    with sched_advance_progress [of st2 m] st' show ?thesis by simp
  qed
qed

lemma sched_loop_done:
  "sched_loop n bs c cx idx st = Inr st' \<Longrightarrow> sched_left st \<le> n \<Longrightarrow> sched_done st'"
proof (induction n arbitrary: st)
  case 0
  then show ?case by (simp add: sched_done_def sched_left_def)
next
  case (Suc n)
  show ?case
  proof (cases "sched_done st")
    case True
    with Suc.prems show ?thesis by (auto simp: sched_done_def split: if_splits)
  next
    case False
    with Suc.prems obtain st1 where 1: "sched_step bs c cx idx st = Inr st1" and 2: "sched_loop n bs c cx idx st1 = Inr st'"
      by (auto simp: sched_done_def bnd_Inr_iff split: if_splits)
    from sched_step_progress [OF 1 False] show ?thesis
    proof
      assume "s_stop st1"
      with 2 show ?thesis by (cases n) (auto simp: sched_done_def)
    next
      assume "sched_left st1 < sched_left st"
      with Suc 2 show ?thesis by simp
    qed
  qed
qed

text \<open>
  The walk of \<open>_schedule_tlvblock\<close> over the TLVs and the consumer's entries is over after at most
  as many rounds as both lists have elements: the bound in the model cuts nothing off.
\<close>

lemma schedule_walk_ends:
  assumes "sched_loop (length tlvs + length cons) bs c cx idx
    \<lparr>s_tlvs = tlvs, s_cons = cons, s_ti = 0, s_ci = 0, constraints_failed = False,
     s_result = RFC5444_OKAY, s_stop = False, s_state = s\<rparr> = Inr st"
  shows "s_stop st \<or> s_ti st \<ge> length (s_tlvs st) \<and> s_ci st \<ge> length (s_cons st)"
  using sched_loop_done [OF assms] by (simp add: sched_done_def sched_left_def)

lemma schedule_walk_ends_witness:
  "let c = \<lparr>c_id = 0, c_order = 0, default_msg_consumer = True, c_msg_id = 0, addrblock_consumer = False, consumer_list = [],
         start_callback = None, end_callback = None, tlv_callback = None, block_callback = None,
         block_callback_failed_constraints = None\<rparr> in
   \<exists>st. sched_loop (length [tlv_zero] + length ([] :: cons_entry list)) [] c ctx_zero 0
      \<lparr>s_tlvs = [tlv_zero], s_cons = [], s_ti = 0, s_ci = 0, constraints_failed = False,
       s_result = RFC5444_OKAY, s_stop = False, s_state = ()\<rparr> = Inr st \<and>
     (s_stop st \<or> s_ti st \<ge> length (s_tlvs st) \<and> s_ci st \<ge> length (s_cons st))"
proof -
  let ?c = "\<lparr>c_id = 0, c_order = 0, default_msg_consumer = True, c_msg_id = 0, addrblock_consumer = False, consumer_list = [],
         start_callback = None, end_callback = None, tlv_callback = None, block_callback = None,
         block_callback_failed_constraints = None\<rparr> :: unit consumer"
  have "\<exists>st. sched_loop (length [tlv_zero] + length ([] :: cons_entry list)) [] ?c ctx_zero 0
      \<lparr>s_tlvs = [tlv_zero], s_cons = [], s_ti = 0, s_ci = 0, constraints_failed = False,
       s_result = RFC5444_OKAY, s_stop = False, s_state = ()\<rparr> = Inr st"
    by (simp add: sched_step_def sched_tlv_callback_def sched_match_def Let_def at_def compare_tlvtypes_def)
  then obtain st where st: "sched_loop (length [tlv_zero] + length ([] :: cons_entry list)) [] ?c ctx_zero 0
      \<lparr>s_tlvs = [tlv_zero], s_cons = [], s_ti = 0, s_ci = 0, constraints_failed = False,
       s_result = RFC5444_OKAY, s_stop = False, s_state = ()\<rparr> = Inr st" by blast
  with schedule_walk_ends [OF st] show ?thesis by (simp only: Let_def) blast
qed

section \<open>What the callbacks keep, the reader keeps\<close>

text \<open>
  The contract between the reader and the program that registers consumers: when every callback of
  every consumer (and the forwarding function, if any) keeps a property of the program's state, the
  whole of \<open>rfc5444_reader_handle_packet\<close> keeps it, whatever the packet.
\<close>

locale consumers_keep =
  fixes ps :: "'s consumer list" and cs :: "'s consumer list" and forward :: "(ctx \<Rightarrow> nat \<Rightarrow> nat \<Rightarrow> 's \<Rightarrow> 's outcome) option" and good :: "'s \<Rightarrow> bool"
  assumes start_keeps: "c \<in> set (ps @ cs) \<Longrightarrow> start_callback c = Some f \<Longrightarrow> good s \<Longrightarrow> holds (\<lambda>(r, s'). good s') (f cx s)"
    and end_keeps: "c \<in> set (ps @ cs) \<Longrightarrow> end_callback c = Some g \<Longrightarrow> good s \<Longrightarrow> holds (\<lambda>(r, s'). good s') (g cx b s)"
    and tlv_keeps: "c \<in> set (ps @ cs) \<Longrightarrow> tlv_callback c = Some h \<Longrightarrow> good s \<Longrightarrow> holds (\<lambda>(r, s'). good s') (h t cx s)"
    and block_keeps: "c \<in> set (ps @ cs) \<Longrightarrow> block_callback c = Some k \<Longrightarrow> good s \<Longrightarrow> holds (\<lambda>(r, ids, s'). good s') (k cx ts s)"
    and failed_keeps: "c \<in> set (ps @ cs) \<Longrightarrow> block_callback_failed_constraints c = Some k \<Longrightarrow> good s \<Longrightarrow>
      holds (\<lambda>(r, ids, s'). good s') (k cx ts s)"
    and forward_keeps: "forward = Some fwd \<Longrightarrow> good s \<Longrightarrow> holds good (fwd cx i n s)"
begin

lemma attach_state: "holds (\<lambda>st'. s_state st' = s_state st) (sched_attach bs st)"
  by (auto simp: sched_attach_def Let_def intro!: holds_trivial split: option.split)

lemma advance_state [simp]: "s_state (sched_advance m st) = s_state st"
  by (simp add: sched_advance_def Let_def)

lemma match_state: "holds (\<lambda>st'. s_state st' = s_state st) (sched_match bs m st)"
  by (auto simp: sched_match_def Let_def intro!: holds_mono [OF attach_state])

lemma tlv_callback_keeps:
  "c \<in> set (ps @ cs) \<Longrightarrow> good (s_state st) \<Longrightarrow> holds (\<lambda>(m', st'). good (s_state st')) (sched_tlv_callback c cx idx im m st)"
  by (auto simp: sched_tlv_callback_def intro!: holds_mono [OF tlv_keeps] split: option.split)

lemma step_keeps:
  assumes "c \<in> set (ps @ cs)" and "good (s_state st)"
  shows "holds (\<lambda>st'. good (s_state st')) (sched_step bs c cx idx st)"
  unfolding sched_step_def Let_def holds_bnd
  by (rule holds_mono [OF tlv_callback_keeps])
     (use assms in \<open>auto intro!: holds_mono [OF match_state]\<close>)

lemma loop_keeps:
  "c \<in> set (ps @ cs) \<Longrightarrow> good (s_state st) \<Longrightarrow> holds (\<lambda>st'. good (s_state st')) (sched_loop n bs c cx idx st)"
  by (induction n arbitrary: st) (auto intro!: holds_mono [OF step_keeps])

lemma block_cb_keeps:
  assumes "c \<in> set (ps @ cs)" and "good s" and "(if b then block_callback_failed_constraints c else block_callback c) = Some k"
  shows "holds (\<lambda>(r, ids, s'). good s') (k cx ts s)"
  using assms by (auto split: if_splits intro: block_keeps failed_keeps)

lemma tlvblock_keeps:
  assumes "c \<in> set (ps @ cs)" and "good s"
  shows "holds (\<lambda>(r, ts, s'). good s') (schedule_tlvblock c cx entries idx s)"
  unfolding schedule_tlvblock_def Let_def holds_bnd
proof (rule holds_mono [OF loop_keeps])
  fix st :: "'s sched"
  assume good: "good (s_state st)"
  show "holds (\<lambda>(r, ts, s'). good s')
    (if s_stop st then Inr (s_result st, s_tlvs st, s_state st)
     else case (if constraints_failed st then block_callback_failed_constraints c else block_callback c) of
         None \<Rightarrow> Inr (s_result st, s_tlvs st, s_state st)
       | Some cb \<Rightarrow> bnd (cb cx (cons_tlv (s_tlvs st) (s_cons st)) (s_state st)) (\<lambda>(result, ids, s).
           if result = RFC5444_DROP_TLV
           then Inr (RFC5444_OKAY, drop_tlvs idx ids (s_cons st) (s_tlvs st), s)
           else Inr (result, s_tlvs st, s)))"
    using good
    by (cases "if constraints_failed st then block_callback_failed_constraints c else block_callback c")
       (auto intro!: holds_mono [OF block_cb_keeps [OF assms(1) good]])
qed (use assms in simp_all)

lemma start_of_context_keeps:
  "c \<in> set (ps @ cs) \<Longrightarrow> good s \<Longrightarrow> holds (\<lambda>(r, s'). good s') (start_of_context (start_callback c) cx r s)"
  by (auto simp: start_of_context_def intro: start_keeps split: option.split)

lemma msgtlv_keeps:
  assumes "c \<in> set (ps @ cs)" and "good s"
  shows "holds (\<lambda>(r, ts, s'). good s') (schedule_msgtlv_consumer c cx entries s)"
  unfolding schedule_msgtlv_consumer_def holds_bnd
  by (rule holds_mono [OF start_of_context_keeps [OF assms]]) (auto intro: tlvblock_keeps [OF assms(1)])

lemma addr_keeps:
  assumes c: "c \<in> set (ps @ cs)" and "good s"
  shows "holds (\<lambda>(r, cx, a, s'). good s') (schedule_addr F c cx a i s)"
proof -
  have block: "holds (\<lambda>(r, ts, s'). good s')
      (if r = RFC5444_OKAY then schedule_tlvblock c cx ts i s else Inr (r, ts, s))" if "good s" for r cx ts s
    using that c by (simp add: tlvblock_keeps)
  have last: "holds (\<lambda>(r, s'). good s') (case end_callback c of None \<Rightarrow> Inr (r, s)
      | Some f \<Rightarrow> bnd (f cx (r \<noteq> RFC5444_OKAY) s) (\<lambda>(r', s). Inr (if r' > r then r' else r, s)))"
    if "good s" for r cx s
  proof (cases "end_callback c")
    case (Some f)
    show ?thesis unfolding Some option.case holds_bnd
      by (rule holds_mono [OF end_keeps [OF c Some that]]) auto
  qed (use that in simp)
  show ?thesis
    unfolding schedule_addr_def Let_def holds_bnd
    apply (rule holds_trivial, rule holds_trivial, rule holds_trivial)
    apply (clarsimp simp only: holds_bnd split: prod.splits)
    apply (rule holds_mono [OF start_of_context_keeps [OF assms]])
    apply (clarsimp simp only: holds_bnd prod.case)
    apply (rule holds_mono [OF block], assumption)
    apply (clarsimp simp only: holds_bnd prod.case)
    apply (rule holds_mono [OF last], assumption)
    apply auto
    done
qed

lemma addrs_keep:
  "c \<in> set (ps @ cs) \<Longrightarrow> good s \<Longrightarrow> holds (\<lambda>(r, cx, a, s'). good s') (schedule_addrs F c cx a is s)"
  by (induction "is" arbitrary: cx a s) (auto intro!: holds_mono [OF addr_keeps])

lemma blocks_keep:
  "c \<in> set (ps @ cs) \<Longrightarrow> good s \<Longrightarrow> holds (\<lambda>(r, cx, bl, s'). good s') (schedule_blocks F c cx bl s)"
proof (induction bl arbitrary: cx s)
  case (Cons a bl)
  have "holds (\<lambda>(r, cx, bl, s'). good s') (bnd (schedule_blocks F c cx bl s') (\<lambda>(r, cx, bl, s). Inr (r, cx, a' # bl, s)))"
    if "good s'" for cx a' s'
    using Cons.IH [OF Cons.prems(1) that, of cx] unfolding holds_bnd by (rule holds_mono) auto
  with Cons.prems show ?case by (auto simp del: holds_bnd simp: holds_bnd [of _ "schedule_addrs F c cx a is s" for cx a "is" s]
      intro!: holds_mono [OF addrs_keep])
qed simp

lemma end_cbs_keep:
  "set ds \<subseteq> set (ps @ cs) \<Longrightarrow> good s \<Longrightarrow> holds (\<lambda>(r, s'). good s') (schedule_end_message_cbs cx ds r s)"
proof (induction ds arbitrary: r s)
  case (Cons c ds)
  show ?case
  proof (cases "end_callback c")
    case (Some f)
    have "holds (\<lambda>(r, s'). good s') (bnd (f cx (r \<noteq> RFC5444_OKAY) s)
        (\<lambda>(r', s). schedule_end_message_cbs cx ds (if r' > r then r' else r) s))"
      unfolding holds_bnd by (rule holds_mono [OF end_keeps [OF _ Some Cons.prems(2)]]) (use Cons in auto)
    with Some Cons show ?thesis by (simp del: holds_bnd)
  qed (use Cons in simp)
qed simp

lemma due_subset: "set (due cs r) \<subseteq> set (ps @ cs)"
  by (auto simp: due_def dest: in_set_takeD in_set_dropD)

lemma same_order_keeps: "good (m_state m) \<Longrightarrow> holds (\<lambda>m'. good (m_state m')) (end_same_order cs m)"
  by (auto simp: end_same_order_def intro!: holds_mono [OF end_cbs_keep [OF due_subset]] split: option.split)

lemma msgaddr_keeps:
  "c \<in> set (ps @ cs) \<Longrightarrow> good s \<Longrightarrow> holds (\<lambda>(r, cx, bl, s'). good s') (schedule_msgaddr_consumer F c cx bl s)"
  by (simp add: schedule_msgaddr_consumer_def blocks_keep)

lemma due_keeps:
  "good (m_state m) \<Longrightarrow> holds (\<lambda>(m', cleanup). good (m_state m'))
    (case m_same m of
       Some (f, l) \<Rightarrow> if c_order c > c_order (cs ! l)
         then bnd (end_same_order cs m) (\<lambda>m. if m_result m \<noteq> RFC5444_OKAY then Inr (m, True)
                else Inr (m\<lparr>m_same := None\<rparr>, False))
         else Inr (m, False)
     | None \<Rightarrow> Inr (m, False))"
  by (auto intro!: holds_mono [OF same_order_keeps] split: option.split)

lemma consumer_keeps:
  assumes "c \<in> set (ps @ cs)" and "good (m_state m)"
  shows "holds (\<lambda>m'. good (m_state m'))
    (if addrblock_consumer c
     then bnd (schedule_msgaddr_consumer F c (m_ctx m) (m_blocks m) (m_state m)) (\<lambda>(result, cx, bl, s).
          Inr (m\<lparr>m_ctx := cx, m_blocks := bl, m_result := result, m_state := s\<rparr>))
     else let cx = (m_ctx m)\<lparr>ctx_type := CONTEXT_MESSAGE\<rparr> in
          bnd (schedule_msgtlv_consumer c cx (m_tlvs m) (m_state m)) (\<lambda>(result, tlvs, s).
          Inr (m\<lparr>m_ctx := cx, m_tlvs := tlvs, m_result := result, m_state := s,
            m_same := (case m_same m of None \<Rightarrow> Some (i, i) | Some (f, l) \<Rightarrow> Some (f, i))\<rparr>)))"
proof (cases "addrblock_consumer c")
  case True
  then show ?thesis using msgaddr_keeps [OF assms]
    by (simp only: if_True holds_bnd) (rule holds_mono, assumption, auto)
next
  case False
  then show ?thesis
    by (simp only: if_False Let_def holds_bnd) (rule holds_mono [OF msgtlv_keeps [OF assms]], auto)
qed

lemma consumers_run_keeps:
  "set ds \<subseteq> set (ps @ cs) \<Longrightarrow> good (m_state m) \<Longrightarrow> holds (\<lambda>(m', b). good (m_state m')) (run_consumers F cs i ds m)"
proof (induction ds arbitrary: i m)
  case (Cons c ds)
  show ?case
  proof (cases "\<not> default_msg_consumer c \<and> c_msg_id c \<noteq> msg_type (m_ctx m)")
    case True
    with Cons show ?thesis by simp
  next
    case False
    have c: "c \<in> set (ps @ cs)" and ds: "set ds \<subseteq> set (ps @ cs)" using Cons.prems by auto
    show ?thesis
      using False
      apply (subst run_consumers.simps)
      apply (simp only: if_False holds_bnd)
      apply (rule holds_mono [OF due_keeps [OF Cons.prems(2)]])
      apply (clarsimp simp only: prod.case)
      apply (split if_split, intro conjI impI)
       apply simp
      apply (simp only: holds_bnd)
      apply (rule holds_mono [OF consumer_keeps [OF c]], assumption)
      apply (split if_split, intro conjI impI)
       apply simp
      apply (rule Cons.IH [OF ds], assumption)
      done
  qed
qed simp

lemma message_keeps: "good (m_state m) \<Longrightarrow> holds (\<lambda>m'. good (m_state m')) (run_message F cs m)"
  unfolding run_message_def holds_bnd
  by (rule holds_mono [OF consumers_run_keeps]) (auto intro: same_order_keeps)

lemma parsed_keeps:
  assumes "good (m_state m)"
  shows "holds (\<lambda>(r, cx, s). good s) (handle_parsed_message F cs forward start msg_end m)"
proof -
  have "holds good (case forward of
            Some f \<Rightarrow> if b then f cx start n s else Inr s
          | None \<Rightarrow> Inr s)" if "good s" for b cx n s
    using that by (auto intro: forward_keeps split: option.split)
  then show ?thesis
    unfolding handle_parsed_message_def Let_def holds_bnd
    by (intro holds_mono [OF message_keeps [OF assms]]) (simp only: holds_return prod.case)
qed

lemma holds_step_bind: "(\<And>x. holds (\<lambda>r. case r of Inl c \<Rightarrow> True | Inr y \<Rightarrow> P y) (f x)) \<Longrightarrow>
    holds (\<lambda>r. case r of Inl c \<Rightarrow> True | Inr y \<Rightarrow> P y) (step_bind m f)"
  by (auto simp: step_bind_def intro!: holds_trivial split: sum.split)

lemma handle_message_keeps:
  assumes "good s"
  shows "holds (\<lambda>r. case r of Inl c \<Rightarrow> True | Inr (cx', e, w', s', r') \<Rightarrow> good s') (handle_message F cs forward eob cx start w s)"
  unfolding handle_message_def
  apply (rule holds_step_bind)
  apply (simp only: holds_bnd prod.case split_paired_all)
  apply (rule holds_trivial)
  apply (simp only: holds_bnd prod.case split_paired_all)
  apply (split if_split, intro conjI impI)
   apply simp
  apply (simp only: holds_bnd)
  apply (rule holds_trivial)
  apply (simp only: holds_bnd prod.case split_paired_all)
  apply (split if_split, intro conjI impI)
   apply simp
  apply (simp only: holds_bnd)
  apply (rule holds_mono [OF parsed_keeps])
   apply (use assms in auto)
  done

lemma handle_messages_keep:
  "good s \<Longrightarrow> holds (\<lambda>(r, cx', s'). good s') (handle_messages F cs forward eob cx ptr w s)"
proof (induction "eob - ptr" arbitrary: cx ptr w s rule: less_induct)
  case less
  show ?case
  proof (cases "handle_message F cs forward eob cx ptr w s")
    case (Inr r)
    then have r: "handle_message F cs forward eob cx ptr w s = Inr r" .
    show ?thesis
    proof (cases r)
      case (Inr y)
      then obtain cx' ptr' w' s' result where y: "y = (cx', ptr', w', s', result)" by (cases y)
      have "good s'" using holdsD [OF handle_message_keeps [OF less.prems] r] Inr y by simp
      moreover have "eob - ptr' < eob - ptr"
        using handle_message_progress [of F cs forward eob cx ptr w s cx' ptr' w' s' result] r Inr y by auto
      ultimately have "holds (\<lambda>(r, cx', s'). good s') (handle_messages F cs forward eob cx' ptr' w' s')"
        by (intro less.hyps)
      with r Inr y less.prems \<open>good s'\<close> show ?thesis
        by (subst handle_messages.simps) simp
    qed (use r less.prems in \<open>subst handle_messages.simps, simp split: prod.split\<close>)
  qed (use less.prems in \<open>subst handle_messages.simps, simp\<close>)
qed

lemma start_packet_keeps:
  "set ds \<subseteq> set (ps @ cs) \<Longrightarrow> set started \<subseteq> set (ps @ cs) \<Longrightarrow> good s \<Longrightarrow>
   holds (\<lambda>(r, started', s'). set started' \<subseteq> set (ps @ cs) \<and> good s') (start_packet ds has_tlv cx started entries s)"
proof (induction ds arbitrary: started entries s)
  case (Cons c ds)
  have c: "c \<in> set (ps @ cs)" using Cons.prems(1) by simp
  have block: "holds (\<lambda>(r, ts, s'). good s') (if b then schedule_tlvblock c cx entries 0 s else Inr (r, entries, s))"
    if "good s" for b r s using that tlvblock_keeps [OF c] by auto
  show ?case
    apply (subst start_packet.simps)
    apply (simp only: holds_bnd)
    apply (rule holds_mono [OF start_of_context_keeps [OF c Cons.prems(3)]])
    apply (clarsimp simp only: holds_bnd prod.case split_paired_all)
    apply (rule holds_mono [OF block], assumption)
    apply (clarsimp simp only: prod.case split_paired_all)
    apply (split if_split, intro conjI impI)
     apply (use Cons.prems in simp)
    apply (rule Cons.IH)
      apply (use Cons.prems in simp_all)
    done
qed simp

lemma end_packet_keeps:
  "set ds \<subseteq> set (ps @ cs) \<Longrightarrow> good s \<Longrightarrow> holds good (end_packet ds cx b s)"
proof (induction ds arbitrary: s)
  case (Cons c ds)
  show ?case
  proof (cases "end_callback c")
    case (Some f)
    have c: "c \<in> set (ps @ cs)" using Cons.prems by simp
    have "holds good (bnd (f cx b s) (\<lambda>(_, s). end_packet ds cx b s))"
      unfolding holds_bnd by (rule holds_mono [OF end_keeps [OF c Some Cons.prems(2)]]) (use Cons in auto)
    with Some show ?thesis by simp
  qed (use Cons in simp)
qed simp

lemma deliver_keeps:
  assumes "good s" and rd: "packet_consumer rd = ps" "message_consumer rd = cs" "forward_message rd = forward"
  shows "holds (\<lambda>(r, s'). good s') (deliver_packet F rd has_tlv eob cx entries ptr w s)"
proof -
  have messages: "holds (\<lambda>(r, cx', s'). good s')
      (if b then handle_messages F cs forward eob cx ptr w s else Inr (r, cx, s))" if "good s" for b eob cx ptr w s r
    using that handle_messages_keep by auto
  show ?thesis
    unfolding deliver_packet_def rd
    apply (simp only: holds_bnd)
    apply (rule holds_mono [OF start_packet_keeps])
       apply simp
      apply simp
     apply (rule assms(1))
    apply (clarsimp simp only: holds_bnd prod.case split_paired_all)
    apply (rule holds_mono [OF messages], assumption)
    apply (clarsimp simp only: holds_bnd prod.case split_paired_all)
    apply (rule holds_mono [OF end_packet_keeps])
      apply assumption
     apply assumption
    apply simp
    done
qed

lemma packet_keeps:
  assumes "good s" and rd: "packet_consumer rd = ps" "message_consumer rd = cs" "forward_message rd = forward"
  shows "holds (\<lambda>(r, s'). good s') (rfc5444_reader_handle_packet F rd bs w s)"
  unfolding rfc5444_reader_handle_packet_def Let_def
  apply (split if_split, intro conjI impI)
   apply (use assms in simp)
  apply (simp only: holds_bnd)
  apply (rule holds_trivial)
  apply (simp only: prod.case split_paired_all)
  apply (split if_split, intro conjI impI)
   apply (use assms in simp)
  apply (simp only: holds_bnd)
  apply (rule holds_trivial)
  apply (simp only: prod.case split_paired_all)
  apply (split if_split, intro conjI impI)
   apply (use assms in simp)
  apply (simp only: holds_bnd)
  apply (rule holds_trivial)
  apply (simp only: prod.case split_paired_all)
  apply (split if_split, intro conjI impI)
   apply (use assms in simp)
  apply (rule deliver_keeps [OF assms])
  done

end

end
