(* ===== verification/RfcPacket.thy ===== *)
theory RfcPacket
  imports RfcCompress RfcSchedule
begin

text \<open>
  Packets of the RFC 5444 writer, \<open>core/contrib/oonf_api/rfc5444/rfc5444_pkt_generator.c\<close>. The functions
  that users of the writer register are the fields of \<open>cbs\<close>, by the number under which the writer
  knows them; they may change the state \<open>'s\<close> of their owner and the writer.
\<close>

section \<open>Callbacks\<close>

type_synonym 's act = "'s \<times> writer \<Rightarrow> ('s \<times> writer) outcome"

text \<open>
  A postprocessor replaces the bytes it is given, for a target or, if it is not specific to one, for
  all of them; a result other than 0 is an error. Forward handlers are also given the context of the message.
\<close>

record postproc =
  is_matching_signature :: "int \<Rightarrow> bool"
  allocate_space :: nat
  target_specific :: bool
  pp_process :: "nat option \<Rightarrow> u8 list \<Rightarrow> int \<times> u8 list"

record 's cbs =
  addPacketHeader :: "nat \<Rightarrow> 's act option"
  finishPacketHeader :: "nat \<Rightarrow> 's act option"
  addPacketTLVs :: "nat \<Rightarrow> nat \<Rightarrow> 's act option"
  finishPacketTLVs :: "nat \<Rightarrow> nat \<Rightarrow> 's act option"
  addMessageHeader :: "nat \<Rightarrow> u8 \<Rightarrow> 's \<times> writer \<Rightarrow> (int \<times> 's \<times> writer) outcome"
  finishMessageHeader :: "u8 \<Rightarrow> (nat option \<Rightarrow> nat option \<Rightarrow> bool \<Rightarrow> 's act) option"
  addMessageTLVs :: "nat \<Rightarrow> 's act option"
  addAddresses :: "nat \<Rightarrow> 's act option"
  finishMessageTLVs :: "nat \<Rightarrow> (nat option \<Rightarrow> nat option \<Rightarrow> bool \<Rightarrow> 's act) option"
  postprocessor :: "nat \<Rightarrow> postproc"
  forward_handler :: "ctx \<Rightarrow> nat \<Rightarrow> postproc"
  forward_target_selector :: "u8 \<Rightarrow> (nat \<Rightarrow> ctx \<Rightarrow> bool) option"
  message_generation_notifier :: "(nat \<Rightarrow> 's act) option"

definition call :: "'s act option \<Rightarrow> 's act" where
  "call f x = (case f of None \<Rightarrow> Inr x | Some g \<Rightarrow> g x)"

fun call_all :: "('a \<Rightarrow> 's act option) \<Rightarrow> 'a list \<Rightarrow> 's act" where
  "call_all f [] x = Inr x"
| "call_all f (i # is) x = bnd (call (f i) x) (call_all f is)"

definition set_state :: "writer_state \<Rightarrow> 's \<times> writer \<Rightarrow> 's \<times> writer" where
  "set_state st = (\<lambda>(s, wr). (s, wr\<lparr>w_state := st\<rparr>))"

definition upd_target :: "nat \<Rightarrow> (target \<Rightarrow> target) \<Rightarrow> writer \<Rightarrow> writer" where
  "upd_target i f wr = wr\<lparr>targets := (targets wr)[i := f (targets wr ! i)]\<rparr>"

text \<open>The postprocessors for a signature, in order of their priority.\<close>

definition matching :: "'s cbs \<Rightarrow> writer \<Rightarrow> int \<Rightarrow> postproc list" where
  "matching C wr sig = filter (\<lambda>p. is_matching_signature p sig) (map (postprocessor C \<circ> snd) (processors wr))"

definition RFC5444_WRITER_PKT_POSTPROCESSOR :: int where "RFC5444_WRITER_PKT_POSTPROCESSOR = -1"

fun run_postprocs :: "nat option \<Rightarrow> postproc list \<Rightarrow> u8 list \<Rightarrow> u8 list option" where
  "run_postprocs tg [] d = Some d"
| "run_postprocs tg (p # ps) d = (let (err, d) = pp_process p tg d in if err \<noteq> 0 then None else run_postprocs tg ps d)"

section \<open>Packets\<close>

definition rfc5444_writer_set_pkt_header :: "nat \<Rightarrow> bool \<Rightarrow> writer \<Rightarrow> writer outcome" where
  "rfc5444_writer_set_pkt_header i with_seqno wr =
     bnd (in_state WRITER_ADD_PKTHEADER wr) (\<lambda>_.
     Inr (upd_target i (\<lambda>t. t\<lparr>tg_has_seqno := with_seqno,
       tg_pkt := (tg_pkt t)\<lparr>tw_header := 1 + 2 + (if with_seqno then 2 else 0)\<rparr>\<rparr>) wr))"

definition rfc5444_writer_set_pkt_seqno :: "nat \<Rightarrow> u16 \<Rightarrow> writer \<Rightarrow> writer outcome" where
  "rfc5444_writer_set_pkt_seqno i n wr =
     bnd (guard (w_state wr = WRITER_ADD_PKTHEADER \<or> w_state wr = WRITER_FINISH_PKTHEADER) AssertFail) (\<lambda>_.
     Inr (upd_target i (\<lambda>t. t\<lparr>tg_seqno := n\<rparr>) wr))"

definition packettlv :: "writer_state \<Rightarrow> (tlv_writer_data \<Rightarrow> (int \<times> tlv_writer_data) outcome) \<Rightarrow> nat \<Rightarrow> writer \<Rightarrow> (int \<times> writer) outcome" where
  "packettlv st op i wr =
     bnd (in_state st wr) (\<lambda>_. bnd (op (tg_pkt (targets wr ! i))) (\<lambda>(r, d). Inr (r, upd_target i (\<lambda>t. t\<lparr>tg_pkt := d\<rparr>) wr)))"

definition rfc5444_writer_add_packettlv :: "nat \<Rightarrow> u8 \<Rightarrow> u8 \<Rightarrow> u8 list \<Rightarrow> writer \<Rightarrow> (int \<times> writer) outcome" where
  "rfc5444_writer_add_packettlv i type exttype v = packettlv WRITER_ADD_PKTTLV (\<lambda>d. tlv_writer_add d type exttype v) i"

definition rfc5444_writer_allocate_packettlv :: "nat \<Rightarrow> bool \<Rightarrow> nat \<Rightarrow> writer \<Rightarrow> (int \<times> writer) outcome" where
  "rfc5444_writer_allocate_packettlv i has_exttype len = packettlv WRITER_ADD_PKTTLV (\<lambda>d. Inr (tlv_writer_allocate d has_exttype len)) i"

definition rfc5444_writer_set_packettlv :: "nat \<Rightarrow> u8 \<Rightarrow> u8 \<Rightarrow> u8 list \<Rightarrow> writer \<Rightarrow> (int \<times> writer) outcome" where
  "rfc5444_writer_set_packettlv i type exttype v = packettlv WRITER_FINISH_PKTTLV (\<lambda>d. tlv_writer_set d type exttype v) i"

definition writer_begin_packet :: "'s cbs \<Rightarrow> nat \<Rightarrow> 's act" where
  "writer_begin_packet C i = (\<lambda>(s, wr).
     bnd (tlv_writer_init (tg_pkt (targets wr ! i)) (packet_size (targets wr ! i)) (packet_size (targets wr ! i))) (\<lambda>pkt.
     let alloc = sum_list (map allocate_space (matching C wr RFC5444_WRITER_PKT_POSTPROCESSOR));
         wr = (upd_target i (\<lambda>t. t\<lparr>tg_pkt := pkt\<lparr>tw_allocated := tw_allocated pkt + alloc\<rparr>\<rparr>) wr)\<lparr>w_state := WRITER_ADD_PKTHEADER\<rparr>
     in bnd (case addPacketHeader C i of Some f \<Rightarrow> f (s, wr)
             | None \<Rightarrow> bnd (rfc5444_writer_set_pkt_header i False wr) (\<lambda>wr. Inr (s, wr))) (\<lambda>x.
        bnd (call_all (addPacketTLVs C i) (pkthandlers wr) (set_state WRITER_ADD_PKTTLV x)) (\<lambda>(s, wr).
        Inr (set_state WRITER_NONE (s, upd_target i (\<lambda>t. t\<lparr>is_flushed := False\<rparr>) wr))))))"

definition pktheader_bytes :: "target \<Rightarrow> u8 list" where
  "pktheader_bytes t =
     (let len = tw_added (tg_pkt t) + tw_set (tg_pkt t) in
      [(if tg_has_seqno t then RFC5444_PKT_FLAG_SEQNO else 0) OR (if len > 0 then RFC5444_PKT_FLAG_TLV else 0)] @
      (if tg_has_seqno t then [ucast (drop_bit 8 (tg_seqno t)), ucast (tg_seqno t AND 255)] else []) @
      (if len > 0 then [of_nat (drop_bit 8 len), of_nat (len AND 255)] else []))"

text \<open>The packet is put together in its buffer: the header, the packet TLVs, the messages moved up to them.\<close>

definition write_pktheader :: "target \<Rightarrow> target outcome" where
  "write_pktheader t =
     bnd (mem_write (tw_buffer (tg_pkt t)) 0 (pktheader_bytes t)) (\<lambda>b. Inr (t\<lparr>tg_pkt := (tg_pkt t)\<lparr>tw_buffer := b\<rparr>\<rparr>))"

definition compress_packet :: "target \<Rightarrow> (nat \<times> target) outcome" where
  "compress_packet t =
     (let d = tg_pkt t; len = 1 + (if tg_has_seqno t then 2 else 0) + (if tw_added d + tw_set d > 0 then 2 else 0);
          total = len + tw_added d + tw_set d + bin_msgs_size t
      in if bin_msgs_size t = 0 then Inr (total, t)
         else bnd (mem_read (tw_buffer d) (tw_header d + tw_added d + tw_allocated d) (bin_msgs_size t)) (\<lambda>msgs.
              bnd (mem_write (tw_buffer d) (len + tw_added d + tw_set d) msgs) (\<lambda>b.
              Inr (total, t\<lparr>tg_pkt := d\<lparr>tw_buffer := b\<rparr>\<rparr>))))"

definition finish_packet :: "'s cbs \<Rightarrow> nat \<Rightarrow> writer \<Rightarrow> writer outcome" where
  "finish_packet C i wr =
     bnd (write_pktheader (targets wr ! i)) (\<lambda>t.
     bnd (compress_packet t) (\<lambda>(total, t).
     bnd (mem_read (tw_buffer (tg_pkt t)) 0 total) (\<lambda>bytes.
     let sent_now = (case run_postprocs (Some i) (matching C wr RFC5444_WRITER_PKT_POSTPROCESSOR) bytes of
                       None \<Rightarrow> [] | Some d \<Rightarrow> if d = [] then [] else [(i, d)])
     in bnd (mem_write (tw_buffer (tg_pkt t)) 0 (replicate (tw_max (tg_pkt t)) 252)) (\<lambda>b.
     Inr ((upd_target i (\<lambda>_. t\<lparr>tg_pkt := (tg_pkt t)\<lparr>tw_buffer := b, tw_set := 0\<rparr>, bin_msgs_size := 0, is_flushed := True\<rparr>) wr)
           \<lparr>sent := sent wr @ sent_now, w_state := WRITER_NONE\<rparr>)))))"

definition rfc5444_writer_flush :: "'s cbs \<Rightarrow> nat \<Rightarrow> bool \<Rightarrow> 's act" where
  "rfc5444_writer_flush C i force = (\<lambda>(s, wr).
     bnd (in_state WRITER_NONE wr) (\<lambda>_.
     if is_flushed (targets wr ! i) \<and> \<not> force then Inr (s, wr)
     else bnd (if is_flushed (targets wr ! i) then writer_begin_packet C i (s, wr) else Inr (s, wr)) (\<lambda>x.
       bnd (call_all (finishPacketTLVs C i) (rev (pkthandlers wr)) (set_state WRITER_FINISH_PKTTLV x)) (\<lambda>x.
       bnd (call (finishPacketHeader C i) (set_state WRITER_FINISH_PKTHEADER x)) (\<lambda>(s, wr).
       bnd (finish_packet C i wr) (\<lambda>wr. Inr (s, wr)))))))"

end
