(* ===== verification/RfcMessage.thy ===== *)
theory RfcMessage
  imports RfcPacket
begin

text \<open>
  The bytes of a message, \<open>core/contrib/oonf_api/rfc5444/rfc5444_msg_generator.c\<close>: message TLVs, the message
  header, address blocks and address TLVs. A fragment is the list of the positions of its addresses.
\<close>

section \<open>Message TLVs\<close>

definition messagetlv :: "writer_state \<Rightarrow> (tlv_writer_data \<Rightarrow> (int \<times> tlv_writer_data) outcome) \<Rightarrow> writer \<Rightarrow> (int \<times> writer) outcome" where
  "messagetlv st op wr = bnd (in_state st wr) (\<lambda>_. bnd (op (w_msg wr)) (\<lambda>(r, d). Inr (r, wr\<lparr>w_msg := d\<rparr>)))"

definition rfc5444_writer_add_messagetlv :: "u8 \<Rightarrow> u8 \<Rightarrow> u8 list \<Rightarrow> writer \<Rightarrow> (int \<times> writer) outcome" where
  "rfc5444_writer_add_messagetlv type exttype v = messagetlv WRITER_ADD_MSGTLV (\<lambda>d. tlv_writer_add d type exttype v)"

definition rfc5444_writer_allocate_messagetlv :: "bool \<Rightarrow> nat \<Rightarrow> writer \<Rightarrow> (int \<times> writer) outcome" where
  "rfc5444_writer_allocate_messagetlv has_exttype len = messagetlv WRITER_ADD_MSGTLV (\<lambda>d. Inr (tlv_writer_allocate d has_exttype len))"

definition rfc5444_writer_set_messagetlv :: "u8 \<Rightarrow> u8 \<Rightarrow> u8 list \<Rightarrow> writer \<Rightarrow> (int \<times> writer) outcome" where
  "rfc5444_writer_set_messagetlv type exttype v = messagetlv WRITER_FINISH_MSGTLV (\<lambda>d. tlv_writer_set d type exttype v)"

section \<open>Message header\<close>

definition rfc5444_writer_set_msg_header :: "u8 \<Rightarrow> bool \<Rightarrow> bool \<Rightarrow> bool \<Rightarrow> bool \<Rightarrow> writer \<Rightarrow> writer outcome" where
  "rfc5444_writer_set_msg_header ty originator hopcnt hoplim sqno wr =
     bnd (in_state WRITER_ADD_HEADER wr) (\<lambda>_.
     Inr ((upd_msg ty (\<lambda>m. m\<lparr>wm_has_origaddr := originator, wm_has_hoplimit := hoplim, wm_has_hopcount := hopcnt,
             wm_has_seqno := sqno\<rparr>) wr)
           \<lparr>w_msg := (w_msg wr)\<lparr>tw_header := 6 + (if originator then msg_addr_len wr else 0) +
              (if hoplim then 1 else 0) + (if hopcnt then 1 else 0) + (if sqno then 2 else 0)\<rparr>\<rparr>))"

definition in_header :: "writer \<Rightarrow> unit outcome" where
  "in_header wr = guard (w_state wr = WRITER_ADD_HEADER \<or> w_state wr = WRITER_FINISH_HEADER) AssertFail"

definition rfc5444_writer_set_msg_originator :: "u8 \<Rightarrow> u8 list \<Rightarrow> writer \<Rightarrow> writer outcome" where
  "rfc5444_writer_set_msg_originator ty originator wr =
     bnd (in_header wr) (\<lambda>_. bnd (deref (find_msg ty wr)) (\<lambda>m.
     bnd (mem_read originator 0 (msg_addr_len wr)) (\<lambda>a.
     bnd (mem_write (wm_orig_addr m) 0 a) (\<lambda>b. Inr (upd_msg ty (\<lambda>m. m\<lparr>wm_orig_addr := b\<rparr>) wr)))))"

definition rfc5444_writer_set_msg_hopcount :: "u8 \<Rightarrow> u8 \<Rightarrow> writer \<Rightarrow> writer outcome" where
  "rfc5444_writer_set_msg_hopcount ty n wr = bnd (in_header wr) (\<lambda>_. Inr (upd_msg ty (\<lambda>m. m\<lparr>wm_hopcount := n\<rparr>) wr))"

definition rfc5444_writer_set_msg_hoplimit :: "u8 \<Rightarrow> u8 \<Rightarrow> writer \<Rightarrow> writer outcome" where
  "rfc5444_writer_set_msg_hoplimit ty n wr = bnd (in_header wr) (\<lambda>_. Inr (upd_msg ty (\<lambda>m. m\<lparr>wm_hoplimit := n\<rparr>) wr))"

definition rfc5444_writer_set_msg_seqno :: "u8 \<Rightarrow> u16 \<Rightarrow> writer \<Rightarrow> writer outcome" where
  "rfc5444_writer_set_msg_seqno ty n wr = bnd (in_header wr) (\<lambda>_. Inr (upd_msg ty (\<lambda>m. m\<lparr>wm_seqno := n\<rparr>) wr))"

definition u16_be :: "nat \<Rightarrow> u8 list" where
  "u16_be n = [of_nat (drop_bit 8 n), of_nat n]"

definition msgheader_bytes :: "writer \<Rightarrow> wr_message \<Rightarrow> u8 list" where
  "msgheader_bytes wr m =
     (let d = w_msg wr in
      [wm_type m, (of_nat (msg_addr_len wr) - 1) OR (if wm_has_origaddr m then RFC5444_MSG_FLAG_ORIGINATOR else 0) OR
         (if wm_has_hoplimit m then RFC5444_MSG_FLAG_HOPLIMIT else 0) OR (if wm_has_hopcount m then RFC5444_MSG_FLAG_HOPCOUNT else 0) OR
         (if wm_has_seqno m then RFC5444_MSG_FLAG_SEQNO else 0)] @
      u16_be (tw_header d + tw_added d + tw_set d + wm_bin_addr_size m) @
      (if wm_has_origaddr m then take (msg_addr_len wr) (wm_orig_addr m) else []) @
      (if wm_has_hoplimit m then [wm_hoplimit m] else []) @
      (if wm_has_hopcount m then [wm_hopcount m] else []) @
      (if wm_has_seqno m then [ucast (drop_bit 8 (wm_seqno m)), ucast (wm_seqno m)] else []) @
      u16_be (tw_added d + tw_set d))"

definition write_msgheader :: "u8 \<Rightarrow> writer \<Rightarrow> writer outcome" where
  "write_msgheader ty wr =
     bnd (deref (find_msg ty wr)) (\<lambda>m.
     bnd (mem_write (tw_buffer (w_msg wr)) 0 (msgheader_bytes wr m)) (\<lambda>b. Inr (wr\<lparr>w_msg := (w_msg wr)\<lparr>tw_buffer := b\<rparr>\<rparr>)))"

section \<open>Address TLVs\<close>

text \<open>A TLV in a list of current TLVs: the position of its address and the TLV.\<close>

type_synonym cur_tlv = "nat \<times> addrtlv"

text \<open>The bytes of the TLVs \<open>c\<close> of one type, in a block from the index \<open>i0\<close> on whose addresses are \<open>a0 .. a1\<close>.\<close>

definition addresstlv_flags :: "tlvtype \<Rightarrow> bool \<Rightarrow> bool \<Rightarrow> u16 \<Rightarrow> u8" where
  "addresstlv_flags tt whole single total_len =
     (if tt_exttype tt \<noteq> 0 then RFC5444_TLV_FLAG_TYPEEXT else 0) OR
     (if whole then 0 else if single then RFC5444_TLV_FLAG_SINGLE_IDX else RFC5444_TLV_FLAG_MULTI_IDX) OR
     (if tt_same_value tt then 0 else RFC5444_TLV_FLAG_MULTIVALUE) OR
     (if total_len > 255 then RFC5444_TLV_FLAG_EXTVALUE else 0) OR
     (if total_len > 0 then RFC5444_TLV_FLAG_VALUE else 0)"

definition write_addresstlv :: "writer \<Rightarrow> wr_address list \<Rightarrow> tlvtype \<Rightarrow> nat \<Rightarrow> nat \<Rightarrow> cur_tlv list \<Rightarrow> u8 list" where
  "write_addresstlv wr addrs tt a0 a1 c =
     (let (p, first_tlv) = hd c; q = fst (last c); idx = (\<lambda>a. wa_index (addrs ! a));
          whole = (p = a0 \<and> q = a1); single = (idx p = idx q);
          total_len = (if tt_same_value tt then at_length first_tlv
                       else ucast (ucast (at_length first_tlv) * (idx q - idx p + 1)))
      in [tt_type tt, addresstlv_flags tt whole single total_len] @
         (if tt_exttype tt \<noteq> 0 then [tt_exttype tt] else []) @
         (if whole then [] else ucast (idx p - idx a0) # (if single then [] else [ucast (idx q - idx a0)])) @
         (if total_len > 255 then [ucast (drop_bit 8 total_len)] else []) @
         (if total_len > 0 then [ucast total_len] else []) @
         (if at_length first_tlv = 0 then []
          else if tt_same_value tt then value_bytes wr first_tlv
          else concat (map (value_bytes wr \<circ> snd) c)))"

text \<open>
  The current TLVs of every type, the types in the order in which they became active, and the bytes so far.
  The list of a type that is not registered for the message is not initialised.
\<close>

record tlv_run =
  cur :: "nat \<Rightarrow> cur_tlv list option"
  active :: "nat list"
  tts :: "nat \<Rightarrow> tlvtype"
  out :: "u8 list"

definition addresstlv_step :: "writer \<Rightarrow> wr_address list \<Rightarrow> nat \<Rightarrow> nat \<Rightarrow> nat option \<Rightarrow> nat \<Rightarrow> addrtlv \<Rightarrow> tlv_run \<Rightarrow> tlv_run outcome" where
  "addresstlv_step wr addrs a0 a1 prev a t r =
     (let ty = at_tlvtype t; tt = tts r ty in
      bnd (deref (cur r ty)) (\<lambda>c.
      Inr (if c = [] then r\<lparr>active := active r @ [ty], tts := (tts r)(ty := tt\<lparr>tt_same_value := True\<rparr>), cur := (cur r)(ty \<mapsto> [(a, t)])\<rparr>
           else let (l, lt) = last c in
             if Some l \<noteq> prev \<or> at_length lt \<noteq> at_length t
             then r\<lparr>out := out r @ write_addresstlv wr addrs tt a0 a1 c, tts := (tts r)(ty := tt\<lparr>tt_same_value := True\<rparr>),
                    cur := (cur r)(ty \<mapsto> [(a, t)])\<rparr>
             else r\<lparr>tts := (tts r)(ty := tt\<lparr>tt_same_value := tt_same_value tt \<and> at_same_value t\<rparr>), cur := (cur r)(ty \<mapsto> c @ [(a, t)])\<rparr>)))"

fun addresstlvs_of :: "writer \<Rightarrow> wr_address list \<Rightarrow> nat \<Rightarrow> nat \<Rightarrow> nat option \<Rightarrow> nat \<Rightarrow> addrtlv list \<Rightarrow> tlv_run \<Rightarrow> tlv_run outcome" where
  "addresstlvs_of wr addrs a0 a1 prev a [] r = Inr r"
| "addresstlvs_of wr addrs a0 a1 prev a (t # ts) r =
     bnd (addresstlv_step wr addrs a0 a1 prev a t r) (addresstlvs_of wr addrs a0 a1 prev a ts)"

fun addresstlvs_block :: "writer \<Rightarrow> wr_address list \<Rightarrow> nat \<Rightarrow> nat \<Rightarrow> nat option \<Rightarrow> nat list \<Rightarrow> tlv_run \<Rightarrow> tlv_run outcome" where
  "addresstlvs_block wr addrs a0 a1 prev [] r = Inr r"
| "addresstlvs_block wr addrs a0 a1 prev (a # as) r =
     bnd (addresstlvs_of wr addrs a0 a1 prev a (wa_tlvs (addrs ! a)) r) (addresstlvs_block wr addrs a0 a1 (Some a) as)"

fun flush_active :: "writer \<Rightarrow> wr_address list \<Rightarrow> nat \<Rightarrow> nat \<Rightarrow> nat list \<Rightarrow> tlv_run \<Rightarrow> tlv_run outcome" where
  "flush_active wr addrs a0 a1 [] r = Inr r"
| "flush_active wr addrs a0 a1 (ty # ts) r =
     bnd (deref (cur r ty)) (\<lambda>c. flush_active wr addrs a0 a1 ts (r\<lparr>out := out r @ write_addresstlv wr addrs (tts r ty) a0 a1 c\<rparr>))"

text \<open>\<open>_write_addresstlvs\<close> for the block \<open>b\<close>; the result is the bytes and the TLV types.\<close>

definition write_addresstlvs :: "writer \<Rightarrow> wr_message \<Rightarrow> (nat \<Rightarrow> tlvtype) \<Rightarrow> nat list \<Rightarrow> (u8 list \<times> (nat \<Rightarrow> tlvtype)) outcome" where
  "write_addresstlvs wr m tt b =
     (let r = \<lparr>cur = (\<lambda>t. if t \<in> set (wm_tlvtypes m) \<or> t \<in> set (addr_tlvtype_head wr) then Some [] else None),
               active = [], tts = tt, out = []\<rparr>
      in bnd (addresstlvs_block wr (wm_addrs m) (hd b) (last b) None b r) (\<lambda>r.
         bnd (flush_active wr (wm_addrs m) (hd b) (last b) (active r) r) (\<lambda>r. Inr (out r, tts r))))"

section \<open>Address blocks\<close>

text \<open>The loops that shorten the tail to the bytes all addresses have in common.\<close>

definition tail_step :: "nat \<Rightarrow> u8 list \<Rightarrow> u8 list \<Rightarrow> nat \<Rightarrow> nat" where
  "tail_step addrlen a0 a n = length (takeWhile (\<lambda>k. a0 ! (addrlen - k) = a ! (addrlen - k)) [1..<Suc n])"

definition block_tail :: "nat \<Rightarrow> u8 list \<Rightarrow> u8 list list \<Rightarrow> nat \<Rightarrow> nat" where
  "block_tail addrlen a0 as n = foldl (\<lambda>n a. tail_step addrlen a0 a n) n as"

definition addr_of :: "wr_address list \<Rightarrow> nat \<Rightarrow> u8 list" where
  "addr_of addrs p = na_addr (wa_address (addrs ! p))"

definition addrblock_bytes :: "nat \<Rightarrow> wr_address list \<Rightarrow> nat list \<Rightarrow> nat \<Rightarrow> nat \<Rightarrow> u8 list" where
  "addrblock_bytes addrlen addrs b head_len tail_len =
     (let start = addrs ! hd b; a0 = addr_of addrs (hd b);
          tail = take tail_len (drop (addrlen - tail_len) a0);
          zero_tail = (tail_len > 0 \<and> (\<forall>x \<in> set tail. x = 0));
          single_plen = (unat (na_prefix_len (wa_address start)) \<noteq> addrlen * 8)
      in [ucast (wa_index (addrs ! last b) - wa_index start + 1),
          (if head_len > 0 then RFC5444_ADDR_FLAG_HEAD else 0) OR
          (if tail_len = 0 then 0 else if zero_tail then RFC5444_ADDR_FLAG_ZEROTAIL else RFC5444_ADDR_FLAG_FULLTAIL) OR
          (if wa_multiplen start then RFC5444_ADDR_FLAG_MULTIPLEN else if single_plen then RFC5444_ADDR_FLAG_SINGLEPLEN else 0)] @
         (if head_len > 0 then of_nat head_len # take head_len a0 else []) @
         (if tail_len > 0 then of_nat tail_len # (if zero_tail then [] else tail) else []) @
         concat (map (\<lambda>p. take (addrlen - head_len - tail_len) (drop head_len (addr_of addrs p))) b) @
         (if wa_multiplen start then map (\<lambda>p. na_prefix_len (wa_address (addrs ! p))) b
          else if single_plen then [na_prefix_len (wa_address start)] else []))"

text \<open>
  A head as long as the address leaves a tail of 255 bytes, which is compared from the end of the
  address to in front of it.
\<close>

definition write_addrblock :: "writer \<Rightarrow> wr_message \<Rightarrow> (nat \<Rightarrow> tlvtype) \<Rightarrow> nat list \<Rightarrow> (u8 list \<times> (nat \<Rightarrow> tlvtype)) outcome" where
  "write_addrblock wr m tt b =
     (let addrlen = msg_addr_len wr; addrs = wm_addrs m; head_len = (if hd b = last b then 0 else unat (wa_headlen (addrs ! hd b)))
      in bnd (guard (hd b = last b \<or> head_len < addrlen) OutOfBounds) (\<lambda>_.
         let tail_len = (if hd b = last b then 0
               else block_tail addrlen (addr_of addrs (hd b)) (map (addr_of addrs) b) (addrlen - head_len - 1))
         in bnd (write_addresstlvs wr m tt b) (\<lambda>(tlvs, tt).
            Inr (addrblock_bytes addrlen addrs b head_len tail_len @ u16_be (length tlvs) @ tlvs, tt))))"

text \<open>The addresses from the first one of \<open>frag\<close> up to \<open>e\<close> and the ones after \<open>e\<close>, if it is there.\<close>

definition split_block :: "nat \<Rightarrow> nat list \<Rightarrow> (nat list \<times> nat list) option" where
  "split_block e frag = (if e \<in> set frag then Some (takeWhile (\<lambda>x. x \<noteq> e) frag @ [e], tl (dropWhile (\<lambda>x. x \<noteq> e) frag)) else None)"

lemma split_block_shorter: "split_block e frag = Some (b, rest) \<Longrightarrow> length rest < length frag"
proof -
  assume "split_block e frag = Some (b, rest)"
  then have "e \<in> set frag" and rest: "rest = tl (dropWhile (\<lambda>x. x \<noteq> e) frag)" by (auto simp: split_block_def split: if_splits)
  then have "frag \<noteq> []" by auto
  moreover have "length (dropWhile (\<lambda>x. x \<noteq> e) frag) \<le> length frag" by (rule length_dropWhile_le)
  ultimately show ?thesis unfolding rest by (cases frag) (auto simp: diff_less_Suc less_Suc_eq_le)
qed

function write_blocks :: "writer \<Rightarrow> wr_message \<Rightarrow> nat list \<Rightarrow> (nat \<Rightarrow> tlvtype) \<Rightarrow> (u8 list \<times> (nat \<Rightarrow> tlvtype)) outcome" where
  "write_blocks wr m [] tt = Inr ([], tt)"
| "write_blocks wr m (s # frag) tt =
     bnd (deref (wa_block_end (wm_addrs m ! s))) (\<lambda>e.
     case split_block e (s # frag) of
       None \<Rightarrow> Inl OutOfBounds
     | Some (b, rest) \<Rightarrow> bnd (write_addrblock wr m tt b) (\<lambda>(bytes, tt).
         bnd (write_blocks wr m rest tt) (\<lambda>(more, tt). Inr (bytes @ more, tt))))"
  by pat_completeness auto
termination by (relation "measure (\<lambda>(wr, m, frag, tt). length frag)") (auto dest: split_block_shorter)

definition write_addresses :: "u8 \<Rightarrow> nat list \<Rightarrow> writer \<Rightarrow> writer outcome" where
  "write_addresses ty frag wr =
     bnd (deref (find_msg ty wr)) (\<lambda>m.
     bnd (guard (wa_block_end (wm_addrs m ! hd frag) \<noteq> None) AssertFail) (\<lambda>_.
     let d = w_msg wr in
     bnd (write_blocks wr m frag (tlvtypes wr)) (\<lambda>(bytes, tt).
     bnd (mem_write (tw_buffer d) (tw_header d + tw_added d + tw_allocated d) bytes) (\<lambda>b.
     Inr (upd_msg ty (\<lambda>m. m\<lparr>wm_bin_addr_size := length bytes\<rparr>) (wr\<lparr>w_msg := d\<lparr>tw_buffer := b\<rparr>, tlvtypes := tt\<rparr>))))))"

end
