(* ===== verification/RfcGenerator.thy ===== *)
theory RfcGenerator
  imports RfcMessage
begin

text \<open>
  Generating and forwarding messages, \<open>core/contrib/oonf_api/rfc5444/rfc5444_msg_generator.c\<close>: a message is
  split into fragments that fit the packets of its targets, and every fragment is appended to them.
  \<open>size_t\<close> and \<open>int\<close> have 32 bits.
\<close>

section \<open>Targets\<close>

text \<open>\<open>rfc5444_writer_targetselector\<close>; the generator compares it with the selector of a single target.\<close>

datatype selector = SingleTarget nat | Selector "writer \<Rightarrow> nat \<Rightarrow> bool"

fun use_if :: "selector \<Rightarrow> writer \<Rightarrow> nat \<Rightarrow> bool" where
  "use_if (SingleTarget k) wr i = (i = k)"
| "use_if (Selector f) wr i = f wr i"

definition alltargets_selector :: selector where
  "alltargets_selector = Selector (\<lambda>_ _. True)"

fun for_targets :: "selector \<Rightarrow> (nat \<Rightarrow> 's act) \<Rightarrow> nat list \<Rightarrow> 's act" where
  "for_targets sel f [] x = Inr x"
| "for_targets sel f (i # is) x = bnd (if use_if sel (snd x) i then f i x else Inr x) (for_targets sel f is)"

definition each_target :: "selector \<Rightarrow> (nat \<Rightarrow> 's act) \<Rightarrow> 's act" where
  "each_target sel f x = for_targets sel f [0..<length (targets (snd x))] x"

definition target_end :: "target \<Rightarrow> nat" where
  "target_end t = tw_header (tg_pkt t) + tw_added (tg_pkt t) + tw_allocated (tg_pkt t) + bin_msgs_size t"

definition in_target :: "nat \<Rightarrow> nat \<Rightarrow> u8 list \<Rightarrow> writer \<Rightarrow> writer outcome" where
  "in_target i off bs wr =
     bnd (mem_write (tw_buffer (tg_pkt (targets wr ! i))) off bs) (\<lambda>b.
     Inr (upd_target i (\<lambda>t. t\<lparr>tg_pkt := (tg_pkt t)\<lparr>tw_buffer := b\<rparr>\<rparr>) wr))"

definition notify :: "'s cbs \<Rightarrow> nat \<Rightarrow> 's act" where
  "notify C i x = call (map_option (\<lambda>f. f i) (message_generation_notifier C)) x"

section \<open>A fragment\<close>

lemma takeWhile_shorter: "x \<in> set xs \<Longrightarrow> length (takeWhile (\<lambda>y. y \<noteq> x) xs) < length xs"
  by (induction xs) auto

text \<open>Every block's last address knows its first one; this makes the first ones know the last.\<close>

function forward_blocks :: "nat list \<Rightarrow> wr_address list \<Rightarrow> wr_address list outcome" where
  "forward_blocks [] addrs = Inl OutOfBounds"
| "forward_blocks (f # fs) addrs =
     (let a = last (f # fs); A = addrs ! a in
      bnd (deref (wa_block_start A)) (\<lambda>s.
      let addrs = addrs[s := (addrs ! s)\<lparr>wa_block_end := Some a, wa_multiplen := wa_multiplen A, wa_headlen := wa_headlen A\<rparr>] in
      if s = f then Inr addrs
      else bnd (guard (wa_index (addrs ! s) > wa_index (addrs ! f)) AssertFail) (\<lambda>_.
           if s \<in> set (f # fs) then forward_blocks (takeWhile (\<lambda>x. x \<noteq> s) (f # fs)) addrs else Inl OutOfBounds)))"
  by pat_completeness auto
termination
proof (relation "measure (\<lambda>(pre, addrs). length pre)")
  fix f :: nat and fs :: "nat list" and addrs :: "wr_address list"
  fix a A s addrs' u
  assume "s \<in> set (f # fs)"
  then show "((takeWhile (\<lambda>x. x \<noteq> s) (f # fs), addrs'), f # fs, addrs) \<in> measure (\<lambda>(pre, addrs). length pre)"
    using takeWhile_shorter [of s "f # fs"] by simp
qed simp

definition finish_addresses :: "u8 \<Rightarrow> nat list \<Rightarrow> writer \<Rightarrow> writer outcome" where
  "finish_addresses ty frag wr =
     (if frag = [] then Inr wr
      else bnd (deref (find_msg ty wr)) (\<lambda>m.
           bnd (forward_blocks frag (wm_addrs m)) (\<lambda>addrs.
           write_addresses ty frag (upd_msg ty (\<lambda>m. m\<lparr>wm_addrs := addrs\<rparr>) wr))))"

text \<open>The first half of \<open>_finalize_message_fragment\<close>: the message is complete in the writer's buffer.\<close>

definition finish_fragment :: "'s cbs \<Rightarrow> u8 \<Rightarrow> nat list \<Rightarrow> bool \<Rightarrow> 's act" where
  "finish_fragment C ty frag not_fragmented = (\<lambda>(s, wr).
     let ends = (\<lambda>f. if frag = [] then f None None not_fragmented else f (Some (hd frag)) (Some (last frag)) not_fragmented) in
     bnd (deref (find_msg ty wr)) (\<lambda>m.
     bnd (call_all (\<lambda>p. map_option ends (finishMessageTLVs C p)) (rev (map cp_id (wm_providers m)))
            (s, wr\<lparr>w_msg := (w_msg wr)\<lparr>tw_set := 0\<rparr>, w_state := WRITER_FINISH_MSGTLV\<rparr>)) (\<lambda>(s, wr).
     bnd (finish_addresses ty frag wr) (\<lambda>wr.
     bnd (call (map_option ends (finishMessageHeader C ty)) (set_state WRITER_FINISH_HEADER (s, wr))) (\<lambda>(s, wr).
     bnd (write_msgheader ty wr) (\<lambda>wr. Inr (set_state WRITER_NONE (s, wr))))))))"

text \<open>A target whose packet has no room is flushed.\<close>

definition make_room :: "'s cbs \<Rightarrow> u8 \<Rightarrow> nat \<Rightarrow> 's act" where
  "make_room C ty i = (\<lambda>(s, wr).
     bnd (deref (find_msg ty wr)) (\<lambda>m.
     let t = targets wr ! i; d = w_msg wr in
     if tw_header (tg_pkt t) + tw_added (tg_pkt t) + tw_set (tg_pkt t) + bin_msgs_size t +
          tw_header d + tw_added d + tw_set d + wm_bin_addr_size m > tw_max (tg_pkt t)
     then bnd (rfc5444_writer_flush C i False (s, wr)) (writer_begin_packet C i)
     else Inr (s, wr)))"

definition RFC5444_MAX_MESSAGE_SIZE :: nat where "RFC5444_MAX_MESSAGE_SIZE = 1225"

text \<open>The message in \<open>_msg_buffer\<close>: the space allocated for optional TLVs and not used is left out.\<close>

definition generic_message :: "u8 \<Rightarrow> writer \<Rightarrow> u8 list outcome" where
  "generic_message ty wr =
     bnd (deref (find_msg ty wr)) (\<lambda>m.
     let d = w_msg wr; minsize = tw_header d + tw_added d in
     bnd (mem_read (tw_buffer d) 0 (minsize + tw_set d)) (\<lambda>h.
     bnd (mem_read (tw_buffer d) (minsize + tw_allocated d) (wm_bin_addr_size m)) (\<lambda>a.
     bnd (guard (length (h @ a) \<le> RFC5444_MAX_MESSAGE_SIZE) OutOfBounds) (\<lambda>_. Inr (h @ a)))))"

fun run_specific :: "nat \<Rightarrow> postproc list \<Rightarrow> u8 list \<Rightarrow> u8 list option" where
  "run_specific i [] d = Some d"
| "run_specific i (p # ps) d =
     (if d = [] then Some d else let (err, d) = pp_process p (Some i) d in if err \<noteq> 0 then None else run_specific i ps d)"

definition append_message :: "'s cbs \<Rightarrow> u8 \<Rightarrow> u8 list \<Rightarrow> nat \<Rightarrow> 's act" where
  "append_message C ty generic i = (\<lambda>(s, wr).
     let off = target_end (targets wr ! i) in
     bnd (in_target i off generic wr) (\<lambda>wr.
     case run_specific i (filter target_specific (matching C wr (uint ty))) generic of
       None \<Rightarrow> Inr (s, wr)
     | Some d \<Rightarrow> bnd (in_target i off d wr) (\<lambda>wr.
         if d = [] then Inr (s, wr)
         else notify C i (s, upd_target i (\<lambda>t. t\<lparr>bin_msgs_size := bin_msgs_size t + length d\<rparr>) wr))))"

definition clear_message :: "u8 \<Rightarrow> writer \<Rightarrow> writer outcome" where
  "clear_message ty wr =
     (let d = w_msg wr; minsize = tw_header d + tw_added d in
      bnd (guard (minsize \<le> tw_max d) OutOfBounds) (\<lambda>_.
      bnd (mem_write (tw_buffer d) minsize (replicate (tw_max d - minsize) 253)) (\<lambda>b.
      Inr (upd_msg ty (\<lambda>m. m\<lparr>wm_bin_addr_size := 0\<rparr>) (wr\<lparr>w_msg := d\<lparr>tw_set := 0, tw_buffer := b\<rparr>\<rparr>)))))"

definition finalize_message_fragment :: "'s cbs \<Rightarrow> selector \<Rightarrow> u8 \<Rightarrow> nat list \<Rightarrow> bool \<Rightarrow> 's act" where
  "finalize_message_fragment C sel ty frag not_fragmented x =
     bnd (finish_fragment C ty frag not_fragmented x) (\<lambda>x.
     bnd (each_target sel (make_room C ty) x) (\<lambda>(s, wr).
     bnd (generic_message ty wr) (\<lambda>generic.
     case run_postprocs None (filter (\<lambda>p. \<not> target_specific p) (matching C wr (uint ty))) generic of
       None \<Rightarrow> Inr (s, wr)
     | Some generic \<Rightarrow>
         bnd (each_target sel (append_message C ty generic) (s, wr)) (\<lambda>(s, wr).
         bnd (clear_message ty wr) (\<lambda>wr. Inr (s, wr))))))"

section \<open>The addresses of a message\<close>

text \<open>The local variables of \<open>rfc5444_writer_create_message\<close>.\<close>

record cstate =
  cr_list :: "nat list"
  cr_first :: bool
  first_processed :: nat
  last_processed :: "nat option"
  cr_same :: int
  cr_idx :: nat
  cr_nonmand :: nat
  cr_whole :: bool
  cr_acs :: "acs list"
  cr_pos :: nat

definition cstate_init :: cstate where
  "cstate_init = \<lparr>cr_list = [], cr_first = True, first_processed = 0, last_processed = None, cr_same = 0, cr_idx = 0,
     cr_nonmand = 0, cr_whole = True, cr_acs = acs_clear, cr_pos = 0\<rparr>"

definition clear_tlvtypes :: "wr_message \<Rightarrow> writer \<Rightarrow> writer" where
  "clear_tlvtypes m wr =
     wr\<lparr>tlvtypes := (\<lambda>t. if t \<in> set (wm_tlvtypes m) \<or> t \<in> set (addr_tlvtype_head wr)
       then (tlvtypes wr t)\<lparr>tlvblock_count := replicate RFC5444_MAX_ADDRLEN 0, tlvblock_multi := replicate RFC5444_MAX_ADDRLEN False\<rparr>
       else tlvtypes wr t)\<rparr>"

fun best_session :: "wr_address list \<Rightarrow> u32 \<Rightarrow> acs list \<Rightarrow> nat list \<Rightarrow> nat option \<times> int \<Rightarrow> (nat option \<times> int) outcome" where
  "best_session addrs index s [] b = Inr b"
| "best_session addrs index s (i # is) b =
     bnd (deref (acs_ptr (s ! i))) (\<lambda>q.
     let best_size = acs_total (s ! i) + acs_current (s ! i); count = sint (index - wa_index (addrs ! q)) in
     best_session addrs index s is (if best_size < snd b \<and> count \<le> 254 then (Some i, best_size) else b))"

definition set_addrs :: "u8 \<Rightarrow> wr_address list \<Rightarrow> writer \<Rightarrow> writer" where
  "set_addrs ty addrs = upd_msg ty (\<lambda>m. m\<lparr>wm_addrs := addrs\<rparr>)"

definition close_last :: "u8 \<Rightarrow> cstate \<Rightarrow> writer \<Rightarrow> (acs list \<times> writer) outcome" where
  "close_last ty st wr =
     bnd (deref (last_processed st)) (\<lambda>l.
     bnd (deref (find_msg ty wr)) (\<lambda>m.
     bnd (close_addrblock (cr_acs st) (msg_addr_len wr) (wm_addrs m ! l) 0) (\<lambda>(s, a).
     Inr (s, set_addrs ty ((wm_addrs m)[l := a]) wr))))"

text \<open>The address at the position \<open>p\<close> joins the fragment; the result has the best size of the fragment.\<close>

definition add_to_fragment :: "u8 \<Rightarrow> wr_message \<Rightarrow> u32 \<Rightarrow> nat \<Rightarrow> cstate \<Rightarrow> writer \<Rightarrow> (nat option \<times> cstate \<times> writer) outcome" where
  "add_to_fragment ty m mtu p st wr =
     (let fresh = cr_first st;
          wr = (if fresh then clear_tlvtypes m wr else wr);
          st = (if fresh then st\<lparr>cr_acs := acs_clear, cr_same := 1, first_processed := cr_pos st\<rparr> else st);
          addrs = (wm_addrs m)[p := (wm_addrs m ! p)\<lparr>wa_index := of_nat (cr_idx st)\<rparr>];
          frag = cr_list st @ [p]
      in bnd (compress_address (cr_acs st) wr addrs frag (cr_same st)) (\<lambda>(same, s, addrs, wr).
         bnd (best_session addrs (wa_index (addrs ! p)) s [0..<msg_addr_len wr] (None, sint (mtu + 1))) (\<lambda>(best, _).
         Inr (best, st\<lparr>cr_list := frag, cr_idx := Suc (cr_idx st), cr_same := same, cr_acs := s, cr_first := False\<rparr>,
              set_addrs ty addrs wr))))"

definition keep_address :: "u8 \<Rightarrow> nat \<Rightarrow> cstate \<Rightarrow> writer \<Rightarrow> (cstate \<times> writer) outcome" where
  "keep_address ty p st wr =
     bnd (deref (find_msg ty wr)) (\<lambda>m.
     let a = wm_addrs m ! p in
     Inr (st\<lparr>cr_acs := map (\<lambda>i. if i < msg_addr_len wr then (cr_acs st ! i)\<lparr>acs_total := acs_total (cr_acs st ! i) + acs_current (cr_acs st ! i),
               acs_current := 0\<rparr> else cr_acs st ! i) [0..<length (cr_acs st)],
            last_processed := Some p, cr_pos := Suc (cr_pos st),
            cr_nonmand := (if \<not> wa_done a \<and> \<not> wa_mandatory a then Suc (cr_nonmand st) else cr_nonmand st)\<rparr>,
          set_addrs ty ((wm_addrs m)[p := a\<lparr>wa_done := True\<rparr>]) wr))"

text \<open>The message up to the address before the last one becomes a fragment; the loop starts over.\<close>

definition emit_fragment :: "'s cbs \<Rightarrow> selector \<Rightarrow> u8 \<Rightarrow> cstate \<Rightarrow> 's \<times> writer \<Rightarrow> (cstate \<times> 's \<times> writer) outcome" where
  "emit_fragment C sel ty st = (\<lambda>(s, wr).
     bnd (close_last ty st wr) (\<lambda>(acs, wr).
     bnd (finalize_message_fragment C sel ty (butlast (cr_list st)) False (s, wr)) (\<lambda>x.
     Inr (st\<lparr>cr_acs := acs, cr_whole := False, cr_list := [], cr_pos := first_processed st, cr_first := True\<rparr>, x))))"

definition create_step :: "'s cbs \<Rightarrow> selector \<Rightarrow> u8 \<Rightarrow> u32 \<Rightarrow> wr_message \<Rightarrow> cstate \<Rightarrow> 's \<times> writer \<Rightarrow> (int option \<times> cstate \<times> 's \<times> writer) outcome" where
  "create_step C sel ty mtu m st = (\<lambda>(s, wr).
     let p = wm_addr_head m ! cr_pos st in
     if wa_done (wm_addrs m ! p) \<and> \<not> wa_mandatory (wm_addrs m ! p) then Inr (None, st\<lparr>cr_pos := Suc (cr_pos st)\<rparr>, s, wr)
     else bnd (add_to_fragment ty m mtu p st wr) (\<lambda>(best, st, wr).
       if best \<noteq> None then bnd (keep_address ty p st wr) (\<lambda>(st, wr). Inr (None, st, s, wr))
       else if cr_nonmand st = 0 then Inr (Some RFC5444_MTU_TOO_SMALL, st, set_state WRITER_NONE (s, writer_free_addresses ty wr))
       else bnd (emit_fragment C sel ty st (s, wr)) (\<lambda>(st, x). Inr (None, st, x))))"

text \<open>The loop over the addresses, for at most \<open>n\<close> rounds; \<open>None\<close> when they do not suffice.\<close>

fun create_loop :: "nat \<Rightarrow> 's cbs \<Rightarrow> selector \<Rightarrow> u8 \<Rightarrow> u32 \<Rightarrow> cstate \<Rightarrow> 's \<times> writer \<Rightarrow> (int option \<times> cstate \<times> 's \<times> writer) outcome option" where
  "create_loop 0 C sel ty mtu st x = None"
| "create_loop (Suc n) C sel ty mtu st x =
     (case find_msg ty (snd x) of
        None \<Rightarrow> Some (Inl NullDeref)
      | Some m \<Rightarrow>
          if cr_pos st \<ge> length (wm_addr_head m) then Some (Inr (None, st, x))
          else (case create_step C sel ty mtu m st x of
                  Inl f \<Rightarrow> Some (Inl f)
                | Inr (Some r, st, x) \<Rightarrow> Some (Inr (Some r, st, x))
                | Inr (None, st, x) \<Rightarrow> create_loop n C sel ty mtu st x))"

section \<open>Creating a message\<close>

text \<open>The packets of the targets are started, and the space left in them limits the message.\<close>

definition target_mtu :: "nat \<Rightarrow> target \<Rightarrow> u32" where
  "target_mtu preallocated t =
     of_nat (packet_size t) - of_nat preallocated - of_nat (tw_header (tg_pkt t) + tw_added (tg_pkt t) + tw_allocated (tg_pkt t))"

fun message_mtu :: "'s cbs \<Rightarrow> selector \<Rightarrow> nat \<Rightarrow> nat list \<Rightarrow> u32 \<Rightarrow> 's \<times> writer \<Rightarrow> (u32 \<times> 's \<times> writer) outcome" where
  "message_mtu C sel pre [] mtu x = Inr (mtu, x)"
| "message_mtu C sel pre (i # is) mtu x =
     (if \<not> use_if sel (snd x) i then message_mtu C sel pre is mtu x
      else bnd (if is_flushed (targets (snd x) ! i) then writer_begin_packet C i x else Inr x) (\<lambda>x.
           message_mtu C sel pre is (min (target_mtu pre (targets (snd x) ! i)) mtu) x))"

definition start_message :: "'s cbs \<Rightarrow> selector \<Rightarrow> u8 \<Rightarrow> 's \<times> writer \<Rightarrow> (u32 \<times> 's \<times> writer) outcome" where
  "start_message C sel ty = (\<lambda>(s, wr).
     bnd (message_mtu C sel (sum_list (map allocate_space (matching C wr (uint ty)))) [0..<length (targets wr)]
            (of_nat (w_msg_size wr)) (s, wr)) (\<lambda>(mtu, s, wr).
     bnd (tlv_writer_init (w_msg wr) (unat mtu) (w_msg_size wr)) (\<lambda>d.
     Inr (mtu, set_state WRITER_ADD_HEADER (s, wr\<lparr>w_msg := d\<rparr>)))))"

text \<open>The message's creator writes the header, or declines with a result other than 0.\<close>

definition message_header :: "'s cbs \<Rightarrow> u8 \<Rightarrow> 's \<times> writer \<Rightarrow> (int \<times> 's \<times> writer) outcome" where
  "message_header C ty = (\<lambda>(s, wr).
     bnd (rfc5444_writer_set_msg_header ty False False False False wr) (\<lambda>wr.
     bnd (deref (find_msg ty wr)) (\<lambda>m.
     case add_message_header m of None \<Rightarrow> Inr (0, s, wr) | Some k \<Rightarrow> addMessageHeader C k ty (s, wr))))"

text \<open>The content providers add message TLVs, then addresses; the mandatory addresses come first.\<close>

definition message_content :: "'s cbs \<Rightarrow> u8 \<Rightarrow> 's act" where
  "message_content C ty x =
     bnd (deref (find_msg ty (snd x))) (\<lambda>m.
     let ps = map cp_id (wm_providers m) in
     bnd (call_all (addMessageTLVs C) ps (set_state WRITER_ADD_MSGTLV x)) (\<lambda>x.
     bnd (call_all (addAddresses C) ps (set_state WRITER_ADD_ADDRESSES x)) (\<lambda>(s, wr).
     Inr (s, upd_msg ty (\<lambda>m. m\<lparr>wm_addr_head := wm_addr_head m @ wm_nonmandatory m, wm_nonmandatory := []\<rparr>) wr))))"

definition message_done :: "u8 \<Rightarrow> 's \<times> writer \<Rightarrow> 's \<times> writer" where
  "message_done ty = (\<lambda>(s, wr). set_state WRITER_NONE (s, writer_free_addresses ty wr))"

definition last_fragment :: "'s cbs \<Rightarrow> selector \<Rightarrow> u8 \<Rightarrow> cstate \<Rightarrow> 's act" where
  "last_fragment C sel ty st = (\<lambda>(s, wr).
     if last_processed st = None then Inr (s, wr)
     else bnd (close_last ty st wr) (\<lambda>(acs, wr). finalize_message_fragment C sel ty (cr_list st) (cr_whole st) (s, wr)))"

definition message_fragments :: "nat \<Rightarrow> 's cbs \<Rightarrow> selector \<Rightarrow> u8 \<Rightarrow> u32 \<Rightarrow> 's \<times> writer \<Rightarrow> (int \<times> 's \<times> writer) outcome option" where
  "message_fragments n C sel ty mtu = (\<lambda>(s, wr).
     case find_msg ty wr of
       None \<Rightarrow> Some (Inl NullDeref)
     | Some m \<Rightarrow>
         if wm_addr_head m = []
         then Some (bnd (finalize_message_fragment C sel ty [] True (s, wr)) (\<lambda>x. Inr (RFC5444_OKAY, message_done ty x)))
         else let d = w_msg wr; room = mtu - of_nat (tw_header d) - of_nat (tw_allocated d) - of_nat (tw_added d) in
           (case create_loop n C sel ty room cstate_init (s, wr) of
              None \<Rightarrow> None
            | Some (Inl f) \<Rightarrow> Some (Inl f)
            | Some (Inr (Some r, st, x)) \<Rightarrow> Some (Inr (r, x))
            | Some (Inr (None, st, x)) \<Rightarrow> Some (bnd (last_fragment C sel ty st x) (\<lambda>x.
                let (s, wr) = message_done ty x in Inr (RFC5444_OKAY, s, wr\<lparr>msg_addr_len := 0\<rparr>)))))"

text \<open>The function after the target of the message has been set.\<close>

definition create_for :: "nat \<Rightarrow> 's cbs \<Rightarrow> selector \<Rightarrow> u8 \<Rightarrow> u8 \<Rightarrow> 's \<times> writer \<Rightarrow> (int \<times> 's \<times> writer) outcome option" where
  "create_for n C sel ty addrlen = (\<lambda>(s, wr).
     (case bnd (start_message C sel ty (s, wr\<lparr>msg_addr_len := unat addrlen\<rparr>)) (\<lambda>(mtu, x).
           bnd (message_header C ty x) (\<lambda>(r, x).
           if r \<noteq> 0 then Inr (None, x) else bnd (message_content C ty x) (\<lambda>x. Inr (Some mtu, x)))) of
        Inl f \<Rightarrow> Some (Inl f)
      | Inr (None, s, wr) \<Rightarrow> Some (Inr (RFC5444_OKAY, s, wr\<lparr>w_state := WRITER_NONE, msg_addr_len := 0\<rparr>))
      | Inr (Some mtu, x) \<Rightarrow> message_fragments n C sel ty mtu x))"

definition create_single :: "nat \<Rightarrow> 's cbs \<Rightarrow> u8 \<Rightarrow> u8 \<Rightarrow> nat \<Rightarrow> 's \<times> writer \<Rightarrow> (int \<times> 's \<times> writer) outcome option" where
  "create_single n C ty addrlen k = (\<lambda>(s, wr).
     if w_state wr \<noteq> WRITER_NONE then Some (Inl AssertFail)
     else if targets wr = [] then Some (Inr (RFC5444_OKAY, s, wr))
     else (case find_msg ty wr of
             None \<Rightarrow> Some (Inr (RFC5444_NO_MSGCREATOR, s, wr))
           | Some m \<Rightarrow> create_for n C (SingleTarget k) ty addrlen
               (s, wr\<lparr>msg_target := (if wm_target_specific m then Some k else None)\<rparr>)))"

fun create_each :: "nat \<Rightarrow> 's cbs \<Rightarrow> selector \<Rightarrow> u8 \<Rightarrow> u8 \<Rightarrow> nat list \<Rightarrow> 's \<times> writer \<Rightarrow> (int \<times> 's \<times> writer) outcome option" where
  "create_each n C sel ty addrlen [] x = Some (Inr (RFC5444_OKAY, x))"
| "create_each n C sel ty addrlen (i # is) x =
     (if \<not> use_if sel (snd x) i then create_each n C sel ty addrlen is x
      else (case create_single n C ty addrlen i x of
              Some (Inr (r, x)) \<Rightarrow> if r \<noteq> RFC5444_OKAY then Some (Inr (r, x)) else create_each n C sel ty addrlen is x
            | r \<Rightarrow> r))"

text \<open>\<open>rfc5444_writer_create_message\<close>; its loop over the addresses is run for at most \<open>n\<close> rounds.\<close>

definition rfc5444_writer_create_message ::
    "nat \<Rightarrow> 's cbs \<Rightarrow> u8 \<Rightarrow> u8 \<Rightarrow> selector \<Rightarrow> 's \<times> writer \<Rightarrow> (int \<times> 's \<times> writer) outcome option" where
  "rfc5444_writer_create_message n C ty addrlen sel = (\<lambda>(s, wr).
     (case sel of
        SingleTarget k \<Rightarrow> create_single n C ty addrlen k (s, wr)
      | Selector f \<Rightarrow>
          if w_state wr \<noteq> WRITER_NONE then Some (Inl AssertFail)
          else if targets wr = [] then Some (Inr (RFC5444_OKAY, s, wr))
          else (case find_msg ty wr of
                  None \<Rightarrow> Some (Inr (RFC5444_NO_MSGCREATOR, s, wr))
                | Some m \<Rightarrow>
                    if \<not> wm_target_specific m then create_for n C sel ty addrlen (s, wr\<lparr>msg_target := None\<rparr>)
                    else create_each n C sel ty addrlen [0..<length (targets wr)] (s, wr))))"

definition rfc5444_writer_create_message_alltarget :: "nat \<Rightarrow> 's cbs \<Rightarrow> u8 \<Rightarrow> u8 \<Rightarrow> 's \<times> writer \<Rightarrow> (int \<times> 's \<times> writer) outcome option" where
  "rfc5444_writer_create_message_alltarget n C ty addrlen = rfc5444_writer_create_message n C ty addrlen alltargets_selector"

end
