(* ===== verification/Rcs.thy ===== *)
theory Rcs
  imports Riot
begin

text \<open>
  The Router Client Set, \<open>mesh/sys/net/aodvv2/aodvv2_rcs.c\<close>: the prefixes this router discovers
  routes for. A pointer to an entry is the index of its slot. Every operation holds the set's mutex
  while it touches the array, so the model's operations are atomic, except \<open>aodvv2_rcs_add\<close> and
  \<open>aodvv2_rcs_del\<close>, which release the lock between their search and their update: these two are
  also given as their two critical sections.
\<close>

record rcs_entry =
  rcs_addr :: ipv6_addr
  rcs_pfx_len :: u8
  rcs_cost :: u8

record rcs_slot =
  rcs_data :: rcs_entry
  rcs_used :: bool

type_synonym rcs = "rcs_slot list"

definition CONFIG_AODVV2_RCS_ENTRIES :: nat where
  "CONFIG_AODVV2_RCS_ENTRIES = 2"

definition rcs_zero :: rcs_entry where
  "rcs_zero = \<lparr>rcs_addr = 0, rcs_pfx_len = 0, rcs_cost = 0\<rparr>"

definition rcs_free_slot :: rcs_slot where
  "rcs_free_slot = \<lparr>rcs_data = rcs_zero, rcs_used = False\<rparr>"

definition aodvv2_rcs_init :: rcs where
  "aodvv2_rcs_init = replicate CONFIG_AODVV2_RCS_ENTRIES rcs_free_slot"

definition clamp128 :: "u8 \<Rightarrow> u8" where
  "clamp128 pfx_len = (if pfx_len > 128 then 128 else pfx_len)"

definition rcs_match :: "riot \<Rightarrow> ipv6_addr \<Rightarrow> u8 \<Rightarrow> rcs_slot \<Rightarrow> bool" where
  "rcs_match R addr pfx_len e \<longleftrightarrow> rcs_used e \<and> rcs_pfx_len (rcs_data e) = pfx_len \<and>
     ipv6_addr_match_prefix R (rcs_addr (rcs_data e)) addr \<ge> rcs_pfx_len (rcs_data e)"

definition aodvv2_rcs_matches :: "riot \<Rightarrow> ipv6_addr \<Rightarrow> u8 \<Rightarrow> rcs \<Rightarrow> nat option" where
  "aodvv2_rcs_matches R addr pfx_len es = first_idx (rcs_match R addr (clamp128 pfx_len)) es"

definition aodvv2_rcs_is_client :: "riot \<Rightarrow> ipv6_addr \<Rightarrow> rcs \<Rightarrow> nat option" where
  "aodvv2_rcs_is_client R addr es =
     first_idx (\<lambda>e. rcs_used e \<and> ipv6_addr_match_prefix R (rcs_addr (rcs_data e)) addr \<ge> rcs_pfx_len (rcs_data e)) es"

text \<open>What the loop of \<open>aodvv2_rcs_add\<close> writes into the free slot it found.\<close>

definition rcs_fill :: "riot \<Rightarrow> ipv6_addr \<times> u8 \<times> u8 \<Rightarrow> rcs_slot \<Rightarrow> rcs_slot" where
  "rcs_fill R = (\<lambda>(addr, pfx_len, cost) e.
     \<lparr>rcs_data = \<lparr>rcs_addr = ipv6_addr_init_prefix R (rcs_addr (rcs_data e)) addr pfx_len,
                  rcs_pfx_len = pfx_len, rcs_cost = cost\<rparr>,
      rcs_used = True\<rparr>)"

definition rcs_place :: "riot \<Rightarrow> ipv6_addr \<times> u8 \<times> u8 \<Rightarrow> rcs \<Rightarrow> nat option \<times> rcs" where
  "rcs_place R a es =
     (case first_idx (\<lambda>e. \<not> rcs_used e) es of
        None \<Rightarrow> (None, es)
      | Some i \<Rightarrow> (Some i, es[i := rcs_fill R a (es ! i)]))"

definition aodvv2_rcs_add :: "riot \<Rightarrow> ipv6_addr \<Rightarrow> u8 \<Rightarrow> u8 \<Rightarrow> rcs \<Rightarrow> nat option \<times> rcs" where
  "aodvv2_rcs_add R addr pfx_len cost es =
     (let pfx_len = clamp128 pfx_len in
      if aodvv2_rcs_matches R addr pfx_len es \<noteq> None then (None, es)
      else rcs_place R (addr, pfx_len, cost) es)"

definition rcs_clear :: "nat \<Rightarrow> rcs \<Rightarrow> rcs" where
  "rcs_clear i es = es[i := rcs_free_slot]"

definition aodvv2_rcs_del :: "riot \<Rightarrow> ipv6_addr \<Rightarrow> u8 \<Rightarrow> rcs \<Rightarrow> rcs" where
  "aodvv2_rcs_del R addr pfx_len es =
     (let pfx_len = clamp128 pfx_len in
      case aodvv2_rcs_matches R addr pfx_len es of
        None \<Rightarrow> es
      | Some i \<Rightarrow> rcs_clear i es)"

text \<open>The lines \<open>aodvv2_rcs_print_entries\<close> prints: address, prefix length, cost of each used slot.\<close>

definition aodvv2_rcs_print_entries :: "rcs \<Rightarrow> rcs_entry list" where
  "aodvv2_rcs_print_entries es = map rcs_data (filter rcs_used es)"

section \<open>The slot table interface\<close>

interpretation rcs_slots: slot_table rcs_used "rcs_place R" "rcs_fill R" for R
  by unfold_locales (simp_all add: rcs_place_def rcs_fill_def split: prod.splits)

section \<open>The set's invariant\<close>

text \<open>
  Two slots are in use, at most; their prefixes are at most 128 bits long; no two used slots hold
  the same prefix; an unused slot is zeroed.
\<close>

definition rcs_same :: "rcs_entry \<Rightarrow> rcs_entry \<Rightarrow> bool" where
  "rcs_same d e \<longleftrightarrow> rcs_pfx_len d = rcs_pfx_len e \<and> pfx_eq (unat (rcs_pfx_len d)) (rcs_addr d) (rcs_addr e)"

definition rcs_inv :: "rcs \<Rightarrow> bool" where
  "rcs_inv es \<longleftrightarrow> length es = CONFIG_AODVV2_RCS_ENTRIES \<and>
     (\<forall>e \<in> set es. unat (rcs_pfx_len (rcs_data e)) \<le> 128 \<and> (\<not> rcs_used e \<longrightarrow> e = rcs_free_slot)) \<and>
     (\<forall>i < length es. \<forall>j < length es. rcs_used (es ! i) \<longrightarrow> rcs_used (es ! j) \<longrightarrow>
        rcs_same (rcs_data (es ! i)) (rcs_data (es ! j)) \<longrightarrow> i = j)"

lemma clamp128_le [simp]: "unat (clamp128 n) \<le> 128"
  by (simp add: clamp128_def word_less_nat_alt)

lemma clamp128_id: "unat n \<le> 128 \<Longrightarrow> clamp128 n = n"
  by (simp add: clamp128_def word_less_nat_alt)

lemma clamp128_idem [simp]: "clamp128 (clamp128 n) = clamp128 n"
  by (simp add: clamp128_id)

lemma rcs_match_iff:
  assumes "prefix_ok R" and "unat (rcs_pfx_len (rcs_data e)) \<le> 128"
  shows "rcs_match R addr n e \<longleftrightarrow> rcs_used e \<and> rcs_pfx_len (rcs_data e) = n \<and> pfx_eq (unat n) (rcs_addr (rcs_data e)) addr"
  using assms by (auto simp: rcs_match_def match_prefix)

lemma rcs_same_sym: "rcs_same d e \<Longrightarrow> rcs_same e d"
  unfolding rcs_same_def by (metis pfx_eq_sym)

lemma rcs_match_same:
  assumes "prefix_ok R" and "unat (rcs_pfx_len (rcs_data d)) \<le> 128" and "unat (rcs_pfx_len (rcs_data e)) \<le> 128"
    and "rcs_match R addr n d" and "rcs_match R addr n e"
  shows "rcs_same (rcs_data d) (rcs_data e)"
  using assms pfx_eq_common [of "unat n"] by (auto simp: rcs_match_iff rcs_same_def)

lemma rcs_inv_pfx: "rcs_inv es \<Longrightarrow> i < length es \<Longrightarrow> unat (rcs_pfx_len (rcs_data (es ! i))) \<le> 128"
  by (simp add: rcs_inv_def)

lemma rcs_inv_distinct:
  "rcs_inv es \<Longrightarrow> i < length es \<Longrightarrow> j < length es \<Longrightarrow> rcs_used (es ! i) \<Longrightarrow> rcs_used (es ! j) \<Longrightarrow>
     rcs_same (rcs_data (es ! i)) (rcs_data (es ! j)) \<Longrightarrow> i = j"
  by (simp add: rcs_inv_def)

lemma rcs_inv_init: "rcs_inv aodvv2_rcs_init"
  by (auto simp: rcs_inv_def aodvv2_rcs_init_def rcs_free_slot_def rcs_zero_def)

lemma rcs_inv_clear: "rcs_inv es \<Longrightarrow> rcs_inv (rcs_clear i es)"
proof (cases "i < length es")
  case True
  assume inv: "rcs_inv es"
  have "\<forall>e \<in> set (es[i := rcs_free_slot]). unat (rcs_pfx_len (rcs_data e)) \<le> 128 \<and> (\<not> rcs_used e \<longrightarrow> e = rcs_free_slot)"
    using inv set_update_subset_insert [of es i rcs_free_slot]
    by (auto simp: rcs_inv_def rcs_free_slot_def rcs_zero_def)
  with inv True show ?thesis
    by (simp add: rcs_inv_def rcs_clear_def nth_list_update rcs_free_slot_def)
qed (simp add: rcs_clear_def list_update_beyond)

lemma rcs_inv_place:
  assumes inv: "rcs_inv es" and ok: "prefix_ok R" and n: "unat n \<le> 128"
    and none: "aodvv2_rcs_matches R addr n es = None"
  shows "rcs_inv (snd (rcs_place R (addr, n, cost) es))"
proof (cases "first_idx (\<lambda>e. \<not> rcs_used e) es")
  case (Some i)
  let ?e = "rcs_fill R (addr, n, cost) (es ! i)"
  from Some have i: "i < length es" by (simp add: first_idx_Some_iff)
  have fresh: "\<not> rcs_same (rcs_data ?e) (rcs_data (es ! j))" if "j < length es" "rcs_used (es ! j)" for j
  proof
    assume "rcs_same (rcs_data ?e) (rcs_data (es ! j))"
    then have len: "rcs_pfx_len (rcs_data (es ! j)) = n" and
      "pfx_eq (unat n) (ipv6_addr_init_prefix R (rcs_addr (rcs_data (es ! i))) addr n) (rcs_addr (rcs_data (es ! j)))"
      by (auto simp: rcs_same_def rcs_fill_def)
    then have "pfx_eq (unat n) (rcs_addr (rcs_data (es ! j))) addr"
      using pfx_eq_trans [OF pfx_eq_sym pfx_eq_init_prefix [OF ok n]] by simp
    with that have "rcs_match R addr n (es ! j)"
      by (simp add: rcs_match_iff ok n len)
    with none n that show False by (simp add: aodvv2_rcs_matches_def clamp128_id first_idx_None_iff)
  qed
  then have fresh': "\<not> rcs_same (rcs_data (es ! j)) (rcs_data ?e)" if "j < length es" "rcs_used (es ! j)" for j
    using fresh [OF that] rcs_same_sym by blast
  have "\<forall>e \<in> set (es[i := ?e]). unat (rcs_pfx_len (rcs_data e)) \<le> 128 \<and> (\<not> rcs_used e \<longrightarrow> e = rcs_free_slot)"
    using inv n set_update_subset_insert [of es i ?e] by (auto simp: rcs_inv_def rcs_fill_def)
  with inv i fresh fresh' show ?thesis
    by (simp add: rcs_inv_def rcs_place_def Some nth_list_update)
qed (simp add: inv rcs_place_def)

lemma rcs_inv_add:
  assumes "prefix_ok R" and "rcs_inv es"
  shows "rcs_inv (snd (aodvv2_rcs_add R addr n cost es))"
proof -
  have "rcs_inv (snd (rcs_place R (addr, clamp128 n, cost) es))" if "aodvv2_rcs_matches R addr (clamp128 n) es = None"
    using rcs_inv_place [OF assms(2,1) _ that] by simp
  then show ?thesis
    using assms(2) by (auto simp: aodvv2_rcs_add_def Let_def)
qed

lemma rcs_inv_del: "rcs_inv es \<Longrightarrow> rcs_inv (aodvv2_rcs_del R addr n es)"
  by (auto simp: aodvv2_rcs_del_def Let_def rcs_inv_clear split: option.splits)

text \<open>
  C17. The Router Client Set keeps its invariant: starting from \<open>aodvv2_rcs_init\<close>, every addition and
  deletion keeps the capacity, prefix lengths of at most 128, zeroed free slots, and never lets two
  entries hold the same prefix.
\<close>

theorem rcs_operations_keep_inv:
  assumes "prefix_ok R" and "rcs_inv es"
  shows "rcs_inv (snd (aodvv2_rcs_add R addr n cost es)) \<and> rcs_inv (aodvv2_rcs_del R addr n es) \<and>
    rcs_inv aodvv2_rcs_init"
  using assms by (simp add: rcs_inv_add rcs_inv_del rcs_inv_init)

theorem rcs_operations_keep_inv_witness:
  "rcs_inv (snd (aodvv2_rcs_add riot_ref 1 64 1 aodvv2_rcs_init))"
  using rcs_operations_keep_inv [OF prefix_ok_ref rcs_inv_init, of 1 64 1] by simp

section \<open>Lookup, addition and deletion\<close>

lemma is_client_iff:
  assumes "prefix_ok R" and "rcs_inv es"
  shows "aodvv2_rcs_is_client R addr es \<noteq> None \<longleftrightarrow>
    (\<exists>e \<in> set es. rcs_used e \<and> pfx_eq (unat (rcs_pfx_len (rcs_data e))) (rcs_addr (rcs_data e)) addr)"
  using assms by (auto simp: aodvv2_rcs_is_client_def first_idx_None_iff rcs_inv_def match_prefix)

text \<open>
  \<open>aodvv2_rcs_add\<close> either refuses (the prefix is already there, or both slots are used) and
  leaves the set as it was, or stores the prefix in a free slot, leaves every other slot alone, and
  from then on every address under the prefix is a client.
\<close>

lemma rcs_add_spec:
  assumes ok: "prefix_ok R" and inv: "rcs_inv es" and add: "aodvv2_rcs_add R addr n cost es = (r, es')"
  shows "case r of
      None \<Rightarrow> es' = es \<and> (aodvv2_rcs_matches R addr n es \<noteq> None \<or> (\<forall>e \<in> set es. rcs_used e))
    | Some i \<Rightarrow> i < length es \<and> \<not> rcs_used (es ! i) \<and> (\<forall>j < length es. j \<noteq> i \<longrightarrow> es' ! j = es ! j) \<and>
        rcs_pfx_len (rcs_data (es' ! i)) = clamp128 n \<and> rcs_cost (rcs_data (es' ! i)) = cost \<and>
        (\<forall>addr'. pfx_eq (unat (clamp128 n)) addr addr' \<longrightarrow> aodvv2_rcs_is_client R addr' es' \<noteq> None)"
proof (cases r)
  case None
  have "aodvv2_rcs_matches R addr (clamp128 n) es = aodvv2_rcs_matches R addr n es"
    by (simp add: aodvv2_rcs_matches_def)
  with None add rcs_slots.place_None_iff [of R "(addr, clamp128 n, cost)" es]
    rcs_slots.place_None_same [of R "(addr, clamp128 n, cost)" es]
  show ?thesis by (auto simp: aodvv2_rcs_add_def Let_def split: if_splits)
next
  case (Some i)
  let ?e = "rcs_fill R (addr, clamp128 n, cost) (es ! i)"
  from add Some have place: "rcs_place R (addr, clamp128 n, cost) es = (Some i, es')"
    by (auto simp: aodvv2_rcs_add_def Let_def split: if_splits)
  note stored = rcs_slots.place_SomeD [OF place]
  have inv': "rcs_inv es'"
    using rcs_inv_add [OF ok inv, of addr n cost] add by simp
  have "aodvv2_rcs_is_client R addr' es' \<noteq> None" if "pfx_eq (unat (clamp128 n)) addr addr'" for addr'
  proof -
    have "pfx_eq (unat (clamp128 n)) (rcs_addr (rcs_data ?e)) addr'"
      using pfx_eq_trans [OF pfx_eq_init_prefix [OF ok clamp128_le] that] by (simp add: rcs_fill_def)
    moreover have "?e \<in> set es'" and "rcs_used ?e" and "rcs_pfx_len (rcs_data ?e) = clamp128 n"
      using stored by (auto simp: rcs_fill_def set_update_memI)
    ultimately show ?thesis using is_client_iff [OF ok inv'] by metis
  qed
  with Some stored show ?thesis by (simp add: rcs_fill_def)
qed

lemma rcs_add_spec_witness:
  "\<exists>i es'. aodvv2_rcs_add riot_ref 1 128 1 aodvv2_rcs_init = (Some i, es') \<and>
     aodvv2_rcs_is_client riot_ref 1 es' \<noteq> None"
proof -
  obtain r es' where add: "aodvv2_rcs_add riot_ref 1 128 1 aodvv2_rcs_init = (r, es')" by fastforce
  have "r = Some 0"
    using add by (auto simp: aodvv2_rcs_add_def aodvv2_rcs_init_def aodvv2_rcs_matches_def rcs_match_def
        rcs_place_def rcs_free_slot_def CONFIG_AODVV2_RCS_ENTRIES_def numeral_2_eq_2 Let_def)
  with add rcs_add_spec [OF prefix_ok_ref rcs_inv_init add] show ?thesis by auto
qed

lemma rcs_matches_unique:
  assumes ok: "prefix_ok R" and inv: "rcs_inv es" and hit: "aodvv2_rcs_matches R addr n es = Some i"
    and j: "j < length es" "rcs_match R addr (clamp128 n) (es ! j)"
  shows "j = i"
proof -
  from hit have i: "i < length es" "rcs_match R addr (clamp128 n) (es ! i)"
    by (simp_all add: aodvv2_rcs_matches_def first_idx_Some_iff)
  have "rcs_same (rcs_data (es ! j)) (rcs_data (es ! i))"
    using rcs_match_same [OF ok rcs_inv_pfx [OF inv j(1)] rcs_inv_pfx [OF inv i(1)] j(2) i(2)] .
  moreover have "rcs_used (es ! i)" "rcs_used (es ! j)"
    using i j by (simp_all add: rcs_match_def)
  ultimately show ?thesis using rcs_inv_distinct [OF inv j(1) i(1)] by simp
qed

text \<open>
  Deleting a prefix removes it (no entry with this prefix remains) and nothing else: every slot
  that did not hold it is unchanged. An addition that succeeded is undone by the deletion.
\<close>

lemma rcs_del_spec:
  assumes ok: "prefix_ok R" and inv: "rcs_inv es"
  shows "aodvv2_rcs_matches R addr n (aodvv2_rcs_del R addr n es) = None \<and>
    (\<forall>j < length es. \<not> rcs_match R addr (clamp128 n) (es ! j) \<longrightarrow> aodvv2_rcs_del R addr n es ! j = es ! j) \<and>
    (\<forall>i es'. aodvv2_rcs_add R addr n cost es = (Some i, es') \<longrightarrow> aodvv2_rcs_del R addr n es' = es)"
proof (intro conjI)
  have clamp: "aodvv2_rcs_matches R addr (clamp128 n) es = aodvv2_rcs_matches R addr n es" for es
    by (simp add: aodvv2_rcs_matches_def)
  have del: "aodvv2_rcs_del R addr n es = (case aodvv2_rcs_matches R addr n es of None \<Rightarrow> es | Some i \<Rightarrow> rcs_clear i es)" for es
    by (simp add: aodvv2_rcs_del_def clamp Let_def)
  have free: "\<not> rcs_match R addr m rcs_free_slot" for m
    by (simp add: rcs_match_def rcs_free_slot_def)
  show gone: "aodvv2_rcs_matches R addr n (aodvv2_rcs_del R addr n es) = None"
  proof (cases "aodvv2_rcs_matches R addr n es")
    case (Some i)
    have "\<not> rcs_match R addr (clamp128 n) (rcs_clear i es ! j)" if "j < length es" for j
      using rcs_matches_unique [OF ok inv Some that] free that
      by (cases "j = i") (auto simp: rcs_clear_def)
    moreover have "aodvv2_rcs_del R addr n es = rcs_clear i es" by (simp add: del Some)
    ultimately show ?thesis
      by (simp add: aodvv2_rcs_matches_def first_idx_None_iff) (auto simp: in_set_conv_nth rcs_clear_def)
  qed (simp add: del)
  show "\<forall>j < length es. \<not> rcs_match R addr (clamp128 n) (es ! j) \<longrightarrow> aodvv2_rcs_del R addr n es ! j = es ! j"
    by (auto simp: del rcs_clear_def aodvv2_rcs_matches_def first_idx_Some_iff nth_list_update split: option.splits)
  show "\<forall>i es'. aodvv2_rcs_add R addr n cost es = (Some i, es') \<longrightarrow> aodvv2_rcs_del R addr n es' = es"
  proof (intro allI impI)
    fix i es' assume add: "aodvv2_rcs_add R addr n cost es = (Some i, es')"
    let ?e = "rcs_fill R (addr, clamp128 n, cost) (es ! i)"
    from add have none: "aodvv2_rcs_matches R addr n es = None"
      and place: "rcs_place R (addr, clamp128 n, cost) es = (Some i, es')"
      by (auto simp: aodvv2_rcs_add_def clamp Let_def split: if_splits)
    note stored = rcs_slots.place_SomeD [OF place]
    have "rcs_match R addr (clamp128 n) ?e"
      using pfx_eq_init_prefix [OF ok clamp128_le] by (simp add: rcs_match_iff [OF ok] rcs_fill_def)
    moreover have "\<not> rcs_match R addr (clamp128 n) (es' ! j)" if "j < i" for j
      using none stored that by (simp add: aodvv2_rcs_matches_def first_idx_None_iff)
    ultimately have "aodvv2_rcs_matches R addr n es' = Some i"
      using stored by (simp add: aodvv2_rcs_matches_def first_idx_Some_iff)
    moreover have "es ! i = rcs_free_slot" using inv stored by (simp add: rcs_inv_def)
    ultimately show "aodvv2_rcs_del R addr n es' = es"
      using stored by (simp add: del rcs_clear_def) (metis list_update_id)
  qed
qed

lemma rcs_del_spec_witness:
  "aodvv2_rcs_matches riot_ref 1 64 (aodvv2_rcs_del riot_ref 1 64 aodvv2_rcs_init) = None"
  using rcs_del_spec [OF prefix_ok_ref rcs_inv_init, of 1 64 1] by simp

section \<open>The lock is released in between\<close>

text \<open>
  \<open>aodvv2_rcs_add\<close> searches under the lock, releases it, and takes it again to store. Two threads
  (the VAINA server and the shell both add clients) can interleave these two critical sections.
\<close>

datatype rcs_pc = AddSearch "ipv6_addr \<times> u8 \<times> u8" | AddStore "ipv6_addr \<times> u8 \<times> u8" | AddDone

inductive rcs_step :: "riot \<Rightarrow> rcs \<times> rcs_pc list \<Rightarrow> rcs \<times> rcs_pc list \<Rightarrow> bool" for R where
  search_new: "i < length ps \<Longrightarrow> ps ! i = AddSearch (addr, n, cost) \<Longrightarrow>
    aodvv2_rcs_matches R addr (clamp128 n) es = None \<Longrightarrow>
    rcs_step R (es, ps) (es, ps[i := AddStore (addr, clamp128 n, cost)])"
| search_known: "i < length ps \<Longrightarrow> ps ! i = AddSearch (addr, n, cost) \<Longrightarrow>
    aodvv2_rcs_matches R addr (clamp128 n) es \<noteq> None \<Longrightarrow>
    rcs_step R (es, ps) (es, ps[i := AddDone])"
| store_entry: "i < length ps \<Longrightarrow> ps ! i = AddStore a \<Longrightarrow>
    rcs_step R (es, ps) (snd (rcs_place R a es), ps[i := AddDone])"

inductive_cases rcs_stepE: "rcs_step R s t"

lemma rcs_step_alone:
  "run (rcs_step R) (es, [AddSearch (addr, n, cost)]) (snd (aodvv2_rcs_add R addr n cost es), [AddDone])"
proof (cases "aodvv2_rcs_matches R addr (clamp128 n) es")
  case None
  have "rcs_step R (es, [AddSearch (addr, n, cost)]) (es, [AddStore (addr, clamp128 n, cost)])"
    using search_new [of 0 "[AddSearch (addr, n, cost)]" addr n cost R es] None by simp
  moreover have "rcs_step R (es, [AddStore (addr, clamp128 n, cost)])
      (snd (rcs_place R (addr, clamp128 n, cost) es), [AddDone])"
    using store_entry [of 0 "[AddStore (addr, clamp128 n, cost)]" "(addr, clamp128 n, cost)" R es] by simp
  ultimately show ?thesis
    using None by (simp add: aodvv2_rcs_add_def Let_def run_two)
next
  case (Some k)
  then show ?thesis
    using search_known [of 0 "[AddSearch (addr, n, cost)]" addr n cost R es]
    by (simp add: aodvv2_rcs_add_def Let_def run_single)
qed

text \<open>
  C18. The invariant does not survive interleaved additions: two threads that add the same prefix to
  the empty set can both find it absent, and the set ends up holding the prefix twice, full, with no
  room for a second client; a deletion of the prefix then leaves a duplicate behind.
\<close>

theorem rcs_add_race:
  assumes ok: "prefix_ok R" and n: "unat n \<le> 128"
  shows "\<exists>es. run (rcs_step R) (aodvv2_rcs_init, [AddSearch (addr, n, 1), AddSearch (addr, n, 1)])
      (es, [AddDone, AddDone]) \<and> \<not> rcs_inv es \<and> (\<forall>e \<in> set es. rcs_used e) \<and>
      aodvv2_rcs_matches R addr n (aodvv2_rcs_del R addr n es) \<noteq> None"
proof -
  let ?a = "(addr, n, 1)" and ?f = rcs_free_slot
  let ?e = "rcs_fill R ?a ?f"
  have init: "aodvv2_rcs_init = [?f, ?f]"
    by (simp add: aodvv2_rcs_init_def CONFIG_AODVV2_RCS_ENTRIES_def numeral_2_eq_2)
  have c: "clamp128 n = n" using n by (rule clamp128_id)
  have none: "aodvv2_rcs_matches R addr n [?f, ?f] = None"
    by (simp add: aodvv2_rcs_matches_def rcs_match_def rcs_free_slot_def)
  have 1: "rcs_step R ([?f, ?f], [AddSearch ?a, AddSearch ?a]) ([?f, ?f], [AddStore ?a, AddSearch ?a])"
    using search_new [of 0 "[AddSearch ?a, AddSearch ?a]" addr n 1 R "[?f, ?f]"] none c by simp
  have 2: "rcs_step R ([?f, ?f], [AddStore ?a, AddSearch ?a]) ([?f, ?f], [AddStore ?a, AddStore ?a])"
    using search_new [of 1 "[AddStore ?a, AddSearch ?a]" addr n 1 R "[?f, ?f]"] none c by simp
  have 3: "rcs_step R ([?f, ?f], [AddStore ?a, AddStore ?a]) ([?e, ?f], [AddDone, AddStore ?a])"
    using store_entry [of 0 "[AddStore ?a, AddStore ?a]" ?a R "[?f, ?f]"]
    by (simp add: rcs_place_def rcs_free_slot_def)
  have 4: "rcs_step R ([?e, ?f], [AddDone, AddStore ?a]) ([?e, ?e], [AddDone, AddDone])"
    using store_entry [of 1 "[AddDone, AddStore ?a]" ?a R "[?e, ?f]"]
    by (simp add: rcs_place_def rcs_free_slot_def rcs_fill_def)
  have m: "rcs_match R addr n ?e"
    using pfx_eq_init_prefix [OF ok n] by (simp add: rcs_match_iff [OF ok] rcs_fill_def n)
  then have used: "rcs_used ?e" by (simp add: rcs_match_def)
  have del: "aodvv2_rcs_del R addr n [?e, ?e] = [?f, ?e]"
    using m by (simp add: aodvv2_rcs_del_def aodvv2_rcs_matches_def rcs_clear_def c)
  have "\<not> rcs_match R addr n ?f" by (simp add: rcs_match_def rcs_free_slot_def)
  with m have hit: "aodvv2_rcs_matches R addr n [?f, ?e] \<noteq> None"
    by (simp add: aodvv2_rcs_matches_def c)
  have "rcs_same (rcs_data ([?e, ?e] ! 0)) (rcs_data ([?e, ?e] ! 1))" by (simp add: rcs_same_def)
  with used have "\<not> rcs_inv [?e, ?e]"
    using rcs_inv_distinct [of "[?e, ?e]" 0 1] by auto
  moreover have "run (rcs_step R) (aodvv2_rcs_init, [AddSearch ?a, AddSearch ?a]) ([?e, ?e], [AddDone, AddDone])"
    unfolding init
    by (rule run_trans [OF run_two [where step = "rcs_step R", OF 1 2] run_two [where step = "rcs_step R", OF 3 4]])
  ultimately show ?thesis
    using used del hit by (intro exI [of _ "[?e, ?e]"]) simp
qed

theorem rcs_add_race_witness:
  "\<exists>es. run (rcs_step riot_ref) (aodvv2_rcs_init, [AddSearch (1, 64, 1), AddSearch (1, 64, 1)])
      (es, [AddDone, AddDone]) \<and> \<not> rcs_inv es"
  using rcs_add_race [OF prefix_ok_ref, of 64 1] by auto

end
