(* ===== verification/Buffer.thy ===== *)
theory Buffer
  imports Riot
begin

text \<open>
  Packets waiting for a route, \<open>mesh/sys/net/aodvv2/aodvv2_buffer.c\<close>. A packet is the number of its
  snip; \<open>None\<close> is the NULL pointer. The calls into GNRC are recorded in order as \<open>pkt_call\<close>s.
\<close>

record buffered_pkt =
  buf_used :: bool
  buf_pkt :: "nat option"
  buf_dst :: ipv6_addr

type_synonym buffer = "buffered_pkt list"

datatype pkt_call = Hold nat | DispatchSend nat

definition CONFIG_AODVV2_MAX_BUFFERED_PACKETS :: nat where
  "CONFIG_AODVV2_MAX_BUFFERED_PACKETS = 10"

definition buf_free_slot :: buffered_pkt where
  "buf_free_slot = \<lparr>buf_used = False, buf_pkt = None, buf_dst = 0\<rparr>"

definition pkt_del :: "buffered_pkt \<Rightarrow> buffered_pkt" where
  "pkt_del e = (if buf_used e then \<lparr>buf_used = False, buf_pkt = None, buf_dst = 0\<rparr> else e)"

definition aodvv2_buffer_init :: buffer where
  "aodvv2_buffer_init = replicate CONFIG_AODVV2_MAX_BUFFERED_PACKETS buf_free_slot"

definition buf_fill :: "ipv6_addr \<times> nat \<Rightarrow> buffered_pkt \<Rightarrow> buffered_pkt" where
  "buf_fill = (\<lambda>(dst, pkt) e. \<lparr>buf_used = True, buf_pkt = Some pkt, buf_dst = dst\<rparr>)"

definition buf_place :: "ipv6_addr \<times> nat \<Rightarrow> buffer \<Rightarrow> nat option \<times> buffer" where
  "buf_place a es =
     (case first_idx (\<lambda>e. \<not> buf_used e) es of
        None \<Rightarrow> (None, es)
      | Some i \<Rightarrow> (Some i, es[i := buf_fill a (es ! i)]))"

definition aodvv2_buffer_pkt_add :: "ipv6_addr \<Rightarrow> nat \<Rightarrow> buffer \<Rightarrow> int \<times> buffer \<times> pkt_call list" where
  "aodvv2_buffer_pkt_add dst pkt es =
     (case buf_place (dst, pkt) es of
        (Some i, es') \<Rightarrow> (0, es', [Hold pkt])
      | (None, es') \<Rightarrow> (-1, es', []))"

text \<open>
  The loop of \<open>aodvv2_buffer_dispatch\<close>. The comparison does not look at \<open>used\<close>; handing GNRC a NULL
  packet is a fault.
\<close>

fun aodvv2_buffer_dispatch :: "riot \<Rightarrow> ipv6_addr \<Rightarrow> buffer \<Rightarrow> (buffer \<times> pkt_call list) outcome" where
  "aodvv2_buffer_dispatch R targ [] = Inr ([], [])"
| "aodvv2_buffer_dispatch R targ (e # es) =
     (if ipv6_addr_equal R (buf_dst e) targ
      then bnd (deref (buf_pkt e)) (\<lambda>pkt.
           bnd (aodvv2_buffer_dispatch R targ es) (\<lambda>(es', calls).
           Inr (pkt_del e # es', DispatchSend pkt # calls)))
      else bnd (aodvv2_buffer_dispatch R targ es) (\<lambda>(es', calls). Inr (e # es', calls)))"

interpretation buf_slots: slot_table buf_used buf_place buf_fill
  by unfold_locales (simp_all add: buf_place_def buf_fill_def split: prod.splits)

text \<open>A used slot holds a packet for a specified address; an unused one is zeroed.\<close>

definition buf_slot_ok :: "buffered_pkt \<Rightarrow> bool" where
  "buf_slot_ok e \<longleftrightarrow> (if buf_used e then buf_pkt e \<noteq> None \<and> buf_dst e \<noteq> 0 else e = buf_free_slot)"

definition buf_inv :: "buffer \<Rightarrow> bool" where
  "buf_inv es \<longleftrightarrow> length es = CONFIG_AODVV2_MAX_BUFFERED_PACKETS \<and> (\<forall>e \<in> set es. buf_slot_ok e)"

text \<open>The packets waiting for \<open>targ\<close>, in slot order.\<close>

definition waiting :: "ipv6_addr \<Rightarrow> buffer \<Rightarrow> nat list" where
  "waiting targ es = map (\<lambda>e. the (buf_pkt e)) (filter (\<lambda>e. buf_used e \<and> buf_dst e = targ) es)"

lemma buf_inv_init: "buf_inv aodvv2_buffer_init"
  by (simp add: buf_inv_def aodvv2_buffer_init_def buf_slot_ok_def buf_free_slot_def)

lemma buf_inv_add: "buf_inv es \<Longrightarrow> dst \<noteq> 0 \<Longrightarrow> buf_inv (snd (buf_place (dst, pkt) es))"
  using set_update_subset_insert [of es _ "buf_fill (dst, pkt) _"]
  by (fastforce simp: buf_inv_def buf_place_def buf_fill_def buf_slot_ok_def split: option.splits)

lemma buf_slot_ok_del: "buf_slot_ok e \<Longrightarrow> buf_slot_ok (pkt_del e)"
  by (cases "buf_used e") (simp_all add: buf_slot_ok_def pkt_del_def buf_free_slot_def)

lemma dispatch_spec:
  assumes "addr_ok R" and "targ \<noteq> 0" and "\<forall>e \<in> set es. buf_slot_ok e"
  shows "aodvv2_buffer_dispatch R targ es =
    Inr (map (\<lambda>e. if buf_dst e = targ then pkt_del e else e) es, map DispatchSend (waiting targ es))"
  using assms(3)
proof (induction es)
  case (Cons e es)
  then have IH: "aodvv2_buffer_dispatch R targ es =
      Inr (map (\<lambda>e. if buf_dst e = targ then pkt_del e else e) es, map DispatchSend (waiting targ es))"
    by simp
  from Cons.prems have e: "buf_slot_ok e" by simp
  show ?case
  proof (cases "buf_dst e = targ")
    case True
    with e assms(2) have "buf_used e" and "buf_pkt e \<noteq> None"
      by (auto simp: buf_slot_ok_def buf_free_slot_def split: if_splits)
    with True IH assms(1) show ?thesis by (auto simp: waiting_def)
  next
    case False
    with IH assms(1) show ?thesis by (simp add: waiting_def)
  qed
qed (simp add: waiting_def)

lemma buffer_dispatch_lemma:
  assumes "addr_ok R" and "buf_inv es" and "targ \<noteq> 0"
  shows "\<exists>es'. aodvv2_buffer_dispatch R targ es = Inr (es', map DispatchSend (waiting targ es)) \<and>
    buf_inv es' \<and> waiting targ es' = [] \<and> (\<forall>d. d \<noteq> 0 \<longrightarrow> d \<noteq> targ \<longrightarrow> waiting d es' = waiting d es)"
proof (intro exI conjI)
  let ?es' = "map (\<lambda>e. if buf_dst e = targ then pkt_del e else e) es"
  show "aodvv2_buffer_dispatch R targ es = Inr (?es', map DispatchSend (waiting targ es))"
    using assms by (intro dispatch_spec) (simp_all add: buf_inv_def)
  show "buf_inv ?es'"
    using assms(2) by (auto simp: buf_inv_def buf_slot_ok_del)
  show "waiting targ ?es' = []"
    by (auto simp: waiting_def filter_empty_conv pkt_del_def)
  show "\<forall>d. d \<noteq> 0 \<longrightarrow> d \<noteq> targ \<longrightarrow> waiting d ?es' = waiting d es"
  proof (intro allI impI)
    fix d assume "d \<noteq> 0" "d \<noteq> targ"
    then show "waiting d ?es' = waiting d es"
      by (induction es) (auto simp: waiting_def pkt_del_def)
  qed
qed

text \<open>
  C19. Dispatching to a specified address never touches a NULL packet, hands exactly the packets
  waiting for it to the network stack, in slot order, empties their slots, leaves the packets of
  every other destination where they are, and keeps the buffer's invariant.
\<close>

theorem buffer_dispatch_exact:
  assumes "addr_ok R" and "buf_inv es" and "targ \<noteq> 0"
  shows "\<exists>es'. aodvv2_buffer_dispatch R targ es = Inr (es', map DispatchSend (waiting targ es)) \<and>
    buf_inv es' \<and> waiting targ es' = [] \<and> (\<forall>d. d \<noteq> 0 \<longrightarrow> d \<noteq> targ \<longrightarrow> waiting d es' = waiting d es)"
  using assms by (rule buffer_dispatch_lemma)

theorem buffer_dispatch_exact_witness:
  "\<exists>es'. aodvv2_buffer_dispatch riot_ref 1 aodvv2_buffer_init = Inr (es', map DispatchSend (waiting 1 aodvv2_buffer_init))"
  using buffer_dispatch_exact [OF addr_ok_ref buf_inv_init, of 1] by auto

text \<open>
  Buffering is lossless while there is room: the packet is held once and, when its route is
  found, is dispatched together with those already waiting for the destination; with all ten slots
  used the packet is refused, nothing is held and nothing changes.
\<close>

lemma buffer_add_then_dispatch:
  assumes "addr_ok R" and "buf_inv es" and "dst \<noteq> 0"
  shows "if \<forall>e \<in> set es. buf_used e
    then aodvv2_buffer_pkt_add dst pkt es = (-1, es, [])
    else \<exists>es' es''. aodvv2_buffer_pkt_add dst pkt es = (0, es', [Hold pkt]) \<and> buf_inv es' \<and>
      aodvv2_buffer_dispatch R dst es' = Inr (es'', map DispatchSend (waiting dst es')) \<and>
      pkt \<in> set (waiting dst es') \<and> length (waiting dst es') = Suc (length (waiting dst es)) \<and>
      waiting dst es'' = []"
proof (cases "\<forall>e \<in> set es. buf_used e")
  case True
  then have "first_idx (\<lambda>e. \<not> buf_used e) es = None" by (simp add: first_idx_None_iff)
  with True show ?thesis by (simp add: aodvv2_buffer_pkt_add_def buf_slots.place_full)
next
  case False
  then have "first_idx (\<lambda>e. \<not> buf_used e) es \<noteq> None" by (simp add: first_idx_None_iff)
  then obtain i where i: "first_idx (\<lambda>e. \<not> buf_used e) es = Some i" by blast
  let ?es' = "es[i := buf_fill (dst, pkt) (es ! i)]"
  from i have len: "i < length es" and free: "\<not> buf_used (es ! i)" by (simp_all add: first_idx_Some_iff)
  have place: "buf_place (dst, pkt) es = (Some i, ?es')" using i by (rule buf_slots.place_free)
  have inv: "buf_inv ?es'" using buf_inv_add [OF assms(2,3), of pkt] place by simp
  have split: "es = take i es @ es ! i # drop (Suc i) es" using len by (rule id_take_nth_drop)
  have upd: "?es' = take i es @ buf_fill (dst, pkt) (es ! i) # drop (Suc i) es"
    using len by (rule upd_conv_take_nth_drop)
  have "waiting dst ?es' = waiting dst (take i es) @ pkt # waiting dst (drop (Suc i) es)"
    unfolding upd by (simp add: waiting_def buf_fill_def)
  moreover have "waiting dst es = waiting dst (take i es) @ waiting dst (drop (Suc i) es)"
    using free by (subst split) (simp add: waiting_def)
  ultimately have "pkt \<in> set (waiting dst ?es')" and "length (waiting dst ?es') = Suc (length (waiting dst es))"
    by simp_all
  with False place inv buffer_dispatch_lemma [OF assms(1) inv assms(3)] show ?thesis
    by (auto simp: aodvv2_buffer_pkt_add_def)
qed

lemma buffer_add_then_dispatch_witness:
  "\<exists>es'. aodvv2_buffer_pkt_add 1 7 aodvv2_buffer_init = (0, es', [Hold 7]) \<and> 7 \<in> set (waiting 1 es')"
  using buffer_add_then_dispatch [OF addr_ok_ref buf_inv_init, of 1 7]
  by (auto simp: aodvv2_buffer_init_def buf_free_slot_def CONFIG_AODVV2_MAX_BUFFERED_PACKETS_def)

end
