(* ===== verification/Lrs.thy ===== *)
theory Lrs
  imports Message
begin

text \<open>
  The Local Route Set, \<open>mesh/sys/net/aodvv2/aodvv2_lrs.c\<close>. A pointer into the table is a slot index.
  The file's static variables are the fields of \<open>lrs\<close>; each call of \<open>xtimer_now_timex\<close> reads the
  clock of the \<open>world\<close>.
\<close>

section \<open>State\<close>

definition ROUTE_STATE_ACTIVE :: u8 where "ROUTE_STATE_ACTIVE = 0"
definition ROUTE_STATE_IDLE :: u8 where "ROUTE_STATE_IDLE = 1"
definition ROUTE_STATE_EXPIRED :: u8 where "ROUTE_STATE_EXPIRED = 2"
definition ROUTE_STATE_BROKEN :: u8 where "ROUTE_STATE_BROKEN = 3"
definition ROUTE_STATE_TIMED :: u8 where "ROUTE_STATE_TIMED = 4"

lemmas route_states =
  ROUTE_STATE_ACTIVE_def ROUTE_STATE_IDLE_def ROUTE_STATE_EXPIRED_def ROUTE_STATE_BROKEN_def
  ROUTE_STATE_TIMED_def

record local_route =
  rt_addr :: ipv6_addr
  rt_pfx_len :: u8
  rt_seqnum :: u16
  rt_next_hop :: ipv6_addr
  rt_last_used :: timex
  rt_expiration_time :: timex
  rt_metric_type :: routing_metric
  rt_metric :: u8
  rt_state :: u8

record lrs_entry =
  route :: local_route
  lrs_used :: bool

record lrs =
  routing_table :: "lrs_entry list"
  null_time :: timex
  lrs_max_seqnum_lifetime :: timex
  active_interval :: timex
  max_idletime :: timex
  validity_t :: timex
  lrs_now :: timex

definition CONFIG_AODVV2_MAX_ROUTING_ENTRIES :: nat where "CONFIG_AODVV2_MAX_ROUTING_ENTRIES = 16"
definition CONFIG_AODVV2_ACTIVE_INTERVAL :: u32 where "CONFIG_AODVV2_ACTIVE_INTERVAL = 5"
definition CONFIG_AODVV2_MAX_IDLETIME :: u32 where "CONFIG_AODVV2_MAX_IDLETIME = 200"
definition CONFIG_AODVV2_MAX_SEQNUM_LIFETIME :: u32 where "CONFIG_AODVV2_MAX_SEQNUM_LIFETIME = 300"

definition route_zero :: local_route where
  "route_zero = \<lparr>rt_addr = 0, rt_pfx_len = 0, rt_seqnum = 0, rt_next_hop = 0, rt_last_used = timex_zero,
     rt_expiration_time = timex_zero, rt_metric_type = 0, rt_metric = 0, rt_state = 0\<rparr>"

definition lrs_free_slot :: lrs_entry where
  "lrs_free_slot = \<lparr>route = route_zero, lrs_used = False\<rparr>"

definition aodvv2_lrs_init :: "riot \<Rightarrow> lrs \<Rightarrow> lrs" where
  "aodvv2_lrs_init R s = s\<lparr>
     null_time := timex_set R 0 0,
     lrs_max_seqnum_lifetime := timex_set R CONFIG_AODVV2_MAX_SEQNUM_LIFETIME 0,
     active_interval := timex_set R CONFIG_AODVV2_ACTIVE_INTERVAL 0,
     max_idletime := timex_set R CONFIG_AODVV2_MAX_IDLETIME 0,
     validity_t := timex_set R (CONFIG_AODVV2_ACTIVE_INTERVAL + CONFIG_AODVV2_MAX_IDLETIME) 0,
     routing_table := replicate CONFIG_AODVV2_MAX_ROUTING_ENTRIES lrs_free_slot\<rparr>"

section \<open>Ageing\<close>

text \<open>
  \<open>_reset_entry_if_stale\<close> on one entry, at the time \<open>now\<close> it read. \<open>state\<close> and \<open>last_used\<close> are the
  values before the call, as in the code; expunging clears the route and leaves \<open>used\<close> as it was.
\<close>

definition lrs_to_idle :: "riot \<Rightarrow> lrs \<Rightarrow> timex \<Rightarrow> local_route \<Rightarrow> local_route \<Rightarrow> local_route" where
  "lrs_to_idle R s now old r =
     (if rt_state old = ROUTE_STATE_ACTIVE \<and>
         timex_cmp R (timex_sub R now (active_interval s)) (rt_last_used old) = 1
      then r\<lparr>rt_state := ROUTE_STATE_IDLE, rt_last_used := now\<rparr> else r)"

definition lrs_to_expired :: "riot \<Rightarrow> timex \<Rightarrow> local_route \<Rightarrow> local_route \<Rightarrow> local_route" where
  "lrs_to_expired R now old r =
     (if rt_state old = ROUTE_STATE_IDLE \<and> timex_cmp R (rt_expiration_time old) now < 1
      then r\<lparr>rt_state := ROUTE_STATE_EXPIRED, rt_last_used := now\<rparr> else r)"

definition lrs_age :: "riot \<Rightarrow> lrs \<Rightarrow> timex \<Rightarrow> local_route \<Rightarrow> local_route" where
  "lrs_age R s now r =
     (if timex_cmp R (rt_expiration_time r) (null_time s) = 0 then r
      else if timex_cmp R now (active_interval s) < 0 then r
      else let r1 = lrs_to_idle R s now r r in
        if timex_cmp R now (rt_expiration_time r) < 0 then r1
        else let r2 = lrs_to_expired R now r r1 in
          if timex_cmp R (timex_sub R now (rt_last_used r)) (lrs_max_seqnum_lifetime s) \<ge> 0
          then route_zero else r2)"

definition lrs_reset_entry_if_stale :: "riot \<Rightarrow> lrs \<Rightarrow> world \<Rightarrow> lrs_entry \<Rightarrow> lrs_entry \<times> timex \<times> world" where
  "lrs_reset_entry_if_stale R s w e =
     (let (now, w') = xtimer_now_timex w in (e\<lparr>route := lrs_age R s now (route e)\<rparr>, now, w'))"

section \<open>Lookup, insertion, deletion\<close>

text \<open>
  The scan of \<open>aodvv2_lrs_get_entry\<close> over the slots from index \<open>i\<close> on: each slot is aged, then
  compared (the code does not look at \<open>used\<close>). Returns the index found, the aged slots, the last
  clock reading and the world.
\<close>

fun lrs_scan :: "riot \<Rightarrow> lrs \<Rightarrow> (lrs_entry \<Rightarrow> bool) \<Rightarrow> timex \<Rightarrow> world \<Rightarrow> lrs_entry list \<Rightarrow>
    nat option \<times> lrs_entry list \<times> timex \<times> world" where
  "lrs_scan R s hit now w [] = (None, [], now, w)"
| "lrs_scan R s hit now w (e # es) =
     (let (e', now', w') = lrs_reset_entry_if_stale R s w e in
      if hit e' then (Some 0, e' # es, now', w')
      else let (r, es', now'', w'') = lrs_scan R s hit now' w' es in (map_option Suc r, e' # es', now'', w''))"

definition route_is :: "riot \<Rightarrow> ipv6_addr \<Rightarrow> routing_metric \<Rightarrow> lrs_entry \<Rightarrow> bool" where
  "route_is R addr mt e \<longleftrightarrow> ipv6_addr_equal R (rt_addr (route e)) addr \<and> rt_metric_type (route e) = mt"

definition aodvv2_lrs_get_entry :: "riot \<Rightarrow> ipv6_addr \<Rightarrow> routing_metric \<Rightarrow> lrs \<Rightarrow> world \<Rightarrow> nat option \<times> lrs \<times> world" where
  "aodvv2_lrs_get_entry R addr mt s w =
     (let (r, es, now, w') = lrs_scan R s (route_is R addr mt) (lrs_now s) w (routing_table s)
      in (r, s\<lparr>routing_table := es, lrs_now := now\<rparr>, w'))"

definition aodvv2_lrs_get_next_hop ::
    "riot \<Rightarrow> ipv6_addr \<Rightarrow> routing_metric \<Rightarrow> lrs \<Rightarrow> world \<Rightarrow> ipv6_addr option \<times> lrs \<times> world" where
  "aodvv2_lrs_get_next_hop R dest mt s w =
     (let (r, s', w') = aodvv2_lrs_get_entry R dest mt s w
      in (map_option (\<lambda>i. rt_next_hop (route (routing_table s' ! i))) r, s', w'))"

definition lrs_place :: "local_route \<Rightarrow> lrs_entry list \<Rightarrow> nat option \<times> lrs_entry list" where
  "lrs_place rt es =
     (case first_idx (\<lambda>e. \<not> lrs_used e) es of
        None \<Rightarrow> (None, es)
      | Some i \<Rightarrow> (Some i, es[i := \<lparr>route = rt, lrs_used = True\<rparr>]))"

definition aodvv2_lrs_add_entry :: "riot \<Rightarrow> local_route \<Rightarrow> lrs \<Rightarrow> world \<Rightarrow> lrs \<times> world" where
  "aodvv2_lrs_add_entry R rt s w =
     (let (r, s', w') = aodvv2_lrs_get_entry R (rt_addr rt) (rt_metric_type rt) s w in
      case r of Some _ \<Rightarrow> (s', w')
      | None \<Rightarrow> (s'\<lparr>routing_table := snd (lrs_place rt (routing_table s'))\<rparr>, w'))"

definition aodvv2_lrs_delete_entry :: "riot \<Rightarrow> ipv6_addr \<Rightarrow> routing_metric \<Rightarrow> lrs \<Rightarrow> world \<Rightarrow> lrs \<times> world" where
  "aodvv2_lrs_delete_entry R addr mt s w =
     (let (r, es, now, w') = lrs_scan R s (\<lambda>e. lrs_used e \<and> route_is R addr mt e) (lrs_now s) w (routing_table s)
      in (s\<lparr>routing_table := (case r of None \<Rightarrow> es | Some i \<Rightarrow> es[i := lrs_free_slot]), lrs_now := now\<rparr>, w'))"

section \<open>Judging and filling routes\<close>

definition aodvv2_lrs_offers_improvement :: "local_route \<Rightarrow> node_data \<Rightarrow> bool" where
  "aodvv2_lrs_offers_improvement rt nd =
     (if aodvv2_seqnum_cmp (nd_seqnum nd) (rt_seqnum rt) < 0 then False
      else if nd_metric nd \<ge> rt_metric rt \<and> \<not> (rt_state rt \<noteq> ROUTE_STATE_BROKEN) then False
      else if \<not> (rt_state rt \<noteq> ROUTE_STATE_BROKEN) then False
      else True)"

definition aodvv2_lrs_fill_routing_entry_rreq :: "riot \<Rightarrow> lrs \<Rightarrow> aodvv2_message \<Rightarrow> local_route \<Rightarrow> u8 \<Rightarrow> local_route" where
  "aodvv2_lrs_fill_routing_entry_rreq R s msg rt link_cost = rt\<lparr>
     rt_addr := nd_addr (orig_node msg),
     rt_pfx_len := nd_pfx_len (orig_node msg),
     rt_seqnum := nd_seqnum (orig_node msg),
     rt_next_hop := sender msg,
     rt_last_used := timestamp msg,
     rt_expiration_time := timex_add R (timestamp msg) (validity_t s),
     rt_metric_type := metric_type msg,
     rt_metric := nd_metric (orig_node msg) + link_cost,
     rt_state := ROUTE_STATE_ACTIVE\<rparr>"

definition aodvv2_lrs_fill_routing_entry_rrep :: "riot \<Rightarrow> lrs \<Rightarrow> aodvv2_message \<Rightarrow> local_route \<Rightarrow> u8 \<Rightarrow> local_route" where
  "aodvv2_lrs_fill_routing_entry_rrep R s msg rt link_cost = rt\<lparr>
     rt_addr := nd_addr (targ_node msg),
     rt_pfx_len := nd_pfx_len (targ_node msg),
     rt_seqnum := nd_seqnum (targ_node msg),
     rt_next_hop := sender msg,
     rt_last_used := timestamp msg,
     rt_expiration_time := timex_add R (timestamp msg) (validity_t s),
     rt_metric_type := metric_type msg,
     rt_metric := nd_metric (targ_node msg) + link_cost,
     rt_state := ROUTE_STATE_ACTIVE\<rparr>"

interpretation lrs_slots: slot_table lrs_used lrs_place "\<lambda>rt e. \<lparr>route = rt, lrs_used = True\<rparr>"
  by unfold_locales (simp_all add: lrs_place_def)

section \<open>What a scan does\<close>

text \<open>Slot \<open>j\<close> as the scan leaves it: aged at the \<open>j\<close>-th clock reading.\<close>

definition aged :: "riot \<Rightarrow> lrs \<Rightarrow> world \<Rightarrow> lrs_entry list \<Rightarrow> nat \<Rightarrow> lrs_entry" where
  "aged R s w es j = (es ! j)\<lparr>route := lrs_age R s (clk w (tick w + j)) (route (es ! j))\<rparr>"

lemma reset_entry_simp:
  "lrs_reset_entry_if_stale R s w e =
     (e\<lparr>route := lrs_age R s (clk w (tick w)) (route e)\<rparr>, clk w (tick w), w\<lparr>tick := Suc (tick w)\<rparr>)"
  by (simp add: lrs_reset_entry_if_stale_def xtimer_now_timex_def)

lemma aged_Cons [simp]:
  "aged R s w (e # es) 0 = e\<lparr>route := lrs_age R s (clk w (tick w)) (route e)\<rparr>"
  "aged R s w (e # es) (Suc j) = aged R s (w\<lparr>tick := Suc (tick w)\<rparr>) es j"
  by (simp_all add: aged_def)

lemma lrs_scan_None:
  "lrs_scan R s hit now w es = (None, es', now', w') \<Longrightarrow>
     length es' = length es \<and> (\<forall>j < length es. es' ! j = aged R s w es j \<and> \<not> hit (es' ! j))"
proof (induction es arbitrary: w now es')
  case (Cons e es)
  let ?e = "e\<lparr>route := lrs_age R s (clk w (tick w)) (route e)\<rparr>"
  from Cons.prems obtain es'' where es': "es' = ?e # es''" and miss: "\<not> hit ?e"
    and rec: "lrs_scan R s hit (clk w (tick w)) (w\<lparr>tick := Suc (tick w)\<rparr>) es = (None, es'', now', w')"
    by (auto simp: reset_entry_simp split: if_splits prod.splits)
  from Cons.IH [OF rec] miss show ?case
    by (auto simp: es' less_Suc_eq_0_disj)
qed simp

lemma lrs_scan_Some:
  "lrs_scan R s hit now w es = (Some i, es', now', w') \<Longrightarrow>
     length es' = length es \<and> i < length es \<and> hit (es' ! i) \<and>
     (\<forall>j < length es. es' ! j = (if j \<le> i then aged R s w es j else es ! j)) \<and> (\<forall>j < i. \<not> hit (es' ! j))"
proof (induction es arbitrary: w now es' i)
  case (Cons e es)
  then show ?case
    by (fastforce simp: reset_entry_simp less_Suc_eq_0_disj split: if_splits prod.splits)
qed simp

lemma aged_used [simp]: "lrs_used (aged R s w es j) = lrs_used (es ! j)"
  by (simp add: aged_def)

text \<open>Ageing keeps a route's key and hop data, or clears the whole route.\<close>

lemma lrs_age_cases:
  obtains "lrs_age R s now r = route_zero"
  | st lu where "lrs_age R s now r = r\<lparr>rt_state := st, rt_last_used := lu\<rparr>"
proof -
  have "lrs_age R s now r = route_zero \<or> (\<exists>st lu. lrs_age R s now r = r\<lparr>rt_state := st, rt_last_used := lu\<rparr>)"
    by (cases r) (auto simp: lrs_age_def lrs_to_idle_def lrs_to_expired_def Let_def)
  then show ?thesis using that by blast
qed

lemma lrs_age_zero [simp]: "timex_ok R \<Longrightarrow> null_time s = timex_zero \<Longrightarrow> lrs_age R s now route_zero = route_zero"
  using timex_cmp_usec [of R timex_zero timex_zero] by (simp add: lrs_age_def route_zero_def)

section \<open>Invariant\<close>

definition lrs_cfg :: "lrs \<Rightarrow> bool" where
  "lrs_cfg s \<longleftrightarrow> null_time s = timex_zero \<and>
     lrs_max_seqnum_lifetime s = \<lparr>seconds = 300, microseconds = 0\<rparr> \<and>
     active_interval s = \<lparr>seconds = 5, microseconds = 0\<rparr> \<and>
     max_idletime s = \<lparr>seconds = 200, microseconds = 0\<rparr> \<and>
     validity_t s = \<lparr>seconds = 205, microseconds = 0\<rparr>"

text \<open>Free slots are zeroed, and no two slots hold a route to the same destination and metric type.\<close>

definition table_inv :: "lrs_entry list \<Rightarrow> bool" where
  "table_inv es \<longleftrightarrow> length es = CONFIG_AODVV2_MAX_ROUTING_ENTRIES \<and>
     (\<forall>i < length es. \<not> lrs_used (es ! i) \<longrightarrow> es ! i = lrs_free_slot) \<and>
     (\<forall>i < length es. \<forall>j < length es. route (es ! i) \<noteq> route_zero \<longrightarrow>
        rt_addr (route (es ! i)) = rt_addr (route (es ! j)) \<longrightarrow>
        rt_metric_type (route (es ! i)) = rt_metric_type (route (es ! j)) \<longrightarrow> route (es ! j) \<noteq> route_zero \<longrightarrow> i = j)"

definition lrs_inv :: "lrs \<Rightarrow> bool" where
  "lrs_inv s \<longleftrightarrow> lrs_cfg s \<and> table_inv (routing_table s)"

lemma lrs_cfg_table [simp]: "lrs_cfg (s\<lparr>routing_table := es\<rparr>) = lrs_cfg s" "lrs_cfg (s\<lparr>lrs_now := t\<rparr>) = lrs_cfg s"
  by (simp_all add: lrs_cfg_def)

lemma lrs_cfg_null: "lrs_cfg s \<Longrightarrow> null_time s = timex_zero"
  by (simp add: lrs_cfg_def)

lemma lrs_inv_init: "timex_ok R \<Longrightarrow> lrs_inv (aodvv2_lrs_init R s)"
  by (simp add: lrs_inv_def lrs_cfg_def aodvv2_lrs_init_def timex_set_sec timex_zero_def table_inv_def
      CONFIG_AODVV2_MAX_SEQNUM_LIFETIME_def CONFIG_AODVV2_ACTIVE_INTERVAL_def CONFIG_AODVV2_MAX_IDLETIME_def
      lrs_free_slot_def)

text \<open>Replacing slots by their aged versions keeps the table's invariant.\<close>

lemma table_inv_aged:
  assumes inv: "table_inv es" and ok: "timex_ok R" "lrs_cfg s" and len: "length es' = length es"
    and aged: "\<And>j. j < length es \<Longrightarrow> es' ! j = aged R s w es j \<or> es' ! j = es ! j"
  shows "table_inv es'"
proof -
  have free: "es' ! j = lrs_free_slot" if "j < length es" "\<not> lrs_used (es' ! j)" for j
  proof -
    from aged [OF that(1)] that have "es ! j = lrs_free_slot"
      using inv by (auto simp: table_inv_def)
    with aged [OF that(1)] ok show ?thesis by (auto simp: aged_def lrs_free_slot_def lrs_cfg_null)
  qed
  have key: "route (es ! j) \<noteq> route_zero \<and> rt_addr (route (es' ! j)) = rt_addr (route (es ! j)) \<and>
      rt_metric_type (route (es' ! j)) = rt_metric_type (route (es ! j))"
    if "j < length es" "route (es' ! j) \<noteq> route_zero" for j
    using aged [OF that(1)]
  proof
    assume eq: "es' ! j = aged R s w es j"
    with that have "route (es ! j) \<noteq> route_zero" using ok by (auto simp: aged_def lrs_cfg_null)
    with eq that show ?thesis
      by (cases rule: lrs_age_cases [of R s "clk w (tick w + j)" "route (es ! j)"]) (auto simp: aged_def)
  qed (use that in simp)
  show ?thesis
    unfolding table_inv_def len
  proof (intro conjI allI impI)
    show "length es = CONFIG_AODVV2_MAX_ROUTING_ENTRIES" using inv by (simp add: table_inv_def)
  next
    fix i assume "i < length es" "\<not> lrs_used (es' ! i)"
    then show "es' ! i = lrs_free_slot" by (rule free)
  next
    fix i j
    assume "i < length es" "j < length es" "route (es' ! i) \<noteq> route_zero"
      "rt_addr (route (es' ! i)) = rt_addr (route (es' ! j))"
      "rt_metric_type (route (es' ! i)) = rt_metric_type (route (es' ! j))" "route (es' ! j) \<noteq> route_zero"
    with key [of i] key [of j] inv show "i = j" by (simp add: table_inv_def)
  qed
qed

lemma table_inv_update:
  assumes inv: "table_inv es" and i: "i < length es" and e: "lrs_used e \<or> e = lrs_free_slot"
    and new: "\<And>j. j < length es \<Longrightarrow> j \<noteq> i \<Longrightarrow> route e \<noteq> route_zero \<Longrightarrow>
      \<not> (rt_addr (route (es ! j)) = rt_addr (route e) \<and> rt_metric_type (route (es ! j)) = rt_metric_type (route e))"
  shows "table_inv (es[i := e])"
  unfolding table_inv_def
proof (intro conjI allI impI)
  show "length (es[i := e]) = CONFIG_AODVV2_MAX_ROUTING_ENTRIES" using inv by (simp add: table_inv_def)
next
  fix j assume "j < length (es[i := e])" "\<not> lrs_used (es[i := e] ! j)"
  then show "es[i := e] ! j = lrs_free_slot"
    using inv e by (cases "j = i") (auto simp: table_inv_def)
next
  fix j k
  assume a: "j < length (es[i := e])" "k < length (es[i := e])" "route (es[i := e] ! j) \<noteq> route_zero"
    "rt_addr (route (es[i := e] ! j)) = rt_addr (route (es[i := e] ! k))"
    "rt_metric_type (route (es[i := e] ! j)) = rt_metric_type (route (es[i := e] ! k))"
    "route (es[i := e] ! k) \<noteq> route_zero"
  consider "j = i" "k = i" | "j = i" "k \<noteq> i" | "j \<noteq> i" "k = i" | "j \<noteq> i" "k \<noteq> i" by blast
  then show "j = k"
  proof cases
    case 2
    with a i new [of k] show ?thesis by simp
  next
    case 3
    with a i new [of j] show ?thesis by simp
  next
    case 4
    with a inv show ?thesis by (simp add: table_inv_def)
  qed simp
qed

lemma lrs_inv_scan:
  assumes "lrs_inv s" and "timex_ok R" and "lrs_scan R s hit now w (routing_table s) = (r, es, now', w')"
  shows "table_inv es"
proof (cases r)
  case None
  with assms lrs_scan_None [of R s hit now w "routing_table s"] show ?thesis
    by (intro table_inv_aged [of "routing_table s" R s es w]) (auto simp: lrs_inv_def)
next
  case (Some i)
  with assms lrs_scan_Some [of R s hit now w "routing_table s" i es now' w'] show ?thesis
    by (intro table_inv_aged [of "routing_table s" R s es w]) (auto simp: lrs_inv_def)
qed

lemma get_entry_inv:
  assumes "lrs_inv s" and "timex_ok R" and "aodvv2_lrs_get_entry R addr mt s w = (r, s', w')"
  shows "lrs_inv s'"
  using assms(1,3) lrs_inv_scan [OF assms(1,2)]
  by (auto simp: aodvv2_lrs_get_entry_def lrs_inv_def split: prod.splits)

lemma get_entry_Some:
  assumes "aodvv2_lrs_get_entry R addr mt s w = (Some i, s', w')"
  shows "i < length (routing_table s')" and "length (routing_table s') = length (routing_table s)"
    and "route_is R addr mt (routing_table s' ! i)"
  using assms by (auto simp: aodvv2_lrs_get_entry_def split: prod.splits dest: lrs_scan_Some)

lemma get_entry_None:
  assumes "aodvv2_lrs_get_entry R addr mt s w = (None, s', w')"
  shows "length (routing_table s') = length (routing_table s)"
    and "j < length (routing_table s) \<Longrightarrow> routing_table s' ! j = aged R s w (routing_table s) j"
    and "j < length (routing_table s) \<Longrightarrow> \<not> route_is R addr mt (routing_table s' ! j)"
  using assms by (auto simp: aodvv2_lrs_get_entry_def split: prod.splits dest!: lrs_scan_None)

lemma get_entry_used:
  assumes "aodvv2_lrs_get_entry R addr mt s w = (r, s', w')"
  shows "map lrs_used (routing_table s') = map lrs_used (routing_table s)"
proof (cases r)
  case None
  with assms get_entry_None [of R addr mt s w s' w'] show ?thesis by (intro nth_equalityI) auto
next
  case (Some i)
  with assms show ?thesis
    by (auto simp: aodvv2_lrs_get_entry_def intro!: nth_equalityI split: prod.splits if_splits dest!: lrs_scan_Some)
qed

lemma lrs_inv_add:
  assumes inv: "lrs_inv s" and ok: "addr_ok R" "timex_ok R"
  shows "lrs_inv (fst (aodvv2_lrs_add_entry R rt s w))"
proof -
  obtain r s' w' where get: "aodvv2_lrs_get_entry R (rt_addr rt) (rt_metric_type rt) s w = (r, s', w')"
    by (cases "aodvv2_lrs_get_entry R (rt_addr rt) (rt_metric_type rt) s w")
  have inv': "lrs_inv s'" using get_entry_inv [OF inv ok(2) get] .
  show ?thesis
  proof (cases "r = None \<and> first_idx (\<lambda>e. \<not> lrs_used e) (routing_table s') \<noteq> None")
    case True
    then obtain i where r: "r = None" and i: "first_idx (\<lambda>e. \<not> lrs_used e) (routing_table s') = Some i" by auto
    have len: "i < length (routing_table s')" using i by (simp add: first_idx_Some_iff)
    have new: "\<not> (rt_addr (route (routing_table s' ! j)) = rt_addr rt \<and>
        rt_metric_type (route (routing_table s' ! j)) = rt_metric_type rt)" if "j < length (routing_table s')" for j
      using get_entry_None(1,3) [OF get [unfolded r]] that ok(1) by (auto simp: route_is_def)
    have "table_inv ((routing_table s')[i := \<lparr>route = rt, lrs_used = True\<rparr>])"
      using inv' len new by (intro table_inv_update) (auto simp: lrs_inv_def)
    with inv' get r i show ?thesis
      by (simp add: aodvv2_lrs_add_entry_def lrs_place_def lrs_inv_def)
  next
    case False
    with inv' get show ?thesis
      by (cases r) (auto simp: aodvv2_lrs_add_entry_def lrs_place_def lrs_inv_def)
  qed
qed

lemma lrs_inv_delete:
  assumes inv: "lrs_inv s" and ok: "timex_ok R"
  shows "lrs_inv (fst (aodvv2_lrs_delete_entry R addr mt s w))"
proof -
  obtain r es now w' where scan:
    "lrs_scan R s (\<lambda>e. lrs_used e \<and> route_is R addr mt e) (lrs_now s) w (routing_table s) = (r, es, now, w')"
    by (cases "lrs_scan R s (\<lambda>e. lrs_used e \<and> route_is R addr mt e) (lrs_now s) w (routing_table s)")
  have es: "table_inv es" by (rule lrs_inv_scan [OF inv ok scan])
  moreover have "table_inv (es[i := lrs_free_slot])" if "i < length es" for i
    by (rule table_inv_update [OF es that]) (simp_all add: lrs_free_slot_def)
  moreover have "i < length es" if "r = Some i" for i
    using lrs_scan_Some [OF scan [unfolded that]] by simp
  ultimately show ?thesis
    using inv scan by (cases r) (simp_all add: aodvv2_lrs_delete_entry_def lrs_inv_def)
qed

text \<open>The times a route holds are normalised: fewer than a million microseconds.\<close>

definition route_times :: "local_route \<Rightarrow> bool" where
  "route_times rt \<longleftrightarrow> normal (rt_last_used rt) \<and> normal (rt_expiration_time rt)"

definition lrs_times :: "lrs \<Rightarrow> bool" where
  "lrs_times s \<longleftrightarrow> (\<forall>e \<in> set (routing_table s). route_times (route e))"

lemma route_times_zero [simp]: "route_times route_zero" "route_times (route lrs_free_slot)"
  by (simp_all add: route_times_def route_zero_def lrs_free_slot_def)

lemma age_times: "normal now \<Longrightarrow> route_times r \<Longrightarrow> route_times (lrs_age R s now r)"
  by (simp add: lrs_age_def lrs_to_idle_def lrs_to_expired_def Let_def) (simp add: route_times_def)

lemma scan_times:
  "lrs_scan R s hit now w es = (r, es', now', w') \<Longrightarrow> \<forall>n. normal (clk w n) \<Longrightarrow> \<forall>e \<in> set es. route_times (route e) \<Longrightarrow>
     \<forall>e \<in> set es'. route_times (route e)"
proof (induction es arbitrary: now w es' r now' w')
  case (Cons e es)
  obtain r1 es1 now1 w1 where rest: "lrs_scan R s hit (clk w (tick w)) (w\<lparr>tick := Suc (tick w)\<rparr>) es = (r1, es1, now1, w1)"
    by (metis prod_cases4)
  have "\<forall>e \<in> set es1. route_times (route e)" using Cons.IH [OF rest] Cons.prems(2,3) by simp
  moreover have "route_times (lrs_age R s (clk w (tick w)) (route e))" using Cons.prems(2,3) by (simp add: age_times)
  ultimately show ?case using Cons.prems(1,3) rest by (auto simp: reset_entry_simp split: if_splits)
qed simp

lemma get_entry_times:
  assumes "aodvv2_lrs_get_entry R addr mt s w = (r, s', w')" and "\<forall>n. normal (clk w n)" and "lrs_times s"
  shows "lrs_times s'"
proof -
  obtain es now where "lrs_scan R s (route_is R addr mt) (lrs_now s) w (routing_table s) = (r, es, now, w')"
      "s' = s\<lparr>routing_table := es, lrs_now := now\<rparr>"
    using assms(1) by (auto simp: aodvv2_lrs_get_entry_def split: prod.splits)
  with scan_times [OF this(1) assms(2)] assms(3) show ?thesis by (simp add: lrs_times_def)
qed

lemma add_entry_times:
  assumes "\<forall>n. normal (clk w n)" and "lrs_times s" and "route_times rt"
  shows "lrs_times (fst (aodvv2_lrs_add_entry R rt s w))"
proof -
  obtain r s' w' where get: "aodvv2_lrs_get_entry R (rt_addr rt) (rt_metric_type rt) s w = (r, s', w')" by (metis prod_cases3)
  from get_entry_times [OF this assms(1,2)] get assms(3) show ?thesis
    by (auto simp: aodvv2_lrs_add_entry_def lrs_place_def lrs_times_def split: option.splits dest: set_update_subset_insert [THEN subsetD])
qed

lemma delete_entry_times:
  assumes "\<forall>n. normal (clk w n)" and "lrs_times s"
  shows "lrs_times (fst (aodvv2_lrs_delete_entry R addr mt s w))"
proof -
  obtain r es now w' where scan:
    "lrs_scan R s (\<lambda>e. lrs_used e \<and> route_is R addr mt e) (lrs_now s) w (routing_table s) = (r, es, now, w')" by (metis prod_cases4)
  from scan_times [OF this assms(1)] assms(2) scan show ?thesis
    by (auto simp: aodvv2_lrs_delete_entry_def lrs_times_def split: option.splits dest: set_update_subset_insert [THEN subsetD])
qed

text \<open>
  C11. What every operation of the Local Route Set keeps. The table has its 16 slots and a slot that is not marked used is
  zeroed; among the slots whose route is not zeroed, no two hold one destination and metric type (a
  slot that was expunged stays marked used with a zeroed route, and there can be many of those); and the five configured times are as
  \<open>aodvv2_lrs_init\<close> sets them. If moreover the clock and the route to be stored have normalised times (fewer than a million microseconds), so have all
  routes of the table.
\<close>

theorem lrs_operations_keep_inv:
  assumes "riot_ok R" and "lrs_inv s"
  shows "lrs_inv (fst (aodvv2_lrs_add_entry R rt s w)) \<and> lrs_inv (fst (aodvv2_lrs_delete_entry R addr mt s w)) \<and>
    lrs_inv (fst (snd (aodvv2_lrs_get_entry R addr mt s w))) \<and> lrs_inv (fst (snd (aodvv2_lrs_get_next_hop R addr mt s w))) \<and>
    lrs_inv (aodvv2_lrs_init R s) \<and>
    (lrs_times s \<and> (\<forall>n. normal (clk w n)) \<and> route_times rt \<longrightarrow>
      lrs_times (fst (aodvv2_lrs_add_entry R rt s w)) \<and> lrs_times (fst (aodvv2_lrs_delete_entry R addr mt s w)) \<and>
      lrs_times (fst (snd (aodvv2_lrs_get_entry R addr mt s w))) \<and> lrs_times (fst (snd (aodvv2_lrs_get_next_hop R addr mt s w))) \<and>
      lrs_times (aodvv2_lrs_init R s))"
proof -
  have ok: "addr_ok R" "timex_ok R" using assms(1) by auto
  obtain r s' w' where get: "aodvv2_lrs_get_entry R addr mt s w = (r, s', w')" by (metis prod_cases3)
  then have hop: "fst (snd (aodvv2_lrs_get_next_hop R addr mt s w)) = s'" by (simp add: aodvv2_lrs_get_next_hop_def)
  have "lrs_inv s'" by (rule get_entry_inv [OF assms(2) ok(2) get])
  moreover have "lrs_times (aodvv2_lrs_init R s)" by (simp add: lrs_times_def aodvv2_lrs_init_def)
  ultimately show ?thesis
    using get hop assms(2) ok by (auto simp: lrs_inv_add lrs_inv_delete lrs_inv_init add_entry_times delete_entry_times
        intro: get_entry_times)
qed

definition lrs_blank :: lrs where
  "lrs_blank = \<lparr>routing_table = [], null_time = timex_zero, lrs_max_seqnum_lifetime = timex_zero,
     active_interval = timex_zero, max_idletime = timex_zero, validity_t = timex_zero, lrs_now = timex_zero\<rparr>"

theorem lrs_operations_keep_inv_witness:
  "let s = fst (aodvv2_lrs_add_entry riot_ref route_zero (aodvv2_lrs_init riot_ref lrs_blank) (world_at timex_zero))
   in lrs_inv s \<and> lrs_times s"
  using lrs_operations_keep_inv [OF riot_ok_ref lrs_inv_init [OF timex_ok_ref], of route_zero lrs_blank "world_at timex_zero"]
  by (simp add: Let_def) (simp add: lrs_times_def aodvv2_lrs_init_def world_at_def)

section \<open>Ageing in microseconds\<close>

text \<open>
  C12. What ageing a route does, in microseconds: nothing to a route without expiration time or in
  the first 5 seconds of uptime; a route past its expiration time and at least 300 s unused is
  cleared; otherwise an Active route unused for more than 5 s becomes Idle and an Idle route past
  its expiration time becomes Expired, each stamped with the current time. Broken and Timed routes
  only ever change by being cleared.

  The comment in the function says otherwise: "A route MUST be considered Expired if Current_Time >=
  Route.ExpirationTime". By this theorem an Active route past its expiration time stays Active when it was
  used in the last 5 s, and becomes Idle when it was not; only an Idle route ever becomes Expired. A Broken or Timed one keeps its state until it is cleared.
\<close>

theorem lrs_age_spec:
  assumes ok: "timex_ok R" and cfg: "lrs_cfg s"
    and normal: "normal now" "normal (rt_last_used r)" "normal (rt_expiration_time r)"
    and past: "usec (rt_last_used r) \<le> usec now"
  shows "lrs_age R s now r =
    (if rt_expiration_time r = timex_zero \<or> usec now < 5000000 then r
     else if usec (rt_expiration_time r) \<le> usec now \<and> usec now - usec (rt_last_used r) \<ge> 300000000 then route_zero
     else if rt_state r = ROUTE_STATE_ACTIVE \<and> usec (rt_last_used r) < usec now - 5000000
       then r\<lparr>rt_state := ROUTE_STATE_IDLE, rt_last_used := now\<rparr>
     else if rt_state r = ROUTE_STATE_IDLE \<and> usec (rt_expiration_time r) \<le> usec now
       then r\<lparr>rt_state := ROUTE_STATE_EXPIRED, rt_last_used := now\<rparr>
     else r)"
proof -
  let ?five = "\<lparr>seconds = 5, microseconds = 0\<rparr>" and ?max = "\<lparr>seconds = 300, microseconds = 0\<rparr>"
  have c: "null_time s = timex_zero" "lrs_max_seqnum_lifetime s = ?max" "active_interval s = ?five"
    using cfg by (simp_all add: lrs_cfg_def)
  note cmp = timex_cmp_usec [OF ok]
  have null: "timex_cmp R (rt_expiration_time r) timex_zero = 0 \<longleftrightarrow> rt_expiration_time r = timex_zero"
    using cmp [OF normal(3) normal_zero] by (auto simp: usec_eq_0_iff)
  have young: "timex_cmp R now ?five < 0 \<longleftrightarrow> usec now < 5000000"
    using cmp [OF normal(1) normal_seconds, of 5] by simp
  have unexpired: "timex_cmp R now (rt_expiration_time r) < 0 \<longleftrightarrow> usec now < usec (rt_expiration_time r)"
    "timex_cmp R (rt_expiration_time r) now < 1 \<longleftrightarrow> usec (rt_expiration_time r) \<le> usec now"
    using cmp [OF normal(1,3)] cmp [OF normal(3,1)] by auto
  have idle: "timex_cmp R (timex_sub R now ?five) (rt_last_used r) = 1 \<longleftrightarrow> usec (rt_last_used r) < usec now - 5000000"
    if "\<not> usec now < 5000000"
    using timex_sub_usec [OF ok normal(1) normal_seconds, of 5] that cmp [OF _ normal(2)] by simp
  have old: "timex_cmp R (timex_sub R now (rt_last_used r)) ?max \<ge> 0 \<longleftrightarrow> usec now - usec (rt_last_used r) \<ge> 300000000"
    using timex_sub_usec [OF ok normal(1,2) past] cmp [OF _ normal_seconds, of _ 300] by simp
  have "ROUTE_STATE_ACTIVE \<noteq> ROUTE_STATE_IDLE" by (simp add: route_states)
  then show ?thesis
    by (auto simp: lrs_age_def lrs_to_idle_def lrs_to_expired_def c null young unexpired idle old Let_def)
qed

definition lrs_ref :: lrs where
  "lrs_ref = aodvv2_lrs_init riot_ref lrs_blank"

lemma lrs_cfg_ref: "lrs_cfg lrs_ref"
  using lrs_inv_init [OF timex_ok_ref] by (simp add: lrs_ref_def lrs_inv_def)

theorem lrs_age_spec_witness:
  "rt_state (lrs_age riot_ref lrs_ref \<lparr>seconds = 50, microseconds = 0\<rparr>
     (route_zero\<lparr>rt_expiration_time := \<lparr>seconds = 205, microseconds = 0\<rparr>\<rparr>)) = ROUTE_STATE_IDLE"
  by (subst lrs_age_spec [OF timex_ok_ref lrs_cfg_ref])
     (simp_all add: route_zero_def route_states timex_zero_def)

section \<open>A learned route is found until it expires\<close>

lemma lrs_age_key:
  assumes "timex_ok R" and "lrs_cfg s" and "normal now" and "normal (rt_expiration_time r)"
    and "usec now < usec (rt_expiration_time r)"
  shows "\<exists>st lu. lrs_age R s now r = r\<lparr>rt_state := st, rt_last_used := lu\<rparr>"
proof -
  have "timex_cmp R now (rt_expiration_time r) < 0"
    using timex_cmp_usec [OF assms(1,3,4)] assms(5) by simp
  then show ?thesis
    by (cases r) (auto simp: lrs_age_def lrs_to_idle_def Let_def)
qed

lemma get_entry_finds:
  assumes inv: "lrs_inv s" and ok: "addr_ok R" "timex_ok R"
    and i: "i < length (routing_table s)" "route (routing_table s ! i) = rt" "rt \<noteq> route_zero"
    and keep: "\<And>n. \<exists>st lu. lrs_age R s (clk w n) rt = rt\<lparr>rt_state := st, rt_last_used := lu\<rparr>"
    and addr: "rt_addr rt \<noteq> 0"
  shows "\<exists>s' w'. aodvv2_lrs_get_entry R (rt_addr rt) (rt_metric_type rt) s w = (Some i, s', w') \<and>
    rt_next_hop (route (routing_table s' ! i)) = rt_next_hop rt \<and> rt_metric (route (routing_table s' ! i)) = rt_metric rt"
proof -
  let ?es = "routing_table s"
  obtain r s' w' where get: "aodvv2_lrs_get_entry R (rt_addr rt) (rt_metric_type rt) s w = (r, s', w')"
    by (cases "aodvv2_lrs_get_entry R (rt_addr rt) (rt_metric_type rt) s w")
  obtain st lu where agedi: "aged R s w ?es i = (?es ! i)\<lparr>route := rt\<lparr>rt_state := st, rt_last_used := lu\<rparr>\<rparr>"
    using keep [of "tick w + i"] i by (auto simp: aged_def)
  have "r \<noteq> None"
  proof
    assume "r = None"
    with get_entry_None(2,3) [OF get [unfolded this], of i] i agedi ok(1) show False
      by (simp add: route_is_def)
  qed
  then obtain k where r: "r = Some k" by blast
  note scan = get_entry_Some [OF get [unfolded r]]
  from get r obtain es now where sc: "lrs_scan R s (route_is R (rt_addr rt) (rt_metric_type rt)) (lrs_now s) w ?es = (Some k, es, now, w')"
    and s': "s' = s\<lparr>routing_table := es, lrs_now := now\<rparr>"
    by (auto simp: aodvv2_lrs_get_entry_def split: prod.splits)
  note spec = lrs_scan_Some [OF sc]
  have hit: "rt_addr (route (es ! k)) = rt_addr rt" "rt_metric_type (route (es ! k)) = rt_metric_type rt"
    using spec ok(1) by (auto simp: route_is_def)
  have "k = i"
  proof (rule ccontr)
    assume "k \<noteq> i"
    have es_i: "rt_addr (route (es ! i)) = rt_addr rt" "rt_metric_type (route (es ! i)) = rt_metric_type rt"
      using spec i agedi by auto
    have "route (es ! k) \<noteq> route_zero" "route (es ! i) \<noteq> route_zero"
      using hit es_i addr by (auto simp: route_zero_def)
    moreover have "table_inv es" by (rule lrs_inv_scan [OF inv ok(2) sc])
    ultimately show False using \<open>k \<noteq> i\<close> hit es_i spec i(1) by (simp add: table_inv_def)
  qed
  with get r s' spec i agedi show ?thesis by auto
qed

text \<open>
  Learning a route works while a slot is free: when no route to the destination is known, the
  new route is stored, and until its expiration time a lookup of its destination and metric type
  yields its next hop.
\<close>

lemma lrs_add_then_next_hop:
  assumes ok: "riot_ok R" and inv: "lrs_inv s" and new: "fst (aodvv2_lrs_get_entry R (rt_addr rt) (rt_metric_type rt) s w) = None"
    and free: "\<exists>e \<in> set (routing_table s). \<not> lrs_used e" and addr: "rt_addr rt \<noteq> 0"
    and clock: "\<And>n. normal (clk v n) \<and> usec (clk v n) < usec (rt_expiration_time rt)"
    and normal: "normal (rt_expiration_time rt)"
  shows "fst (aodvv2_lrs_get_next_hop R (rt_addr rt) (rt_metric_type rt) (fst (aodvv2_lrs_add_entry R rt s w)) v)
    = Some (rt_next_hop rt)"
proof -
  have aok: "addr_ok R" and tok: "timex_ok R" using ok by auto
  let ?s = "fst (aodvv2_lrs_add_entry R rt s w)"
  obtain s' w' where get: "aodvv2_lrs_get_entry R (rt_addr rt) (rt_metric_type rt) s w = (None, s', w')"
    using new by (metis prod.collapse)
  have "map lrs_used (routing_table s') = map lrs_used (routing_table s)" by (rule get_entry_used [OF get])
  then have "\<exists>e \<in> set (routing_table s'). \<not> lrs_used e"
    using free by (metis (mono_tags, lifting) image_iff image_set)
  then have "first_idx (\<lambda>e. \<not> lrs_used e) (routing_table s') \<noteq> None" by (auto simp: first_idx_None_iff)
  then obtain i where i: "first_idx (\<lambda>e. \<not> lrs_used e) (routing_table s') = Some i" by blast
  then have len: "i < length (routing_table s')" by (simp add: first_idx_Some_iff)
  have s: "?s = s'\<lparr>routing_table := (routing_table s')[i := \<lparr>route = rt, lrs_used = True\<rparr>]\<rparr>"
    using get i by (simp add: aodvv2_lrs_add_entry_def lrs_place_def)
  have inv_s: "lrs_inv ?s" by (rule lrs_inv_add [OF inv aok tok])
  have "\<exists>st lu. lrs_age R ?s (clk v n) rt = rt\<lparr>rt_state := st, rt_last_used := lu\<rparr>" for n
    using inv_s clock normal tok by (intro lrs_age_key) (auto simp: lrs_inv_def)
  then have "\<exists>t v'. aodvv2_lrs_get_entry R (rt_addr rt) (rt_metric_type rt) ?s v = (Some i, t, v') \<and>
      rt_next_hop (route (routing_table t ! i)) = rt_next_hop rt \<and> rt_metric (route (routing_table t ! i)) = rt_metric rt"
    using len addr s by (intro get_entry_finds [OF inv_s aok tok]) (auto simp: route_zero_def)
  then show ?thesis by (auto simp: aodvv2_lrs_get_next_hop_def)
qed

lemma get_entry_blank:
  assumes ok: "riot_ok R" and cfg: "lrs_cfg s" and addr: "addr \<noteq> 0"
    and blank: "\<And>j n. j < length (routing_table s) \<Longrightarrow> lrs_age R s (clk w n) (route (routing_table s ! j)) = route_zero"
  shows "\<exists>s' w'. aodvv2_lrs_get_entry R addr mt s w = (None, s', w') \<and> lrs_cfg s' \<and>
    (\<forall>e \<in> set (routing_table s'). route e = route_zero)"
proof -
  obtain r s' w' where get: "aodvv2_lrs_get_entry R addr mt s w = (r, s', w')"
    by (cases "aodvv2_lrs_get_entry R addr mt s w")
  have "r = None"
  proof (rule ccontr)
    assume "r \<noteq> None"
    then obtain i where r: "r = Some i" by blast
    from get r obtain es now where "lrs_scan R s (route_is R addr mt) (lrs_now s) w (routing_table s) = (Some i, es, now, w')"
      by (auto simp: aodvv2_lrs_get_entry_def split: prod.splits)
    from lrs_scan_Some [OF this] blank [of i "tick w + i"] addr ok show False
      by (auto simp: aged_def route_is_def route_zero_def riot_ok_def)
  qed
  with get get_entry_None(1,2) [of R addr mt s w s' w'] blank have "\<forall>e \<in> set (routing_table s'). route e = route_zero"
    by (auto simp: in_set_conv_nth aged_def)
  moreover have "lrs_cfg s'"
    using get cfg by (auto simp: aodvv2_lrs_get_entry_def split: prod.splits)
  ultimately show ?thesis using get \<open>r = None\<close> by blast
qed

lemma lrs_ref_blank:
  "j < length (routing_table lrs_ref) \<Longrightarrow> lrs_age riot_ref lrs_ref t (route (routing_table lrs_ref ! j)) = route_zero"
  using lrs_cfg_ref timex_ok_ref
  by (simp add: lrs_ref_def aodvv2_lrs_init_def lrs_free_slot_def lrs_cfg_null)

lemma lrs_add_then_next_hop_witness:
  "let rt = route_zero\<lparr>rt_addr := 1, rt_next_hop := 2, rt_expiration_time := \<lparr>seconds = 205, microseconds = 0\<rparr>\<rparr> in
   fst (aodvv2_lrs_get_next_hop riot_ref (rt_addr rt) (rt_metric_type rt)
     (fst (aodvv2_lrs_add_entry riot_ref rt lrs_ref (world_at timex_zero))) (world_at timex_zero)) = Some 2"
proof -
  let ?rt = "route_zero\<lparr>rt_addr := 1, rt_next_hop := 2, rt_expiration_time := \<lparr>seconds = 205, microseconds = 0\<rparr>\<rparr>"
  have inv: "lrs_inv lrs_ref" unfolding lrs_ref_def by (rule lrs_inv_init [OF timex_ok_ref])
  have none: "fst (aodvv2_lrs_get_entry riot_ref (rt_addr ?rt) (rt_metric_type ?rt) lrs_ref (world_at timex_zero)) = None"
  proof -
    have "rt_addr ?rt \<noteq> 0" by simp
    from get_entry_blank [OF riot_ok_ref lrs_cfg_ref this lrs_ref_blank, of "rt_metric_type ?rt" "world_at timex_zero"]
    obtain s' w' where "aodvv2_lrs_get_entry riot_ref (rt_addr ?rt) (rt_metric_type ?rt) lrs_ref (world_at timex_zero)
        = (None, s', w')" by blast
    then show ?thesis by simp
  qed
  have free: "\<exists>e \<in> set (routing_table lrs_ref). \<not> lrs_used e"
    by (simp add: lrs_ref_def aodvv2_lrs_init_def lrs_free_slot_def CONFIG_AODVV2_MAX_ROUTING_ENTRIES_def)
  have "fst (aodvv2_lrs_get_next_hop riot_ref (rt_addr ?rt) (rt_metric_type ?rt)
      (fst (aodvv2_lrs_add_entry riot_ref ?rt lrs_ref (world_at timex_zero))) (world_at timex_zero)) = Some (rt_next_hop ?rt)"
    by (rule lrs_add_then_next_hop [OF riot_ok_ref inv none free])
       (simp_all add: world_at_def)
  then show ?thesis by simp
qed

text \<open>
  C14. Slots are never given back: expunging a stale route leaves its slot marked used. When all 16
  slots are in use, a new route is not stored even if every old route has just been expunged: the
  table is then empty and full at once, and the destination stays without a next hop.
\<close>

theorem lrs_expunged_slots_lost:
  assumes ok: "riot_ok R" and cfg: "lrs_cfg s" and full: "\<forall>e \<in> set (routing_table s). lrs_used e"
    and addr: "rt_addr rt \<noteq> 0"
    and stale: "\<And>j n. j < length (routing_table s) \<Longrightarrow> lrs_age R s (clk w n) (route (routing_table s ! j)) = route_zero"
  shows "(\<forall>e \<in> set (routing_table (fst (aodvv2_lrs_add_entry R rt s w))). lrs_used e \<and> route e = route_zero) \<and>
    fst (aodvv2_lrs_get_next_hop R (rt_addr rt) (rt_metric_type rt) (fst (aodvv2_lrs_add_entry R rt s w)) v) = None"
proof -
  obtain s' w' where get: "aodvv2_lrs_get_entry R (rt_addr rt) (rt_metric_type rt) s w = (None, s', w')"
    and cfg': "lrs_cfg s'" and zero: "\<forall>e \<in> set (routing_table s'). route e = route_zero"
    using get_entry_blank [OF ok cfg addr stale, of "rt_metric_type rt"] by blast
  have "set (map lrs_used (routing_table s')) = set (map lrs_used (routing_table s))"
    using get_entry_used [OF get] by simp
  with full have used: "\<forall>e \<in> set (routing_table s'). lrs_used e" by auto
  then have "first_idx (\<lambda>e. \<not> lrs_used e) (routing_table s') = None" by (simp add: first_idx_None_iff)
  with get have add: "fst (aodvv2_lrs_add_entry R rt s w) = s'"
    by (simp add: aodvv2_lrs_add_entry_def lrs_slots.place_full)
  have "timex_ok R" using ok by auto
  then have "lrs_age R s' (clk v n) (route (routing_table s' ! j)) = route_zero" if "j < length (routing_table s')" for j n
    using zero cfg' that by (simp add: lrs_cfg_null)
  from get_entry_blank [OF ok cfg' addr this, of "rt_metric_type rt"] obtain s'' w''
    where "aodvv2_lrs_get_entry R (rt_addr rt) (rt_metric_type rt) s' v = (None, s'', w'')" by blast
  with used zero add show ?thesis by (simp add: aodvv2_lrs_get_next_hop_def)
qed

theorem lrs_expunged_slots_lost_witness:
  "let old = route_zero\<lparr>rt_addr := 9, rt_expiration_time := \<lparr>seconds = 205, microseconds = 0\<rparr>\<rparr>;
       s = lrs_ref\<lparr>routing_table := replicate 16 \<lparr>route = old, lrs_used = True\<rparr>\<rparr>;
       w = world_at \<lparr>seconds = 1000, microseconds = 0\<rparr>;
       rt = route_zero\<lparr>rt_addr := 1\<rparr>
   in fst (aodvv2_lrs_get_next_hop riot_ref 1 0 (fst (aodvv2_lrs_add_entry riot_ref rt s w)) w) = None"
proof -
  let ?old = "route_zero\<lparr>rt_addr := 9, rt_expiration_time := \<lparr>seconds = 205, microseconds = 0\<rparr>\<rparr>"
  let ?s = "lrs_ref\<lparr>routing_table := replicate 16 \<lparr>route = ?old, lrs_used = True\<rparr>\<rparr>"
  let ?w = "world_at \<lparr>seconds = 1000, microseconds = 0\<rparr>"
  have cfg: "lrs_cfg ?s" using lrs_cfg_ref by simp
  have "lrs_age riot_ref ?s (clk ?w n) ?old = route_zero" for n
    by (simp add: lrs_age_def lrs_ref_def aodvv2_lrs_init_def riot_ref_def usec_def of_usec_def world_at_def
        CONFIG_AODVV2_ACTIVE_INTERVAL_def CONFIG_AODVV2_MAX_SEQNUM_LIFETIME_def route_zero_def timex_zero_def Let_def)
  with lrs_expunged_slots_lost [OF riot_ok_ref cfg, of "route_zero\<lparr>rt_addr := 1\<rparr>" ?w ?w] show ?thesis
    by (simp add: route_zero_def)
qed

section \<open>When new information is taken\<close>

text \<open>
  \<open>aodvv2_lrs_offers_improvement\<close> decides by sequence number and Broken state alone: the metric
  is never consulted for a working route, and a Broken route is never repaired. The sequence number
  comparison has its arguments the wrong way round, so information newer than the route is rejected.
\<close>

lemma lrs_offers_improvement_iff:
  "aodvv2_lrs_offers_improvement rt nd \<longleftrightarrow>
     rt_state rt \<noteq> ROUTE_STATE_BROKEN \<and> \<not> aodvv2_seqnum_cmp (nd_seqnum nd) (rt_seqnum rt) < 0"
  by (simp add: aodvv2_lrs_offers_improvement_def)

text \<open>
  C13. Route refreshes are refused: when the destination has incremented its sequence number 1 to
  32766 times since the route was learned, the message announcing this never improves the route,
  while a message 1 to 32766 numbers older than the route and of any metric replaces a route that is
  not Broken.
\<close>

theorem lrs_rejects_newer_accepts_older:
  assumes "1 \<le> unat q" and "unat q \<le> 65535" and "1 \<le> k" and "k \<le> 32766"
  shows "(rt_seqnum rt = aodvv2_seqnum_get q \<and> nd_seqnum nd = aodvv2_seqnum_get ((aodvv2_seqnum_inc ^^ k) q) \<longrightarrow>
      \<not> aodvv2_lrs_offers_improvement rt nd) \<and>
    (rt_seqnum rt = aodvv2_seqnum_get ((aodvv2_seqnum_inc ^^ k) q) \<and> nd_seqnum nd = aodvv2_seqnum_get q \<and>
      rt_state rt \<noteq> ROUTE_STATE_BROKEN \<longrightarrow> aodvv2_lrs_offers_improvement rt nd)"
proof -
  let ?a = "aodvv2_seqnum_get q" and ?b = "aodvv2_seqnum_get ((aodvv2_seqnum_inc ^^ k) q)"
  have newer: "aodvv2_seqnum_cmp ?a ?b > 0" by (rule seqnum_newer [OF assms])
  then have "aodvv2_seqnum_cmp ?b ?a < 0"
    using seqnum_cmp_swap [of ?a ?b] by simp
  with newer show ?thesis by (simp add: aodvv2_lrs_offers_improvement_def)
qed

theorem lrs_rejects_newer_accepts_older_witness:
  "\<not> aodvv2_lrs_offers_improvement (route_zero\<lparr>rt_seqnum := aodvv2_seqnum_get 1\<rparr>)
     (node_zero\<lparr>nd_seqnum := aodvv2_seqnum_get ((aodvv2_seqnum_inc ^^ 1) 1)\<rparr>)"
proof -
  have h: "1 \<le> unat (1 :: u32)" "unat (1 :: u32) \<le> 65535" "1 \<le> (1 :: nat)" "(1 :: nat) \<le> 32766" by simp_all
  let ?rt = "route_zero\<lparr>rt_seqnum := aodvv2_seqnum_get 1\<rparr>"
  let ?nd = "node_zero\<lparr>nd_seqnum := aodvv2_seqnum_get ((aodvv2_seqnum_inc ^^ 1) 1)\<rparr>"
  have "rt_seqnum ?rt = aodvv2_seqnum_get 1 \<and> nd_seqnum ?nd = aodvv2_seqnum_get ((aodvv2_seqnum_inc ^^ 1) 1)"
    by simp
  then show ?thesis by (rule lrs_rejects_newer_accepts_older [OF h, THEN conjunct1, THEN mp])
qed

end
