(* ===== verification/Mcmsg.thy ===== *)
theory Mcmsg
  imports Message
begin

text \<open>
  The Multicast Message Set, \<open>mesh/sys/net/aodvv2/aodvv2_mcmsg.c\<close>: which RREQs were seen already, so
  that copies are recognised. \<open>aodvv2_mcmsg_process\<close> runs under the set's mutex from start to end.
\<close>

section \<open>State\<close>

record mcmsg =
  orig_prefix :: ipv6_addr
  orig_pfx_len :: u8
  targ_prefix :: ipv6_addr
  orig_seqnum :: u16
  targ_seqnum :: u16
  mc_metric_type :: routing_metric
  mc_metric :: u8
  mc_timestamp :: timex
  removal_time :: timex
  mc_netif :: u16
  mc_seqnortr :: ipv6_addr

record mc_slot =
  mc_data :: mcmsg
  mc_used :: bool

record mcset =
  mc_entries :: "mc_slot list"
  mc_max_seqnum_lifetime :: timex

definition CONFIG_AODVV2_MCMSG_MAX_ENTRIES :: nat where "CONFIG_AODVV2_MCMSG_MAX_ENTRIES = 16"
definition AODVV2_MCMSG_REDUNDANT :: int where "AODVV2_MCMSG_REDUNDANT = -1"
definition AODVV2_MCMSG_OK :: int where "AODVV2_MCMSG_OK = 0"

definition mcmsg_zero :: mcmsg where
  "mcmsg_zero = \<lparr>orig_prefix = 0, orig_pfx_len = 0, targ_prefix = 0, orig_seqnum = 0, targ_seqnum = 0,
     mc_metric_type = 0, mc_metric = 0, mc_timestamp = timex_zero, removal_time = timex_zero,
     mc_netif = 0, mc_seqnortr = 0\<rparr>"

definition mc_free_slot :: mc_slot where
  "mc_free_slot = \<lparr>mc_data = mcmsg_zero, mc_used = False\<rparr>"

definition aodvv2_mcmsg_init :: "riot \<Rightarrow> mcset" where
  "aodvv2_mcmsg_init R = \<lparr>mc_entries = replicate CONFIG_AODVV2_MCMSG_MAX_ENTRIES mc_free_slot,
     mc_max_seqnum_lifetime = timex_set R 300 0\<rparr>"

section \<open>Operations\<close>

definition mc_reset_entry_if_stale :: "riot \<Rightarrow> world \<Rightarrow> mc_slot \<Rightarrow> mc_slot \<times> world" where
  "mc_reset_entry_if_stale R w e =
     (if \<not> mc_used e then (e, w)
      else let (current_time, w') = xtimer_now_timex w in
        (if timex_cmp R current_time (removal_time (mc_data e)) = 1 then mc_free_slot else e, w'))"

definition is_compatible_mcmsg :: "riot \<Rightarrow> mcmsg \<Rightarrow> mcmsg \<Rightarrow> bool" where
  "is_compatible_mcmsg R lhs rhs \<longleftrightarrow>
     ipv6_addr_equal R (orig_prefix lhs) (orig_prefix rhs) \<and> orig_pfx_len lhs = orig_pfx_len rhs \<and>
     ipv6_addr_equal R (targ_prefix lhs) (targ_prefix rhs) \<and> mc_metric_type lhs = mc_metric_type rhs"

definition is_compatible :: "riot \<Rightarrow> mcmsg \<Rightarrow> aodvv2_message \<Rightarrow> bool" where
  "is_compatible R entry msg \<longleftrightarrow>
     ipv6_addr_equal R (orig_prefix entry) (nd_addr (orig_node msg)) \<and>
     orig_pfx_len entry = nd_pfx_len (orig_node msg) \<and>
     ipv6_addr_equal R (targ_prefix entry) (nd_addr (targ_node msg)) \<and>
     mc_metric_type entry = metric_type msg"

definition is_comparable :: "riot \<Rightarrow> mcmsg \<Rightarrow> aodvv2_message \<Rightarrow> bool" where
  "is_comparable R entry msg \<longleftrightarrow>
     (if ipv6_addr_is_unspecified R (mc_seqnortr entry) \<and> ipv6_addr_is_unspecified R (seqnortr msg)
      then is_compatible R entry msg
      else is_compatible R entry msg \<and> ipv6_addr_equal R (mc_seqnortr entry) (seqnortr msg))"

fun find_comparable_entry :: "riot \<Rightarrow> aodvv2_message \<Rightarrow> world \<Rightarrow> mc_slot list \<Rightarrow> nat option \<times> mc_slot list \<times> world" where
  "find_comparable_entry R msg w [] = (None, [], w)"
| "find_comparable_entry R msg w (e # es) =
     (let (e', w') = mc_reset_entry_if_stale R w e in
      if mc_used e' \<and> is_comparable R (mc_data e') msg then (Some 0, e' # es, w')
      else let (r, es', w'') = find_comparable_entry R msg w' es in (map_option Suc r, e' # es', w''))"

definition mc_fill :: "riot \<Rightarrow> timex \<Rightarrow> aodvv2_message \<times> timex \<Rightarrow> mc_slot \<Rightarrow> mc_slot" where
  "mc_fill R lifetime = (\<lambda>(msg, current_time) e. \<lparr>mc_data = (mc_data e)\<lparr>
       orig_prefix := nd_addr (orig_node msg),
       orig_pfx_len := nd_pfx_len (orig_node msg),
       targ_prefix := nd_addr (targ_node msg),
       mc_metric_type := metric_type msg,
       mc_metric := nd_metric (orig_node msg),
       orig_seqnum := nd_seqnum (orig_node msg),
       mc_timestamp := current_time,
       removal_time := timex_add R current_time lifetime\<rparr>,
     mc_used = True\<rparr>)"

definition mc_place :: "riot \<Rightarrow> timex \<Rightarrow> aodvv2_message \<times> timex \<Rightarrow> mc_slot list \<Rightarrow> nat option \<times> mc_slot list" where
  "mc_place R lifetime a es =
     (case first_idx (\<lambda>e. \<not> mc_used e) es of
        None \<Rightarrow> (None, es)
      | Some i \<Rightarrow> (Some i, es[i := mc_fill R lifetime a (es ! i)]))"

text \<open>\<open>_add\<close> reads the clock only once it has found a free slot.\<close>

definition mc_add :: "riot \<Rightarrow> timex \<Rightarrow> aodvv2_message \<Rightarrow> world \<Rightarrow> mc_slot list \<Rightarrow> nat option \<times> mc_slot list \<times> world" where
  "mc_add R lifetime msg w es =
     (if first_idx (\<lambda>e. \<not> mc_used e) es = None then (None, es, w)
      else let (current_time, w') = xtimer_now_timex w; (r, es') = mc_place R lifetime (msg, current_time) es
        in (r, es', w'))"

text \<open>
  The last loop of \<open>aodvv2_mcmsg_process\<close>: every slot but the comparable one (index \<open>k\<close>, counted from
  the head of the list) is aged; a compatible one whose metric is no larger makes the message
  redundant.
\<close>

fun search_better :: "riot \<Rightarrow> mcmsg \<Rightarrow> nat option \<Rightarrow> world \<Rightarrow> mc_slot list \<Rightarrow> bool \<times> mc_slot list \<times> world" where
  "search_better R c k w [] = (False, [], w)"
| "search_better R c k w (e # es) =
     (if k = Some 0
      then let (r, es', w') = search_better R c None w es in (r, e # es', w')
      else let (e', w') = mc_reset_entry_if_stale R w e in
        if mc_used e' \<and> is_compatible_mcmsg R c (mc_data e') \<and> mc_metric (mc_data e') \<le> mc_metric c
        then (True, e' # es, w')
        else let (r, es', w'') = search_better R c (map_option (\<lambda>n. n - 1) k) w' es in (r, e' # es', w''))"

definition aodvv2_mcmsg_process :: "riot \<Rightarrow> aodvv2_message \<Rightarrow> mcset \<Rightarrow> world \<Rightarrow> int \<times> mcset \<times> world" where
  "aodvv2_mcmsg_process R msg s w =
     (let (comparable, es, w1) = find_comparable_entry R msg w (mc_entries s) in
      case comparable of
        None \<Rightarrow> let (r, es', w2) = mc_add R (mc_max_seqnum_lifetime s) msg w1 es
          in (AODVV2_MCMSG_OK, s\<lparr>mc_entries := es'\<rparr>, w2)
      | Some k \<Rightarrow>
          let (current_time, w2) = xtimer_now_timex w1;
              d = (mc_data (es ! k))\<lparr>mc_timestamp := current_time,
                     removal_time := timex_add R current_time (mc_max_seqnum_lifetime s)\<rparr>;
              es1 = es[k := (es ! k)\<lparr>mc_data := d\<rparr>];
              seqcmp = aodvv2_seqnum_cmp (orig_seqnum d) (nd_seqnum (orig_node msg))
          in if seqcmp < 0 then (AODVV2_MCMSG_REDUNDANT, s\<lparr>mc_entries := es1\<rparr>, w2)
             else if seqcmp = 0 \<and> mc_metric d = nd_metric (orig_node msg)
             then (AODVV2_MCMSG_REDUNDANT, s\<lparr>mc_entries := es1\<rparr>, w2)
             else let d' = d\<lparr>orig_seqnum := nd_seqnum (orig_node msg), mc_metric := nd_metric (orig_node msg)\<rparr>;
                      es2 = es1[k := (es1 ! k)\<lparr>mc_data := d'\<rparr>];
                      (better, es3, w3) = search_better R d' (Some k) w2 es2
                  in (if better then AODVV2_MCMSG_REDUNDANT else AODVV2_MCMSG_OK, s\<lparr>mc_entries := es3\<rparr>, w3))"

interpretation mc_slots: slot_table mc_used "mc_place R lifetime" "mc_fill R lifetime" for R lifetime
  by unfold_locales (simp_all add: mc_place_def mc_fill_def split: prod.splits)

section \<open>Invariant\<close>

text \<open>
  16 slots; a free slot is zeroed; a used one has no SeqNoRtr (the code never stores one); no two
  used slots are compatible with each other; expiry times are normalised.
\<close>

definition mc_same :: "mcmsg \<Rightarrow> mcmsg \<Rightarrow> bool" where
  "mc_same a b \<longleftrightarrow> orig_prefix a = orig_prefix b \<and> orig_pfx_len a = orig_pfx_len b \<and>
     targ_prefix a = targ_prefix b \<and> mc_metric_type a = mc_metric_type b"

definition slots_inv :: "mc_slot list \<Rightarrow> bool" where
  "slots_inv es \<longleftrightarrow> (\<forall>e \<in> set es. if mc_used e then mc_seqnortr (mc_data e) = 0 else e = mc_free_slot) \<and>
     (\<forall>i < length es. \<forall>j < length es. mc_used (es ! i) \<longrightarrow> mc_used (es ! j) \<longrightarrow>
        mc_same (mc_data (es ! i)) (mc_data (es ! j)) \<longrightarrow> i = j)"

definition mc_inv :: "mcset \<Rightarrow> bool" where
  "mc_inv s \<longleftrightarrow> length (mc_entries s) = CONFIG_AODVV2_MCMSG_MAX_ENTRIES \<and> slots_inv (mc_entries s) \<and>
     mc_max_seqnum_lifetime s = \<lparr>seconds = 300, microseconds = 0\<rparr>"

text \<open>The message is about the same route request as the entry.\<close>

definition about :: "aodvv2_message \<Rightarrow> mcmsg \<Rightarrow> bool" where
  "about msg d \<longleftrightarrow> orig_prefix d = nd_addr (orig_node msg) \<and> orig_pfx_len d = nd_pfx_len (orig_node msg) \<and>
     targ_prefix d = nd_addr (targ_node msg) \<and> mc_metric_type d = metric_type msg"

lemma compatible_mcmsg_iff: "addr_ok R \<Longrightarrow> is_compatible_mcmsg R a b \<longleftrightarrow> mc_same a b"
  by (simp add: is_compatible_mcmsg_def mc_same_def)

lemma compatible_iff: "addr_ok R \<Longrightarrow> is_compatible R d msg \<longleftrightarrow> about msg d"
  by (simp add: is_compatible_def about_def)

lemma comparable_iff:
  "addr_ok R \<Longrightarrow> mc_seqnortr d = 0 \<Longrightarrow> is_comparable R d msg \<longleftrightarrow> about msg d \<and> seqnortr msg = 0"
  by (auto simp: is_comparable_def compatible_iff)

lemma about_same: "about msg a \<Longrightarrow> about msg b \<Longrightarrow> mc_same a b"
  by (simp add: about_def mc_same_def)

lemma slots_inv_update:
  assumes inv: "slots_inv es" and i: "i < length es"
    and e: "if mc_used e then mc_seqnortr (mc_data e) = 0 else e = mc_free_slot"
    and new: "\<And>j. j < length es \<Longrightarrow> j \<noteq> i \<Longrightarrow> mc_used e \<Longrightarrow> mc_used (es ! j) \<Longrightarrow> \<not> mc_same (mc_data (es ! j)) (mc_data e)"
  shows "slots_inv (es[i := e])"
  unfolding slots_inv_def
proof (intro conjI allI impI)
  show "\<forall>e \<in> set (es[i := e]). if mc_used e then mc_seqnortr (mc_data e) = 0 else e = mc_free_slot"
    using inv e set_update_subset_insert [of es i e] unfolding slots_inv_def by blast
next
  fix j k
  assume a: "j < length (es[i := e])" "k < length (es[i := e])" "mc_used (es[i := e] ! j)" "mc_used (es[i := e] ! k)"
    "mc_same (mc_data (es[i := e] ! j)) (mc_data (es[i := e] ! k))"
  consider "j = i" "k = i" | "j = i" "k \<noteq> i" | "j \<noteq> i" "k = i" | "j \<noteq> i" "k \<noteq> i" by blast
  then show "j = k"
  proof cases
    case 2
    with a i new [of k] show ?thesis by (simp add: mc_same_def)
  next
    case 3
    with a i new [of j] show ?thesis by simp
  next
    case 4
    with a inv show ?thesis by (simp add: slots_inv_def)
  qed simp
qed

text \<open>Ageing frees slots or leaves them alone.\<close>

definition thinned :: "mc_slot list \<Rightarrow> mc_slot list \<Rightarrow> bool" where
  "thinned es es' \<longleftrightarrow> list_all2 (\<lambda>e e'. e' = e \<or> e' = mc_free_slot) es es'"

lemma reset_cases: "fst (mc_reset_entry_if_stale R w e) = e \<or> fst (mc_reset_entry_if_stale R w e) = mc_free_slot"
  by (simp add: mc_reset_entry_if_stale_def split: prod.splits)

lemma thinned_refl [simp]: "thinned es es"
  by (simp add: thinned_def list_all2_refl)

lemma thinned_length: "thinned es es' \<Longrightarrow> length es' = length es"
  by (simp add: thinned_def list_all2_lengthD)

lemma thinned_nth: "thinned es es' \<Longrightarrow> j < length es \<Longrightarrow> es' ! j = es ! j \<or> es' ! j = mc_free_slot"
  by (simp add: thinned_def list_all2_conv_all_nth)

lemma thinned_inv: "slots_inv es \<Longrightarrow> thinned es es' \<Longrightarrow> slots_inv es'"
proof -
  assume inv: "slots_inv es" and th: "thinned es es'"
  have keep: "es' ! j = es ! j" if "j < length es" "mc_used (es' ! j)" for j
    using thinned_nth [OF th that(1)] that by (auto simp: mc_free_slot_def)
  have "if mc_used e then mc_seqnortr (mc_data e) = 0 else e = mc_free_slot" if "e \<in> set es'" for e
  proof -
    from that obtain j where j: "j < length es" "e = es' ! j"
      using thinned_length [OF th] by (auto simp: in_set_conv_nth)
    then have "es ! j \<in> set es" by simp
    with inv have old: "if mc_used (es ! j) then mc_seqnortr (mc_data (es ! j)) = 0 else es ! j = mc_free_slot"
      by (simp add: slots_inv_def)
    have free: "\<not> mc_used mc_free_slot" by (simp add: mc_free_slot_def)
    from thinned_nth [OF th j(1)] show ?thesis
    proof
      assume "es' ! j = es ! j"
      with old j(2) show ?thesis by simp
    next
      assume "es' ! j = mc_free_slot"
      with free j(2) show ?thesis by simp
    qed
  qed
  with inv keep thinned_length [OF th] show ?thesis by (simp add: slots_inv_def)
qed

lemma find_thinned: "find_comparable_entry R msg w es = (r, es', w') \<Longrightarrow> thinned es es'"
proof (induction es arbitrary: w es' r)
  case (Cons e es)
  then show ?case
    using reset_cases [of R w e]
    by (auto simp: thinned_def list_all2_refl split: if_splits prod.splits)
qed simp

lemma find_None:
  "find_comparable_entry R msg w es = (None, es', w') \<Longrightarrow> e \<in> set es' \<Longrightarrow> mc_used e \<Longrightarrow> \<not> is_comparable R (mc_data e) msg"
  by (induction es arbitrary: w es') (auto split: if_splits prod.splits)

lemma find_Some:
  "find_comparable_entry R msg w es = (Some i, es', w') \<Longrightarrow>
     i < length es' \<and> mc_used (es' ! i) \<and> is_comparable R (mc_data (es' ! i)) msg"
  by (induction es arbitrary: w es' i) (auto split: if_splits prod.splits)

lemma search_thinned: "search_better R c k w es = (r, es', w') \<Longrightarrow> thinned es es'"
proof (induction es arbitrary: k w es' r)
  case (Cons e es)
  then show ?case
    using reset_cases [of R w e]
    by (fastforce simp: thinned_def list_all2_refl split: if_splits prod.splits)
qed simp

lemma search_keeps: "search_better R c (Some k) w es = (r, es', w') \<Longrightarrow> k < length es \<Longrightarrow> es' ! k = es ! k"
proof (induction es arbitrary: k w es' r)
  case (Cons e es)
  then show ?case
    by (cases k) (auto split: if_splits prod.splits)
qed simp

text \<open>When no other slot is compatible the search finds nothing.\<close>

lemma search_none:
  "search_better R c k w es = (r, es', w') \<Longrightarrow>
     (\<And>j. j < length es \<Longrightarrow> k \<noteq> Some j \<Longrightarrow> mc_used (es ! j) \<Longrightarrow> \<not> is_compatible_mcmsg R c (mc_data (es ! j))) \<Longrightarrow> \<not> r"
proof (induction es arbitrary: k w es' r)
  case (Cons e es)
  have head: "\<not> (mc_used e' \<and> is_compatible_mcmsg R c (mc_data e'))"
    if "k \<noteq> Some 0" "mc_reset_entry_if_stale R w e = (e', w'')" for e' w''
    using Cons.prems(2) [of 0] reset_cases [of R w e] that by (auto simp: mc_free_slot_def)
  have tail: "\<not> is_compatible_mcmsg R c (mc_data (es ! j))"
    if "j < length es" "map_option (\<lambda>n. n - 1) k \<noteq> Some j \<or> k = Some 0" "mc_used (es ! j)" for j
  proof -
    have "k \<noteq> Some (Suc j)" using that(2) by auto
    with Cons.prems(2) [of "Suc j"] that show ?thesis by simp
  qed
  show ?case
  proof (cases "k = Some 0")
    case True
    with Cons.prems(1) Cons.IH [of None w] tail show ?thesis
      by (auto split: prod.splits)
  next
    case False
    with Cons.prems(1) head tail Cons.IH [of "map_option (\<lambda>n. n - 1) k"] show ?thesis
      by (auto split: if_splits prod.splits)
  qed
qed simp

section \<open>What processing a message does\<close>

text \<open>
  The stored request \<open>d\<close> makes the message redundant; what the slot of a comparable request
  holds afterwards.
\<close>

definition mc_redundant :: "aodvv2_message \<Rightarrow> mcmsg \<Rightarrow> bool" where
  "mc_redundant msg d \<longleftrightarrow> (let c = aodvv2_seqnum_cmp (orig_seqnum d) (nd_seqnum (orig_node msg)) in
     c < 0 \<or> c = 0 \<and> mc_metric d = nd_metric (orig_node msg))"

definition mc_renewed :: "riot \<Rightarrow> timex \<Rightarrow> timex \<Rightarrow> aodvv2_message \<Rightarrow> mcmsg \<Rightarrow> mcmsg" where
  "mc_renewed R now lifetime msg d =
     (let d' = d\<lparr>mc_timestamp := now, removal_time := timex_add R now lifetime\<rparr> in
      if mc_redundant msg d then d'
      else d'\<lparr>orig_seqnum := nd_seqnum (orig_node msg), mc_metric := nd_metric (orig_node msg)\<rparr>)"

lemma renewed_same [simp]:
  "mc_same (mc_renewed R now l msg d) b = mc_same d b" "mc_same b (mc_renewed R now l msg d) = mc_same b d"
  "about msg' (mc_renewed R now l msg d) = about msg' d"
  "mc_seqnortr (mc_renewed R now l msg d) = mc_seqnortr d"
  "removal_time (mc_renewed R now l msg d) = timex_add R now l"
  by (simp_all add: mc_renewed_def mc_same_def about_def Let_def)

lemma xtimer_now_clk [simp]: "clk (snd (xtimer_now_timex w)) = clk w" "fst (xtimer_now_timex w) = clk w (tick w)"
  by (simp_all add: xtimer_now_timex_def)

lemma reset_clk: "mc_reset_entry_if_stale R w e = (e', w') \<Longrightarrow> clk w' = clk w"
  by (auto simp: mc_reset_entry_if_stale_def xtimer_now_timex_def split: if_splits)

lemma find_clk: "find_comparable_entry R msg w es = (r, es', w') \<Longrightarrow> clk w' = clk w"
  by (induction es arbitrary: w es' r) (auto split: if_splits prod.splits dest: reset_clk)

lemma search_clk: "search_better R c k w es = (r, es', w') \<Longrightarrow> clk w' = clk w"
  by (induction es arbitrary: k w es' r) (auto split: if_splits prod.splits dest: reset_clk)

text \<open>A comparable request is renewed in place; the last loop only ages the other slots.\<close>

lemma process_known:
  assumes ok: "addr_ok R" and inv: "slots_inv (mc_entries s)"
    and find: "find_comparable_entry R msg w (mc_entries s) = (Some k, es, w1)"
  shows "\<exists>es' w'. aodvv2_mcmsg_process R msg s w =
       (if mc_redundant msg (mc_data (es ! k)) then AODVV2_MCMSG_REDUNDANT else AODVV2_MCMSG_OK,
        s\<lparr>mc_entries := es'\<rparr>, w') \<and>
     thinned (es[k := (es ! k)\<lparr>mc_data := mc_renewed R (clk w (tick w1)) (mc_max_seqnum_lifetime s) msg (mc_data (es ! k))\<rparr>]) es' \<and>
     es' ! k = (es ! k)\<lparr>mc_data := mc_renewed R (clk w (tick w1)) (mc_max_seqnum_lifetime s) msg (mc_data (es ! k))\<rparr> \<and>
     clk w' = clk w"
proof -
  let ?d = "mc_data (es ! k)" and ?now = "clk w (tick w1)"
  let ?n = "mc_renewed R ?now (mc_max_seqnum_lifetime s) msg ?d"
  let ?es2 = "es[k := (es ! k)\<lparr>mc_data := ?n\<rparr>]"
  obtain w2 where w2: "xtimer_now_timex w1 = (?now, w2)" and clk2: "clk w2 = clk w"
    using find_clk [OF find] by (simp add: xtimer_now_timex_def)
  from find_Some [OF find] have k: "k < length es" "mc_used (es ! k)" by simp_all
  from thinned_inv [OF inv find_thinned [OF find]] have inv': "slots_inv es" .
  show ?thesis
  proof (cases "mc_redundant msg ?d")
    case True
    with find w2 clk2 k show ?thesis
      by (auto simp: aodvv2_mcmsg_process_def mc_redundant_def mc_renewed_def Let_def)
  next
    case False
    obtain b es3 w3 where search: "search_better R ?n (Some k) w2 ?es2 = (b, es3, w3)" by (metis prod_cases3)
    have "\<not> b"
    proof (rule search_none [OF search])
      fix j assume j: "j < length ?es2" "Some k \<noteq> Some j" "mc_used (?es2 ! j)"
      with inv' k show "\<not> is_compatible_mcmsg R ?n (mc_data (?es2 ! j))"
        by (auto simp: compatible_mcmsg_iff [OF ok] slots_inv_def)
    qed
    moreover have "es3 ! k = ?es2 ! k" by (rule search_keeps [OF search]) (simp add: k)
    ultimately have "aodvv2_mcmsg_process R msg s w = (AODVV2_MCMSG_OK, s\<lparr>mc_entries := es3\<rparr>, w3)"
      using find w2 k False search
      by (auto simp: aodvv2_mcmsg_process_def mc_redundant_def mc_renewed_def Let_def)
    with False search_thinned [OF search] search_clk [OF search] clk2 k \<open>es3 ! k = ?es2 ! k\<close> show ?thesis
      by (intro exI [where x = es3] exI [where x = w3]) simp
  qed
qed

lemma process_unknown:
  assumes find: "find_comparable_entry R msg w (mc_entries s) = (None, es, w1)"
  shows "aodvv2_mcmsg_process R msg s w =
    (case first_idx (\<lambda>e. \<not> mc_used e) es of
       None \<Rightarrow> (AODVV2_MCMSG_OK, s\<lparr>mc_entries := es\<rparr>, w1)
     | Some i \<Rightarrow> (AODVV2_MCMSG_OK,
         s\<lparr>mc_entries := es[i := mc_fill R (mc_max_seqnum_lifetime s) (msg, clk w1 (tick w1)) (es ! i)]\<rparr>,
         w1\<lparr>tick := Suc (tick w1)\<rparr>))"
  using find by (simp add: aodvv2_mcmsg_process_def mc_add_def mc_place_def xtimer_now_timex_def split: option.splits)

lemma mc_inv_init: "timex_ok R \<Longrightarrow> mc_inv (aodvv2_mcmsg_init R)"
  by (simp add: mc_inv_def aodvv2_mcmsg_init_def timex_set_sec slots_inv_def mc_free_slot_def mcmsg_zero_def)

lemma mc_inv_process:
  assumes ok: "addr_ok R" and inv: "mc_inv s" and rtr: "seqnortr msg = 0"
  shows "mc_inv (fst (snd (aodvv2_mcmsg_process R msg s w)))"
proof -
  obtain r es w1 where find: "find_comparable_entry R msg w (mc_entries s) = (r, es, w1)" by (metis prod_cases3)
  from inv have slots: "slots_inv (mc_entries s)" by (simp add: mc_inv_def)
  note th = find_thinned [OF find]
  note es = thinned_inv [OF slots th]
  show ?thesis
  proof (cases r)
    case (Some k)
    let ?n = "mc_renewed R (clk w (tick w1)) (mc_max_seqnum_lifetime s) msg (mc_data (es ! k))"
    from find Some have find': "find_comparable_entry R msg w (mc_entries s) = (Some k, es, w1)" by simp
    from find_Some [OF find'] have k: "k < length es" "mc_used (es ! k)" by simp_all
    have "slots_inv (es[k := (es ! k)\<lparr>mc_data := ?n\<rparr>])"
      by (rule slots_inv_update [OF es]) (use es k in \<open>auto simp: slots_inv_def\<close>)
    then have next_inv: "slots_inv es' \<and> length es' = length es" if "thinned (es[k := (es ! k)\<lparr>mc_data := ?n\<rparr>]) es'" for es'
      using thinned_inv [OF _ that] thinned_length [OF that] by simp
    from process_known [OF ok slots find'] next_inv inv thinned_length [OF th] show ?thesis
      by (auto simp: mc_inv_def)
  next
    case None
    show ?thesis
    proof (cases "first_idx (\<lambda>e. \<not> mc_used e) es")
      case None
      with \<open>r = None\<close> find inv es th show ?thesis
        by (simp add: process_unknown mc_inv_def thinned_length)
    next
      case (Some i)
      let ?e = "mc_fill R (mc_max_seqnum_lifetime s) (msg, clk w1 (tick w1)) (es ! i)"
      from Some have i: "i < length es" "\<not> mc_used (es ! i)" by (simp_all add: first_idx_Some_iff)
      with es have free: "es ! i = mc_free_slot" by (auto simp: slots_inv_def dest: nth_mem)
      have "slots_inv (es[i := ?e])"
      proof (rule slots_inv_update [OF es i(1)])
        show "if mc_used ?e then mc_seqnortr (mc_data ?e) = 0 else ?e = mc_free_slot"
          by (simp add: free mc_fill_def mc_free_slot_def mcmsg_zero_def)
      next
        fix j assume j: "j < length es" "mc_used (es ! j)"
        then have "es ! j \<in> set es" by simp
        with j find None es rtr ok have "\<not> about msg (mc_data (es ! j))"
          by (auto simp: slots_inv_def comparable_iff dest!: find_None)
        moreover have "about msg (mc_data ?e)" by (simp add: about_def mc_fill_def)
        ultimately show "\<not> mc_same (mc_data (es ! j)) (mc_data ?e)"
          by (auto simp: about_def mc_same_def)
      qed
      with Some \<open>r = None\<close> find inv th show ?thesis
        by (simp add: process_unknown mc_inv_def thinned_length)
    qed
  qed
qed

text \<open>
  What holds whatever messages the set has seen, those with a SeqNoRtr included (the message that
  \<open>aodvv2_find_route\<close> builds on its stack has whatever was there): 16 slots, free ones zeroed, no
  SeqNoRtr stored. A message with a SeqNoRtr is comparable to no entry, so its copies are stored again, and two entries
  for one request can appear; with \<open>U\<close> there are none.
\<close>

definition slot_ok :: "mc_slot \<Rightarrow> bool" where
  "slot_ok e \<longleftrightarrow> (if mc_used e then mc_seqnortr (mc_data e) = 0 else e = mc_free_slot)"

definition mc_shape :: "mcset \<Rightarrow> bool" where
  "mc_shape s \<longleftrightarrow> length (mc_entries s) = CONFIG_AODVV2_MCMSG_MAX_ENTRIES \<and> (\<forall>e \<in> set (mc_entries s). slot_ok e) \<and>
     mc_max_seqnum_lifetime s = \<lparr>seconds = 300, microseconds = 0\<rparr>"

definition mc_ok :: "bool \<Rightarrow> mcset \<Rightarrow> bool" where
  "mc_ok U s \<longleftrightarrow> mc_shape s \<and> (U \<longrightarrow> mc_inv s)"

lemma mc_inv_shape: "mc_inv s \<Longrightarrow> mc_shape s"
  by (simp add: mc_inv_def mc_shape_def slots_inv_def slot_ok_def)

lemma mc_ok_True [simp]: "mc_ok True s = mc_inv s"
  by (auto simp: mc_ok_def mc_inv_shape)

lemma mc_ok_inv: "mc_inv s \<Longrightarrow> mc_ok U s"
  by (simp add: mc_ok_def mc_inv_shape)

lemma slot_ok_free [simp]: "slot_ok mc_free_slot"
  by (simp add: slot_ok_def mc_free_slot_def)

lemma thinned_shape: "thinned es es' \<Longrightarrow> \<forall>e \<in> set es. slot_ok e \<Longrightarrow> \<forall>e \<in> set es'. slot_ok e"
  by (simp add: all_set_conv_all_nth thinned_length) (metis thinned_nth slot_ok_free)

lemma update_shape: "\<forall>e \<in> set es. slot_ok e \<Longrightarrow> slot_ok e \<Longrightarrow> \<forall>e \<in> set (es[i := e]). slot_ok e"
  by (auto dest!: set_update_subset_insert [THEN subsetD])

lemma mc_shape_process:
  assumes "mc_shape s"
  shows "mc_shape (fst (snd (aodvv2_mcmsg_process R msg s w)))"
proof -
  obtain r es w1 where find: "find_comparable_entry R msg w (mc_entries s) = (r, es, w1)" by (metis prod_cases3)
  note th = find_thinned [OF find]
  from assms thinned_shape [OF th] have es: "\<forall>e \<in> set es. slot_ok e" "length es = CONFIG_AODVV2_MCMSG_MAX_ENTRIES"
      and life: "mc_max_seqnum_lifetime s = \<lparr>seconds = 300, microseconds = 0\<rparr>"
    by (simp_all add: mc_shape_def thinned_length [OF th])
  show ?thesis
  proof (cases r)
    case None
    note run = process_unknown [OF find [unfolded None]]
    show ?thesis
    proof (cases "first_idx (\<lambda>e. \<not> mc_used e) es")
      case None
      with run es life show ?thesis by (simp add: mc_shape_def)
    next
      case (Some i)
      let ?e = "mc_fill R (mc_max_seqnum_lifetime s) (msg, clk w1 (tick w1)) (es ! i)"
      from Some have "i < length es" "\<not> mc_used (es ! i)" by (simp_all add: first_idx_Some_iff)
      with es have "es ! i = mc_free_slot" by (metis nth_mem slot_ok_def)
      then have "slot_ok ?e" by (simp add: mc_fill_def slot_ok_def mc_free_slot_def mcmsg_zero_def)
      from update_shape [OF es(1) this] run Some es(2) life show ?thesis by (simp add: mc_shape_def)
    qed
  next
    case (Some k)
    from find Some have find': "find_comparable_entry R msg w (mc_entries s) = (Some k, es, w1)" by simp
    from find_Some [OF find'] have k: "k < length es" "mc_used (es ! k)" by blast+
    with es(1) have k3: "mc_seqnortr (mc_data (es ! k)) = 0" by (metis nth_mem slot_ok_def)
    let ?now = "clk w1 (tick w1)" and ?d0 = "mc_data (es ! k)" and ?w = "w1\<lparr>tick := Suc (tick w1)\<rparr>"
    let ?d = "?d0\<lparr>mc_timestamp := ?now, removal_time := timex_add R ?now (mc_max_seqnum_lifetime s)\<rparr>"
    let ?d' = "?d\<lparr>orig_seqnum := nd_seqnum (orig_node msg), mc_metric := nd_metric (orig_node msg)\<rparr>"
    let ?ok = "\<lambda>es'. (\<forall>e \<in> set es'. slot_ok e) \<and> length es' = CONFIG_AODVV2_MCMSG_MAX_ENTRIES"
    have upd: "?ok (es[k := (es ! k)\<lparr>mc_data := d\<rparr>])" if "mc_seqnortr d = 0" for d
    proof
      from that k(2) have "slot_ok ((es ! k)\<lparr>mc_data := d\<rparr>)" by (simp add: slot_ok_def)
      with es(1) show "\<forall>e \<in> set (es[k := (es ! k)\<lparr>mc_data := d\<rparr>]). slot_ok e" by (rule update_shape)
      show "length (es[k := (es ! k)\<lparr>mc_data := d\<rparr>]) = CONFIG_AODVV2_MCMSG_MAX_ENTRIES" using es(2) by simp
    qed
    obtain b es3 w3 where search: "search_better R ?d' (Some k) ?w (es[k := (es ! k)\<lparr>mc_data := ?d'\<rparr>]) = (b, es3, w3)"
      by (metis prod_cases3)
    have new: "?ok (es[k := (es ! k)\<lparr>mc_data := ?d\<rparr>])" by (rule upd) (simp add: k3)
    have "?ok (es[k := (es ! k)\<lparr>mc_data := ?d'\<rparr>])" by (rule upd) (simp add: k3)
    then have ok3: "?ok es3"
      using thinned_shape [OF search_thinned [OF search]] thinned_length [OF search_thinned [OF search]] by metis
    have "fst (snd (aodvv2_mcmsg_process R msg s w)) = s\<lparr>mc_entries := es3\<rparr> \<or>
        fst (snd (aodvv2_mcmsg_process R msg s w)) = s\<lparr>mc_entries := es[k := (es ! k)\<lparr>mc_data := ?d\<rparr>]\<rparr>"
      using k(1) search by (simp add: aodvv2_mcmsg_process_def find Some xtimer_now_timex_def Let_def)
    then show ?thesis
    proof
      assume set_is: "fst (snd (aodvv2_mcmsg_process R msg s w)) = s\<lparr>mc_entries := es3\<rparr>"
      show ?thesis unfolding set_is using life ok3 by (simp add: mc_shape_def)
    next
      assume set_is: "fst (snd (aodvv2_mcmsg_process R msg s w)) = s\<lparr>mc_entries := es[k := (es ! k)\<lparr>mc_data := ?d\<rparr>]\<rparr>"
      show ?thesis unfolding set_is mc_shape_def using life new by simp
    qed
  qed
qed

lemma mc_ok_process:
  assumes "addr_ok R" and "mc_ok U s" and "U \<Longrightarrow> seqnortr msg = 0"
  shows "mc_ok U (fst (snd (aodvv2_mcmsg_process R msg s w)))"
  using assms mc_shape_process mc_inv_process by (auto simp: mc_ok_def)

text \<open>
  The set's invariant holds after \<open>aodvv2_mcmsg_init\<close> and is kept by every
  \<open>aodvv2_mcmsg_process\<close> of a message without SeqNoRtr (the reader never sets one): at most one live
  entry for each (OrigPrefix, length, TargPrefix, MetricType), free slots zeroed, 16 slots.
\<close>

lemma mcmsg_process_keeps_inv:
  assumes "riot_ok R"
  shows "mc_inv (aodvv2_mcmsg_init R) \<and>
    (mc_inv s \<and> seqnortr msg = 0 \<longrightarrow> mc_inv (fst (snd (aodvv2_mcmsg_process R msg s w))))"
  using assms by (auto intro: mc_inv_init mc_inv_process)

definition mc_ref :: mcset where
  "mc_ref = aodvv2_mcmsg_init riot_ref"

lemma mc_ref_inv: "mc_inv mc_ref"
  unfolding mc_ref_def by (intro mc_inv_init timex_ok_ref)

lemma mcmsg_process_keeps_inv_witness:
  "mc_inv (fst (snd (aodvv2_mcmsg_process riot_ref message_zero mc_ref (world_at timex_zero))))"
  using mcmsg_process_keeps_inv [OF riot_ok_ref, of mc_ref message_zero] mc_ref_inv by (simp add: message_zero_def)

text \<open>No reading of the clock is past the entry's removal time.\<close>

definition fresh :: "riot \<Rightarrow> world \<Rightarrow> mcmsg \<Rightarrow> bool" where
  "fresh R w d \<longleftrightarrow> (\<forall>n. timex_cmp R (clk w n) (removal_time d) \<noteq> 1)"

lemma reset_fresh: "mc_reset_entry_if_stale R w e = (e', w') \<Longrightarrow> fresh R w (mc_data e) \<Longrightarrow> e' = e"
  by (auto simp: mc_reset_entry_if_stale_def fresh_def xtimer_now_timex_def split: if_splits)

lemma find_at:
  "k < length es \<Longrightarrow> mc_used (es ! k) \<Longrightarrow> is_comparable R (mc_data (es ! k)) msg \<Longrightarrow> fresh R w (mc_data (es ! k)) \<Longrightarrow>
     (\<And>j. j < k \<Longrightarrow> mc_used (es ! j) \<Longrightarrow> \<not> is_comparable R (mc_data (es ! j)) msg) \<Longrightarrow>
     \<exists>es' w'. find_comparable_entry R msg w es = (Some k, es', w') \<and> es' ! k = es ! k"
proof (induction es arbitrary: k w)
  case (Cons e es)
  obtain e' w' where r: "mc_reset_entry_if_stale R w e = (e', w')" by (metis surj_pair)
  show ?case
  proof (cases k)
    case 0
    with Cons.prems reset_fresh [OF r] r show ?thesis by simp
  next
    case (Suc i)
    have "\<not> (mc_used e' \<and> is_comparable R (mc_data e') msg)"
      using Cons.prems(5) [of 0] Suc reset_cases [of R w e] r by (auto simp: mc_free_slot_def)
    moreover have "\<exists>es' w''. find_comparable_entry R msg w' es = (Some i, es', w'') \<and> es' ! i = es ! i"
    proof (rule Cons.IH)
      show "fresh R w' (mc_data (es ! i))" using Cons.prems(4) Suc reset_clk [OF r] by (simp add: fresh_def)
      show "\<not> is_comparable R (mc_data (es ! j)) msg" if "j < i" "mc_used (es ! j)" for j
        using Cons.prems(5) [of "Suc j"] that Suc by simp
    qed (use Cons.prems Suc in simp_all)
    ultimately show ?thesis using r Suc by auto
  qed
qed simp

lemma process_fresh:
  assumes ok: "addr_ok R" and inv: "mc_inv s" and rtr: "seqnortr msg = 0"
    and k: "k < length (mc_entries s)" "mc_used (mc_entries s ! k)"
    and d: "d = mc_data (mc_entries s ! k)" "about msg d" "fresh R w d"
  shows "\<exists>s' w' n. aodvv2_mcmsg_process R msg s w =
       (if mc_redundant msg d then AODVV2_MCMSG_REDUNDANT else AODVV2_MCMSG_OK, s', w') \<and> clk w' = clk w \<and>
     mc_entries s' ! k = \<lparr>mc_data = mc_renewed R (clk w n) (mc_max_seqnum_lifetime s) msg d, mc_used = True\<rparr>"
proof -
  from inv have slots: "slots_inv (mc_entries s)" by (simp add: mc_inv_def)
  have comparable: "is_comparable R (mc_data e) msg \<longleftrightarrow> about msg (mc_data e)" if "e \<in> set (mc_entries s)" "mc_used e" for e
    using slots that ok rtr by (simp add: comparable_iff slots_inv_def)
  have other: "\<not> about msg (mc_data (mc_entries s ! j))" if "j < k" "mc_used (mc_entries s ! j)" for j
  proof
    assume "about msg (mc_data (mc_entries s ! j))"
    with about_same d(1,2) have "mc_same (mc_data (mc_entries s ! j)) (mc_data (mc_entries s ! k))" by blast
    with slots that k have "j = k" by (simp add: slots_inv_def)
    with that(1) show False by simp
  qed
  have "is_comparable R (mc_data (mc_entries s ! k)) msg"
    using comparable [OF nth_mem [OF k(1)] k(2)] d by simp
  from find_at [OF k this, of w] d other comparable k(1)
  obtain es w1 where find: "find_comparable_entry R msg w (mc_entries s) = (Some k, es, w1)"
    and es: "es ! k = mc_entries s ! k" by (metis nth_mem less_trans)
  from process_known [OF ok slots find] es k d show ?thesis
    by (auto simp: mc_slot.defs intro!: exI [where x = "tick w1"])
qed

text \<open>
  C15. A request the set already knows and has not aged out is redundant exactly if the stored
  sequence number is newer, or it is the same and the metrics are equal. A request with the same
  sequence number and a different metric, better or worse, passes, and its metric replaces the
  stored one. Either way the entry lives on for another \<open>CONFIG_AODVV2_MAX_SEQNUM_LIFETIME\<close>.
\<close>

theorem mcmsg_known_request:
  assumes "riot_ok R" and "mc_inv s" and "seqnortr msg = 0"
    and "k < length (mc_entries s)" and "mc_used (mc_entries s ! k)"
    and "d = mc_data (mc_entries s ! k)" and "about msg d" and "fresh R w d"
    and "aodvv2_mcmsg_process R msg s w = (r, s', w')"
  shows "(r = AODVV2_MCMSG_REDUNDANT \<longleftrightarrow>
      aodvv2_seqnum_cmp (orig_seqnum d) (nd_seqnum (orig_node msg)) < 0 \<or>
      orig_seqnum d = nd_seqnum (orig_node msg) \<and> mc_metric d = nd_metric (orig_node msg)) \<and>
    mc_used (mc_entries s' ! k) \<and>
    (let d' = mc_data (mc_entries s' ! k) in
      (orig_seqnum d', mc_metric d') =
        (if r = AODVV2_MCMSG_REDUNDANT then (orig_seqnum d, mc_metric d)
         else (nd_seqnum (orig_node msg), nd_metric (orig_node msg))) \<and>
      (\<exists>n. removal_time d' = timex_add R (clk w n) \<lparr>seconds = 300, microseconds = 0\<rparr>))"
proof -
  from assms(1) have addr: "addr_ok R" by blast
  from assms(2) have life: "mc_max_seqnum_lifetime s = \<lparr>seconds = 300, microseconds = 0\<rparr>" by (simp add: mc_inv_def)
  from process_fresh [OF addr assms(2-8)] assms(9) obtain n
    where r: "r = (if mc_redundant msg d then AODVV2_MCMSG_REDUNDANT else AODVV2_MCMSG_OK)"
    and e: "mc_entries s' ! k = \<lparr>mc_data = mc_renewed R (clk w n) (mc_max_seqnum_lifetime s) msg d, mc_used = True\<rparr>"
    by auto
  have iff: "r = AODVV2_MCMSG_REDUNDANT \<longleftrightarrow> mc_redundant msg d"
    by (simp add: r AODVV2_MCMSG_REDUNDANT_def AODVV2_MCMSG_OK_def)
  have "(orig_seqnum (mc_renewed R t l msg d), mc_metric (mc_renewed R t l msg d)) =
      (if mc_redundant msg d then (orig_seqnum d, mc_metric d)
       else (nd_seqnum (orig_node msg), nd_metric (orig_node msg)))" for t l
    by (simp add: mc_renewed_def Let_def)
  moreover have "mc_redundant msg d \<longleftrightarrow> aodvv2_seqnum_cmp (orig_seqnum d) (nd_seqnum (orig_node msg)) < 0 \<or>
      orig_seqnum d = nd_seqnum (orig_node msg) \<and> mc_metric d = nd_metric (orig_node msg)"
    by (simp add: mc_redundant_def Let_def seqnum_cmp_0_iff)
  ultimately show ?thesis using e iff life by (auto simp: Let_def)
qed

definition mc_request :: "u8 \<Rightarrow> aodvv2_message" where
  "mc_request m = message_zero\<lparr>orig_node := \<lparr>nd_addr = 1, nd_pfx_len = 128, nd_metric = m, nd_seqnum = 5\<rparr>,
     targ_node := \<lparr>nd_addr = 2, nd_pfx_len = 128, nd_metric = 0, nd_seqnum = 0\<rparr>, metric_type := 3\<rparr>"

definition mc_slot_one :: mc_slot where
  "mc_slot_one = \<lparr>mc_data = mcmsg_zero\<lparr>orig_prefix := 1, orig_pfx_len := 128, targ_prefix := 2, mc_metric_type := 3,
     mc_metric := 4, orig_seqnum := 5\<rparr>, mc_used = True\<rparr>"

definition mc_one :: mcset where
  "mc_one = mc_ref\<lparr>mc_entries := (mc_entries mc_ref)[0 := mc_slot_one]\<rparr>"

lemma mc_ref_entries: "mc_entries mc_ref = replicate 16 mc_free_slot"
  by (simp add: mc_ref_def aodvv2_mcmsg_init_def CONFIG_AODVV2_MCMSG_MAX_ENTRIES_def)

lemma mc_one_inv: "mc_inv mc_one"
proof -
  have "slots_inv ((mc_entries mc_ref)[0 := mc_slot_one])"
    by (rule slots_inv_update) (use mc_ref_inv in \<open>auto simp: mc_inv_def mc_ref_entries mc_free_slot_def mcmsg_zero_def mc_slot_one_def\<close>)
  then show ?thesis using mc_ref_inv by (simp add: mc_inv_def mc_one_def)
qed

text \<open>The stored request had metric 4; a copy of it with metric 7 is not suppressed.\<close>

theorem mcmsg_known_request_witness:
  "fst (aodvv2_mcmsg_process riot_ref (mc_request 7) mc_one (world_at timex_zero)) \<noteq> AODVV2_MCMSG_REDUNDANT"
proof -
  obtain r s' w' where p: "aodvv2_mcmsg_process riot_ref (mc_request 7) mc_one (world_at timex_zero) = (r, s', w')"
    by (metis prod_cases3)
  let ?d = "mc_data (mc_entries mc_one ! 0)"
  have "0 < length (mc_entries mc_one)" "mc_used (mc_entries mc_one ! 0)" "about (mc_request 7) ?d"
      "fresh riot_ref (world_at timex_zero) ?d" "seqnortr (mc_request 7) = 0"
    by (simp_all add: mc_one_def mc_slot_one_def mc_ref_entries mc_request_def message_zero_def about_def mcmsg_zero_def
         fresh_def world_at_def riot_ref_def timex_zero_def)
  from mcmsg_known_request [OF riot_ok_ref mc_one_inv this(5,1,2) refl this(3,4) p]
  have "r = AODVV2_MCMSG_REDUNDANT \<longleftrightarrow>
      aodvv2_seqnum_cmp (orig_seqnum ?d) 5 < 0 \<or> orig_seqnum ?d = 5 \<and> mc_metric ?d = 7"
    by (simp add: mc_request_def)
  with p show ?thesis by (simp add: mc_one_def mc_slot_one_def mc_ref_entries)
qed

text \<open>With room for it, a processed request leaves an entry that makes its duplicates redundant.\<close>

definition mc_room :: "riot \<Rightarrow> world \<Rightarrow> aodvv2_message \<Rightarrow> mcset \<Rightarrow> bool" where
  "mc_room R w msg s \<longleftrightarrow> (\<exists>e \<in> set (mc_entries s). mc_used e \<longrightarrow> about msg (mc_data e) \<and> fresh R w (mc_data e))"

lemma renewed_redundant: "mc_redundant msg (mc_renewed R now l msg d)"
  by (simp add: mc_redundant_def mc_renewed_def Let_def)

lemma process_leaves_entry:
  assumes ok: "addr_ok R" and inv: "mc_inv s" and rtr: "seqnortr msg = 0" and room: "mc_room R w msg s"
    and run: "aodvv2_mcmsg_process R msg s w = (r, s', w')"
  shows "clk w' = clk w \<and> (\<exists>k < length (mc_entries s'). mc_used (mc_entries s' ! k) \<and> about msg (mc_data (mc_entries s' ! k)) \<and>
     mc_redundant msg (mc_data (mc_entries s' ! k)) \<and>
     (\<exists>n. removal_time (mc_data (mc_entries s' ! k)) = timex_add R (clk w n) (mc_max_seqnum_lifetime s)))"
proof -
  obtain c es w1 where find: "find_comparable_entry R msg w (mc_entries s) = (c, es, w1)" by (metis prod_cases3)
  from inv have slots: "slots_inv (mc_entries s)" by (simp add: mc_inv_def)
  show ?thesis
  proof (cases c)
    case (Some k)
    from find Some have find': "find_comparable_entry R msg w (mc_entries s) = (Some k, es, w1)" by simp
    from find_Some [OF find'] thinned_inv [OF slots find_thinned [OF find']] ok rtr
    have k: "k < length es" "mc_used (es ! k)" "about msg (mc_data (es ! k))"
      by (auto simp: slots_inv_def comparable_iff)
    from process_known [OF ok slots find'] run have "k < length (mc_entries s')"
      using k(1) by (auto dest: thinned_length)
    moreover from process_known [OF ok slots find'] run
    have "mc_entries s' ! k = (es ! k)\<lparr>mc_data := mc_renewed R (clk w (tick w1)) (mc_max_seqnum_lifetime s) msg (mc_data (es ! k))\<rparr>"
      and "clk w' = clk w" by auto
    ultimately show ?thesis using k
      by (intro conjI) (simp, rule exI [where x = k], auto simp: renewed_redundant)
  next
    case None
    from find None have find': "find_comparable_entry R msg w (mc_entries s) = (None, es, w1)" by simp
    from room obtain j where j: "j < length (mc_entries s)"
      and e: "mc_used (mc_entries s ! j) \<Longrightarrow> about msg (mc_data (mc_entries s ! j)) \<and> fresh R w (mc_data (mc_entries s ! j))"
      unfolding mc_room_def by (metis in_set_conv_nth)
    have "\<not> mc_used (es ! j)"
    proof (cases "mc_used (mc_entries s ! j)")
      case True
      with process_fresh [OF ok inv rtr j True refl] e find' show ?thesis
        using thinned_nth [OF find_thinned [OF find'] j] find_None [OF find', of "es ! j"] ok rtr slots j
          thinned_length [OF find_thinned [OF find']]
        by (auto simp: comparable_iff slots_inv_def mc_free_slot_def)
    next
      case False
      with thinned_nth [OF find_thinned [OF find'] j] show ?thesis by (auto simp: mc_free_slot_def)
    qed
    then obtain i where i: "first_idx (\<lambda>e. \<not> mc_used e) es = Some i"
      using j thinned_length [OF find_thinned [OF find']] first_idx_exists [of j es] by fastforce
    with process_unknown [OF find'] run have "mc_entries s' = es[i := mc_fill R (mc_max_seqnum_lifetime s) (msg, clk w1 (tick w1)) (es ! i)]"
      and "clk w' = clk w" using find_clk [OF find'] by auto
    moreover have "i < length es" using i by (simp add: first_idx_Some_iff)
    ultimately show ?thesis using find_clk [OF find']
      by (intro conjI) (simp, rule exI [where x = i], auto simp: mc_fill_def about_def mc_redundant_def Let_def)
  qed
qed

text \<open>Processing a message about another request leaves a live entry alone.\<close>

lemma find_keeps_fresh:
  "find_comparable_entry R msg w es = (r, es', w') \<Longrightarrow> j < length es \<Longrightarrow> fresh R w (mc_data (es ! j)) \<Longrightarrow> es' ! j = es ! j"
proof (induction es arbitrary: w es' r j w')
  case (Cons e es)
  obtain e' v where reset: "mc_reset_entry_if_stale R w e = (e', v)" by (metis surj_pair)
  obtain r' es'' w'' where rest: "find_comparable_entry R msg v es = (r', es'', w'')" by (metis prod_cases3)
  have head: "e' = e" if "fresh R w (mc_data e)" using reset_fresh [OF reset that] .
  have tail: "es'' ! i = es ! i" if "i < length es" "fresh R w (mc_data (es ! i))" for i
    using Cons.IH [OF rest that(1)] that(2) reset_clk [OF reset] by (simp add: fresh_def)
  from Cons.prems(1) reset rest have "es' = e' # es \<or> es' = e' # es''" by (auto split: if_splits)
  with Cons.prems(2,3) head tail show ?case by (cases j) auto
qed simp

lemma search_keeps_fresh:
  "search_better R c k w es = (r, es', w') \<Longrightarrow> j < length es \<Longrightarrow> fresh R w (mc_data (es ! j)) \<Longrightarrow> es' ! j = es ! j"
proof (induction es arbitrary: k w es' r j w')
  case (Cons e es)
  obtain e' v where reset: "mc_reset_entry_if_stale R w e = (e', v)" by (metis surj_pair)
  have head: "e' = e" if "fresh R w (mc_data e)" using reset_fresh [OF reset that] .
  have tail: "es'' ! i = es ! i" if "search_better R c k' v' es = (r', es'', w'')" "i < length es" "fresh R w (mc_data (es ! i))"
      "clk v' = clk w" for i k' v' r' es'' w''
    using Cons.IH [OF that(1,2)] that(3,4) by (simp add: fresh_def)
  obtain r1 es1 w1 where rest1: "search_better R c None w es = (r1, es1, w1)" by (metis prod_cases3)
  obtain r2 es2 w2 where rest2: "search_better R c (map_option (\<lambda>n. n - 1) k) v es = (r2, es2, w2)" by (metis prod_cases3)
  from Cons.prems(1) reset rest1 rest2 have "es' = e # es1 \<or> es' = e' # es \<or> es' = e' # es2" by (auto split: if_splits)
  with Cons.prems(2,3) head tail [OF rest1] tail [OF rest2] reset_clk [OF reset] show ?case by (cases j) auto
qed simp

lemma process_other_keeps:
  assumes "addr_ok R" and inv: "mc_inv s" and rtr: "seqnortr msg = 0"
    and j: "j < length (mc_entries s)" "mc_used (mc_entries s ! j)" "fresh R w (mc_data (mc_entries s ! j))"
      "\<not> about msg (mc_data (mc_entries s ! j))"
    and run: "aodvv2_mcmsg_process R msg s w = (r, s', w')"
  shows "mc_entries s' ! j = mc_entries s ! j \<and> length (mc_entries s') = length (mc_entries s) \<and> clk w' = clk w \<and> mc_inv s'"
proof -
  obtain c es w1 where find: "find_comparable_entry R msg w (mc_entries s) = (c, es, w1)" by (metis prod_cases3)
  note es = find_keeps_fresh [OF find j(1,3)] thinned_length [OF find_thinned [OF find]] find_clk [OF find]
  have inv': "mc_inv s'" using mc_inv_process [OF assms(1) inv rtr, of w] run by simp
  from inv inv' have len: "length (mc_entries s') = length (mc_entries s)" by (simp add: mc_inv_def)
  show ?thesis
  proof (cases c)
    case None
    from process_unknown [OF find [unfolded None]] run
    have "clk w' = clk w \<and> (mc_entries s' = es \<or> (\<exists>i e. first_idx (\<lambda>e. \<not> mc_used e) es = Some i \<and> mc_entries s' = es[i := e]))"
      using es(3) by (auto split: option.splits)
    moreover have "i \<noteq> j" if "first_idx (\<lambda>e. \<not> mc_used e) es = Some i" for i
      using that j(2) es(1) by (auto simp: first_idx_Some_iff)
    ultimately show ?thesis using es(1) len inv' by auto
  next
    case (Some k)
    from find_Some [OF find [unfolded Some]] have k: "k < length es" "is_comparable R (mc_data (es ! k)) msg" by auto
    have "about msg (mc_data (es ! k))" using k(2) assms(1) by (auto simp: is_comparable_def compatible_iff split: if_splits)
    with j(4) es(1) have kj: "k \<noteq> j" by auto
    let ?now = "clk w1 (tick w1)" and ?d0 = "mc_data (es ! k)" and ?w = "w1\<lparr>tick := Suc (tick w1)\<rparr>"
    let ?d = "?d0\<lparr>mc_timestamp := ?now, removal_time := timex_add R ?now (mc_max_seqnum_lifetime s)\<rparr>"
    let ?d' = "?d\<lparr>orig_seqnum := nd_seqnum (orig_node msg), mc_metric := nd_metric (orig_node msg)\<rparr>"
    obtain b es3 w3 where search: "search_better R ?d' (Some k) ?w (es[k := (es ! k)\<lparr>mc_data := ?d'\<rparr>]) = (b, es3, w3)"
      by (metis prod_cases3)
    have "es3 ! j = es ! j"
      using search_keeps_fresh [OF search, of j] j(1,3) es kj by (simp add: fresh_def)
    moreover have "clk w3 = clk w" using search_clk [OF search] es(3) by simp
    moreover have "mc_entries s' = es3 \<and> clk w' = clk w3 \<or> mc_entries s' = es[k := (es ! k)\<lparr>mc_data := ?d\<rparr>] \<and> clk w' = clk w1"
      using run k(1) search by (auto simp: aodvv2_mcmsg_process_def find Some xtimer_now_timex_def Let_def split: if_splits)
    ultimately show ?thesis using es kj len inv' by auto
  qed
qed

text \<open>The same route request: OrigNode, its prefix length, TargNode and the metric type agree.\<close>

definition same_request :: "aodvv2_message \<Rightarrow> aodvv2_message \<Rightarrow> bool" where
  "same_request a b \<longleftrightarrow> nd_addr (orig_node a) = nd_addr (orig_node b) \<and> nd_pfx_len (orig_node a) = nd_pfx_len (orig_node b) \<and>
     nd_addr (targ_node a) = nd_addr (targ_node b) \<and> metric_type a = metric_type b"

text \<open>
  A copy of a request: the same route request with OrigNode's sequence number and metric, whoever
  sent it and whatever its hop limit.
\<close>

definition rreq_copy :: "aodvv2_message \<Rightarrow> aodvv2_message \<Rightarrow> bool" where
  "rreq_copy a b \<longleftrightarrow> same_request a b \<and> nd_seqnum (orig_node a) = nd_seqnum (orig_node b) \<and>
     nd_metric (orig_node a) = nd_metric (orig_node b) \<and> seqnortr a = 0"

text \<open>Any number of messages about requests other than that of \<open>msg\<close>, none with a SeqNoRtr.\<close>

inductive mc_others :: "riot \<Rightarrow> aodvv2_message \<Rightarrow> mcset \<Rightarrow> world \<Rightarrow> mcset \<Rightarrow> world \<Rightarrow> bool" for R msg s w where
  none: "clk w' = clk w \<Longrightarrow> mc_others R msg s w s w'"
| other: "mc_others R msg s w s1 w1 \<Longrightarrow> seqnortr m = 0 \<Longrightarrow> \<not> same_request m msg \<Longrightarrow>
    aodvv2_mcmsg_process R m s1 w1 = (r, s2, w2) \<Longrightarrow> clk w3 = clk w2 \<Longrightarrow> mc_others R msg s w s2 w3"

lemma others_keep:
  assumes "mc_others R msg s w s' w'" and "addr_ok R" and "mc_inv s"
    and "j < length (mc_entries s)" "mc_used (mc_entries s ! j)" "fresh R w (mc_data (mc_entries s ! j))"
      "about msg (mc_data (mc_entries s ! j))"
  shows "mc_entries s' ! j = mc_entries s ! j \<and> length (mc_entries s') = length (mc_entries s) \<and> clk w' = clk w \<and> mc_inv s'"
  using assms
proof (induction rule: mc_others.induct)
  case (other s1 w1 m r s2 w2 w3)
  then have ih: "mc_entries s1 ! j = mc_entries s ! j" "length (mc_entries s1) = length (mc_entries s)" "clk w1 = clk w" "mc_inv s1"
    by blast+
  have "\<not> about m (mc_data (mc_entries s ! j))" using other.hyps(3) other.prems(6) by (auto simp: about_def same_request_def)
  moreover have "fresh R w1 (mc_data (mc_entries s ! j))" using other.prems(5) ih(3) by (simp add: fresh_def)
  ultimately show ?case
    using process_other_keeps [OF other.prems(1) ih(4) other.hyps(2) _ _ _ _ other.hyps(4), of j] ih other.prems(3,4) other.hyps(5)
    by simp
qed simp

lemma process_duplicate:
  assumes "riot_ok R" and "mc_inv s" and "seqnortr msg = 0" and "mc_room R w msg s"
    and "\<And>n. normal (clk w n) \<and> usec (clk w n) + 300000000 < 2 ^ 32 * 1000000"
    and "\<And>m n. usec (clk w n) \<le> usec (clk w m) + 300000000"
    and "aodvv2_mcmsg_process R msg s w = (r, s', w')" and "clk u = clk w" and "mc_others R msg s' u s'' v" and "rreq_copy copy msg"
  shows "fst (aodvv2_mcmsg_process R copy s'' v) = AODVV2_MCMSG_REDUNDANT"
proof -
  from assms(1) have addr: "addr_ok R" and time: "timex_ok R" by blast+
  from process_leaves_entry [OF addr assms(2-4,7)] obtain k n where clk: "clk w' = clk w"
    and k: "k < length (mc_entries s')" "mc_used (mc_entries s' ! k)" "about msg (mc_data (mc_entries s' ! k))"
      "mc_redundant msg (mc_data (mc_entries s' ! k))"
    and rem: "removal_time (mc_data (mc_entries s' ! k)) = timex_add R (clk w n) (mc_max_seqnum_lifetime s)" by blast
  from assms(2) have life: "mc_max_seqnum_lifetime s = \<lparr>seconds = 300, microseconds = 0\<rparr>" by (simp add: mc_inv_def)
  have inv': "mc_inv s'" using mc_inv_process [OF addr assms(2,3), of w] assms(7) by simp
  have "normal (timex_add R (clk w n) (mc_max_seqnum_lifetime s)) \<and>
      usec (timex_add R (clk w n) (mc_max_seqnum_lifetime s)) = usec (clk w n) + 300000000"
    using timex_add_usec [OF time, of "clk w n" "mc_max_seqnum_lifetime s"] assms(5) [of n] by (simp add: life)
  then have "timex_cmp R (clk w m) (timex_add R (clk w n) (mc_max_seqnum_lifetime s)) \<noteq> 1" for m
    using assms(5) [of m] assms(6) [of m n] by (simp add: timex_cmp_usec [OF time])
  then have fresh: "fresh R u (mc_data (mc_entries s' ! k))" by (simp add: fresh_def assms(8) rem)
  from others_keep [OF assms(9) addr inv' k(1,2) this k(3)] have after: "mc_entries s'' ! k = mc_entries s' ! k"
      "length (mc_entries s'') = length (mc_entries s')" "clk v = clk u" "mc_inv s''" by blast+
  have "fresh R v (mc_data (mc_entries s' ! k))" using fresh after(3) by (simp add: fresh_def)
  moreover have "seqnortr copy = 0" "about copy (mc_data (mc_entries s' ! k))" "mc_redundant copy (mc_data (mc_entries s' ! k))"
    using assms(10) k(3,4) by (auto simp: rreq_copy_def same_request_def about_def mc_redundant_def)
  ultimately show ?thesis
    using process_fresh [OF addr after(4), of copy k "mc_data (mc_entries s' ! k)" v] after k(1,2) by auto
qed

text \<open>
  Duplicate suppression: when the set has room for a request (a free slot, or a live entry about
  it) and its copy arrives within the 300 s lifetime, the copy is redundant.
\<close>

lemma mcmsg_suppresses_duplicate:
  assumes "riot_ok R" and "mc_inv s" and "seqnortr msg = 0" and "mc_room R w msg s"
    and "\<And>n. normal (clk w n) \<and> usec (clk w n) + 300000000 < 2 ^ 32 * 1000000"
    and "\<And>m n. usec (clk w n) \<le> usec (clk w m) + 300000000"
    and "aodvv2_mcmsg_process R msg s w = (r, s', w')"
  shows "fst (aodvv2_mcmsg_process R msg s' w') = AODVV2_MCMSG_REDUNDANT"
  by (rule process_duplicate [OF assms(1-7) refl]) (use process_leaves_entry [of R s msg w] assms in \<open>auto simp: rreq_copy_def same_request_def intro: mc_others.none\<close>)

lemma mcmsg_suppresses_duplicate_witness:
  "fst (aodvv2_mcmsg_process riot_ref (mc_request 4) (fst (snd (aodvv2_mcmsg_process riot_ref (mc_request 4) mc_ref (world_at timex_zero))))
     (snd (snd (aodvv2_mcmsg_process riot_ref (mc_request 4) mc_ref (world_at timex_zero))))) = AODVV2_MCMSG_REDUNDANT"
proof -
  obtain r s' w' where p: "aodvv2_mcmsg_process riot_ref (mc_request 4) mc_ref (world_at timex_zero) = (r, s', w')"
    by (metis prod_cases3)
  have "fst (aodvv2_mcmsg_process riot_ref (mc_request 4) s' w') = AODVV2_MCMSG_REDUNDANT"
    by (rule mcmsg_suppresses_duplicate [OF riot_ok_ref mc_ref_inv _ _ _ _ p])
      (simp_all add: mc_request_def message_zero_def mc_room_def mc_ref_entries mc_free_slot_def world_at_def)
  with p show ?thesis by simp
qed

text \<open>
  C16. A full set does not stop floods: a request that matches no live entry of a full set is
  reported as new, and nothing is stored, so that its copies are reported as new as well.
\<close>

theorem mcmsg_full_set_forgets:
  assumes "riot_ok R" and "mc_inv s" and "seqnortr msg = 0"
    and "\<forall>e \<in> set (mc_entries s). mc_used e \<and> \<not> about msg (mc_data e) \<and> fresh R w (mc_data e)"
  shows "\<exists>w'. aodvv2_mcmsg_process R msg s w = (AODVV2_MCMSG_OK, s, w') \<and> clk w' = clk w"
proof -
  from assms(1) have addr: "addr_ok R" by blast
  have "find_comparable_entry R msg v es = (None, es, v\<lparr>tick := tick v + length es\<rparr>)"
    if "\<forall>e \<in> set es. mc_used e \<and> mc_seqnortr (mc_data e) = 0 \<and> \<not> about msg (mc_data e) \<and> fresh R w (mc_data e)"
      "clk v = clk w" for v es
    using that
  proof (induction es arbitrary: v)
    case (Cons e es)
    obtain e' v' where r: "mc_reset_entry_if_stale R v e = (e', v')" by (metis surj_pair)
    with Cons.prems have "e' = e" using reset_fresh [OF r] by (simp add: fresh_def)
    moreover have "v' = v\<lparr>tick := Suc (tick v)\<rparr>"
      using r Cons.prems(1) by (auto simp: mc_reset_entry_if_stale_def xtimer_now_timex_def split: if_splits)
    ultimately show ?case using r Cons by (simp add: comparable_iff [OF addr])
  qed simp
  moreover have "\<forall>e \<in> set (mc_entries s). mc_seqnortr (mc_data e) = 0"
    using assms(2,4) by (auto simp: mc_inv_def slots_inv_def)
  ultimately have "find_comparable_entry R msg w (mc_entries s) =
      (None, mc_entries s, w\<lparr>tick := tick w + length (mc_entries s)\<rparr>)"
    using assms(4) by simp
  from process_unknown [OF this] assms(4) show ?thesis
    by (simp add: first_idx_None_iff [THEN iffD2])
qed

definition mc_full :: mcset where
  "mc_full = mc_ref\<lparr>mc_entries :=
     map (\<lambda>i. mc_slot_one\<lparr>mc_data := (mc_data mc_slot_one)\<lparr>orig_prefix := of_nat i + 10\<rparr>\<rparr>) [0..<16]\<rparr>"

lemma mc_full_inv: "mc_inv mc_full"
proof -
  have "slots_inv (mc_entries mc_full)"
    unfolding slots_inv_def
  proof (intro conjI allI impI)
    show "\<forall>e \<in> set (mc_entries mc_full). if mc_used e then mc_seqnortr (mc_data e) = 0 else e = mc_free_slot"
      by (simp add: mc_full_def mc_slot_one_def mcmsg_zero_def)
  next
    fix i j assume "i < length (mc_entries mc_full)" "j < length (mc_entries mc_full)"
      and "mc_same (mc_data (mc_entries mc_full ! i)) (mc_data (mc_entries mc_full ! j))"
    then have ij: "i < 16" "j < 16" "(of_nat i :: ipv6_addr) = of_nat j" by (simp_all add: mc_full_def mc_same_def)
    then have "unat (of_nat i :: ipv6_addr) = unat (of_nat j :: ipv6_addr)" by metis
    with ij(1,2) show "i = j" by (simp only: unat_of_nat) (simp add: take_bit_nat_eq_self)
  qed
  then show ?thesis using mc_ref_inv by (simp add: mc_inv_def mc_full_def CONFIG_AODVV2_MCMSG_MAX_ENTRIES_def)
qed

theorem mcmsg_full_set_forgets_witness:
  "\<exists>w'. aodvv2_mcmsg_process riot_ref (mc_request 4) mc_full (world_at timex_zero) = (AODVV2_MCMSG_OK, mc_full, w') \<and>
     clk w' = clk (world_at timex_zero)"
proof (rule mcmsg_full_set_forgets [OF riot_ok_ref mc_full_inv])
  have "(of_nat i + 10 :: ipv6_addr) \<noteq> 1" if "i < 16" for i
  proof -
    have "unat (of_nat (i + 10) :: ipv6_addr) = i + 10" using that by (subst unat_of_nat) (simp add: take_bit_nat_eq_self)
    then have "unat (of_nat i + 10 :: ipv6_addr) \<noteq> unat (1 :: ipv6_addr)" by simp
    then show ?thesis by metis
  qed
  then show "\<forall>e \<in> set (mc_entries mc_full). mc_used e \<and> \<not> about (mc_request 4) (mc_data e) \<and>
      fresh riot_ref (world_at timex_zero) (mc_data e)"
    by (simp add: mc_full_def mc_slot_one_def mcmsg_zero_def about_def mc_request_def message_zero_def fresh_def
        world_at_def riot_ref_def timex_zero_def)
qed (simp add: mc_request_def message_zero_def)

end
