(* ===== verification/Node.thy ===== *)
theory Node
  imports Rcs Buffer Lrs Mcmsg
begin

text \<open>
  The state of an AODVv2 router and how messages get into the queue of its thread:
  \<open>mesh/sys/net/aodvv2/aodvv2.c\<close> (\<open>aodvv2_send_rreq\<close>, \<open>aodvv2_send_rrep\<close>, \<open>aodvv2_find_route\<close>,
  \<open>_route_info\<close>, \<open>aodvv2_init\<close>) and \<open>mesh/sys/net/manet/manet.c\<close>. Calls that leave the module (the
  forwarding table of the NIB, GNRC, UDP) are recorded in \<open>events\<close> in the order they happen.
\<close>

section \<open>State\<close>

record aodvv2_msg =
  m_pkt :: aodvv2_message
  m_next_hop :: ipv6_addr

text \<open>
  A message for the thread: one of its own, a packet from UDP (the source address in its IPv6 header, if it
  has one, and its data), a request to get or set an option, or a message of another type.
\<close>

datatype ipc = SendRreq aodvv2_msg | SendRrep aodvv2_msg | NetapiRcv "ipv6_addr option" "u8 list" | NetapiGetSet | OtherMsg

datatype event =
    NibAdd ipv6_addr u8 ipv6_addr nat
  | NibDel ipv6_addr u8
  | Pkt pkt_call

text \<open>
  \<open>msg_data\<close> is the reader's static message, \<open>queue\<close> the messages waiting for the thread, \<open>leaked\<close>
  counts allocated messages that no one can free any more.
\<close>

record node =
  msg_data :: aodvv2_message
  lrs_of :: lrs
  rcs_of :: rcs
  mcset_of :: mcset
  buffer_of :: buffer
  seqnum_of :: u32
  queue :: "ipc list"
  events :: "event list"
  leaked :: nat
  env :: world

definition IPV6_ADDR_ALL_MANET_ROUTERS_LINK_LOCAL :: ipv6_addr where
  "IPV6_ADDR_ALL_MANET_ROUTERS_LINK_LOCAL = 0xff02000000000000000000000000006d"

definition UDP_MANET_PORT :: u16 where "UDP_MANET_PORT = 269"

definition AODVV2_ROUTE_LIFETIME :: nat where
  "AODVV2_ROUTE_LIFETIME = unat (CONFIG_AODVV2_ACTIVE_INTERVAL + CONFIG_AODVV2_MAX_IDLETIME)"

text \<open>\<open>manet_netif_ipv6_group_join\<close>: \<open>join\<close> is GNRC's function on the interface.\<close>

definition manet_netif_ipv6_group_join :: "(ipv6_addr \<Rightarrow> int) \<Rightarrow> int" where
  "manet_netif_ipv6_group_join join = (if join IPV6_ADDR_ALL_MANET_ROUTERS_LINK_LOCAL < 0 then -1 else 0)"

section \<open>Calls on the tables\<close>

definition log_event :: "event \<Rightarrow> node \<Rightarrow> node" where
  "log_event e n = n\<lparr>events := events n @ [e]\<rparr>"

definition node_now :: "node \<Rightarrow> timex \<times> node" where
  "node_now n = (let (t, w) = xtimer_now_timex (env n) in (t, n\<lparr>env := w\<rparr>))"

definition node_get_entry :: "riot \<Rightarrow> ipv6_addr \<Rightarrow> routing_metric \<Rightarrow> node \<Rightarrow> nat option \<times> node" where
  "node_get_entry R addr mt n =
     (let (r, s, w) = aodvv2_lrs_get_entry R addr mt (lrs_of n) (env n) in (r, n\<lparr>lrs_of := s, env := w\<rparr>))"

definition node_get_next_hop :: "riot \<Rightarrow> ipv6_addr \<Rightarrow> routing_metric \<Rightarrow> node \<Rightarrow> ipv6_addr option \<times> node" where
  "node_get_next_hop R dest mt n =
     (let (r, s, w) = aodvv2_lrs_get_next_hop R dest mt (lrs_of n) (env n) in (r, n\<lparr>lrs_of := s, env := w\<rparr>))"

definition node_add_entry :: "riot \<Rightarrow> local_route \<Rightarrow> node \<Rightarrow> node" where
  "node_add_entry R rt n = (let (s, w) = aodvv2_lrs_add_entry R rt (lrs_of n) (env n) in n\<lparr>lrs_of := s, env := w\<rparr>)"

definition node_process :: "riot \<Rightarrow> aodvv2_message \<Rightarrow> node \<Rightarrow> int \<times> node" where
  "node_process R msg n =
     (let (r, s, w) = aodvv2_mcmsg_process R msg (mcset_of n) (env n) in (r, n\<lparr>mcset_of := s, env := w\<rparr>))"

definition node_dispatch :: "riot \<Rightarrow> ipv6_addr \<Rightarrow> node \<Rightarrow> node outcome" where
  "node_dispatch R targ n =
     bnd (aodvv2_buffer_dispatch R targ (buffer_of n)) (\<lambda>(b, calls).
     Inr (n\<lparr>buffer_of := b, events := events n @ map Pkt calls\<rparr>))"

section \<open>Sending\<close>

text \<open>
  \<open>aodvv2_send_rreq\<close> and \<open>aodvv2_send_rrep\<close>: the next hop is copied before anything is checked, so
  a NULL next hop is a fault (when the allocation succeeds). A failed \<open>msg_send\<close> loses the message.
\<close>

definition send_ipc :: "(aodvv2_msg \<Rightarrow> ipc) \<Rightarrow> aodvv2_message \<Rightarrow> ipv6_addr option \<Rightarrow> node \<Rightarrow> (int \<times> node) outcome" where
  "send_ipc kind pkt next_hop n =
     (let w = env n; n = n\<lparr>env := w\<lparr>tick := Suc (tick w)\<rparr>\<rparr> in
      if \<not> malloc_ok w (tick w) then Inr (-1, n)
      else bnd (deref next_hop) (\<lambda>hop.
        let w = env n; n = n\<lparr>env := w\<lparr>tick := Suc (tick w)\<rparr>\<rparr> in
        if \<not> send_ok w (tick w) then Inr (-1, n\<lparr>leaked := Suc (leaked n)\<rparr>)
        else Inr (0, n\<lparr>queue := queue n @ [kind \<lparr>m_pkt = pkt, m_next_hop = hop\<rparr>]\<rparr>)))"

definition aodvv2_send_rreq :: "aodvv2_message \<Rightarrow> ipv6_addr option \<Rightarrow> node \<Rightarrow> (int \<times> node) outcome" where
  "aodvv2_send_rreq = send_ipc SendRreq"

definition aodvv2_send_rrep :: "aodvv2_message \<Rightarrow> ipv6_addr option \<Rightarrow> node \<Rightarrow> (int \<times> node) outcome" where
  "aodvv2_send_rrep = send_ipc SendRrep"

section \<open>Looking for a route\<close>

text \<open>
  \<open>aodvv2_find_route\<close>. The message is a local variable; \<open>junk\<close> is what its memory held before: its
  sender, SeqNoRtr and time stamp are never set.
\<close>

definition find_route_msg :: "aodvv2_message \<Rightarrow> rcs_entry \<Rightarrow> ipv6_addr \<Rightarrow> u16 \<Rightarrow> aodvv2_message" where
  "find_route_msg junk client target sn = junk\<lparr>
     msg_hop_limit := aodvv2_metric_max METRIC_HOP_COUNT,
     metric_type := CONFIG_AODVV2_DEFAULT_METRIC,
     orig_node := \<lparr>nd_addr = rcs_addr client, nd_pfx_len = rcs_pfx_len client, nd_metric = 0, nd_seqnum = sn\<rparr>,
     targ_node := \<lparr>nd_addr = target, nd_pfx_len = 128, nd_metric = 0, nd_seqnum = 0\<rparr>\<rparr>"

definition aodvv2_find_route :: "riot \<Rightarrow> aodvv2_message \<Rightarrow> ipv6_addr \<Rightarrow> ipv6_addr \<Rightarrow> node \<Rightarrow> (int \<times> node) outcome" where
  "aodvv2_find_route R junk orig target n =
     (case aodvv2_rcs_is_client R orig (rcs_of n) of
        None \<Rightarrow> Inr (-1, n)
      | Some i \<Rightarrow>
          let pkt = find_route_msg junk (rcs_data (rcs_of n ! i)) target (aodvv2_seqnum_get (seqnum_of n));
              n = n\<lparr>seqnum_of := aodvv2_seqnum_inc (seqnum_of n)\<rparr>;
              n = snd (node_process R pkt n)
          in aodvv2_send_rreq pkt (Some IPV6_ADDR_ALL_MANET_ROUTERS_LINK_LOCAL) n)"

text \<open>\<open>_route_info\<close>: \<open>src\<close> is the source address in the packet's IPv6 header, \<open>None\<close> when there is no header.\<close>

datatype route_info = ROUTE_INFO_UNDEF | ROUTE_INFO_RRQ | ROUTE_INFO_RN | ROUTE_INFO_NSC

definition route_info_cb :: "riot \<Rightarrow> aodvv2_message \<Rightarrow> route_info \<Rightarrow> ipv6_addr \<Rightarrow> nat \<Rightarrow> ipv6_addr option \<Rightarrow> node \<Rightarrow> node outcome" where
  "route_info_cb R junk ty dst pkt src n =
     (if ty \<noteq> ROUTE_INFO_RRQ then Inr n
      else bnd (deref src) (\<lambda>src.
        if aodvv2_rcs_is_client R src (rcs_of n) = None then Inr n
        else let (r, b, calls) = aodvv2_buffer_pkt_add dst pkt (buffer_of n);
                 n = n\<lparr>buffer_of := b, events := events n @ map Pkt calls\<rparr>
          in if r = 0 then bnd (aodvv2_find_route R junk src dst n) (\<lambda>(_, n). Inr n) else Inr n))"

section \<open>Initialisation\<close>

text \<open>
  The tables of \<open>aodvv2_init\<close> once its thread runs; \<open>boot\<close> is the memory before. Registering with
  GNRC and the RFC 5444 library has no effect on them.
\<close>

definition aodvv2_init_tables :: "riot \<Rightarrow> node \<Rightarrow> node" where
  "aodvv2_init_tables R boot = boot\<lparr>
     seqnum_of := aodvv2_seqnum_init,
     lrs_of := aodvv2_lrs_init R (lrs_of boot),
     rcs_of := aodvv2_rcs_init,
     mcset_of := aodvv2_mcmsg_init R,
     buffer_of := aodvv2_buffer_init\<rparr>"

definition lrs_static :: lrs where
  "lrs_static = \<lparr>routing_table = replicate CONFIG_AODVV2_MAX_ROUTING_ENTRIES lrs_free_slot, null_time = timex_zero,
     lrs_max_seqnum_lifetime = timex_zero, active_interval = timex_zero, max_idletime = timex_zero,
     validity_t = timex_zero, lrs_now = timex_zero\<rparr>"

definition node_boot :: "world \<Rightarrow> node" where
  "node_boot w = \<lparr>msg_data = message_zero, lrs_of = lrs_static, rcs_of = aodvv2_rcs_init,
     mcset_of = \<lparr>mc_entries = replicate CONFIG_AODVV2_MCMSG_MAX_ENTRIES mc_free_slot, mc_max_seqnum_lifetime = timex_zero\<rparr>,
     buffer_of = aodvv2_buffer_init, seqnum_of = 0, queue = [], events = [], leaked = 0, env = w\<rparr>"

section \<open>The environment is only read\<close>

lemma lrs_scan_env: "lrs_scan R s hit now w es = (r, es', now', w') \<Longrightarrow> same_env w w'"
proof (induction es arbitrary: w now es' r)
  case (Cons e es)
  then show ?case
    by (fastforce simp: reset_entry_simp split: if_splits prod.splits)
qed simp

lemma get_entry_env: "aodvv2_lrs_get_entry R a t s w = (r, s', w') \<Longrightarrow> same_env w w'"
  by (auto simp: aodvv2_lrs_get_entry_def split: prod.splits dest: lrs_scan_env)

lemma node_get_entry_env: "node_get_entry R a t n = (r, n') \<Longrightarrow> same_env (env n) (env n')"
  by (auto simp: node_get_entry_def split: prod.splits dest: get_entry_env)

lemma node_get_next_hop_env: "node_get_next_hop R a t n = (r, n') \<Longrightarrow> same_env (env n) (env n')"
  by (auto simp: node_get_next_hop_def aodvv2_lrs_get_next_hop_def split: prod.splits dest: get_entry_env)

lemma node_add_entry_env: "same_env (env n) (env (node_add_entry R rt n))"
  by (auto simp: node_add_entry_def aodvv2_lrs_add_entry_def split: prod.splits option.splits dest: get_entry_env)

lemma reset_env: "mc_reset_entry_if_stale R w e = (e', w') \<Longrightarrow> same_env w w'"
  by (auto simp: mc_reset_entry_if_stale_def xtimer_now_timex_def split: if_splits)

lemma find_env: "find_comparable_entry R msg w es = (r, es', w') \<Longrightarrow> same_env w w'"
  by (induction es arbitrary: w es' r) (auto split: if_splits prod.splits dest: reset_env intro: same_env_trans)

lemma search_env: "search_better R c k w es = (r, es', w') \<Longrightarrow> same_env w w'"
  by (induction es arbitrary: k w es' r) (auto split: if_splits prod.splits dest: reset_env intro: same_env_trans)

lemma mcmsg_process_env:
  assumes "aodvv2_mcmsg_process R msg s w = (r, s', w')"
  shows "same_env w w'"
proof -
  obtain c es w1 where find: "find_comparable_entry R msg w (mc_entries s) = (c, es, w1)" by (metis prod_cases3)
  have "same_env w1 w'"
  proof (cases c)
    case None
    with assms find show ?thesis
      by (auto simp: aodvv2_mcmsg_process_def mc_add_def xtimer_now_timex_def split: prod.splits if_splits)
  next
    case (Some k)
    with assms find show ?thesis
      by (auto simp: aodvv2_mcmsg_process_def xtimer_now_timex_def Let_def split: prod.splits if_splits
          dest!: search_env)
  qed
  with find_env [OF find] show ?thesis by (rule same_env_trans)
qed

lemma node_process_env: "node_process R m n = (r, n') \<Longrightarrow> same_env (env n) (env n')"
  by (auto simp: node_process_def split: prod.splits dest: mcmsg_process_env)

end
