(* ===== verification/Compat.thy ===== *)
theory Compat
  imports Netaddr
begin

text \<open>
  The conversion between IPv6 addresses and RFC 5444 addresses, \<open>mesh/sys/net/aodvv2/rfc5444_compat.c\<close>.
  \<open>netaddr_to_ipv6_addr\<close> takes the old contents of \<open>*dst\<close>: \<open>ipv6_addr_init_prefix\<close> writes only the bits
  of the prefix. Only NULL pointers fail the assertions; callers pass addresses of objects.
\<close>

definition ipv6_addr_to_netaddr :: "af \<Rightarrow> ipv6_addr \<Rightarrow> u8 \<Rightarrow> netaddr" where
  "ipv6_addr_to_netaddr F src pfx_len =
     \<lparr>na_addr = addr_bytes src, na_type = AF_INET6 F, na_prefix_len = (if pfx_len > 128 then 128 else pfx_len)\<rparr>"

definition netaddr_to_ipv6_addr :: "riot \<Rightarrow> af \<Rightarrow> netaddr \<Rightarrow> ipv6_addr \<Rightarrow> ipv6_addr \<times> u8" where
  "netaddr_to_ipv6_addr R F src dst =
     (if na_type src = AF_UNSPEC F then (0, 0)
      else let pfx_len = (if na_prefix_len src > 128 then 128 else na_prefix_len src) in
        (ipv6_addr_init_prefix R dst (bytes_addr (na_addr src)) pfx_len, pfx_len))"

text \<open>
  An address that goes to RFC 5444 form and back keeps the bits of its prefix and a prefix
  length cut to 128; every bit after the prefix is whatever the destination held before. Full-length
  addresses come back unchanged.
\<close>

lemma compat_roundtrip:
  assumes "riot_ok R" and "af_ok F" and "netaddr_to_ipv6_addr R F (ipv6_addr_to_netaddr F a n) dst = (b, m)"
  shows "unat m = min (unat n) 128 \<and>
    (\<forall>i < 128. bit b (127 - i) = (if i < unat n then bit a (127 - i) else bit dst (127 - i))) \<and>
    (128 \<le> n \<longrightarrow> b = a)"
proof -
  from assms(1) have prefix: "prefix_ok R" by blast
  from assms(2) have "AF_INET6 F \<noteq> AF_UNSPEC F" by (auto simp: af_ok_def)
  with assms(3) have m: "m = (if n > 128 then 128 else n)" and b: "b = ipv6_addr_init_prefix R dst a m"
    by (auto simp: netaddr_to_ipv6_addr_def ipv6_addr_to_netaddr_def Let_def split: if_splits)
  have m': "unat m = min (unat n) 128" using m by (simp add: word_less_nat_alt min_def)
  moreover have "\<forall>i < 128. bit b (127 - i) = (if i < unat n then bit a (127 - i) else bit dst (127 - i))"
    using m' by (simp add: b bit_init_prefix [OF prefix])
  moreover have "b = a" if "128 \<le> n"
  proof -
    from that m have "m = 128" by (cases "128 < n") auto
    with b show ?thesis by (simp add: init_prefix_full [OF prefix])
  qed
  ultimately show ?thesis by blast
qed

lemma compat_roundtrip_witness:
  "fst (netaddr_to_ipv6_addr riot_ref af_ref (ipv6_addr_to_netaddr af_ref 5 200) 9) = 5"
proof -
  obtain b m where "netaddr_to_ipv6_addr riot_ref af_ref (ipv6_addr_to_netaddr af_ref 5 200) 9 = (b, m)" by fastforce
  with compat_roundtrip [OF riot_ok_ref af_ok_ref this] show ?thesis by simp
qed

end
