(* ===== verification/AodvReader.thy ===== *)
theory AodvReader
  imports Node Compat RfcSchedule
begin

text \<open>
  The AODVv2 message handlers, \<open>mesh/sys/net/aodvv2/aodvv2_reader.c\<close>: the callbacks the RFC 5444 reader
  runs on a RREQ or a RREP. They work on the static \<open>_msg_data\<close> (\<open>msg_data\<close> of the node), which is
  never cleared between messages. \<open>tlvs\<close> is what the entries of \<open>_address_consumer_entries\<close> point to.
\<close>

definition RFC5444_MSGTYPE_RREQ :: u8 where "RFC5444_MSGTYPE_RREQ = 10"
definition RFC5444_MSGTYPE_RREP :: u8 where "RFC5444_MSGTYPE_RREP = 11"
definition RFC5444_MSGTLV_ORIGSEQNUM :: nat where "RFC5444_MSGTLV_ORIGSEQNUM = 0"
definition RFC5444_MSGTLV_TARGSEQNUM :: nat where "RFC5444_MSGTLV_TARGSEQNUM = 1"
definition RFC5444_MSGTLV_UNREACHABLE_NODE_SEQNUM :: nat where "RFC5444_MSGTLV_UNREACHABLE_NODE_SEQNUM = 2"
definition RFC5444_MSGTLV_METRIC :: nat where "RFC5444_MSGTLV_METRIC = 3"

type_synonym addr_tlvs = "nat \<Rightarrow> tlv_entry option"

section \<open>Reading a message\<close>

text \<open>\<open>*tlv->single_value\<close>: one byte, whatever the length of the value.\<close>

definition single_byte :: "ctx \<Rightarrow> tlv_entry \<Rightarrow> u8 outcome" where
  "single_byte cx t = bnd (deref (single_value t)) (mem_get (pkt_buffer cx))"

definition aodvv2_rfc5444_handle_packet_prepare :: "ipv6_addr \<Rightarrow> node \<Rightarrow> node" where
  "aodvv2_rfc5444_handle_packet_prepare src n = n\<lparr>msg_data := (msg_data n)\<lparr>sender := src\<rparr>\<rparr>"

definition messagetlvs_okay :: "ctx \<Rightarrow> aodvv2_message \<Rightarrow> int \<times> aodvv2_message" where
  "messagetlvs_okay cx m =
     (if \<not> has_hoplimit cx then (RFC5444_DROP_PACKET, m)
      else let m = m\<lparr>msg_hop_limit := hoplimit cx\<rparr> in
        if msg_hop_limit m = 0 then (RFC5444_DROP_PACKET, m)
        else (RFC5444_OKAY, m\<lparr>msg_hop_limit := msg_hop_limit m - 1\<rparr>))"

definition cb_rrep_blocktlv_messagetlvs_okay :: "ctx \<Rightarrow> aodvv2_message \<Rightarrow> int \<times> aodvv2_message" where
  "cb_rrep_blocktlv_messagetlvs_okay = messagetlvs_okay"

definition cb_rreq_blocktlv_messagetlvs_okay :: "ctx \<Rightarrow> aodvv2_message \<Rightarrow> int \<times> aodvv2_message" where
  "cb_rreq_blocktlv_messagetlvs_okay = messagetlvs_okay"

text \<open>The address of the context goes into an old address, of which \<open>netaddr_to_ipv6_addr\<close> keeps bits.\<close>

definition set_orig :: "riot \<Rightarrow> af \<Rightarrow> ctx \<Rightarrow> u8 \<Rightarrow> aodvv2_message \<Rightarrow> aodvv2_message" where
  "set_orig R F cx sn m =
     (let (a, p) = netaddr_to_ipv6_addr R F (ctx_addr cx) (nd_addr (orig_node m)) in
      m\<lparr>orig_node := (orig_node m)\<lparr>nd_addr := a, nd_pfx_len := p, nd_seqnum := ucast sn\<rparr>\<rparr>)"

definition set_targ_addr :: "riot \<Rightarrow> af \<Rightarrow> ctx \<Rightarrow> aodvv2_message \<Rightarrow> aodvv2_message" where
  "set_targ_addr R F cx m =
     (let (a, p) = netaddr_to_ipv6_addr R F (ctx_addr cx) (nd_addr (targ_node m)) in
      m\<lparr>targ_node := (targ_node m)\<lparr>nd_addr := a, nd_pfx_len := p\<rparr>\<rparr>)"

definition set_targ_seqnum :: "u8 \<Rightarrow> aodvv2_message \<Rightarrow> aodvv2_message" where
  "set_targ_seqnum sn m = m\<lparr>targ_node := (targ_node m)\<lparr>nd_seqnum := ucast sn\<rparr>\<rparr>"

text \<open>In a RREP the prefix length of OrigNode is stored in TargNode.\<close>

definition set_orig_rrep :: "riot \<Rightarrow> af \<Rightarrow> ctx \<Rightarrow> u8 \<Rightarrow> aodvv2_message \<Rightarrow> aodvv2_message" where
  "set_orig_rrep R F cx sn m =
     (let (a, p) = netaddr_to_ipv6_addr R F (ctx_addr cx) (nd_addr (orig_node m)) in
      m\<lparr>orig_node := (orig_node m)\<lparr>nd_addr := a, nd_seqnum := ucast sn\<rparr>,
        targ_node := (targ_node m)\<lparr>nd_pfx_len := p\<rparr>\<rparr>)"

definition set_metric :: "tlv_entry \<Rightarrow> u8 \<Rightarrow> aodvv2_message \<Rightarrow> aodvv2_message" where
  "set_metric t v m = m\<lparr>metric_type := tlv_type_ext t, orig_node := (orig_node m)\<lparr>nd_metric := v\<rparr>\<rparr>"

text \<open>A step for a TLV that may be missing.\<close>

definition on_tlv :: "ctx \<Rightarrow> tlv_entry option \<Rightarrow> (u8 \<Rightarrow> aodvv2_message \<Rightarrow> aodvv2_message) \<Rightarrow> aodvv2_message \<Rightarrow> aodvv2_message outcome" where
  "on_tlv cx t f m = (case t of None \<Rightarrow> Inr m | Some t \<Rightarrow> bnd (single_byte cx t) (\<lambda>v. Inr (f v m)))"

definition metric_tlv :: "ctx \<Rightarrow> tlv_entry option \<Rightarrow> bool \<Rightarrow> aodvv2_message \<Rightarrow> (int \<times> aodvv2_message) outcome" where
  "metric_tlv cx t carries_metric m =
     (case t of
        None \<Rightarrow> Inr (if carries_metric then RFC5444_DROP_PACKET else RFC5444_OKAY, m)
      | Some t \<Rightarrow> if \<not> carries_metric then Inr (RFC5444_DROP_PACKET, m)
          else bnd (single_byte cx t) (\<lambda>v. Inr (RFC5444_OKAY, set_metric t v m)))"

definition cb_rrep_blocktlv_addresstlvs_okay ::
    "riot \<Rightarrow> af \<Rightarrow> ctx \<Rightarrow> addr_tlvs \<Rightarrow> aodvv2_message \<Rightarrow> (int \<times> aodvv2_message) outcome" where
  "cb_rrep_blocktlv_addresstlvs_okay R F cx tlvs m =
     (let targ = tlvs RFC5444_MSGTLV_TARGSEQNUM; orig = tlvs RFC5444_MSGTLV_ORIGSEQNUM in
      bnd (on_tlv cx targ (\<lambda>v m. set_targ_seqnum v (set_targ_addr R F cx m)) m) (\<lambda>m.
      bnd (on_tlv cx orig (set_orig_rrep R F cx) m) (\<lambda>m.
      let is_targ_node_addr = (targ \<noteq> None \<and> orig = None) in
      if orig = None \<and> \<not> is_targ_node_addr then Inr (RFC5444_DROP_PACKET, m)
      else metric_tlv cx (tlvs RFC5444_MSGTLV_METRIC) is_targ_node_addr m)))"

definition cb_rreq_blocktlv_addresstlvs_okay ::
    "riot \<Rightarrow> af \<Rightarrow> ctx \<Rightarrow> addr_tlvs \<Rightarrow> aodvv2_message \<Rightarrow> (int \<times> aodvv2_message) outcome" where
  "cb_rreq_blocktlv_addresstlvs_okay R F cx tlvs m =
     (let orig = tlvs RFC5444_MSGTLV_ORIGSEQNUM; targ = tlvs RFC5444_MSGTLV_TARGSEQNUM;
          is_orig_node_addr = (orig \<noteq> None) in
      bnd (on_tlv cx orig (set_orig R F cx) m) (\<lambda>m.
      bnd (on_tlv cx targ (\<lambda>v m. set_targ_seqnum v (set_targ_addr R F cx m)) m) (\<lambda>m.
      let assumed = (targ = None \<and> \<not> is_orig_node_addr);
          m = (if assumed then set_targ_addr R F cx m else m);
          is_targ_node = (targ \<noteq> None \<or> assumed) in
      if \<not> is_orig_node_addr \<and> \<not> is_targ_node then Inr (RFC5444_DROP_PACKET, m)
      else metric_tlv cx (tlvs RFC5444_MSGTLV_METRIC) is_orig_node_addr m)))"

section \<open>Acting on a message\<close>

text \<open>
  Both end callbacks store the route the message carries: \<open>fill\<close> writes it into a route, \<open>nd\<close> is the
  node it leads to. The result says whether processing goes on.
\<close>

definition learn_route :: "riot \<Rightarrow> (lrs \<Rightarrow> aodvv2_message \<Rightarrow> local_route \<Rightarrow> local_route) \<Rightarrow> (aodvv2_message \<Rightarrow> node_data) \<Rightarrow>
    node \<Rightarrow> bool \<times> node" where
  "learn_route R fill nd n =
     (let m = msg_data n; (r, n) = node_get_entry R (nd_addr (nd m)) (metric_type m) n in
      case r of
        Some i \<Rightarrow>
          let rt = route (routing_table (lrs_of n) ! i) in
          if rt_metric_type rt \<noteq> metric_type m
          then (True, log_event (NibAdd (nd_addr (nd m)) (nd_pfx_len (nd m)) (sender m) AODVV2_ROUTE_LIFETIME)
                  (node_add_entry R (fill (lrs_of n) m route_zero) n))
          else if \<not> aodvv2_lrs_offers_improvement rt (nd m) then (False, n)
          else let rt' = fill (lrs_of n) m rt;
                   n = n\<lparr>lrs_of := (lrs_of n)\<lparr>routing_table := (routing_table (lrs_of n))[i :=
                         (routing_table (lrs_of n) ! i)\<lparr>route := rt'\<rparr>]\<rparr>\<rparr>
            in (True, log_event (NibAdd (rt_addr rt') (rt_pfx_len rt') (rt_next_hop rt') AODVV2_ROUTE_LIFETIME)
                  (log_event (NibDel (rt_addr rt') (rt_pfx_len rt')) n))
      | None \<Rightarrow>
          (True, log_event (NibAdd (nd_addr (nd m)) (nd_pfx_len (nd m)) (sender m) AODVV2_ROUTE_LIFETIME)
             (node_add_entry R (fill (lrs_of n) m route_zero) n)))"

definition stamp :: "node \<Rightarrow> node" where
  "stamp n = (let (now, n) = node_now n in n\<lparr>msg_data := (msg_data n)\<lparr>timestamp := now\<rparr>\<rparr>)"

definition cb_rrep_end_callback :: "riot \<Rightarrow> bool \<Rightarrow> node \<Rightarrow> (int \<times> node) outcome" where
  "cb_rrep_end_callback R dropped n =
     (let m = msg_data n in
      if dropped then Inr (RFC5444_DROP_PACKET, n)
      else if ipv6_addr_is_unspecified R (nd_addr (orig_node m)) \<or> nd_seqnum (orig_node m) = 0 then Inr (RFC5444_DROP_PACKET, n)
      else if ipv6_addr_is_unspecified R (nd_addr (targ_node m)) \<or> nd_seqnum (targ_node m) = 0 then Inr (RFC5444_DROP_PACKET, n)
      else let link_cost = aodvv2_metric_link_cost (metric_type m) in
        if metric_limit_reached (metric_type m) (nd_metric (targ_node m)) then Inr (RFC5444_DROP_PACKET, n)
        else let m = m\<lparr>targ_node := (targ_node m)\<lparr>nd_metric := aodvv2_metric_update (metric_type m) (nd_metric (targ_node m))\<rparr>\<rparr>;
                 n = stamp (n\<lparr>msg_data := m\<rparr>);
                 (go_on, n) = learn_route R (\<lambda>s m rt. aodvv2_lrs_fill_routing_entry_rrep R s m rt link_cost) targ_node n
          in if \<not> go_on then Inr (RFC5444_DROP_PACKET, n)
             else let m = msg_data n in
               if aodvv2_rcs_is_client R (nd_addr (orig_node m)) (rcs_of n) \<noteq> None
               then bnd (node_dispatch R (nd_addr (targ_node m)) n) (\<lambda>n. Inr (RFC5444_OKAY, n))
               else let (next_hop, n) = node_get_next_hop R (nd_addr (orig_node m)) (metric_type m) n
                 in bnd (aodvv2_send_rrep m next_hop n) (\<lambda>(_, n). Inr (RFC5444_OKAY, n)))"

definition cb_rreq_end_callback :: "riot \<Rightarrow> bool \<Rightarrow> node \<Rightarrow> (int \<times> node) outcome" where
  "cb_rreq_end_callback R dropped n =
     (let m = msg_data n in
      if dropped then Inr (RFC5444_DROP_PACKET, n)
      else if ipv6_addr_is_unspecified R (nd_addr (orig_node m)) \<or> nd_seqnum (orig_node m) = 0 then Inr (RFC5444_DROP_PACKET, n)
      else if ipv6_addr_is_unspecified R (nd_addr (targ_node m)) then Inr (RFC5444_DROP_PACKET, n)
      else if msg_hop_limit m = 0 then Inr (RFC5444_DROP_PACKET, n)
      else let link_cost = aodvv2_metric_link_cost (metric_type m) in
        if metric_limit_reached (metric_type m) (nd_metric (orig_node m)) then Inr (RFC5444_DROP_PACKET, n)
        else let (redundant, n) = node_process R m n in
          if redundant = AODVV2_MCMSG_REDUNDANT then Inr (RFC5444_DROP_PACKET, n)
          else let m = m\<lparr>orig_node := (orig_node m)\<lparr>nd_metric := aodvv2_metric_update (metric_type m) (nd_metric (orig_node m))\<rparr>\<rparr>;
                   n = stamp (n\<lparr>msg_data := m\<rparr>);
                   (go_on, n) = learn_route R (\<lambda>s m rt. aodvv2_lrs_fill_routing_entry_rreq R s m rt link_cost) orig_node n
            in if \<not> go_on then Inr (RFC5444_DROP_PACKET, n)
               else let m = msg_data n in
                 if aodvv2_rcs_is_client R (nd_addr (targ_node m)) (rcs_of n) \<noteq> None
                 then let m = m\<lparr>targ_node := (targ_node m)\<lparr>nd_metric := 0\<rparr>\<rparr>; n = n\<lparr>msg_data := m\<rparr>
                   in bnd (aodvv2_send_rrep m (Some (sender m)) n) (\<lambda>(_, n). Inr (RFC5444_OKAY, n))
                 else bnd (aodvv2_send_rreq m (Some IPV6_ADDR_ALL_MANET_ROUTERS_LINK_LOCAL) n) (\<lambda>(_, n). Inr (RFC5444_OKAY, n)))"

section \<open>Registration\<close>

text \<open>
  \<open>_address_consumer_entries\<close> has four elements: the designated initialisers leave the one at index 2
  zeroed, an entry for TLV type 0.
\<close>

definition cons_entry_zero :: cons_entry where
  "cons_entry_zero = \<lparr>ce_id = 0, ce_mandatory = False, ce_type = 0, ce_type_ext = 0, match_type_ext = False,
     min_length = 0, max_length = 0, match_length = False, copy_value = None, ce_tlv = None\<rparr>"

definition address_consumer_entries :: "cons_entry list" where
  "address_consumer_entries =
     [cons_entry_zero\<lparr>ce_id := RFC5444_MSGTLV_ORIGSEQNUM, ce_type := of_nat RFC5444_MSGTLV_ORIGSEQNUM\<rparr>,
      cons_entry_zero\<lparr>ce_id := RFC5444_MSGTLV_TARGSEQNUM, ce_type := of_nat RFC5444_MSGTLV_TARGSEQNUM\<rparr>,
      cons_entry_zero\<lparr>ce_id := 2\<rparr>,
      cons_entry_zero\<lparr>ce_id := RFC5444_MSGTLV_METRIC, ce_type := of_nat RFC5444_MSGTLV_METRIC\<rparr>]"

definition consumer_zero :: "node consumer" where
  "consumer_zero = \<lparr>c_id = 0, c_order = 0, default_msg_consumer = False, c_msg_id = 0, addrblock_consumer = False,
     consumer_list = [], start_callback = None, end_callback = None, tlv_callback = None, block_callback = None,
     block_callback_failed_constraints = None\<rparr>"

definition message_cb :: "(ctx \<Rightarrow> aodvv2_message \<Rightarrow> int \<times> aodvv2_message) \<Rightarrow> node block_cb" where
  "message_cb f cx ts n = (let (r, m) = f cx (msg_data n) in Inr (r, [], n\<lparr>msg_data := m\<rparr>))"

definition address_cb :: "(ctx \<Rightarrow> addr_tlvs \<Rightarrow> aodvv2_message \<Rightarrow> (int \<times> aodvv2_message) outcome) \<Rightarrow> node block_cb" where
  "address_cb f cx ts n = bnd (f cx ts (msg_data n)) (\<lambda>(r, m). Inr (r, [], n\<lparr>msg_data := m\<rparr>))"

definition rrep_consumer :: "riot \<Rightarrow> node consumer" where
  "rrep_consumer R = consumer_zero\<lparr>c_id := 1, c_msg_id := RFC5444_MSGTYPE_RREP,
     block_callback := Some (message_cb cb_rrep_blocktlv_messagetlvs_okay),
     end_callback := Some (\<lambda>cx. cb_rrep_end_callback R)\<rparr>"

definition rrep_address_consumer :: "riot \<Rightarrow> af \<Rightarrow> node consumer" where
  "rrep_address_consumer R F = consumer_zero\<lparr>c_id := 2, c_msg_id := RFC5444_MSGTYPE_RREP, addrblock_consumer := True,
     block_callback := Some (address_cb (cb_rrep_blocktlv_addresstlvs_okay R F))\<rparr>"

definition rreq_consumer :: "riot \<Rightarrow> node consumer" where
  "rreq_consumer R = consumer_zero\<lparr>c_id := 3, c_msg_id := RFC5444_MSGTYPE_RREQ,
     block_callback := Some (message_cb cb_rreq_blocktlv_messagetlvs_okay),
     end_callback := Some (\<lambda>cx. cb_rreq_end_callback R)\<rparr>"

definition rreq_address_consumer :: "riot \<Rightarrow> af \<Rightarrow> node consumer" where
  "rreq_address_consumer R F = consumer_zero\<lparr>c_id := 4, c_msg_id := RFC5444_MSGTYPE_RREQ, addrblock_consumer := True,
     block_callback := Some (address_cb (cb_rreq_blocktlv_addresstlvs_okay R F))\<rparr>"

definition aodvv2_reader_init :: "riot \<Rightarrow> af \<Rightarrow> node reader \<Rightarrow> node reader" where
  "aodvv2_reader_init R F rd =
     rfc5444_reader_add_message_consumer (rreq_address_consumer R F) address_consumer_entries
       (rfc5444_reader_add_message_consumer (rreq_consumer R) []
         (rfc5444_reader_add_message_consumer (rrep_address_consumer R F) address_consumer_entries
           (rfc5444_reader_add_message_consumer (rrep_consumer R) [] rd)))"

text \<open>The reader of the AODVv2 thread: \<open>_reader\<close> is static, and has no function that forwards messages.\<close>

definition reader_static :: "node reader" where
  "reader_static = \<lparr>packet_consumer = [], message_consumer = [], forward_message = None\<rparr>"

definition aodv_reader :: "riot \<Rightarrow> af \<Rightarrow> node reader" where
  "aodv_reader R F = aodvv2_reader_init R F (rfc5444_reader_init reader_static)"

lemmas aodv_reader_defs = aodv_reader_def aodvv2_reader_init_def rfc5444_reader_init_def reader_static_def
  rfc5444_reader_add_message_consumer_def

lemma aodv_reader_fields [simp]: "packet_consumer (aodv_reader R F) = []" "forward_message (aodv_reader R F) = None"
  by (simp_all add: aodv_reader_defs)

text \<open>The entries in the order they are walked: the zeroed one comes right after that of OrigSeqNum.\<close>

lemma address_entries_sorted:
  "map ce_id (foldl insert_cons_entry [] address_consumer_entries) = [0, 2, 1, 3]"
  by (simp add: address_consumer_entries_def insert_cons_entry_def calc_tlvconsumer_intorder_def cons_entry_zero_def
      RFC5444_MSGTLV_ORIGSEQNUM_def RFC5444_MSGTLV_TARGSEQNUM_def RFC5444_MSGTLV_METRIC_def push_bit_eq_mult Let_def)

text \<open>Message consumers come before address consumers.\<close>

lemma reader_init_order:
  "map (\<lambda>c. (c_msg_id c, addrblock_consumer c)) (message_consumer (aodv_reader R F)) = [(11, False), (10, False), (11, True), (10, True)]"
  by (simp add: aodv_reader_defs add_consumer_def consumer_avl_comp_def consumer_zero_def rrep_consumer_def
      rrep_address_consumer_def rreq_consumer_def rreq_address_consumer_def Let_def
      RFC5444_MSGTYPE_RREQ_def RFC5444_MSGTYPE_RREP_def)

section \<open>What the handlers keep\<close>

text \<open>
  A message in the thread's queue: of the hop-count metric, with room in its metric byte; a RREQ also
  has a hop limit and the sequence number of OrigNode.
\<close>

fun ipc_ok :: "ipc \<Rightarrow> bool" where
  "ipc_ok (SendRreq m) \<longleftrightarrow> metric_type (m_pkt m) = METRIC_HOP_COUNT \<and> msg_hop_limit (m_pkt m) \<noteq> 0 \<and>
     nd_seqnum (orig_node (m_pkt m)) \<noteq> 0 \<and> unat (nd_metric (orig_node (m_pkt m))) \<le> 254"
| "ipc_ok (SendRrep m) \<longleftrightarrow> metric_type (m_pkt m) = METRIC_HOP_COUNT \<and>
     nd_seqnum (orig_node (m_pkt m)) \<noteq> 0 \<and> unat (nd_metric (targ_node (m_pkt m))) \<le> 254"
| "ipc_ok _ \<longleftrightarrow> True"

text \<open>
  The invariant of the router's state. With \<open>U\<close> the multicast message set has no two entries for one request; without it
  the set is only well formed, as it is once a message with a SeqNoRtr has been given to it.
\<close>

definition node_inv :: "bool \<Rightarrow> node \<Rightarrow> bool" where
  "node_inv U n \<longleftrightarrow> lrs_inv (lrs_of n) \<and> rcs_inv (rcs_of n) \<and> mc_ok U (mcset_of n) \<and> buf_inv (buffer_of n) \<and>
     seqnortr (msg_data n) = 0 \<and> 1 \<le> unat (seqnum_of n) \<and> unat (seqnum_of n) \<le> 65535 \<and> (\<forall>q \<in> set (queue n). ipc_ok q)"

lemma node_inv_log [simp]: "node_inv U (log_event e n) = node_inv U n"
  by (simp add: node_inv_def log_event_def)

lemma log_event_frame [simp]:
  "msg_data (log_event e n) = msg_data n" "rcs_of (log_event e n) = rcs_of n" "queue (log_event e n) = queue n"
  "mcset_of (log_event e n) = mcset_of n" "lrs_of (log_event e n) = lrs_of n" "buffer_of (log_event e n) = buffer_of n"
  "events (log_event e n) = events n @ [e]" "env (log_event e n) = env n" "seqnum_of (log_event e n) = seqnum_of n"
  by (simp_all add: log_event_def)

lemma node_inv_env [simp]: "node_inv U (n\<lparr>env := w\<rparr>) = node_inv U n"
  by (simp add: node_inv_def)

lemma stamp_frame:
  "node_inv U (stamp n) = node_inv U n" "msg_data (stamp n) = (msg_data n)\<lparr>timestamp := clk (env n) (tick (env n))\<rparr>"
  by (simp_all add: stamp_def node_now_def node_inv_def xtimer_now_timex_def)

lemma send_ipc_keeps:
  assumes "node_inv U n" and "\<And>hop. ipc_ok (kind \<lparr>m_pkt = pkt, m_next_hop = hop\<rparr>)"
  shows "holds (\<lambda>(r, n'). node_inv U n') (send_ipc kind pkt hop n)"
  using assms by (auto simp: send_ipc_def Let_def node_inv_def intro!: holds_trivial)

lemma get_entry_node:
  assumes "node_inv U n" and "timex_ok R" and "node_get_entry R addr mt n = (r, n')"
  shows "\<exists>s w. n' = n\<lparr>lrs_of := s, env := w\<rparr> \<and> lrs_inv s \<and>
    (case r of None \<Rightarrow> True | Some i \<Rightarrow> i < length (routing_table s) \<and> route_is R addr mt (routing_table s ! i))"
proof -
  obtain s w where get: "aodvv2_lrs_get_entry R addr mt (lrs_of n) (env n) = (r, s, w)"
    and n': "n' = n\<lparr>lrs_of := s, env := w\<rparr>"
    using assms(3) by (auto simp: node_get_entry_def split: prod.splits)
  have "lrs_inv s" by (rule get_entry_inv [OF _ assms(2) get]) (use assms(1) in \<open>simp add: node_inv_def\<close>)
  with get n' show ?thesis
    by (cases r) (auto dest: get_entry_Some)
qed

text \<open>Refilling a route in place keeps the table's invariant when the key stays the same.\<close>

lemma table_inv_refill:
  assumes inv: "table_inv es" and i: "i < length es" and addr: "rt_addr (route (es ! i)) \<noteq> 0"
    and key: "rt_addr rt = rt_addr (route (es ! i))" "rt_metric_type rt = rt_metric_type (route (es ! i))"
  shows "table_inv (es[i := (es ! i)\<lparr>route := rt\<rparr>])"
proof (rule table_inv_update [OF inv i])
  have "lrs_used (es ! i)" using inv i addr by (auto simp: table_inv_def lrs_free_slot_def route_zero_def)
  then show "lrs_used ((es ! i)\<lparr>route := rt\<rparr>) \<or> (es ! i)\<lparr>route := rt\<rparr> = lrs_free_slot" by simp
  show "\<not> (rt_addr (route (es ! j)) = rt_addr (route ((es ! i)\<lparr>route := rt\<rparr>)) \<and>
      rt_metric_type (route (es ! j)) = rt_metric_type (route ((es ! i)\<lparr>route := rt\<rparr>)))"
    if "j < length es" "j \<noteq> i" for j
  proof
    assume same: "rt_addr (route (es ! j)) = rt_addr (route ((es ! i)\<lparr>route := rt\<rparr>)) \<and>
      rt_metric_type (route (es ! j)) = rt_metric_type (route ((es ! i)\<lparr>route := rt\<rparr>))"
    with key addr have "route (es ! j) \<noteq> route_zero" "route (es ! i) \<noteq> route_zero"
      by (auto simp: route_zero_def)
    with same key that i inv show False by (auto simp: table_inv_def)
  qed
qed

definition fills :: "(lrs \<Rightarrow> aodvv2_message \<Rightarrow> local_route \<Rightarrow> local_route) \<Rightarrow> (aodvv2_message \<Rightarrow> node_data) \<Rightarrow> bool" where
  "fills fill nd \<longleftrightarrow> (\<forall>s m rt. rt_addr (fill s m rt) = nd_addr (nd m) \<and> rt_metric_type (fill s m rt) = metric_type m)"

lemma learn_route_keeps:
  assumes inv: "node_inv U n" and ok: "addr_ok R" "timex_ok R" and fill: "fills fill nd"
    and addr: "nd_addr (nd (msg_data n)) \<noteq> 0" and learn: "learn_route R fill nd n = (go, n')"
  shows "node_inv U n' \<and> msg_data n' = msg_data n \<and> rcs_of n' = rcs_of n \<and> queue n' = queue n \<and> mcset_of n' = mcset_of n"
proof -
  let ?m = "msg_data n"
  obtain r n1 where get: "node_get_entry R (nd_addr (nd ?m)) (metric_type ?m) n = (r, n1)" by (metis surj_pair)
  from get_entry_node [OF inv ok(2) get] obtain s w where n1: "n1 = n\<lparr>lrs_of := s, env := w\<rparr>" and s: "lrs_inv s"
    and r: "case r of None \<Rightarrow> True | Some i \<Rightarrow> i < length (routing_table s) \<and>
      route_is R (nd_addr (nd ?m)) (metric_type ?m) (routing_table s ! i)" by blast
  have add: "node_inv U (node_add_entry R rt n1) \<and> msg_data (node_add_entry R rt n1) = ?m \<and>
      rcs_of (node_add_entry R rt n1) = rcs_of n \<and> queue (node_add_entry R rt n1) = queue n \<and>
      mcset_of (node_add_entry R rt n1) = mcset_of n" for rt
    using lrs_inv_add [OF s ok, of rt w] inv by (cases "aodvv2_lrs_add_entry R rt s w") (simp add: node_add_entry_def n1 node_inv_def)
  show ?thesis
  proof (cases r)
    case None
    with learn get have "n' = log_event (NibAdd (nd_addr (nd ?m)) (nd_pfx_len (nd ?m)) (sender ?m) AODVV2_ROUTE_LIFETIME)
        (node_add_entry R (fill (lrs_of n1) ?m route_zero) n1)"
      by (simp add: learn_route_def n1 Let_def)
    with add show ?thesis by simp
  next
    case (Some i)
    let ?rt = "route (routing_table s ! i)"
    from r Some ok have i: "i < length (routing_table s)" and key: "rt_addr ?rt = nd_addr (nd ?m)" "rt_metric_type ?rt = metric_type ?m"
      by (auto simp: route_is_def)
    have "lrs_inv (s\<lparr>routing_table := (routing_table s)[i := (routing_table s ! i)\<lparr>route := fill s ?m ?rt\<rparr>]\<rparr>)"
      using s fill addr key i by (auto simp: lrs_inv_def fills_def intro!: table_inv_refill)
    with learn get Some key inv s show ?thesis
      by (auto simp: learn_route_def n1 Let_def node_inv_def split: if_splits)
  qed
qed

lemma metric_updated:
  assumes "\<not> metric_limit_reached t m"
  shows "t = METRIC_HOP_COUNT" and "unat (aodvv2_metric_update t m) = Suc (unat m)" and "unat (aodvv2_metric_update t m) \<le> 254"
proof -
  from assms have "t = METRIC_HOP_COUNT" and "unat m < 254" by (auto simp: metric_limit_reached_iff)
  then show "t = METRIC_HOP_COUNT" "unat (aodvv2_metric_update t m) = Suc (unat m)" "unat (aodvv2_metric_update t m) \<le> 254"
    by (simp_all add: aodvv2_metric_update_def unat_word_ariths)
qed

lemma process_node:
  assumes "node_inv U n" and "addr_ok R" and "U \<Longrightarrow> seqnortr m = 0" and "node_process R m n = (r, n')"
  shows "\<exists>s w. n' = n\<lparr>mcset_of := s, env := w\<rparr> \<and> mc_ok U s"
  using assms mc_ok_process [OF assms(2), of U "mcset_of n" m "env n"]
  by (cases "aodvv2_mcmsg_process R m (mcset_of n) (env n)") (auto simp: node_process_def node_inv_def)

lemma dispatch_node:
  assumes "node_inv U n" and "addr_ok R" and "targ \<noteq> 0"
  shows "\<exists>b. node_dispatch R targ n = Inr (n\<lparr>buffer_of := b,
      events := events n @ map Pkt (map DispatchSend (waiting targ (buffer_of n)))\<rparr>) \<and> buf_inv b"
  using buffer_dispatch_lemma [OF assms(2) _ assms(3), of "buffer_of n"] assms(1)
  by (auto simp: node_dispatch_def node_inv_def)

lemma learn_rrep_fills: "fills (\<lambda>s m rt. aodvv2_lrs_fill_routing_entry_rrep R s m rt c) targ_node"
  by (simp add: fills_def aodvv2_lrs_fill_routing_entry_rrep_def)

lemma learn_rreq_fills: "fills (\<lambda>s m rt. aodvv2_lrs_fill_routing_entry_rreq R s m rt c) orig_node"
  by (simp add: fills_def aodvv2_lrs_fill_routing_entry_rreq_def)

text \<open>A RREP that passes the checks, with the metric of the route to TargNode updated.\<close>

definition rrep_drop :: "riot \<Rightarrow> bool \<Rightarrow> aodvv2_message \<Rightarrow> bool" where
  "rrep_drop R dropped m \<longleftrightarrow> dropped \<or> ipv6_addr_is_unspecified R (nd_addr (orig_node m)) \<or> nd_seqnum (orig_node m) = 0 \<or>
     ipv6_addr_is_unspecified R (nd_addr (targ_node m)) \<or> nd_seqnum (targ_node m) = 0 \<or>
     metric_limit_reached (metric_type m) (nd_metric (targ_node m))"

definition rrep_updated :: "node \<Rightarrow> node" where
  "rrep_updated n = stamp (n\<lparr>msg_data := (msg_data n)\<lparr>targ_node := (targ_node (msg_data n))
     \<lparr>nd_metric := aodvv2_metric_update (metric_type (msg_data n)) (nd_metric (targ_node (msg_data n)))\<rparr>\<rparr>\<rparr>)"

definition rrep_forward :: "riot \<Rightarrow> node \<Rightarrow> (int \<times> node) outcome" where
  "rrep_forward R n =
     (if aodvv2_rcs_is_client R (nd_addr (orig_node (msg_data n))) (rcs_of n) \<noteq> None
      then bnd (node_dispatch R (nd_addr (targ_node (msg_data n))) n) (\<lambda>n. Inr (RFC5444_OKAY, n))
      else bnd (let (next_hop, n) = node_get_next_hop R (nd_addr (orig_node (msg_data n))) (metric_type (msg_data n)) n
                in aodvv2_send_rrep (msg_data n) next_hop n) (\<lambda>(_, n). Inr (RFC5444_OKAY, n)))"

lemma next_hop_frame: "node_get_next_hop R a t n = (h, n') \<Longrightarrow> msg_data n' = msg_data n"
  by (auto simp: node_get_next_hop_def split: prod.splits)

lemma rrep_end_split:
  "cb_rrep_end_callback R dropped n =
     (if rrep_drop R dropped (msg_data n) then Inr (RFC5444_DROP_PACKET, n)
      else let (go_on, n) = learn_route R (\<lambda>s m rt. aodvv2_lrs_fill_routing_entry_rrep R s m rt
                 (aodvv2_metric_link_cost (metric_type (msg_data n)))) targ_node (rrep_updated n)
        in if \<not> go_on then Inr (RFC5444_DROP_PACKET, n) else rrep_forward R n)"
  by (simp add: cb_rrep_end_callback_def rrep_drop_def rrep_updated_def rrep_forward_def Let_def next_hop_frame
      split: prod.split if_split)

lemma node_inv_msg: "node_inv U (n\<lparr>msg_data := m\<rparr>) \<longleftrightarrow> node_inv U (n\<lparr>msg_data := message_zero\<rparr>) \<and> seqnortr m = 0"
  by (auto simp: node_inv_def message_zero_def)

lemma node_inv_msg_same: "node_inv U n \<Longrightarrow> seqnortr m = 0 \<Longrightarrow> node_inv U (n\<lparr>msg_data := m\<rparr>)"
  by (simp add: node_inv_def)

lemma rrep_updated_frame:
  "node_inv U n \<Longrightarrow> node_inv U (rrep_updated n)"
  "msg_data (rrep_updated n) = (msg_data n)\<lparr>targ_node := (targ_node (msg_data n))
     \<lparr>nd_metric := aodvv2_metric_update (metric_type (msg_data n)) (nd_metric (targ_node (msg_data n)))\<rparr>,
     timestamp := clk (env n) (tick (env n))\<rparr>"
  "rcs_of (rrep_updated n) = rcs_of n" "queue (rrep_updated n) = queue n" "events (rrep_updated n) = events n"
  by (simp_all add: rrep_updated_def stamp_frame node_inv_def) (simp_all add: stamp_def node_now_def xtimer_now_timex_def)

text \<open>What the message is worth once it has passed the checks.\<close>

definition rrep_sendable :: "aodvv2_message \<Rightarrow> bool" where
  "rrep_sendable m \<longleftrightarrow> metric_type m = METRIC_HOP_COUNT \<and> nd_seqnum (orig_node m) \<noteq> 0 \<and> unat (nd_metric (targ_node m)) \<le> 254"

lemma rrep_passed:
  assumes "\<not> rrep_drop R dropped (msg_data n)" and "addr_ok R"
  shows "nd_addr (targ_node (msg_data (rrep_updated n))) \<noteq> 0 \<and> nd_addr (orig_node (msg_data (rrep_updated n))) \<noteq> 0 \<and>
    rrep_sendable (msg_data (rrep_updated n))"
  using assms metric_updated [of "metric_type (msg_data n)" "nd_metric (targ_node (msg_data n))"]
  by (auto simp: rrep_drop_def rrep_updated_frame rrep_sendable_def)

lemma rrep_forward_keeps:
  assumes inv: "node_inv U n" and ok: "addr_ok R" "timex_ok R"
    and targ: "nd_addr (targ_node (msg_data n)) \<noteq> 0" and send: "rrep_sendable (msg_data n)"
  shows "holds (\<lambda>(r, n'). node_inv U n') (rrep_forward R n)"
proof (cases "aodvv2_rcs_is_client R (nd_addr (orig_node (msg_data n))) (rcs_of n) \<noteq> None")
  case True
  obtain b where "node_dispatch R (nd_addr (targ_node (msg_data n))) n = Inr (n\<lparr>buffer_of := b,
      events := events n @ map Pkt (map DispatchSend (waiting (nd_addr (targ_node (msg_data n))) (buffer_of n)))\<rparr>)"
    and "buf_inv b" using dispatch_node [OF inv ok(1) targ] by blast
  with True inv show ?thesis by (simp add: rrep_forward_def node_inv_def)
next
  case False
  let ?a = "nd_addr (orig_node (msg_data n))" and ?t = "metric_type (msg_data n)"
  obtain h n1 where hop: "node_get_next_hop R ?a ?t n = (h, n1)" by (metis surj_pair)
  have "node_inv U n1"
  proof -
    obtain r n2 where get: "node_get_entry R ?a ?t n = (r, n2)" by (metis surj_pair)
    from get_entry_node [OF inv ok(2) get] obtain s w where "n2 = n\<lparr>lrs_of := s, env := w\<rparr>" "lrs_inv s" by blast
    moreover have "n1 = n2" using hop get
      by (auto simp: node_get_next_hop_def node_get_entry_def aodvv2_lrs_get_next_hop_def split: prod.splits)
    ultimately show ?thesis using inv by (simp add: node_inv_def)
  qed
  then have "holds (\<lambda>(r, n'). node_inv U n') (aodvv2_send_rrep (msg_data n1) h n1)"
    unfolding aodvv2_send_rrep_def using send next_hop_frame [OF hop]
    by (intro send_ipc_keeps) (simp_all add: rrep_sendable_def)
  then have "holds (\<lambda>(r, n'). node_inv U n') (bnd (aodvv2_send_rrep (msg_data n1) h n1) (\<lambda>(_, n). Inr (RFC5444_OKAY, n)))"
    unfolding holds_bnd by (rule holds_mono) auto
  with False hop show ?thesis by (simp add: rrep_forward_def del: holds_bnd)
qed

lemma rrep_end_keeps:
  assumes inv: "node_inv U n" and ok: "riot_ok R"
  shows "holds (\<lambda>(r, n'). node_inv U n') (cb_rrep_end_callback R dropped n)"
proof (cases "rrep_drop R dropped (msg_data n)")
  case True
  with inv show ?thesis by (simp add: rrep_end_split)
next
  case False
  have ok': "addr_ok R" "timex_ok R" using ok by auto
  note passed = rrep_passed [OF False ok'(1)]
  obtain go n1 where learn: "learn_route R (\<lambda>s m rt. aodvv2_lrs_fill_routing_entry_rrep R s m rt
      (aodvv2_metric_link_cost (metric_type (msg_data n)))) targ_node (rrep_updated n) = (go, n1)" by (metis surj_pair)
  from learn_route_keeps [OF rrep_updated_frame(1) [OF inv] ok' learn_rrep_fills _ learn] passed
  have "node_inv U n1" and same: "msg_data n1 = msg_data (rrep_updated n)" by blast+
  then have "holds (\<lambda>(r, n'). node_inv U n') (rrep_forward R n1)"
    using passed ok' by (intro rrep_forward_keeps) simp_all
  with False learn \<open>node_inv U n1\<close> show ?thesis by (simp add: rrep_end_split)
qed

text \<open>The same for a RREQ.\<close>

definition rreq_drop :: "riot \<Rightarrow> bool \<Rightarrow> aodvv2_message \<Rightarrow> bool" where
  "rreq_drop R dropped m \<longleftrightarrow> dropped \<or> ipv6_addr_is_unspecified R (nd_addr (orig_node m)) \<or> nd_seqnum (orig_node m) = 0 \<or>
     ipv6_addr_is_unspecified R (nd_addr (targ_node m)) \<or> msg_hop_limit m = 0 \<or>
     metric_limit_reached (metric_type m) (nd_metric (orig_node m))"

definition rreq_updated :: "node \<Rightarrow> node" where
  "rreq_updated n = stamp (n\<lparr>msg_data := (msg_data n)\<lparr>orig_node := (orig_node (msg_data n))
     \<lparr>nd_metric := aodvv2_metric_update (metric_type (msg_data n)) (nd_metric (orig_node (msg_data n)))\<rparr>\<rparr>\<rparr>)"

definition rreq_forward :: "riot \<Rightarrow> node \<Rightarrow> (int \<times> node) outcome" where
  "rreq_forward R n =
     (if aodvv2_rcs_is_client R (nd_addr (targ_node (msg_data n))) (rcs_of n) \<noteq> None
      then let m = (msg_data n)\<lparr>targ_node := (targ_node (msg_data n))\<lparr>nd_metric := 0\<rparr>\<rparr>
        in bnd (aodvv2_send_rrep m (Some (sender m)) (n\<lparr>msg_data := m\<rparr>)) (\<lambda>(_, n). Inr (RFC5444_OKAY, n))
      else bnd (aodvv2_send_rreq (msg_data n) (Some IPV6_ADDR_ALL_MANET_ROUTERS_LINK_LOCAL) n) (\<lambda>(_, n). Inr (RFC5444_OKAY, n)))"

lemma process_msg: "node_process R m n = (r, n') \<Longrightarrow> msg_data n' = msg_data n \<and> rcs_of n' = rcs_of n \<and> queue n' = queue n"
  by (auto simp: node_process_def split: prod.splits)

lemma rreq_end_split:
  "cb_rreq_end_callback R dropped n =
     (if rreq_drop R dropped (msg_data n) then Inr (RFC5444_DROP_PACKET, n)
      else let (redundant, n) = node_process R (msg_data n) n in
        if redundant = AODVV2_MCMSG_REDUNDANT then Inr (RFC5444_DROP_PACKET, n)
        else let (go_on, n) = learn_route R (\<lambda>s m rt. aodvv2_lrs_fill_routing_entry_rreq R s m rt
                   (aodvv2_metric_link_cost (metric_type (msg_data n)))) orig_node (rreq_updated n)
          in if \<not> go_on then Inr (RFC5444_DROP_PACKET, n) else rreq_forward R n)"
proof -
  obtain r n1 where p: "node_process R (msg_data n) n = (r, n1)" by (metis surj_pair)
  with process_msg [OF p] show ?thesis
    by (simp add: cb_rreq_end_callback_def rreq_drop_def rreq_updated_def rreq_forward_def Let_def
        split: prod.split if_split)
qed

lemma rreq_updated_frame:
  "node_inv U n \<Longrightarrow> node_inv U (rreq_updated n)"
  "msg_data (rreq_updated n) = (msg_data n)\<lparr>orig_node := (orig_node (msg_data n))
     \<lparr>nd_metric := aodvv2_metric_update (metric_type (msg_data n)) (nd_metric (orig_node (msg_data n)))\<rparr>,
     timestamp := clk (env n) (tick (env n))\<rparr>"
  "rcs_of (rreq_updated n) = rcs_of n" "queue (rreq_updated n) = queue n" "mcset_of (rreq_updated n) = mcset_of n"
  "same_env (env n) (env (rreq_updated n))"
  by (simp_all add: rreq_updated_def stamp_frame node_inv_def) (simp_all add: stamp_def node_now_def xtimer_now_timex_def)

definition rreq_sendable :: "aodvv2_message \<Rightarrow> bool" where
  "rreq_sendable m \<longleftrightarrow> metric_type m = METRIC_HOP_COUNT \<and> msg_hop_limit m \<noteq> 0 \<and> nd_seqnum (orig_node m) \<noteq> 0 \<and>
     unat (nd_metric (orig_node m)) \<le> 254"

lemma rreq_passed:
  assumes "\<not> rreq_drop R dropped (msg_data n)" and "addr_ok R" and "msg_data n' = msg_data n"
  shows "nd_addr (orig_node (msg_data (rreq_updated n'))) \<noteq> 0 \<and> rreq_sendable (msg_data (rreq_updated n'))"
  using assms metric_updated [of "metric_type (msg_data n)" "nd_metric (orig_node (msg_data n))"]
  by (auto simp: rreq_drop_def rreq_updated_frame rreq_sendable_def)

lemma rreq_forward_keeps:
  assumes inv: "node_inv U n" and send: "rreq_sendable (msg_data n)"
  shows "holds (\<lambda>(r, n'). node_inv U n') (rreq_forward R n)"
proof -
  let ?m = "(msg_data n)\<lparr>targ_node := (targ_node (msg_data n))\<lparr>nd_metric := 0\<rparr>\<rparr>"
  have "holds (\<lambda>(r, n'). node_inv U n') (aodvv2_send_rrep ?m (Some (sender ?m)) (n\<lparr>msg_data := ?m\<rparr>))"
    unfolding aodvv2_send_rrep_def using inv send
    by (intro send_ipc_keeps node_inv_msg_same) (simp_all add: rreq_sendable_def node_inv_def)
  moreover have "holds (\<lambda>(r, n'). node_inv U n')
      (aodvv2_send_rreq (msg_data n) (Some IPV6_ADDR_ALL_MANET_ROUTERS_LINK_LOCAL) n)"
    unfolding aodvv2_send_rreq_def using inv send
    by (intro send_ipc_keeps) (simp_all add: rreq_sendable_def)
  ultimately show ?thesis by (auto simp: rreq_forward_def Let_def elim!: holds_mono)
qed

lemma rreq_end_keeps:
  assumes inv: "node_inv U n" and ok: "riot_ok R"
  shows "holds (\<lambda>(r, n'). node_inv U n') (cb_rreq_end_callback R dropped n)"
proof (cases "rreq_drop R dropped (msg_data n)")
  case True
  with inv show ?thesis by (simp add: rreq_end_split)
next
  case False
  have ok': "addr_ok R" "timex_ok R" using ok by auto
  obtain red n1 where p: "node_process R (msg_data n) n = (red, n1)" by (metis surj_pair)
  from process_node [OF inv ok'(1) _ p] inv have inv1: "node_inv U n1" by (auto simp: node_inv_def)
  note msg = process_msg [OF p]
  note passed = rreq_passed [OF False ok'(1) msg [THEN conjunct1]]
  obtain go n2 where learn: "learn_route R (\<lambda>s m rt. aodvv2_lrs_fill_routing_entry_rreq R s m rt
      (aodvv2_metric_link_cost (metric_type (msg_data n1)))) orig_node (rreq_updated n1) = (go, n2)" by (metis surj_pair)
  from learn_route_keeps [OF rreq_updated_frame(1) [OF inv1] ok' learn_rreq_fills _ learn] passed
  have "node_inv U n2" and same: "msg_data n2 = msg_data (rreq_updated n1)" by blast+
  then have "holds (\<lambda>(r, n'). node_inv U n') (rreq_forward R n2)"
    using passed by (intro rreq_forward_keeps) simp_all
  with False learn p inv1 \<open>node_inv U n2\<close> msg show ?thesis by (simp add: rreq_end_split)
qed

lemma messagetlvs_rtr: "seqnortr (snd (messagetlvs_okay cx m)) = seqnortr m"
  by (simp add: messagetlvs_okay_def Let_def)

lemma set_frames [simp]:
  "seqnortr (set_orig R F cx v m) = seqnortr m" "seqnortr (set_targ_addr R F cx m) = seqnortr m"
  "seqnortr (set_targ_seqnum v m) = seqnortr m" "seqnortr (set_orig_rrep R F cx v m) = seqnortr m"
  "seqnortr (set_metric t v m) = seqnortr m"
  by (simp_all add: set_orig_def set_targ_addr_def set_targ_seqnum_def set_orig_rrep_def set_metric_def split: prod.split)

lemma on_tlv_rtr:
  "(\<And>v m. seqnortr (f v m) = seqnortr m) \<Longrightarrow> holds (\<lambda>m'. seqnortr m' = seqnortr m) (on_tlv cx t f m)"
  by (auto simp: on_tlv_def intro!: holds_trivial split: option.split)

lemma metric_tlv_rtr: "seqnortr m = a \<Longrightarrow> holds (\<lambda>(r, m'). seqnortr m' = a) (metric_tlv cx t b m)"
  by (auto simp: metric_tlv_def intro!: holds_trivial split: option.split)

lemma rrep_addresstlvs_rtr:
  "holds (\<lambda>(r, m'). seqnortr m' = seqnortr m) (cb_rrep_blocktlv_addresstlvs_okay R F cx tlvs m)"
  unfolding cb_rrep_blocktlv_addresstlvs_okay_def Let_def holds_bnd
  by (rule holds_mono [OF on_tlv_rtr], simp, rule holds_mono [OF on_tlv_rtr], simp)
     (auto intro!: metric_tlv_rtr)

lemma rreq_addresstlvs_rtr:
  "holds (\<lambda>(r, m'). seqnortr m' = seqnortr m) (cb_rreq_blocktlv_addresstlvs_okay R F cx tlvs m)"
  unfolding cb_rreq_blocktlv_addresstlvs_okay_def Let_def holds_bnd
  by (rule holds_mono [OF on_tlv_rtr], simp, rule holds_mono [OF on_tlv_rtr], simp)
     (auto intro!: metric_tlv_rtr)

lemma add_consumer_in: "c \<in> set (add_consumer d t es) \<Longrightarrow> c \<in> set t \<or> (\<exists>l. c = d\<lparr>consumer_list := l\<rparr>)"
  by (auto simp: add_consumer_def Let_def)

text \<open>The consumers: two with callbacks on the message, two with one on each address.\<close>

lemma reader_init_consumers:
  "c \<in> set (message_consumer (aodv_reader R F)) \<Longrightarrow> \<exists>l. c = (rrep_consumer R)\<lparr>consumer_list := l\<rparr> \<or> c = (rreq_consumer R)\<lparr>consumer_list := l\<rparr> \<or>
     c = (rrep_address_consumer R F)\<lparr>consumer_list := l\<rparr> \<or> c = (rreq_address_consumer R F)\<lparr>consumer_list := l\<rparr>"
  by (auto simp: aodv_reader_defs dest!: add_consumer_in)

lemma message_cb_keeps:
  "node_inv U n \<Longrightarrow> holds (\<lambda>(r, ids, n'). node_inv U n') (message_cb messagetlvs_okay cx ts n)"
  using messagetlvs_rtr [of cx "msg_data n"]
  by (auto simp: message_cb_def node_inv_def split: prod.split)

lemma address_cb_keeps:
  assumes "node_inv U n" and "\<And>m. holds (\<lambda>(r, m'). seqnortr m' = seqnortr m) (f cx ts m)"
  shows "holds (\<lambda>(r, ids, n'). node_inv U n') (address_cb f cx ts n)"
  unfolding address_cb_def holds_bnd
  by (rule holds_mono [OF assms(2)]) (use assms(1) in \<open>auto simp: node_inv_def\<close>)

lemmas consumer_fields = rrep_consumer_def rreq_consumer_def rrep_address_consumer_def rreq_address_consumer_def
  consumer_zero_def cb_rrep_blocktlv_messagetlvs_okay_def cb_rreq_blocktlv_messagetlvs_okay_def

interpretation aodv: consumers_keep "[]" "message_consumer (aodv_reader R F)" None "\<lambda>n. riot_ok R \<longrightarrow> node_inv U n" for R F U
proof (unfold_locales, goal_cases)
  case (2 c g s cx b)
  show ?case
  proof (cases "riot_ok R")
    case True
    with 2(3) have inv: "node_inv U s" by simp
    from 2(1,2) have "g cx b s = cb_rrep_end_callback R b s \<or> g cx b s = cb_rreq_end_callback R b s"
      by (auto dest!: reader_init_consumers simp: consumer_fields)
    with rrep_end_keeps [OF inv True, of b] rreq_end_keeps [OF inv True, of b] True show ?thesis by auto
  qed (simp add: holds_trivial)
next
  case (4 c k s cx ts)
  show ?case
  proof (cases "riot_ok R")
    case True
    with 4(3) have inv: "node_inv U s" by simp
    from 4(1,2) have "k cx ts s = message_cb messagetlvs_okay cx ts s \<or>
        k cx ts s = address_cb (cb_rrep_blocktlv_addresstlvs_okay R F) cx ts s \<or>
        k cx ts s = address_cb (cb_rreq_blocktlv_addresstlvs_okay R F) cx ts s"
      by (auto dest!: reader_init_consumers simp: consumer_fields)
    with message_cb_keeps [OF inv, of cx ts] True
      address_cb_keeps [OF inv, of "cb_rrep_blocktlv_addresstlvs_okay R F" cx ts, OF rrep_addresstlvs_rtr]
      address_cb_keeps [OF inv, of "cb_rreq_blocktlv_addresstlvs_okay R F" cx ts, OF rreq_addresstlvs_rtr]
    show ?thesis by auto
  qed (simp add: holds_trivial)
qed (auto dest!: reader_init_consumers simp: consumer_fields)

end
