(* ===== verification/AodvWriter.thy ===== *)
theory AodvWriter
  imports RfcGenerator AodvReader
begin

text \<open>
  The writer of AODVv2 messages, \<open>mesh/sys/net/aodvv2/aodvv2_writer.c\<close>: the functions it registers with the
  RFC 5444 writer and the two functions that create a RREQ and a RREP. Both arrays of TLV types have
  four elements: the ones the designated initialisers do not name are zeroed.
\<close>

text \<open>The static message and the sequence number of the node.\<close>

record wstate =
  ws_msg :: aodvv2_message
  ws_seqnum :: u32

definition METRIC_EXTTYPE :: u8 where
  "METRIC_EXTTYPE = CONFIG_AODVV2_DEFAULT_METRIC"

text \<open>TLV types 0 to 3 are \<open>_rreq_addrtlvs\<close>, 4 to 7 are \<open>_rrep_addrtlvs\<close>.\<close>

definition rreq_addrtlvs :: "nat \<Rightarrow> tlvtype" where
  "rreq_addrtlvs i =
     (if i = RFC5444_MSGTLV_ORIGSEQNUM then tlvtype_zero\<lparr>tt_type := of_nat RFC5444_MSGTLV_ORIGSEQNUM\<rparr>
      else if i = RFC5444_MSGTLV_METRIC then tlvtype_zero\<lparr>tt_type := of_nat RFC5444_MSGTLV_METRIC, tt_exttype := METRIC_EXTTYPE\<rparr>
      else tlvtype_zero)"

definition rrep_addrtlvs :: "nat \<Rightarrow> tlvtype" where
  "rrep_addrtlvs i =
     (if i = RFC5444_MSGTLV_ORIGSEQNUM then tlvtype_zero\<lparr>tt_type := of_nat RFC5444_MSGTLV_ORIGSEQNUM\<rparr>
      else if i = RFC5444_MSGTLV_TARGSEQNUM then tlvtype_zero\<lparr>tt_type := of_nat RFC5444_MSGTLV_TARGSEQNUM\<rparr>
      else if i = RFC5444_MSGTLV_METRIC then tlvtype_zero\<lparr>tt_type := of_nat RFC5444_MSGTLV_METRIC, tt_exttype := METRIC_EXTTYPE\<rparr>
      else tlvtype_zero)"

definition aodv_tlvtypes :: "nat \<Rightarrow> tlvtype" where
  "aodv_tlvtypes t = (if t < 4 then rreq_addrtlvs t else if t < 8 then rrep_addrtlvs (t - 4) else tlvtype_zero)"

definition rreq_tlv :: "nat \<Rightarrow> nat" where "rreq_tlv i = i"
definition rrep_tlv :: "nat \<Rightarrow> nat" where "rrep_tlv i = 4 + i"

definition cb_add_message_header :: "u8 \<Rightarrow> wstate \<times> writer \<Rightarrow> (int \<times> wstate \<times> writer) outcome" where
  "cb_add_message_header ty = (\<lambda>(s, wr).
     bnd (rfc5444_writer_set_msg_header ty False False True False wr) (\<lambda>wr.
     bnd (rfc5444_writer_set_msg_hoplimit ty (msg_hop_limit (ws_msg s)) wr) (\<lambda>wr. Inr (0, s, wr))))"

text \<open>The address of a node with its prefix length; a length of 0 or more than 128 stands for 128.\<close>

definition node_prefix :: "af \<Rightarrow> node_data \<Rightarrow> netaddr" where
  "node_prefix F d = ipv6_addr_to_netaddr F (nd_addr d) (if nd_pfx_len d = 0 \<or> nd_pfx_len d > 128 then 128 else nd_pfx_len d)"

text \<open>\<open>uint16_t\<close> in memory: the processor is little-endian.\<close>

definition u16_mem :: "u16 \<Rightarrow> u8 list" where
  "u16_mem n = [ucast n, ucast (drop_bit 8 n)]"

definition cb_rreq_add_addresses :: "af \<Rightarrow> wstate act" where
  "cb_rreq_add_addresses F = (\<lambda>(s, wr).
     let ty = RFC5444_MSGTYPE_RREQ; orig = orig_node (ws_msg s) in
     bnd (rfc5444_writer_add_address ty (node_prefix F orig) True wr) (\<lambda>(orig_prefix, wr).
     bnd (guard (orig_prefix \<noteq> None) AssertFail) (\<lambda>_.
     bnd (rfc5444_writer_add_address ty (node_prefix F (targ_node (ws_msg s))) True wr) (\<lambda>(_, wr).
     bnd (rfc5444_writer_add_addrtlv ty orig_prefix (rreq_tlv RFC5444_MSGTLV_ORIGSEQNUM) (u16_mem (nd_seqnum orig)) False wr) (\<lambda>(_, wr).
     bnd (rfc5444_writer_add_addrtlv ty orig_prefix (rreq_tlv RFC5444_MSGTLV_METRIC) [nd_metric orig] False wr) (\<lambda>(_, wr).
     Inr (s, wr)))))))"

text \<open>The assertion after the second address tests the first one again.\<close>

definition cb_rrep_add_addresses :: "af \<Rightarrow> wstate act" where
  "cb_rrep_add_addresses F = (\<lambda>(s, wr).
     let ty = RFC5444_MSGTYPE_RREP; orig = orig_node (ws_msg s); targ = targ_node (ws_msg s);
         targ_node_seqnum = aodvv2_seqnum_get (ws_seqnum s); s = s\<lparr>ws_seqnum := aodvv2_seqnum_inc (ws_seqnum s)\<rparr> in
     bnd (rfc5444_writer_add_address ty (node_prefix F orig) True wr) (\<lambda>(orig_prefix, wr).
     bnd (guard (orig_prefix \<noteq> None) AssertFail) (\<lambda>_.
     bnd (rfc5444_writer_add_address ty (node_prefix F targ) True wr) (\<lambda>(targ_prefix, wr).
     bnd (guard (orig_prefix \<noteq> None) AssertFail) (\<lambda>_.
     bnd (rfc5444_writer_add_addrtlv ty orig_prefix (rrep_tlv RFC5444_MSGTLV_ORIGSEQNUM) (u16_mem (nd_seqnum orig)) False wr) (\<lambda>(_, wr).
     bnd (rfc5444_writer_add_addrtlv ty targ_prefix (rrep_tlv RFC5444_MSGTLV_TARGSEQNUM) (u16_mem targ_node_seqnum) False wr) (\<lambda>(_, wr).
     bnd (rfc5444_writer_add_addrtlv ty targ_prefix (rrep_tlv RFC5444_MSGTLV_METRIC) [nd_metric targ] False wr) (\<lambda>(_, wr).
     Inr (s, wr)))))))))"

text \<open>Provider 0 is that of the RREQ, provider 1 that of the RREP; header function 0 is the common one.\<close>

definition aodv_cbs :: "af \<Rightarrow> wstate cbs" where
  "aodv_cbs F =
     \<lparr>addPacketHeader = (\<lambda>_. None), finishPacketHeader = (\<lambda>_. None), addPacketTLVs = (\<lambda>_ _. None), finishPacketTLVs = (\<lambda>_ _. None),
      addMessageHeader = (\<lambda>_. cb_add_message_header), finishMessageHeader = (\<lambda>_. None), addMessageTLVs = (\<lambda>_. None),
      addAddresses = (\<lambda>p. if p = 0 then Some (cb_rreq_add_addresses F) else if p = 1 then Some (cb_rrep_add_addresses F) else None),
      finishMessageTLVs = (\<lambda>_. None),
      postprocessor = (\<lambda>_. \<lparr>is_matching_signature = (\<lambda>_. False), allocate_space = 0, target_specific = False, pp_process = (\<lambda>_ d. (0, d))\<rparr>),
      forward_handler = (\<lambda>_ _. \<lparr>is_matching_signature = (\<lambda>_. False), allocate_space = 0, target_specific = False, pp_process = (\<lambda>_ d. (0, d))\<rparr>),
      forward_target_selector = (\<lambda>_. None), message_generation_notifier = None\<rparr>"

text \<open>A failed registration ends the function early.\<close>

definition aodvv2_writer_init :: "writer \<Rightarrow> writer outcome" where
  "aodvv2_writer_init wr =
     bnd (rfc5444_writer_register_msgcontentprovider RFC5444_MSGTYPE_RREQ \<lparr>cp_id = 0, cp_priority = 0\<rparr> (map rreq_tlv [0..<4]) wr) (\<lambda>(res, wr).
     if res < 0 then Inr wr
     else bnd (rfc5444_writer_register_msgcontentprovider RFC5444_MSGTYPE_RREP \<lparr>cp_id = 1, cp_priority = 0\<rparr> (map rrep_tlv [0..<4]) wr) (\<lambda>(res, wr).
     if res < 0 then Inr wr
     else bnd (rfc5444_writer_register_message RFC5444_MSGTYPE_RREQ False wr) (\<lambda>(rreq, wr).
     case rreq of None \<Rightarrow> Inr wr
     | Some rreq \<Rightarrow> bnd (rfc5444_writer_register_message RFC5444_MSGTYPE_RREP False wr) (\<lambda>(rrep, wr).
     case rrep of None \<Rightarrow> Inr wr
     | Some rrep \<Rightarrow> Inr (upd_msg rrep (\<lambda>m. m\<lparr>add_message_header := Some 0\<rparr>)
         (upd_msg rreq (\<lambda>m. m\<lparr>add_message_header := Some 0\<rparr>) wr))))))"

definition EIO :: int where "EIO = 5"

text \<open>The two addresses of a message fit one fragment, so the loop of the generator ends after two rounds.\<close>

definition CREATE_ROUNDS :: nat where "CREATE_ROUNDS = 3"

definition writer_send :: "af \<Rightarrow> u8 \<Rightarrow> aodvv2_message \<Rightarrow> wstate \<times> writer \<Rightarrow> (int \<times> wstate \<times> writer) outcome option" where
  "writer_send F ty message = (\<lambda>(s, wr).
     case rfc5444_writer_create_message_alltarget CREATE_ROUNDS (aodv_cbs F) ty (of_nat RFC5444_MAX_ADDRLEN) (s\<lparr>ws_msg := message\<rparr>, wr) of
       Some (Inr (r, x)) \<Rightarrow> Some (Inr (if r \<noteq> RFC5444_OKAY then - EIO else 0, x))
     | r \<Rightarrow> r)"

definition aodvv2_writer_send_rreq :: "af \<Rightarrow> aodvv2_message \<Rightarrow> wstate \<times> writer \<Rightarrow> (int \<times> wstate \<times> writer) outcome option" where
  "aodvv2_writer_send_rreq F = writer_send F RFC5444_MSGTYPE_RREQ"

definition aodvv2_writer_send_rrep :: "af \<Rightarrow> aodvv2_message \<Rightarrow> wstate \<times> writer \<Rightarrow> (int \<times> wstate \<times> writer) outcome option" where
  "aodvv2_writer_send_rrep F = writer_send F RFC5444_MSGTYPE_RREP"

section \<open>Setting up\<close>

text \<open>The writer's part of \<open>aodvv2_init\<close>: static buffers of 128 and 1000 bytes, one target.\<close>

definition CONFIG_AODVV2_RFC5444_PACKET_SIZE :: nat where "CONFIG_AODVV2_RFC5444_PACKET_SIZE = 128"
definition CONFIG_AODVV2_RFC5444_ADDR_TLVS_SIZE :: nat where "CONFIG_AODVV2_RFC5444_ADDR_TLVS_SIZE = 1000"

definition tlv_data_static :: "nat \<Rightarrow> tlv_writer_data" where
  "tlv_data_static n = \<lparr>tw_buffer = replicate n 0, tw_header = 0, tw_added = 0, tw_allocated = 0, tw_set = 0, tw_max = 0\<rparr>"

definition writer_static :: "world \<Rightarrow> writer" where
  "writer_static w = \<lparr>msgcreators = [], targets = [], pkthandlers = [], processors = [], forwarding_processors = [],
     addr_tlvtype_head = [], tlvtypes = aodv_tlvtypes, w_msg = tlv_data_static CONFIG_AODVV2_RFC5444_PACKET_SIZE,
     w_msg_size = CONFIG_AODVV2_RFC5444_PACKET_SIZE, msg_addr_len = 0, msg_target = None,
     addrtlv_buffer = replicate CONFIG_AODVV2_RFC5444_ADDR_TLVS_SIZE 0, addrtlv_used = 0, w_state = WRITER_NONE, w_env = w, sent = []\<rparr>"

definition writer_target :: target where
  "writer_target = \<lparr>packet_size = CONFIG_AODVV2_RFC5444_PACKET_SIZE, tg_has_seqno = False, tg_seqno = 0, is_flushed = False,
     tg_pkt = tlv_data_static CONFIG_AODVV2_RFC5444_PACKET_SIZE, bin_msgs_size = 0\<rparr>"

definition writer_boot :: "world \<Rightarrow> writer outcome" where
  "writer_boot w =
     bnd (rfc5444_writer_init (writer_static w)) (\<lambda>wr.
     bnd (rfc5444_writer_register_target writer_target wr) aodvv2_writer_init)"

end
