(* ===== verification/AodvHandlers.thy ===== *)
theory AodvHandlers
  imports AodvReader
begin

text \<open>
  What the end callbacks of \<open>aodvv2_reader.c\<close> do with a message that has been read: properties of
  \<open>cb_rreq_end_callback\<close>, \<open>cb_rrep_end_callback\<close> and the address callbacks of \<open>AodvReader\<close>.
\<close>

section \<open>Learning a route\<close>

text \<open>The route in the table, if any, is better than the message.\<close>

definition not_improving :: "riot \<Rightarrow> (aodvv2_message \<Rightarrow> node_data) \<Rightarrow> node \<Rightarrow> bool" where
  "not_improving R nd n \<longleftrightarrow>
     (let (r, n') = node_get_entry R (nd_addr (nd (msg_data n))) (metric_type (msg_data n)) n in
      case r of None \<Rightarrow> False
      | Some i \<Rightarrow> \<not> aodvv2_lrs_offers_improvement (route (routing_table (lrs_of n') ! i)) (nd (msg_data n)))"

lemma learn_route_go:
  assumes "node_inv U n" and "riot_ok R" and "learn_route R fill nd n = (go, n')"
  shows "go \<longleftrightarrow> \<not> not_improving R nd n"
proof -
  have ok: "timex_ok R" using assms(2) by auto
  let ?m = "msg_data n"
  obtain r n1 where get: "node_get_entry R (nd_addr (nd ?m)) (metric_type ?m) n = (r, n1)" by (metis surj_pair)
  from get_entry_node [OF assms(1) ok get] obtain s w where n1: "n1 = n\<lparr>lrs_of := s, env := w\<rparr>"
    and r: "case r of None \<Rightarrow> True | Some i \<Rightarrow> i < length (routing_table s) \<and>
      route_is R (nd_addr (nd ?m)) (metric_type ?m) (routing_table s ! i)" by blast
  show ?thesis
  proof (cases r)
    case None
    with get assms(3) show ?thesis by (auto simp: learn_route_def not_improving_def Let_def)
  next
    case (Some i)
    with r have "rt_metric_type (route (routing_table s ! i)) = metric_type ?m" by (simp add: route_is_def)
    with Some get assms(3) show ?thesis
      by (auto simp: learn_route_def not_improving_def n1 Let_def split: if_splits)
  qed
qed

lemma learn_route_env:
  assumes "learn_route R fill nd n = (go, n')"
  shows "same_env (env n) (env n')"
proof -
  let ?m = "msg_data n"
  obtain r n1 where get: "node_get_entry R (nd_addr (nd ?m)) (metric_type ?m) n = (r, n1)" by (metis surj_pair)
  have "same_env (env n1) (env n')"
    using assms get node_add_entry_env
    by (auto simp: learn_route_def Let_def split: option.splits if_splits)
  with node_get_entry_env [OF get] show ?thesis by (rule same_env_trans)
qed

text \<open>No slot holds a route to \<open>a\<close>.\<close>

definition no_route :: "ipv6_addr \<Rightarrow> lrs \<Rightarrow> bool" where
  "no_route a s \<longleftrightarrow> (\<forall>e \<in> set (routing_table s). rt_addr (route e) \<noteq> a)"

lemma aged_addr: "a \<noteq> 0 \<Longrightarrow> rt_addr (route (es ! j)) \<noteq> a \<Longrightarrow> rt_addr (route (aged R s w es j)) \<noteq> a"
  by (cases rule: lrs_age_cases [of R s "clk w (tick w + j)" "route (es ! j)"]) (auto simp: aged_def route_zero_def)

lemma scan_absent:
  assumes "lrs_scan R s hit now w es = (r, es', now', w')" and "a \<noteq> 0" and "\<forall>e \<in> set es. rt_addr (route e) \<noteq> a"
  shows "\<forall>e \<in> set es'. rt_addr (route e) \<noteq> a"
proof (cases r)
  case None
  with lrs_scan_None [of R s hit now w es es' now' w'] assms aged_addr [OF assms(2)] show ?thesis
    by (simp add: all_set_conv_all_nth)
next
  case (Some i)
  with lrs_scan_Some [of R s hit now w es i es' now' w'] assms aged_addr [OF assms(2)] show ?thesis
    by (simp add: all_set_conv_all_nth)
qed

lemma get_entry_absent:
  assumes "aodvv2_lrs_get_entry R b t s w = (r, s', w')" and "no_route a s" and "a \<noteq> 0"
  shows "no_route a s'"
proof -
  from assms(1) obtain es now where scan: "lrs_scan R s (route_is R b t) (lrs_now s) w (routing_table s) = (r, es, now, w')"
    and s': "s' = s\<lparr>routing_table := es, lrs_now := now\<rparr>"
    by (auto simp: aodvv2_lrs_get_entry_def split: prod.splits)
  from scan_absent [OF scan assms(3)] assms(2) show ?thesis by (simp add: no_route_def s')
qed

lemma get_entry_misses:
  assumes "aodvv2_lrs_get_entry R a t s w = (r, s', w')" and "no_route a s" and "a \<noteq> 0" and "addr_ok R"
  shows "r = None"
proof (cases r)
  case (Some i)
  with get_entry_Some [of R a t s w i s' w'] get_entry_absent [OF assms(1-3)] assms(1,4) show ?thesis
    by (simp add: no_route_def route_is_def all_set_conv_all_nth)
qed

lemma no_route_improving:
  assumes "no_route (nd_addr (nd (msg_data n))) (lrs_of n)" and "nd_addr (nd (msg_data n)) \<noteq> 0" and "addr_ok R"
  shows "\<not> not_improving R nd n"
proof -
  obtain r s w where get: "aodvv2_lrs_get_entry R (nd_addr (nd (msg_data n))) (metric_type (msg_data n)) (lrs_of n) (env n) = (r, s, w)"
    by (metis prod_cases3)
  with get_entry_misses [OF get assms] show ?thesis by (simp add: not_improving_def node_get_entry_def)
qed

section \<open>Route requests\<close>

definition rreq_refused :: "riot \<Rightarrow> node \<Rightarrow> bool" where
  "rreq_refused R n \<longleftrightarrow> (let (redundant, n1) = node_process R (msg_data n) n in
     redundant = AODVV2_MCMSG_REDUNDANT \<or> not_improving R orig_node (rreq_updated n1))"

text \<open>
  The message that goes out: one hop further, with \<open>h\<close> as its hop limit, stamped with the time \<open>t\<close>.
\<close>

definition rreq_answer :: "riot \<Rightarrow> node \<Rightarrow> u8 \<Rightarrow> timex \<Rightarrow> ipc" where
  "rreq_answer R n h t =
     (let m = msg_data n;
          m = m\<lparr>msg_hop_limit := h, orig_node := (orig_node m)\<lparr>nd_metric := nd_metric (orig_node m) + 1\<rparr>, timestamp := t\<rparr> in
      if aodvv2_rcs_is_client R (nd_addr (targ_node m)) (rcs_of n) \<noteq> None
      then SendRrep \<lparr>m_pkt = m\<lparr>targ_node := (targ_node m)\<lparr>nd_metric := 0\<rparr>\<rparr>, m_next_hop = sender m\<rparr>
      else SendRreq \<lparr>m_pkt = m, m_next_hop = IPV6_ADDR_ALL_MANET_ROUTERS_LINK_LOCAL\<rparr>)"

definition all_succeed :: "world \<Rightarrow> bool" where
  "all_succeed w \<longleftrightarrow> (\<forall>k. malloc_ok w k \<and> send_ok w k)"

text \<open>
  The one attempt to queue \<open>a\<close>: \<open>malloc\<close> is the environment's answer number \<open>k\<close>, the last but one
  of the run, \<open>msg_send\<close> the next. If \<open>msg_send\<close> fails the allocated message is lost.
\<close>

definition attempted :: "node \<Rightarrow> node \<Rightarrow> nat \<Rightarrow> ipc \<Rightarrow> bool" where
  "attempted n n' k a \<longleftrightarrow>
     queue n' = queue n @ (if malloc_ok (env n) k \<and> send_ok (env n) (Suc k) then [a] else []) \<and>
     leaked n' = leaked n + (if malloc_ok (env n) k \<and> \<not> send_ok (env n) (Suc k) then 1 else 0) \<and>
     tick (env n') = (if malloc_ok (env n) k then k + 2 else k + 1)"

lemma send_ipc_attempted:
  "\<exists>r n'. send_ipc kind pkt (Some hop) n = Inr (r, n') \<and> attempted n n' (tick (env n)) (kind \<lparr>m_pkt = pkt, m_next_hop = hop\<rparr>) \<and>
     mcset_of n' = mcset_of n \<and> same_env (env n) (env n')"
  by (simp add: send_ipc_def attempted_def Let_def)

lemma attempted_trans:
  "attempted n n' k a \<Longrightarrow> queue n = queue n0 \<Longrightarrow> leaked n = leaked n0 \<Longrightarrow> same_env (env n0) (env n) \<Longrightarrow> attempted n0 n' k a"
  by (simp add: attempted_def same_env_def)

lemma learn_route_leaked: "learn_route R fill nd n = (go, n') \<Longrightarrow> leaked n' = leaked n"
  by (auto simp: learn_route_def node_get_entry_def node_add_entry_def log_event_def Let_def
      split: option.splits if_splits prod.splits)

lemma leaked_frames: "leaked (rreq_updated n) = leaked n" "node_process R m n = (r, n') \<Longrightarrow> leaked n' = leaked n"
  by (auto simp: rreq_updated_def stamp_def node_now_def node_process_def xtimer_now_timex_def split: prod.splits)

lemma rreq_runs:
  assumes ok: "riot_ok R" and inv: "node_inv U n" and go: "\<not> rreq_drop R dropped (msg_data n)"
  shows "\<exists>r n' t k. cb_rreq_end_callback R dropped n = Inr (r, n') \<and>
    (if rreq_refused R n then r = RFC5444_DROP_PACKET \<and> queue n' = queue n \<and> leaked n' = leaked n
     else r = RFC5444_OKAY \<and> attempted n n' k (rreq_answer R n (msg_hop_limit (msg_data n)) t)) \<and>
    mcset_of n' = mcset_of (snd (node_process R (msg_data n) n)) \<and> same_env (env n) (env n')"
proof -
  have ok': "addr_ok R" "timex_ok R" using ok by auto
  let ?m = "msg_data n"
  obtain red n1 where p: "node_process R ?m n = (red, n1)" by (metis surj_pair)
  from process_node [OF inv ok'(1) _ p] inv have inv1: "node_inv U n1" by (auto simp: node_inv_def)
  note msg = process_msg [OF p] note env1 = node_process_env [OF p] note leak1 = leaked_frames(2) [OF p]
  show ?thesis
  proof (cases "red = AODVV2_MCMSG_REDUNDANT")
    case True
    with p msg go env1 leak1 show ?thesis by (simp add: rreq_end_split rreq_refused_def)
  next
    case new: False
    let ?u = "rreq_updated n1"
    note passed = rreq_passed [OF go ok'(1) msg [THEN conjunct1]]
    obtain on n2 where learn: "learn_route R (\<lambda>s m rt. aodvv2_lrs_fill_routing_entry_rreq R s m rt
        (aodvv2_metric_link_cost (metric_type (msg_data n1)))) orig_node ?u = (on, n2)" by (metis surj_pair)
    from learn_route_keeps [OF rreq_updated_frame(1) [OF inv1] ok' learn_rreq_fills _ learn] passed
    have same: "msg_data n2 = msg_data ?u" "queue n2 = queue n" "rcs_of n2 = rcs_of n" "mcset_of n2 = mcset_of n1"
      using msg by (auto simp: rreq_updated_frame)
    have leak2: "leaked n2 = leaked n" using learn_route_leaked [OF learn] leak1 by (simp add: leaked_frames)
    have env2: "same_env (env n) (env n2)"
      using env1 rreq_updated_frame(6) [of n1] learn_route_env [OF learn] same_env_trans by blast
    from learn_route_go [OF rreq_updated_frame(1) [OF inv1] ok learn] have on: "on \<longleftrightarrow> \<not> rreq_refused R n"
      using p new by (simp add: rreq_refused_def)
    show ?thesis
    proof (cases on)
      case False
      with on p new learn go same env2 leak2 msg show ?thesis by (simp add: rreq_end_split)
    next
      case True
      have "metric_type ?m = METRIC_HOP_COUNT" using go by (auto simp: rreq_drop_def metric_limit_reached_iff)
      then have m2: "msg_data n2 = ?m\<lparr>orig_node := (orig_node ?m)\<lparr>nd_metric := nd_metric (orig_node ?m) + 1\<rparr>,
          timestamp := clk (env n1) (tick (env n1))\<rparr>"
        using same msg by (simp add: rreq_updated_frame aodvv2_metric_update_def)
      have cb: "cb_rreq_end_callback R dropped n = rreq_forward R n2"
        using True p new learn go msg by (simp add: rreq_end_split)
      have "\<exists>r n' k. rreq_forward R n2 = Inr (RFC5444_OKAY, n') \<and>
          attempted n n' k (rreq_answer R n (msg_hop_limit ?m) (clk (env n1) (tick (env n1)))) \<and>
          mcset_of n' = mcset_of n2 \<and> same_env (env n2) (env n')"
      proof (cases "aodvv2_rcs_is_client R (nd_addr (targ_node ?m)) (rcs_of n) \<noteq> None")
        case client: True
        let ?m' = "(msg_data n2)\<lparr>targ_node := (targ_node (msg_data n2))\<lparr>nd_metric := 0\<rparr>\<rparr>"
        let ?n2 = "n2\<lparr>msg_data := ?m'\<rparr>"
        from send_ipc_attempted [of SendRrep ?m' "sender ?m'" ?n2] obtain r n'
          where send: "send_ipc SendRrep ?m' (Some (sender ?m')) ?n2 = Inr (r, n')"
            and att: "attempted ?n2 n' (tick (env ?n2)) (SendRrep \<lparr>m_pkt = ?m', m_next_hop = sender ?m'\<rparr>)"
            and fr: "mcset_of n' = mcset_of n2" "same_env (env n2) (env n')" by auto
        have "rreq_answer R n (msg_hop_limit ?m) (clk (env n1) (tick (env n1))) = SendRrep \<lparr>m_pkt = ?m', m_next_hop = sender ?m'\<rparr>"
          using client m2 by (simp add: rreq_answer_def Let_def)
        with attempted_trans [OF att, of n] same(2) leak2 env2 send fr client m2 same(3) show ?thesis
          by (simp add: rreq_forward_def aodvv2_send_rrep_def Let_def) blast
      next
        case client: False
        from send_ipc_attempted [of SendRreq "msg_data n2" IPV6_ADDR_ALL_MANET_ROUTERS_LINK_LOCAL n2] obtain r n'
          where send: "send_ipc SendRreq (msg_data n2) (Some IPV6_ADDR_ALL_MANET_ROUTERS_LINK_LOCAL) n2 = Inr (r, n')"
            and att: "attempted n2 n' (tick (env n2)) (SendRreq \<lparr>m_pkt = msg_data n2, m_next_hop = IPV6_ADDR_ALL_MANET_ROUTERS_LINK_LOCAL\<rparr>)"
            and fr: "mcset_of n' = mcset_of n2" "same_env (env n2) (env n')" by auto
        have "rreq_answer R n (msg_hop_limit ?m) (clk (env n1) (tick (env n1))) =
            SendRreq \<lparr>m_pkt = msg_data n2, m_next_hop = IPV6_ADDR_ALL_MANET_ROUTERS_LINK_LOCAL\<rparr>"
          using client m2 by (simp add: rreq_answer_def Let_def)
        with attempted_trans [OF att, of n] same(2) leak2 env2 send fr client m2 same(3) show ?thesis
          by (simp add: rreq_forward_def aodvv2_send_rreq_def Let_def) blast
      qed
      with on True cb same(4) p env2 same_env_trans [OF env2] show ?thesis by (simp, metis snd_conv)
    qed
  qed
qed

lemma send_ipc_frame:
  "holds (\<lambda>(r, n'). mcset_of n' = mcset_of n \<and> same_env (env n) (env n')) (send_ipc kind pkt hop n)"
  by (auto simp: send_ipc_def Let_def intro!: holds_trivial)

lemma rreq_forward_frame:
  "holds (\<lambda>(r, n'). mcset_of n' = mcset_of n \<and> same_env (env n) (env n')) (rreq_forward R n)"
proof -
  let ?m = "(msg_data n)\<lparr>targ_node := (targ_node (msg_data n))\<lparr>nd_metric := 0\<rparr>\<rparr>"
  have "holds (\<lambda>(r, n'). mcset_of n' = mcset_of n \<and> same_env (env n) (env n'))
      (send_ipc SendRrep ?m (Some (sender ?m)) (n\<lparr>msg_data := ?m\<rparr>))"
    using send_ipc_frame [of "n\<lparr>msg_data := ?m\<rparr>" SendRrep ?m "Some (sender ?m)"] by simp
  moreover have "holds (\<lambda>(r, n'). mcset_of n' = mcset_of n \<and> same_env (env n) (env n'))
      (send_ipc SendRreq (msg_data n) (Some IPV6_ADDR_ALL_MANET_ROUTERS_LINK_LOCAL) n)" by (rule send_ipc_frame)
  ultimately show ?thesis
    by (auto simp: rreq_forward_def aodvv2_send_rrep_def aodvv2_send_rreq_def Let_def elim!: holds_mono)
qed

lemma rreq_mcset:
  assumes ok: "riot_ok R" and inv: "node_inv U n" and go: "\<not> rreq_drop R dropped (msg_data n)"
    and run: "cb_rreq_end_callback R dropped n = Inr (r, n')"
  shows "mcset_of n' = mcset_of (snd (node_process R (msg_data n) n)) \<and> same_env (env n) (env n')"
proof -
  have ok': "addr_ok R" "timex_ok R" using ok by auto
  obtain red n1 where p: "node_process R (msg_data n) n = (red, n1)" by (metis surj_pair)
  from process_node [OF inv ok'(1) _ p] inv have inv1: "node_inv U n1" by (auto simp: node_inv_def)
  note msg = process_msg [OF p] note env1 = node_process_env [OF p]
  note passed = rreq_passed [OF go ok'(1) msg [THEN conjunct1]]
  obtain on n2 where learn: "learn_route R (\<lambda>s m rt. aodvv2_lrs_fill_routing_entry_rreq R s m rt
      (aodvv2_metric_link_cost (metric_type (msg_data n1)))) orig_node (rreq_updated n1) = (on, n2)" by (metis surj_pair)
  from learn_route_keeps [OF rreq_updated_frame(1) [OF inv1] ok' learn_rreq_fills _ learn] passed
  have same: "mcset_of n2 = mcset_of n1" by (simp add: rreq_updated_frame)
  have env2: "same_env (env n) (env n2)"
    using env1 rreq_updated_frame(6) [of n1] learn_route_env [OF learn] same_env_trans by blast
  have "cb_rreq_end_callback R dropped n = (if red = AODVV2_MCMSG_REDUNDANT then Inr (RFC5444_DROP_PACKET, n1)
      else if \<not> on then Inr (RFC5444_DROP_PACKET, n2) else rreq_forward R n2)"
    using go p learn msg by (simp add: rreq_end_split)
  with run same env1 env2 p holdsD [OF rreq_forward_frame, of R n2 "(r, n')"] same_env_trans show ?thesis
    by (auto split: if_splits)
qed

section \<open>A router after \<open>aodvv2_init\<close>\<close>

lemma node_inv_init: "timex_ok R \<Longrightarrow> node_inv U (aodvv2_init_tables R (node_boot w))"
  by (simp add: node_inv_def aodvv2_init_tables_def node_boot_def lrs_inv_init rcs_inv_init mc_ok_inv mc_inv_init buf_inv_init
      message_zero_def aodvv2_seqnum_init_def)

text \<open>A router whose only client is \<open>2\<close>, holding a request of \<open>1\<close> for \<open>targ\<close> that came from \<open>9\<close>.\<close>

definition node_ref :: "ipv6_addr \<Rightarrow> node" where
  "node_ref targ = (aodvv2_init_tables riot_ref (node_boot (world_at timex_zero)))
     \<lparr>rcs_of := snd (aodvv2_rcs_add riot_ref 2 128 1 aodvv2_rcs_init),
      msg_data := \<lparr>msg_hop_limit = 5, sender = 9, metric_type = METRIC_HOP_COUNT,
        orig_node = \<lparr>nd_addr = 1, nd_pfx_len = 128, nd_metric = 3, nd_seqnum = 7\<rparr>,
        targ_node = \<lparr>nd_addr = targ, nd_pfx_len = 128, nd_metric = 0, nd_seqnum = 6\<rparr>, seqnortr = 0, timestamp = timex_zero\<rparr>\<rparr>"

lemma node_ref_inv: "node_inv U (node_ref targ)"
  using node_inv_init [OF timex_ok_ref, of U "world_at timex_zero"] rcs_inv_add [OF prefix_ok_ref rcs_inv_init, of 2 128 1]
  by (simp add: node_inv_def node_ref_def)

lemma node_ref_go: "targ \<noteq> 0 \<Longrightarrow> \<not> rreq_drop riot_ref False (msg_data (node_ref targ))"
  by (simp add: rreq_drop_def node_ref_def addr_ok_ref metric_limit_reached_iff)

lemma node_ref_fresh: "a \<noteq> 0 \<Longrightarrow> no_route a (lrs_of (node_ref targ))"
  by (simp add: no_route_def node_ref_def aodvv2_init_tables_def aodvv2_lrs_init_def lrs_free_slot_def route_zero_def)

lemma rcs_one: "snd (aodvv2_rcs_add riot_ref a 128 1 aodvv2_rcs_init) =
    [\<lparr>rcs_data = \<lparr>rcs_addr = a, rcs_pfx_len = 128, rcs_cost = 1\<rparr>, rcs_used = True\<rparr>, rcs_free_slot]"
  by (simp add: aodvv2_rcs_add_def aodvv2_rcs_matches_def rcs_place_def rcs_fill_def aodvv2_rcs_init_def rcs_free_slot_def
      rcs_match_def CONFIG_AODVV2_RCS_ENTRIES_def clamp128_def init_prefix_full [OF prefix_ok_ref] numeral_2_eq_2)

lemma client_one: "aodvv2_rcs_is_client riot_ref b (snd (aodvv2_rcs_add riot_ref a 128 1 aodvv2_rcs_init)) \<noteq> None \<longleftrightarrow> b = a"
  using is_client_iff [OF prefix_ok_ref rcs_inv_add [OF prefix_ok_ref rcs_inv_init, of a 128 1], of b]
  by (auto simp: rcs_one rcs_free_slot_def pfx_eq_128)

lemma node_ref_env [simp]: "env (node_ref targ) = world_at timex_zero"
  by (simp add: node_ref_def aodvv2_init_tables_def node_boot_def)

lemma all_succeed_at [simp]: "all_succeed (world_at t)"
  by (simp add: all_succeed_def world_at_def)

text \<open>
  A RREQ as the callbacks on its parts leave it: the one on the message with hop limit \<open>h\<close> let it
  pass, then any number of addresses were read.
\<close>

inductive rreq_read :: "riot \<Rightarrow> af \<Rightarrow> u8 \<Rightarrow> aodvv2_message \<Rightarrow> bool" for R :: riot and F :: af where
  message_tlvs: "cb_rreq_blocktlv_messagetlvs_okay cx m = (RFC5444_OKAY, m') \<Longrightarrow> rreq_read R F (hoplimit cx) m'"
| address_tlvs: "rreq_read R F h m \<Longrightarrow> cb_rreq_blocktlv_addresstlvs_okay R F cx tlvs m = Inr (r, m') \<Longrightarrow> rreq_read R F h m'"

lemma set_hop_limit [simp]:
  "msg_hop_limit (set_orig R F cx v m) = msg_hop_limit m" "msg_hop_limit (set_targ_addr R F cx m) = msg_hop_limit m"
  "msg_hop_limit (set_targ_seqnum v m) = msg_hop_limit m" "msg_hop_limit (set_metric t v m) = msg_hop_limit m"
  by (simp_all add: set_orig_def set_targ_addr_def set_targ_seqnum_def set_metric_def split: prod.split)

lemma rreq_addresstlvs_hop_limit:
  assumes "cb_rreq_blocktlv_addresstlvs_okay R F cx tlvs m = Inr (r, m')"
  shows "msg_hop_limit m' = msg_hop_limit m"
  using assms
  by (auto simp: cb_rreq_blocktlv_addresstlvs_okay_def on_tlv_def metric_tlv_def bnd_Inr_iff Let_def split: option.splits if_splits)

lemma rreq_read_hop_limit: "rreq_read R F h m \<Longrightarrow> h \<noteq> 0 \<and> msg_hop_limit m = h - 1"
proof (induction rule: rreq_read.induct)
  case (message_tlvs cx m m')
  then show ?case
    by (auto simp: cb_rreq_blocktlv_messagetlvs_okay_def messagetlvs_okay_def RFC5444_OKAY_def RFC5444_DROP_PACKET_def Let_def split: if_splits)
qed (simp add: rreq_addresstlvs_hop_limit)

text \<open>
  C2. What the router does with a RREQ that was received with hop limit \<open>h\<close>, whether or not memory and
  messages can be had. It never runs into a fault. A RREQ that fails a check is dropped and the router is
  as it was. If its copy is already known, or the Local Route Set holds a route it does not
  improve, the packet is dropped and nothing is queued. Otherwise \<open>h\<close> is at least 2 and
  one message is built, with the hop limit \<open>h - 1\<close> and OrigNode's metric one larger: for a client of this router a RREP to the
  neighbour the RREQ came from, with TargNode's metric reset to 0; for any other target the RREQ
  itself, to all routers of the link. It is the only message added to the queue, and it is added unless \<open>malloc\<close> or
  \<open>msg_send\<close> fails; then it is lost, with the memory if only \<open>msg_send\<close> failed, and the callback still returns \<open>RFC5444_OKAY\<close>.
\<close>

theorem rreq_end_spec:
  assumes "riot_ok R" and "node_inv U n" and "rreq_read R F h (msg_data n)"
  shows "\<exists>r n' t k. cb_rreq_end_callback R dropped n = Inr (r, n') \<and>
    (if rreq_drop R dropped (msg_data n) then r = RFC5444_DROP_PACKET \<and> n' = n
     else if rreq_refused R n then r = RFC5444_DROP_PACKET \<and> queue n' = queue n \<and> leaked n' = leaked n
     else r = RFC5444_OKAY \<and> 2 \<le> h \<and> attempted n n' k (rreq_answer R n (h - 1) t))"
proof (cases "rreq_drop R dropped (msg_data n)")
  case True
  then show ?thesis by (simp add: rreq_end_split)
next
  case False
  note h = rreq_read_hop_limit [OF assms(3)]
  have "h - 1 \<noteq> 0" using False h by (auto simp: rreq_drop_def)
  then have "2 \<le> h" using h by unat_arith
  with rreq_runs [OF assms(1,2) False] False h show ?thesis by (simp, metis)
qed

text \<open>The request of \<open>node_ref\<close> was received with hop limit 6.\<close>

lemma node_ref_read: "rreq_read R F 6 (msg_data (node_ref targ))"
proof -
  let ?cx = "ctx_zero\<lparr>has_hoplimit := True, hoplimit := 6\<rparr>"
  have "cb_rreq_blocktlv_messagetlvs_okay ?cx (msg_data (node_ref targ)) = (RFC5444_OKAY, msg_data (node_ref targ))"
    by (simp add: cb_rreq_blocktlv_messagetlvs_okay_def messagetlvs_okay_def node_ref_def)
  from rreq_read.message_tlvs [OF this] show ?thesis by simp
qed

text \<open>Nothing is known of the request yet, and there is no route to its originator.\<close>

lemma node_ref_new: "\<not> rreq_refused riot_ref (node_ref targ)"
proof -
  let ?n = "node_ref targ"
  have "find_comparable_entry riot_ref m w (replicate k mc_free_slot) = (None, replicate k mc_free_slot, w)" for m w k
    by (induction k) (simp_all add: mc_reset_entry_if_stale_def mc_free_slot_def)
  from process_unknown [of riot_ref "msg_data ?n" "env ?n" mc_ref, unfolded mc_ref_entries, OF this] obtain s w
    where "aodvv2_mcmsg_process riot_ref (msg_data ?n) mc_ref (env ?n) = (AODVV2_MCMSG_OK, s, w)"
    by (auto simp: mc_ref_entries split: option.splits)
  moreover have "mcset_of ?n = mc_ref" by (simp add: node_ref_def aodvv2_init_tables_def mc_ref_def)
  ultimately have p: "node_process riot_ref (msg_data ?n) ?n = (AODVV2_MCMSG_OK, ?n\<lparr>mcset_of := s, env := w\<rparr>)"
    by (simp add: node_process_def)
  let ?u = "rreq_updated (?n\<lparr>mcset_of := s, env := w\<rparr>)"
  have "lrs_of ?u = lrs_of ?n" "nd_addr (orig_node (msg_data ?u)) = 1"
    by (simp_all add: rreq_updated_def stamp_def node_now_def xtimer_now_timex_def node_ref_def)
  with no_route_improving [of orig_node ?u riot_ref] node_ref_fresh [of 1 targ] addr_ok_ref
  have "\<not> not_improving riot_ref orig_node ?u" by simp
  with p show ?thesis by (simp add: rreq_refused_def AODVV2_MCMSG_OK_def AODVV2_MCMSG_REDUNDANT_def)
qed

theorem rreq_end_spec_witness:
  "\<exists>n' p. cb_rreq_end_callback riot_ref False (node_ref 3) = Inr (RFC5444_OKAY, n') \<and> msg_hop_limit p = 5 \<and>
     queue n' = [SendRreq \<lparr>m_pkt = p, m_next_hop = IPV6_ADDR_ALL_MANET_ROUTERS_LINK_LOCAL\<rparr>]"
proof -
  from rreq_end_spec [OF riot_ok_ref node_ref_inv [of True] node_ref_read, of False 3] node_ref_go [of 3] node_ref_new [of 3]
  obtain n' t k where "cb_rreq_end_callback riot_ref False (node_ref 3) = Inr (RFC5444_OKAY, n')"
      "attempted (node_ref 3) n' k (rreq_answer riot_ref (node_ref 3) 5 t)" by auto
  moreover have "aodvv2_rcs_is_client riot_ref 3 (rcs_of (node_ref 3)) = None"
    using client_one [of 3 2] by (simp add: node_ref_def)
  moreover have "queue (node_ref 3) = []" by (simp add: node_ref_def aodvv2_init_tables_def node_boot_def)
  moreover have "nd_addr (targ_node (msg_data (node_ref 3))) = 3" by (simp add: node_ref_def)
  ultimately show ?thesis by (auto simp: attempted_def rreq_answer_def world_at_def Let_def)
qed

text \<open>
  C3. Suppression of duplicates, as far as it goes. A router handles a RREQ that passes the checks and for which its Multicast Message Set
  has room (a free slot, or a live entry about the same request). Then it may process any number of messages about other
  requests. If now a copy of the RREQ arrives, with the same OrigNode, TargNode, metric type, sequence number and
  metric but from any sender and with any hop limit, and all readings of the clock lie within 300 s, then the copy is dropped: nothing is queued, and of
  the router's state only the Multicast Message Set changes. That \<open>same\<close> means the same metric, and that there must be room,
  is needed: \<open>mcmsg_known_request\<close> has a request with another metric pass, \<open>mcmsg_full_set_forgets\<close> a full set forget.
\<close>

theorem rreq_duplicate_dropped:
  assumes "riot_ok R" and "node_inv True n" and "\<not> rreq_drop R False (msg_data n)"
    and "mc_room R (env n) (msg_data n) (mcset_of n)"
    and "\<And>k. normal (clk (env n) k) \<and> usec (clk (env n) k) + 300000000 < 2 ^ 32 * 1000000"
    and "\<And>j k. usec (clk (env n) k) \<le> usec (clk (env n) j) + 300000000"
    and "cb_rreq_end_callback R False n = Inr (r, n')"
    and "mc_others R (msg_data n) (mcset_of n') (env n') (mcset_of n2) (env n2)" and "rreq_copy (msg_data n2) (msg_data n)"
  shows "\<exists>s w. cb_rreq_end_callback R dropped n2 = Inr (RFC5444_DROP_PACKET, n2\<lparr>mcset_of := s, env := w\<rparr>)"
proof (cases "rreq_drop R dropped (msg_data n2)")
  case True
  then show ?thesis by (intro exI [where x = "mcset_of n2"] exI [where x = "env n2"]) (simp add: rreq_end_split)
next
  case False
  let ?m = "msg_data n"
  obtain r1 s1 w1 where p: "aodvv2_mcmsg_process R ?m (mcset_of n) (env n) = (r1, s1, w1)" by (metis prod_cases3)
  from rreq_mcset [OF assms(1,2,3,7)] p have mc: "mcset_of n' = s1" and clk: "clk (env n') = clk (env n)"
    by (simp_all add: node_process_def same_env_def)
  from assms(2) have inv: "mc_inv (mcset_of n)" "seqnortr ?m = 0" by (simp_all add: node_inv_def)
  from process_duplicate [OF assms(1) inv assms(4-6) p clk assms(8) [unfolded mc] assms(9)]
  obtain s w where "aodvv2_mcmsg_process R (msg_data n2) (mcset_of n2) (env n2) = (AODVV2_MCMSG_REDUNDANT, s, w)"
    by (metis fst_conv prod_cases3)
  with False show ?thesis
    by (intro exI [where x = s] exI [where x = w]) (simp add: rreq_end_split node_process_def)
qed

text \<open>The copy comes back from neighbour \<open>8\<close>, with two hops less, while a request of \<open>5\<close> was handled in between.\<close>

theorem rreq_duplicate_dropped_witness:
  "\<exists>r n' n2. cb_rreq_end_callback riot_ref False (node_ref 3) = Inr (r, n') \<and> msg_hop_limit (msg_data n2) = 3 \<and>
     (\<exists>s w. cb_rreq_end_callback riot_ref False n2 = Inr (RFC5444_DROP_PACKET, n2\<lparr>mcset_of := s, env := w\<rparr>))"
proof -
  obtain r n' where run: "cb_rreq_end_callback riot_ref False (node_ref 3) = Inr (r, n')"
    using rreq_runs [OF riot_ok_ref node_ref_inv node_ref_go, of 3] by auto
  have room: "mc_room riot_ref (env (node_ref 3)) (msg_data (node_ref 3)) (mcset_of (node_ref 3))"
    by (simp add: mc_room_def node_ref_def aodvv2_init_tables_def mc_ref_entries [unfolded mc_ref_def] mc_free_slot_def)
  let ?m = "msg_data (node_ref 3)"
  let ?o = "?m\<lparr>orig_node := (orig_node ?m)\<lparr>nd_addr := 5\<rparr>\<rparr>"
  obtain q s w where p: "aodvv2_mcmsg_process riot_ref ?o (mcset_of n') (env n') = (q, s, w)" by (metis prod_cases3)
  let ?n2 = "n'\<lparr>mcset_of := s, env := w, msg_data := ?m\<lparr>sender := 8, msg_hop_limit := 3\<rparr>\<rparr>"
  have "mc_others riot_ref ?m (mcset_of n') (env n') s w"
    by (rule mc_others.other [OF mc_others.none [OF refl] _ _ p refl]) (simp_all add: same_request_def node_ref_def)
  then have "mc_others riot_ref ?m (mcset_of n') (env n') (mcset_of ?n2) (env ?n2)" by simp
  moreover have "rreq_copy (msg_data ?n2) ?m" by (simp add: rreq_copy_def same_request_def node_ref_def)
  ultimately have "\<exists>s w. cb_rreq_end_callback riot_ref False ?n2 = Inr (RFC5444_DROP_PACKET, ?n2\<lparr>mcset_of := s, env := w\<rparr>)"
    by (intro rreq_duplicate_dropped [OF riot_ok_ref node_ref_inv node_ref_go room _ _ run]) (simp_all add: world_at_def)
  with run show ?thesis by (intro exI [where x = r] exI [where x = n'] exI [where x = ?n2]) simp
qed

section \<open>Route replies\<close>

definition rrep_learned :: "riot \<Rightarrow> node \<Rightarrow> node" where
  "rrep_learned R n = snd (learn_route R (\<lambda>s m rt. aodvv2_lrs_fill_routing_entry_rrep R s m rt
     (aodvv2_metric_link_cost (metric_type (msg_data n)))) targ_node (rrep_updated n))"

lemma add_entry_absent:
  assumes "no_route a s" and "a \<noteq> 0" and "rt_addr rt \<noteq> a"
  shows "no_route a (fst (aodvv2_lrs_add_entry R rt s w))"
proof -
  obtain r s' w' where get: "aodvv2_lrs_get_entry R (rt_addr rt) (rt_metric_type rt) s w = (r, s', w')" by (metis prod_cases3)
  from get_entry_absent [OF get assms(1,2)] get assms(3) show ?thesis
    by (auto simp: aodvv2_lrs_add_entry_def lrs_place_def no_route_def split: option.splits dest: set_update_subset_insert [THEN subsetD])
qed

lemma learn_route_absent:
  assumes learn: "learn_route R fill nd n = (go, n')" and fill: "fills fill nd"
    and "no_route a (lrs_of n)" and "a \<noteq> 0" and new: "nd_addr (nd (msg_data n)) \<noteq> a"
  shows "no_route a (lrs_of n')"
proof -
  let ?m = "msg_data n"
  obtain r s w where get: "aodvv2_lrs_get_entry R (nd_addr (nd ?m)) (metric_type ?m) (lrs_of n) (env n) = (r, s, w)"
    by (metis prod_cases3)
  note s = get_entry_absent [OF get assms(3,4)]
  have add: "no_route a (lrs_of (node_add_entry R (fill (lrs_of n1) ?m rt) (n\<lparr>lrs_of := s, env := w\<rparr>)))" for n1 rt
    using add_entry_absent [OF s assms(4), of "fill (lrs_of n1) ?m rt" R w] fill new
    by (cases "aodvv2_lrs_add_entry R (fill (lrs_of n1) ?m rt) s w") (simp add: node_add_entry_def fills_def)
  have upd: "no_route a (s\<lparr>routing_table := (routing_table s)[i := (routing_table s ! i)\<lparr>route := fill s ?m rt\<rparr>]\<rparr>)" for i rt
    using s fill new by (auto simp: no_route_def fills_def dest!: set_update_subset_insert [THEN subsetD])
  from learn get s add [of "n\<lparr>lrs_of := s, env := w\<rparr>"] upd show ?thesis
    by (auto simp: learn_route_def node_get_entry_def Let_def split: option.splits if_splits)
qed

lemma rrep_updated_lrs: "lrs_of (rrep_updated n) = lrs_of n" "same_env (env n) (env (rrep_updated n))"
    "buffer_of (rrep_updated n) = buffer_of n"
  by (simp_all add: rrep_updated_def stamp_def node_now_def xtimer_now_timex_def)

lemma learn_route_buffer:
  "learn_route R fill nd n = (go, n') \<Longrightarrow> buffer_of n' = buffer_of n \<and>
     (\<exists>ft. events n' = events n @ ft \<and> (\<forall>p. Pkt p \<notin> set ft)) \<and> (\<not> go \<longrightarrow> events n' = events n)"
  by (auto simp: learn_route_def node_get_entry_def node_add_entry_def log_event_def Let_def
      split: option.splits if_splits prod.splits)

text \<open>The hop limit and the route's metric as they are forwarded.\<close>

definition rrep_answer :: "node \<Rightarrow> timex \<Rightarrow> aodvv2_message" where
  "rrep_answer n t = (msg_data n)\<lparr>targ_node := (targ_node (msg_data n))
     \<lparr>nd_metric := nd_metric (targ_node (msg_data n)) + 1\<rparr>, timestamp := t\<rparr>"

lemma rrep_runs:
  assumes ok: "riot_ok R" and inv: "node_inv U n" and go: "\<not> rrep_drop R False (msg_data n)"
  shows "msg_data (rrep_learned R n) = rrep_answer n (clk (env n) (tick (env n))) \<and>
    rcs_of (rrep_learned R n) = rcs_of n \<and> queue (rrep_learned R n) = queue n \<and>
    buffer_of (rrep_learned R n) = buffer_of n \<and> same_env (env n) (env (rrep_learned R n)) \<and>
    node_inv U (rrep_learned R n) \<and>
    cb_rrep_end_callback R False n =
      (if not_improving R targ_node (rrep_updated n) then Inr (RFC5444_DROP_PACKET, rrep_learned R n)
       else rrep_forward R (rrep_learned R n))"
proof -
  have ok': "addr_ok R" "timex_ok R" using ok by auto
  note passed = rrep_passed [OF go ok'(1)]
  obtain on n2 where learn: "learn_route R (\<lambda>s m rt. aodvv2_lrs_fill_routing_entry_rrep R s m rt
      (aodvv2_metric_link_cost (metric_type (msg_data n)))) targ_node (rrep_updated n) = (on, n2)" by (metis surj_pair)
  then have n2: "rrep_learned R n = n2" by (simp add: rrep_learned_def)
  from learn_route_keeps [OF rrep_updated_frame(1) [OF inv] ok' learn_rrep_fills _ learn] passed
  have inv2: "node_inv U n2" and same: "msg_data n2 = msg_data (rrep_updated n)" "rcs_of n2 = rcs_of n" "queue n2 = queue n"
    by (simp_all add: rrep_updated_frame)
  have "metric_type (msg_data n) = METRIC_HOP_COUNT" using go by (auto simp: rrep_drop_def metric_limit_reached_iff)
  then have m2: "msg_data n2 = rrep_answer n (clk (env n) (tick (env n)))"
    using same by (simp add: rrep_updated_frame rrep_answer_def aodvv2_metric_update_def)
  have env2: "same_env (env n) (env n2)"
    using rrep_updated_lrs(2) [of n] learn_route_env [OF learn] same_env_trans by blast
  from learn_route_go [OF rrep_updated_frame(1) [OF inv] ok learn]
  have "cb_rrep_end_callback R False n =
      (if not_improving R targ_node (rrep_updated n) then Inr (RFC5444_DROP_PACKET, n2) else rrep_forward R n2)"
    using go learn by (simp add: rrep_end_split)
  with inv2 same(2,3) m2 env2 n2 learn_route_buffer [OF learn] show ?thesis by (simp add: rrep_updated_lrs)
qed

lemma node_ref_rrep: "\<not> rrep_drop riot_ref False (msg_data (node_ref 3)) \<and> \<not> not_improving riot_ref targ_node (rrep_updated (node_ref 3))"
proof
  show "\<not> rrep_drop riot_ref False (msg_data (node_ref 3))"
    by (simp add: rrep_drop_def node_ref_def addr_ok_ref metric_limit_reached_iff)
  show "\<not> not_improving riot_ref targ_node (rrep_updated (node_ref 3))"
    by (rule no_route_improving [OF _ _ addr_ok_ref])
       (use node_ref_fresh [of 3 3] in \<open>simp_all add: rrep_updated_lrs rrep_updated_frame node_ref_def\<close>)
qed

text \<open>
  C4. A RREP that improves on the known route completes a route request of this router: when OrigNode is
  its client, exactly the packets waiting for TargNode are handed to the network stack, in order, none
  is left waiting, and the RREP goes no further.
\<close>

theorem rrep_completes_request:
  assumes "riot_ok R" and "node_inv U n" and "\<not> rrep_drop R False (msg_data n)"
    and "\<not> not_improving R targ_node (rrep_updated n)"
    and "aodvv2_rcs_is_client R (nd_addr (orig_node (msg_data n))) (rcs_of n) \<noteq> None"
  shows "\<exists>n'. cb_rrep_end_callback R False n = Inr (RFC5444_OKAY, n') \<and> queue n' = queue n \<and>
    events n' = events (rrep_learned R n) @ map Pkt (map DispatchSend (waiting (nd_addr (targ_node (msg_data n))) (buffer_of n))) \<and>
    waiting (nd_addr (targ_node (msg_data n))) (buffer_of n') = []"
proof -
  let ?l = "rrep_learned R n" and ?t = "nd_addr (targ_node (msg_data n))"
  have ok: "addr_ok R" using assms(1) by auto
  note runs = rrep_runs [OF assms(1-3)]
  have t: "?t \<noteq> 0" using assms(3) ok by (simp add: rrep_drop_def)
  have "buf_inv (buffer_of ?l)" using runs unfolding node_inv_def by blast
  from buffer_dispatch_lemma [OF ok this t] obtain b where
    b: "aodvv2_buffer_dispatch R ?t (buffer_of ?l) = Inr (b, map DispatchSend (waiting ?t (buffer_of ?l)))" "waiting ?t b = []"
    by blast
  have "nd_addr (targ_node (msg_data ?l)) = ?t" "nd_addr (orig_node (msg_data ?l)) = nd_addr (orig_node (msg_data n))"
    using runs by (simp_all add: rrep_answer_def)
  with runs b assms(4,5) show ?thesis
    by (simp add: rrep_forward_def node_dispatch_def)
qed

theorem rrep_completes_request_witness:
  "let n = (node_ref 3)\<lparr>rcs_of := snd (aodvv2_rcs_add riot_ref 1 128 1 aodvv2_rcs_init)\<rparr> in
   \<exists>n'. cb_rrep_end_callback riot_ref False n = Inr (RFC5444_OKAY, n') \<and> queue n' = []"
proof -
  let ?n = "(node_ref 3)\<lparr>rcs_of := snd (aodvv2_rcs_add riot_ref 1 128 1 aodvv2_rcs_init)\<rparr>"
  have inv: "node_inv True ?n"
    using node_ref_inv [of True 3] rcs_inv_add [OF prefix_ok_ref rcs_inv_init, of 1 128 1] by (simp add: node_inv_def)
  have go: "\<not> rrep_drop riot_ref False (msg_data ?n)" using node_ref_rrep by simp
  have "no_route 3 (lrs_of ?n)" using node_ref_fresh [of 3 3] by simp
  then have new: "\<not> not_improving riot_ref targ_node (rrep_updated ?n)"
    by (intro no_route_improving [OF _ _ addr_ok_ref])
       (simp_all add: rrep_updated_lrs rrep_updated_frame, simp_all add: node_ref_def)
  have "aodvv2_rcs_is_client riot_ref (nd_addr (orig_node (msg_data ?n))) (rcs_of ?n) \<noteq> None"
    using client_one [of 1 1] by (simp add: node_ref_def)
  from rrep_completes_request [OF riot_ok_ref inv go new this] show ?thesis
    by (auto simp: Let_def node_ref_def aodvv2_init_tables_def node_boot_def)
qed

text \<open>
  C5. A RREP for somebody else needs a route back to OrigNode, and the code does not check that there
  is one: when no slot of the table holds a route to OrigNode, the callback hands a NULL next hop to
  \<open>aodvv2_send_rrep\<close>, which dereferences it. One such RREP crashes the router.
\<close>

theorem rrep_without_route_back_faults:
  assumes "riot_ok R" and "node_inv U n" and "\<not> rrep_drop R False (msg_data n)"
    and "\<not> not_improving R targ_node (rrep_updated n)"
    and "aodvv2_rcs_is_client R (nd_addr (orig_node (msg_data n))) (rcs_of n) = None"
    and "no_route (nd_addr (orig_node (msg_data n))) (lrs_of n)"
    and "nd_addr (targ_node (msg_data n)) \<noteq> nd_addr (orig_node (msg_data n))" and "all_succeed (env n)"
  shows "cb_rrep_end_callback R False n = Inl NullDeref"
proof -
  let ?l = "rrep_learned R n" and ?o = "nd_addr (orig_node (msg_data n))"
  have ok: "addr_ok R" using assms(1) by auto
  note runs = rrep_runs [OF assms(1-3)]
  have o: "?o \<noteq> 0" using assms(3) ok by (simp add: rrep_drop_def)
  have "no_route ?o (lrs_of ?l)"
    unfolding rrep_learned_def
    by (rule learn_route_absent [OF prod.collapse [symmetric] learn_rrep_fills _ o])
       (use assms(6,7) in \<open>simp_all add: rrep_updated_lrs rrep_updated_frame\<close>)
  moreover obtain r s w where get: "aodvv2_lrs_get_entry R ?o (metric_type (msg_data ?l)) (lrs_of ?l) (env ?l) = (r, s, w)"
    by (metis prod_cases3)
  ultimately have "r = None" using get_entry_misses [OF get _ o ok] by simp
  moreover have "all_succeed w" using get_entry_env [OF get] runs assms(8) by (simp add: all_succeed_def same_env_def)
  moreover have "nd_addr (orig_node (msg_data ?l)) = ?o" using runs by (simp add: rrep_answer_def)
  ultimately show ?thesis
    using runs assms(4,5) get
    by (simp add: rrep_forward_def node_get_next_hop_def aodvv2_lrs_get_next_hop_def aodvv2_send_rrep_def send_ipc_def
        all_succeed_def Let_def)
qed

theorem rrep_without_route_back_faults_witness:
  "cb_rrep_end_callback riot_ref False (node_ref 3) = Inl NullDeref"
proof (rule rrep_without_route_back_faults [OF riot_ok_ref node_ref_inv])
  show "aodvv2_rcs_is_client riot_ref (nd_addr (orig_node (msg_data (node_ref 3)))) (rcs_of (node_ref 3)) = None"
    using client_one [of 1 2] by (simp add: node_ref_def)
  show "no_route (nd_addr (orig_node (msg_data (node_ref 3)))) (lrs_of (node_ref 3))"
    using node_ref_fresh [of 1 3] by (simp add: node_ref_def)
  show "nd_addr (targ_node (msg_data (node_ref 3))) \<noteq> nd_addr (orig_node (msg_data (node_ref 3)))"
    by (simp add: node_ref_def)
qed (simp_all add: node_ref_rrep)

end
