(* ===== verification/AodvThread.thy ===== *)
theory AodvThread
  imports AodvWriter AodvHandlers
begin

text \<open>
  The AODVv2 thread and the other functions of \<open>mesh/sys/net/aodvv2/aodvv2.c\<close> that touch the reader and the
  writer: \<open>_send_rreq\<close>, \<open>_send_rrep\<close>, \<open>_send_packet\<close>, \<open>_receive\<close>, \<open>_event_loop\<close> and \<open>aodvv2_init\<close>.
  The writer's calls of \<open>_send_packet\<close> are the entries it adds to \<open>sent\<close>; nothing after a call in the
  writer depends on it.
\<close>

section \<open>State\<close>

text \<open>A datagram handed to GNRC: destination address, UDP port and payload.\<close>

record datagram =
  dg_dst :: ipv6_addr
  dg_port :: u16
  dg_payload :: "u8 list"

text \<open>\<open>r_pid\<close> is the thread, \<open>None\<close> before it runs.\<close>

record router =
  r_node :: node
  r_writer :: writer
  r_msg :: aodvv2_message
  r_target_addr :: ipv6_addr
  r_reader :: "node reader"
  r_pid :: "int option"
  r_sent :: "datagram list"

section \<open>Sending\<close>

text \<open>The next allocation from the packet buffer.\<close>

definition pkt_alloc :: "world \<Rightarrow> bool \<times> world" where
  "pkt_alloc w = (malloc_ok w (tick w), w\<lparr>tick := Suc (tick w)\<rparr>)"

text \<open>\<open>_send_packet\<close>: the result of \<open>gnrc_netif_hdr_build\<close> is used without a check.\<close>

definition send_packet :: "u8 list \<Rightarrow> ipv6_addr \<Rightarrow> world \<Rightarrow> (datagram list \<times> world) outcome" where
  "send_packet payload dst w =
     (let (ok, w) = pkt_alloc w in if \<not> ok then Inr ([], w)
      else let (ok, w) = pkt_alloc w in if \<not> ok then Inr ([], w)
      else let (ok, w) = pkt_alloc w in if \<not> ok then Inr ([], w)
      else let (ok, w) = pkt_alloc w in if \<not> ok then Inl NullDeref
      else let found = send_ok w (tick w); w = w\<lparr>tick := Suc (tick w)\<rparr>
        in Inr (if found then [\<lparr>dg_dst = dst, dg_port = UDP_MANET_PORT, dg_payload = payload\<rparr>] else [], w))"

fun send_packets :: "(nat \<times> u8 list) list \<Rightarrow> ipv6_addr \<Rightarrow> world \<Rightarrow> (datagram list \<times> world) outcome" where
  "send_packets [] dst w = Inr ([], w)"
| "send_packets ((_, p) # ps) dst w =
     bnd (send_packet p dst w) (\<lambda>(ds, w). bnd (send_packets ps dst w) (\<lambda>(es, w). Inr (ds @ es, w)))"

text \<open>
  \<open>_send_rreq\<close> and \<open>_send_rrep\<close>: the target's address is set, the message created, the packet flushed.
  \<open>None\<close> when the generator's loop did not end.
\<close>

definition send_message :: "af \<Rightarrow> u8 \<Rightarrow> aodvv2_msg \<Rightarrow> router \<Rightarrow> router outcome option" where
  "send_message F ty m r =
     (let n = r_node r; wr = (r_writer r)\<lparr>w_env := env n, sent := []\<rparr> in
      case writer_send F ty (m_pkt m) (\<lparr>ws_msg = r_msg r, ws_seqnum = seqnum_of n\<rparr>, wr) of
        None \<Rightarrow> None
      | Some (Inl f) \<Rightarrow> Some (Inl f)
      | Some (Inr (_, s, wr)) \<Rightarrow> Some (
          bnd (rfc5444_writer_flush (aodv_cbs F) 0 False (s, wr)) (\<lambda>(s, wr).
          bnd (send_packets (sent wr) (m_next_hop m) (w_env wr)) (\<lambda>(ds, w).
          Inr (r\<lparr>r_node := n\<lparr>seqnum_of := ws_seqnum s, env := w\<rparr>, r_writer := wr, r_msg := ws_msg s,
                 r_target_addr := m_next_hop m, r_sent := r_sent r @ ds\<rparr>)))))"

definition send_rreq :: "af \<Rightarrow> aodvv2_msg \<Rightarrow> router \<Rightarrow> router outcome option" where
  "send_rreq F = send_message F RFC5444_MSGTYPE_RREQ"

definition send_rrep :: "af \<Rightarrow> aodvv2_msg \<Rightarrow> router \<Rightarrow> router outcome option" where
  "send_rrep F = send_message F RFC5444_MSGTYPE_RREP"

section \<open>Receiving\<close>

text \<open>\<open>_receive\<close>; \<open>w\<close> answers the reader's own allocations.\<close>

definition receive :: "riot \<Rightarrow> af \<Rightarrow> world \<Rightarrow> ipv6_addr option \<Rightarrow> u8 list \<Rightarrow> router \<Rightarrow> router outcome" where
  "receive R F w src bytes r =
     bnd (guard (bytes \<noteq> []) AssertFail) (\<lambda>_.
     bnd (guard (src \<noteq> None) AssertFail) (\<lambda>_.
     bnd (rfc5444_reader_handle_packet F (r_reader r) bytes w (aodvv2_rfc5444_handle_packet_prepare (the src) (r_node r))) (\<lambda>(_, n).
     Inr (r\<lparr>r_node := n\<rparr>))))"

text \<open>One round of \<open>_event_loop\<close> with the first message of the queue; an empty queue blocks the thread.\<close>

definition event_loop :: "riot \<Rightarrow> af \<Rightarrow> world \<Rightarrow> router \<Rightarrow> router outcome option" where
  "event_loop R F w r =
     (case queue (r_node r) of
        [] \<Rightarrow> Some (Inr r)
      | q # qs \<Rightarrow>
          let r = r\<lparr>r_node := (r_node r)\<lparr>queue := qs\<rparr>\<rparr> in
          (case q of
             SendRreq m \<Rightarrow> send_rreq F m r
           | SendRrep m \<Rightarrow> send_rrep F m r
           | NetapiRcv src bytes \<Rightarrow> Some (receive R F w src bytes r)
           | NetapiGetSet \<Rightarrow> Some (Inr r)
           | OtherMsg \<Rightarrow> Some (Inr r)))"

section \<open>Initialisation\<close>

text \<open>\<open>aodvv2_init\<close>: \<open>pid\<close> is the result of \<open>thread_create\<close>. Nothing is set up when it fails.\<close>

definition aodvv2_init :: "riot \<Rightarrow> af \<Rightarrow> int \<Rightarrow> router \<Rightarrow> (int \<times> router) outcome" where
  "aodvv2_init R F pid r =
     (case r_pid r of
        Some p \<Rightarrow> Inr (p, r)
      | None \<Rightarrow>
          if pid < 0 then Inr (pid, r\<lparr>r_pid := Some pid\<rparr>)
          else bnd (writer_boot (env (r_node r))) (\<lambda>wr.
            Inr (pid, r\<lparr>r_pid := Some pid, r_node := (aodvv2_init_tables R (r_node r))\<lparr>env := w_env wr\<rparr>,
                   r_reader := aodvv2_reader_init R F (rfc5444_reader_init (r_reader r)), r_writer := wr\<rparr>)))"

definition router_boot :: "world \<Rightarrow> router" where
  "router_boot w = \<lparr>r_node = node_boot w, r_writer = writer_static w, r_msg = message_zero, r_target_addr = 0, r_reader = reader_static,
     r_pid = None, r_sent = []\<rparr>"

end
