(* ===== verification/RfcWriterKeeps.thy ===== *)
theory RfcWriterKeeps
  imports RfcGenerator
begin

text \<open>
  The contract between the RFC 5444 writer and the program that registers callbacks: when every callback
  keeps a property of the program's state, creating a message and flushing a target keep it.
\<close>

locale callbacks_keep =
  fixes C :: "'s cbs" and good :: "'s \<Rightarrow> bool"
  assumes add_pkt_header: "addPacketHeader C i = Some f \<Longrightarrow> good s \<Longrightarrow> holds (\<lambda>x. good (fst x)) (f (s, wr))"
    and finish_pkt_header: "finishPacketHeader C i = Some f \<Longrightarrow> good s \<Longrightarrow> holds (\<lambda>x. good (fst x)) (f (s, wr))"
    and add_pkt_tlvs: "addPacketTLVs C i h = Some f \<Longrightarrow> good s \<Longrightarrow> holds (\<lambda>x. good (fst x)) (f (s, wr))"
    and finish_pkt_tlvs: "finishPacketTLVs C i h = Some f \<Longrightarrow> good s \<Longrightarrow> holds (\<lambda>x. good (fst x)) (f (s, wr))"
    and add_msg_header: "good s \<Longrightarrow> holds (\<lambda>(r, x). good (fst x)) (addMessageHeader C k ty (s, wr))"
    and finish_msg_header: "finishMessageHeader C ty = Some g \<Longrightarrow> good s \<Longrightarrow> holds (\<lambda>x. good (fst x)) (g a b nf (s, wr))"
    and add_msg_tlvs: "addMessageTLVs C p = Some f \<Longrightarrow> good s \<Longrightarrow> holds (\<lambda>x. good (fst x)) (f (s, wr))"
    and add_addresses: "addAddresses C p = Some f \<Longrightarrow> good s \<Longrightarrow> holds (\<lambda>x. good (fst x)) (f (s, wr))"
    and finish_msg_tlvs: "finishMessageTLVs C p = Some g \<Longrightarrow> good s \<Longrightarrow> holds (\<lambda>x. good (fst x)) (g a b nf (s, wr))"
    and notified: "message_generation_notifier C = Some n \<Longrightarrow> good s \<Longrightarrow> holds (\<lambda>x. good (fst x)) (n i (s, wr))"
begin

abbreviation ok :: "'s \<times> writer \<Rightarrow> bool" where
  "ok x \<equiv> good (fst x)"

lemma call_keeps: "(\<And>g y. f = Some g \<Longrightarrow> ok y \<Longrightarrow> holds ok (g y)) \<Longrightarrow> ok x \<Longrightarrow> holds ok (call f x)"
  by (simp add: call_def split: option.split)

lemma call_all_keeps: "(\<And>i g y. f i = Some g \<Longrightarrow> ok y \<Longrightarrow> holds ok (g y)) \<Longrightarrow> ok x \<Longrightarrow> holds ok (call_all f is x)"
  by (induction "is" arbitrary: x) (auto intro!: holds_mono [OF call_keeps])

lemma ok_set_state [simp]: "ok (set_state st x) = ok x"
  by (simp add: set_state_def split: prod.split)

lemma begin_packet_keeps: "ok x \<Longrightarrow> holds ok (writer_begin_packet C i x)"
proof (cases x)
  fix s wr assume "ok x" and x: "x = (s, wr)"
  then have good: "good s" by simp
  have header: "holds ok (case addPacketHeader C i of Some f \<Rightarrow> f (s, w)
      | None \<Rightarrow> bnd (rfc5444_writer_set_pkt_header i False w) (\<lambda>wr. Inr (s, wr)))" for w
    using good by (cases "addPacketHeader C i") (auto simp: add_pkt_header intro: holds_trivial)
  have tlvs: "holds ok (call_all (addPacketTLVs C i) is y)" if "ok y" for "is" y
    by (rule call_all_keeps [OF _ that]) (auto intro: add_pkt_tlvs)
  show ?thesis
    unfolding x writer_begin_packet_def prod.case Let_def
    by (rule bnd_any, rule bnd_keeps [OF header], rule bnd_keeps [OF tlvs]) (auto simp: set_state_def)
qed

lemma flush_keeps: "ok x \<Longrightarrow> holds ok (rfc5444_writer_flush C i force x)"
proof (cases x)
  fix s wr assume okx: "ok x" and x: "x = (s, wr)"
  have begun: "holds ok (if is_flushed (targets wr ! i) then writer_begin_packet C i (s, wr) else Inr (s, wr))"
    using okx x by (simp add: begin_packet_keeps)
  have tlvs: "holds ok (call_all (finishPacketTLVs C i) is y)" if "ok y" for "is" y
    by (rule call_all_keeps [OF _ that]) (auto intro: finish_pkt_tlvs)
  have header: "holds ok (call (finishPacketHeader C i) y)" if "ok y" for y
    by (rule call_keeps [OF _ that]) (auto intro: finish_pkt_header)
  have "holds ok (bnd (if is_flushed (targets wr ! i) then writer_begin_packet C i (s, wr) else Inr (s, wr)) (\<lambda>x.
       bnd (call_all (finishPacketTLVs C i) (rev (pkthandlers wr)) (set_state WRITER_FINISH_PKTTLV x)) (\<lambda>x.
       bnd (call (finishPacketHeader C i) (set_state WRITER_FINISH_PKTHEADER x)) (\<lambda>(s, wr).
       bnd (finish_packet C i wr) (\<lambda>wr. Inr (s, wr))))))"
    by (rule bnd_keeps [OF begun], rule bnd_keeps [OF tlvs], simp, rule bnd_keeps [OF header], simp)
       (auto intro: holds_trivial)
  with okx x show ?thesis by (auto simp: rfc5444_writer_flush_def intro: bnd_any)
qed

lemma for_targets_keep: "(\<And>i y. ok y \<Longrightarrow> holds ok (f i y)) \<Longrightarrow> ok x \<Longrightarrow> holds ok (for_targets sel f is x)"
proof (induction "is" arbitrary: x)
  case (Cons i "is")
  then have "holds ok (if use_if sel (snd x) i then f i x else Inr x)" by simp
  then show ?case unfolding for_targets.simps by (rule bnd_keeps) (rule Cons.IH [OF Cons.prems(1)])
qed simp

lemma each_target_keeps: "(\<And>i y. ok y \<Longrightarrow> holds ok (f i y)) \<Longrightarrow> ok x \<Longrightarrow> holds ok (each_target sel f x)"
  unfolding each_target_def by (rule for_targets_keep)

lemma notify_keeps: "ok x \<Longrightarrow> holds ok (notify C i x)"
  unfolding notify_def by (rule call_keeps) (auto intro: notified)

lemma finish_fragment_keeps: "ok x \<Longrightarrow> holds ok (finish_fragment C ty frag nf x)"
proof (cases x)
  fix s wr assume okx: "ok x" and x: "x = (s, wr)"
  have tlvs: "holds ok (call_all (\<lambda>p. map_option (\<lambda>f. f a b nf) (finishMessageTLVs C p)) is y)" if "ok y" for "is" y a b
    by (rule call_all_keeps [OF _ that]) (auto intro: finish_msg_tlvs)
  have header: "holds ok (call (map_option (\<lambda>f. f a b nf) (finishMessageHeader C ty)) y)" if "ok y" for y a b
    by (rule call_keeps [OF _ that]) (auto intro: finish_msg_header)
  let ?ends = "\<lambda>f. if frag = [] then f None None nf else f (Some (hd frag)) (Some (last frag)) nf"
  have ends: "(?ends :: (nat option \<Rightarrow> nat option \<Rightarrow> bool \<Rightarrow> 's act) \<Rightarrow> 's act) = (\<lambda>f. f (if frag = [] then None else Some (hd frag)) (if frag = [] then None else Some (last frag)) nf)"
    by auto
  have good: "good s" using okx x by simp
  show ?thesis
    unfolding x finish_fragment_def prod.case Let_def ends
    apply (rule bnd_any)
    apply (rule bnd_keeps [OF tlvs], simp add: good, clarsimp simp del: holds_bnd split del: if_split)
    apply (rule bnd_any)
    apply (rule bnd_keeps [OF header], simp, clarsimp simp del: holds_bnd)
    apply (rule bnd_any, simp)
    done
qed

lemma make_room_keeps: "ok x \<Longrightarrow> holds ok (make_room C ty i x)"
  unfolding make_room_def Let_def
  by (cases x, simp only: prod.case, rule bnd_any, split if_split)
     (auto intro!: bnd_keeps [OF flush_keeps] begin_packet_keeps simp del: holds_bnd)

lemma append_message_keeps: "ok x \<Longrightarrow> holds ok (append_message C ty generic i x)"
  unfolding append_message_def Let_def
  by (cases x, simp only: prod.case, rule bnd_any, split option.split)
     (auto intro!: bnd_any [where P = ok] notify_keeps simp del: holds_bnd)

lemma finalize_keeps: "ok x \<Longrightarrow> holds ok (finalize_message_fragment C sel ty frag nf x)"
  unfolding finalize_message_fragment_def
  apply (rule bnd_keeps [OF finish_fragment_keeps], assumption)
  apply (rule bnd_keeps [OF each_target_keeps [OF make_room_keeps]], assumption, assumption)
  apply (clarsimp simp del: holds_bnd, rule bnd_any, split option.split, intro conjI impI allI, simp)
  apply (rule bnd_keeps [OF each_target_keeps [OF append_message_keeps]], assumption, simp)
  apply (clarsimp simp del: holds_bnd, rule bnd_any, simp)
  done

lemma emit_fragment_keeps: "ok x \<Longrightarrow> holds (\<lambda>(st, x). ok x) (emit_fragment C sel ty st x)"
  unfolding emit_fragment_def
  by (cases x, simp only: prod.case, rule bnd_any, clarsimp simp del: holds_bnd, rule bnd_keeps [OF finalize_keeps]) auto

lemma create_step_keeps: "ok x \<Longrightarrow> holds (\<lambda>(r, st, x). ok x) (create_step C sel ty mtu m st x)"
proof (cases x)
  fix s wr assume "ok x" and x: "x = (s, wr)"
  then have good: "good s" by simp
  have rest: "holds (\<lambda>(r, st, x). ok x) (if best \<noteq> None then bnd (keep_address ty p st wr) (\<lambda>(st, wr). Inr (None, st, s, wr))
       else if cr_nonmand st = 0 then Inr (Some RFC5444_MTU_TOO_SMALL, st, set_state WRITER_NONE (s, writer_free_addresses ty wr))
       else bnd (emit_fragment C sel ty st (s, wr)) (\<lambda>(st, x). Inr (None, st, x)))" for best p st wr
  proof (cases best)
    case None
    have "holds (\<lambda>(r, st, x). ok x) (bnd (emit_fragment C sel ty st (s, wr)) (\<lambda>(st, x). Inr (None, st, x)))"
      by (rule bnd_keeps [OF emit_fragment_keeps]) (use good in auto)
    with None good show ?thesis by (simp add: set_state_def)
  next
    case (Some b)
    have "holds (\<lambda>(r, st, x). ok x) (bnd (keep_address ty p st wr) (\<lambda>(st, wr). Inr (None, st, s, wr)))"
      by (rule bnd_any) (use good in auto)
    with Some show ?thesis by simp
  qed
  show ?thesis
    unfolding x create_step_def prod.case Let_def
  proof (rule holds_if, simp add: good, rule bnd_any)
    fix y
    show "holds (\<lambda>(r, st, x). ok x) (case y of (best, st, wr) \<Rightarrow>
       if best \<noteq> None then bnd (keep_address ty (wm_addr_head m ! cr_pos st') st wr) (\<lambda>(st, wr). Inr (None, st, s, wr))
       else if cr_nonmand st = 0 then Inr (Some RFC5444_MTU_TOO_SMALL, st, set_state WRITER_NONE (s, writer_free_addresses ty wr))
       else bnd (emit_fragment C sel ty st (s, wr)) (\<lambda>(st, x). Inr (None, st, x)))" for st'
      by (cases y rule: prod_cases3) (simp only: prod.case rest)
  qed
qed

lemma create_loop_keeps: "ok x \<Longrightarrow> create_loop n C sel ty mtu st x = Some r \<Longrightarrow> holds (\<lambda>(r, st, x). ok x) r"
proof (induction n arbitrary: st x)
  case (Suc n)
  show ?case
    using Suc.prems create_step_keeps [OF Suc.prems(1)] Suc.IH
    by (auto split: option.splits if_splits sum.splits dest: holdsD) (fastforce dest: holdsD)+
qed simp

lemma message_mtu_keeps: "ok x \<Longrightarrow> holds (\<lambda>(mtu, x). ok x) (message_mtu C sel pre is mtu x)"
proof (induction "is" arbitrary: mtu x)
  case (Cons i "is")
  have "holds ok (if is_flushed (targets (snd x) ! i) then writer_begin_packet C i x else Inr x)"
    using Cons.prems by (simp add: begin_packet_keeps)
  then show ?case
    unfolding message_mtu.simps by (intro holds_if) (simp add: Cons, rule bnd_keeps, assumption, rule Cons.IH)
qed simp

lemma message_start_keeps:
  "ok x \<Longrightarrow> holds (\<lambda>(mtu, x). ok x) (start_message C sel ty x)"
  "ok x \<Longrightarrow> holds (\<lambda>(r, x). ok x) (message_header C ty x)"
  "ok x \<Longrightarrow> holds ok (message_content C ty x)"
proof -
  assume okx: "ok x"
  obtain s wr where x: "x = (s, wr)" by fastforce
  then have good: "good s" using okx by simp
  show "holds (\<lambda>(mtu, x). ok x) (start_message C sel ty x)"
    unfolding x start_message_def prod.case
    by (rule bnd_keeps [OF message_mtu_keeps], simp add: good, clarsimp simp del: holds_bnd, rule bnd_any, simp)
  show "holds (\<lambda>(r, x). ok x) (message_header C ty x)"
    unfolding x message_header_def prod.case
    by (rule bnd_any, rule bnd_any) (auto simp: good split: option.split intro: holds_mono [OF add_msg_header [OF good]])
  have tlvs: "holds ok (call_all (addMessageTLVs C) ps y)" if "ok y" for ps y
    by (rule call_all_keeps [OF _ that]) (auto intro: add_msg_tlvs)
  have addresses: "holds ok (call_all (addAddresses C) ps y)" if "ok y" for ps y
    by (rule call_all_keeps [OF _ that]) (auto intro: add_addresses)
  show "holds ok (message_content C ty x)"
    unfolding message_content_def Let_def
    by (rule bnd_any, rule bnd_keeps [OF tlvs], simp add: okx, rule bnd_keeps [OF addresses], simp, auto)
qed

lemma ok_message_done [simp]: "ok (message_done ty x) = ok x"
  by (simp add: message_done_def split: prod.split)

lemma last_fragment_keeps: "ok x \<Longrightarrow> holds ok (last_fragment C sel ty st x)"
  unfolding last_fragment_def
  by (cases x, simp only: prod.case, rule holds_if, simp, rule bnd_any, clarsimp simp del: holds_bnd, rule finalize_keeps, simp)

lemma message_fragments_keep:
  assumes okx: "ok x" and run: "message_fragments n C sel ty mtu x = Some r"
  shows "holds (\<lambda>(r, x). ok x) r"
proof -
  obtain s wr where x: "x = (s, wr)" by fastforce
  have fin: "holds (\<lambda>(r, x). ok x) (bnd (last_fragment C sel ty st y) (\<lambda>x. case message_done ty x of (s, wr) \<Rightarrow> Inr (RFC5444_OKAY, s, wr\<lparr>msg_addr_len := 0\<rparr>)))"
    if "ok y" for st y
    by (rule bnd_keeps [OF last_fragment_keeps [OF that]]) (auto simp: message_done_def set_state_def split: prod.split)
  have empty: "holds (\<lambda>(r, x). ok x) (bnd (finalize_message_fragment C sel ty [] True (s, wr)) (\<lambda>x. Inr (RFC5444_OKAY, message_done ty x)))"
    by (rule bnd_keeps [OF finalize_keeps]) (use okx x in auto)
  note loop = create_loop_keeps [OF okx [unfolded x]]
  show ?thesis
    using run unfolding x message_fragments_def prod.case Let_def
    by (auto split: option.splits if_splits sum.splits prod.splits dest!: loop simp del: holds_bnd intro!: fin empty)
qed

lemma create_for_keeps:
  assumes okx: "ok x" and run: "create_for n C sel ty addrlen x = Some r"
  shows "holds (\<lambda>(r, x). ok x) r"
proof -
  obtain s wr where x: "x = (s, wr)" by fastforce
  let ?start = "bnd (start_message C sel ty (s, wr\<lparr>msg_addr_len := unat addrlen\<rparr>)) (\<lambda>(mtu, x).
    bnd (message_header C ty x) (\<lambda>(r, x). if r \<noteq> 0 then Inr (None, x) else bnd (message_content C ty x) (\<lambda>x. Inr (Some mtu, x))))"
  have "holds (\<lambda>(mtu, x). ok x) ?start"
    by (rule bnd_keeps [OF message_start_keeps(1)], use okx x in simp, clarsimp simp del: holds_bnd,
        rule bnd_keeps [OF message_start_keeps(2)], simp, clarsimp simp del: holds_bnd)
       (auto intro!: bnd_keeps [OF message_start_keeps(3)] simp del: holds_bnd)
  then have started: "?start = Inr (mtu, y) \<Longrightarrow> ok y" for mtu y by (auto dest: holdsD)
  show ?thesis
  proof (cases ?start)
    case (Inl f)
    with run show ?thesis by (auto simp: x create_for_def)
  next
    case (Inr y)
    then obtain mtu z where y: "y = (mtu, z)" and "ok z" using started by (cases y) auto
    with Inr run show ?thesis
      by (cases mtu) (auto simp: x create_for_def intro: message_fragments_keep split: prod.splits)
  qed
qed

lemma create_single_keeps: "ok x \<Longrightarrow> create_single n C ty addrlen k x = Some r \<Longrightarrow> holds (\<lambda>(r, x). ok x) r"
  by (cases x) (auto simp: create_single_def split: if_splits option.splits dest: create_for_keeps [rotated])

lemma create_each_keeps: "ok x \<Longrightarrow> create_each n C sel ty addrlen is x = Some r \<Longrightarrow> holds (\<lambda>(r, x). ok x) r"
proof (induction "is" arbitrary: x)
  case (Cons i "is")
  note single = create_single_keeps [OF Cons.prems(1)]
  show ?case
  proof (cases "use_if sel (snd x) i")
    case True
    show ?thesis
    proof (cases "create_single n C ty addrlen i x")
      case (Some m)
      with single have "holds (\<lambda>(r, x). ok x) m" .
      with Cons.prems Some True show ?thesis by (cases m) (auto split: if_splits intro: Cons.IH [where x = "(y, z)" for y z, simplified])
    qed (use Cons.prems True in simp)
  qed (use Cons in simp)
qed auto

lemma create_message_keeps:
  assumes "ok x" and "rfc5444_writer_create_message n C ty addrlen sel x = Some r"
  shows "holds (\<lambda>(r, x). ok x) r"
  using assms
  by (cases x) (auto simp: rfc5444_writer_create_message_def split: selector.splits if_splits option.splits
      dest: create_for_keeps [rotated] create_single_keeps [rotated] create_each_keeps [rotated])

end

end
