(* ===== verification/Vaina.thy ===== *)
theory Vaina
  imports Node Netaddr
begin

text \<open>
  VAINA, the protocol by which the Wi-Fi board administers the mesh router over UDP: the server in
  \<open>mesh/sys/net/vaina/vaina.c\<close> and the client in \<open>wifi/sys/net/vaina/vaina.c\<close>. The two boards have their
  own declarations of the messages, which differ. The sockets are parameters: a call takes what
  \<open>sock_udp_recv\<close> delivered and says what went to \<open>sock_udp_send\<close>.
\<close>

section \<open>Messages\<close>

definition VAINA_MSG_ACK :: u8 where "VAINA_MSG_ACK = 0"
definition VAINA_MSG_NACK :: u8 where "VAINA_MSG_NACK = 1"
definition VAINA_MSG_RCS_ADD :: u8 where "VAINA_MSG_RCS_ADD = 2"
definition VAINA_MSG_RCS_DEL :: u8 where "VAINA_MSG_RCS_DEL = 3"
definition VAINA_MSG_NIB_ADD :: u8 where "VAINA_MSG_NIB_ADD = 4"
definition VAINA_MSG_NIB_DEL :: u8 where "VAINA_MSG_NIB_DEL = 5"

lemmas vaina_types = VAINA_MSG_ACK_def VAINA_MSG_NACK_def VAINA_MSG_RCS_ADD_def VAINA_MSG_RCS_DEL_def
  VAINA_MSG_NIB_ADD_def VAINA_MSG_NIB_DEL_def

definition EINVAL :: int where "EINVAL = 22"
definition ENOMEM :: int where "ENOMEM = 12"
definition ENOSPC :: int where "ENOSPC = 28"

text \<open>The server's message: the four members of its union all hold a prefix length and an address.\<close>

record vaina_msg =
  vm_msg :: u8
  vm_seqno :: u8
  vm_pfx_len :: u8
  vm_ip :: ipv6_addr

definition vaina_msg_zero :: vaina_msg where
  "vaina_msg_zero = \<lparr>vm_msg = 0, vm_seqno = 0, vm_pfx_len = 0, vm_ip = 0\<rparr>"

text \<open>
  The client's message: the union as its 17 bytes. In the members for the client set the address is at
  offset 0, in those for the NIB a prefix length precedes it.
\<close>

record vaina_client_msg =
  vcm_msg :: u8
  vcm_seqno :: u8
  vcm_payload :: "u8 list"

definition pay_rcs_ip :: "u8 list \<Rightarrow> u8 list" where "pay_rcs_ip p = take 16 p"
definition pay_nib_prefix :: "u8 list \<Rightarrow> u8" where "pay_nib_prefix p = p ! 0"
definition pay_nib_ip :: "u8 list \<Rightarrow> u8 list" where "pay_nib_ip p = take 16 (drop 1 p)"

section \<open>The server\<close>

text \<open>\<open>_parse_msg\<close>. \<open>AODVV2\<close> is part of the mesh firmware, so its cases are compiled in.\<close>

definition vaina_parse_msg :: "u8 list \<Rightarrow> int \<times> vaina_msg" where
  "vaina_parse_msg buf =
     (if length buf < 2 then (-EINVAL, vaina_msg_zero)
      else let ty = buf ! 0; sn = buf ! 1 in
        if ty \<in> {VAINA_MSG_RCS_ADD, VAINA_MSG_RCS_DEL, VAINA_MSG_NIB_ADD, VAINA_MSG_NIB_DEL} then
          if length buf < 2 + 1 + 16 then (-EINVAL, vaina_msg_zero)
          else (0, \<lparr>vm_msg = ty, vm_seqno = sn, vm_pfx_len = buf ! 2, vm_ip = bytes_addr (take 16 (drop 3 buf))\<rparr>)
        else (-EINVAL, vaina_msg_zero))"

definition VAINA_NEXT_HOP :: ipv6_addr where
  "VAINA_NEXT_HOP = 0xfe800000000000000000000000000001"

text \<open>\<open>_process_msg\<close>: \<open>ft_add\<close> is what \<open>gnrc_ipv6_nib_ft_add\<close> returns.\<close>

definition vaina_process_msg :: "riot \<Rightarrow> int \<Rightarrow> vaina_msg \<Rightarrow> node \<Rightarrow> int \<times> node" where
  "vaina_process_msg R ft_add msg n =
     (if vm_msg msg = VAINA_MSG_RCS_ADD then
        (case aodvv2_rcs_add R (vm_ip msg) (vm_pfx_len msg) 1 (rcs_of n) of
           (None, _) \<Rightarrow> (-ENOSPC, n)
         | (Some _, es) \<Rightarrow> (0, n\<lparr>rcs_of := es\<rparr>))
      else if vm_msg msg = VAINA_MSG_RCS_DEL then
        (0, n\<lparr>rcs_of := aodvv2_rcs_del R (vm_ip msg) (vm_pfx_len msg) (rcs_of n)\<rparr>)
      else if vm_msg msg = VAINA_MSG_NIB_ADD then
        let n = log_event (NibAdd (vm_ip msg) (vm_pfx_len msg) VAINA_NEXT_HOP 0) n
        in (if ft_add < 0 then -ENOMEM else 0, n)
      else if vm_msg msg = VAINA_MSG_NIB_DEL then
        (0, log_event (NibDel (vm_ip msg) (vm_pfx_len msg)) n)
      else (-EINVAL, n))"

text \<open>\<open>_send_ack\<close>: the bytes of the answer.\<close>

definition vaina_ack :: "vaina_msg \<Rightarrow> bool \<Rightarrow> u8 list" where
  "vaina_ack msg good_ack = [if good_ack then VAINA_MSG_ACK else VAINA_MSG_NACK, vm_seqno msg]"

text \<open>What \<open>sock_udp_recv\<close> delivers: the interface, and an error or the data (at most 255 bytes).\<close>

record vaina_recv =
  vr_netif :: int
  vr_data :: "u8 list option"

text \<open>
  One round of \<open>_vaina_thread\<close>: the answer it sends, if any, and the node. Whether the answer can be sent
  makes no difference.
\<close>

definition vaina_thread :: "riot \<Rightarrow> int \<Rightarrow> int \<Rightarrow> vaina_recv \<Rightarrow> node \<Rightarrow> u8 list option \<times> node" where
  "vaina_thread R netif_pid ft_add rcv n =
     (if vr_netif rcv \<noteq> netif_pid \<and> vr_netif rcv \<noteq> 0 then (None, n)
      else case vr_data rcv of
        None \<Rightarrow> (None, n)
      | Some buf \<Rightarrow>
          if buf = [] then (None, n)
          else let (r, msg) = vaina_parse_msg buf in
            if r < 0 then (None, n)
            else let (r, n) = vaina_process_msg R ft_add msg n in (Some (vaina_ack msg (0 \<le> r)), n))"

text \<open>
  \<open>vaina_init\<close>: the result and the local end point (address, interface, port). The parameters are what the
  parser of addresses, joining the group, creating the socket and creating the thread return.
\<close>

definition CONFIG_VAINA_PORT :: u16 where "CONFIG_VAINA_PORT = 1337"

definition vaina_init :: "ipv6_addr option \<Rightarrow> (ipv6_addr \<Rightarrow> int) \<Rightarrow> (ipv6_addr \<times> int \<times> u16 \<Rightarrow> int) \<Rightarrow> int \<Rightarrow> int \<Rightarrow>
    int \<times> (ipv6_addr \<times> int \<times> u16) option" where
  "vaina_init grp join udp_create thread_pid netif_pid =
     (case grp of
        None \<Rightarrow> (-EINVAL, None)
      | Some g \<Rightarrow>
          if join g < 0 then (-1, None)
          else let ep = (g, netif_pid, CONFIG_VAINA_PORT) in
            if udp_create ep < 0 then (-1, Some ep) else (thread_pid, Some ep))"

section \<open>The client\<close>

text \<open>\<open>_pending_acks\<close> and \<open>_seqno\<close>.\<close>

record vaina_client =
  vc_pending :: int
  vc_seqno :: u8

definition vaina_client_parse_msg :: "u8 list \<Rightarrow> int \<times> vaina_client_msg" where
  "vaina_client_parse_msg buf =
     (let zero = \<lparr>vcm_msg = 0, vcm_seqno = 0, vcm_payload = replicate 17 0\<rparr> in
      if length buf < 2 then (-EINVAL, zero)
      else let ty = buf ! 0; sn = buf ! 1 in
        if ty = VAINA_MSG_ACK \<or> ty = VAINA_MSG_NACK then (0, zero\<lparr>vcm_msg := ty, vcm_seqno := sn\<rparr>)
        else (-EINVAL, zero))"

definition vaina_client_process_msg :: "vaina_client_msg \<Rightarrow> vaina_client \<Rightarrow> int \<times> vaina_client" where
  "vaina_client_process_msg msg c =
     (if vcm_msg msg = VAINA_MSG_ACK \<or> vcm_msg msg = VAINA_MSG_NACK then
        (0, if vc_pending c > 0 then c\<lparr>vc_pending := vc_pending c - 1\<rparr> else c)
      else (-EINVAL, c))"

text \<open>One round of \<open>_event_loop\<close>.\<close>

definition vaina_client_loop :: "int \<Rightarrow> vaina_recv \<Rightarrow> vaina_client \<Rightarrow> vaina_client" where
  "vaina_client_loop netif_pid rcv c =
     (if vr_netif rcv \<noteq> netif_pid \<and> vr_netif rcv \<noteq> 0 then c
      else case vr_data rcv of
        None \<Rightarrow> c
      | Some buf \<Rightarrow>
          let (r, msg) = vaina_client_parse_msg buf in
          if r < 0 then c else snd (vaina_client_process_msg msg c))"

text \<open>\<open>_serialize_msg\<close>: the bytes, or an error.\<close>

definition vaina_serialize_msg :: "vaina_client_msg \<Rightarrow> int + u8 list" where
  "vaina_serialize_msg msg =
     (let hdr = [vcm_msg msg, vcm_seqno msg]; p = vcm_payload msg in
      if vcm_msg msg = VAINA_MSG_RCS_ADD then Inr (hdr @ pay_rcs_ip p)
      else if vcm_msg msg = VAINA_MSG_RCS_DEL then Inr (hdr @ pay_rcs_ip p)
      else if vcm_msg msg = VAINA_MSG_NIB_ADD then Inr (hdr @ [pay_nib_prefix p] @ pay_nib_ip p)
      else if vcm_msg msg = VAINA_MSG_NIB_DEL then Inr (hdr @ [pay_nib_prefix p] @ pay_nib_ip p)
      else Inl (-1))"

text \<open>\<open>vaina_seqno\<close>: the comparison is made on \<open>int\<close>, without wrap-around.\<close>

definition vaina_seqno :: "vaina_client \<Rightarrow> u8 \<times> vaina_client" where
  "vaina_seqno c =
     (let sn = (if unat (vc_seqno c) + 1 = 255 then 0 else vc_seqno c + 1) in (sn, c\<lparr>vc_seqno := sn\<rparr>))"

text \<open>\<open>vaina_client_send\<close>: the datagram, if any, what it returns (\<open>udp_send\<close> is the socket's answer), the client.\<close>

definition vaina_client_send :: "(u8 list \<Rightarrow> int) \<Rightarrow> vaina_client_msg \<Rightarrow> vaina_client \<Rightarrow> u8 list option \<times> int \<times> vaina_client" where
  "vaina_client_send udp_send msg c =
     (let c = c\<lparr>vc_pending := vc_pending c + 1\<rparr> in
      case vaina_serialize_msg msg of
        Inl _ \<Rightarrow> (None, -1, c)
      | Inr bs \<Rightarrow> (Some bs, udp_send bs, c))"

text \<open>\<open>vaina_client_init\<close>: the result, the remote end point (None when it is not set) and the client.\<close>

definition vaina_client_init :: "ipv6_addr option \<Rightarrow> int \<Rightarrow> int \<Rightarrow> int \<Rightarrow> vaina_client \<Rightarrow>
    int \<times> (ipv6_addr \<times> int \<times> u16) option \<times> vaina_client" where
  "vaina_client_init grp udp_create thread_pid netif_pid c =
     (let c = c\<lparr>vc_seqno := 0\<rparr> in
      case grp of
        None \<Rightarrow> (-EINVAL, None, c)
      | Some g \<Rightarrow>
          let remote = Some (g, netif_pid, CONFIG_VAINA_PORT) in
          if udp_create < 0 then (-1, remote, c)
          else if thread_pid < 0 then (-1, remote, c)
          else (thread_pid, remote, c))"

text \<open>
  The shell command \<open>rcs_add\<close> of \<open>wifi/main.c\<close>: \<open>from_str\<close> is RIOT's parser of addresses. The datagram,
  the result and the client.
\<close>

definition rcs_add_cmd :: "(string \<Rightarrow> ipv6_addr option) \<Rightarrow> (u8 list \<Rightarrow> int) \<Rightarrow> string list \<Rightarrow> vaina_client \<Rightarrow>
    u8 list option \<times> int \<times> vaina_client" where
  "rcs_add_cmd from_str udp_send argv c =
     (if length argv < 2 then (None, -1, c)
      else case from_str (argv ! 1) of
        None \<Rightarrow> (None, -1, c)
      | Some ip \<Rightarrow>
          let (sn, c) = vaina_seqno c;
              msg = \<lparr>vcm_msg = VAINA_MSG_RCS_ADD, vcm_seqno = sn, vcm_payload = addr_bytes ip @ [0]\<rparr>;
              (dg, r, c) = vaina_client_send udp_send msg c
          in (dg, if r < 0 then -1 else 0, c))"

section \<open>The messages on the wire\<close>

lemma parse_msg_cases:
  "vaina_parse_msg buf = (r, msg) \<Longrightarrow> r < 0 \<longleftrightarrow> length buf < 19 \<or> buf ! 0 \<notin> {2, 3, 4, 5}"
  by (auto simp: vaina_parse_msg_def vaina_types EINVAL_def Let_def split: if_splits)

lemma process_msg_keeps_env: "vaina_process_msg R ft msg n = (r, n') \<Longrightarrow> env n' = env n \<and> queue n' = queue n"
  by (auto simp: vaina_process_msg_def log_event_def Let_def split: if_splits prod.splits option.splits)

text \<open>A message that changes routes: what the client sends for it and what the server parses.\<close>

definition nib_msg :: "u8 \<Rightarrow> u8 \<Rightarrow> u8 \<Rightarrow> ipv6_addr \<Rightarrow> vaina_client_msg" where
  "nib_msg ty sn pfx ip = \<lparr>vcm_msg = ty, vcm_seqno = sn, vcm_payload = pfx # addr_bytes ip\<rparr>"

lemma serialize_nib:
  "ty \<in> {4, 5} \<Longrightarrow> vaina_serialize_msg (nib_msg ty sn pfx ip) = Inr ([ty, sn, pfx] @ addr_bytes ip)"
  by (auto simp: vaina_serialize_msg_def nib_msg_def vaina_types pay_nib_prefix_def pay_nib_ip_def)

lemma parse_serialized:
  "ty \<in> {2, 3, 4, 5} \<Longrightarrow> vaina_parse_msg ([ty, sn, pfx] @ addr_bytes ip) =
     (0, \<lparr>vm_msg = ty, vm_seqno = sn, vm_pfx_len = pfx, vm_ip = ip\<rparr>)"
  by (auto simp: vaina_parse_msg_def vaina_types Let_def)

lemma parse_nib [simp]:
  "ty \<in> {4, 5} \<Longrightarrow> vaina_parse_msg (ty # sn # pfx # addr_bytes ip) =
     (0, \<lparr>vm_msg = ty, vm_seqno = sn, vm_pfx_len = pfx, vm_ip = ip\<rparr>)"
  using parse_serialized [of ty sn pfx ip] by auto

lemma client_counts_ack:
  "r \<in> {0, 1} \<Longrightarrow> vaina_client_loop pid \<lparr>vr_netif = pid, vr_data = Some [r, sn]\<rparr> c =
     (if vc_pending c > 0 then c\<lparr>vc_pending := vc_pending c - 1\<rparr> else c)"
  by (auto simp: vaina_client_loop_def vaina_client_parse_msg_def vaina_client_process_msg_def vaina_types EINVAL_def)

section \<open>Client and server together\<close>

text \<open>
  C9. A route that the client adds or deletes reaches the forwarding table, and the answer clears the
  pending acknowledgement: the server does exactly the one call on the forwarding table, with the prefix
  and its length as the client gave them, answers with the sequence number of the message (NACK only when an
  addition is refused), and the client has as many pending acknowledgements as before.
\<close>

theorem vaina_nib_roundtrip:
  assumes ty: "ty = VAINA_MSG_NIB_ADD \<or> ty = VAINA_MSG_NIB_DEL" and if_ok: "netif = pid \<or> netif = 0"
    and sent: "vaina_client_send udp (nib_msg ty sn pfx ip) c = (Some bs, r, c')"
    and served: "vaina_thread R pid ft \<lparr>vr_netif = netif, vr_data = Some bs\<rparr> n = (ack, n')"
    and pending: "0 \<le> vc_pending c"
  shows "n' = log_event (if ty = VAINA_MSG_NIB_ADD then NibAdd ip pfx VAINA_NEXT_HOP 0 else NibDel ip pfx) n \<and>
    ack = Some [if ty = VAINA_MSG_NIB_ADD \<and> ft < 0 then VAINA_MSG_NACK else VAINA_MSG_ACK, sn] \<and>
    vaina_client_loop cpid \<lparr>vr_netif = cpid, vr_data = ack\<rparr> c' = c"
proof -
  from ty have ty': "ty \<in> {4, 5}" "ty \<in> {2, 3, 4, 5}" by (auto simp: vaina_types)
  from sent have bs: "bs = [ty, sn, pfx] @ addr_bytes ip" and c': "c' = c\<lparr>vc_pending := vc_pending c + 1\<rparr>"
    by (simp_all add: vaina_client_send_def serialize_nib [OF ty'(1)])
  note ev = vaina_thread_def vaina_process_msg_def vaina_ack_def vaina_types ENOMEM_def Let_def
  have ack: "ack = Some [if ty = 4 \<and> ft < 0 then 1 else 0, sn]"
    using served if_ok ty' by (auto simp: bs ev)
  have n': "n' = log_event (if ty = 4 then NibAdd ip pfx VAINA_NEXT_HOP 0 else NibDel ip pfx) n"
    using served if_ok ty' by (auto simp: bs ev)
  have "vaina_client_loop cpid \<lparr>vr_netif = cpid, vr_data = ack\<rparr> c' = c"
    using pending by (simp add: ack client_counts_ack c')
  with ack n' show ?thesis by (simp add: vaina_types)
qed

theorem vaina_nib_roundtrip_witness:
  "fst (vaina_thread riot_ref 4 (-12) \<lparr>vr_netif = 0, vr_data = Some ([4, 9, 64] @ addr_bytes 5)\<rparr> (node_boot (world_at timex_zero))) =
     Some [VAINA_MSG_NACK, 9]"
proof -
  let ?c = "\<lparr>vc_pending = 0, vc_seqno = 9\<rparr>"
  have sent: "vaina_client_send (\<lambda>_. 0) (nib_msg VAINA_MSG_NIB_ADD 9 64 5) ?c = (Some ([4, 9, 64] @ addr_bytes 5), 0, ?c\<lparr>vc_pending := 1\<rparr>)"
    by (simp add: vaina_client_send_def serialize_nib vaina_types)
  show ?thesis
    using vaina_nib_roundtrip [OF disjI1 [OF refl] disjI2 [OF refl] sent surjective_pairing, of riot_ref 4 "-12"] by simp
qed

text \<open>
  C10. The two boards disagree on the messages for the client set: whatever address the Wi-Fi board wants to add
  or delete, its message has no prefix length and is one byte too short for the router, which drops it
  without an answer; the client waits for an acknowledgement that never comes.
\<close>

theorem vaina_rcs_never_served:
  assumes "vcm_msg msg = VAINA_MSG_RCS_ADD \<or> vcm_msg msg = VAINA_MSG_RCS_DEL" and "length (vcm_payload msg) = 17"
    and "vaina_client_send udp msg c = (dg, r, c')"
  shows "\<exists>bs. dg = Some bs \<and> length bs = 18 \<and> vc_pending c' = vc_pending c + 1 \<and>
    (\<forall>netif pid ft. vaina_thread R pid ft \<lparr>vr_netif = netif, vr_data = Some bs\<rparr> n = (None, n))"
proof -
  let ?bs = "[vcm_msg msg, vcm_seqno msg] @ pay_rcs_ip (vcm_payload msg)"
  from assms have "dg = Some ?bs" and "vc_pending c' = vc_pending c + 1"
    by (auto simp: vaina_client_send_def vaina_serialize_msg_def vaina_types)
  moreover from assms have "length ?bs = 18" by (simp add: pay_rcs_ip_def)
  moreover have "vaina_thread R pid ft \<lparr>vr_netif = netif, vr_data = Some ?bs\<rparr> n = (None, n)" for netif pid ft
    using assms by (auto simp: vaina_thread_def vaina_parse_msg_def pay_rcs_ip_def EINVAL_def Let_def)
  ultimately show ?thesis by blast
qed

theorem vaina_rcs_never_served_witness:
  "\<exists>bs c'. rcs_add_cmd (\<lambda>_. Some 1) (\<lambda>bs. int (length bs)) [''rcs_add'', ''::1''] \<lparr>vc_pending = 0, vc_seqno = 0\<rparr> = (Some bs, 0, c') \<and>
     vaina_thread riot_ref 4 0 \<lparr>vr_netif = 4, vr_data = Some bs\<rparr> (node_boot (world_at timex_zero)) = (None, node_boot (world_at timex_zero))"
proof -
  let ?c = "\<lparr>vc_pending = 0, vc_seqno = 1\<rparr>" and ?m = "\<lparr>vcm_msg = VAINA_MSG_RCS_ADD, vcm_seqno = 1, vcm_payload = addr_bytes 1 @ [0]\<rparr>"
  obtain dg r c' where send: "vaina_client_send (\<lambda>bs. int (length bs)) ?m ?c = (dg, r, c')" by (metis prod_cases3)
  have "r \<ge> 0" using send by (auto simp: vaina_client_send_def vaina_serialize_msg_def vaina_types)
  have "rcs_add_cmd (\<lambda>_. Some 1) (\<lambda>bs. int (length bs)) [''rcs_add'', ''::1''] \<lparr>vc_pending = 0, vc_seqno = 0\<rparr> = (dg, 0, c')"
    using send \<open>r \<ge> 0\<close> by (simp add: rcs_add_cmd_def vaina_seqno_def)
  moreover obtain bs where "dg = Some bs" "\<forall>netif pid ft. vaina_thread riot_ref pid ft \<lparr>vr_netif = netif, vr_data = Some bs\<rparr> (node_boot (world_at timex_zero)) =
      (None, node_boot (world_at timex_zero))"
    using vaina_rcs_never_served [OF _ _ send, of riot_ref "node_boot (world_at timex_zero)"] by auto
  ultimately show ?thesis by auto
qed

text \<open>
  The server answers exactly the messages of at least 19 bytes with one of its four types, received on its
  interface (or on one without a number); the answer repeats the sequence number, and whatever is not answered
  leaves the router as it was.
\<close>

lemma vaina_answers_iff:
  "(case vaina_thread R pid ft rcv n of
      (None, n') \<Rightarrow> n' = n
    | (Some ack, n') \<Rightarrow> (\<exists>buf. vr_data rcv = Some buf \<and> ack \<in> {[VAINA_MSG_ACK, buf ! 1], [VAINA_MSG_NACK, buf ! 1]})) \<and>
   (fst (vaina_thread R pid ft rcv n) \<noteq> None \<longleftrightarrow>
      vr_netif rcv \<in> {pid, 0} \<and> (\<exists>buf. vr_data rcv = Some buf \<and> 19 \<le> length buf \<and>
        buf ! 0 \<in> {VAINA_MSG_RCS_ADD, VAINA_MSG_RCS_DEL, VAINA_MSG_NIB_ADD, VAINA_MSG_NIB_DEL}))"
proof -
  have parsed: "vaina_parse_msg buf = (r, msg) \<Longrightarrow> \<not> r < 0 \<Longrightarrow> vm_seqno msg = buf ! 1" for buf r msg
    by (auto simp: vaina_parse_msg_def EINVAL_def Let_def split: if_splits)
  show ?thesis
    by (auto simp: vaina_thread_def vaina_ack_def vaina_types Let_def parse_msg_cases parsed
        split: option.splits prod.splits)
qed

section \<open>Sequence numbers\<close>

lemma vaina_seqno_next:
  "vc_seqno c = of_nat k \<Longrightarrow> k < 255 \<Longrightarrow> fst (vaina_seqno c) = of_nat (Suc k mod 255) \<and> vc_seqno (snd (vaina_seqno c)) = fst (vaina_seqno c)"
  by (cases "k = 254") (auto simp: vaina_seqno_def Let_def unat_of_nat)

text \<open>
  The client's sequence numbers have period 255: after \<open>k\<close> messages the number is \<open>k mod 255\<close>; 255 is
  never used.
\<close>

lemma vaina_seqno_period:
  "vc_seqno (((\<lambda>c. snd (vaina_seqno c)) ^^ k) (snd (snd (vaina_client_init grp udp thr pid c)))) = of_nat (k mod 255)"
proof (induction k)
  case 0
  show ?case by (simp add: vaina_client_init_def Let_def split: option.splits)
next
  case (Suc k)
  from vaina_seqno_next [OF Suc] show ?case by (simp add: mod_Suc_eq)
qed

section \<open>The server and the client set\<close>

text \<open>
  What the server may do to the node: record calls on the forwarding table, and change the client set by one
  addition of cost 1 or one deletion.
\<close>

definition vaina_change :: "riot \<Rightarrow> node \<Rightarrow> node \<Rightarrow> bool" where
  "vaina_change R n n' \<longleftrightarrow> n' = n\<lparr>events := events n', rcs_of := rcs_of n'\<rparr> \<and>
     (rcs_of n' = rcs_of n \<or> (\<exists>addr len. rcs_of n' = snd (aodvv2_rcs_add R addr len 1 (rcs_of n))) \<or>
      (\<exists>addr len. rcs_of n' = aodvv2_rcs_del R addr len (rcs_of n)))"

lemma vaina_process_msg_change:
  assumes "vaina_process_msg R ft msg n = (r, n')"
  shows "vaina_change R n n'"
proof (cases "vm_msg msg = VAINA_MSG_RCS_ADD")
  case True
  obtain i es where add: "aodvv2_rcs_add R (vm_ip msg) (vm_pfx_len msg) 1 (rcs_of n) = (i, es)" by fastforce
  with True assms have n': "n' = (if i = None then n else n\<lparr>rcs_of := es\<rparr>)"
    by (auto simp: vaina_process_msg_def split: option.splits)
  moreover from add have "snd (aodvv2_rcs_add R (vm_ip msg) (vm_pfx_len msg) 1 (rcs_of n)) = es" by simp
  then have "\<exists>addr len. snd (aodvv2_rcs_add R addr len 1 (rcs_of n)) = es" by blast
  ultimately show ?thesis
    by (auto simp: vaina_change_def)
next
  case False
  with assms show ?thesis
    by (auto simp: vaina_process_msg_def log_event_def vaina_change_def Let_def split: if_splits; blast)
qed

lemma vaina_thread_change:
  assumes "vaina_thread R pid ft rcv n = (ack, n')"
  shows "vaina_change R n n'"
proof -
  have "vaina_change R n n" by (simp add: vaina_change_def)
  with assms vaina_process_msg_change [of R ft] show ?thesis
    by (auto simp: vaina_thread_def Let_def split: if_splits option.splits prod.splits)
qed

lemma vaina_thread_rcs_inv:
  assumes "vaina_thread R pid ft rcv n = (ack, n')" and "prefix_ok R" and "rcs_inv (rcs_of n)"
  shows "rcs_inv (rcs_of n')"
  using vaina_thread_change [OF assms(1)] assms(2,3) by (auto simp: vaina_change_def rcs_inv_add rcs_inv_del)

end
