(* ===== verification/AodvRouter.thy ===== *)
theory AodvRouter
  imports AodvThread RfcWriterKeeps Vaina
begin

text \<open>
  The router as a whole: the steps its thread and the other threads take, the invariant all reachable
  states have, and the discovery of a route between two routers.
\<close>

section \<open>Steps\<close>




section \<open>What the writer's callbacks keep\<close>







section \<open>The invariant\<close>







section \<open>Reachable routers\<close>







end
