(* ===== verification/RfcForward.thy ===== *)
theory RfcForward
  imports RfcGenerator
begin

text \<open>
  Forwarding of messages, \<open>rfc5444_writer_forward_msg\<close> of
  \<open>core/contrib/oonf_api/rfc5444/rfc5444_msg_generator.c\<close>: a received message is appended to the packets of
  the targets that its selector names, with its hop limit and hop count adjusted.
\<close>

section \<open>Room for the message\<close>

definition RFC5444_FW_MESSAGE_TOO_LONG :: int where "RFC5444_FW_MESSAGE_TOO_LONG = -14"
definition RFC5444_FW_BAD_TRANSFORM :: int where "RFC5444_FW_BAD_TRANSFORM = -17"

definition fw_matching :: "'s cbs \<Rightarrow> ctx \<Rightarrow> writer \<Rightarrow> int \<Rightarrow> postproc list" where
  "fw_matching C c wr sig = filter (\<lambda>h. is_matching_signature h sig) (map (forward_handler C c \<circ> snd) (forwarding_processors wr))"

text \<open>\<open>msg[0]\<close>, which is read for a handler only.\<close>

definition fw_signature :: "u8 list \<Rightarrow> writer \<Rightarrow> int outcome" where
  "fw_signature msg wr = (if forwarding_processors wr = [] then Inr 0 else bnd (mem_get msg 0) (\<lambda>b. Inr (uint b)))"

definition target_room :: "target \<Rightarrow> u32" where
  "target_room t = of_nat (tw_max (tg_pkt t)) - of_nat (target_end t)"

text \<open>A target whose packet has no room for the message is flushed; an empty packet is started.\<close>

definition fw_make_room :: "'s cbs \<Rightarrow> ctx \<Rightarrow> int \<Rightarrow> nat \<Rightarrow> nat \<Rightarrow> 's \<times> writer \<Rightarrow> (int \<times> 's \<times> writer) outcome" where
  "fw_make_room C c sig len i = (\<lambda>(s, wr).
     let t = targets wr ! i; need = of_nat (len + sum_list (map allocate_space (fw_matching C c wr sig))) :: u32 in
     bnd (if \<not> is_flushed t \<and> need > target_room t then rfc5444_writer_flush C i False (s, wr) else Inr (s, wr)) (\<lambda>(s, wr).
     bnd (if is_flushed (targets wr ! i) then writer_begin_packet C i (s, wr) else Inr (s, wr)) (\<lambda>(s, wr).
     Inr (if need > target_room (targets wr ! i) then RFC5444_FW_MESSAGE_TOO_LONG else RFC5444_OKAY, s, wr))))"

text \<open>The first loop; its flag says whether a target is selected at all.\<close>

fun fw_make_rooms :: "'s cbs \<Rightarrow> ctx \<Rightarrow> (nat \<Rightarrow> ctx \<Rightarrow> bool) \<Rightarrow> u8 list \<Rightarrow> nat \<Rightarrow> nat list \<Rightarrow> bool \<Rightarrow> 's \<times> writer \<Rightarrow>
    (int \<times> bool \<times> 's \<times> writer) outcome" where
  "fw_make_rooms C c sel msg len [] shall x = Inr (RFC5444_OKAY, shall, x)"
| "fw_make_rooms C c sel msg len (i # is) shall x =
     (if \<not> sel i c then fw_make_rooms C c sel msg len is shall x
      else bnd (fw_signature msg (snd x)) (\<lambda>sig.
           bnd (fw_make_room C c sig len i x) (\<lambda>(r, x).
           if r \<noteq> RFC5444_OKAY then Inr (r, True, x) else fw_make_rooms C c sel msg len is True x)))"

section \<open>The bytes\<close>

text \<open>
  The handlers that are not specific to a target; the bytes they leave, or what the function returns.
\<close>

fun fw_generic :: "postproc list \<Rightarrow> u8 list \<Rightarrow> int + u8 list" where
  "fw_generic [] d = Inr d"
| "fw_generic (h # hs) d =
     (let (err, d) = pp_process h None d in
      if err \<noteq> 0 then Inl RFC5444_FW_BAD_TRANSFORM else if d = [] then Inl RFC5444_OKAY else fw_generic hs d)"

text \<open>The indices of the hop limit and of the hop count in a message with these flags.\<close>

definition fw_hops :: "u8 \<Rightarrow> nat option \<times> nat option" where
  "fw_hops flags =
     (let cnt = 4 + (if flags AND RFC5444_MSG_FLAG_ORIGINATOR \<noteq> 0 then unat (flags AND RFC5444_MSG_FLAG_ADDRLENMASK) + 1 else 0);
          hl = (flags AND RFC5444_MSG_FLAG_HOPLIMIT \<noteq> 0)
      in (if hl then Some cnt else None,
          if flags AND RFC5444_MSG_FLAG_HOPCOUNT \<noteq> 0 then Some (if hl then cnt + 1 else cnt) else None))"

definition poke :: "nat \<Rightarrow> nat \<Rightarrow> (u8 \<Rightarrow> u8) \<Rightarrow> writer \<Rightarrow> writer outcome" where
  "poke i off f wr = bnd (mem_get (tw_buffer (tg_pkt (targets wr ! i))) off) (\<lambda>b. in_target i off [f b] wr)"

definition poke_at :: "nat \<Rightarrow> nat \<Rightarrow> nat option \<Rightarrow> (u8 \<Rightarrow> u8) \<Rightarrow> writer \<Rightarrow> writer outcome" where
  "poke_at i off p f wr = (case p of None \<Rightarrow> Inr wr | Some k \<Rightarrow> poke i (off + k) f wr)"

text \<open>The size of the copy, the hop limit and the hop count are corrected in the packet.\<close>

definition fw_correct :: "nat \<Rightarrow> nat \<Rightarrow> nat \<Rightarrow> nat option \<Rightarrow> nat option \<Rightarrow> writer \<Rightarrow> writer outcome" where
  "fw_correct i off sz hl hc wr =
     bnd (poke i (off + 2) (\<lambda>_. of_nat (drop_bit 8 sz)) wr) (\<lambda>wr.
     bnd (poke i (off + 3) (\<lambda>_. of_nat (sz AND 255)) wr) (\<lambda>wr.
     bnd (poke_at i off hl (\<lambda>b. b - 1) wr) (poke_at i off hc (\<lambda>b. b + 1))))"

text \<open>One round of the last loop: the message is copied behind the packet of the target.\<close>

definition fw_append :: "'s cbs \<Rightarrow> ctx \<Rightarrow> u8 list \<Rightarrow> nat \<Rightarrow> nat option \<Rightarrow> nat option \<Rightarrow> nat \<Rightarrow> 's \<times> writer \<Rightarrow> (int \<times> 's \<times> writer) outcome" where
  "fw_append C c msg sz hl hc i = (\<lambda>(s, wr).
     let t = targets wr ! i; off = target_end t in
     bnd (guard (off + sz \<le> tw_max (tg_pkt t)) AssertFail) (\<lambda>_.
     bnd (mem_read msg 0 sz) (\<lambda>bs.
     bnd (in_target i off bs wr) (\<lambda>wr.
     bnd (fw_signature msg wr) (\<lambda>sig.
     case run_specific i (filter target_specific (fw_matching C c wr sig)) bs of
       None \<Rightarrow> Inr (RFC5444_FW_BAD_TRANSFORM, s, wr)
     | Some d \<Rightarrow> bnd (in_target i off d wr) (\<lambda>wr.
         if d = [] then Inr (RFC5444_OKAY, s, wr)
         else bnd (fw_correct i off (length d) hl hc (upd_target i (\<lambda>t. t\<lparr>bin_msgs_size := bin_msgs_size t + length d\<rparr>) wr)) (\<lambda>wr.
              bnd (notify C i (s, wr)) (\<lambda>x. Inr (RFC5444_OKAY, x)))))))))"

fun fw_appends :: "'s cbs \<Rightarrow> ctx \<Rightarrow> (nat \<Rightarrow> ctx \<Rightarrow> bool) \<Rightarrow> u8 list \<Rightarrow> nat \<Rightarrow> nat option \<Rightarrow> nat option \<Rightarrow> nat list \<Rightarrow> 's \<times> writer \<Rightarrow>
    (int \<times> 's \<times> writer) outcome" where
  "fw_appends C c sel msg sz hl hc [] x = Inr (RFC5444_OKAY, x)"
| "fw_appends C c sel msg sz hl hc (i # is) x =
     (if \<not> sel i c then fw_appends C c sel msg sz hl hc is x
      else bnd (fw_append C c msg sz hl hc i x) (\<lambda>(r, x).
           if r \<noteq> RFC5444_OKAY then Inr (r, x) else fw_appends C c sel msg sz hl hc is x))"

section \<open>Forwarding\<close>

text \<open>
  The second half of the function. The handlers that are not specific to a target work on a copy of the writer's
  own message buffer; only the size they leave is used, the bytes come from the received message.
\<close>

definition fw_copy :: "'s cbs \<Rightarrow> ctx \<Rightarrow> (nat \<Rightarrow> ctx \<Rightarrow> bool) \<Rightarrow> u8 list \<Rightarrow> nat \<Rightarrow> 's \<times> writer \<Rightarrow> (int \<times> 's \<times> writer) outcome" where
  "fw_copy C c sel msg len = (\<lambda>(s, wr).
     bnd (guard (len \<le> RFC5444_MAX_MESSAGE_SIZE) OutOfBounds) (\<lambda>_.
     bnd (mem_read (tw_buffer (w_msg wr)) 0 len) (\<lambda>own.
     bnd (fw_signature msg wr) (\<lambda>sig.
     case fw_generic (filter (\<lambda>h. \<not> target_specific h) (fw_matching C c wr sig)) own of
       Inl r \<Rightarrow> Inr (r, s, wr)
     | Inr d \<Rightarrow>
         bnd (mem_get msg 1) (\<lambda>flags.
         let (hl, hc) = fw_hops flags in
         bnd (case hl of None \<Rightarrow> Inr 2 | Some k \<Rightarrow> mem_get msg k) (\<lambda>limit.
         if limit \<le> 1 then Inr (RFC5444_OKAY, s, wr)
         else fw_appends C c sel msg (length d) hl hc [0..<length (targets wr)] (s, wr)))))))"

text \<open>\<open>msg\<close> is the memory from the message on, of which the message is the first \<open>len\<close> bytes.\<close>

definition rfc5444_writer_forward_msg :: "'s cbs \<Rightarrow> ctx \<Rightarrow> u8 list \<Rightarrow> nat \<Rightarrow> 's \<times> writer \<Rightarrow> (int \<times> 's \<times> writer) outcome" where
  "rfc5444_writer_forward_msg C c msg len = (\<lambda>(s, wr).
     bnd (in_state WRITER_NONE wr) (\<lambda>_.
     if find_msg (msg_type c) wr = None then Inr (RFC5444_NO_MSGCREATOR, s, wr)
     else case forward_target_selector C (msg_type c) of
         None \<Rightarrow> Inr (RFC5444_OKAY, s, wr)
       | Some sel \<Rightarrow>
           bnd (fw_make_rooms C c sel msg len [0..<length (targets wr)] False (s, wr)) (\<lambda>(r, shall, x).
           if r \<noteq> RFC5444_OKAY then Inr (r, x)
           else if \<not> shall then Inr (RFC5444_OKAY, x)
           else fw_copy C c sel msg len x)))"

section \<open>What a target gets\<close>

definition bump :: "nat option \<Rightarrow> (u8 \<Rightarrow> u8) \<Rightarrow> u8 list \<Rightarrow> u8 list" where
  "bump p f bs = (case p of None \<Rightarrow> bs | Some k \<Rightarrow> bs[k := f (bs ! k)])"

text \<open>The copy of a message: its size, its hop limit and its hop count are corrected, nothing else.\<close>

definition fw_bytes :: "nat option \<Rightarrow> nat option \<Rightarrow> u8 list \<Rightarrow> u8 list" where
  "fw_bytes hl hc bs =
     bump hc (\<lambda>b. b + 1) (bump hl (\<lambda>b. b - 1) (bs[2 := of_nat (drop_bit 8 (length bs)), 3 := of_nat (length bs AND 255)]))"

definition appended :: "u8 list \<Rightarrow> target \<Rightarrow> target" where
  "appended bs t = t\<lparr>tg_pkt := (tg_pkt t)\<lparr>tw_buffer := blit (tw_buffer (tg_pkt t)) (target_end t) bs\<rparr>, bin_msgs_size := bin_msgs_size t + length bs\<rparr>"

abbreviation put :: "nat \<Rightarrow> nat \<Rightarrow> u8 list \<Rightarrow> writer \<Rightarrow> writer" where
  "put i off bs \<equiv> upd_target i (\<lambda>t. t\<lparr>tg_pkt := (tg_pkt t)\<lparr>tw_buffer := blit (tw_buffer (tg_pkt t)) off bs\<rparr>\<rparr>)"

lemma length_bump [simp]: "length (bump p f bs) = length bs"
  by (simp add: bump_def split: option.split)

lemma length_fw_bytes [simp]: "length (fw_bytes hl hc bs) = length bs"
  by (simp add: fw_bytes_def)

lemma targets_upd_target [simp]: "targets (upd_target i f wr) = (targets wr)[i := f (targets wr ! i)]"
  by (simp add: upd_target_def)

lemma blit_twice: "off + length bs \<le> length buf \<Longrightarrow> length bs' = length bs \<Longrightarrow> blit (blit buf off bs) off bs' = blit buf off bs'"
  by (simp add: blit_def)

lemma blit_nth: "off + length bs \<le> length buf \<Longrightarrow> k < length bs \<Longrightarrow> blit buf off bs ! (off + k) = bs ! k"
  by (simp add: blit_def nth_append)

lemma blit_one: "k < length buf \<Longrightarrow> blit buf k [b] = buf[k := b]"
  by (simp add: blit_def upd_conv_take_nth_drop)

lemma blit_poke: "off + length bs \<le> length buf \<Longrightarrow> k < length bs \<Longrightarrow> blit (blit buf off bs) (off + k) [b] = blit buf off (bs[k := b])"
  by (subst blit_one) (simp_all add: blit_def list_update_append)

lemma poke_put:
  assumes "i < length (targets wr)" and "k < length bs" and "off + length bs \<le> length (tw_buffer (tg_pkt (targets wr ! i)))"
  shows "poke i (off + k) f (put i off bs wr) = Inr (put i off (bs[k := f (bs ! k)]) wr)"
  using assms by (simp add: poke_def in_target_def mem_get_def mem_write_def blit_nth blit_poke upd_target_def)

lemma poke_at_put:
  assumes "i < length (targets wr)" and "\<And>k. p = Some k \<Longrightarrow> k < length bs" and "off + length bs \<le> length (tw_buffer (tg_pkt (targets wr ! i)))"
  shows "poke_at i off p f (put i off bs wr) = Inr (put i off (bump p f bs) wr)"
  using assms by (cases p) (simp_all add: poke_at_def bump_def poke_put)

lemma fw_correct_put:
  assumes "i < length (targets wr)" and "4 \<le> length bs" and "\<And>k. hl = Some k \<or> hc = Some k \<Longrightarrow> k < length bs"
    and "off + length bs \<le> length (tw_buffer (tg_pkt (targets wr ! i)))"
  shows "fw_correct i off (length bs) hl hc (put i off bs wr) = Inr (put i off (fw_bytes hl hc bs) wr)"
  using assms by (simp add: fw_correct_def fw_bytes_def poke_put poke_at_put del: add_2_eq_Suc')

text \<open>A target that the message can be appended to as it is.\<close>

definition fw_ready :: "nat \<Rightarrow> target \<Rightarrow> bool" where
  "fw_ready need t \<longleftrightarrow> \<not> is_flushed t \<and> length (tw_buffer (tg_pkt t)) = tw_max (tg_pkt t) \<and> tw_max (tg_pkt t) < 2 ^ 32 \<and>
     target_end t + need \<le> tw_max (tg_pkt t)"

lemma fw_ready_mono: "fw_ready n t \<Longrightarrow> m \<le> n \<Longrightarrow> fw_ready m t"
  by (simp add: fw_ready_def)

lemma target_room_ready:
  assumes "fw_ready need t"
  shows "\<not> of_nat need > target_room t"
proof -
  have small: "n < 2 ^ 32 \<Longrightarrow> unat (of_nat n :: u32) = n" for n by (simp add: unsigned_of_nat take_bit_nat_eq_self)
  have "target_room t = of_nat (tw_max (tg_pkt t) - target_end t)" using assms by (simp add: target_room_def fw_ready_def)
  moreover have "tw_max (tg_pkt t) - target_end t < 2 ^ 32" using assms by (simp add: fw_ready_def less_imp_diff_less)
  ultimately have "unat (target_room t) = tw_max (tg_pkt t) - target_end t" by (simp only: small)
  moreover have "unat (of_nat need :: u32) = need" "need \<le> tw_max (tg_pkt t) - target_end t"
    using assms small [of need] by (auto simp: fw_ready_def)
  ultimately show ?thesis by (simp add: word_less_nat_alt)
qed

definition no_specific :: "'s cbs \<Rightarrow> ctx \<Rightarrow> writer \<Rightarrow> bool" where
  "no_specific C c wr \<longleftrightarrow> (\<forall>h \<in> set (forwarding_processors wr). \<not> target_specific (forward_handler C c (snd h)))"

lemma no_specific_filter: "no_specific C c wr \<Longrightarrow> filter target_specific (fw_matching C c wr sig) = []"
  by (auto simp: no_specific_def fw_matching_def filter_empty_conv)

lemma processors_upd_target [simp]: "forwarding_processors (upd_target i f wr) = forwarding_processors wr"
  by (simp add: upd_target_def)

lemma fw_matching_upd_target [simp]: "fw_matching C c (upd_target i f wr) sig = fw_matching C c wr sig"
  by (simp add: fw_matching_def)

lemma no_specific_upd_target [simp]: "no_specific C c (upd_target i f wr) = no_specific C c wr"
  by (simp add: no_specific_def)

lemma fw_signature_ok: "msg \<noteq> [] \<Longrightarrow> \<exists>sig. fw_signature msg wr = Inr sig"
  by (simp add: fw_signature_def mem_get_def)

lemma fw_append_ok:
  assumes i: "i < length (targets wr)" and ready: "fw_ready g (targets wr ! i)" and g: "4 \<le> g" "g \<le> length msg"
    and hops: "\<And>k. hl = Some k \<or> hc = Some k \<Longrightarrow> k < g" and quiet: "message_generation_notifier C = None" and spec: "no_specific C c wr"
  shows "fw_append C c msg g hl hc i (s, wr) = Inr (RFC5444_OKAY, s, upd_target i (appended (fw_bytes hl hc (take g msg))) wr)"
proof -
  let ?t = "targets wr ! i" and ?bs = "take g msg"
  let ?off = "target_end ?t" and ?grow = "\<lambda>t. t\<lparr>bin_msgs_size := bin_msgs_size t + length ?bs\<rparr>"
  from ready have fit: "?off + length ?bs \<le> length (tw_buffer (tg_pkt ?t))" "?off + g \<le> tw_max (tg_pkt ?t)" using g by (auto simp: fw_ready_def)
  have w1: "in_target i ?off ?bs wr = Inr (put i ?off ?bs wr)" using fit by (simp add: in_target_def mem_write_def upd_target_def)
  have w2: "in_target i ?off ?bs (put i ?off ?bs wr) = Inr (put i ?off ?bs wr)"
    using fit i by (simp add: in_target_def mem_write_def upd_target_def blit_twice)
  have w3: "upd_target i ?grow (put i ?off ?bs wr) = put i ?off ?bs (upd_target i ?grow wr)"
    using i by (cases "targets wr ! i") (simp add: upd_target_def)
  have "fw_correct i ?off (length ?bs) hl hc (put i ?off ?bs (upd_target i ?grow wr)) = Inr (put i ?off (fw_bytes hl hc ?bs) (upd_target i ?grow wr))"
    by (rule fw_correct_put) (use i g hops fit in auto)
  moreover have "put i ?off (fw_bytes hl hc ?bs) (upd_target i ?grow wr) = upd_target i (appended (fw_bytes hl hc ?bs)) wr"
    using i by (cases "targets wr ! i") (simp add: upd_target_def appended_def)
  moreover obtain sig where "fw_signature msg (put i ?off ?bs wr) = Inr sig" using fw_signature_ok [of msg] g by fastforce
  moreover have "?bs \<noteq> []" using g by auto
  ultimately show ?thesis
    using w1 w2 w3 g fit spec quiet unfolding fw_append_def
    by (simp add: no_specific_filter mem_read_def notify_def call_def Let_def)
qed

section \<open>What forwarding does\<close>

text \<open>The writer after the copies have been appended.\<close>

definition fw_done :: "u8 list \<Rightarrow> nat set \<Rightarrow> writer \<Rightarrow> writer" where
  "fw_done bs S wr = wr\<lparr>targets := map (\<lambda>i. if i \<in> S then appended bs (targets wr ! i) else targets wr ! i) [0..<length (targets wr)]\<rparr>"

lemma targets_fw_done: "i < length (targets wr) \<Longrightarrow> targets (fw_done bs S wr) ! i = (if i \<in> S then appended bs (targets wr ! i) else targets wr ! i)"
  by (simp add: fw_done_def)

lemma length_fw_done [simp]: "length (targets (fw_done bs S wr)) = length (targets wr)"
  by (simp add: fw_done_def)

lemma fw_done_empty: "fw_done bs {} wr = wr"
  by (simp add: fw_done_def map_nth)

lemma fw_done_insert: "i < length (targets wr) \<Longrightarrow> i \<notin> S \<Longrightarrow> fw_done bs S (upd_target i (appended bs) wr) = fw_done bs (insert i S) wr"
proof -
  assume "i < length (targets wr)" "i \<notin> S"
  then have "map (\<lambda>j. if j \<in> S then appended bs ((targets wr)[i := appended bs (targets wr ! i)] ! j) else (targets wr)[i := appended bs (targets wr ! i)] ! j) [0..<length (targets wr)] =
      map (\<lambda>j. if j \<in> insert i S then appended bs (targets wr ! j) else targets wr ! j) [0..<length (targets wr)]"
    by (intro map_cong) (auto simp: nth_list_update)
  then show ?thesis unfolding fw_done_def upd_target_def by (simp cong: if_cong)
qed

lemma fw_appends_ok:
  assumes "distinct is" and "\<And>i. i \<in> set is \<Longrightarrow> sel i c \<Longrightarrow> i < length (targets wr) \<and> fw_ready g (targets wr ! i)" and g: "4 \<le> g" "g \<le> length msg"
    and hops: "\<And>k. hl = Some k \<or> hc = Some k \<Longrightarrow> k < g" and quiet: "message_generation_notifier C = None" and "no_specific C c wr"
  shows "fw_appends C c sel msg g hl hc is (s, wr) = Inr (RFC5444_OKAY, s, fw_done (fw_bytes hl hc (take g msg)) {i \<in> set is. sel i c} wr)"
  using assms(1,2,7)
proof (induction "is" arbitrary: wr)
  case Nil
  then show ?case by (simp add: fw_done_empty)
next
  case (Cons i "is")
  let ?bs = "fw_bytes hl hc (take g msg)"
  show ?case
  proof (cases "sel i c")
    case False
    then have "{j \<in> set (i # is). sel j c} = {j \<in> set is. sel j c}" by auto
    with False Cons show ?thesis by simp
  next
    case True
    with Cons.prems have i: "i < length (targets wr)" "fw_ready g (targets wr ! i)" "i \<notin> set is" by auto
    let ?w = "upd_target i (appended ?bs) wr"
    have "fw_appends C c sel msg g hl hc is (s, ?w) = Inr (RFC5444_OKAY, s, fw_done ?bs {j \<in> set is. sel j c} ?w)"
    proof (rule Cons.IH)
      show "j < length (targets ?w) \<and> fw_ready g (targets ?w ! j)" if "j \<in> set is" "sel j c" for j
        using that i(3) Cons.prems(2) [of j] by (cases "j = i") auto
    qed (use Cons.prems in auto)
    moreover have "{j \<in> set (i # is). sel j c} = insert i {j \<in> set is. sel j c}" using True by auto
    moreover have "fw_append C c msg g hl hc i (s, wr) = Inr (RFC5444_OKAY, s, ?w)"
      by (rule fw_append_ok [OF i(1,2) g hops quiet Cons.prems(3)])
    ultimately show ?thesis using True i by (simp add: fw_done_insert)
  qed
qed

lemma fw_make_rooms_ok:
  assumes "\<And>i. i \<in> set is \<Longrightarrow> sel i c \<Longrightarrow> fw_ready need (targets wr ! i)" and "fw_signature msg wr = Inr sig"
    and "need = len + sum_list (map allocate_space (fw_matching C c wr sig))"
  shows "fw_make_rooms C c sel msg len is b (s, wr) = Inr (RFC5444_OKAY, b \<or> (\<exists>i \<in> set is. sel i c), s, wr)"
  using assms(1)
proof (induction "is" arbitrary: b)
  case (Cons i "is")
  show ?case
  proof (cases "sel i c")
    case True
    with Cons.prems have "fw_ready need (targets wr ! i)" by simp
    then have "fw_make_room C c sig len i (s, wr) = Inr (RFC5444_OKAY, s, wr)"
      using target_room_ready [of need "targets wr ! i"] assms(3) by (simp add: fw_make_room_def fw_ready_def Let_def)
    with True Cons assms(2) show ?thesis by simp
  qed (use Cons in auto)
qed simp

text \<open>
  C27. What forwarding does when the packets of the selected targets have room: a message whose hop limit is 0 or 1
  goes nowhere; otherwise every selected target, and no other, gets the bytes of the received message with size, hop
  limit and hop count corrected appended to its packet. Handlers that are not specific to a target have no say in
  these bytes: they are given the writer's own buffer, and of what they leave (\<open>d\<close>) only the length is used.
\<close>

theorem forward_msg_spec:
  assumes st: "w_state wr = WRITER_NONE" and reg: "find_msg (msg_type c) wr \<noteq> None" and sel: "forward_target_selector C (msg_type c) = Some sel"
    and some: "i0 < length (targets wr)" "sel i0 c" and sig: "fw_signature msg wr = Inr sig"
    and own: "len \<le> length (tw_buffer (w_msg wr))" "len \<le> RFC5444_MAX_MESSAGE_SIZE"
    and hs: "fw_generic (fw_matching C c wr sig) (take len (tw_buffer (w_msg wr))) = Inr d" "no_specific C c wr" "message_generation_notifier C = None"
    and room: "\<And>i. i < length (targets wr) \<Longrightarrow> sel i c \<Longrightarrow> fw_ready (max (length d) (len + sum_list (map allocate_space (fw_matching C c wr sig)))) (targets wr ! i)"
    and shape: "4 \<le> length d" "length d \<le> length msg" "fw_hops (msg ! 1) = (hl, hc)" "\<And>k. hl = Some k \<or> hc = Some k \<Longrightarrow> k < length d"
  shows "rfc5444_writer_forward_msg C c msg len (s, wr) = Inr (RFC5444_OKAY, s,
    if \<exists>k. hl = Some k \<and> msg ! k \<le> 1 then wr
    else fw_done (fw_bytes hl hc (take (length d) msg)) {i. i < length (targets wr) \<and> sel i c} wr)"
proof -
  have rooms: "fw_make_rooms C c sel msg len [0..<length (targets wr)] False (s, wr) = Inr (RFC5444_OKAY, False \<or> (\<exists>i \<in> set [0..<length (targets wr)]. sel i c), s, wr)"
    by (rule fw_make_rooms_ok [OF _ sig refl]) (auto intro: fw_ready_mono [OF room])
  have generic: "filter (\<lambda>h. \<not> target_specific h) (fw_matching C c wr sig) = fw_matching C c wr sig"
    using hs(2) by (intro filter_True) (auto simp: no_specific_def fw_matching_def)
  let ?S = "{i. i < length (targets wr) \<and> sel i c}"
  have "{i \<in> set [0..<length (targets wr)]. sel i c} = ?S" by auto
  moreover have "fw_appends C c sel msg (length d) hl hc [0..<length (targets wr)] (s, wr) = Inr (RFC5444_OKAY, s,
      fw_done (fw_bytes hl hc (take (length d) msg)) {i \<in> set [0..<length (targets wr)]. sel i c} wr)"
    by (rule fw_appends_ok) (use shape hs in \<open>auto intro: fw_ready_mono [OF room]\<close>)
  ultimately have appends: "fw_appends C c sel msg (length d) hl hc [0..<length (targets wr)] (s, wr) =
      Inr (RFC5444_OKAY, s, fw_done (fw_bytes hl hc (take (length d) msg)) ?S wr)" by simp
  have flags: "mem_get msg 1 = Inr (msg ! 1)" using shape by (simp add: mem_get_def)
  have len: "guard (len \<le> RFC5444_MAX_MESSAGE_SIZE) OutOfBounds = Inr ()" "mem_read (tw_buffer (w_msg wr)) 0 len = Inr (take len (tw_buffer (w_msg wr)))"
    using own by (simp_all add: mem_read_def)
  have "fw_copy C c sel msg len (s, wr) = bnd (case hl of None \<Rightarrow> Inr 2 | Some k \<Rightarrow> mem_get msg k) (\<lambda>limit.
      if limit \<le> 1 then Inr (RFC5444_OKAY, s, wr) else Inr (RFC5444_OKAY, s, fw_done (fw_bytes hl hc (take (length d) msg)) ?S wr))"
    unfolding fw_copy_def prod.case len bnd.simps sig generic hs(1) sum.case flags Let_def shape(3) appends by (rule refl)
  moreover have "\<exists>i \<in> set [0..<length (targets wr)]. sel i c" using some by auto
  then have "rfc5444_writer_forward_msg C c msg len (s, wr) = fw_copy C c sel msg len (s, wr)"
    using st reg rooms sel by (auto simp: rfc5444_writer_forward_msg_def in_state_def)
  ultimately have "rfc5444_writer_forward_msg C c msg len (s, wr) = bnd (case hl of None \<Rightarrow> Inr 2 | Some k \<Rightarrow> mem_get msg k) (\<lambda>limit.
      if limit \<le> 1 then Inr (RFC5444_OKAY, s, wr) else Inr (RFC5444_OKAY, s, fw_done (fw_bytes hl hc (take (length d) msg)) ?S wr))" by simp
  note run = this
  show ?thesis
  proof (cases hl)
    case None
    moreover have "\<not> (2 :: u8) \<le> 1" by (simp add: word_le_nat_alt)
    ultimately show ?thesis using run by simp
  next
    case (Some k)
    with shape(2) shape(4) [of k] have "mem_get msg k = Inr (msg ! k)" by (simp add: mem_get_def)
    with run Some show ?thesis by simp
  qed
qed

text \<open>A writer with two targets, the first of which is selected, and a handler that clears what it is given.\<close>

definition fw_target :: target where
  "fw_target = \<lparr>packet_size = 16, tg_has_seqno = False, tg_seqno = 0, is_flushed = False,
     tg_pkt = \<lparr>tw_buffer = replicate 16 0, tw_header = 3, tw_added = 0, tw_allocated = 0, tw_set = 0, tw_max = 16\<rparr>, bin_msgs_size = 0\<rparr>"

definition fw_writer :: writer where
  "fw_writer = writer_ref\<lparr>targets := [fw_target, fw_target], forwarding_processors := [(0, 0)], w_state := WRITER_NONE,
     w_msg := \<lparr>tw_buffer = replicate 8 9, tw_header = 0, tw_added = 0, tw_allocated = 0, tw_set = 0, tw_max = 8\<rparr>\<rparr>"

definition fw_cbs :: "unit cbs" where
  "fw_cbs =
     \<lparr>addPacketHeader = (\<lambda>_. None), finishPacketHeader = (\<lambda>_. None), addPacketTLVs = (\<lambda>_ _. None), finishPacketTLVs = (\<lambda>_ _. None),
      addMessageHeader = (\<lambda>_ _ (s, wr). Inr (0, s, wr)), finishMessageHeader = (\<lambda>_. None), addMessageTLVs = (\<lambda>_. None),
      addAddresses = (\<lambda>_. None), finishMessageTLVs = (\<lambda>_. None),
      postprocessor = (\<lambda>_. \<lparr>is_matching_signature = (\<lambda>_. False), allocate_space = 0, target_specific = False, pp_process = (\<lambda>_ d. (0, d))\<rparr>),
      forward_handler = (\<lambda>_ _. \<lparr>is_matching_signature = (\<lambda>_. True), allocate_space = 0, target_specific = False, pp_process = (\<lambda>_ d. (0, map (\<lambda>_. 0) d))\<rparr>),
      forward_target_selector = (\<lambda>_. Some (\<lambda>i _. i = 0)), message_generation_notifier = None\<rparr>"

theorem forward_msg_spec_witness:
  "\<exists>wr'. rfc5444_writer_forward_msg fw_cbs (ctx_zero\<lparr>msg_type := 10\<rparr>) [10, 0x63, 0, 6, 5, 0] 6 ((), fw_writer) = Inr (RFC5444_OKAY, (), wr') \<and>
     map (\<lambda>t. take 6 (drop 3 (tw_buffer (tg_pkt t)))) (targets wr') = [[10, 0x63, 0, 6, 4, 1], [0, 0, 0, 0, 0, 0]]"
proof -
  let ?c = "ctx_zero\<lparr>msg_type := 10\<rparr>" and ?m = "[10, 0x63, 0, 6, 5, 0] :: u8 list"
  have hops: "fw_hops (?m ! 1) = (Some 4, Some 5)" by code_simp
  have sig: "fw_signature ?m fw_writer = Inr 10" by code_simp
  have hs: "fw_matching fw_cbs ?c fw_writer 10 = [forward_handler fw_cbs ?c 0]" by (simp add: fw_matching_def fw_cbs_def fw_writer_def)
  have gen: "fw_generic (fw_matching fw_cbs ?c fw_writer 10) (take 6 (tw_buffer (w_msg fw_writer))) = Inr (replicate 6 0)"
    unfolding hs by (simp add: fw_cbs_def fw_writer_def eval_nat_numeral)
  have ready: "fw_ready (max (length (replicate 6 (0 :: u8))) (6 + sum_list (map allocate_space (fw_matching fw_cbs ?c fw_writer 10)))) (targets fw_writer ! i)"
    if "i < length (targets fw_writer)" for i
    using that unfolding hs by (auto simp: fw_ready_def fw_writer_def fw_cbs_def fw_target_def target_end_def nth_Cons split: nat.split)
  let ?w = "fw_done (fw_bytes (Some 4) (Some 5) (take (length (replicate 6 (0 :: u8))) ?m)) {i. i < length (targets fw_writer) \<and> i = 0} fw_writer"
  have "rfc5444_writer_forward_msg fw_cbs ?c ?m 6 ((), fw_writer) = Inr (RFC5444_OKAY, (), if \<exists>k. Some 4 = Some k \<and> ?m ! k \<le> 1 then fw_writer else ?w)"
    by (rule forward_msg_spec [where sel = "\<lambda>i _. i = 0" and sig = 10 and d = "replicate 6 0" and ?i0.0 = 0, OF _ _ _ _ _ sig _ _ gen _ _ ready _ _ hops])
      (auto simp: fw_writer_def writer_ref_def fw_cbs_def find_msg_def tree_find_def RFC5444_MAX_MESSAGE_SIZE_def no_specific_def)
  moreover have "\<not> (\<exists>k. Some 4 = Some k \<and> ?m ! k \<le> 1)" by (simp add: word_le_nat_alt)
  ultimately have "rfc5444_writer_forward_msg fw_cbs ?c ?m 6 ((), fw_writer) = Inr (RFC5444_OKAY, (), ?w)" by simp
  moreover have "targets ?w = [appended (fw_bytes (Some 4) (Some 5) ?m) fw_target, fw_target]"
    by (simp add: fw_done_def fw_writer_def eval_nat_numeral)
  moreover have "fw_bytes (Some 4) (Some 5) ?m = [10, 0x63, 0, 6, 4, 1]" by code_simp
  ultimately show ?thesis
    by (simp add: appended_def fw_target_def target_end_def blit_def eval_nat_numeral)
qed

end
