(* ===== verification/RfcRegistry.thy ===== *)
theory RfcRegistry
  imports RfcWriter
begin

text \<open>
  What the writer has registered, \<open>core/contrib/oonf_api/rfc5444/rfc5444_writer.c\<close>: the invariant that ties message
  objects, TLV types and content providers together, kept by every operation that registers or unregisters, and
  \<open>rfc5444_writer_cleanup\<close>, which takes everything away again.
\<close>

section \<open>The invariant\<close>

text \<open>A TLV type on a message's list points back to that message, and stands there once.\<close>

definition msg_ok :: "(nat \<Rightarrow> tlvtype) \<Rightarrow> wr_message \<Rightarrow> bool" where
  "msg_ok tt m \<longleftrightarrow> distinct (wm_tlvtypes m) \<and> (\<forall>t \<in> set (wm_tlvtypes m). tt_creator (tt t) = Some (wm_type m))"

text \<open>Somebody still needs the message object: otherwise \<open>_lazy_free_message\<close> frees it.\<close>

definition msg_used :: "wr_message \<Rightarrow> bool" where
  "msg_used m \<longleftrightarrow> wm_registered m \<or> wm_addr_head m \<noteq> [] \<or> wm_tlvtypes m \<noteq> [] \<or> wm_providers m \<noteq> []"

text \<open>The invariant, except that the message \<open>ty\<close> may be in nobody's use for a moment.\<close>

definition registry_but :: "u8 option \<Rightarrow> writer \<Rightarrow> bool" where
  "registry_but ty wr \<longleftrightarrow> distinct (map wm_type (msgcreators wr)) \<and>
     (\<forall>m \<in> set (msgcreators wr). msg_ok (tlvtypes wr) m \<and> (Some (wm_type m) \<noteq> ty \<longrightarrow> msg_used m)) \<and>
     distinct (addr_tlvtype_head wr) \<and> (\<forall>t \<in> set (addr_tlvtype_head wr). tt_creator (tlvtypes wr t) = None)"

definition registry_ok :: "writer \<Rightarrow> bool" where
  "registry_ok wr = registry_but None wr"

lemma registry_but_weaken: "registry_ok wr \<Longrightarrow> registry_but ty wr"
  by (auto simp: registry_ok_def registry_but_def)

lemma find_msg_mem: "find_msg ty wr = Some m \<Longrightarrow> m \<in> set (msgcreators wr) \<and> wm_type m = ty"
  by (auto simp: find_msg_def tree_find_def find_Some_iff)

lemma find_msg_None: "find_msg ty wr = None \<longleftrightarrow> ty \<notin> wm_type ` set (msgcreators wr)"
  by (auto simp: find_msg_def tree_find_def find_None_iff)

lemma find_msg_unique:
  assumes "distinct (map wm_type (msgcreators wr))" and "m \<in> set (msgcreators wr)"
  shows "find_msg (wm_type m) wr = Some m"
proof -
  from assms(2) have "find_msg (wm_type m) wr \<noteq> None" by (simp add: find_msg_None)
  then obtain m' where m': "find_msg (wm_type m) wr = Some m'" by blast
  with find_msg_mem [OF m'] assms have "m' = m" by (metis distinct_map inj_onD)
  with m' show ?thesis by simp
qed

lemma registry_but_used:
  "registry_but (Some ty) wr \<Longrightarrow> find_msg ty wr = Some m \<Longrightarrow> msg_used m \<Longrightarrow> registry_ok wr"
  using find_msg_unique by (fastforce simp: registry_ok_def registry_but_def)

section \<open>The operations keep it\<close>

lemma distinct_tree_add:
  "distinct (map f (tree_add c x xs)) \<longleftrightarrow> f x \<notin> f ` set xs \<and> distinct (map f xs)"
  by (induction xs) auto

lemma get_message_new:
  assumes "find_msg ty wr = None"
  shows "msgcreators (snd (get_message ty wr)) = (if fst (get_message ty wr)
      then tree_insert wm_type (message_calloc\<lparr>wm_type := ty\<rparr>) (msgcreators wr) else msgcreators wr) \<and>
    addr_tlvtype_head (snd (get_message ty wr)) = addr_tlvtype_head wr \<and> tlvtypes (snd (get_message ty wr)) = tlvtypes wr"
  unfolding get_message_def writer_calloc_def using assms by (simp add: Let_def del: writer_calloc_fields)

lemma registry_get_message:
  assumes "registry_ok wr" and "get_message ty wr = (ok, wr')"
  shows "if ok then registry_but (Some ty) wr' \<and> find_msg ty wr' \<noteq> None else registry_ok wr'"
proof (cases "find_msg ty wr")
  case None
  note wr' = get_message_new [OF None, unfolded assms(2) fst_conv snd_conv]
  from None have fresh: "ty \<notin> wm_type ` set (msgcreators wr)" by (simp add: find_msg_None)
  from assms(1) fresh have "ok \<Longrightarrow> distinct (map wm_type (msgcreators wr'))"
    by (simp add: wr' tree_insert_def distinct_tree_add registry_ok_def registry_but_def)
  with assms(1) wr' show ?thesis
    by (auto simp: find_msg_None registry_ok_def registry_but_def msg_ok_def message_calloc_def)
next
  case (Some m)
  with assms show ?thesis by (simp add: get_message_def registry_but_weaken)
qed

lemma upd_msg_types:
  assumes "\<And>m. wm_type (f m) = wm_type m"
  shows "map wm_type (msgcreators (upd_msg ty f wr)) = map wm_type (msgcreators wr)"
  using assms by (simp add: upd_msg_def)

lemma upd_msg_rest [simp]: "addr_tlvtype_head (upd_msg ty f wr) = addr_tlvtype_head wr"
  by (simp add: upd_msg_def)

lemma registry_upd_msg:
  assumes "registry_but (Some ty) wr" and "\<And>m. wm_type (f m) = wm_type m \<and> wm_tlvtypes (f m) = wm_tlvtypes m"
  shows "registry_but (Some ty) (upd_msg ty f wr)"
proof -
  from assms have d: "distinct (map wm_type (msgcreators (upd_msg ty f wr)))" by (simp only: upd_msg_types registry_but_def)
  have "msg_ok (tlvtypes wr) m \<and> (wm_type m \<noteq> ty \<longrightarrow> msg_used m)" if "m \<in> set (msgcreators (upd_msg ty f wr))" for m
    using that assms by (auto simp: upd_msg_def registry_but_def msg_ok_def)
  with d assms(1) show ?thesis by (simp add: registry_but_def)
qed

lemma registry_lazy_free:
  assumes "registry_but (Some ty) wr"
  shows "registry_ok (lazy_free_message ty wr)"
proof (cases "find_msg ty wr")
  case None
  then have "lazy_free_message ty wr = wr" by (simp add: lazy_free_message_def)
  moreover from None have "ty \<notin> wm_type ` set (msgcreators wr)" by (simp add: find_msg_None)
  ultimately show ?thesis using assms by (auto simp: registry_ok_def registry_but_def)
next
  case (Some m)
  show ?thesis
  proof (cases "msg_used m")
    case True
    with registry_but_used [OF assms Some True] Some show ?thesis by (auto simp: lazy_free_message_def msg_used_def)
  next
    case False
    with assms Some show ?thesis
      by (auto simp: lazy_free_message_def msg_used_def registry_ok_def registry_but_def distinct_map_filter)
  qed
qed

lemma registry_register_addrtlvtype:
  assumes "registry_but (Some ty) wr" and "find_msg ty wr \<noteq> None" and "register_addrtlvtype (Some ty) t wr = Inr wr'"
  shows "registry_ok wr' \<and> find_msg ty wr' \<noteq> None"
proof -
  have new: "\<not> tlvtype_added t wr" using assms(3)
    by (auto simp: register_addrtlvtype_def Let_def outcome_simps tlvtype_added_def)
  from assms(3) have wr': "msgcreators wr' = map (\<lambda>m. if wm_type m = ty then m\<lparr>wm_tlvtypes := wm_tlvtypes m @ [t]\<rparr> else m) (msgcreators wr)"
    "addr_tlvtype_head wr' = addr_tlvtype_head wr"
    "tt_creator (tlvtypes wr' t') = (if t' = t then Some ty else tt_creator (tlvtypes wr t'))" for t'
    by (auto simp: register_addrtlvtype_def Let_def outcome_simps upd_msg_def)
  have types: "map wm_type (msgcreators wr') = map wm_type (msgcreators wr)" by (simp add: wr' o_def if_distrib)
  have msgs: "msg_ok (tlvtypes wr') m \<and> msg_used m" if "m \<in> set (msgcreators wr')" for m
    using that assms(1) new by (auto simp: wr' msg_ok_def msg_used_def tlvtype_added_def registry_but_def)
  have heads: "tt_creator (tlvtypes wr' t') = None" if "t' \<in> set (addr_tlvtype_head wr)" for t'
    using that assms(1) new by (auto simp: wr' tlvtype_added_def registry_but_def)
  have "find_msg ty wr' \<noteq> None" using assms(2) types by (metis find_msg_None list.set_map)
  with assms(1) types msgs heads show ?thesis by (simp add: registry_ok_def registry_but_def wr'(2))
qed

lemma registry_register_generic:
  assumes "registry_ok wr" and "register_addrtlvtype None t wr = Inr wr'"
  shows "registry_ok wr'"
proof -
  have new: "\<not> tlvtype_added t wr" using assms(2)
    by (auto simp: register_addrtlvtype_def Let_def outcome_simps tlvtype_added_def)
  from assms(2) have wr': "msgcreators wr' = msgcreators wr" "addr_tlvtype_head wr' = addr_tlvtype_head wr @ [t]"
    "tt_creator (tlvtypes wr' t') = (if t' = t then None else tt_creator (tlvtypes wr t'))" for t'
    by (auto simp: register_addrtlvtype_def Let_def outcome_simps)
  have msgs: "msg_ok (tlvtypes wr') m \<and> msg_used m" if "m \<in> set (msgcreators wr)" for m
    using that assms(1) new by (auto simp: wr' msg_ok_def tlvtype_added_def registry_ok_def registry_but_def)
  show ?thesis using assms(1) new msgs by (auto simp: registry_ok_def registry_but_def wr' tlvtype_added_def)
qed

lemma registry_unregister_addrtlvtype:
  assumes "registry_ok wr" and "rfc5444_writer_unregister_addrtlvtype t wr = Inr wr'"
  shows "registry_ok wr'"
proof (cases "tlvtype_added t wr")
  case False
  with assms show ?thesis by (simp add: rfc5444_writer_unregister_addrtlvtype_def outcome_simps)
next
  case True
  let ?w = "wr\<lparr>addr_tlvtype_head := remove1 t (addr_tlvtype_head wr),
              msgcreators := map (\<lambda>m. m\<lparr>wm_tlvtypes := remove1 t (wm_tlvtypes m)\<rparr>) (msgcreators wr)\<rparr>"
  from True assms(2) have wr': "wr' = (case tt_creator (tlvtypes wr t) of Some ty \<Rightarrow> lazy_free_message ty ?w | None \<Rightarrow> ?w)"
    by (simp add: rfc5444_writer_unregister_addrtlvtype_def outcome_simps Let_def)
  have ok: "msg_ok (tlvtypes wr) (m\<lparr>wm_tlvtypes := remove1 t (wm_tlvtypes m)\<rparr>)" if "m \<in> set (msgcreators wr)" for m
    using that assms(1) by (auto simp: registry_ok_def registry_but_def msg_ok_def dest: notin_set_remove1)
  have used: "msg_used (m\<lparr>wm_tlvtypes := remove1 t (wm_tlvtypes m)\<rparr>)"
    if "m \<in> set (msgcreators wr)" and "Some (wm_type m) \<noteq> tt_creator (tlvtypes wr t)" for m
  proof -
    from that assms(1) have "t \<notin> set (wm_tlvtypes m)" by (auto simp: registry_ok_def registry_but_def msg_ok_def)
    with that(1) assms(1) show ?thesis by (simp add: remove1_idem registry_ok_def registry_but_def)
  qed
  have types: "map wm_type (msgcreators ?w) = map wm_type (msgcreators wr)" by simp
  have "registry_but (tt_creator (tlvtypes wr t)) ?w"
    using assms(1) ok used
    unfolding registry_ok_def registry_but_def types by (auto dest: notin_set_remove1)
  then show ?thesis by (auto simp: wr' registry_ok_def registry_lazy_free [unfolded registry_ok_def] split: option.split)
qed

lemma registry_unregister_addrtlvtypes:
  "registry_ok wr \<Longrightarrow> unregister_addrtlvtypes ts wr = Inr wr' \<Longrightarrow> registry_ok wr'"
  by (induction ts arbitrary: wr) (auto simp: outcome_simps intro: registry_unregister_addrtlvtype)

lemma registry_register_addrtlvtypes:
  "registry_but (Some ty) wr \<Longrightarrow> find_msg ty wr \<noteq> None \<Longrightarrow> register_addrtlvtypes ty ts wr = Inr wr' \<Longrightarrow>
   registry_but (Some ty) wr' \<and> find_msg ty wr' \<noteq> None"
proof (induction ts arbitrary: wr)
  case (Cons t ts)
  from Cons.prems(3) obtain w where w: "register_addrtlvtype (Some ty) t wr = Inr w" "register_addrtlvtypes ty ts w = Inr wr'"
    by (auto simp: outcome_simps)
  from registry_register_addrtlvtype [OF Cons.prems(1,2) w(1)] Cons.IH [OF _ _ w(2)] show ?case
    by (simp add: registry_but_weaken)
qed simp

lemma registry_register_content_provider:
  assumes "registry_ok wr" and "rfc5444_writer_register_msgcontentprovider ty cpr ts wr = Inr (r, wr')"
  shows "registry_ok wr'"
proof -
  obtain ok w where w: "get_message ty wr = (ok, w)" by (metis surj_pair)
  note got = registry_get_message [OF assms(1) w]
  show ?thesis
  proof (cases ok)
    case True
    with assms(2) w obtain w2 where w2: "register_addrtlvtypes ty ts w = Inr w2"
      and wr': "wr' = upd_msg ty (\<lambda>m. m\<lparr>wm_providers := tree_insert cp_priority cpr (wm_providers m)\<rparr>) w2"
      by (auto simp: rfc5444_writer_register_msgcontentprovider_def outcome_simps)
    have but: "registry_but (Some ty) w2" and "find_msg ty w2 \<noteq> None"
      using registry_register_addrtlvtypes [OF _ _ w2] got True by auto
    then obtain m where m: "find_msg ty w2 = Some m" by blast
    have mem: "tree_insert cp_priority cpr (wm_providers m) \<noteq> []" by (metis set_tree_insert insert_not_empty list.set(1))
    have "registry_but (Some ty) wr'" unfolding wr' by (rule registry_upd_msg [OF but]) simp
    moreover have "find_msg ty wr' = Some (m\<lparr>wm_providers := tree_insert cp_priority cpr (wm_providers m)\<rparr>)"
      unfolding wr' by (rule find_msg_upd [OF m]) simp
    ultimately show ?thesis by (rule registry_but_used) (simp add: msg_used_def mem)
  next
    case False
    with assms(2) w got show ?thesis by (auto simp: rfc5444_writer_register_msgcontentprovider_def outcome_simps)
  qed
qed

lemma registry_unregister_content_provider:
  assumes "registry_ok wr" and "rfc5444_writer_unregister_content_provider ty cpr ts wr = Inr wr'"
  shows "registry_ok wr'"
proof (cases "wr' = wr")
  case False
  with assms(2) obtain w where w: "unregister_addrtlvtypes ts wr = Inr w"
    and wr': "wr' = lazy_free_message ty (upd_msg ty (\<lambda>m. m\<lparr>wm_providers := remove1 cpr (wm_providers m)\<rparr>) w)"
    by (auto simp: rfc5444_writer_unregister_content_provider_def outcome_simps split: option.splits if_splits)
  from registry_unregister_addrtlvtypes [OF assms(1) w] have "registry_but (Some ty) w" by (rule registry_but_weaken)
  then show ?thesis unfolding wr' by (intro registry_lazy_free registry_upd_msg) simp_all
qed (use assms in simp)

lemma registry_register_message:
  assumes "registry_ok wr" and "rfc5444_writer_register_message ty spec wr = Inr (r, wr')"
  shows "registry_ok wr'"
proof -
  obtain ok w where w: "get_message ty wr = (ok, w)" by (metis surj_pair)
  note got = registry_get_message [OF assms(1) w]
  show ?thesis
  proof (cases ok)
    case True
    with got obtain m where but: "registry_but (Some ty) w" and m: "find_msg ty w = Some m" by auto
    let ?f = "\<lambda>m. m\<lparr>wm_registered := True, wm_target_specific := spec\<rparr>"
    have "registry_but (Some ty) (upd_msg ty ?f w)" by (rule registry_upd_msg [OF but]) simp
    moreover have "find_msg ty (upd_msg ty ?f w) = Some (?f m)" by (rule find_msg_upd [OF m]) simp
    ultimately have upd: "registry_ok (upd_msg ty ?f w)" by (rule registry_but_used) (simp add: msg_used_def)
    have "wm_registered m \<Longrightarrow> registry_ok w" by (rule registry_but_used [OF but m]) (simp add: msg_used_def)
    with assms(2) w True m upd show ?thesis
      by (auto simp: rfc5444_writer_register_message_def outcome_simps split: if_splits)
  next
    case False
    with assms(2) w got show ?thesis by (auto simp: rfc5444_writer_register_message_def outcome_simps)
  qed
qed

lemma registry_unregister_message:
  assumes "registry_ok wr" and "rfc5444_writer_unregister_message ty wr = Inr wr'"
  shows "registry_ok wr'"
proof (cases "find_msg ty wr")
  case None
  with assms show ?thesis by (simp add: rfc5444_writer_unregister_message_def outcome_simps)
next
  case (Some m)
  let ?f = "\<lambda>m. m\<lparr>wm_addrs := [], wm_addr_head := [], wm_nonmandatory := []\<rparr>"
  have "registry_but (Some ty) (upd_msg ty ?f wr)"
    by (rule registry_upd_msg [OF registry_but_weaken [OF assms(1)]]) simp
  then have "registry_but (Some ty) (writer_free_addresses ty wr)"
    by (simp add: writer_free_addresses_def registry_but_def)
  then have "registry_ok (lazy_free_message ty (upd_msg ty (\<lambda>m. m\<lparr>wm_registered := False\<rparr>) (writer_free_addresses ty wr)))"
    by (intro registry_lazy_free registry_upd_msg) simp_all
  with Some assms(2) show ?thesis by (auto simp: rfc5444_writer_unregister_message_def outcome_simps Let_def)
qed

section \<open>Cleanup\<close>

text \<open>
  \<open>rfc5444_writer_cleanup\<close>. Each loop walks over what stands in the list or tree when it starts
  (\<open>..._for_each_element_safe\<close> remembers the next element before the current one is removed) and unregisters it.
\<close>

fun for_each :: "('x \<Rightarrow> writer \<Rightarrow> writer outcome) \<Rightarrow> 'x list \<Rightarrow> writer \<Rightarrow> writer outcome" where
  "for_each f [] wr = Inr wr"
| "for_each f (x # xs) wr = bnd (f x wr) (for_each f xs)"

definition cleanup_message :: "u8 \<Rightarrow> writer \<Rightarrow> writer outcome" where
  "cleanup_message ty wr =
     (let wr = upd_msg ty (\<lambda>m. m\<lparr>wm_registered := True\<rparr>) wr in
      bnd (deref (find_msg ty wr)) (\<lambda>m.
      bnd (for_each (\<lambda>cpr. rfc5444_writer_unregister_content_provider ty cpr []) (wm_providers m) wr) (\<lambda>wr.
      bnd (deref (find_msg ty wr)) (\<lambda>m.
      bnd (for_each rfc5444_writer_unregister_addrtlvtype (wm_tlvtypes m) wr)
        (rfc5444_writer_unregister_message ty)))))"

definition rfc5444_writer_cleanup :: "writer \<Rightarrow> writer outcome" where
  "rfc5444_writer_cleanup wr =
     bnd (in_state WRITER_NONE wr) (\<lambda>_.
     bnd (for_each rfc5444_writer_unregister_pkthandler (pkthandlers wr) wr) (\<lambda>wr.
     bnd (for_each (\<lambda>_. rfc5444_writer_unregister_target 0) (targets wr) wr) (\<lambda>wr.
     bnd (for_each rfc5444_writer_unregister_addrtlvtype (addr_tlvtype_head wr) wr) (\<lambda>wr.
     bnd (for_each (\<lambda>h wr. Inr (rfc5444_writer_unregister_postprocessor h wr)) (processors wr) wr) (\<lambda>wr.
     for_each cleanup_message (map wm_type (msgcreators wr)) wr)))))"

lemma for_each_pkthandlers:
  "w_state wr = WRITER_NONE \<Longrightarrow> pkthandlers wr = hs \<Longrightarrow>
   for_each rfc5444_writer_unregister_pkthandler hs wr = Inr (wr\<lparr>pkthandlers := []\<rparr>)"
  by (induction hs arbitrary: wr) (simp_all add: rfc5444_writer_unregister_pkthandler_def in_state_def)

lemma for_each_targets:
  "w_state wr = WRITER_NONE \<Longrightarrow> targets wr = ts \<Longrightarrow>
   for_each (\<lambda>_. rfc5444_writer_unregister_target 0) ts wr = Inr (wr\<lparr>targets := []\<rparr>)"
  by (induction ts arbitrary: wr) (simp_all add: rfc5444_writer_unregister_target_def in_state_def)

lemma for_each_processors:
  "processors wr = hs \<Longrightarrow>
   for_each (\<lambda>h wr. Inr (rfc5444_writer_unregister_postprocessor h wr)) hs wr = Inr (wr\<lparr>processors := []\<rparr>)"
  by (induction hs arbitrary: wr) (simp_all add: rfc5444_writer_unregister_postprocessor_def)

text \<open>What a loop over a message's providers or TLV types leaves alone.\<close>

definition same_rest :: "writer \<Rightarrow> writer \<Rightarrow> bool" where
  "same_rest wr wr' \<longleftrightarrow> wr' = wr\<lparr>msgcreators := msgcreators wr'\<rparr> \<and> map wm_type (msgcreators wr') = map wm_type (msgcreators wr)"

lemma same_rest_refl [simp]: "same_rest wr wr"
  by (simp add: same_rest_def)

lemma same_rest_trans: "same_rest a b \<Longrightarrow> same_rest b c \<Longrightarrow> same_rest a c"
  by (cases a; cases b; cases c) (auto simp: same_rest_def)

lemma same_rest_upd: "(\<And>m. wm_type (f m) = wm_type m) \<Longrightarrow> same_rest wr (upd_msg ty f wr)"
  by (simp add: same_rest_def upd_msg_types) (simp add: upd_msg_def)

lemma same_rest_state: "same_rest wr wr' \<Longrightarrow> w_state wr' = w_state wr"
  by (cases wr; cases wr') (auto simp: same_rest_def)

lemma lazy_free_keeps: "find_msg ty wr = Some m \<Longrightarrow> msg_used m \<Longrightarrow> lazy_free_message ty wr = wr"
  by (auto simp: lazy_free_message_def msg_used_def)

text \<open>A message marked as registered survives the loops; they end with nothing attached to it.\<close>

lemma for_each_providers:
  assumes "w_state wr = WRITER_NONE" and "registry_ok wr" and "find_msg ty wr = Some m" and "wm_registered m" and "wm_providers m = ps"
  shows "\<exists>wr'. for_each (\<lambda>cpr. rfc5444_writer_unregister_content_provider ty cpr []) ps wr = Inr wr' \<and> registry_ok wr' \<and>
    same_rest wr wr' \<and> find_msg ty wr' = Some (m\<lparr>wm_providers := []\<rparr>)"
  using assms
proof (induction ps arbitrary: wr m)
  case Nil
  then show ?case by (intro exI [of _ wr]) simp
next
  case (Cons p ps)
  let ?f = "\<lambda>m. m\<lparr>wm_providers := remove1 p (wm_providers m)\<rparr>" let ?w = "upd_msg ty ?f wr"
  have m': "find_msg ty ?w = Some (?f m)" by (rule find_msg_upd [OF Cons.prems(3)]) simp
  have step: "rfc5444_writer_unregister_content_provider ty p [] wr = Inr ?w"
    using Cons.prems lazy_free_keeps [OF m']
    by (simp add: rfc5444_writer_unregister_content_provider_def in_state_def msg_used_def)
  have ok: "registry_ok ?w" by (rule registry_unregister_content_provider [OF Cons.prems(2) step])
  have same: "same_rest wr ?w" by (rule same_rest_upd) simp
  from Cons.IH [OF _ ok m'] Cons.prems same_rest_state [OF same] obtain wr' where
    "for_each (\<lambda>cpr. rfc5444_writer_unregister_content_provider ty cpr []) ps ?w = Inr wr'" "registry_ok wr'"
    "same_rest ?w wr'" "find_msg ty wr' = Some (m\<lparr>wm_providers := []\<rparr>)" by auto
  with step same_rest_trans [OF same] show ?case by (intro exI [of _ wr']) simp
qed

lemma find_msg_map_all:
  assumes "find_msg ty wr = Some m" and "\<And>m. wm_type (f m) = wm_type m"
  shows "find_msg ty (wr\<lparr>msgcreators := map f (msgcreators wr)\<rparr>) = Some (f m)"
proof -
  have "find (\<lambda>m. wm_type m = ty) ms = Some m \<Longrightarrow> find (\<lambda>m. wm_type m = ty) (map f ms) = Some (f m)" for ms
    by (induction ms) (auto simp: assms(2) split: if_splits)
  with assms(1) show ?thesis by (simp add: find_msg_def tree_find_def)
qed

lemma for_each_msg_tlvtypes:
  assumes "w_state wr = WRITER_NONE" and "registry_ok wr" and "find_msg ty wr = Some m" and "wm_registered m" and "wm_tlvtypes m = ts"
  shows "\<exists>wr'. for_each rfc5444_writer_unregister_addrtlvtype ts wr = Inr wr' \<and> registry_ok wr' \<and>
    same_rest wr wr' \<and> find_msg ty wr' = Some (m\<lparr>wm_tlvtypes := []\<rparr>)"
  using assms
proof (induction ts arbitrary: wr m)
  case Nil
  then show ?case by (intro exI [of _ wr]) simp
next
  case (Cons t ts)
  let ?f = "\<lambda>m. m\<lparr>wm_tlvtypes := remove1 t (wm_tlvtypes m)\<rparr>" let ?w = "wr\<lparr>msgcreators := map ?f (msgcreators wr)\<rparr>"
  from find_msg_mem [OF Cons.prems(3)] have m: "m \<in> set (msgcreators wr)" "wm_type m = ty" by auto
  with Cons.prems(2,5) have creator: "tt_creator (tlvtypes wr t) = Some ty"
    by (auto simp: registry_ok_def registry_but_def msg_ok_def)
  with Cons.prems(2) have "t \<notin> set (addr_tlvtype_head wr)" by (auto simp: registry_ok_def registry_but_def)
  then have w: "wr\<lparr>addr_tlvtype_head := remove1 t (addr_tlvtype_head wr), msgcreators := map ?f (msgcreators wr)\<rparr> = ?w"
    by (simp add: remove1_idem)
  have added: "tlvtype_added t wr" using m(1) Cons.prems(5) unfolding tlvtype_added_def by (metis list.set_intros(1))
  have m': "find_msg ty ?w = Some (?f m)" by (rule find_msg_map_all [OF Cons.prems(3)]) simp
  have step: "rfc5444_writer_unregister_addrtlvtype t wr = Inr ?w"
    using Cons.prems(1,4) added creator lazy_free_keeps [OF m'] w
    by (simp add: rfc5444_writer_unregister_addrtlvtype_def in_state_def msg_used_def)
  have ok: "registry_ok ?w" by (rule registry_unregister_addrtlvtype [OF Cons.prems(2) step])
  have same: "same_rest wr ?w" by (simp add: same_rest_def o_def)
  from Cons.IH [OF _ ok m'] Cons.prems same_rest_state [OF same] obtain wr' where
    "for_each rfc5444_writer_unregister_addrtlvtype ts ?w = Inr wr'" "registry_ok wr'"
    "same_rest ?w wr'" "find_msg ty wr' = Some (m\<lparr>wm_tlvtypes := []\<rparr>)" by auto
  with step same_rest_trans [OF same] show ?case by (intro exI [of _ wr']) simp
qed

lemma for_each_generic_tlvtypes:
  assumes "w_state wr = WRITER_NONE" and "registry_ok wr" and "addr_tlvtype_head wr = ts"
  shows "for_each rfc5444_writer_unregister_addrtlvtype ts wr = Inr (wr\<lparr>addr_tlvtype_head := []\<rparr>)"
  using assms
proof (induction ts arbitrary: wr)
  case Nil
  then show ?case by simp
next
  case (Cons t ts)
  from Cons.prems have creator: "tt_creator (tlvtypes wr t) = None" by (auto simp: registry_ok_def registry_but_def)
  have "remove1 t (wm_tlvtypes m) = wm_tlvtypes m" if "m \<in> set (msgcreators wr)" for m
    using that creator Cons.prems(2) by (intro remove1_idem) (auto simp: registry_ok_def registry_but_def msg_ok_def)
  then have same: "map (\<lambda>m. m\<lparr>wm_tlvtypes := remove1 t (wm_tlvtypes m)\<rparr>) (msgcreators wr) = msgcreators wr"
    by (intro map_idI) simp
  have step: "rfc5444_writer_unregister_addrtlvtype t wr = Inr (wr\<lparr>addr_tlvtype_head := ts\<rparr>)"
    using Cons.prems creator same
    by (simp add: rfc5444_writer_unregister_addrtlvtype_def in_state_def tlvtype_added_def)
  have "registry_ok (wr\<lparr>addr_tlvtype_head := ts\<rparr>)" by (rule registry_unregister_addrtlvtype [OF Cons.prems(2) step])
  from Cons.IH [OF _ this] Cons.prems(1) step show ?case by simp
qed

lemma cleanup_message_spec:
  assumes "w_state wr = WRITER_NONE" and "registry_ok wr" and "find_msg ty wr \<noteq> None"
  shows "\<exists>wr'. cleanup_message ty wr = Inr wr' \<and> registry_ok wr' \<and> w_state wr' = WRITER_NONE \<and>
    map wm_type (msgcreators wr') = filter (\<lambda>t. t \<noteq> ty) (map wm_type (msgcreators wr)) \<and>
    pkthandlers wr' = pkthandlers wr \<and> targets wr' = targets wr \<and> addr_tlvtype_head wr' = addr_tlvtype_head wr \<and>
    processors wr' = processors wr \<and> forwarding_processors wr' = forwarding_processors wr"
proof -
  let ?w0 = "upd_msg ty (\<lambda>m. m\<lparr>wm_registered := True\<rparr>) wr"
  from assms(3) obtain m where m: "find_msg ty wr = Some m" by blast
  let ?m = "m\<lparr>wm_registered := True\<rparr>"
  have m0: "find_msg ty ?w0 = Some ?m" by (rule find_msg_upd [OF m]) simp
  have ok0: "registry_ok ?w0"
    by (rule registry_but_used [OF registry_upd_msg [OF registry_but_weaken [OF assms(2)]] m0]) (simp_all add: msg_used_def)
  have same0: "same_rest wr ?w0" by (rule same_rest_upd) simp
  from for_each_providers [OF _ ok0 m0] assms(1) obtain w1 where w1:
    "for_each (\<lambda>cpr. rfc5444_writer_unregister_content_provider ty cpr []) (wm_providers ?m) ?w0 = Inr w1" "registry_ok w1"
    "same_rest ?w0 w1" "find_msg ty w1 = Some (?m\<lparr>wm_providers := []\<rparr>)" by auto
  have same1: "same_rest wr w1" by (rule same_rest_trans [OF same0 w1(3)])
  with for_each_msg_tlvtypes [OF _ w1(2,4)] assms(1) same_rest_state obtain w2 where w2:
    "for_each rfc5444_writer_unregister_addrtlvtype (wm_tlvtypes m) w1 = Inr w2" "registry_ok w2"
    "same_rest w1 w2" "find_msg ty w2 = Some (?m\<lparr>wm_providers := [], wm_tlvtypes := []\<rparr>)" by fastforce
  have same2: "same_rest wr w2" by (rule same_rest_trans [OF same1 w2(3)])
  let ?w3 = "upd_msg ty (\<lambda>m. m\<lparr>wm_registered := False\<rparr>) (writer_free_addresses ty w2)"
  let ?g = "\<lambda>m. m\<lparr>wm_addrs := [], wm_addr_head := [], wm_nonmandatory := []\<rparr>"
  have "find_msg ty (upd_msg ty ?g w2) = Some (?g (?m\<lparr>wm_providers := [], wm_tlvtypes := []\<rparr>))"
    by (rule find_msg_upd [OF w2(4)]) simp
  then have "find_msg ty (writer_free_addresses ty w2) = Some (?g (?m\<lparr>wm_providers := [], wm_tlvtypes := []\<rparr>))"
    by (simp add: writer_free_addresses_def find_msg_def)
  then have m3: "find_msg ty ?w3 = Some (?g (?m\<lparr>wm_providers := [], wm_tlvtypes := [], wm_registered := False\<rparr>))"
    by (drule_tac f = "\<lambda>m. m\<lparr>wm_registered := False\<rparr>" in find_msg_upd) simp_all
  let ?w4 = "?w3\<lparr>msgcreators := filter (\<lambda>m. wm_type m \<noteq> ty) (msgcreators ?w3)\<rparr>"
  have free: "lazy_free_message ty ?w3 = ?w4" using m3 by (simp add: lazy_free_message_def)
  have state: "w_state w2 = WRITER_NONE" using same_rest_state [OF same2] assms(1) by simp
  then have step: "rfc5444_writer_unregister_message ty w2 = Inr ?w4"
    using w2(4) free by (simp add: rfc5444_writer_unregister_message_def in_state_def Let_def)
  have run: "cleanup_message ty wr = Inr ?w4"
    using m0 w1(1,4) w2(1) step by (simp add: cleanup_message_def)
  have types: "map wm_type (msgcreators ?w3) = map wm_type (msgcreators w2)"
    by (simp add: upd_msg_types) (simp add: writer_free_addresses_def upd_msg_types)
  have "map wm_type (msgcreators ?w4) = filter (\<lambda>t. t \<noteq> ty) (map wm_type (msgcreators ?w3))"
    by (simp add: filter_map o_def)
  then have kept: "map wm_type (msgcreators ?w4) = filter (\<lambda>t. t \<noteq> ty) (map wm_type (msgcreators wr))"
    using types same2 by (simp only: same_rest_def)
  have rest: "pkthandlers w2 = pkthandlers wr \<and> targets w2 = targets wr \<and> addr_tlvtype_head w2 = addr_tlvtype_head wr \<and>
      processors w2 = processors wr \<and> forwarding_processors w2 = forwarding_processors wr"
    using same2 by (cases wr; cases w2) (simp add: same_rest_def)
  have ok4: "registry_ok ?w4" by (rule registry_unregister_message [OF w2(2) step])
  show ?thesis
    by (rule exI [of _ ?w4], intro conjI run ok4 kept)
      (use rest state in \<open>simp_all add: upd_msg_def writer_free_addresses_def\<close>)
qed

lemma for_each_messages:
  assumes "w_state wr = WRITER_NONE" and "registry_ok wr" and "map wm_type (msgcreators wr) = tys"
  shows "\<exists>wr'. for_each cleanup_message tys wr = Inr wr' \<and> registry_ok wr' \<and> w_state wr' = WRITER_NONE \<and> msgcreators wr' = [] \<and>
    pkthandlers wr' = pkthandlers wr \<and> targets wr' = targets wr \<and> addr_tlvtype_head wr' = addr_tlvtype_head wr \<and>
    processors wr' = processors wr \<and> forwarding_processors wr' = forwarding_processors wr"
  using assms
proof (induction tys arbitrary: wr)
  case Nil
  then show ?case by (intro exI [of _ wr]) simp
next
  case (Cons ty tys)
  from Cons.prems(3) have "ty \<in> set (map wm_type (msgcreators wr))" by simp
  then have "find_msg ty wr \<noteq> None" by (simp add: find_msg_None)
  from cleanup_message_spec [OF Cons.prems(1,2) this] obtain w where w: "cleanup_message ty wr = Inr w" "registry_ok w"
    "w_state w = WRITER_NONE" "map wm_type (msgcreators w) = filter (\<lambda>t. t \<noteq> ty) (map wm_type (msgcreators wr))"
    "pkthandlers w = pkthandlers wr" "targets w = targets wr" "addr_tlvtype_head w = addr_tlvtype_head wr"
    "processors w = processors wr" "forwarding_processors w = forwarding_processors wr" by blast
  have "distinct (ty # tys)" using Cons.prems(2,3) by (simp add: registry_ok_def registry_but_def)
  then have "map wm_type (msgcreators w) = tys" using w(4) Cons.prems(3) by (auto simp: filter_id_conv)
  from Cons.IH [OF w(3,2) this] w show ?case by simp
qed

lemma cleanup_empties:
  assumes "registry_ok wr" and "w_state wr = WRITER_NONE"
  shows "\<exists>wr'. rfc5444_writer_cleanup wr = Inr wr' \<and> msgcreators wr' = [] \<and> pkthandlers wr' = [] \<and> targets wr' = [] \<and>
    addr_tlvtype_head wr' = [] \<and> processors wr' = [] \<and> forwarding_processors wr' = forwarding_processors wr"
proof -
  let ?w1 = "wr\<lparr>pkthandlers := [], targets := []\<rparr>" let ?w2 = "?w1\<lparr>addr_tlvtype_head := []\<rparr>" let ?w3 = "?w2\<lparr>processors := []\<rparr>"
  have "registry_ok ?w1" and ok: "registry_ok ?w3" using assms(1) by (simp_all add: registry_ok_def registry_but_def)
  then have tlvtypes: "for_each rfc5444_writer_unregister_addrtlvtype (addr_tlvtype_head ?w1) ?w1 = Inr ?w2"
    using for_each_generic_tlvtypes [of ?w1] assms(2) by simp
  from for_each_messages [OF _ ok refl] assms(2) obtain wr' where
    "for_each cleanup_message (map wm_type (msgcreators ?w3)) ?w3 = Inr wr'" "msgcreators wr' = []" "pkthandlers wr' = []"
    "targets wr' = []" "addr_tlvtype_head wr' = []" "processors wr' = []" "forwarding_processors wr' = forwarding_processors wr"
    by auto
  then show ?thesis
    using assms(2) tlvtypes
    by (simp add: rfc5444_writer_cleanup_def in_state_def for_each_pkthandlers for_each_targets for_each_processors)
qed

section \<open>Every sequence of registrations\<close>

text \<open>
  The steps: a call of one of the functions that register or unregister, when it returns. A call that fails an assertion or
  registers a provider, handler, packet handler or TLV type that is registered already has no successor; a target that is
  registered is one that is not in the list.
\<close>

inductive registry_step :: "writer \<Rightarrow> writer \<Rightarrow> bool" where
  "rfc5444_writer_register_addrtlvtype t ty wr = Inr (r, wr') \<Longrightarrow> registry_step wr wr'"
| "rfc5444_writer_unregister_addrtlvtype t wr = Inr wr' \<Longrightarrow> registry_step wr wr'"
| "rfc5444_writer_register_msgcontentprovider ty8 cpr ts wr = Inr (r, wr') \<Longrightarrow> registry_step wr wr'"
| "rfc5444_writer_unregister_content_provider ty8 cpr ts wr = Inr wr' \<Longrightarrow> registry_step wr wr'"
| "rfc5444_writer_register_message ty8 spec wr = Inr (m, wr') \<Longrightarrow> registry_step wr wr'"
| "rfc5444_writer_unregister_message ty8 wr = Inr wr' \<Longrightarrow> registry_step wr wr'"
| "rfc5444_writer_register_postprocessor h wr = Inr wr' \<Longrightarrow> registry_step wr wr'"
| "registry_step wr (rfc5444_writer_unregister_postprocessor h wr)"
| "rfc5444_writer_register_forward_handler h wr = Inr wr' \<Longrightarrow> registry_step wr wr'"
| "registry_step wr (rfc5444_writer_unregister_forward_handler h wr)"
| "rfc5444_writer_register_pkthandler p wr = Inr wr' \<Longrightarrow> registry_step wr wr'"
| "rfc5444_writer_unregister_pkthandler p wr = Inr wr' \<Longrightarrow> registry_step wr wr'"
| "rfc5444_writer_register_target tg wr = Inr wr' \<Longrightarrow> registry_step wr wr'"
| "rfc5444_writer_unregister_target i wr = Inr wr' \<Longrightarrow> registry_step wr wr'"

lemma registry_register_addrtlvtype_api:
  assumes "registry_ok wr" and "rfc5444_writer_register_addrtlvtype t ty wr = Inr (r, wr')"
  shows "registry_ok wr'"
proof (cases "0 \<le> ty \<and> ty \<le> 255")
  case True
  obtain ok w where w: "get_message (of_int ty) wr = (ok, w)" by (metis surj_pair)
  note got = registry_get_message [OF assms(1) w]
  from got assms(2) w True show ?thesis
    by (cases ok) (auto simp: rfc5444_writer_register_addrtlvtype_def outcome_simps dest: registry_register_addrtlvtype)
next
  case False
  with assms show ?thesis
    by (auto simp: rfc5444_writer_register_addrtlvtype_def outcome_simps dest: registry_register_generic split: if_splits)
qed

text \<open>None of them changes the writer's state machine.\<close>

lemma get_message_state: "w_state (snd (get_message ty wr)) = w_state wr"
  unfolding get_message_def writer_calloc_def by (simp add: Let_def del: writer_calloc_fields)

lemma lazy_free_state [simp]: "w_state (lazy_free_message ty wr) = w_state wr"
  by (simp add: lazy_free_message_def split: option.split)

lemma register_addrtlvtype_state: "register_addrtlvtype msg t wr = Inr wr' \<Longrightarrow> w_state wr' = w_state wr"
  by (auto simp: register_addrtlvtype_def Let_def outcome_simps split: option.splits)

lemma register_addrtlvtypes_state: "register_addrtlvtypes ty ts wr = Inr wr' \<Longrightarrow> w_state wr' = w_state wr"
  by (induction ts arbitrary: wr) (auto simp: outcome_simps dest: register_addrtlvtype_state)

lemma unregister_addrtlvtype_state: "rfc5444_writer_unregister_addrtlvtype t wr = Inr wr' \<Longrightarrow> w_state wr' = w_state wr"
  by (auto simp: rfc5444_writer_unregister_addrtlvtype_def Let_def outcome_simps split: option.splits if_splits)

lemma unregister_addrtlvtypes_state: "unregister_addrtlvtypes ts wr = Inr wr' \<Longrightarrow> w_state wr' = w_state wr"
  by (induction ts arbitrary: wr) (auto simp: outcome_simps dest: unregister_addrtlvtype_state)

lemma free_addresses_state [simp]: "w_state (writer_free_addresses ty wr) = w_state wr"
  by (simp add: writer_free_addresses_def)

lemmas registry_state = register_addrtlvtype_state register_addrtlvtypes_state unregister_addrtlvtype_state unregister_addrtlvtypes_state

lemma register_addrtlvtype_api_state:
  "rfc5444_writer_register_addrtlvtype t ty wr = Inr (r, wr') \<Longrightarrow> w_state wr' = w_state wr"
  using get_message_state [of "of_int ty" wr]
  by (auto simp: rfc5444_writer_register_addrtlvtype_def outcome_simps dest: registry_state split: if_splits prod.splits)

lemma register_content_provider_state:
  "rfc5444_writer_register_msgcontentprovider ty cpr ts wr = Inr (r, wr') \<Longrightarrow> w_state wr' = w_state wr"
  using get_message_state [of ty wr]
  by (auto simp: rfc5444_writer_register_msgcontentprovider_def outcome_simps dest: registry_state split: if_splits prod.splits)

lemma register_message_state:
  "rfc5444_writer_register_message ty spec wr = Inr (m, wr') \<Longrightarrow> w_state wr' = w_state wr"
  using get_message_state [of ty wr]
  by (auto simp: rfc5444_writer_register_message_def outcome_simps split: if_splits prod.splits option.splits)

lemma unregister_content_provider_state:
  "rfc5444_writer_unregister_content_provider ty cpr ts wr = Inr wr' \<Longrightarrow> w_state wr' = w_state wr"
  by (auto simp: rfc5444_writer_unregister_content_provider_def outcome_simps dest: registry_state split: if_splits option.splits)

lemma unregister_message_state: "rfc5444_writer_unregister_message ty wr = Inr wr' \<Longrightarrow> w_state wr' = w_state wr"
  by (auto simp: rfc5444_writer_unregister_message_def outcome_simps Let_def split: if_splits)

lemmas registry_api_state = register_addrtlvtype_api_state unregister_addrtlvtype_state register_content_provider_state
  unregister_content_provider_state register_message_state unregister_message_state

lemmas registry_api_keeps = registry_register_addrtlvtype_api registry_unregister_addrtlvtype registry_register_content_provider
  registry_unregister_content_provider registry_register_message registry_unregister_message

lemmas registry_other_defs = rfc5444_writer_register_postprocessor_def rfc5444_writer_unregister_postprocessor_def
  rfc5444_writer_register_forward_handler_def rfc5444_writer_unregister_forward_handler_def
  rfc5444_writer_register_pkthandler_def rfc5444_writer_unregister_pkthandler_def
  rfc5444_writer_register_target_def rfc5444_writer_unregister_target_def

lemma registry_same [simp]:
  "registry_ok (wr\<lparr>pkthandlers := ps\<rparr>) = registry_ok wr" "registry_ok (wr\<lparr>targets := ts\<rparr>) = registry_ok wr"
  "registry_ok (wr\<lparr>processors := hs\<rparr>) = registry_ok wr" "registry_ok (wr\<lparr>forwarding_processors := hs\<rparr>) = registry_ok wr"
  by (simp_all add: registry_ok_def registry_but_def)

lemma registry_other:
  "rfc5444_writer_register_pkthandler p wr = Inr wr' \<Longrightarrow> registry_ok wr' = registry_ok wr \<and> w_state wr' = w_state wr"
  "rfc5444_writer_unregister_pkthandler p wr = Inr wr' \<Longrightarrow> registry_ok wr' = registry_ok wr \<and> w_state wr' = w_state wr"
  "rfc5444_writer_register_target tg wr = Inr wr' \<Longrightarrow> registry_ok wr' = registry_ok wr \<and> w_state wr' = w_state wr"
  "rfc5444_writer_unregister_target i wr = Inr wr' \<Longrightarrow> registry_ok wr' = registry_ok wr \<and> w_state wr' = w_state wr"
  "rfc5444_writer_register_postprocessor h wr = Inr wr' \<Longrightarrow> registry_ok wr' = registry_ok wr \<and> w_state wr' = w_state wr"
  "rfc5444_writer_register_forward_handler h wr = Inr wr' \<Longrightarrow> registry_ok wr' = registry_ok wr \<and> w_state wr' = w_state wr"
  by (auto simp: registry_other_defs outcome_simps)

lemma registry_step_keeps:
  assumes "registry_step wr wr'" and "registry_ok wr"
  shows "registry_ok wr' \<and> w_state wr' = w_state wr"
  using assms
proof cases
  case 1 then show ?thesis using assms(2) registry_api_keeps(1) registry_api_state(1) by blast
next
  case 2 then show ?thesis using assms(2) registry_api_keeps(2) registry_api_state(2) by blast
next
  case 3 then show ?thesis using assms(2) registry_api_keeps(3) registry_api_state(3) by blast
next
  case 4 then show ?thesis using assms(2) registry_api_keeps(4) registry_api_state(4) by blast
next
  case 5 then show ?thesis using assms(2) registry_api_keeps(5) registry_api_state(5) by blast
next
  case 6 then show ?thesis using assms(2) registry_api_keeps(6) registry_api_state(6) by blast
qed (use assms(2) registry_other in \<open>auto simp: registry_other_defs(1-4)\<close>)

interpretation writer_registry: step_system
  "\<lambda>wr. \<exists>wr0. rfc5444_writer_init wr0 = Inr wr" registry_step "\<lambda>wr. registry_ok wr \<and> w_state wr = WRITER_NONE"
proof unfold_locales
  fix wr assume "\<exists>wr0. rfc5444_writer_init wr0 = Inr wr"
  then show "registry_ok wr \<and> w_state wr = WRITER_NONE"
    by (auto simp: rfc5444_writer_init_def outcome_simps registry_ok_def registry_but_def)
qed (use registry_step_keeps in auto)

text \<open>
  C39. After the writer has been initialised and objects have been registered and unregistered with it, in any order and as
  long as none is registered while it already is (the code does not check this for providers, handlers and packet handlers, and
  a second registration corrupts the list or tree the object stands in), every message object is in use (none has leaked), every TLV type on its list points back to it, and no type has two objects;
  \<open>rfc5444_writer_cleanup\<close> returns, and leaves no message, TLV type, packet handler, target and postprocessor behind.
  It leaves the forward handlers where they are.
\<close>

theorem writer_cleanup_empties:
  assumes "rfc5444_writer_init wr0 = Inr wr1" and "run registry_step wr1 wr"
  shows "distinct (map wm_type (msgcreators wr)) \<and>
    (\<forall>m \<in> set (msgcreators wr). msg_used m \<and> msg_ok (tlvtypes wr) m) \<and>
    (\<exists>wr'. rfc5444_writer_cleanup wr = Inr wr' \<and> msgcreators wr' = [] \<and> pkthandlers wr' = [] \<and> targets wr' = [] \<and>
       addr_tlvtype_head wr' = [] \<and> processors wr' = [] \<and> forwarding_processors wr' = forwarding_processors wr)"
proof -
  from assms have inv: "registry_ok wr" "w_state wr = WRITER_NONE"
    using writer_registry.inv_reachable [OF _ assms(2)] by blast+
  with cleanup_empties [OF inv] show ?thesis by (simp add: registry_ok_def registry_but_def)
qed

text \<open>A message type and a provider with a TLV type for it are registered.\<close>

definition writer_zero :: writer where
  "writer_zero = writer_ref\<lparr>msgcreators := [], w_msg_size := 8, w_msg := (w_msg writer_ref)\<lparr>tw_buffer := replicate 8 0\<rparr>,
     w_state := WRITER_NONE\<rparr>"

theorem writer_cleanup_empties_witness:
  "\<exists>wr1 wr wr'. rfc5444_writer_init writer_zero = Inr wr1 \<and> run registry_step wr1 wr \<and> length (msgcreators wr) = 1 \<and>
     rfc5444_writer_cleanup wr = Inr wr' \<and> msgcreators wr' = [] \<and> forwarding_processors wr' = forwarding_processors wr"
proof -
  let ?all = "bnd (rfc5444_writer_init writer_zero) (\<lambda>wr1. bnd (rfc5444_writer_register_message 10 False wr1) (\<lambda>(_, wr2).
    bnd (rfc5444_writer_register_msgcontentprovider 10 \<lparr>cp_id = 1, cp_priority = 1\<rparr> [5] wr2) (\<lambda>(_, wr3).
    Inr (length (msgcreators wr3)))))"
  have "?all = Inr 1" by code_simp
  then obtain wr1 m wr2 r wr3 where step: "rfc5444_writer_init writer_zero = Inr wr1"
    "rfc5444_writer_register_message 10 False wr1 = Inr (m, wr2)"
    "rfc5444_writer_register_msgcontentprovider 10 \<lparr>cp_id = 1, cp_priority = 1\<rparr> [5] wr2 = Inr (r, wr3)"
    "length (msgcreators wr3) = 1"
    by (auto simp: outcome_simps split: prod.splits)
  have "registry_step wr1 wr2" and "registry_step wr2 wr3"
    using registry_step.intros(5) [OF step(2)] registry_step.intros(3) [OF step(3)] by simp_all
  then have "run registry_step wr1 wr3" by (rule run_two)
  with writer_cleanup_empties [OF step(1) this] step show ?thesis by blast
qed

end
