(* ===== verification/OonfList.thy ===== *)
theory OonfList
  imports Prelude
begin

text \<open>
  The doubly linked lists of \<open>core/contrib/oonf_api/common/list.h\<close>. Memory is a map from addresses to link
  fields, NULL is \<open>None\<close>; following a NULL pointer is a fault. \<open>dlist m h xs\<close> says that the memory holds a
  well-formed circular list with head \<open>h\<close> and the elements \<open>xs\<close>, and each operation is shown to do to the
  pointers what the corresponding list operation does to \<open>xs\<close>. A \<open>container_of\<close> of the address of a member
  is the element itself here.
\<close>

section \<open>Operations\<close>

type_synonym addr = nat

record list_entity =
  le_next :: "addr option"
  le_prev :: "addr option"

type_synonym links = "addr \<Rightarrow> list_entity"

definition set_next :: "addr \<Rightarrow> addr option \<Rightarrow> links \<Rightarrow> links" where
  "set_next a p m = m(a := (m a)\<lparr>le_next := p\<rparr>)"

definition set_prev :: "addr \<Rightarrow> addr option \<Rightarrow> links \<Rightarrow> links" where
  "set_prev a p m = m(a := (m a)\<lparr>le_prev := p\<rparr>)"

definition oonf_list_init_head :: "addr \<Rightarrow> links \<Rightarrow> links" where
  "oonf_list_init_head head m = set_next head (Some head) (set_prev head (Some head) m)"

definition oonf_list_init_node :: "addr \<Rightarrow> links \<Rightarrow> links" where
  "oonf_list_init_node entity m = set_next entity None (set_prev entity None m)"

text \<open>\<open>__oonf_list_add\<close> and \<open>__oonf_list_remove\<close>.\<close>

definition list_add_between :: "addr option \<Rightarrow> addr option \<Rightarrow> addr \<Rightarrow> links \<Rightarrow> links outcome" where
  "list_add_between prv nxt new m =
     (let m = set_prev new prv (set_next new nxt m) in
      bnd (deref nxt) (\<lambda>n. let m = set_prev n (Some new) m in
      bnd (deref prv) (\<lambda>p. Inr (set_next p (Some new) m))))"

definition oonf_list_add_head :: "addr \<Rightarrow> addr \<Rightarrow> links \<Rightarrow> links outcome" where
  "oonf_list_add_head head new m = list_add_between (Some head) (le_next (m head)) new m"

definition oonf_list_add_tail :: "addr \<Rightarrow> addr \<Rightarrow> links \<Rightarrow> links outcome" where
  "oonf_list_add_tail head new m = list_add_between (le_prev (m head)) (Some head) new m"

definition oonf_list_add_before :: "addr \<Rightarrow> addr \<Rightarrow> links \<Rightarrow> links outcome" where
  "oonf_list_add_before pos new m = list_add_between (le_prev (m pos)) (Some pos) new m"

definition oonf_list_add_after :: "addr \<Rightarrow> addr \<Rightarrow> links \<Rightarrow> links outcome" where
  "oonf_list_add_after pos new m = list_add_between (Some pos) (le_next (m pos)) new m"

definition list_unlink :: "addr option \<Rightarrow> addr option \<Rightarrow> links \<Rightarrow> links outcome" where
  "list_unlink prv nxt m =
     bnd (deref prv) (\<lambda>p. let m = set_next p nxt m in bnd (deref nxt) (\<lambda>n. Inr (set_prev n prv m)))"

definition oonf_list_remove :: "addr \<Rightarrow> links \<Rightarrow> links outcome" where
  "oonf_list_remove entity m =
     bnd (list_unlink (le_prev (m entity)) (le_next (m entity)) m) (\<lambda>m. Inr (oonf_list_init_node entity m))"

definition oonf_list_is_empty :: "addr \<Rightarrow> links \<Rightarrow> bool" where
  "oonf_list_is_empty head m \<longleftrightarrow> le_next (m head) = Some head \<and> le_prev (m head) = Some head"

definition oonf_list_is_node_added :: "addr \<Rightarrow> links \<Rightarrow> bool" where
  "oonf_list_is_node_added node m \<longleftrightarrow> le_next (m node) \<noteq> None \<and> le_prev (m node) \<noteq> None"

definition oonf_list_is_first :: "addr \<Rightarrow> addr \<Rightarrow> links \<Rightarrow> bool" where
  "oonf_list_is_first head entity m \<longleftrightarrow> le_next (m head) = Some entity"

definition oonf_list_is_last :: "addr \<Rightarrow> addr \<Rightarrow> links \<Rightarrow> bool" where
  "oonf_list_is_last head entity m \<longleftrightarrow> le_prev (m head) = Some entity"

text \<open>\<open>oonf_list_merge\<close>: every pointer is read when the statement that uses it runs.\<close>

definition oonf_list_merge :: "addr \<Rightarrow> addr \<Rightarrow> links \<Rightarrow> links outcome" where
  "oonf_list_merge add_to remove_from m =
     (if oonf_list_is_empty remove_from m then Inr m
      else bnd (deref (le_prev (m add_to))) (\<lambda>a. let m = set_next a (le_next (m remove_from)) m in
           bnd (deref (le_next (m remove_from))) (\<lambda>r. let m = set_prev r (le_prev (m add_to)) m;
                 m = set_prev add_to (le_prev (m remove_from)) m in
           bnd (deref (le_prev (m remove_from))) (\<lambda>r. let m = set_next r (Some add_to) m in
           Inr (oonf_list_init_head remove_from m)))))"

text \<open>
  \<open>oonf_list_for_element_range\<close>: the elements visited from \<open>e\<close> on, until the element whose predecessor is
  \<open>stop\<close>; \<open>None\<close> when the fuel ran out. \<open>oonf_list_for_each_element\<close> starts with the head's successor and
  reads the head's predecessor in every test, which does not change during a loop that leaves the list alone.
\<close>

fun for_element_range :: "nat \<Rightarrow> addr option \<Rightarrow> addr option \<Rightarrow> links \<Rightarrow> addr list outcome option" where
  "for_element_range 0 e stop m = None"
| "for_element_range (Suc k) e stop m =
     (case e of
        None \<Rightarrow> Some (Inl NullDeref)
      | Some a \<Rightarrow> if le_prev (m a) = stop then Some (Inr [])
                  else map_option (\<lambda>r. bnd r (\<lambda>as. Inr (a # as))) (for_element_range k (le_next (m a)) stop m))"

definition oonf_list_for_each_element :: "nat \<Rightarrow> addr \<Rightarrow> links \<Rightarrow> addr list outcome option" where
  "oonf_list_for_each_element k head m = for_element_range k (le_next (m head)) (le_prev (m head)) m"

text \<open>
  \<open>oonf_list_for_each_element_safe\<close> with a body that removes its element: the successor is remembered before the
  body runs. The elements removed and the memory.
\<close>

fun remove_each_safe :: "nat \<Rightarrow> addr \<Rightarrow> addr option \<Rightarrow> addr option \<Rightarrow> links \<Rightarrow> (addr list \<times> links) outcome option" where
  "remove_each_safe 0 head e ptr m = None"
| "remove_each_safe (Suc k) head e ptr m =
     (case e of
        None \<Rightarrow> Some (Inl NullDeref)
      | Some a \<Rightarrow> if le_prev (m a) = le_prev (m head) then Some (Inr ([], m))
                  else case oonf_list_remove a m of
                    Inl f \<Rightarrow> Some (Inl f)
                  | Inr m' \<Rightarrow> (case ptr of
                      None \<Rightarrow> Some (Inl NullDeref)
                    | Some b \<Rightarrow> map_option (\<lambda>r. bnd r (\<lambda>(as, m). Inr (a # as, m)))
                                  (remove_each_safe k head (Some b) (le_next (m' b)) m')))"

lemma set_simps [simp]:
  "le_next (set_next a p m x) = (if x = a then p else le_next (m x))" "le_prev (set_next a p m x) = le_prev (m x)"
  "le_next (set_prev a p m x) = le_next (m x)" "le_prev (set_prev a p m x) = (if x = a then p else le_prev (m x))"
  by (simp_all add: set_next_def set_prev_def)

lemma set_other [simp]: "x \<noteq> a \<Longrightarrow> set_next a p m x = m x" "x \<noteq> a \<Longrightarrow> set_prev a p m x = m x"
  by (simp_all add: set_next_def set_prev_def)

lemma init_head_simps [simp]:
  "le_next (oonf_list_init_head h m x) = (if x = h then Some h else le_next (m x))"
  "le_prev (oonf_list_init_head h m x) = (if x = h then Some h else le_prev (m x))"
  by (simp_all add: oonf_list_init_head_def)

lemma init_node_simps [simp]:
  "le_next (oonf_list_init_node h m x) = (if x = h then None else le_next (m x))"
  "le_prev (oonf_list_init_node h m x) = (if x = h then None else le_prev (m x))"
  by (simp_all add: oonf_list_init_node_def)

section \<open>Well-formed lists\<close>

text \<open>\<open>linked m ps\<close>: each two neighbours of \<open>ps\<close> point to each other.\<close>

fun linked :: "links \<Rightarrow> addr list \<Rightarrow> bool" where
  "linked m (x # y # ps) \<longleftrightarrow> le_next (m x) = Some y \<and> le_prev (m y) = Some x \<and> linked m (y # ps)"
| "linked m ps \<longleftrightarrow> True"

definition dlist :: "links \<Rightarrow> addr \<Rightarrow> addr list \<Rightarrow> bool" where
  "dlist m h xs \<longleftrightarrow> distinct (h # xs) \<and> linked m (h # xs @ [h])"

lemma linked_append: "linked m (xs @ y # ys) \<longleftrightarrow> linked m (xs @ [y]) \<and> linked m (y # ys)"
proof (induction xs)
  case (Cons x xs)
  then show ?case by (cases xs) auto
qed simp

lemma linked_cong:
  "(\<And>x. x \<in> set (butlast ps) \<Longrightarrow> le_next (m' x) = le_next (m x)) \<Longrightarrow> (\<And>x. x \<in> set (tl ps) \<Longrightarrow> le_prev (m' x) = le_prev (m x)) \<Longrightarrow>
     linked m ps \<Longrightarrow> linked m' ps"
  by (induction m ps rule: linked.induct) auto

lemma dlist_empty [simp]: "dlist m h [] \<longleftrightarrow> le_next (m h) = Some h \<and> le_prev (m h) = Some h"
  by (auto simp: dlist_def)

text \<open>The neighbours at a position: \<open>p\<close> is the last of \<open>h # xs\<close>, \<open>n\<close> the first of \<open>ys @ [h]\<close>.\<close>

lemma dlist_split:
  "dlist m h (xs @ ys) \<longleftrightarrow> distinct (h # xs @ ys) \<and> linked m (h # xs) \<and> linked m (ys @ [h]) \<and>
     le_next (m (last (h # xs))) = Some (hd (ys @ [h])) \<and> le_prev (m (hd (ys @ [h]))) = Some (last (h # xs))"
proof -
  obtain as p where p: "h # xs = as @ [p]" by (metis list.distinct(1) rev_exhaust)
  obtain n bs where n: "ys @ [h] = n # bs" by (metis append_is_Nil_conv list.exhaust not_Cons_self2)
  have "h # (xs @ ys) @ [h] = as @ p # n # bs"
    using p n by (metis append.assoc append_Cons append_Nil)
  then have "linked m (h # (xs @ ys) @ [h]) \<longleftrightarrow> linked m (as @ [p]) \<and> le_next (m p) = Some n \<and> le_prev (m n) = Some p \<and> linked m (n # bs)"
    using linked_append [of m as p "n # bs"] by simp
  then show ?thesis by (auto simp: dlist_def p n)
qed

lemma dlist_ends: "dlist m h xs \<Longrightarrow> le_next (m h) = Some (hd (xs @ [h])) \<and> le_prev (m h) = Some (last (h # xs))"
  using dlist_split [of m h "[]" xs] dlist_split [of m h xs "[]"] by simp

lemma dlist_nexts:
  "dlist m h (xs @ a # ys) \<Longrightarrow> le_prev (m a) = Some (last (h # xs)) \<and> le_next (m a) = Some (hd (ys @ [h]))"
  using dlist_split [of m h xs "a # ys"] dlist_split [of m h "xs @ [a]" ys] by simp

lemma dlist_cong: "(\<And>x. x \<in> set (h # xs) \<Longrightarrow> m' x = m x) \<Longrightarrow> dlist m h xs \<Longrightarrow> dlist m' h xs"
  unfolding dlist_def by (auto intro: linked_cong [of "h # xs @ [h]" m' m] dest: in_set_butlastD)

section \<open>The operations on well-formed lists\<close>

lemma butlast_last_notin: "distinct xs \<Longrightarrow> xs \<noteq> [] \<Longrightarrow> last xs \<notin> set (butlast xs)"
  by (metis append_butlast_last_id distinct_butlast not_distinct_conv_prefix)

lemma hd_notin_tl: "distinct xs \<Longrightarrow> xs \<noteq> [] \<Longrightarrow> hd xs \<notin> set (tl xs)"
  by (cases xs) auto

lemma linked_cons: "ps \<noteq> [] \<Longrightarrow> linked m (x # ps) \<longleftrightarrow> le_next (m x) = Some (hd ps) \<and> le_prev (m (hd ps)) = Some x \<and> linked m ps"
  by (cases ps) auto

lemma linked_snoc: "ps \<noteq> [] \<Longrightarrow> linked m (ps @ [x]) \<longleftrightarrow> linked m ps \<and> le_next (m (last ps)) = Some x \<and> le_prev (m x) = Some (last ps)"
  using linked_append [of m "butlast ps" "last ps" "[x]"] by (simp flip: append_Cons add: append_butlast_last_id) (metis append_butlast_last_id append.assoc append_Cons append_Nil)

lemma add_between_dlist:
  assumes l: "dlist m h (xs @ ys)" and new: "new \<notin> set (h # xs @ ys)" and p: "p = last (h # xs)" and n: "n = hd (ys @ [h])"
  shows "\<exists>m'. list_add_between (Some p) (Some n) new m = Inr m' \<and> dlist m' h (xs @ new # ys) \<and> (\<forall>x. x \<notin> {p, n, new} \<longrightarrow> m' x = m x)"
proof -
  let ?m = "set_next p (Some new) (set_prev n (Some new) (set_prev new (Some p) (set_next new (Some n) m)))"
  from l have d: "distinct (h # xs @ ys)" and lx: "linked m (h # xs)" and ly: "linked m (ys @ [h])"
    by (simp_all only: dlist_split)
  have p_in: "p \<in> set (h # xs)" and n_in: "n \<in> set (ys @ [h])" using p n by (auto simp: hd_append intro: hd_in_set)
  have nb: "x \<noteq> p \<and> x \<noteq> new" if "x \<in> set (butlast (h # xs)) \<or> x \<in> set (butlast (ys @ [h]))" for x
    using that d new p_in butlast_last_notin [of "h # xs"] in_set_butlastD [of x "h # xs"] by (auto simp: p)
  have nt: "x \<noteq> n \<and> x \<noteq> new" if "x \<in> set (tl (h # xs)) \<or> x \<in> set (tl (ys @ [h]))" for x
    using that d new n_in hd_notin_tl [of "ys @ [h]"] list.set_sel(2) [of "ys @ [h]" x] by (auto simp: n)
  have "linked ?m (h # xs)"
    using lx by (rule linked_cong [rotated 2]) (simp_all only: set_simps nb nt disjI1 if_False simp_thms)
  moreover have "linked ?m (ys @ [h])"
    using ly by (rule linked_cong [rotated 2]) (simp_all only: set_simps nb nt disjI2 if_False simp_thms)
  then have "linked ?m ((new # ys) @ [h])"
    using new n p_in n_in by (auto simp: linked_cons)
  moreover have "le_next (?m (last (h # xs))) = Some new" "le_prev (?m new) = Some (last (h # xs))"
    unfolding p [symmetric] using new p_in n_in by auto
  ultimately have "dlist ?m h (xs @ new # ys)"
    using d new by (subst dlist_split) (simp del: last.simps)
  then show ?thesis by (auto simp: list_add_between_def Let_def)
qed

lemma add_after_dlist:
  assumes l: "dlist m h (xs @ a # ys)" and new: "new \<notin> set (h # xs @ a # ys)"
  shows "\<exists>m'. oonf_list_add_after a new m = Inr m' \<and> dlist m' h (xs @ a # new # ys)"
proof -
  from l have "dlist m h ((xs @ [a]) @ ys)" by simp
  from add_between_dlist [OF this _ refl refl, of new] new dlist_split [of m h "xs @ [a]" ys] l show ?thesis
    by (auto simp: oonf_list_add_after_def)
qed

lemma add_before_dlist:
  assumes l: "dlist m h (xs @ a # ys)" and new: "new \<notin> set (h # xs @ a # ys)"
  shows "\<exists>m'. oonf_list_add_before a new m = Inr m' \<and> dlist m' h (xs @ new # a # ys)"
proof -
  from add_between_dlist [OF l new refl refl] l [unfolded dlist_split] show ?thesis
    by (auto simp: oonf_list_add_before_def)
qed

lemma add_head_dlist:
  assumes l: "dlist m h xs" and new: "new \<notin> set (h # xs)"
  shows "\<exists>m'. oonf_list_add_head h new m = Inr m' \<and> dlist m' h (new # xs)"
  using add_between_dlist [of m h "[]" xs new h "hd (xs @ [h])"] new l dlist_ends [OF l]
  by (auto simp: oonf_list_add_head_def)

text \<open>
  Adding to a list. On a well-formed list the four functions that add an element never follow a NULL
  pointer and have the effect their names say, and no other memory changes than the links of the new element
  and of its two neighbours.
\<close>

lemma oonf_list_add_spec:
  assumes l: "dlist m h (xs @ ys)" and new: "new \<notin> set (h # xs @ ys)"
  shows "\<exists>m'. list_add_between (Some (last (h # xs))) (Some (hd (ys @ [h]))) new m = Inr m' \<and> dlist m' h (xs @ new # ys) \<and>
    (\<forall>x. x \<notin> {last (h # xs), hd (ys @ [h]), new} \<longrightarrow> m' x = m x) \<and>
    (xs = [] \<longrightarrow> oonf_list_add_head h new m = Inr m') \<and>
    (ys = [] \<longrightarrow> oonf_list_add_tail h new m = Inr m') \<and>
    (ys \<noteq> [] \<longrightarrow> oonf_list_add_before (hd ys) new m = Inr m') \<and>
    (xs \<noteq> [] \<longrightarrow> oonf_list_add_after (last xs) new m = Inr m')"
proof -
  from l have ends: "le_next (m (last (h # xs))) = Some (hd (ys @ [h]))" "le_prev (m (hd (ys @ [h]))) = Some (last (h # xs))"
    by (simp_all only: dlist_split)
  from add_between_dlist [OF l new refl refl] obtain m' where
    m': "list_add_between (Some (last (h # xs))) (Some (hd (ys @ [h]))) new m = Inr m'" "dlist m' h (xs @ new # ys)"
      "\<forall>x. x \<notin> {last (h # xs), hd (ys @ [h]), new} \<longrightarrow> m' x = m x" by blast
  have "xs = [] \<longrightarrow> oonf_list_add_head h new m = Inr m'"
    using m'(1) ends by (auto simp: oonf_list_add_head_def)
  moreover have "ys = [] \<longrightarrow> oonf_list_add_tail h new m = Inr m'"
    using m'(1) ends by (auto simp: oonf_list_add_tail_def)
  moreover have "ys \<noteq> [] \<longrightarrow> oonf_list_add_before (hd ys) new m = Inr m'"
    using m'(1) ends by (auto simp: oonf_list_add_before_def)
  moreover have "xs \<noteq> [] \<longrightarrow> oonf_list_add_after (last xs) new m = Inr m'"
    using m'(1) ends by (auto simp: oonf_list_add_after_def)
  ultimately show ?thesis using m' by blast
qed

text \<open>A memory with the list 5, 7 at head 0 and the list 8 at head 1, for the concrete inputs.\<close>

definition links_ref :: links where
  "links_ref = (\<lambda>_. \<lparr>le_next = None, le_prev = None\<rparr>)(0 := \<lparr>le_next = Some 5, le_prev = Some 7\<rparr>, 5 := \<lparr>le_next = Some 7, le_prev = Some 0\<rparr>,
     7 := \<lparr>le_next = Some 0, le_prev = Some 5\<rparr>, 1 := \<lparr>le_next = Some 8, le_prev = Some 8\<rparr>, 8 := \<lparr>le_next = Some 1, le_prev = Some 1\<rparr>)"

lemma dlist_ref: "dlist links_ref 0 [5, 7]" "dlist links_ref 1 [8]"
  by (simp_all add: dlist_def links_ref_def)

lemma oonf_list_add_spec_witness:
  "\<exists>m'. oonf_list_add_after 5 6 links_ref = Inr m' \<and> dlist m' 0 [5, 6, 7]"
  using oonf_list_add_spec [of links_ref 0 "[5]" "[7]" 6] dlist_ref by auto

lemma init_head_dlist: "dlist (oonf_list_init_head h m) h []"
  by simp

lemma dlist_remove:
  assumes l: "dlist m h (xs @ a # ys)"
  shows "\<exists>m'. oonf_list_remove a m = Inr m' \<and> dlist m' h (xs @ ys) \<and> \<not> oonf_list_is_node_added a m' \<and>
    (\<forall>x. x \<notin> {last (h # xs), hd (ys @ [h]), a} \<longrightarrow> m' x = m x)"
proof -
  let ?p = "last (h # xs)" and ?n = "hd (ys @ [h])"
  let ?m = "oonf_list_init_node a (set_prev ?n (Some ?p) (set_next ?p (Some ?n) m))"
  from l have d: "distinct (h # xs @ a # ys)" and lx: "linked m (h # xs)" and la: "linked m (a # ys @ [h])"
    by (simp_all add: dlist_split)
  from la have ly: "linked m (ys @ [h])" by (simp add: linked_cons)
  have p_in: "?p \<in> set (h # xs)" and n_in: "?n \<in> set (ys @ [h])" by (auto simp: hd_append intro: hd_in_set)
  have a: "a \<notin> set (h # xs)" "a \<notin> set (ys @ [h])" using d by auto
  have nb: "x \<noteq> ?p \<and> x \<noteq> a" if "x \<in> set (butlast (h # xs)) \<or> x \<in> set (butlast (ys @ [h]))" for x
    using that d a p_in butlast_last_notin [of "h # xs"] in_set_butlastD [of x "h # xs"] by auto
  have nt: "x \<noteq> ?n \<and> x \<noteq> a" if "x \<in> set (tl (h # xs)) \<or> x \<in> set (tl (ys @ [h]))" for x
    using that d a n_in hd_notin_tl [of "ys @ [h]"] list.set_sel(2) [of "ys @ [h]" x] by auto
  have "linked ?m (h # xs)"
    using lx by (rule linked_cong [rotated 2]) (simp_all only: set_simps init_node_simps nb nt disjI1 if_False simp_thms)
  moreover have "linked ?m (ys @ [h])"
    using ly by (rule linked_cong [rotated 2]) (simp_all only: set_simps init_node_simps nb nt disjI2 if_False simp_thms)
  moreover have "?p \<noteq> a" "?n \<noteq> a" using p_in n_in a by metis+
  ultimately have "dlist ?m h (xs @ ys)"
    using d by (subst dlist_split) auto
  moreover have "oonf_list_remove a m = Inr ?m"
    using dlist_nexts [OF l] by (simp add: oonf_list_remove_def list_unlink_def)
  ultimately show ?thesis
    by (auto simp: oonf_list_is_node_added_def oonf_list_init_node_def)
qed

lemma dlist_is_empty:
  assumes "dlist m h xs"
  shows "oonf_list_is_empty h m \<longleftrightarrow> xs = []"
proof -
  have "h \<notin> set xs" using assms by (simp add: dlist_def)
  moreover have "xs \<noteq> [] \<Longrightarrow> hd (xs @ [h]) \<in> set xs" by simp
  ultimately show ?thesis using dlist_ends [OF assms] by (cases xs) (auto simp: oonf_list_is_empty_def)
qed

lemma dlist_is_first:
  assumes "dlist m h xs" and "x \<noteq> h"
  shows "oonf_list_is_first h x m \<longleftrightarrow> (\<exists>ys. xs = x # ys)"
  using dlist_ends [OF assms(1)] assms(2) by (cases xs) (auto simp: oonf_list_is_first_def)

lemma dlist_is_last:
  assumes "dlist m h xs" and "x \<noteq> h"
  shows "oonf_list_is_last h x m \<longleftrightarrow> (\<exists>ys. xs = ys @ [x])"
  using dlist_ends [OF assms(1)] assms(2) by (cases xs rule: rev_cases) (auto simp: oonf_list_is_last_def)

lemma dlist_node_added: "dlist m h xs \<Longrightarrow> x \<in> set xs \<Longrightarrow> oonf_list_is_node_added x m"
  by (auto simp: in_set_conv_decomp oonf_list_is_node_added_def dest: dlist_nexts)

text \<open>
  C29. Removing an element from a well-formed list takes it out and nothing else, clears its links (so that
  \<open>oonf_list_is_node_added\<close> says so) and never follows a NULL pointer; adding an element and removing
  it again gives the list back.
\<close>

theorem oonf_list_remove_spec:
  assumes "dlist m h (xs @ a # ys)"
  shows "\<exists>m'. oonf_list_remove a m = Inr m' \<and> dlist m' h (xs @ ys) \<and> \<not> oonf_list_is_node_added a m' \<and>
    (oonf_list_is_empty h m' \<longleftrightarrow> xs = [] \<and> ys = []) \<and> (\<forall>x. x \<notin> {last (h # xs), hd (ys @ [h]), a} \<longrightarrow> m' x = m x)"
  using dlist_remove [OF assms] dlist_is_empty [of _ h "xs @ ys"] by fastforce

theorem oonf_list_remove_spec_witness:
  "\<exists>m'. oonf_list_remove 5 links_ref = Inr m' \<and> dlist m' 0 [7] \<and> \<not> oonf_list_is_node_added 5 m'"
  using oonf_list_remove_spec [of links_ref 0 "[]" 5 "[7]"] dlist_ref by auto

section \<open>Merging\<close>

lemma dlist_merge:
  assumes l1: "dlist m h xs" and l2: "dlist m g ys" and dis: "set (h # xs) \<inter> set (g # ys) = {}"
  shows "\<exists>m'. oonf_list_merge h g m = Inr m' \<and> dlist m' h (xs @ ys) \<and> dlist m' g []"
proof (cases "ys = []")
  case True
  with l1 l2 dlist_is_empty [OF l2] show ?thesis by (auto simp: oonf_list_merge_def)
next
  case False
  let ?p = "last (h # xs)" and ?f = "hd ys" and ?l = "last ys"
  let ?m = "oonf_list_init_head g (set_next ?l (Some h) (set_prev h (Some ?l) (set_prev ?f (Some ?p) (set_next ?p (Some ?f) m))))"
  from l1 have d1: "distinct (h # xs)" and lx: "linked m (h # xs)" and e1: "le_prev (m h) = Some ?p"
    using dlist_split [of m h xs "[]"] by simp_all
  from l2 False have d2: "distinct (g # ys)" and ly: "linked m ys" and e2: "le_next (m g) = Some ?f" "le_prev (m g) = Some ?l"
    using dlist_split [of m g "[]" ys] dlist_split [of m g ys "[]"] linked_cons [of ys m g] by (simp_all add: hd_append)
  have ins: "?p \<in> set (h # xs)" "?f \<in> set ys" "?l \<in> set ys" using False last_in_set [of "h # xs"] by (simp_all del: last.simps)
  with dis have neq: "?p \<noteq> g" "?f \<noteq> h" "?l \<noteq> g" "?p \<noteq> ?l" "?f \<noteq> g" "h \<noteq> g" "?l \<noteq> h" "?f \<noteq> ?p"
    using d2 by (auto simp del: last.simps)
  have run: "oonf_list_merge h g m = Inr ?m"
    using dlist_is_empty [OF l2] False neq by (simp add: oonf_list_merge_def Let_def e1 e2)
  have "linked ?m (h # xs)"
    using lx by (rule linked_cong [rotated 2])
      (use butlast_last_notin [OF d1] in_set_butlastD [of _ "h # xs"] ins dis d1 in \<open>auto simp del: last.simps butlast.simps\<close>)
  moreover have "linked ?m ys"
    using ly by (rule linked_cong [rotated 2])
      (use butlast_last_notin [of ys] hd_notin_tl [of ys] in_set_butlastD [of _ ys] list.set_sel(2) [of ys] ins dis d2 False in auto)
  then have "linked ?m (ys @ [h])"
    using False neq by (simp add: linked_snoc del: last.simps)
  ultimately have "dlist ?m h (xs @ ys)"
    using d1 d2 dis False neq by (subst dlist_split) auto
  with run show ?thesis by auto
qed

text \<open>
  Merging two well-formed lists with different elements and heads appends the second to the first and
  leaves the second empty.
\<close>

lemma oonf_list_merge_spec:
  assumes "dlist m h xs" and "dlist m g ys" and "set (h # xs) \<inter> set (g # ys) = {}"
  shows "\<exists>m'. oonf_list_merge h g m = Inr m' \<and> dlist m' h (xs @ ys) \<and> dlist m' g []"
  using dlist_merge [OF assms] .

lemma oonf_list_merge_spec_witness:
  "\<exists>m'. oonf_list_merge 0 1 links_ref = Inr m' \<and> dlist m' 0 [5, 7, 8]"
  using oonf_list_merge_spec [OF dlist_ref] by auto

section \<open>Loops\<close>

lemma for_range_visits:
  assumes "dlist m h (xs @ ys)" and "length ys < k"
  shows "for_element_range k (Some (hd (ys @ [h]))) (le_prev (m h)) m = Some (Inr ys)"
  using assms
proof (induction ys arbitrary: xs k)
  case Nil
  then show ?case by (cases k) auto
next
  case (Cons y ys)
  from Cons.prems obtain j where k: "k = Suc j" "length ys < j" by (cases k) auto
  from Cons.prems(1) have d: "distinct (h # xs @ y # ys)" by (simp only: dlist_split)
  from dlist_nexts [OF Cons.prems(1)] have y: "le_prev (m y) = Some (last (h # xs))" "le_next (m y) = Some (hd (ys @ [h]))" by simp_all
  have "le_prev (m h) = Some (last (h # xs @ y # ys))" using dlist_ends [OF Cons.prems(1)] by simp
  moreover have "last (h # xs @ y # ys) \<in> set (y # ys)" by simp
  moreover have "last (h # xs) \<in> set (h # xs)" by simp
  ultimately have "le_prev (m y) \<noteq> le_prev (m h)" using d y by (auto simp del: last.simps)
  moreover have "for_element_range j (Some (hd (ys @ [h]))) (le_prev (m h)) m = Some (Inr ys)"
    using Cons.IH [of "xs @ [y]" j] Cons.prems(1) k by simp
  ultimately show ?case using k y by simp
qed

text \<open>
  \<open>oonf_list_for_each_element\<close> visits exactly the elements of a well-formed list, in order, and ends after
  one test more than it has elements.
\<close>

lemma oonf_list_for_each_visits:
  assumes "dlist m h xs" and "length xs < k"
  shows "oonf_list_for_each_element k h m = Some (Inr xs)"
  using for_range_visits [of m h "[]" xs k] assms dlist_ends [OF assms(1)] by (simp add: oonf_list_for_each_element_def)

lemma oonf_list_for_each_visits_witness: "oonf_list_for_each_element 3 0 links_ref = Some (Inr [5, 7])"
  using oonf_list_for_each_visits [OF dlist_ref(1), of 3] by simp

lemma remove_each_empties:
  assumes "dlist m h xs" and "length xs < k"
  shows "\<exists>m'. remove_each_safe k h (Some (hd (xs @ [h]))) (le_next (m (hd (xs @ [h])))) m = Some (Inr (xs, m')) \<and> dlist m' h []"
  using assms
proof (induction xs arbitrary: m k)
  case Nil
  then show ?case by (cases k) auto
next
  case (Cons x xs)
  from Cons.prems obtain j where k: "k = Suc j" "length xs < j" by (cases k) auto
  from Cons.prems(1) have d: "distinct (h # x # xs)" by (simp add: dlist_def)
  from dlist_nexts [of m h "[]" x xs] Cons.prems(1) have x: "le_prev (m x) = Some h" "le_next (m x) = Some (hd (xs @ [h]))" by simp_all
  have "last (h # x # xs) \<in> set (x # xs)" by simp
  with dlist_ends [OF Cons.prems(1)] x d have go: "le_prev (m x) \<noteq> le_prev (m h)" by (auto simp del: last.simps)
  from dlist_remove [of m h "[]" x xs] Cons.prems(1) obtain m1 where m1: "oonf_list_remove x m = Inr m1" "dlist m1 h xs" by auto
  from Cons.IH [OF m1(2) k(2)] m1(1) go x k show ?case by auto
qed

end
