(* ===== verification/RfcConsumers.thy ===== *)
theory RfcConsumers
  imports RfcSchedule OonfList
begin

text \<open>
  How \<open>_add_consumer\<close> of \<open>core/contrib/oonf_api/rfc5444/rfc5444_reader.c\<close> links the entries of a consumer, pointer by
  pointer: the list of a consumer runs through link fields inside the entries, which belong to the program that
  registers them. The pointers refine the insertion of \<open>RfcSchedule\<close>, and since an entry has one pair of link fields
  only, the theory also shows what happens when one array of entries is registered for two consumers, as
  \<open>aodvv2_reader_init\<close> does.
\<close>

section \<open>Linking the entries\<close>

text \<open>
  The inner loop walks backwards from the last entry \<open>e\<close> until one is not larger, and stops behind the head
  (\<open>oonf_list_for_each_element_reverse\<close> ends at the element whose successor is the first one). \<open>None\<close>: out of fuel.
\<close>

fun place_entry :: "nat \<Rightarrow> (addr \<Rightarrow> u16) \<Rightarrow> addr \<Rightarrow> addr \<Rightarrow> addr option \<Rightarrow> links \<Rightarrow> links outcome option" where
  "place_entry 0 ord h new e m = None"
| "place_entry (Suc k) ord h new e m =
     (case e of
        None \<Rightarrow> Some (Inl NullDeref)
      | Some a \<Rightarrow>
          if le_next (m a) = le_next (m h) then Some (oonf_list_add_head h new m)
          else if ord a \<le> ord new then Some (oonf_list_add_after a new m)
          else place_entry k ord h new (le_prev (m a)) m)"

fun link_rest :: "nat \<Rightarrow> (addr \<Rightarrow> u16) \<Rightarrow> addr \<Rightarrow> addr list \<Rightarrow> links \<Rightarrow> links outcome option" where
  "link_rest k ord h [] m = Some (Inr m)"
| "link_rest k ord h (e # es) m =
     (case place_entry k ord h e (le_prev (m h)) m of
        None \<Rightarrow> None
      | Some (Inl f) \<Rightarrow> Some (Inl f)
      | Some (Inr m) \<Rightarrow> link_rest k ord h es m)"

text \<open>The first entry goes to the tail of the fresh list; \<open>h\<close> is the head inside the consumer.\<close>

fun link_entries :: "(addr \<Rightarrow> u16) \<Rightarrow> addr \<Rightarrow> addr list \<Rightarrow> links \<Rightarrow> links outcome option" where
  "link_entries ord h [] m = Some (Inr (oonf_list_init_head h m))"
| "link_entries ord h (e # es) m =
     (case oonf_list_add_tail h e (oonf_list_init_head h m) of
        Inl f \<Rightarrow> Some (Inl f)
      | Inr m \<Rightarrow> link_rest (Suc (length (e # es))) ord h es m)"

text \<open>The walk of \<open>_schedule_tlvblock\<close> over the entries: it ends at the element that \<open>oonf_list_is_last\<close> recognises.\<close>

fun entry_walk :: "nat \<Rightarrow> addr \<Rightarrow> addr option \<Rightarrow> links \<Rightarrow> addr list outcome option" where
  "entry_walk 0 h e m = None"
| "entry_walk (Suc k) h e m =
     (case e of
        None \<Rightarrow> Some (Inl NullDeref)
      | Some a \<Rightarrow> if oonf_list_is_last h a m then Some (Inr [a])
                  else map_option (\<lambda>r. bnd r (\<lambda>as. Inr (a # as))) (entry_walk k h (le_next (m a)) m))"

definition consumer_walk :: "nat \<Rightarrow> addr \<Rightarrow> links \<Rightarrow> addr list outcome option" where
  "consumer_walk k h m = (if oonf_list_is_empty h m then Some (Inr []) else entry_walk k h (le_next (m h)) m)"

section \<open>The pointers refine sorted insertion\<close>

definition insert_ordered :: "(addr \<Rightarrow> u16) \<Rightarrow> addr list \<Rightarrow> addr \<Rightarrow> addr list" where
  "insert_ordered ord xs e =
     (let small = rev (dropWhile (\<lambda>x. \<not> ord x \<le> ord e) (rev xs)) in small @ e # drop (length small) xs)"

lemma insert_ordered_split:
  assumes "\<forall>x \<in> set bs. \<not> ord x \<le> ord e" and "as = [] \<or> ord (last as) \<le> ord e"
  shows "insert_ordered ord (as @ bs) e = as @ e # bs"
proof -
  have "dropWhile (\<lambda>x. \<not> ord x \<le> ord e) (rev (as @ bs)) = dropWhile (\<lambda>x. \<not> ord x \<le> ord e) (rev as)"
    using assms(1) by (simp only: rev_append) (rule dropWhile_append2, simp)
  also have "\<dots> = rev as" using assms(2) by (cases as rule: rev_cases) auto
  finally show ?thesis by (simp add: insert_ordered_def)
qed

lemma insert_ordered_form: "\<exists>as bs. xs = as @ bs \<and> insert_ordered ord xs e = as @ e # bs"
proof -
  let ?P = "\<lambda>x. \<not> ord x \<le> ord e"
  have "rev (rev xs) = rev (takeWhile ?P (rev xs) @ dropWhile ?P (rev xs))" by (simp only: takeWhile_dropWhile_id)
  then have xs: "xs = rev (dropWhile ?P (rev xs)) @ rev (takeWhile ?P (rev xs))" by (simp only: rev_rev_ident rev_append)
  then have "drop (length (rev (dropWhile ?P (rev xs)))) xs = rev (takeWhile ?P (rev xs))" by (metis append_eq_conv_conj)
  then have "insert_ordered ord xs e = rev (dropWhile ?P (rev xs)) @ e # rev (takeWhile ?P (rev xs))"
    by (simp only: insert_ordered_def Let_def)
  with xs show ?thesis by blast
qed

lemma set_insert_ordered: "set (insert_ordered ord xs e) = insert e (set xs)"
  using insert_ordered_form [of xs ord e] by auto

lemma length_insert_ordered: "length (insert_ordered ord xs e) = Suc (length xs)"
  using insert_ordered_form [of xs ord e] by auto

lemma place_entry_from:
  assumes l: "dlist m h (as @ bs)" and new: "new \<notin> set (h # as @ bs)" and big: "\<forall>x \<in> set bs. \<not> ord x \<le> ord new"
    and fuel: "length as < k"
  shows "\<exists>m'. place_entry k ord h new (Some (last (h # as))) m = Some (Inr m') \<and> dlist m' h (insert_ordered ord (as @ bs) new) \<and>
    (\<forall>x. x \<notin> set (h # new # as @ bs) \<longrightarrow> m' x = m x)"
  using assms
proof (induction as arbitrary: bs k rule: rev_induct)
  case Nil
  from Nil.prems(4) obtain j where k: "k = Suc j" by (cases k) auto
  have l: "dlist m h ([] @ bs)" and new: "new \<notin> set (h # [] @ bs)" using Nil.prems(1,2) by simp_all
  from oonf_list_add_spec [OF l new] obtain m' where m': "oonf_list_add_head h new m = Inr m'" "dlist m' h (new # bs)"
    "\<forall>x. x \<notin> {h, hd (bs @ [h]), new} \<longrightarrow> m' x = m x" by auto
  have "insert_ordered ord bs new = new # bs" using insert_ordered_split [of bs ord new "[]"] Nil.prems(3) by simp
  moreover have "hd (bs @ [h]) \<in> set (h # bs)" by (cases bs) auto
  ultimately show ?case using m' k by auto
next
  case (snoc a as)
  from snoc.prems(4) obtain j where k: "k = Suc j" and j: "length as < j" by (cases k) auto
  have l: "dlist m h (as @ a # bs)" using snoc.prems(1) by simp
  then have d: "distinct (h # as @ a # bs)" by (simp add: dlist_def)
  note nexts = dlist_nexts [OF l]
  have "le_next (m h) = Some (hd (as @ a # bs @ [h]))" using dlist_ends [OF l] by (simp add: hd_append)
  moreover have "hd (bs @ [h]) \<noteq> hd (as @ a # bs @ [h])"
    using d by (cases as; cases bs) auto
  ultimately have inside: "le_next (m a) \<noteq> le_next (m h)" using nexts by auto
  show ?case
  proof (cases "ord a \<le> ord new")
    case True
    have ins: "insert_ordered ord ((as @ [a]) @ bs) new = (as @ [a]) @ new # bs"
      by (rule insert_ordered_split) (use snoc.prems(3) True in simp_all)
    from oonf_list_add_spec [OF snoc.prems(1,2)] obtain m' where m': "oonf_list_add_after a new m = Inr m'"
      "dlist m' h ((as @ [a]) @ new # bs)" "\<forall>x. x \<notin> {a, hd (bs @ [h]), new} \<longrightarrow> m' x = m x" by auto
    have "hd (bs @ [h]) \<in> set (h # bs)" by (cases bs) auto
    with m'(3) have "\<forall>x. x \<notin> set (h # new # (as @ [a]) @ bs) \<longrightarrow> m' x = m x" by auto
    with True inside m' show ?thesis unfolding ins by (simp add: k)
  next
    case False
    have "\<exists>m'. place_entry j ord h new (Some (last (h # as))) m = Some (Inr m') \<and> dlist m' h (insert_ordered ord (as @ a # bs) new) \<and>
      (\<forall>x. x \<notin> set (h # new # as @ a # bs) \<longrightarrow> m' x = m x)"
      by (rule snoc.IH [OF l]) (use snoc.prems(2,3) False j in auto)
    with False inside nexts show ?thesis by (simp add: k del: last.simps) (simp add: k)
  qed
qed

lemma link_rest_spec:
  assumes "dlist m h xs" and "distinct (h # xs @ es)" and "length (xs @ es) < k"
  shows "\<exists>m'. link_rest k ord h es m = Some (Inr m') \<and> dlist m' h (foldl (insert_ordered ord) xs es) \<and>
    (\<forall>x. x \<notin> set (h # xs @ es) \<longrightarrow> m' x = m x)"
  using assms
proof (induction es arbitrary: xs m)
  case (Cons e es)
  have prev: "le_prev (m h) = Some (last (h # xs))" using dlist_ends [OF Cons.prems(1)] by simp
  from place_entry_from [of m h xs "[]" e ord k] Cons.prems obtain m1 where
    m1: "place_entry k ord h e (Some (last (h # xs))) m = Some (Inr m1)" "dlist m1 h (insert_ordered ord xs e)"
      "\<forall>x. x \<notin> set (h # e # xs) \<longrightarrow> m1 x = m x" by auto
  have "distinct (insert_ordered ord xs e)" using m1(2) by (simp add: dlist_def)
  with Cons.prems(2) have d: "distinct (h # insert_ordered ord xs e @ es)" by (auto simp: set_insert_ordered)
  from Cons.IH [OF m1(2) d] Cons.prems(3) obtain m' where
    m': "link_rest k ord h es m1 = Some (Inr m')" "dlist m' h (foldl (insert_ordered ord) (insert_ordered ord xs e) es)"
      "\<forall>x. x \<notin> set (h # insert_ordered ord xs e @ es) \<longrightarrow> m' x = m1 x" by (auto simp: length_insert_ordered)
  show ?case
    by (rule exI [of _ m']) (use m1 m' prev in \<open>auto simp: set_insert_ordered\<close>)
qed auto

text \<open>Registering entries makes a well-formed list of them in order, whatever lists they are in already, and changes no other memory.\<close>

lemma link_entries_spec:
  assumes "distinct (h # es)"
  shows "\<exists>m'. link_entries ord h es m = Some (Inr m') \<and> dlist m' h (foldl (insert_ordered ord) [] es) \<and>
    (\<forall>x. x \<notin> set (h # es) \<longrightarrow> m' x = m x)"
proof (cases es)
  case Nil
  then show ?thesis by (simp add: oonf_list_init_head_def)
next
  case (Cons e es')
  let ?m = "oonf_list_init_head h m"
  have "e \<noteq> h" using assms Cons by auto
  with oonf_list_add_spec [of ?m h "[]" "[]" e] init_head_dlist [of h m] obtain m1 where
    m1: "oonf_list_add_tail h e ?m = Inr m1" "dlist m1 h [e]" "\<forall>x. x \<notin> {h, e} \<longrightarrow> m1 x = ?m x" by auto
  have "foldl (insert_ordered ord) [] es = foldl (insert_ordered ord) [e] es'" by (simp add: Cons insert_ordered_def)
  with link_rest_spec [OF m1(2), of es' "Suc (length es)" ord] m1 assms Cons show ?thesis
    by (auto simp: oonf_list_init_head_def)
qed

text \<open>\<open>RfcSchedule\<close> inserts an entry where the pointers do; the number of an entry is its address.\<close>

lemma insert_cons_entry_places:
  assumes "\<forall>x \<in> insert e (set l). ord (ce_id x) = calc_tlvconsumer_intorder x"
  shows "map ce_id (insert_cons_entry l e) = insert_ordered ord (map ce_id l) (ce_id e)"
proof -
  have "dropWhile (\<lambda>x. \<not> ord x \<le> ord (ce_id e)) (rev (map ce_id l))
      = map ce_id (dropWhile (\<lambda>x. \<not> calc_tlvconsumer_intorder x \<le> calc_tlvconsumer_intorder e) (rev l))"
    using assms by (simp only: rev_map dropWhile_map o_def) (intro arg_cong [where f = "map ce_id"] dropWhile_cong, auto)
  then show ?thesis by (simp add: insert_cons_entry_def insert_ordered_def Let_def rev_map [symmetric] drop_map)
qed

section \<open>Entries registered twice\<close>

lemma entry_walk_visits:
  assumes "dlist m g (xs @ a # ys)" and "le_prev (m h) = Some (last (a # ys))" and "length ys < k"
  shows "entry_walk k h (Some a) m = Some (Inr (a # ys))"
  using assms
proof (induction ys arbitrary: xs a k)
  case Nil
  then show ?case by (cases k) (auto simp: oonf_list_is_last_def)
next
  case (Cons b ys)
  from Cons.prems(3) obtain j where k: "k = Suc j" "length ys < j" by (cases k) auto
  from Cons.prems(1) have "a \<notin> set (b # ys)" by (simp add: dlist_def)
  then have "\<not> oonf_list_is_last h a m" using Cons.prems(2) last_in_set [of "b # ys"] by (auto simp: oonf_list_is_last_def)
  moreover have "le_next (m a) = Some b" using dlist_nexts [OF Cons.prems(1)] by simp
  moreover have "entry_walk j h (Some b) m = Some (Inr (b # ys))"
    using Cons.IH [of "xs @ [a]" b j] Cons.prems k by simp
  ultimately show ?case using k by simp
qed

text \<open>A head that points to the first and from the last element of a list walks over it, whether or not it stands in its ring.\<close>

lemma consumer_walk_visits:
  assumes "dlist m g xs" and "xs \<noteq> []" and "h \<notin> set xs"
    and "le_next (m h) = Some (hd xs)" and "le_prev (m h) = Some (last xs)" and "length xs \<le> k"
  shows "consumer_walk k h m = Some (Inr xs)"
proof -
  from assms(2) obtain a ys where xs: "xs = a # ys" by (cases xs) auto
  with assms entry_walk_visits [of m g "[]" a ys h k] show ?thesis
    by (auto simp: consumer_walk_def oonf_list_is_empty_def)
qed

text \<open>
  C40. One array of entries registered for two consumers: the second registration takes the link fields away from the first
  consumer, whose head stands in no ring any more (the last entry does not lead back to it). Still the reader's walk finds
  the same entries in the same order for both, since it compares the entry with the head's predecessor, which is still the
  last one.
\<close>

theorem shared_entries_walk:
  assumes "distinct (h1 # h2 # es)" and "es \<noteq> []"
  shows "\<exists>m1 m2. link_entries ord h1 es m = Some (Inr m1) \<and> link_entries ord h2 es m1 = Some (Inr m2) \<and>
    (let ys = foldl (insert_ordered ord) [] es in
     dlist m2 h2 ys \<and> \<not> dlist m2 h1 ys \<and>
     consumer_walk (length es) h1 m2 = Some (Inr ys) \<and> consumer_walk (length es) h2 m2 = Some (Inr ys))"
proof -
  let ?ys = "foldl (insert_ordered ord) [] es"
  have sets: "set (foldl (insert_ordered ord) xs es) = set xs \<union> set es \<and>
      length (foldl (insert_ordered ord) xs es) = length xs + length es" for xs
    by (induction es arbitrary: xs) (auto simp: set_insert_ordered length_insert_ordered)
  from link_entries_spec [of h1 es ord m] assms(1) obtain m1 where
    m1: "link_entries ord h1 es m = Some (Inr m1)" "dlist m1 h1 ?ys" by auto
  from link_entries_spec [of h2 es ord m1] assms(1) obtain m2 where
    m2: "link_entries ord h2 es m1 = Some (Inr m2)" "dlist m2 h2 ?ys" "\<forall>x. x \<notin> set (h2 # es) \<longrightarrow> m2 x = m1 x" by auto
  have ne: "?ys \<noteq> []" and len: "length ?ys = length es" and mem: "set ?ys = set es" using sets [of "[]"] assms(2) by auto
  have h1: "m2 h1 = m1 h1" using m2(3) assms(1) by auto
  note e1 = dlist_ends [OF m1(2)] and e2 = dlist_ends [OF m2(2)]
  have w1: "consumer_walk (length es) h1 m2 = Some (Inr ?ys)"
    by (rule consumer_walk_visits [OF m2(2) ne]) (use assms(1) mem h1 e1 ne len in auto)
  have w2: "consumer_walk (length es) h2 m2 = Some (Inr ?ys)"
    by (rule consumer_walk_visits [OF m2(2) ne]) (use assms(1) mem e2 ne len in auto)
  have "\<not> dlist m2 h1 ?ys"
  proof
    assume "dlist m2 h1 ?ys"
    then have "le_prev (m2 (hd ?ys)) = Some h1" "le_prev (m2 (hd ?ys)) = Some h2"
      using dlist_nexts [of m2 h1 "[]" "hd ?ys" "tl ?ys"] dlist_nexts [of m2 h2 "[]" "hd ?ys" "tl ?ys"] m2(2) ne by simp_all
    with assms(1) show False by auto
  qed
  with m1 m2 w1 w2 show ?thesis by (auto simp: Let_def)
qed

theorem shared_entries_walk_witness:
  "\<exists>m1 m2. link_entries (\<lambda>x. of_nat (x mod 2)) 10 [1, 2, 3] (\<lambda>_. \<lparr>le_next = None, le_prev = None\<rparr>) = Some (Inr m1) \<and>
     link_entries (\<lambda>x. of_nat (x mod 2)) 11 [1, 2, 3] m1 = Some (Inr m2) \<and> consumer_walk 3 10 m2 = Some (Inr [2, 1, 3])"
proof -
  have "foldl (insert_ordered (\<lambda>x. of_nat (x mod 2))) [] [1, 2, 3] = [2, 1, 3]" by (simp add: insert_ordered_def Let_def)
  moreover have "length [1, 2, 3 :: nat] = 3" by simp
  ultimately show ?thesis
    using shared_entries_walk [of 10 11 "[1, 2, 3]" "\<lambda>x. of_nat (x mod 2)" "\<lambda>_. \<lparr>le_next = None, le_prev = None\<rparr>"]
    unfolding Let_def by (metis (no_types, lifting) distinct_length_2_or_more distinct_singleton list.distinct(1) numeral_eq_iff
      one_eq_numeral_iff num.distinct num.inject)
qed

end
