(* ===== verification/Rfc5444.thy ===== *)
theory Rfc5444
  imports Prelude
begin

text \<open>
  The compressed forms of times and metrics and the arithmetic of sequence numbers,
  \<open>core/contrib/oonf_api/rfc5444/rfc5444.c\<close> and \<open>rfc5444.h\<close>: a time is a byte, a metric twelve bits, both a
  mantissa and an exponent.
\<close>

section \<open>Times\<close>

definition RFC5497_TIMETLV_MAX :: u64 where "RFC5497_TIMETLV_MAX = 0xdac00000"
definition RFC5497_TIMETLV_MIN :: u64 where "RFC5497_TIMETLV_MIN = 1"

text \<open>The search of \<open>rfc5497_timetlv_get_from_vector\<close>, from index \<open>i\<close> on.\<close>

function tv_search :: "u8 list \<Rightarrow> nat \<Rightarrow> u8 \<Rightarrow> nat \<Rightarrow> u8 outcome" where
  "tv_search v n hopcount i =
     (if i < n then bnd (mem_get v i) (\<lambda>h. if hopcount \<le> h then mem_get v (i - 1) else tv_search v n hopcount (i + 2))
      else mem_get v (i - 1))"
  by pat_completeness auto
termination by (relation "measure (\<lambda>(v, n, h, i). n - i)") auto

declare tv_search.simps [simp del]

definition rfc5497_timetlv_get_from_vector :: "u8 list \<Rightarrow> nat \<Rightarrow> u8 \<Rightarrow> u8 outcome" where
  "rfc5497_timetlv_get_from_vector v n hopcount = (if even n then Inr 255 else tv_search v n hopcount 1)"

text \<open>The two loops of \<open>rfc5497_timetlv_encode\<close>; the second one does not end for 0, it has fuel.\<close>

lemma unat_succ: "unat d + 1 < 2 ^ LENGTH('a) \<Longrightarrow> unat (d + 1) = unat (d :: 'a :: len word) + 1"
  by (metis Suc_eq_plus1 unatSuc unat_eq_zero add_is_0 mod_less unat_word_ariths(1) unat_1 zero_neq_one)

lemma unat_half: "unat d + 1 < 2 ^ LENGTH('a) \<Longrightarrow> unat (drop_bit 1 (d + 1)) = (unat (d :: 'a :: len word) + 1) div 2"
  by (simp only: unat_drop_bit_eq unat_succ) (simp add: drop_bit_eq_div)

lemma half_less: "1 < d \<Longrightarrow> unat (drop_bit 1 (d + 1)) < unat (d :: 'a :: len word)"
proof (cases "d + 1 = 0")
  case True
  assume "1 < d"
  with True show ?thesis by (simp add: word_less_nat_alt)
next
  case False
  then have succ: "unat (d + 1) = unat d + 1" using unatSuc [of d] by (simp add: add.commute)
  assume "1 < d"
  then have "1 < unat d" by (metis unat_mono unat_1)
  then show ?thesis by (simp only: unat_drop_bit_eq succ) (simp add: drop_bit_eq_div)
qed

function tv_halve :: "u64 \<Rightarrow> u32 \<Rightarrow> u64 \<times> u32" where
  "tv_halve d b = (if d > 1875 then tv_halve (drop_bit 1 (d + 1)) (b + 1) else (d, b))"
  by pat_completeness auto
termination by (relation "measure (\<lambda>(d, b). unat d)") (auto simp flip: One_nat_def intro!: half_less elim: order.strict_trans [rotated])

declare tv_halve.simps [simp del]

fun tv_double :: "nat \<Rightarrow> u64 \<Rightarrow> u32 \<Rightarrow> (u64 \<times> u32) outcome" where
  "tv_double 0 d b = (if d < 1000 then Inl NoFuel else Inr (d, b))"
| "tv_double (Suc n) d b = (if d < 1000 then tv_double n (push_bit 1 d) (b - 1) else Inr (d, b))"

definition TV_DOUBLINGS :: nat where "TV_DOUBLINGS = 10"

definition rfc5497_timetlv_encode :: "u64 \<Rightarrow> u8 outcome" where
  "rfc5497_timetlv_encode decoded =
     (if decoded < RFC5497_TIMETLV_MIN then Inr 0
      else if decoded > RFC5497_TIMETLV_MAX then Inr 255
      else bnd (if decoded \<ge> 1000 then Inr (tv_halve decoded 10) else tv_double TV_DOUBLINGS decoded 10) (\<lambda>(d, b).
           let a = ucast ((d - 1000 + 124) div 125) :: u32 in Inr (ucast (a + push_bit 3 b))))"

definition rfc5497_timetlv_decode :: "u8 \<Rightarrow> u64" where
  "rfc5497_timetlv_decode encoded =
     (if encoded = 0 then 0
      else if encoded = 255 then -1
      else let a = ucast (encoded AND 7); b = drop_bit 3 encoded in
           if b \<le> 10 then drop_bit (10 - unat b) (1000 + 125 * a) else push_bit (unat b - 10) (1000 + 125 * a))"

section \<open>Metrics\<close>

definition RFC7181_METRIC_MAX :: u32 where "RFC7181_METRIC_MAX = 0xffff00"
definition RFC7181_METRIC_MIN :: u32 where "RFC7181_METRIC_MIN = 1"
definition RFC7181_METRIC_INFINITE :: u32 where "RFC7181_METRIC_INFINITE = 0xffffff"

text \<open>\<open>struct rfc7181_metric_field\<close>: two bytes; the upper half of the first one is flags.\<close>

record metric_field =
  mf_b0 :: u8
  mf_b1 :: u8

function metric_halve :: "u32 \<Rightarrow> u8 \<Rightarrow> u32 \<times> u8" where
  "metric_halve d a = (if d > 512 then metric_halve (drop_bit 1 (d + 1)) (a + 1) else (d, a))"
  by pat_completeness auto
termination by (relation "measure (\<lambda>(d, a). unat d)") (auto simp flip: One_nat_def intro!: half_less elim: order.strict_trans [rotated])

declare metric_halve.simps [simp del]

definition rfc7181_metric_encode :: "metric_field \<Rightarrow> u32 \<Rightarrow> int \<times> metric_field" where
  "rfc7181_metric_encode f decoded =
     (if decoded < RFC7181_METRIC_MIN \<or> decoded \<ge> RFC7181_METRIC_INFINITE then (-1, f)
      else if decoded > RFC7181_METRIC_MAX then (0, f\<lparr>mf_b0 := 0x0f, mf_b1 := 0xff\<rparr>)
      else let (d, a) = metric_halve (decoded + 256) 0; b = ucast (d - 257) in (0, f\<lparr>mf_b0 := a, mf_b1 := b\<rparr>))"

definition rfc7181_metric_decode :: "metric_field \<Rightarrow> u32" where
  "rfc7181_metric_decode f = (let exponent = mf_b0 f AND 15 in push_bit (unat exponent) (257 + ucast (mf_b1 f)) - 256)"

definition rfc7181_metric_has_flag :: "metric_field \<Rightarrow> u8 \<Rightarrow> bool" where
  "rfc7181_metric_has_flag f flag = (mf_b0 f AND flag \<noteq> 0)"

definition rfc7181_metric_set_flag :: "metric_field \<Rightarrow> u8 \<Rightarrow> metric_field" where
  "rfc7181_metric_set_flag f flag = f\<lparr>mf_b0 := mf_b0 f OR flag\<rparr>"

definition rfc7181_metric_reset_flag :: "metric_field \<Rightarrow> u8 \<Rightarrow> metric_field" where
  "rfc7181_metric_reset_flag f flag = f\<lparr>mf_b0 := mf_b0 f AND NOT flag\<rparr>"

section \<open>Sequence numbers\<close>

definition rfc5444_seqno_difference :: "u16 \<Rightarrow> u16 \<Rightarrow> int" where
  "rfc5444_seqno_difference seqno1 seqno2 =
     (let diff = uint seqno1 - uint seqno2 in
      if diff > 2 ^ 15 then diff - 2 ^ 16 else if diff < - (2 ^ 15) then diff + 2 ^ 16 else diff)"

definition rfc5444_seqno_is_larger :: "u16 \<Rightarrow> u16 \<Rightarrow> bool" where
  "rfc5444_seqno_is_larger s1 s2 \<longleftrightarrow>
     (s1 > s2 \<and> uint s1 - uint s2 < 2 ^ 15) \<or> (s2 > s1 \<and> uint s2 - uint s1 > 2 ^ 15)"

definition rfc5444_seqno_is_smaller :: "u16 \<Rightarrow> u16 \<Rightarrow> bool" where
  "rfc5444_seqno_is_smaller s1 s2 \<longleftrightarrow> s1 \<noteq> s2 \<and> \<not> rfc5444_seqno_is_larger s1 s2"

section \<open>What the encodings promise\<close>

text \<open>
  Both loops halve and round up: after \<open>k\<close> rounds the number \<open>t\<close> has become the smallest \<open>d\<close> with \<open>t \<le> 2 ^ k * d\<close>.
\<close>

definition ceil_shift :: "nat \<Rightarrow> nat \<Rightarrow> nat \<Rightarrow> bool" where
  "ceil_shift t k d \<longleftrightarrow> t \<le> 2 ^ k * d \<and> 2 ^ k * d < t + 2 ^ k"

lemma ceil_shift_0: "ceil_shift t 0 d \<longleftrightarrow> d = t"
  by (auto simp: ceil_shift_def)

lemma ceil_shift_Suc:
  assumes "ceil_shift ((d + 1) div 2) k e"
  shows "ceil_shift d (Suc k) e"
proof -
  let ?h = "(d + 1) div 2"
  have "?h \<le> 2 ^ k * e" "2 ^ k * e < ?h + 2 ^ k" using assms by (simp_all add: ceil_shift_def)
  moreover have "d \<le> 2 * ?h" "2 * ?h \<le> d + 1" by linarith+
  ultimately have "d \<le> 2 * (2 ^ k * e)" "2 * (2 ^ k * e) < d + 2 * 2 ^ k" by linarith+
  then show ?thesis by (simp add: ceil_shift_def)
qed

lemma tv_halve_spec:
  assumes "unat d < 2 ^ 63"
  shows "\<exists>k e. tv_halve d b = (e, b + of_nat k) \<and> ceil_shift (unat d) k (unat e) \<and> unat e \<le> 1875 \<and>
           (if k = 0 then e = d else 938 \<le> unat e \<and> 2 ^ k * 938 < unat d + 2 ^ k)"
  using assms
proof (induction d b rule: tv_halve.induct)
  case (1 d b)
  show ?case
  proof (cases "d > 1875")
    case False
    then have "tv_halve d b = (d, b)" by (subst tv_halve.simps) simp
    moreover have "unat d \<le> 1875" using False by (simp add: word_less_nat_alt)
    ultimately show ?thesis by (intro exI [of _ 0] exI [of _ d]) (simp add: ceil_shift_0)
  next
    case True
    let ?h = "drop_bit 1 (d + 1)"
    have h: "unat ?h = (unat d + 1) div 2" by (rule unat_half) (use 1(2) in simp)
    moreover have d: "1875 < unat d" using True by (simp add: word_less_nat_alt)
    ultimately have hb: "unat ?h < 2 ^ 63" "938 \<le> unat ?h" using 1(2) by linarith+
    from 1(1) [OF True hb(1)] obtain k e where ke: "tv_halve ?h (b + 1) = (e, b + 1 + of_nat k)" "ceil_shift (unat ?h) k (unat e)"
      "unat e \<le> 1875" "if k = 0 then e = ?h else 938 \<le> unat e \<and> 2 ^ k * 938 < unat ?h + 2 ^ k" by blast
    have "tv_halve d b = (e, b + of_nat (Suc k))" using ke(1) True by (subst tv_halve.simps) (simp add: add.assoc)
    moreover have c: "ceil_shift (unat d) (Suc k) (unat e)" using ceil_shift_Suc ke(2) unfolding h by blast
    moreover have "938 \<le> unat e" using ke(4) hb(2) by (simp split: if_splits)
    moreover from this have "2 ^ Suc k * 938 \<le> 2 ^ Suc k * unat e" by (rule mult_le_mono2)
    then have "2 ^ Suc k * 938 < unat d + 2 ^ Suc k" using c unfolding ceil_shift_def by linarith
    ultimately show ?thesis using ke(3) by (intro exI [of _ "Suc k"] exI [of _ e]) simp
  qed
qed

lemma tv_double_spec:
  assumes "unat d < 1000" and "1000 \<le> 2 ^ n * unat d"
  shows "\<exists>k e. 0 < k \<and> k \<le> n \<and> tv_double n d b = Inr (e, b - of_nat k) \<and> unat e = 2 ^ k * unat d \<and> 1000 \<le> unat e \<and> unat e < 2000"
  using assms
proof (induction n arbitrary: d b)
  case (Suc n)
  let ?h = "push_bit 1 d"
  have h: "unat ?h = 2 * unat d" using Suc.prems(1) unfolding unsigned_push_bit_eq by (simp add: push_bit_eq_mult take_bit_nat_eq_self)
  have d: "d < 1000" using Suc.prems(1) by (simp add: word_less_nat_alt)
  show ?case
  proof (cases "unat ?h < 1000")
    case True
    with Suc.IH [of ?h "b - 1"] Suc.prems(2) h obtain k e where "0 < k" "k \<le> n" "tv_double n ?h (b - 1) = Inr (e, b - 1 - of_nat k)"
      "unat e = 2 ^ k * unat ?h" "1000 \<le> unat e" "unat e < 2000" by auto
    with h d show ?thesis by (intro exI [of _ "Suc k"] exI [of _ e]) (simp add: diff_diff_eq)
  next
    case False
    then have "tv_double n ?h (b - 1) = Inr (?h, b - 1)" by (cases n) (simp_all add: word_less_nat_alt)
    with h d False Suc.prems(1) show ?thesis by (intro exI [of _ 1] exI [of _ ?h]) simp
  qed
qed simp

lemma tv_mantissa:
  assumes "876 \<le> unat d" and "unat d \<le> 2000"
  shows "unat (ucast ((d - 1000 + 124) div 125) :: u32) = (unat (d :: u64) - 876) div 125"
proof -
  have "d - 1000 + 124 = d - 876" by simp
  moreover have "unat (d - 876) = unat d - 876" using assms(1) by (subst unat_sub) (simp_all add: word_le_nat_alt)
  ultimately have "unat ((d - 1000 + 124) div 125) = (unat d - 876) div 125" by (simp add: unat_div)
  moreover have "(unat d - 876) div 125 < 2 ^ 32" using assms(2) by simp
  ultimately show ?thesis by (simp add: unsigned_ucast_eq take_bit_nat_eq_self)
qed

lemma tv_code:
  assumes "unat a + 8 * B < 256"
  shows "unat (ucast (a + push_bit 3 (of_nat B :: u32)) :: u8) = unat a + 8 * B"
proof -
  have "unat (push_bit 3 (of_nat B :: u32)) = 8 * B"
    unfolding unsigned_push_bit_eq using assms by (simp add: push_bit_eq_mult unsigned_of_nat take_bit_nat_eq_self)
  with assms have "unat (a + push_bit 3 (of_nat B :: u32)) = unat a + 8 * B" by (subst unat_add_lem [THEN iffD1]) simp_all
  with assms show ?thesis by (simp add: unsigned_ucast_eq take_bit_nat_eq_self)
qed

lemma tv_decode_nat:
  assumes "0 < unat c" and "unat c < 255"
  shows "unat (rfc5497_timetlv_decode c) =
    (if unat c div 8 \<le> 10 then (1000 + 125 * (unat c mod 8)) div 2 ^ (10 - unat c div 8) else (1000 + 125 * (unat c mod 8)) * 2 ^ (unat c div 8 - 10))"
proof -
  let ?m = "1000 + 125 * ucast (c AND 7) :: u64" and ?b = "drop_bit 3 c"
  have a: "unat (ucast (c AND 7) :: u64) = unat c mod 8" by (simp add: unsigned_ucast_eq take_bit_nat_eq_self and_7)
  have m: "unat ?m = 1000 + 125 * (unat c mod 8)"
    using a by (simp add: unat_word_ariths)
  have b: "unat ?b = unat c div 8" by (simp add: unat_drop)
  have c: "c \<noteq> 0" "c \<noteq> 255" using assms by auto
  show ?thesis
  proof (cases "unat ?b \<le> 10")
    case True
    then have "?b \<le> 10" by (simp add: word_le_nat_alt)
    then have "rfc5497_timetlv_decode c = drop_bit (10 - unat ?b) ?m" using c by (simp add: rfc5497_timetlv_decode_def Let_def)
    then show ?thesis using True b m by (simp only: unat_drop) simp
  next
    case False
    then have "\<not> ?b \<le> 10" by (simp add: word_le_nat_alt)
    then have "rfc5497_timetlv_decode c = push_bit (unat ?b - 10) ?m" using c by (simp add: rfc5497_timetlv_decode_def Let_def)
    moreover have "unat ?m * 2 ^ (unat ?b - 10) < 2 ^ 64"
    proof -
      have "(2 :: nat) ^ (unat ?b - 10) \<le> 2 ^ 21" using assms b by (intro power_increasing) linarith+
      moreover have "unat ?m \<le> 1875" using m by simp
      ultimately have "unat ?m * 2 ^ (unat ?b - 10) \<le> 1875 * 2 ^ 21" by (rule mult_le_mono [rotated])
      then show ?thesis by simp
    qed
    ultimately show ?thesis using False b m unat_push [of ?m "unat ?b - 10"] by simp
  qed
qed

text \<open>The byte for mantissa \<open>d\<close> and exponent \<open>B\<close>, and the time it stands for; both loops end in such a pair.\<close>

lemma tv_encoded_large:
  assumes t: "1000 \<le> t" "t \<le> 0xdac00000" and c: "ceil_shift t k d" and d: "d \<le> 1875" "938 \<le> d" and k: "k = 0 \<longrightarrow> d = t" "2 ^ k * 938 < t + 2 ^ k"
  shows "let m = (d - 876) div 125 in k \<le> 21 \<and> m \<le> 7 \<and> m + 8 * (10 + k) < 255 \<and> t \<le> 2 ^ k * (1000 + 125 * m) \<and> 7 * (2 ^ k * (1000 + 125 * m)) \<le> 8 * t"
proof -
  let ?m = "(d - 876) div 125"
  have m7: "?m \<le> 7" using d by linarith
  have m: "d \<le> 1000 + 125 * ?m" "1000 + 125 * ?m \<le> d + 124" if "1000 \<le> d" using d that by linarith+
  have m': "?m = 0" if "d < 1000" using that by simp
  have cs: "t \<le> 2 ^ k * d" "2 ^ k * d < t + 2 ^ k" using c by (simp_all add: ceil_shift_def)
  have k21: "k \<le> 21"
  proof (rule ccontr)
    assume "\<not> k \<le> 21"
    then have "(2 :: nat) ^ 22 \<le> 2 ^ k" by (intro power_increasing) simp_all
    moreover have "2 ^ k * 937 < t" using k(2) by simp
    ultimately show False using t(2) by simp
  qed
  have last: "d \<le> 1750" if "k = 21" using cs(2) t(2) that by simp
  then have "?m \<le> 6" if "k = 21" using that by linarith
  with k21 m7 have code: "?m + 8 * (10 + k) < 255" by (cases "k = 21") auto
  have "d \<le> 1000 + 125 * ?m" using m(1) m' by (cases "d < 1000") simp_all
  then have "2 ^ k * d \<le> 2 ^ k * (1000 + 125 * ?m)" by (rule mult_le_mono2)
  with cs(1) have lower: "t \<le> 2 ^ k * (1000 + 125 * ?m)" by (rule order_trans)
  have upper: "7 * (2 ^ k * (1000 + 125 * ?m)) \<le> 8 * t"
  proof (cases "k = 0")
    case True
    with k(1) m(2) t show ?thesis by simp
  next
    case False
    have "7 * (1000 + 125 * ?m) \<le> 8 * (d - 1)"
    proof (cases "d < 1000")
      case False
      then have "1000 \<le> d" by simp
      have "7 * x \<le> 8 * (d - 1)" if "x \<le> d + 124" for x using that \<open>1000 \<le> d\<close> by linarith
      from this [OF m(2) [OF \<open>1000 \<le> d\<close>]] show ?thesis .
    qed (use m' d in simp)
    then have "2 ^ k * (7 * (1000 + 125 * ?m)) \<le> 2 ^ k * (8 * (d - 1))" by (rule mult_le_mono2)
    moreover have "2 ^ k * (d - 1) + 2 ^ k = 2 ^ k * d" using d(2) by (cases d) simp_all
    then have "2 ^ k * (d - 1) < t" using cs(2) by linarith
    moreover have "2 ^ k * (7 * (1000 + 125 * ?m)) = 7 * (2 ^ k * (1000 + 125 * ?m))" "2 ^ k * (8 * (d - 1)) = 8 * (2 ^ k * (d - 1))"
      by (simp_all only: mult.left_commute)
    ultimately show ?thesis by linarith
  qed
  show ?thesis using k21 m7 code lower upper by (simp add: Let_def)
qed

lemma code_parts: "(m + 8 * b) div 8 = b" "(m + 8 * b) mod 8 = m" if "m \<le> 7" for m b :: nat
  using that by simp_all

lemma tv_encoded_small:
  assumes t: "0 < t" and e: "e = 2 ^ k * t" "1000 \<le> e" "e < 2000" and k: "0 < k" "k \<le> 10"
    and c: "c = (e - 876) div 125 + 8 * (10 - k)"
  shows "0 < c" and "c < 255" and "c div 8 \<le> 10" and "t \<le> (1000 + 125 * (c mod 8)) div 2 ^ (10 - c div 8)"
    and "7 * ((1000 + 125 * (c mod 8)) div 2 ^ (10 - c div 8)) \<le> 8 * t"
proof -
  let ?m = "(e - 876) div 125"
  let ?c = "?m + 8 * (10 - k)"
  let ?v = "(1000 + 125 * ?m) div 2 ^ k"
  have m: "?m \<le> 8" "e \<le> 1000 + 125 * ?m" "1000 + 125 * ?m \<le> e + 124" using e(2,3) by linarith+
  have pos: "0 < ?c"
  proof (cases "k = 10")
    case True
    with e t have "1024 \<le> e" by simp
    then have "125 \<le> e - 876" by linarith
    then show ?thesis by (simp add: div_greater_zero_iff)
  next
    case False
    with k show ?thesis by simp
  qed
  have small: "?c < 255" "?c div 8 \<le> 10" using m(1) k by linarith+
  have v: "(1000 + 125 * (?c mod 8)) div 2 ^ (10 - ?c div 8) = ?v"
  proof (cases "?m = 8")
    case True
    then have "?c = 8 * (11 - k)" using k by linarith
    then have "?c mod 8 = 0" "?c div 8 = 11 - k" by simp_all
    then have "(1000 + 125 * (?c mod 8)) div 2 ^ (10 - ?c div 8) = 1000 div 2 ^ (k - 1)" using k by simp
    also have "\<dots> = 2000 div 2 ^ k" using k by (cases k) (simp_all add: div_mult2_eq)
    finally show ?thesis using True by simp
  next
    case False
    with m(1) have "?m \<le> 7" by simp
    then have "?c mod 8 = ?m" "?c div 8 = 10 - k" by (simp_all only: code_parts)
    then show ?thesis using k by simp
  qed
  have "t * 2 ^ k \<le> 1000 + 125 * ?m" using m(2) e(1) by (simp add: mult.commute)
  then have lower: "t \<le> ?v" by (simp add: less_eq_div_iff_mult_less_eq)
  have "2 ^ k * ?v \<le> 1000 + 125 * ?m" by (rule times_div_less_eq_dividend)
  with m(3) e(2) have "7 * (2 ^ k * ?v) \<le> 8 * e" by linarith
  then have "2 ^ k * (7 * ?v) \<le> 2 ^ k * (8 * t)" unfolding e(1) by (simp only: mult.assoc mult.left_commute)
  then have upper: "7 * ?v \<le> 8 * t" by simp
  show "0 < c" "c < 255" "c div 8 \<le> 10" using pos small unfolding c by simp_all
  show "t \<le> (1000 + 125 * (c mod 8)) div 2 ^ (10 - c div 8)" "7 * ((1000 + 125 * (c mod 8)) div 2 ^ (10 - c div 8)) \<le> 8 * t"
    using lower upper unfolding c v by simp_all
qed

text \<open>
  C38. A time of at most \<open>RFC5497_TIMETLV_MAX\<close> milliseconds is encoded (neither loop runs on), and its code stands for a
  time that is not shorter and at most a seventh longer.
\<close>

theorem timetlv_encode_rounds_up:
  assumes "RFC5497_TIMETLV_MIN \<le> t" and "t \<le> RFC5497_TIMETLV_MAX"
  shows "\<exists>c. rfc5497_timetlv_encode t = Inr c \<and> t \<le> rfc5497_timetlv_decode c \<and> 7 * unat (rfc5497_timetlv_decode c) \<le> 8 * unat t"
proof -
  have t: "0 < unat t" "unat t \<le> 0xdac00000"
    using assms by (simp_all add: RFC5497_TIMETLV_MIN_def RFC5497_TIMETLV_MAX_def word_le_nat_alt)
  have range: "\<not> t < RFC5497_TIMETLV_MIN" "\<not> t > RFC5497_TIMETLV_MAX" using assms by simp_all
  show ?thesis
  proof (cases "1000 \<le> t")
    case True
    then have t1000: "1000 \<le> unat t" by (simp add: word_le_nat_alt)
    obtain k e where run: "tv_halve t 10 = (e, 10 + of_nat k)" and c: "ceil_shift (unat t) k (unat e)" and e: "unat e \<le> 1875"
      and k: "if k = 0 then e = t else 938 \<le> unat e \<and> 2 ^ k * 938 < unat t + 2 ^ k"
      using tv_halve_spec [of t 10] t by auto
    let ?m = "(unat e - 876) div 125" and ?a = "ucast ((e - 1000 + 124) div 125) :: u32"
    let ?c = "ucast (?a + push_bit 3 (of_nat (10 + k))) :: u8"
    have e938: "938 \<le> unat e" using k t1000 by (simp split: if_splits)
    have "let m = ?m in k \<le> 21 \<and> m \<le> 7 \<and> m + 8 * (10 + k) < 255 \<and> unat t \<le> 2 ^ k * (1000 + 125 * m) \<and> 7 * (2 ^ k * (1000 + 125 * m)) \<le> 8 * unat t"
      by (rule tv_encoded_large [OF t1000 t(2) c e e938]) (use k t1000 in \<open>simp_all split: if_splits\<close>)
    then have m: "?m \<le> 7" "?m + 8 * (10 + k) < 255" "unat t \<le> 2 ^ k * (1000 + 125 * ?m)" "7 * (2 ^ k * (1000 + 125 * ?m)) \<le> 8 * unat t"
      unfolding Let_def by blast+
    have a: "unat ?a = ?m" by (rule tv_mantissa) (use e e938 in simp_all)
    have code: "unat ?c = ?m + 8 * (10 + k)" using tv_code [of ?a "10 + k"] m(2) a by simp
    then have "unat ?c div 8 = 10 + k" "unat ?c mod 8 = ?m" using code_parts [OF m(1), of "10 + k"] by simp_all
    then have dec: "unat (rfc5497_timetlv_decode ?c) = 2 ^ k * (1000 + 125 * ?m)" using tv_decode_nat [of ?c] code m(2) by auto
    have "rfc5497_timetlv_encode t = Inr ?c" using run range True by (simp add: rfc5497_timetlv_encode_def Let_def)
    with dec m(3,4) show ?thesis by (auto simp: word_le_nat_alt)
  next
    case False
    then have t1000: "unat t < 1000" by (simp add: word_le_nat_alt)
    obtain k e where k: "0 < k" "k \<le> 10" and run: "tv_double TV_DOUBLINGS t 10 = Inr (e, 10 - of_nat k)"
      and e: "unat e = 2 ^ k * unat t" "1000 \<le> unat e" "unat e < 2000"
      using tv_double_spec [of t TV_DOUBLINGS 10] t t1000 by (auto simp: TV_DOUBLINGS_def)
    let ?m = "(unat e - 876) div 125" and ?a = "ucast ((e - 1000 + 124) div 125) :: u32"
    let ?c = "ucast (?a + push_bit 3 (of_nat (10 - k))) :: u8" and ?n = "(unat e - 876) div 125 + 8 * (10 - k)"
    note m = tv_encoded_small [OF t(1) e k refl]
    have a: "unat ?a = ?m" by (rule tv_mantissa) (use e in simp_all)
    have code: "unat ?c = ?n" using tv_code [of ?a "10 - k"] m(2) a by simp
    have dec: "unat (rfc5497_timetlv_decode ?c) = (1000 + 125 * (?n mod 8)) div 2 ^ (10 - ?n div 8)"
      using tv_decode_nat [of ?c] m(1-3) unfolding code by simp
    have "(10 :: u32) - of_nat k = of_nat (10 - k)" using k(2) by (simp add: of_nat_diff)
    then have "rfc5497_timetlv_encode t = Inr ?c" using run range False by (simp add: rfc5497_timetlv_encode_def Let_def)
    moreover have "t \<le> rfc5497_timetlv_decode ?c" using m(4) by (simp only: word_le_nat_alt dec)
    moreover have "7 * unat (rfc5497_timetlv_decode ?c) \<le> 8 * unat t" using m(5) by (simp only: dec)
    ultimately show ?thesis by blast
  qed
qed

theorem timetlv_encode_rounds_up_witness: "\<exists>c. rfc5497_timetlv_encode 1001 = Inr c \<and> 1001 \<le> rfc5497_timetlv_decode c \<and> rfc5497_timetlv_decode c = 1125"
proof -
  obtain c where "rfc5497_timetlv_encode 1001 = Inr c" "1001 \<le> rfc5497_timetlv_decode c"
    using timetlv_encode_rounds_up [of 1001] by (auto simp: RFC5497_TIMETLV_MIN_def RFC5497_TIMETLV_MAX_def)
  moreover have "rfc5497_timetlv_encode 1001 = Inr 81" by code_simp
  moreover have "rfc5497_timetlv_decode 81 = 1125" by code_simp
  ultimately show ?thesis by auto
qed

lemma metric_halve_exact:
  assumes "257 \<le> unat m" and "unat m \<le> 512" and "unat d = unat m * 2 ^ e" and "e \<le> 15"
  shows "metric_halve d a = (m, a + of_nat e)"
  using assms(3,4)
proof (induction e arbitrary: d a)
  case 0
  then have "d = m" by (simp add: word_unat_eq_iff)
  then show ?case using assms(2) by (subst metric_halve.simps) (simp add: word_less_nat_alt)
next
  case (Suc e)
  have "unat m * 2 ^ e \<ge> 257 * 1" using assms(1) by (intro mult_le_mono) simp_all
  then have d: "512 < d" using Suc.prems by (simp add: word_less_nat_alt)
  have "(2 :: nat) ^ Suc e \<le> 2 ^ 15" using Suc.prems(2) by (intro power_increasing) simp_all
  then have "unat d \<le> 512 * 2 ^ 15" unfolding Suc.prems(1) using assms(2) by (intro mult_le_mono)
  then have "unat (drop_bit 1 (d + 1)) = (unat d + 1) div 2" by (intro unat_half) simp
  also have "\<dots> = unat m * 2 ^ e" using Suc.prems(1) by simp
  finally have "metric_halve (drop_bit 1 (d + 1)) (a + 1) = (m, a + 1 + of_nat e)" using Suc.IH Suc.prems(2) by simp
  then show ?case using d by (subst metric_halve.simps) (simp add: add.assoc)
qed

text \<open>
  Decoding a metric and encoding the result gives the same twelve bits back; the flags in the upper half of the
  first byte are lost, whatever they were.
\<close>

lemma metric_code_roundtrip:
  "rfc7181_metric_encode g (rfc7181_metric_decode f) = (0, g\<lparr>mf_b0 := mf_b0 f AND 15, mf_b1 := mf_b1 f\<rparr>)"
proof -
  let ?e = "unat (mf_b0 f AND 15)" and ?m = "257 + ucast (mf_b1 f) :: u32"
  have e: "?e \<le> 15" using and_15 [of "mf_b0 f"] by simp
  have b: "unat (ucast (mf_b1 f) :: u32) = unat (mf_b1 f)" "unat (mf_b1 f) < 256"
    using unsigned_less [where 'a = nat and w = "mf_b1 f"] by (simp_all add: unsigned_ucast_eq take_bit_nat_eq_self)
  then have m: "unat ?m = 257 + unat (mf_b1 f)" by (simp add: unat_word_ariths)
  have "(2 :: nat) ^ ?e \<le> 2 ^ 15" using e by (intro power_increasing) simp_all
  with m b(2) have top: "unat ?m * 2 ^ ?e \<le> 512 * 2 ^ 15" by (intro mult_le_mono) simp_all
  have "257 * 1 \<le> unat ?m * 2 ^ ?e" using m by (intro mult_le_mono) simp_all
  then have low: "257 \<le> unat ?m * 2 ^ ?e" by simp
  have shift: "unat (push_bit ?e ?m) = unat ?m * 2 ^ ?e" by (rule unat_push) (use top in simp)
  have "rfc7181_metric_decode f = push_bit ?e ?m - 256" by (simp only: rfc7181_metric_decode_def Let_def)
  moreover from this have "unat (rfc7181_metric_decode f) = unat ?m * 2 ^ ?e - 256"
    using low shift by (simp only: unat_sub word_le_nat_alt) (simp add: unat_sub word_le_nat_alt)
  ultimately have "\<not> rfc7181_metric_decode f < RFC7181_METRIC_MIN" "\<not> RFC7181_METRIC_INFINITE \<le> rfc7181_metric_decode f"
    "\<not> RFC7181_METRIC_MAX < rfc7181_metric_decode f" "rfc7181_metric_decode f + 256 = push_bit ?e ?m"
    using top low by (simp_all add: RFC7181_METRIC_MIN_def RFC7181_METRIC_INFINITE_def RFC7181_METRIC_MAX_def word_less_nat_alt word_le_nat_alt)
  moreover have "metric_halve (push_bit ?e ?m) 0 = (?m, 0 + of_nat ?e)" by (rule metric_halve_exact) (use m b(2) shift e in simp_all)
  moreover have "ucast (?m - 257) = mf_b1 f" by (simp add: ucast_up_ucast_id is_up)
  ultimately show ?thesis by (simp add: rfc7181_metric_encode_def Let_def)
qed

text \<open>The values of a time vector: the first whose hop count is not exceeded, the last if there is none.\<close>

fun time_for :: "u8 \<Rightarrow> u8 list \<Rightarrow> u8" where
  "time_for hopcount (v # h # rest) = (if hopcount \<le> h then v else time_for hopcount rest)"
| "time_for hopcount [v] = v"
| "time_for hopcount [] = 255"

lemma tv_search_spec: "odd (length v) \<Longrightarrow> tv_search (pre @ v) (length (pre @ v)) hopcount (length pre + 1) = Inr (time_for hopcount v)"
proof (induction hopcount v arbitrary: pre rule: time_for.induct)
  case (1 hopcount v h rest)
  have "tv_search ((pre @ [v, h]) @ rest) (length ((pre @ [v, h]) @ rest)) hopcount (length (pre @ [v, h]) + 1) = Inr (time_for hopcount rest)"
    if "\<not> hopcount \<le> h" by (rule "1.IH") (use "1.prems" that in simp_all)
  then show ?case by (subst tv_search.simps) (simp add: mem_get_def nth_append)
qed (subst tv_search.simps; simp add: mem_get_def nth_append)+

lemma timetlv_vector_spec:
  "rfc5497_timetlv_get_from_vector v (length v) hopcount = Inr (if even (length v) then 255 else time_for hopcount v)"
  using tv_search_spec [of v "[]"] by (simp add: rfc5497_timetlv_get_from_vector_def)

text \<open>
  Two sequence numbers are ordered by exactly one of the two comparisons, except when they are half the range apart:
  then each is smaller than the other, and neither is larger. The difference has the sign of the comparison.
\<close>

lemma rfc5444_seqno_order:
  "(rfc5444_seqno_is_larger s1 s2 \<longleftrightarrow> 0 < rfc5444_seqno_difference s1 s2 \<and> rfc5444_seqno_difference s1 s2 < 2 ^ 15) \<and>
   (rfc5444_seqno_is_smaller s1 s2 \<and> rfc5444_seqno_is_smaller s2 s1 \<longleftrightarrow> s1 - s2 = 2 ^ 15)"
proof -
  let ?a = "uint s1" and ?b = "uint s2"
  have r: "0 \<le> ?a" "?a < 65536" "0 \<le> ?b" "?b < 65536" using uint_lt2p [of s1] uint_lt2p [of s2] by simp_all
  have larger: "rfc5444_seqno_is_larger s1 s2 \<longleftrightarrow> 0 < rfc5444_seqno_difference s1 s2 \<and> rfc5444_seqno_difference s1 s2 < 2 ^ 15"
    using r by (auto simp: rfc5444_seqno_is_larger_def rfc5444_seqno_difference_def Let_def word_less_def split: if_splits; use r in linarith)
  have "s1 - s2 = 2 ^ 15 \<longleftrightarrow> uint (s1 - s2) = 32768" by (simp add: word_uint_eq_iff)
  also have "\<dots> \<longleftrightarrow> (?a - ?b) mod 65536 = 32768" by (simp add: uint_word_ariths)
  also have "(?a - ?b) mod 65536 = (if ?a < ?b then ?a - ?b + 65536 else ?a - ?b)"
  proof (cases "?a < ?b")
    case True
    have "(?a - ?b) mod 65536 = (?a - ?b + 65536) mod 65536" by simp
    also have "\<dots> = ?a - ?b + 65536" by (rule mod_pos_pos_trivial) (use r True in linarith)+
    finally show ?thesis using True by simp
  next
    case False
    have "(?a - ?b) mod 65536 = ?a - ?b" by (rule mod_pos_pos_trivial) (use r False in linarith)+
    then show ?thesis using False by simp
  qed
  also have "\<dots> = 32768 \<longleftrightarrow> ?a - ?b = 32768 \<or> ?b - ?a = 32768" using r by auto
  also have "\<dots> \<longleftrightarrow> rfc5444_seqno_is_smaller s1 s2 \<and> rfc5444_seqno_is_smaller s2 s1"
    using r by (auto simp: rfc5444_seqno_is_smaller_def rfc5444_seqno_is_larger_def word_less_def word_uint_eq_iff)
  finally show ?thesis using larger by simp
qed

end
