(* ===== verification/OonfString.thy ===== *)
theory OonfString
  imports Prelude
begin

text \<open>
  String helpers and arrays of strings, \<open>core/contrib/oonf_api/common/string.c\<close> and \<open>string.h\<close>. A pointer
  into a constant string is the memory from there on, NULL is \<open>None\<close>; a buffer that is written to is the memory the
  pointer was given with, and its new contents are part of the result.
\<close>

section \<open>The C library\<close>

text \<open>\<open>strlen\<close>; without a zero byte it leaves the memory.\<close>

fun c_strlen :: "u8 list \<Rightarrow> nat outcome" where
  "c_strlen [] = Inl OutOfBounds"
| "c_strlen (c # p) = (if c = 0 then Inr 0 else map_sum id Suc (c_strlen p))"

text \<open>The byte a pointer points to, the C expression \<open>*p\<close>.\<close>

definition at :: "u8 list \<Rightarrow> u8 outcome" where
  "at p = mem_get p 0"

definition isblank :: "u8 \<Rightarrow> bool" where "isblank c \<longleftrightarrow> c = 32 \<or> c = 9"
definition isspace :: "u8 \<Rightarrow> bool" where "isspace c \<longleftrightarrow> c = 32 \<or> 9 \<le> c \<and> c \<le> 13"
definition tolower :: "u8 \<Rightarrow> u8" where "tolower c = (if 65 \<le> c \<and> c \<le> 90 then c + 32 else c)"

text \<open>\<open>while (P(*p)) p++\<close>\<close>

fun skip_while :: "(u8 \<Rightarrow> bool) \<Rightarrow> u8 list \<Rightarrow> u8 list outcome" where
  "skip_while P [] = Inl OutOfBounds"
| "skip_while P (c # p) = (if P c then skip_while P p else Inr (c # p))"

text \<open>\<open>strncpy\<close>: at most \<open>n\<close> bytes, filled up with zeros behind the end of the string.\<close>

fun strncpy_bytes :: "u8 list \<Rightarrow> nat \<Rightarrow> u8 list outcome" where
  "strncpy_bytes src 0 = Inr []"
| "strncpy_bytes [] (Suc n) = Inl OutOfBounds"
| "strncpy_bytes (c # src) (Suc n) =
     (if c = 0 then Inr (replicate (Suc n) 0) else map_sum id ((#) c) (strncpy_bytes src n))"

text \<open>
  \<open>strncmp\<close> and \<open>strncasecmp\<close>, of which only the sign is specified; \<open>f\<close> is the identity or \<open>tolower\<close>. Without a limit they are
  \<open>strcmp\<close> and \<open>strcasecmp\<close>.
\<close>

fun str_compare :: "(u8 \<Rightarrow> u8) \<Rightarrow> nat option \<Rightarrow> u8 list \<Rightarrow> u8 list \<Rightarrow> int outcome" where
  "str_compare f n (a # p) (b # q) =
     (if n = Some 0 then Inr 0
      else if f a < f b then Inr (-1) else if f b < f a then Inr 1
      else if a = 0 then Inr 0 else str_compare f (map_option (\<lambda>k. k - 1) n) p q)"
| "str_compare f n p q = (if n = Some 0 then Inr 0 else Inl OutOfBounds)"

section \<open>Copying and trimming\<close>

definition strscpy :: "u8 list option \<Rightarrow> u8 list option \<Rightarrow> nat \<Rightarrow> u8 list option outcome" where
  "strscpy dest src sz =
     (case (dest, src) of
        (Some d, Some s) \<Rightarrow>
          if sz = 0 then Inr dest
          else bnd (strncpy_bytes s (sz - 1)) (\<lambda>bs. bnd (mem_write d 0 (bs @ [0])) (\<lambda>d. Inr (Some d)))
      | _ \<Rightarrow> Inr dest)"

definition strscat :: "u8 list option \<Rightarrow> u8 list option \<Rightarrow> nat \<Rightarrow> u8 list option outcome" where
  "strscat dest src sz =
     (case (dest, src) of
        (Some d, Some s) \<Rightarrow>
          if sz = 0 then Inr dest
          else bnd (at s) (\<lambda>c.
               if c = 0 then Inr dest
               else bnd (c_strlen d) (\<lambda>l.
                    if l < sz then bnd (strscpy (Some (drop l d)) src (sz - l)) (\<lambda>t. Inr (map_option (\<lambda>t. take l d @ t) t))
                    else Inr dest))
      | _ \<Rightarrow> Inr dest)"

text \<open>\<open>while (--len > 0 && isspace(ptr[len])) ptr[len] = 0\<close>\<close>

fun trim_end :: "nat \<Rightarrow> u8 list \<Rightarrow> u8 list outcome" where
  "trim_end 0 p = Inr p"
| "trim_end (Suc l) p =
     (if l > 0 then bnd (mem_get p l) (\<lambda>c. if isspace c then bnd (mem_write p l [0]) (trim_end l) else Inr p) else Inr p)"

text \<open>The result is the memory from the returned pointer on; the bytes in front of it do not change.\<close>

definition str_trim :: "u8 list option \<Rightarrow> u8 list option outcome" where
  "str_trim ptr =
     (case ptr of None \<Rightarrow> Inr None
      | Some p \<Rightarrow> bnd (skip_while isspace p) (\<lambda>p. bnd (c_strlen p) (\<lambda>len. bnd (if len \<noteq> 0 then trim_end len p else Inr p) (\<lambda>p. Inr (Some p)))))"

section \<open>Words\<close>

fun match_word :: "u8 list \<Rightarrow> u8 list \<Rightarrow> (u8 list \<times> u8 list) outcome" where
  "match_word (w # word) (b # buffer) =
     (if w \<noteq> 0 \<and> b \<noteq> 0 \<and> \<not> isblank b \<and> tolower w = tolower b then match_word word buffer else Inr (w # word, b # buffer))"
| "match_word (w # word) [] = (if w \<noteq> 0 then Inl OutOfBounds else Inr (w # word, []))"
| "match_word [] buffer = Inl OutOfBounds"

definition str_hasnextword :: "u8 list option \<Rightarrow> u8 list \<Rightarrow> u8 list option outcome" where
  "str_hasnextword buffer word =
     (case buffer of None \<Rightarrow> Inr None
      | Some b \<Rightarrow>
          bnd (skip_while isblank b) (\<lambda>b.
          bnd (match_word word b) (\<lambda>(w, b).
          bnd (at w) (\<lambda>wc.
          if wc \<noteq> 0 then Inr None
          else bnd (at b) (\<lambda>bc.
               if bc = 0 \<or> isblank bc then bnd (skip_while isblank b) (\<lambda>b. Inr (Some b)) else Inr None)))))"

definition next_or_end :: "u8 list \<Rightarrow> u8 list option outcome" where
  "next_or_end src = bnd (skip_while isblank src) (\<lambda>src. bnd (at src) (\<lambda>c. Inr (if c \<noteq> 0 then Some src else None)))"

text \<open>The copying loop, with \<open>i\<close> bytes in \<open>dst\<close>; \<open>len\<close> is a \<open>size_t\<close>.\<close>

fun copy_word :: "u32 \<Rightarrow> u8 list \<Rightarrow> nat \<Rightarrow> u8 list \<Rightarrow> (u8 list \<times> nat \<times> u8 list) outcome" where
  "copy_word len dst i [] = Inl OutOfBounds"
| "copy_word len dst i (c # src) =
     (if c \<noteq> 0 \<and> \<not> isblank c \<and> of_nat i < len - 1 then bnd (mem_write dst i [c]) (\<lambda>dst. copy_word len dst (i + 1) src)
      else Inr (dst, i, c # src))"

definition str_cpynextword :: "u8 list \<Rightarrow> u8 list option \<Rightarrow> u32 \<Rightarrow> (u8 list \<times> u8 list option) outcome" where
  "str_cpynextword dst src len =
     (case src of None \<Rightarrow> bnd (mem_write dst 0 [0]) (\<lambda>dst. Inr (dst, None))
      | Some s \<Rightarrow>
          bnd (skip_while isblank s) (\<lambda>s.
          bnd (copy_word len dst 0 s) (\<lambda>(dst, i, s).
          bnd (mem_write dst i [0]) (\<lambda>dst.
          bnd (next_or_end s) (\<lambda>r. Inr (dst, r))))))"

definition str_skipnextword :: "u8 list option \<Rightarrow> u8 list option outcome" where
  "str_skipnextword src =
     (case src of None \<Rightarrow> Inr None
      | Some s \<Rightarrow>
          bnd (skip_while isblank s) (\<lambda>s.
          bnd (skip_while (\<lambda>c. c \<noteq> 0 \<and> \<not> isblank c) s) next_or_end))"

text \<open>\<open>str_countwords\<close>; every round skips at least one byte.\<close>

declare bnd_cong [fundef_cong]

lemma skip_while_length: "skip_while P s = Inr s' \<Longrightarrow> length s' \<le> length s"
  by (induction P s rule: skip_while.induct) (auto split: if_splits)

lemma next_or_end_length: "next_or_end s = Inr (Some s') \<Longrightarrow> length s' \<le> length s"
  by (auto simp: next_or_end_def outcome_simps split: if_splits dest: skip_while_length)

lemma skipnextword_length:
  assumes "at s = Inr c" and "c \<noteq> 0" and "str_skipnextword (Some s) = Inr (Some s')"
  shows "length s' < length s"
proof -
  from assms(1) obtain t where s: "s = c # t" by (cases s) (auto simp: at_def mem_get_def)
  from assms(3) obtain u v where u: "skip_while isblank s = Inr u" and v: "skip_while (\<lambda>c. c \<noteq> 0 \<and> \<not> isblank c) u = Inr v"
    and e: "next_or_end v = Inr (Some s')" by (auto simp: str_skipnextword_def outcome_simps)
  have "length v < length s"
  proof (cases "isblank c")
    case True
    with u s have "length u \<le> length t" by (auto dest: skip_while_length)
    with skip_while_length [OF v] s show ?thesis by simp
  next
    case False
    with u s have "u = c # t" by simp
    with v assms(2) False have "length v \<le> length t" by (auto dest: skip_while_length)
    with s show ?thesis by simp
  qed
  with next_or_end_length [OF e] show ?thesis by simp
qed

function count_words :: "u8 list option \<Rightarrow> nat outcome" where
  "count_words None = Inr 0"
| "count_words (Some s) =
     bnd (at s) (\<lambda>c. if c = 0 then Inr 0 else bnd (str_skipnextword (Some s)) (\<lambda>r. map_sum id Suc (count_words r)))"
  by pat_completeness auto
termination
proof (relation "measure (\<lambda>s. case s of None \<Rightarrow> 0 | Some s \<Rightarrow> Suc (length s))")
  fix s c r assume "at s = Inr c" "c \<noteq> 0" "str_skipnextword (Some s) = Inr r"
  then show "(r, Some s) \<in> measure (\<lambda>s. case s of None \<Rightarrow> 0 | Some s \<Rightarrow> Suc (length s))"
    by (cases r) (auto dest: skipnextword_length)
qed simp

definition str_countwords :: "u8 list option \<Rightarrow> nat outcome" where
  "str_countwords src = (case src of None \<Rightarrow> Inr 0 | Some s \<Rightarrow> bnd (skip_while isblank s) (\<lambda>s. count_words (Some s)))"

section \<open>Tests\<close>

definition str_char_is_printable :: "u8 \<Rightarrow> bool" where
  "str_char_is_printable c \<longleftrightarrow> \<not> (c < 32 \<or> c = 127 \<or> c = 255)"

fun str_is_printable :: "u8 list \<Rightarrow> bool outcome" where
  "str_is_printable [] = Inl OutOfBounds"
| "str_is_printable (c # p) = (if c = 0 then Inr True else if \<not> str_char_is_printable c then Inr False else str_is_printable p)"

text \<open>For \<open>f\<close> the identity, \<open>str_startswith\<close> and \<open>str_endswith\<close>; for \<open>f\<close> \<open>tolower\<close>, the variants that ignore the case.\<close>

definition str_startswith :: "(u8 \<Rightarrow> u8) \<Rightarrow> u8 list \<Rightarrow> u8 list \<Rightarrow> bool outcome" where
  "str_startswith f str pattern =
     bnd (c_strlen pattern) (\<lambda>n. bnd (str_compare f (Some n) str pattern) (\<lambda>r. Inr (r = 0)))"

definition str_endswith :: "(u8 \<Rightarrow> u8) \<Rightarrow> u8 list \<Rightarrow> u8 list \<Rightarrow> bool outcome" where
  "str_endswith f str pattern =
     bnd (c_strlen str) (\<lambda>s_len. bnd (c_strlen pattern) (\<lambda>p_len.
       if s_len > p_len then bnd (str_compare f None (drop (s_len - p_len) str) pattern) (\<lambda>r. Inr (r = 0)) else Inr False))"

section \<open>Arrays of strings\<close>

text \<open>
  \<open>struct strarray\<close>: a block of memory that starts with the strings, each with its zero byte, \<open>sa_length\<close> bytes in all. A
  pointer to one of the strings is its offset in the block. \<open>realloc\<close> is a parameter: what it leaves in the new part
  of a block, and whether it succeeds, is not determined.
\<close>

record strarray =
  sa_value :: "u8 list option"
  sa_length :: nat

definition STRARRAY_BLOCKSIZE :: nat where "STRARRAY_BLOCKSIZE = 64"

definition STRARRAY_MEMSIZE :: "nat \<Rightarrow> nat" where
  "STRARRAY_MEMSIZE n = unat ((of_nat n + of_nat STRARRAY_BLOCKSIZE - 1) AND NOT (of_nat STRARRAY_BLOCKSIZE - 1) :: u32)"

type_synonym realloc = "u8 list option \<Rightarrow> nat \<Rightarrow> u8 list option"

definition realloc_ok :: "realloc \<Rightarrow> bool" where
  "realloc_ok A \<longleftrightarrow> (\<forall>p n b. A p n = Some b \<longrightarrow> length b = n \<and> (\<forall>old. p = Some old \<longrightarrow> take (length old) b = take n old))"

definition strarray_init :: strarray where
  "strarray_init = \<lparr>sa_value = None, sa_length = 0\<rparr>"

definition strarray_free :: "strarray \<Rightarrow> strarray" where
  "strarray_free a = strarray_init"

definition strarray_is_empty :: "strarray \<Rightarrow> bool" where
  "strarray_is_empty a \<longleftrightarrow> sa_value a = None"

definition strarray_copy :: "realloc \<Rightarrow> strarray \<Rightarrow> strarray \<Rightarrow> (int \<times> strarray) outcome" where
  "strarray_copy A dst src =
     (case sa_value src of
        None \<Rightarrow> Inr (0, strarray_init)
      | Some v \<Rightarrow>
          if sa_length src = 0 then Inr (0, strarray_init)
          else let block = STRARRAY_MEMSIZE (sa_length src) in
            (case A (sa_value dst) block of
               None \<Rightarrow> Inr (-1, dst)
             | Some ptr \<Rightarrow>
                 bnd (mem_read v 0 (sa_length src)) (\<lambda>bs.
                 bnd (mem_write ptr 0 bs) (\<lambda>ptr.
                 bnd (guard (sa_length src \<le> block) OutOfBounds) (\<lambda>_.
                 bnd (mem_write ptr (sa_length src) (replicate (block - sa_length src) 0)) (\<lambda>ptr.
                 Inr (0, \<lparr>sa_value = Some ptr, sa_length = sa_length src\<rparr>)))))))"

definition strarray_append :: "realloc \<Rightarrow> strarray \<Rightarrow> u8 list \<Rightarrow> (int \<times> strarray) outcome" where
  "strarray_append A a str =
     bnd (c_strlen str) (\<lambda>n.
     let len = n + 1; new_length = sa_length a + len in
     case A (sa_value a) (STRARRAY_MEMSIZE new_length) of
       None \<Rightarrow> Inr (-1, a)
     | Some ptr \<Rightarrow>
         bnd (mem_read str 0 len) (\<lambda>bs.
         bnd (mem_write ptr (sa_length a) bs) (\<lambda>ptr.
         Inr (0, \<lparr>sa_value = Some ptr, sa_length = new_length\<rparr>))))"

definition strarray_prepend :: "realloc \<Rightarrow> strarray \<Rightarrow> u8 list \<Rightarrow> (int \<times> strarray) outcome" where
  "strarray_prepend A a str =
     bnd (c_strlen str) (\<lambda>n.
     let len = n + 1; new_length = sa_length a + len in
     case A (sa_value a) (STRARRAY_MEMSIZE new_length) of
       None \<Rightarrow> Inr (-1, a)
     | Some ptr \<Rightarrow>
         bnd (mem_read ptr 0 (sa_length a)) (\<lambda>old.
         bnd (mem_write ptr len old) (\<lambda>ptr.
         bnd (mem_read str 0 len) (\<lambda>bs.
         bnd (mem_write ptr 0 bs) (\<lambda>ptr.
         Inr (0, \<lparr>sa_value = Some ptr, sa_length = new_length\<rparr>))))))"

text \<open>Both lengths are \<open>size_t\<close>; \<open>element\<close> is the offset of the string to remove.\<close>

definition strarray_remove_ext :: "realloc \<Rightarrow> strarray \<Rightarrow> nat \<Rightarrow> bool \<Rightarrow> strarray outcome" where
  "strarray_remove_ext A a element resize =
     bnd (deref (sa_value a)) (\<lambda>v.
     bnd (c_strlen (drop element v)) (\<lambda>n.
     let len = n + 1 in
     if len = sa_length a then Inr (strarray_free a)
     else let new_length = unat (of_nat (sa_length a) - of_nat len :: u32) in
       bnd (if element \<le> new_length
            then bnd (mem_read v (element + len) (new_length - element)) (mem_write v element)
            else Inr v) (\<lambda>v.
       if \<not> resize then Inr \<lparr>sa_value = Some v, sa_length = new_length\<rparr>
       else case A (Some v) (STRARRAY_MEMSIZE new_length) of
              None \<Rightarrow> Inr \<lparr>sa_value = Some v, sa_length = new_length\<rparr>
            | Some p \<Rightarrow> Inr \<lparr>sa_value = Some p, sa_length = new_length\<rparr>)))"

definition strarray_remove :: "realloc \<Rightarrow> strarray \<Rightarrow> nat \<Rightarrow> strarray outcome" where
  "strarray_remove A a element = strarray_remove_ext A a element True"

text \<open>The macro \<open>strarray_for_each_element\<close> from offset \<open>p\<close> on, as the list of the offsets it visits.\<close>

function each_from :: "u8 list \<Rightarrow> nat \<Rightarrow> nat \<Rightarrow> nat list outcome" where
  "each_from v n p = (if p < n then bnd (c_strlen (drop p v)) (\<lambda>l. map_sum id ((#) p) (each_from v n (p + (l + 1)))) else Inr [])"
  by pat_completeness auto
termination by (relation "measure (\<lambda>(v, n, p). n - p)") auto

declare each_from.simps [simp del]

definition strarray_for_each_element :: "strarray \<Rightarrow> nat list outcome" where
  "strarray_for_each_element a = (case sa_value a of None \<Rightarrow> Inr [] | Some v \<Rightarrow> each_from v (sa_length a) 0)"

definition strarray_get_count :: "strarray \<Rightarrow> nat outcome" where
  "strarray_get_count a = map_sum id length (strarray_for_each_element a)"

function get_from :: "u8 list \<Rightarrow> nat \<Rightarrow> nat \<Rightarrow> nat \<Rightarrow> nat \<Rightarrow> nat option outcome" where
  "get_from v n idx count p =
     (if p < n then if count = idx then Inr (Some p) else bnd (c_strlen (drop p v)) (\<lambda>l. get_from v n idx (count + 1) (p + (l + 1)))
      else Inr None)"
  by pat_completeness auto
termination by (relation "measure (\<lambda>(v, n, idx, count, p). n - p)") auto

declare get_from.simps [simp del]

definition strarray_get :: "strarray \<Rightarrow> nat \<Rightarrow> nat option outcome" where
  "strarray_get a idx = (case sa_value a of None \<Rightarrow> Inr None | Some v \<Rightarrow> get_from v (sa_length a) idx 0 0)"

definition strarray_get_first :: "strarray \<Rightarrow> nat option" where
  "strarray_get_first a = map_option (\<lambda>_. 0) (sa_value a)"

definition strarray_get_next :: "strarray \<Rightarrow> nat \<Rightarrow> nat outcome" where
  "strarray_get_next a current = bnd (deref (sa_value a)) (\<lambda>v. bnd (c_strlen (drop current v)) (\<lambda>l. Inr (current + l + 1)))"

definition strarray_get_next_safe :: "strarray \<Rightarrow> nat \<Rightarrow> nat option outcome" where
  "strarray_get_next_safe a current =
     bnd (strarray_get_next a current) (\<lambda>nxt. Inr (if nxt > sa_length a then None else Some nxt))"

definition strarray_cmp :: "strarray option \<Rightarrow> strarray option \<Rightarrow> int outcome" where
  "strarray_cmp a1 a2 =
     (case (Option.bind a1 sa_value, Option.bind a2 sa_value) of
        (None, None) \<Rightarrow> Inr 0
      | (None, Some _) \<Rightarrow> Inr (-1)
      | (Some _, None) \<Rightarrow> Inr 1
      | (Some v1, Some v2) \<Rightarrow>
          let n1 = sa_length (the a1); n2 = sa_length (the a2); min_len = (if n1 > n2 then n2 else n1) in
          bnd (mem_read v1 0 min_len) (\<lambda>b1. bnd (mem_read v2 0 min_len) (\<lambda>b2.
            let result = memcmp b1 b2 in
            Inr (if result = 0 then if n1 > n2 then 1 else if n1 < n2 then -1 else result else result))))"

section \<open>What the operations do to a string\<close>

text \<open>The memory \<open>s @ 0 # r\<close> holds the string \<open>s\<close> when \<open>s\<close> has no zero byte.\<close>

named_theorems cstring \<open>functions of the C library on a terminated string\<close>

lemma c_strlen_str [cstring]: "0 \<notin> set s \<Longrightarrow> c_strlen (s @ 0 # r) = Inr (length s)"
  by (induction s) auto

lemma skip_while_str [cstring]: "\<not> P 0 \<Longrightarrow> skip_while P (s @ 0 # r) = Inr (dropWhile P s @ 0 # r)"
  by (induction s) auto

lemma at_str [cstring]: "at (s @ 0 # r) = Inr (if s = [] then 0 else hd s)"
  by (cases s) (simp_all add: at_def mem_get_def)

lemma at_zero [cstring]: "at (0 # r) = Inr 0"
  by (simp add: at_def mem_get_def)

lemma isblank_0 [simp]: "\<not> isblank 0" and isspace_0 [simp]: "\<not> isspace 0"
  by (simp_all add: isblank_def isspace_def)

lemma strncpy_str [cstring]: "0 \<notin> set s \<Longrightarrow> strncpy_bytes (s @ 0 # r) n = Inr (take n s @ replicate (n - length s) 0)"
proof (induction s arbitrary: n)
  case Nil
  show ?case by (cases n) simp_all
next
  case (Cons c s)
  then show ?case by (cases n) simp_all
qed

text \<open>
  Copying a string into a buffer of \<open>sz\<close> bytes stores as much of it as fits in front of a zero byte and fills the
  rest of the buffer with zeros; nothing behind the buffer is written.
\<close>

lemma strscpy_spec:
  assumes "0 \<notin> set s" and "0 < sz" and "sz \<le> length d"
  shows "strscpy (Some d) (Some (s @ 0 # r)) sz = Inr (Some (take (sz - 1) s @ replicate (sz - min (sz - 1) (length s)) 0 @ drop sz d))"
proof -
  let ?bs = "take (sz - 1) s @ replicate (sz - 1 - length s) 0"
  have len: "length (?bs @ [0]) = sz" using assms(2) by simp
  have "sz - min (sz - 1) (length s) = Suc (sz - 1 - length s)" using assms(2) by linarith
  then have "replicate (sz - 1 - length s) 0 @ [0] = replicate (sz - min (sz - 1) (length s)) (0 :: u8)"
    by (simp only: replicate_append_same replicate_Suc)
  then have "?bs @ [0] = take (sz - 1) s @ replicate (sz - min (sz - 1) (length s)) 0" by (simp only: append_assoc)
  moreover have "mem_write d 0 (?bs @ [0]) = Inr ((?bs @ [0]) @ drop sz d)" using len assms(3) by (simp add: mem_write_def blit_def)
  ultimately show ?thesis using assms(1,2) by (simp add: strscpy_def cstring)
qed

definition trimmed :: "u8 list \<Rightarrow> u8 list" where
  "trimmed s = rev (dropWhile isspace (rev (dropWhile isspace s)))"

lemma trim_end_str:
  assumes "m \<noteq> []" and "\<not> isspace (hd m)"
  shows "trim_end (length m) (m @ q) = Inr (rev (dropWhile isspace (rev m)) @ replicate (length (takeWhile isspace (rev m))) 0 @ q)"
  using assms
proof (induction m arbitrary: q rule: rev_induct)
  case (snoc c m)
  show ?case
  proof (cases "m = []")
    case True
    then show ?thesis using snoc.prems by simp
  next
    case False
    have get: "mem_get ((m @ [c]) @ q) (length m) = Inr c" by (simp add: mem_get_def)
    have "mem_write ((m @ [c]) @ q) (length m) [0] = Inr (m @ 0 # q)" by (simp add: mem_write_def blit_def)
    moreover have "trim_end (length m) (m @ 0 # q) = Inr (rev (dropWhile isspace (rev m)) @ replicate (length (takeWhile isspace (rev m))) 0 @ 0 # q)"
      using snoc.IH [of "0 # q"] snoc.prems False by simp
    ultimately show ?thesis using get False by (simp add: replicate_app_Cons_same)
  qed
qed simp

text \<open>
  Trimming removes the white space around a string: the pointer moves over the leading one, the trailing one is
  overwritten with zeros.
\<close>

lemma str_trim_spec:
  assumes "0 \<notin> set s"
  shows "str_trim (Some (s @ 0 # r)) = Inr (Some (trimmed s @ replicate (length (dropWhile isspace s) - length (trimmed s)) 0 @ 0 # r))"
proof -
  let ?m = "dropWhile isspace s"
  have no0: "0 \<notin> set ?m" using assms by (auto dest: set_dropWhileD)
  show ?thesis
  proof (cases "?m = []")
    case True
    then show ?thesis by (simp add: str_trim_def cstring trimmed_def del: dropWhile_eq_Nil_conv)
  next
    case False
    then have "\<not> isspace (hd ?m)" by (rule hd_dropWhile)
    moreover have "length (takeWhile isspace (rev ?m)) = length ?m - length (trimmed s)"
      by (metis add_diff_cancel_right' length_append length_rev takeWhile_dropWhile_id trimmed_def)
    ultimately show ?thesis using False no0 trim_end_str [of ?m "0 # r"] by (simp add: str_trim_def cstring trimmed_def)
  qed
qed

section \<open>Words, as lists\<close>

abbreviation graph :: "u8 \<Rightarrow> bool" where
  "graph c \<equiv> \<not> isblank c"

lemma length_dropWhile_less: "s \<noteq> [] \<Longrightarrow> P (hd s) \<Longrightarrow> length (dropWhile P s) < length s"
  by (cases s) (simp_all add: length_dropWhile_le less_Suc_eq_le)

function str_words :: "u8 list \<Rightarrow> u8 list list" where
  "str_words s = (let t = dropWhile isblank s in if t = [] then [] else takeWhile graph t # str_words (dropWhile graph t))"
  by pat_completeness auto
termination
proof (relation "measure length")
  fix s t :: "u8 list"
  assume t: "t = dropWhile isblank s" and "t \<noteq> []"
  then have "\<not> isblank (hd t)" by (metis hd_dropWhile)
  with \<open>t \<noteq> []\<close> have "length (dropWhile graph t) < length t" by (intro length_dropWhile_less)
  also have "\<dots> \<le> length s" unfolding t by (rule length_dropWhile_le)
  finally show "(dropWhile graph t, s) \<in> measure length" by simp
qed simp

declare str_words.simps [simp del]

lemma no0_dropWhile: "0 \<notin> set s \<Longrightarrow> 0 \<notin> set (dropWhile P s)"
  by (auto dest: set_dropWhileD)

lemma skip_graph_str: "0 \<notin> set s \<Longrightarrow> skip_while (\<lambda>c. c \<noteq> 0 \<and> graph c) (s @ 0 # r) = Inr (dropWhile graph s @ 0 # r)"
  by (induction s) auto

definition rest_words :: "u8 list \<Rightarrow> u8 list \<Rightarrow> u8 list option" where
  "rest_words r s = (let t = dropWhile isblank s in if t = [] then None else Some (t @ 0 # r))"

lemma next_or_end_str [cstring]: "0 \<notin> set s \<Longrightarrow> next_or_end (s @ 0 # r) = Inr (rest_words r s)"
proof -
  assume "0 \<notin> set s"
  then have "0 \<notin> set (dropWhile isblank s)" by (rule no0_dropWhile)
  then have "hd (dropWhile isblank s) \<noteq> 0" if "dropWhile isblank s \<noteq> []" using that hd_in_set by metis
  then show ?thesis by (simp add: next_or_end_def cstring rest_words_def Let_def del: dropWhile_eq_Nil_conv)
qed

lemma skipnextword_str [cstring]:
  "0 \<notin> set s \<Longrightarrow> str_skipnextword (Some (s @ 0 # r)) = Inr (rest_words r (dropWhile graph (dropWhile isblank s)))"
  by (simp add: str_skipnextword_def skip_graph_str cstring no0_dropWhile)

lemma str_words_Nil [simp]: "str_words [] = []"
  by (subst str_words.simps) (simp add: Let_def)

lemma str_words_Cons: "str_words (c # s) = (if isblank c then str_words s else (c # takeWhile graph s) # str_words (dropWhile graph s))"
proof (cases "isblank c")
  case True
  then have "dropWhile isblank (c # s) = dropWhile isblank s" by simp
  with True show ?thesis by (subst (1 2) str_words.simps) (simp only: if_True)
next
  case False
  then show ?thesis by (subst str_words.simps) (simp add: Let_def)
qed

lemma str_words_skip: "str_words (dropWhile isblank s) = str_words s"
proof -
  have "dropWhile isblank (dropWhile isblank s) = dropWhile isblank s" by (induction s) auto
  then show ?thesis by (subst (1 2) str_words.simps) (simp only: Let_def)
qed

lemma count_words_str:
  assumes "0 \<notin> set s" and "dropWhile isblank s = s"
  shows "count_words (Some (s @ 0 # r)) = Inr (length (str_words s))"
  using assms
proof (induction "length s" arbitrary: s rule: less_induct)
  case less
  show ?case
  proof (cases "s = []")
    case True
    then show ?thesis by (simp add: at_def mem_get_def str_words.simps)
  next
    case False
    let ?u = "dropWhile graph s" and ?t = "dropWhile isblank (dropWhile graph s)"
    have nz: "hd s \<noteq> 0" using less.prems(1) False hd_in_set by metis
    have "\<not> isblank (hd s)" using False less.prems(2) hd_dropWhile by metis
    with False have "length ?u < length s" by (intro length_dropWhile_less)
    with length_dropWhile_le [of isblank ?u] have short: "length ?t < length s" by (rule le_less_trans)
    have words: "str_words s = takeWhile graph s # str_words ?u" using False less.prems(2) by (subst str_words.simps) (simp only: Let_def if_False)
    have skip: "str_skipnextword (Some (s @ 0 # r)) = Inr (rest_words r ?u)" using less.prems by (simp add: cstring)
    have "count_words (rest_words r ?u) = Inr (length (str_words ?u))"
    proof (cases "?t = []")
      case True
      then have "str_words ?u = []" by (subst str_words.simps) (simp only: Let_def if_True simp_thms)
      with True show ?thesis by (simp add: rest_words_def Let_def del: dropWhile_eq_Nil_conv)
    next
      case False
      have "count_words (Some (?t @ 0 # r)) = Inr (length (str_words ?t))"
      proof (rule less.hyps [OF short])
        show "dropWhile isblank ?t = ?t" by (induction ?u) auto
      qed (use less.prems in \<open>simp add: no0_dropWhile\<close>)
      with False show ?thesis by (simp add: rest_words_def Let_def str_words_skip del: dropWhile_eq_Nil_conv)
    qed
    then show ?thesis using False nz words skip by (simp add: cstring del: dropWhile_eq_Nil_conv)
  qed
qed

text \<open>The count of a string's words is the length of the list of its words.\<close>

lemma str_countwords_words:
  assumes "0 \<notin> set s"
  shows "str_countwords (Some (s @ 0 # r)) = Inr (length (str_words s))"
proof -
  have "dropWhile isblank (dropWhile isblank s) = dropWhile isblank s" by (induction s) auto
  then have "count_words (Some (dropWhile isblank s @ 0 # r)) = Inr (length (str_words (dropWhile isblank s)))"
    by (intro count_words_str) (use assms in \<open>simp_all add: no0_dropWhile\<close>)
  then show ?thesis by (simp add: str_countwords_def cstring str_words_skip)
qed

lemma mem_write_snoc: "length w < length d \<Longrightarrow> mem_write (blit d 0 w) (length w) [c] = Inr (blit d 0 (w @ [c]))"
  by (simp add: mem_write_def blit_def)

lemma copy_word_str:
  assumes "0 \<notin> set s" and "i \<le> unat len - 1" and "len \<noteq> 0" and "unat len \<le> length dst"
  shows "copy_word len dst i (s @ 0 # r) = (let w = take (unat len - 1 - i) (takeWhile graph s) in
    Inr (blit dst i w, i + length w, drop (length w) s @ 0 # r))"
  using assms
proof (induction s arbitrary: dst i)
  case Nil
  then show ?case by (simp add: blit_def)
next
  case (Cons c s)
  have len1: "unat (len - 1) = unat len - 1" using Cons.prems(3) by (simp add: unat_sub word_le_nat_alt unat_gt_0 Suc_leI)
  have "i < 2 ^ 32" using Cons.prems(2) unsigned_less [where 'a = nat and w = len] by simp
  then have less: "of_nat i < len - 1 \<longleftrightarrow> i < unat len - 1" by (simp only: word_less_nat_alt len1) (simp add: unsigned_of_nat take_bit_nat_eq_self)
  show ?case
  proof (cases "graph c \<and> i < unat len - 1")
    case True
    then have room: "i + 1 < length dst" using Cons.prems(4) by linarith
    then have "mem_write dst i [c] = Inr (blit dst i [c])" by (simp add: mem_write_def)
    moreover have "length (blit dst i [c]) = length dst" using room by simp
    moreover have "unat len - 1 - i = Suc (unat len - 1 - (i + 1))" using True by linarith
    moreover have "blit (blit dst i [c]) (i + 1) w = blit dst i (c # w)" for w
      using room by (simp add: blit_def min_def add.commute)
    ultimately show ?thesis using True less Cons.prems Cons.IH [of "i + 1" "blit dst i [c]"] by (simp add: Let_def)
  next
    case False
    then have none: "take (unat len - 1 - i) (takeWhile graph (c # s)) = []" by auto
    show ?thesis unfolding none Let_def using False less by (auto simp: blit_def)
  qed
qed

text \<open>
  Copying the next word writes at most \<open>len\<close> bytes, a terminated prefix of the word. What the returned pointer points
  to is the next word only when the word fitted: a longer word is cut, and its second part comes next.
\<close>

lemma str_cpynextword_spec:
  assumes "0 \<notin> set s" and "len \<noteq> 0" and "unat len \<le> length dst"
  shows "str_cpynextword dst (Some (s @ 0 # r)) len =
    (let t = dropWhile isblank s; w = take (unat len - 1) (takeWhile graph t) in
     Inr (blit dst 0 (w @ [0]), rest_words r (drop (length w) t)))"
proof -
  let ?t = "dropWhile isblank s"
  let ?w = "take (unat len - 1) (takeWhile graph ?t)"
  have t: "0 \<notin> set ?t" using assms(1) by (rule no0_dropWhile)
  have copy: "copy_word len dst 0 (?t @ 0 # r) = Inr (blit dst 0 ?w, length ?w, drop (length ?w) ?t @ 0 # r)"
    using copy_word_str [OF t, of 0 len dst r] assms(2,3) by (simp add: Let_def)
  have "unat len \<noteq> 0" using assms(2) by (simp add: unat_eq_zero)
  moreover have "length ?w \<le> unat len - 1" by simp
  ultimately have "length ?w < length dst" using assms(3) by linarith
  then have "mem_write (blit dst 0 ?w) (length ?w) [0] = Inr (blit dst 0 (?w @ [0]))" by (rule mem_write_snoc)
  moreover have "0 \<notin> set (drop (length ?w) ?t)" using t by (auto dest: in_set_dropD)
  ultimately show ?thesis using copy by (simp add: str_cpynextword_def cstring Let_def)
qed

definition has_word :: "u8 list \<Rightarrow> u8 list \<Rightarrow> bool" where
  "has_word w t \<longleftrightarrow> map tolower (takeWhile graph t) = map tolower w"

lemma match_word_str:
  assumes "0 \<notin> set t" and "0 \<notin> set w" and "\<forall>c \<in> set w. graph c"
  shows "\<exists>w' t'. match_word (w @ 0 # q) (t @ 0 # r) = Inr (w' @ 0 # q, t' @ 0 # r) \<and> 0 \<notin> set w' \<and> 0 \<notin> set t' \<and>
    (w' = [] \<and> (t' = [] \<or> isblank (hd t')) \<longleftrightarrow> has_word w t) \<and> (has_word w t \<longrightarrow> t' = dropWhile graph t)"
  using assms
proof (induction w arbitrary: t)
  case Nil
  show ?case
  proof (cases t)
    case (Cons c u)
    then show ?thesis using Nil.prems by (intro exI [of _ "[]"] exI [of _ t]) (auto simp: has_word_def)
  qed (simp add: has_word_def)
next
  case (Cons a w)
  show ?case
  proof (cases t)
    case Nil
    then show ?thesis using Cons.prems by (intro exI [of _ "a # w"] exI [of _ "[]"]) (auto simp: has_word_def)
  next
    case (Cons c u)
    show ?thesis
    proof (cases "graph c \<and> tolower a = tolower c")
      case True
      obtain w' t' where *: "match_word (w @ 0 # q) (u @ 0 # r) = Inr (w' @ 0 # q, t' @ 0 # r)" "0 \<notin> set w'" "0 \<notin> set t'"
        "w' = [] \<and> (t' = [] \<or> isblank (hd t')) \<longleftrightarrow> has_word w u" "has_word w u \<longrightarrow> t' = dropWhile graph u"
        using Cons.IH [of u] Cons.prems Cons by auto
      moreover have "has_word (a # w) t \<longleftrightarrow> has_word w u" "dropWhile graph t = dropWhile graph u" using True Cons by (auto simp: has_word_def)
      ultimately show ?thesis using True Cons Cons.prems by (intro exI [of _ w'] exI [of _ t']) auto
    next
      case False
      then have "\<not> has_word (a # w) t" using Cons by (auto simp: has_word_def)
      then show ?thesis using False Cons Cons.prems by (intro exI [of _ "a # w"] exI [of _ t]) auto
    qed
  qed
qed

lemma str_hasnextword_spec:
  assumes "0 \<notin> set s" and "0 \<notin> set w" and "\<forall>c \<in> set w. graph c"
  shows "str_hasnextword (Some (s @ 0 # r)) (w @ 0 # q) =
    Inr (let t = dropWhile isblank s in if has_word w t then Some (dropWhile isblank (dropWhile graph t) @ 0 # r) else None)"
proof -
  let ?t = "dropWhile isblank s"
  obtain w' t' where m: "match_word (w @ 0 # q) (?t @ 0 # r) = Inr (w' @ 0 # q, t' @ 0 # r)" "0 \<notin> set w'" "0 \<notin> set t'"
    "w' = [] \<and> (t' = [] \<or> isblank (hd t')) \<longleftrightarrow> has_word w ?t" "has_word w ?t \<longrightarrow> t' = dropWhile graph ?t"
    using match_word_str [OF no0_dropWhile [OF assms(1)] assms(2,3)] by blast
  show ?thesis
  proof (cases "has_word w ?t")
    case True
    with m have "w' = []" "t' = [] \<or> isblank (hd t')" "t' = dropWhile graph ?t" by simp_all
    with True m show ?thesis by (auto simp: str_hasnextword_def cstring Let_def)
  next
    case False
    have "hd w' \<noteq> 0" if "w' \<noteq> []" using that m(2) hd_in_set by metis
    moreover have "hd t' \<noteq> 0" if "t' \<noteq> []" using that m(3) hd_in_set by metis
    ultimately show ?thesis using False m by (auto simp: str_hasnextword_def cstring Let_def)
  qed
qed

section \<open>Arrays of strings, as lists\<close>

definition packed :: "u8 list list \<Rightarrow> u8 list" where
  "packed ss = concat (map (\<lambda>s. s @ [0]) ss)"

lemma packed_simps [simp]: "packed [] = []" "packed (s # ss) = s @ 0 # packed ss" "packed (ss @ ts) = packed ss @ packed ts"
  by (simp_all add: packed_def)

text \<open>The array \<open>a\<close> holds the strings \<open>ss\<close>; an array without strings has no memory.\<close>

definition sa_holds :: "strarray \<Rightarrow> u8 list list \<Rightarrow> bool" where
  "sa_holds a ss \<longleftrightarrow> (\<forall>s \<in> set ss. 0 \<notin> set s) \<and> sa_length a = length (packed ss) \<and> sa_length a < 2 ^ 31 \<and>
     (case sa_value a of None \<Rightarrow> ss = [] | Some v \<Rightarrow> ss \<noteq> [] \<and> (\<exists>junk. v = packed ss @ junk))"

lemma sa_holds_init [simp]: "sa_holds strarray_init []"
  by (simp add: sa_holds_def strarray_init_def)

lemma sa_holdsE:
  assumes "sa_holds a ss" and "ss \<noteq> []"
  obtains junk where "sa_value a = Some (packed ss @ junk)" and "sa_length a = length (packed ss)" and "sa_length a < 2 ^ 31"
    and "\<forall>s \<in> set ss. 0 \<notin> set s"
  using assms by (auto simp: sa_holds_def split: option.splits)

lemma packed_nonempty: "ss \<noteq> [] \<Longrightarrow> packed ss \<noteq> []"
  by (cases ss) simp_all

lemma memsize_ge: "n < 2 ^ 31 \<Longrightarrow> n \<le> STRARRAY_MEMSIZE n"
proof -
  assume n: "n < 2 ^ 31"
  have "(of_nat STRARRAY_BLOCKSIZE - 1 :: u32) = mask 6" by (simp add: STRARRAY_BLOCKSIZE_def mask_eq_exp_minus_1)
  moreover have "of_nat n + of_nat STRARRAY_BLOCKSIZE - 1 = (of_nat (n + 63) :: u32)" by (simp add: STRARRAY_BLOCKSIZE_def)
  ultimately have "STRARRAY_MEMSIZE n = unat (of_nat (n + 63) :: u32) div 2 ^ 6 * 2 ^ 6"
    by (simp only: STRARRAY_MEMSIZE_def unat_and_not_mask)
  also have "unat (of_nat (n + 63) :: u32) = n + 63" using n by (simp only: unsigned_of_nat) (simp add: take_bit_nat_eq_self)
  finally show ?thesis by simp
qed

lemma realloc_keeps:
  assumes "realloc_ok A" and "A p (STRARRAY_MEMSIZE n) = Some b" and "n < 2 ^ 31"
  shows "n \<le> length b" and "p = Some (old @ junk) \<Longrightarrow> length old \<le> n \<Longrightarrow> \<exists>junk'. b = old @ junk'"
proof -
  have b: "length b = STRARRAY_MEMSIZE n" "p = Some v \<Longrightarrow> take (length v) b = take (STRARRAY_MEMSIZE n) v" for v
    using assms(1,2) by (auto simp: realloc_ok_def)
  then show "n \<le> length b" using memsize_ge [OF assms(3)] by simp
  assume p: "p = Some (old @ junk)" and old: "length old \<le> n"
  have "take (length old) b = take (length old) (take (length (old @ junk)) b)" by simp
  also have "\<dots> = old" using b(2) [OF p] old memsize_ge [OF assms(3)] by simp
  finally have "b = old @ drop (length old) b" by (metis append_take_drop_id)
  then show "\<exists>junk'. b = old @ junk'" by blast
qed

text \<open>Appending a string to an array that holds \<open>ss\<close> makes it hold \<open>ss @ [s]\<close>, or fails and changes nothing.\<close>

lemma strarray_append_refines:
  assumes "realloc_ok A" and "sa_holds a ss" and "0 \<notin> set s" and "sa_length a + length s + 1 < 2 ^ 31"
  shows "\<exists>r a'. strarray_append A a (s @ 0 # q) = Inr (r, a') \<and> (r = 0 \<and> sa_holds a' (ss @ [s]) \<or> r = -1 \<and> a' = a)"
proof -
  let ?n = "sa_length a + (length s + 1)"
  have len: "sa_length a = length (packed ss)" using assms(2) by (simp add: sa_holds_def)
  show ?thesis
  proof (cases "A (sa_value a) (STRARRAY_MEMSIZE ?n)")
    case None
    then show ?thesis using assms(3) by (simp add: strarray_append_def cstring Let_def)
  next
    case (Some b)
    have n: "?n < 2 ^ 31" using assms(4) by simp
    have "\<exists>junk. b = packed ss @ junk"
    proof (cases "ss = []")
      case False
      with assms(2) obtain junk where "sa_value a = Some (packed ss @ junk)" by (blast elim: sa_holdsE)
      then show ?thesis using realloc_keeps(2) [OF assms(1) Some n] len by simp
    qed simp
    then obtain junk where b: "b = packed ss @ junk" by blast
    have "length junk \<ge> length s + 1" using realloc_keeps(1) [OF assms(1) Some n] b len by simp
    then have "mem_write b (sa_length a) (s @ [0]) = Inr (packed (ss @ [s]) @ drop (length s + 1) junk)"
      using b len by (simp add: mem_write_def blit_def)
    moreover have "mem_read (s @ 0 # q) 0 (length s + 1) = Inr (s @ [0])" by (simp add: mem_read_def)
    ultimately have "strarray_append A a (s @ 0 # q) =
        Inr (0, \<lparr>sa_value = Some (packed (ss @ [s]) @ drop (length s + 1) junk), sa_length = ?n\<rparr>)"
      using Some assms(3) by (simp add: strarray_append_def cstring Let_def)
    moreover have "sa_holds \<lparr>sa_value = Some (packed (ss @ [s]) @ drop (length s + 1) junk), sa_length = ?n\<rparr> (ss @ [s])"
      using assms(2,3) n len by (auto simp: sa_holds_def split: option.splits)
    ultimately show ?thesis by blast
  qed
qed

text \<open>A \<open>realloc\<close> that always succeeds and fills new memory with \<open>0xAA\<close>.\<close>

definition realloc_ref :: realloc where
  "realloc_ref p n = Some (let v = (case p of None \<Rightarrow> [] | Some v \<Rightarrow> v) in take n v @ replicate (n - length v) 0xAA)"

lemma realloc_ref_ok: "realloc_ok realloc_ref"
  by (auto simp: realloc_ok_def realloc_ref_def Let_def min_def split: option.split)

lemma strarray_append_refines_witness:
  "\<exists>r a'. strarray_append realloc_ref strarray_init ([65] @ 0 # []) = Inr (r, a') \<and> sa_holds a' [[65]]"
proof -
  obtain r a' where "strarray_append realloc_ref strarray_init ([65] @ 0 # []) = Inr (r, a')"
    and "r = 0 \<and> sa_holds a' ([] @ [[65]]) \<or> r = -1 \<and> a' = strarray_init"
    using strarray_append_refines [OF realloc_ref_ok sa_holds_init, of "[65]" "[]"] by (auto simp: strarray_init_def)
  moreover have "map_sum id fst (strarray_append realloc_ref strarray_init ([65] @ 0 # [])) = Inr 0" by code_simp
  ultimately show ?thesis by auto
qed

lemma mem_write_front: "length x = length z \<Longrightarrow> mem_write (x @ y) 0 z = Inr (z @ y)"
  by (simp add: mem_write_def blit_def)

lemma strarray_prepend_refines:
  assumes "realloc_ok A" and "sa_holds a ss" and "0 \<notin> set s" and "sa_length a + length s + 1 < 2 ^ 31"
  shows "\<exists>r a'. strarray_prepend A a (s @ 0 # q) = Inr (r, a') \<and> (r = 0 \<and> sa_holds a' (s # ss) \<or> r = -1 \<and> a' = a)"
proof -
  let ?n = "sa_length a + (length s + 1)"
  have len: "sa_length a = length (packed ss)" using assms(2) by (simp add: sa_holds_def)
  show ?thesis
  proof (cases "A (sa_value a) (STRARRAY_MEMSIZE ?n)")
    case None
    then show ?thesis using assms(3) by (simp add: strarray_prepend_def cstring Let_def)
  next
    case (Some b)
    have n: "?n < 2 ^ 31" using assms(4) by simp
    have "\<exists>junk. b = packed ss @ junk"
    proof (cases "ss = []")
      case False
      with assms(2) obtain junk where "sa_value a = Some (packed ss @ junk)" by (blast elim: sa_holdsE)
      then show ?thesis using realloc_keeps(2) [OF assms(1) Some n] len by simp
    qed simp
    then obtain junk where b: "b = packed ss @ junk" by blast
    have room: "length s + 1 \<le> length junk" using realloc_keeps(1) [OF assms(1) Some n] b len by simp
    have "mem_read b 0 (sa_length a) = Inr (packed ss)" using b len by (simp add: mem_read_def)
    moreover have "mem_write b (length s + 1) (packed ss) = Inr (take (length s + 1) b @ packed ss @ drop (length s + 1) junk)"
      using b room by (simp add: mem_write_def blit_def)
    moreover have "mem_read (s @ 0 # q) 0 (length s + 1) = Inr (s @ [0])" by (simp add: mem_read_def)
    moreover have "mem_write (take (length s + 1) b @ packed ss @ drop (length s + 1) junk) 0 (s @ [0]) =
        Inr ((s @ [0]) @ packed ss @ drop (length s + 1) junk)"
      by (rule mem_write_front) (use b room in simp)
    ultimately have "strarray_prepend A a (s @ 0 # q) =
        Inr (0, \<lparr>sa_value = Some (packed (s # ss) @ drop (length s + 1) junk), sa_length = ?n\<rparr>)"
      using Some assms(3) by (simp add: strarray_prepend_def cstring Let_def)
    moreover have "sa_holds \<lparr>sa_value = Some (packed (s # ss) @ drop (length s + 1) junk), sa_length = ?n\<rparr> (s # ss)"
      using assms(2,3) n len by (auto simp: sa_holds_def split: option.splits)
    ultimately show ?thesis by blast
  qed
qed

text \<open>
  C37. Removing the string that a pointer into the array points to takes it out of the list, whether or not the block can be shrunk.\<close>

theorem strarray_remove_refines:
  assumes "realloc_ok A" and "sa_holds a (us @ s # vs)"
  shows "\<exists>a'. strarray_remove_ext A a (length (packed us)) resize = Inr a' \<and> sa_holds a' (us @ vs)"
proof -
  let ?e = "length (packed us)" and ?l = "length s + 1" and ?n = "length (packed (us @ vs))"
  from assms(2) obtain junk where v: "sa_value a = Some (packed (us @ s # vs) @ junk)" and len: "sa_length a = length (packed (us @ s # vs))"
    and small: "sa_length a < 2 ^ 31" and no0: "\<forall>t \<in> set (us @ s # vs). 0 \<notin> set t" by (rule sa_holdsE) simp
  have str: "c_strlen (drop ?e (packed (us @ s # vs) @ junk)) = Inr (length s)" using no0 by (simp add: cstring)
  show ?thesis
  proof (cases "us @ vs = []")
    case True
    then have "?l = sa_length a" using len by simp
    then show ?thesis using True v str by (simp add: strarray_remove_ext_def Let_def strarray_free_def)
  next
    case False
    then have ne: "?l \<noteq> sa_length a" using len packed_nonempty [of "us @ vs"] by auto
    have "(of_nat (sa_length a) - of_nat ?l :: u32) = of_nat (sa_length a - ?l)" using len by (intro of_nat_diff [symmetric]) simp
    also have "sa_length a - ?l = ?n" using len by simp
    finally have "unat (of_nat (sa_length a) - of_nat ?l :: u32) = unat (of_nat ?n :: u32)" by (rule arg_cong)
    also have "?n < 2 ^ 32" using small len by simp
    then have "unat (of_nat ?n :: u32) = ?n" by (simp only: unsigned_of_nat) (simp add: take_bit_nat_eq_self)
    finally have n: "unat (of_nat (sa_length a) - of_nat ?l :: u32) = ?n" .
    let ?v = "packed (us @ s # vs) @ junk" and ?w = "packed (us @ vs) @ drop (length (packed vs)) (s @ 0 # packed vs @ junk)"
    have read: "mem_read ?v (?e + ?l) (?n - ?e) = Inr (packed vs)" by (simp add: mem_read_def)
    have "drop (?e + length (packed vs)) ?v = drop (length (packed vs)) (s @ 0 # packed vs @ junk)" by simp
    then have "mem_write ?v ?e (packed vs) = Inr ?w" by (simp add: mem_write_def blit_def)
    with read have move: "bnd (mem_read ?v (?e + ?l) (?n - ?e)) (mem_write ?v ?e) = Inr ?w" by simp
    obtain junk' where junk': "?w = packed (us @ vs) @ junk'" by blast
    have holds: "sa_holds \<lparr>sa_value = Some (packed (us @ vs) @ j), sa_length = ?n\<rparr> (us @ vs)" for j
      using False no0 small len by (auto simp: sa_holds_def)
    have run: "strarray_remove_ext A a ?e resize =
        (if \<not> resize then Inr \<lparr>sa_value = Some ?w, sa_length = ?n\<rparr>
         else case A (Some ?w) (STRARRAY_MEMSIZE ?n) of None \<Rightarrow> Inr \<lparr>sa_value = Some ?w, sa_length = ?n\<rparr>
              | Some p \<Rightarrow> Inr \<lparr>sa_value = Some p, sa_length = ?n\<rparr>)"
    proof -
      have le: "?e \<le> ?n" by simp
      show ?thesis
        unfolding strarray_remove_ext_def v deref_simps bnd.simps str Let_def if_not_P [OF ne] n if_P [OF le] move by (rule refl)
    qed
    show ?thesis
    proof (cases "resize \<and> A (Some ?w) (STRARRAY_MEMSIZE ?n) \<noteq> None")
      case True
      then obtain p where p: "A (Some ?w) (STRARRAY_MEMSIZE ?n) = Some p" by blast
      have "?n < 2 ^ 31" using small len by simp
      from realloc_keeps(2) [OF assms(1) p this refl] obtain j where "p = packed (us @ vs) @ j" by auto
      with run True p holds show ?thesis by simp
    next
      case False
      with run have "strarray_remove_ext A a ?e resize = Inr \<lparr>sa_value = Some ?w, sa_length = ?n\<rparr>" by auto
      with holds show ?thesis by blast
    qed
  qed
qed

theorem strarray_remove_refines_witness:
  "\<exists>a'. strarray_remove_ext realloc_ref \<lparr>sa_value = Some (packed [[65], [66], [67]]), sa_length = 6\<rparr> 2 True = Inr a' \<and> sa_holds a' [[65], [67]]"
proof -
  have "sa_holds \<lparr>sa_value = Some (packed [[65], [66], [67]]), sa_length = 6\<rparr> ([[65]] @ [66] # [[67]])"
    by (simp add: sa_holds_def)
  from strarray_remove_refines [OF realloc_ref_ok this, of True] show ?thesis by (simp add: eval_nat_numeral)
qed

lemma each_from_packed:
  assumes "\<forall>s \<in> set ss. 0 \<notin> set s"
  shows "each_from (pre @ packed ss @ junk) (length pre + length (packed ss)) (length pre) =
    Inr (map (\<lambda>i. length pre + length (packed (take i ss))) [0..<length ss])"
  using assms
proof (induction ss arbitrary: pre)
  case (Cons s ss)
  have "each_from ((pre @ s @ [0]) @ packed ss @ junk) (length (pre @ s @ [0]) + length (packed ss)) (length (pre @ s @ [0])) =
      Inr (map (\<lambda>i. length (pre @ s @ [0]) + length (packed (take i ss))) [0..<length ss])"
    by (rule Cons.IH) (use Cons.prems in simp)
  moreover have "map (\<lambda>i. length pre + length (packed (take i (s # ss)))) [0..<length (s # ss)] =
      length pre # map (\<lambda>i. length (pre @ s @ [0]) + length (packed (take i ss))) [0..<length ss]"
    by (simp add: upt_conv_Cons map_Suc_upt [symmetric] del: upt_Suc map_Suc_upt)
  ultimately show ?case using Cons.prems by (subst each_from.simps) (simp add: cstring add.assoc del: upt_Suc)
qed (simp add: each_from.simps)

lemma strarray_for_each_holds:
  "sa_holds a ss \<Longrightarrow> strarray_for_each_element a = Inr (map (\<lambda>i. length (packed (take i ss))) [0..<length ss])"
proof (cases "ss = []")
  case True
  assume "sa_holds a ss"
  with True show ?thesis by (simp add: sa_holds_def strarray_for_each_element_def split: option.splits)
next
  case False
  assume "sa_holds a ss"
  with False obtain junk where "sa_value a = Some (packed ss @ junk)" "sa_length a = length (packed ss)" "\<forall>s \<in> set ss. 0 \<notin> set s"
    by (blast elim: sa_holdsE)
  then show ?thesis using each_from_packed [of ss "[]" junk] by (simp add: strarray_for_each_element_def)
qed

lemma strarray_get_count_holds: "sa_holds a ss \<Longrightarrow> strarray_get_count a = Inr (length ss)"
  by (simp add: strarray_get_count_def strarray_for_each_holds)

lemma get_from_packed:
  assumes "\<forall>s \<in> set ss. 0 \<notin> set s"
  shows "get_from (pre @ packed ss @ junk) (length pre + length (packed ss)) (k + i) k (length pre) =
    Inr (if i < length ss then Some (length pre + length (packed (take i ss))) else None)"
  using assms
proof (induction ss arbitrary: pre k i)
  case (Cons s ss)
  show ?case
  proof (cases i)
    case 0
    then show ?thesis by (subst get_from.simps) simp
  next
    case (Suc j)
    have "get_from ((pre @ s @ [0]) @ packed ss @ junk) (length (pre @ s @ [0]) + length (packed ss)) ((k + 1) + j) (k + 1) (length (pre @ s @ [0])) =
        Inr (if j < length ss then Some (length (pre @ s @ [0]) + length (packed (take j ss))) else None)"
      by (rule Cons.IH) (use Cons.prems in simp)
    with Suc Cons.prems show ?thesis by (subst get_from.simps) (simp add: cstring add.assoc)
  qed
qed (simp add: get_from.simps)

text \<open>
  Reading an array by index: the pointer that comes back points to the string with this index, there is none behind
  the last one. Stepping on with \<open>strarray_get_next_safe\<close> gives the next string as well, but behind the last one it
  gives a pointer to the end of the strings instead of NULL.
\<close>

lemma strarray_get_holds:
  assumes "sa_holds a ss"
  shows "strarray_get a i = Inr (if i < length ss then Some (length (packed (take i ss))) else None) \<and>
    (i < length ss \<longrightarrow> strarray_get_next_safe a (length (packed (take i ss))) = Inr (Some (length (packed (take (Suc i) ss)))))"
proof (cases "ss = []")
  case True
  with assms show ?thesis by (simp add: sa_holds_def strarray_get_def split: option.splits)
next
  case False
  with assms obtain junk where v: "sa_value a = Some (packed ss @ junk)" "sa_length a = length (packed ss)" "\<forall>s \<in> set ss. 0 \<notin> set s"
    by (blast elim: sa_holdsE)
  then have "strarray_get a i = Inr (if i < length ss then Some (length (packed (take i ss))) else None)"
    using get_from_packed [of ss "[]" junk 0 i] by (simp add: strarray_get_def)
  moreover have "strarray_get_next_safe a (length (packed (take i ss))) = Inr (Some (length (packed (take (Suc i) ss))))" if i: "i < length ss"
  proof -
    have ss: "ss = take i ss @ ss ! i # drop (Suc i) ss" using i by (rule id_take_nth_drop)
    then have packed: "packed ss = packed (take i ss) @ ss ! i @ 0 # packed (drop (Suc i) ss)" by (metis packed_simps(2,3))
    then have at_i: "drop (length (packed (take i ss))) (packed ss @ junk) = ss ! i @ 0 # packed (drop (Suc i) ss) @ junk" by simp
    have "0 \<notin> set (ss ! i)" using v(3) i by simp
    then have "c_strlen (drop (length (packed (take i ss))) (packed ss @ junk)) = Inr (length (ss ! i))" unfolding at_i by (rule c_strlen_str)
    moreover have "length (packed (take (Suc i) ss)) = length (packed (take i ss)) + length (ss ! i) + 1" using i by (simp add: take_Suc_conv_app_nth)
    moreover have "length (packed (take (Suc i) ss)) \<le> length (packed ss)" using packed calculation(2) by simp
    ultimately show ?thesis using v by (simp add: strarray_get_next_safe_def strarray_get_next_def)
  qed
  ultimately show ?thesis by blast
qed

lemma strarray_get_holds_witness:
  "strarray_get \<lparr>sa_value = Some (packed [[65], [66]]), sa_length = 4\<rparr> 2 = Inr None \<and>
   strarray_get_next_safe \<lparr>sa_value = Some (packed [[65], [66]]), sa_length = 4\<rparr> 2 = Inr (Some 4)"
proof -
  have "sa_holds \<lparr>sa_value = Some (packed [[65], [66]]), sa_length = 4\<rparr> [[65], [66]]" by (simp add: sa_holds_def)
  from strarray_get_holds [OF this, of 2] strarray_get_holds [OF this, of 1] show ?thesis by (simp add: eval_nat_numeral)
qed

lemma strarray_copy_holds:
  assumes "realloc_ok A" and "sa_holds src ss" and "ss \<noteq> []"
  shows "\<exists>r a'. strarray_copy A dst src = Inr (r, a') \<and> (r = 0 \<and> sa_holds a' ss \<or> r = -1 \<and> a' = dst)"
proof -
  obtain junk where v: "sa_value src = Some (packed ss @ junk)" and len: "sa_length src = length (packed ss)"
    and small: "sa_length src < 2 ^ 31" and no0: "\<forall>t \<in> set ss. 0 \<notin> set t" using assms(2,3) by (rule sa_holdsE)
  have pos: "sa_length src \<noteq> 0" using packed_nonempty [OF assms(3)] len by simp
  show ?thesis
  proof (cases "A (sa_value dst) (STRARRAY_MEMSIZE (sa_length src))")
    case None
    with v pos show ?thesis by (simp add: strarray_copy_def Let_def)
  next
    case (Some b)
    have b: "sa_length src \<le> length b" "length b = STRARRAY_MEMSIZE (sa_length src)"
      using realloc_keeps(1) [OF assms(1) Some small] Some assms(1) by (auto simp: realloc_ok_def)
    let ?z = "replicate (STRARRAY_MEMSIZE (sa_length src) - sa_length src) 0"
    have "mem_read (packed ss @ junk) 0 (sa_length src) = Inr (packed ss)" using len by (simp add: mem_read_def)
    moreover have "mem_write b 0 (packed ss) = Inr (packed ss @ drop (sa_length src) b)" using b len by (simp add: mem_write_def blit_def)
    moreover have "mem_write (packed ss @ drop (sa_length src) b) (sa_length src) ?z = Inr (packed ss @ ?z)"
      using b len by (simp add: mem_write_def blit_def)
    ultimately have "strarray_copy A dst src = Inr (0, \<lparr>sa_value = Some (packed ss @ ?z), sa_length = sa_length src\<rparr>)"
      using v pos Some b by (simp add: strarray_copy_def Let_def)
    moreover have "sa_holds \<lparr>sa_value = Some (packed ss @ ?z), sa_length = sa_length src\<rparr> ss"
      using assms(3) no0 small len by (simp add: sa_holds_def)
    ultimately show ?thesis by blast
  qed
qed

lemma str_countwords_words_witness: "str_countwords (Some ([65, 32, 66] @ 0 # [])) = Inr 2"
proof -
  have "str_countwords (Some ([65, 32, 66] @ 0 # [])) = Inr (length (str_words [65, 32, 66]))"
    by (rule str_countwords_words) simp
  moreover have "str_words [65, 32, 66] = [[65], [66]]" by (simp add: str_words_Cons isblank_def)
  ultimately show ?thesis by simp
qed

text \<open>A word of three bytes and a buffer of three: its last byte is what the returned pointer points to.\<close>

lemma str_cpynextword_spec_witness: "str_cpynextword [9, 9, 9] (Some ([65, 66, 67] @ 0 # [])) 3 = Inr ([65, 66, 0], Some [67, 0])"
proof -
  have "str_cpynextword [9, 9, 9] (Some ([65, 66, 67] @ 0 # [])) 3 =
    (let t = dropWhile isblank [65, 66, 67]; w = take (unat (3 :: u32) - 1) (takeWhile graph t) in
     Inr (blit [9, 9, 9] 0 (w @ [0]), rest_words [] (drop (length w) t)))"
    by (rule str_cpynextword_spec) simp_all
  then show ?thesis by (simp add: isblank_def blit_def rest_words_def)
qed

end
