(* ===== verification/NetaddrText.thy ===== *)
theory NetaddrText
  imports Netaddr OonfString
begin

text \<open>
  Textual forms of network addresses and sockets, the rest of \<open>core/contrib/oonf_api/common/netaddr.c\<close>. What a
  character string is, see \<open>OonfString\<close>. The platform's \<open>inet_pton\<close> and \<open>inet_ntop\<close> and the size of a
  \<open>struct netaddr_str\<close>, which depends on the platform's \<open>INET6_ADDRSTRLEN\<close>, are the parameter \<open>I\<close>.
\<close>

section \<open>The platform\<close>

text \<open>
  \<open>inet_pton\<close> is given a string without its terminator and gives the octets of the address; \<open>inet_ntop\<close> is given the
  octets and the size of the buffer and gives the string, or nothing if it does not fit.
\<close>

record inet =
  inet_pton :: "u8 \<Rightarrow> u8 list \<Rightarrow> u8 list option"
  inet_ntop :: "u8 \<Rightarrow> u8 list \<Rightarrow> nat \<Rightarrow> u8 list option"
  str_size :: nat

definition lit :: "string \<Rightarrow> u8 list" where
  "lit s = map of_char s"

text \<open>The string a pointer points to.\<close>

definition c_string :: "u8 list \<Rightarrow> u8 list outcome" where
  "c_string p = bnd (c_strlen p) (\<lambda>n. mem_read p 0 n)"

text \<open>The conversion \<open>%d\<close> of a number that is not negative.\<close>

fun decimal :: "nat \<Rightarrow> u8 list" where
  "decimal n = (if n < 10 then [of_nat (48 + n)] else decimal (n div 10) @ [of_nat (48 + n mod 10)])"

declare decimal.simps [simp del]

text \<open>\<open>snprintf(dst, n, ...)\<close> of a text: at most \<open>n - 1\<close> bytes of it and a zero byte.\<close>

definition snprintf :: "u8 list \<Rightarrow> nat \<Rightarrow> nat \<Rightarrow> u8 list \<Rightarrow> u8 list outcome" where
  "snprintf dst off n txt = (if n = 0 then Inr dst else mem_write dst off (take (n - 1) txt @ [0]))"

text \<open>
  \<open>strtoul(p, &end, 10)\<close> on a 32 bit machine: white space, a sign, digits. Without a digit the value is 0 and \<open>end\<close> is \<open>p\<close>; a
  value that is too large becomes \<open>ULONG_MAX\<close>; a minus sign negates the value.
\<close>

definition isdigit :: "u8 \<Rightarrow> bool" where "isdigit c \<longleftrightarrow> 48 \<le> c \<and> c \<le> 57"

fun digits_value :: "nat \<Rightarrow> u8 list \<Rightarrow> nat" where
  "digits_value acc [] = acc"
| "digits_value acc (c # cs) = (if isdigit c then digits_value (10 * acc + (unat c - 48)) cs else acc)"

definition strtoul :: "u8 list \<Rightarrow> (u32 \<times> u8 list) outcome" where
  "strtoul p =
     bnd (skip_while isspace p) (\<lambda>q.
     bnd (at q) (\<lambda>c.
     let d = (if c = 43 \<or> c = 45 then tl q else q) in
     bnd (at d) (\<lambda>c1.
     bnd (skip_while isdigit d) (\<lambda>r.
     if \<not> isdigit c1 then Inr (0, p)
     else let v = digits_value 0 d; w = (if v \<ge> 2 ^ 32 then -1 else of_nat v) in
       Inr (if c = 45 \<and> v < 2 ^ 32 then - w else w, r)))))"

section \<open>Sockets\<close>

text \<open>
  \<open>union netaddr_socket\<close>. The family says which member is in use; each is a field of its own here, a port in network
  byte order.
\<close>

record netaddr_socket =
  sa_family :: u16
  v4_port :: "u8 list"
  v4_addr :: "u8 list"
  v6_port :: "u8 list"
  v6_addr :: "u8 list"
  v6_scope_id :: u32

definition netaddr_socket_invalidate :: netaddr_socket where
  "netaddr_socket_invalidate =
     \<lparr>sa_family = 0, v4_port = [0, 0], v4_addr = replicate 4 0, v6_port = [0, 0], v6_addr = replicate 16 0, v6_scope_id = 0\<rparr>"

definition htons :: "u16 \<Rightarrow> u8 list" where "htons p = [ucast (drop_bit 8 p), ucast p]"
definition ntohs :: "u8 list \<Rightarrow> u16" where "ntohs bs = push_bit 8 (ucast (bs ! 0)) OR ucast (bs ! 1)"

definition netaddr_from_socket :: "af \<Rightarrow> netaddr \<Rightarrow> netaddr_socket \<Rightarrow> netaddr \<times> int" where
  "netaddr_from_socket F dst src =
     (let zero = replicate NETADDR_MAX_LENGTH 0 in
      if sa_family src = ucast (AF_INET F)
      then (\<lparr>na_addr = blit zero 0 (v4_addr src), na_type = ucast (sa_family src), na_prefix_len = 32\<rparr>, 0)
      else if sa_family src = ucast (AF_INET6 F)
      then (\<lparr>na_addr = blit zero 0 (v6_addr src), na_type = ucast (sa_family src), na_prefix_len = 128\<rparr>, 0)
      else (dst\<lparr>na_addr := zero, na_type := AF_UNSPEC F\<rparr>, -1))"

definition netaddr_to_socket :: "af \<Rightarrow> netaddr_socket \<Rightarrow> netaddr \<Rightarrow> netaddr_socket \<times> int" where
  "netaddr_to_socket F dst src =
     (let dst = dst\<lparr>sa_family := ucast (na_type src)\<rparr> in
      if na_type src = AF_INET F then (dst\<lparr>v4_addr := take 4 (na_addr src)\<rparr>, 0)
      else if na_type src = AF_INET6 F then (dst\<lparr>v6_addr := take 16 (na_addr src)\<rparr>, 0)
      else (dst, -1))"

definition netaddr_socket_init :: "af \<Rightarrow> netaddr \<Rightarrow> u16 \<Rightarrow> u32 \<Rightarrow> netaddr_socket \<times> int" where
  "netaddr_socket_init F addr port if_index =
     (let zero = netaddr_socket_invalidate in
      if na_type addr = AF_INET F
      then (zero\<lparr>v4_addr := take 4 (na_addr addr), v4_port := htons port, sa_family := ucast (na_type addr)\<rparr>, 0)
      else if na_type addr = AF_INET6 F
      then (zero\<lparr>v6_addr := take 16 (na_addr addr), v6_port := htons port, v6_scope_id := if_index, sa_family := ucast (na_type addr)\<rparr>, 0)
      else (zero, -1))"

definition netaddr_socket_get_port :: "af \<Rightarrow> netaddr_socket \<Rightarrow> u16" where
  "netaddr_socket_get_port F sock =
     (if sa_family sock = ucast (AF_INET F) then ntohs (v4_port sock)
      else if sa_family sock = ucast (AF_INET6 F) then ntohs (v6_port sock)
      else 0)"

definition netaddr_cmp_to_socket :: "af \<Rightarrow> netaddr \<Rightarrow> netaddr_socket \<Rightarrow> int" where
  "netaddr_cmp_to_socket F a1 a2 =
     (let result = uint (na_type a1) - uint (sa_family a2) in
      if result \<noteq> 0 then result
      else let result =
          (if na_type a1 = AF_INET F then memcmp (take 4 (na_addr a1)) (v4_addr a2)
           else if na_type a1 = AF_INET6 F then memcmp (take 16 (na_addr a1)) (v6_addr a2)
           else result) in
        if result \<noteq> 0 then result
        else uint (na_prefix_len a1) - (if na_type a1 = AF_INET F then 32 else 128))"

text \<open>\<open>netaddr_socket_to_string\<close>; a failing \<open>inet_ntop\<close> hands NULL to \<open>snprintf\<close>.\<close>

definition netaddr_socket_to_string :: "inet \<Rightarrow> af \<Rightarrow> u8 list \<Rightarrow> netaddr_socket \<Rightarrow> u8 list outcome" where
  "netaddr_socket_to_string I F dst src =
     (if sa_family src = ucast (AF_INET F)
      then bnd (deref (inet_ntop I (AF_INET F) (v4_addr src) (str_size I))) (\<lambda>t.
           snprintf dst 0 (str_size I) (t @ [58] @ decimal (unat (ntohs (v4_port src)))))
      else if sa_family src = ucast (AF_INET6 F)
      then bnd (deref (inet_ntop I (AF_INET6 F) (v6_addr src) (str_size I))) (\<lambda>t.
           snprintf dst 0 (str_size I) ([91] @ t @ [93, 58] @ decimal (unat (ntohs (v6_port src)))))
      else snprintf dst 0 (str_size I) ([34] @ lit ''Unknown socket type: '' @ decimal (unat (sa_family src)) @ [34]))"

definition netaddr_socket_is_unspec :: "af \<Rightarrow> netaddr_socket \<Rightarrow> bool" where
  "netaddr_socket_is_unspec F s \<longleftrightarrow> sa_family s = ucast (AF_UNSPEC F)"

definition netaddr_is_unspec :: "af \<Rightarrow> netaddr \<Rightarrow> bool" where
  "netaddr_is_unspec F a \<longleftrightarrow> na_type a = AF_UNSPEC F"

definition netaddr_is_host :: "af \<Rightarrow> netaddr \<Rightarrow> bool" where
  "netaddr_is_host F a \<longleftrightarrow> netaddr_get_maxprefix F a = na_prefix_len a"

definition netaddr_create_host :: "af \<Rightarrow> netaddr \<Rightarrow> netaddr \<Rightarrow> (netaddr \<times> int) outcome" where
  "netaddr_create_host F netmask host_number =
     netaddr_create_host_bin F netmask (na_addr host_number) (unat (netaddr_get_maxprefix F host_number) div 8)"

definition netaddr_get_binlength :: "af \<Rightarrow> netaddr \<Rightarrow> nat" where
  "netaddr_get_binlength F a = unat (drop_bit 3 (netaddr_get_maxprefix F a))"

definition netaddr_avlcmp :: "netaddr \<Rightarrow> netaddr \<Rightarrow> int" where
  "netaddr_avlcmp k1 k2 = netaddr_cmp k1 k2"

section \<open>Addresses as text\<close>

definition hexdigit :: "u8 \<Rightarrow> u8" where
  "hexdigit n = lit ''0123456789abcdef'' ! unat n"

text \<open>The loop of \<open>_mac_to_string\<close> with \<open>pos\<close> bytes written, \<open>sz\<close> left and the place of the last separator.\<close>

fun mac_loop :: "u8 \<Rightarrow> u8 list \<Rightarrow> nat \<Rightarrow> nat \<Rightarrow> nat \<Rightarrow> u8 list \<Rightarrow> (u8 list \<times> nat) outcome" where
  "mac_loop separator dst pos last_separator sz [] = Inr (dst, last_separator)"
| "mac_loop separator dst pos last_separator sz (b # bin) =
     (if sz < 3 then Inr (dst, last_separator)
      else bnd (mem_write dst pos [hexdigit (drop_bit 4 b), hexdigit (b AND 15)]) (\<lambda>dst.
           if separator \<noteq> 0
           then bnd (mem_write dst (pos + 2) [separator]) (\<lambda>dst. mac_loop separator dst (pos + 3) (pos + 2) (sz - 3) bin)
           else mac_loop separator dst (pos + 2) (pos + 2) (sz - 2) bin))"

text \<open>The result says whether the function returns \<open>dst\<close> or NULL.\<close>

definition mac_to_string :: "u8 list \<Rightarrow> nat \<Rightarrow> u8 list \<Rightarrow> u8 \<Rightarrow> (bool \<times> u8 list) outcome" where
  "mac_to_string dst dst_size bin separator =
     (if dst_size = 0 then Inr (False, dst)
      else bnd (mac_loop separator dst 0 0 dst_size bin) (\<lambda>(dst, last_separator).
           bnd (mem_write dst last_separator [0]) (\<lambda>dst. Inr (True, dst))))"

definition UUID_GROUPS :: "nat list" where
  "UUID_GROUPS = [8, 4, 4, 4, 12]"

fun uuid_groups :: "u8 list \<Rightarrow> nat \<Rightarrow> nat \<Rightarrow> u8 list \<Rightarrow> nat list \<Rightarrow> (bool \<times> u8 list) outcome" where
  "uuid_groups dst pos sz src [] = Inr (True, dst)"
| "uuid_groups dst pos sz src (g # gs) =
     bnd (mac_to_string (drop pos dst) sz (take (g div 2) src) 0) (\<lambda>(ok, d).
     let dst = take pos dst @ d in
     if \<not> ok then Inr (False, dst)
     else if gs \<noteq> []
     then bnd (mem_write dst (pos + g) [45]) (\<lambda>dst. uuid_groups dst (pos + g + 1) (sz - g - 1) (drop (g div 2) src) gs)
     else Inr (True, dst))"

definition uuid_to_string :: "u8 list \<Rightarrow> nat \<Rightarrow> u8 list \<Rightarrow> (bool \<times> u8 list) outcome" where
  "uuid_to_string dst dst_size src =
     (if length src \<noteq> 16 then Inr (False, dst)
      else if dst_size < 32 + 4 + 1 then Inr (False, dst)
      else uuid_groups dst 0 dst_size src UUID_GROUPS)"

text \<open>The text is left in \<open>dst\<close>; the result says whether the function returns \<open>dst\<close> or NULL.\<close>

definition netaddr_to_prefixstring :: "inet \<Rightarrow> af \<Rightarrow> u8 list \<Rightarrow> netaddr option \<Rightarrow> bool \<Rightarrow> (bool \<times> u8 list) outcome" where
  "netaddr_to_prefixstring I F dst src forceprefix =
     (let none = bnd (strscpy (Some dst) (Some (lit ''-'' @ [0])) (str_size I)) (\<lambda>d. bnd (deref d) (\<lambda>d. Inr (True, d)));
          ntop = (\<lambda>family bytes. case inet_ntop I family bytes (str_size I) of
                    None \<Rightarrow> Inr (False, dst)
                  | Some t \<Rightarrow> bnd (mem_write dst 0 (t @ [0])) (\<lambda>d. Inr (True, d)))
      in case src of None \<Rightarrow> none
      | Some a \<Rightarrow>
          let append = (\<lambda>(ok, d).
                if forceprefix \<or> na_prefix_len a < netaddr_get_maxprefix F a
                then bnd (guard ok NullDeref) (\<lambda>_. bnd (c_strlen d) (\<lambda>l.
                     bnd (snprintf d l 5 (lit ''/'' @ decimal (unat (na_prefix_len a)))) (\<lambda>d. Inr (ok, d))))
                else Inr (ok, d))
          in if na_type a = AF_INET F then bnd (ntop (AF_INET F) (take 4 (na_addr a))) append
             else if na_type a = AF_INET6 F then bnd (ntop (AF_INET6 F) (na_addr a)) append
             else if na_type a = AF_MAC48 F then bnd (mac_to_string dst (str_size I) (take 6 (na_addr a)) 58) append
             else if na_type a = AF_EUI64 F then bnd (mac_to_string dst (str_size I) (take 8 (na_addr a)) 45) append
             else if na_type a = AF_UUID F then bnd (uuid_to_string dst (str_size I) (take 16 (na_addr a))) append
             else none)"

definition netaddr_to_string :: "inet \<Rightarrow> af \<Rightarrow> u8 list \<Rightarrow> netaddr option \<Rightarrow> (bool \<times> u8 list) outcome" where
  "netaddr_to_string I F dst src = netaddr_to_prefixstring I F dst src False"

section \<open>Text as addresses\<close>

definition read_hexdigit :: "u8 \<Rightarrow> int" where
  "read_hexdigit c =
     (if 48 \<le> c \<and> c \<le> 57 then uint c - 48
      else if 97 \<le> c \<and> c \<le> 102 then uint c - 97 + 10
      else if 65 \<le> c \<and> c \<le> 70 then uint c - 65 + 10
      else -1)"

text \<open>\<open>_bin_from_hex\<close> with \<open>pos\<close> octets stored and room for \<open>bin_size\<close> more.\<close>

fun bin_from_hex :: "u8 list \<Rightarrow> nat \<Rightarrow> nat \<Rightarrow> u8 list \<Rightarrow> u8 \<Rightarrow> (int \<times> u8 list) outcome" where
  "bin_from_hex bin pos 0 src separator = Inr (-1, bin)"
| "bin_from_hex bin pos (Suc bin_size) src separator =
     bnd (at src) (\<lambda>c.
     let num = read_hexdigit c; src = tl src in
     if num = -1 then Inr (-1, bin)
     else bnd (at src) (\<lambda>c2.
       let digit_2 = read_hexdigit c2; (num, src) = (if digit_2 \<ge> 0 then (num * 16 + digit_2, tl src) else (num, src)) in
       bnd (mem_write bin pos [word_of_int num]) (\<lambda>bin.
       bnd (at src) (\<lambda>c3.
       if c3 = 0 then Inr (int bin_size, bin)
       else if separator \<noteq> 0
       then if c3 \<noteq> separator then Inr (-1, bin) else bin_from_hex bin (pos + 1) bin_size (tl src) separator
       else bin_from_hex bin (pos + 1) bin_size src separator))))"

text \<open>\<open>strchr\<close> for a byte other than zero.\<close>

fun c_strchr :: "u8 list \<Rightarrow> u8 \<Rightarrow> nat option outcome" where
  "c_strchr [] x = Inl OutOfBounds"
| "c_strchr (c # p) x = (if c = x then Inr (Some 0) else if c = 0 then Inr None else map_sum id (map_option Suc) (c_strchr p x))"

fun uuid_parse :: "u8 list \<Rightarrow> nat \<Rightarrow> u8 list option \<Rightarrow> nat list \<Rightarrow> (int \<times> u8 list) outcome" where
  "uuid_parse bin pos current_group [] = Inr (0, bin)"
| "uuid_parse bin pos current_group (g # gs) =
     bnd (deref current_group) (\<lambda>cur.
     bnd (c_strchr cur 45) (\<lambda>found.
     let (cur, next_group) = (case found of None \<Rightarrow> (cur, None) | Some k \<Rightarrow> (cur[k := 0], Some (drop (k + 1) cur))) in
     if next_group = None \<and> gs \<noteq> [] then Inr (-1, bin)
     else bnd (c_strlen cur) (\<lambda>l.
       if l \<noteq> g then Inr (-1, bin)
       else bnd (bin_from_hex bin pos (g div 2) cur 0) (\<lambda>(r, bin).
         if r \<noteq> 0 then Inr (-1, bin) else uuid_parse bin (pos + g div 2) next_group gs))))"

definition uuid_from_string :: "u8 list \<Rightarrow> nat \<Rightarrow> u8 list \<Rightarrow> (int \<times> u8 list) outcome" where
  "uuid_from_string bin bin_size src =
     (if bin_size < 16 then Inr (-1, bin)
      else bnd (c_strlen src) (\<lambda>l.
        if l > 32 + 4 then Inr (-1, bin)
        else bnd (strscpy (Some (replicate (32 + 4 + 1) 0)) (Some src) (32 + 4 + 1)) (\<lambda>buffer. uuid_parse bin 0 buffer UUID_GROUPS)))"

text \<open>\<open>for (len = 31; len >= 0; len--) { if (v4 == shift) return len; shift <<= 1; }\<close>, with \<open>n = len + 1\<close>.\<close>

fun mask_search :: "u32 \<Rightarrow> u32 \<Rightarrow> nat \<Rightarrow> int" where
  "mask_search v4 shift 0 = -1"
| "mask_search v4 shift (Suc len) = (if v4 = shift then int len else mask_search v4 (push_bit 1 shift) len)"

definition octets_word :: "u8 list \<Rightarrow> u32" where
  "octets_word bs = foldl (\<lambda>a b. push_bit 8 a OR ucast b) 0 bs"

definition subnetmask_to_prefixlen :: "inet \<Rightarrow> af \<Rightarrow> u8 list \<Rightarrow> int outcome" where
  "subnetmask_to_prefixlen I F src =
     bnd (c_string src) (\<lambda>t.
     Inr (case inet_pton I (AF_INET F) t of None \<Rightarrow> -1 | Some v4 \<Rightarrow> mask_search (octets_word v4) 0xffffffff 32))"

definition prefix_bytes :: "u8 list \<Rightarrow> u8 list" where
  "prefix_bytes bs = bs @ replicate (NETADDR_MAX_LENGTH - length bs) 0"

definition known_prefixes :: "af \<Rightarrow> (string \<times> netaddr) list" where
  "known_prefixes F =
     [(''any4'', \<lparr>na_addr = prefix_bytes [], na_type = AF_INET F, na_prefix_len = 0\<rparr>),
      (''any6'', \<lparr>na_addr = prefix_bytes [], na_type = AF_INET6 F, na_prefix_len = 0\<rparr>),
      (''linklocal4'', \<lparr>na_addr = prefix_bytes [169, 254], na_type = AF_INET F, na_prefix_len = 16\<rparr>),
      (''linklocal6'', \<lparr>na_addr = prefix_bytes [0xfe, 0x80], na_type = AF_INET6 F, na_prefix_len = 10\<rparr>),
      (''ula'', \<lparr>na_addr = prefix_bytes [0xfc], na_type = AF_INET6 F, na_prefix_len = 7\<rparr>)]"

fun find_known :: "u8 list \<Rightarrow> (string \<times> netaddr) list \<Rightarrow> netaddr option outcome" where
  "find_known src [] = Inr None"
| "find_known src ((name, prefix) # ps) =
     bnd (str_compare tolower None src (lit name @ [0])) (\<lambda>r. if r = 0 then Inr (Some prefix) else find_known src ps)"

text \<open>The scan of the address: what it counts, and the memory from its end on.\<close>

record scan =
  colon_count :: nat
  minus_count :: nat
  has_coloncolon :: bool
  has_point :: bool
  last_was_colon :: bool

definition scan_none :: scan where
  "scan_none = \<lparr>colon_count = 0, minus_count = 0, has_coloncolon = False, has_point = False, last_was_colon = False\<rparr>"

definition scan_char :: "u8 \<Rightarrow> scan \<Rightarrow> scan" where
  "scan_char c k =
     (let k = (if c = 58 then k\<lparr>has_coloncolon := last_was_colon k \<or> has_coloncolon k, colon_count := colon_count k + 1\<rparr>
               else if c = 46 then k\<lparr>has_point := True\<rparr>
               else if c = 45 then k\<lparr>minus_count := minus_count k + 1\<rparr>
               else k)
      in k\<lparr>last_was_colon := (c = 58)\<rparr>)"

fun scan_address :: "u8 list \<Rightarrow> scan \<Rightarrow> (scan \<times> u8 list \<times> u8 list) outcome" where
  "scan_address [] k = Inl OutOfBounds"
| "scan_address (c # p) k =
     (if c \<noteq> 0 \<and> \<not> isspace c \<and> c \<noteq> 47 then map_sum id (\<lambda>(k, a, r). (k, c # a, r)) (scan_address p (scan_char c k))
      else Inr (k, [], c # p))"

text \<open>\<open>while (isspace(*p)) *p++ = 0\<close>: the zeros it stores and the memory behind them.\<close>

fun zero_spaces :: "u8 list \<Rightarrow> (u8 list \<times> u8 list) outcome" where
  "zero_spaces [] = Inl OutOfBounds"
| "zero_spaces (c # p) = (if isspace c then map_sum id (\<lambda>(z, r). (0 # z, r)) (zero_spaces p) else Inr ([], c # p))"

text \<open>Splitting the prefix off: the memory with the address and, unless it is missing, the memory of the prefix.\<close>

definition split_prefix :: "u8 list \<Rightarrow> u8 list \<Rightarrow> (u8 list \<times> u8 list) outcome" where
  "split_prefix address ptr2 =
     bnd (zero_spaces ptr2) (\<lambda>(z1, p).
     bnd (at p) (\<lambda>c.
     let (z2, p) = (if c = 47 then ([0], tl p) else ([], p)) in
     bnd (zero_spaces p) (\<lambda>(z3, p). Inr (address @ z1 @ z2 @ z3 @ p, p))))"

definition pton :: "inet \<Rightarrow> u8 \<Rightarrow> u8 list \<Rightarrow> netaddr \<Rightarrow> (int \<times> netaddr) outcome" where
  "pton I family src dst =
     bnd (c_string src) (\<lambda>t. case inet_pton I family t of
       None \<Rightarrow> Inr (-1, dst)
     | Some bs \<Rightarrow> bnd (mem_write (na_addr dst) 0 bs) (\<lambda>a. Inr (0, dst\<lparr>na_addr := a\<rparr>)))"

definition hex_addr :: "netaddr \<Rightarrow> nat \<Rightarrow> u8 list \<Rightarrow> u8 \<Rightarrow> (int \<times> netaddr) outcome" where
  "hex_addr dst n src separator =
     bnd (bin_from_hex (na_addr dst) 0 n src separator) (\<lambda>(r, a). Inr (r, dst\<lparr>na_addr := a\<rparr>))"

text \<open>The address itself; the kind of the address follows from the counts. The third component is the prefix length.\<close>

definition parse_address :: "inet \<Rightarrow> af \<Rightarrow> scan \<Rightarrow> u8 list \<Rightarrow> u8 list \<Rightarrow> int \<Rightarrow> netaddr \<Rightarrow> (int \<times> netaddr \<times> int) outcome" where
  "parse_address I F k ptr1 ptr2 prefix_len dst =
     (if (colon_count k = 5 \<or> minus_count k = 5) \<and> (colon_count k = 0 \<or> minus_count k = 0) \<and> \<not> has_point k \<and> \<not> has_coloncolon k
      then let dst = dst\<lparr>na_type := AF_MAC48 F, na_prefix_len := 48\<rparr> in
        bnd (hex_addr dst 6 ptr1 (if colon_count k > 0 then 58 else 45)) (\<lambda>(r, dst). Inr (r, dst, prefix_len))
      else if colon_count k = 0 \<and> \<not> has_point k \<and> minus_count k = 7
      then let dst = dst\<lparr>na_type := AF_EUI64 F, na_prefix_len := 64\<rparr> in
        bnd (mem_write (na_addr dst) 7 [2]) (\<lambda>a.
        bnd (hex_addr (dst\<lparr>na_addr := a\<rparr>) 8 ptr1 45) (\<lambda>(r, dst). Inr (r, dst, prefix_len)))
      else if colon_count k = 0 \<and> has_point k \<and> minus_count k = 0
      then let dst = dst\<lparr>na_type := AF_INET F, na_prefix_len := 32\<rparr> in
        bnd (pton I (AF_INET F) ptr1 dst) (\<lambda>(r, dst).
        bnd (at ptr2) (\<lambda>c.
        bnd (if r = 0 \<and> c \<noteq> 0 \<and> prefix_len = -1 then subnetmask_to_prefixlen I F ptr2 else Inr prefix_len) (\<lambda>prefix_len.
        Inr (r, dst, prefix_len))))
      else if (has_coloncolon k \<or> colon_count k = 7) \<and> minus_count k = 0
      then let dst = dst\<lparr>na_type := AF_INET6 F, na_prefix_len := 128\<rparr> in
        bnd (pton I (AF_INET6 F) ptr1 dst) (\<lambda>(r, dst). Inr (r, dst, prefix_len))
      else if minus_count k = 4 \<and> colon_count k = 0 \<and> \<not> has_point k
      then let dst = dst\<lparr>na_type := AF_UUID F, na_prefix_len := 128\<rparr> in
        bnd (uuid_from_string (na_addr dst) NETADDR_MAX_LENGTH ptr1) (\<lambda>(r, a). Inr (r, dst\<lparr>na_addr := a\<rparr>, prefix_len))
      else Inr (-1, dst, prefix_len))"

definition netaddr_invalidate :: netaddr where
  "netaddr_invalidate = \<lparr>na_addr = replicate NETADDR_MAX_LENGTH 0, na_type = 0, na_prefix_len = 0\<rparr>"

text \<open>The part of \<open>netaddr_from_string\<close> behind the scan.\<close>

definition parse_prefixed :: "inet \<Rightarrow> af \<Rightarrow> scan \<Rightarrow> u8 list \<Rightarrow> u8 list \<Rightarrow> netaddr \<Rightarrow> (netaddr \<times> int) outcome" where
  "parse_prefixed I F k address ptr2 dst =
     bnd (at ptr2) (\<lambda>c.
     bnd (if c \<noteq> 0 then split_prefix address ptr2 else Inr (address @ ptr2, ptr2)) (\<lambda>(ptr1, p).
     bnd (at p) (\<lambda>c'.
     if c \<noteq> 0 \<and> c' = 0 then Inr (dst\<lparr>na_type := AF_UNSPEC F\<rparr>, -1)
     else bnd (if c \<noteq> 0 then bnd (strtoul p) (\<lambda>(v, q). bnd (at q) (\<lambda>e. Inr (if e \<noteq> 0 then -1 else sint v))) else Inr (-1)) (\<lambda>prefix_len.
       bnd (parse_address I F k ptr1 p prefix_len dst) (\<lambda>(r, dst, prefix_len).
       if r \<noteq> 0 then Inr (dst\<lparr>na_type := AF_UNSPEC F\<rparr>, -1)
       else if c' \<noteq> 0
       then if prefix_len < 0 \<or> prefix_len > uint (na_prefix_len dst) then Inr (dst\<lparr>na_type := AF_UNSPEC F\<rparr>, -1)
            else Inr (dst\<lparr>na_prefix_len := word_of_int prefix_len\<rparr>, 0)
       else Inr (dst, 0))))))"

definition netaddr_from_string :: "inet \<Rightarrow> af \<Rightarrow> u8 list \<Rightarrow> (netaddr \<times> int) outcome" where
  "netaddr_from_string I F src =
     (let dst = netaddr_invalidate in
      bnd (str_compare id None src (lit ''-'' @ [0])) (\<lambda>r.
      if r = 0 then Inr (netaddr_invalidate, 0)
      else bnd (find_known src (known_prefixes F)) (\<lambda>known.
        case known of Some p \<Rightarrow> Inr (p, 0)
        | None \<Rightarrow>
            bnd (strscpy (Some (replicate (str_size I) 0)) (Some src) (str_size I)) (\<lambda>buf.
            bnd (str_trim buf) (\<lambda>ptr1.
            bnd (deref ptr1) (\<lambda>ptr1.
            bnd (scan_address ptr1 scan_none) (\<lambda>(k, address, ptr2). parse_prefixed I F k address ptr2 dst)))))))"

section \<open>Netmasks\<close>

definition netmask :: "nat \<Rightarrow> u32" where
  "netmask n = push_bit (32 - n) (-1)"

text \<open>
  A netmask with \<open>n\<close> one bits is read as prefix length \<open>n - 1\<close>: the search begins with the mask of all ones but
  counts down from 31. The address 0.0.0.0 is not a netmask for it.
\<close>

lemma subnetmask_one_too_short:
  assumes "n \<le> 32" and "inet_pton I (AF_INET F) t = Some bs" and "octets_word bs = netmask n" and "0 \<notin> set t"
  shows "subnetmask_to_prefixlen I F (t @ 0 # r) = Inr (int n - 1)"
proof -
  have "\<forall>n \<in> set [0..<33]. mask_search (netmask n) 0xffffffff 32 = int n - 1" by code_simp
  moreover have "n \<in> set [0..<33]" using assms(1) by simp
  ultimately have "mask_search (octets_word bs) 0xffffffff 32 = int n - 1" unfolding assms(3) by (rule bspec)
  then show ?thesis using assms(2,4) by (simp add: subnetmask_to_prefixlen_def c_string_def cstring mem_read_def)
qed

lemma subnetmask_one_too_short_witness:
  "\<exists>I. subnetmask_to_prefixlen I af_ref (lit ''255.255.255.0'' @ [0]) = Inr 23"
proof -
  let ?I = "\<lparr>inet_pton = (\<lambda>f t. Some [255, 255, 255, 0]), inet_ntop = (\<lambda>f bs n. None), str_size = 62\<rparr>"
  have "0 \<notin> set (lit ''255.255.255.0'')" by code_simp
  moreover have "octets_word [255, 255, 255, 0] = netmask 24" by code_simp
  ultimately have "subnetmask_to_prefixlen ?I af_ref (lit ''255.255.255.0'' @ 0 # []) = Inr (int 24 - 1)"
    by (intro subnetmask_one_too_short [where bs = "[255, 255, 255, 0]"]) simp_all
  then show ?thesis by (intro exI [of _ ?I]) simp
qed

section \<open>Hexadecimal text\<close>

definition hexchar :: "u8 \<Rightarrow> bool" where
  "hexchar c \<longleftrightarrow> 48 \<le> c \<and> c \<le> 57 \<or> 97 \<le> c \<and> c \<le> 102"

lemma hexdigit_hexchar: "unat n < 16 \<Longrightarrow> hexchar (hexdigit n) \<and> read_hexdigit (hexdigit n) = uint n"
proof -
  assume "unat n < 16"
  then have "n \<in> set (map of_nat [0..<16])" by (auto simp: image_iff intro!: bexI [of _ "unat n"])
  moreover have "\<forall>n \<in> set (map of_nat [0..<16]). hexchar (hexdigit n) \<and> read_hexdigit (hexdigit n) = uint n" by code_simp
  ultimately show ?thesis by blast
qed

lemma hexcharD:
  assumes "hexchar c"
  shows "c \<noteq> 0" and "\<not> isspace c" and "c \<noteq> 45" and "c \<noteq> 46" and "c \<noteq> 47" and "c \<noteq> 58" and "tolower c = c"
    and "c \<noteq> 108" and "c \<noteq> 110" and "c \<noteq> 117"
  using assms by (auto simp: hexchar_def isspace_def tolower_def word_le_nat_alt)

definition hex2 :: "u8 \<Rightarrow> u8 list" where
  "hex2 b = [hexdigit (drop_bit 4 b), hexdigit (b AND 15)]"

lemma hex2_parts: "unat (drop_bit 4 b) < 16" "unat (b AND 15) < 16" "uint (drop_bit 4 b) * 16 + uint (b AND 15) = uint (b :: u8)"
proof -
  have "unat (drop_bit 4 b) = unat b div 16" "unat (b AND 15) = unat b mod 16" by (simp_all add: unat_drop and_15)
  moreover have "unat b < 256" using unsigned_less [where 'a = nat and w = b] by simp
  ultimately show "unat (drop_bit 4 b) < 16" "unat (b AND 15) < 16" by simp_all
  have "uint (drop_bit 4 b) * 16 + uint (b AND 15) = int (unat (drop_bit 4 b) * 16 + unat (b AND 15))" by simp
  also have "\<dots> = uint b" using \<open>unat (drop_bit 4 b) = _\<close> \<open>unat (b AND 15) = _\<close> by simp
  finally show "uint (drop_bit 4 b) * 16 + uint (b AND 15) = uint b" .
qed

text \<open>The octets with a separator behind each, and without the last separator.\<close>

definition hex_sep :: "u8 \<Rightarrow> u8 list \<Rightarrow> u8 list" where
  "hex_sep sep bs = concat (map (\<lambda>b. hex2 b @ [sep]) bs)"

definition hex_text :: "u8 \<Rightarrow> u8 list \<Rightarrow> u8 list" where
  "hex_text sep bs = butlast (hex_sep sep bs)"

lemma hex_sep_simps [simp]: "hex_sep sep [] = []" "hex_sep sep (b # bs) = hex2 b @ sep # hex_sep sep bs"
  by (simp_all add: hex_sep_def)

lemma length_hex2 [simp]: "length (hex2 b) = 2"
  by (simp add: hex2_def)

lemma length_hex_sep [simp]: "length (hex_sep sep bs) = 3 * length bs"
  by (induction bs) simp_all

lemma hex_text_Cons: "hex_text sep (b # bs) = hex2 b @ (if bs = [] then [] else sep # hex_text sep bs)"
proof (cases bs)
  case (Cons c cs)
  have "hex_sep sep bs \<noteq> []" using Cons by (simp add: hex2_def)
  then show ?thesis by (simp add: hex_text_def Cons butlast_append)
qed (simp add: hex_text_def hex2_def)

lemma hex_sep_text: "bs \<noteq> [] \<Longrightarrow> hex_sep sep bs = hex_text sep bs @ [sep]"
  by (induction bs) (auto simp: hex_text_Cons)

lemma length_hex_text [simp]: "length (hex_text sep bs) = 3 * length bs - 1"
  by (simp add: hex_text_def)

lemma blit_append: "off + length xs + length ys \<le> length d \<Longrightarrow> blit (blit d off xs) (off + length xs) ys = blit d off (xs @ ys)"
  by (simp add: blit_def ac_simps)

text \<open>\<open>_mac_to_string\<close> writes the text and its terminator.\<close>

lemma mac_loop_text:
  assumes "sep \<noteq> 0" and "3 * length bin \<le> sz" and "pos + 3 * length bin \<le> length dst" and "bin \<noteq> []"
  shows "mac_loop sep dst pos l sz bin = Inr (blit dst pos (hex_sep sep bin), pos + 3 * length bin - 1)"
  using assms(2-4)
proof (induction bin arbitrary: dst pos l sz)
  case (Cons b bin)
  have "mem_write dst pos (hex2 b) = Inr (blit dst pos (hex2 b))" using Cons.prems by (simp add: mem_write_def)
  moreover have "mem_write (blit dst pos (hex2 b)) (pos + 2) [sep] = Inr (blit dst pos (hex2 b @ [sep]))"
    using Cons.prems blit_append [of pos "hex2 b" "[sep]" dst] by (simp add: mem_write_def)
  moreover have "mac_loop sep (blit dst pos (hex2 b @ [sep])) (pos + 3) (pos + 2) (sz - 3) bin =
      Inr (blit dst pos (hex_sep sep (b # bin)), pos + 3 * length (b # bin) - 1)"
  proof (cases "bin = []")
    case False
    have "mac_loop sep (blit dst pos (hex2 b @ [sep])) (pos + 3) (pos + 2) (sz - 3) bin =
        Inr (blit (blit dst pos (hex2 b @ [sep])) (pos + 3) (hex_sep sep bin), pos + 3 + 3 * length bin - 1)"
      by (rule Cons.IH) (use Cons.prems False in simp_all)
    then show ?thesis using Cons.prems blit_append [of pos "hex2 b @ [sep]" "hex_sep sep bin" dst] by (simp add: numeral_3_eq_3)
  qed simp
  ultimately show ?case using Cons.prems assms(1) by (simp add: hex2_def [symmetric])
qed simp

lemma mem_write_mid: "mem_write (x @ c # y) (length x) [d] = Inr (x @ d # y)"
  by (simp add: mem_write_def blit_def)

lemma mac_to_string_text:
  assumes "sep \<noteq> 0" and "3 * length bin \<le> sz" and "3 * length bin \<le> length dst" and "bin \<noteq> []"
  shows "mac_to_string dst sz bin sep = Inr (True, hex_text sep bin @ 0 # drop (3 * length bin) dst)"
proof -
  have pos: "length (hex_text sep bin) = 0 + 3 * length bin - 1" by simp
  have "blit dst 0 (hex_sep sep bin) = hex_text sep bin @ sep # drop (3 * length bin) dst"
  proof -
    have "blit dst 0 (hex_sep sep bin) = hex_sep sep bin @ drop (3 * length bin) dst" by (simp add: blit_def)
    then show ?thesis by (simp add: hex_sep_text [OF assms(4)])
  qed
  then have "mem_write (blit dst 0 (hex_sep sep bin)) (0 + 3 * length bin - 1) [0] = Inr (hex_text sep bin @ 0 # drop (3 * length bin) dst)"
    unfolding pos [symmetric] by (simp only: mem_write_mid)
  moreover have "sz \<noteq> 0" using assms(2,4) by (cases bin) auto
  ultimately show ?thesis using mac_loop_text [of sep bin sz 0 dst 0] assms by (simp add: mac_to_string_def)
qed

text \<open>\<open>_bin_from_hex\<close> reads it back.\<close>

lemma read_hex2:
  "read_hexdigit (hexdigit (drop_bit 4 b)) = uint (drop_bit 4 b)" "read_hexdigit (hexdigit (b AND 15)) = uint (b AND 15)"
  "hexchar (hexdigit (drop_bit 4 b))" "hexchar (hexdigit (b AND 15))"
  using hexdigit_hexchar [OF hex2_parts(1) [of b]] hexdigit_hexchar [OF hex2_parts(2) [of b]] by simp_all

lemma hex_round: "drop_bit 4 b * 16 + (b AND 15) = (b :: u8)"
proof -
  have "drop_bit 4 b * 16 + (b AND 15) = word_of_int (uint (drop_bit 4 b) * 16 + uint (b AND 15))" by simp
  then show ?thesis by (simp only: hex2_parts(3) word_of_int_uint)
qed

lemma at_Cons [simp]: "at (c # p) = Inr c"
  by (simp add: at_def mem_get_def)

lemma bin_from_hex_text:
  assumes "sep \<noteq> 0" and "bs \<noteq> []" and "pos + length bs \<le> length bin"
  shows "bin_from_hex bin pos (length bs) (hex_text sep bs @ 0 # r) sep = Inr (0, blit bin pos bs)"
  using assms(2,3)
proof (induction bs arbitrary: bin pos)
  case (Cons b bs)
  have stored: "mem_write bin pos [b] = Inr (blit bin pos [b])" using Cons.prems by (simp add: mem_write_def)
  have more: "bin_from_hex (blit bin pos [b]) (pos + 1) (length bs) (hex_text sep bs @ 0 # r) sep = Inr (0, blit bin pos (b # bs))" if "bs \<noteq> []"
  proof -
    have "bin_from_hex (blit bin pos [b]) (pos + 1) (length bs) (hex_text sep bs @ 0 # r) sep = Inr (0, blit (blit bin pos [b]) (pos + 1) bs)"
      by (rule Cons.IH) (use that Cons.prems in simp_all)
    then show ?thesis using Cons.prems blit_append [of pos "[b]" bs bin] by simp
  qed
  have pos: "0 \<le> uint (drop_bit 4 b)" "0 \<le> uint (b AND 15)" "uint (drop_bit 4 b) \<noteq> -1" by (simp_all add: eq_neg_iff_add_eq_0 add_nonneg_eq_0_iff)
  show ?case using assms(1) pos stored more
    by (cases "bs = []") (simp_all add: hex_text_Cons hex2_def read_hex2 hex_round Let_def)
qed simp

text \<open>What the scan finds in such a text.\<close>

lemma scan_hexchar:
  "hexchar c \<Longrightarrow> scan_address (c # p) k = map_sum id (\<lambda>(k, a, r). (k, c # a, r)) (scan_address p (k\<lparr>last_was_colon := False\<rparr>))"
  using hexcharD [of c] by (simp add: scan_char_def Let_def)

lemma scan_hex2: "scan_address (hex2 b @ p) k = map_sum id (\<lambda>(k, a, r). (k, hex2 b @ a, r)) (scan_address p (k\<lparr>last_was_colon := False\<rparr>))"
  unfolding hex2_def append.simps scan_hexchar [OF read_hex2(3)] scan_hexchar [OF read_hex2(4)]
  by (cases "scan_address p (k\<lparr>last_was_colon := False\<rparr>)") auto

lemma scan_hex_text:
  assumes "sep = 58 \<or> sep = 45" and "bs \<noteq> []" and "c = 0 \<or> c = 47"
  shows "scan_address (hex_text sep bs @ c # p) k = Inr
    (k\<lparr>colon_count := colon_count k + (if sep = 58 then length bs - 1 else 0), minus_count := minus_count k + (if sep = 45 then length bs - 1 else 0),
       last_was_colon := False\<rparr>, hex_text sep bs, c # p)"
  using assms(2)
proof (induction bs arbitrary: k)
  case (Cons b bs)
  show ?case
  proof (cases "bs = []")
    case True
    then show ?thesis using assms(3) by (auto simp: hex_text_Cons scan_hex2)
  next
    case False
    from Cons.IH [OF this] assms(1) False show ?thesis
      by (cases bs) (auto simp: hex_text_Cons [of sep b] scan_hex2 scan_char_def Let_def isspace_def)
  qed
qed simp

section \<open>Decimal numbers\<close>

lemma decimal_digits: "\<forall>c \<in> set (decimal n). isdigit c"
proof (induction n rule: decimal.induct)
  case (1 n)
  have digit: "isdigit (of_nat (48 + d))" if "d < 10" for d
    using that by (simp add: isdigit_def word_le_nat_alt unsigned_of_nat take_bit_nat_eq_self unat_word_ariths)
  show ?case using 1 digit by (subst decimal.simps) auto
qed

lemma digits_value_decimal: "digits_value acc (decimal n @ q) = digits_value (acc * 10 ^ length (decimal n) + n) q"
proof (induction n arbitrary: acc q rule: decimal.induct)
  case (1 n)
  have digit: "digits_value a (of_nat (48 + d) # q) = digits_value (10 * a + d) q" if "d < 10" for a d q
    using that by (simp add: isdigit_def word_le_nat_alt unsigned_of_nat take_bit_nat_eq_self unat_word_ariths)
  show ?case
  proof (cases "n < 10")
    case True
    then show ?thesis using digit [of n acc q] by (simp add: decimal.simps mult.commute)
  next
    case False
    have d: "decimal n = decimal (n div 10) @ [of_nat (48 + n mod 10)]" using False by (subst decimal.simps) simp
    have "digits_value acc (decimal n @ q) = digits_value (acc * 10 ^ length (decimal (n div 10)) + n div 10) (of_nat (48 + n mod 10) # q)"
      unfolding d using 1 [OF False, of acc "of_nat (48 + n mod 10) # q"] by simp
    also have "\<dots> = digits_value (10 * (acc * 10 ^ length (decimal (n div 10)) + n div 10) + n mod 10) q" by (rule digit) simp
    also have "10 * (acc * 10 ^ length (decimal (n div 10)) + n div 10) + n mod 10 = acc * 10 ^ length (decimal n) + n"
      unfolding d by (simp add: algebra_simps)
    finally show ?thesis .
  qed
qed

lemma decimal_nonempty [simp]: "decimal n \<noteq> []"
  by (subst decimal.simps) simp

lemma isdigitD: "isdigit c \<Longrightarrow> c \<noteq> 0 \<and> \<not> isspace c \<and> c \<noteq> 43 \<and> c \<noteq> 45 \<and> c \<noteq> 47"
  by (auto simp: isdigit_def isspace_def word_le_nat_alt)

lemma isdigit_0 [simp]: "\<not> isdigit 0"
  by (simp add: isdigit_def)

lemma decimal_hd: "isdigit (hd (decimal n))"
  using decimal_digits [of n] by simp

lemma dropWhile_all: "\<forall>x \<in> set xs. P x \<Longrightarrow> dropWhile P xs = []"
  by simp

lemma strtoul_decimal:
  assumes "n < 2 ^ 32"
  shows "strtoul (decimal n @ 0 # r) = Inr (of_nat n, 0 # r)"
proof -
  obtain c cs where d: "decimal n = c # cs" by (cases "decimal n") auto
  have c: "isdigit c" using decimal_hd [of n] d by simp
  have skip: "skip_while isspace (decimal n @ 0 # r) = Inr (decimal n @ 0 # r)" using isdigitD [OF c] d by simp
  have at: "at (decimal n @ 0 # r) = Inr c" using d by simp
  have digits: "skip_while isdigit (decimal n @ 0 # r) = Inr (0 # r)"
    using skip_while_str [of isdigit "decimal n" r] dropWhile_all [OF decimal_digits [of n]] by simp
  have v: "digits_value 0 (decimal n @ 0 # r) = n" using digits_value_decimal [of 0 n "0 # r"] by simp
  have "c \<noteq> 43" "c \<noteq> 45" using isdigitD [OF c] by simp_all
  with assms c show ?thesis unfolding strtoul_def skip bnd.simps at Let_def by (simp add: at digits v)
qed

lemma decimal_short: "n < 1000 \<Longrightarrow> length (decimal n) \<le> 3"
  by (subst decimal.simps, subst decimal.simps, subst decimal.simps) simp

section \<open>Link-layer addresses: what is printed is parsed\<close>

lemma str_compare_head: "f c \<noteq> f x \<Longrightarrow> \<exists>r. r \<noteq> 0 \<and> str_compare f None (c # p) (x # q) = Inr r"
  by (cases "f c < f x") auto

lemma str_compare_next: "f c = f x \<Longrightarrow> c \<noteq> 0 \<Longrightarrow> str_compare f None (c # p) (x # q) = str_compare f None p q"
  by simp

lemma find_known_skip:
  "\<exists>r. r \<noteq> 0 \<and> str_compare tolower None src (lit name @ [0]) = Inr r \<Longrightarrow> find_known src ((name, prefix) # ps) = find_known src ps"
  by auto

lemma not_known_name:
  assumes "hexchar c" and "hexchar d"
  shows "\<exists>r. r \<noteq> 0 \<and> str_compare id None (c # d # p) (lit ''-'' @ [0]) = Inr r"
    and "find_known (c # d # p) (known_prefixes F) = Inr None"
proof -
  have lits: "lit ''-'' = [45]" "lit ''any4'' = [97, 110, 121, 52]" "lit ''any6'' = [97, 110, 121, 54]" "lit ''ula'' = [117, 108, 97]"
    "lit ''linklocal4'' = 108 # lit ''inklocal4''" "lit ''linklocal6'' = 108 # lit ''inklocal6''" by code_simp+
  show "\<exists>r. r \<noteq> 0 \<and> str_compare id None (c # d # p) (lit ''-'' @ [0]) = Inr r"
    unfolding lits append.simps by (rule str_compare_head) (use hexcharD [OF assms(1)] in simp)
  have low: "tolower 97 = 97" "tolower 110 = 110" "tolower 108 = 108" "tolower 117 = 117" by code_simp+
  have any: "\<exists>r. r \<noteq> 0 \<and> str_compare tolower None (c # d # p) (97 # 110 # q) = Inr r" for q
  proof (cases "c = 97")
    case True
    have "\<exists>r. r \<noteq> 0 \<and> str_compare tolower None (d # p) (110 # q) = Inr r"
      by (rule str_compare_head) (use hexcharD [OF assms(2)] low in simp)
    then show ?thesis using True by simp
  next
    case False
    show ?thesis by (rule str_compare_head) (use False hexcharD [OF assms(1)] low in simp)
  qed
  have other: "\<exists>r. r \<noteq> 0 \<and> str_compare tolower None (c # d # p) (x # q) = Inr r" if "x = 108 \<or> x = 117" for x q
    by (rule str_compare_head) (use that hexcharD [OF assms(1)] low in auto)
  note skips = find_known_skip [where src = "c # d # p"]
  have "\<exists>r. r \<noteq> 0 \<and> str_compare tolower None (c # d # p) (lit ''any4'' @ [0]) = Inr r" unfolding lits append.simps by (rule any)
  note any4 = skips [OF this]
  have "\<exists>r. r \<noteq> 0 \<and> str_compare tolower None (c # d # p) (lit ''any6'' @ [0]) = Inr r" unfolding lits append.simps by (rule any)
  note any6 = skips [OF this]
  have "\<exists>r. r \<noteq> 0 \<and> str_compare tolower None (c # d # p) (lit ''linklocal4'' @ [0]) = Inr r" unfolding lits append.simps by (rule other) simp
  note local4 = skips [OF this]
  have "\<exists>r. r \<noteq> 0 \<and> str_compare tolower None (c # d # p) (lit ''linklocal6'' @ [0]) = Inr r" unfolding lits append.simps by (rule other) simp
  note local6 = skips [OF this]
  have "\<exists>r. r \<noteq> 0 \<and> str_compare tolower None (c # d # p) (lit ''ula'' @ [0]) = Inr r" unfolding lits append.simps by (rule other) simp
  note ula = skips [OF this]
  show "find_known (c # d # p) (known_prefixes F) = Inr None"
    unfolding known_prefixes_def by (simp only: any4 any6 local4 local6 ula find_known.simps(1))
qed

text \<open>The two kinds of address: separator, family and length.\<close>

definition link_kind :: "af \<Rightarrow> u8 \<Rightarrow> u8 \<Rightarrow> nat \<Rightarrow> bool" where
  "link_kind F sep ty n \<longleftrightarrow> sep = 58 \<and> ty = AF_MAC48 F \<and> n = 6 \<or> sep = 45 \<and> ty = AF_EUI64 F \<and> n = 8"

lemma link_kindD: "link_kind F sep ty n \<Longrightarrow> (sep = 58 \<or> sep = 45) \<and> sep \<noteq> 0 \<and> 0 < n \<and> n \<le> 8"
  by (auto simp: link_kind_def)

definition link_scan :: "u8 \<Rightarrow> nat \<Rightarrow> scan" where
  "link_scan sep n = scan_none\<lparr>colon_count := (if sep = 58 then n - 1 else 0), minus_count := (if sep = 45 then n - 1 else 0)\<rparr>"

definition link_addr :: "u8 list \<Rightarrow> u8 \<Rightarrow> u8 \<Rightarrow> netaddr" where
  "link_addr bs ty len = \<lparr>na_addr = prefix_bytes bs, na_type = ty, na_prefix_len = len\<rparr>"

lemma hex_addr_text:
  assumes "sep \<noteq> 0" and "bs \<noteq> []" and "length bs \<le> length (na_addr a)"
  shows "hex_addr a (length bs) (hex_text sep bs @ 0 # q) sep = Inr (0, a\<lparr>na_addr := blit (na_addr a) 0 bs\<rparr>)"
  using bin_from_hex_text [OF assms(1,2), of 0 "na_addr a" q] assms(3) by (simp add: hex_addr_def)

lemma parse_address_link:
  assumes kind: "link_kind F sep ty n" and bs: "length bs = n"
  shows "parse_address I F (link_scan sep n) (hex_text sep bs @ 0 # q) p pl netaddr_invalidate = Inr (0, link_addr bs ty (of_nat (8 * n)), pl)"
proof -
  have ne: "bs \<noteq> []" using link_kindD [OF kind] bs by auto
  from kind consider "sep = 58" "ty = AF_MAC48 F" "n = 6" | "sep = 45" "ty = AF_EUI64 F" "n = 8" by (auto simp: link_kind_def)
  then show ?thesis
  proof cases
    case 1
    let ?a = "netaddr_invalidate\<lparr>na_type := AF_MAC48 F, na_prefix_len := 48\<rparr>"
    have "hex_addr ?a 6 (hex_text 58 bs @ 0 # q) 58 = Inr (0, ?a\<lparr>na_addr := blit (na_addr ?a) 0 bs\<rparr>)"
      using hex_addr_text [of 58 bs ?a q] ne bs 1 by (simp add: netaddr_invalidate_def NETADDR_MAX_LENGTH_def)
    then show ?thesis using 1 bs
      by (simp add: parse_address_def link_scan_def scan_none_def link_addr_def prefix_bytes_def netaddr_invalidate_def NETADDR_MAX_LENGTH_def blit_def Let_def)
  next
    case 2
    let ?a = "netaddr_invalidate\<lparr>na_type := AF_EUI64 F, na_prefix_len := 64\<rparr>"
    let ?b = "?a\<lparr>na_addr := blit (replicate NETADDR_MAX_LENGTH 0) 7 [2]\<rparr>"
    have "mem_write (na_addr ?a) 7 [2] = Inr (blit (replicate NETADDR_MAX_LENGTH 0) 7 [2])"
      by (simp add: mem_write_def netaddr_invalidate_def NETADDR_MAX_LENGTH_def)
    moreover have "length (na_addr ?b) = 16" by (simp add: NETADDR_MAX_LENGTH_def)
    then have "hex_addr ?b 8 (hex_text 45 bs @ 0 # q) 45 = Inr (0, ?b\<lparr>na_addr := blit (na_addr ?b) 0 bs\<rparr>)"
      using hex_addr_text [of 45 bs ?b q] ne bs 2 by simp
    moreover have "blit (replicate NETADDR_MAX_LENGTH 0) 7 [2] = replicate 7 0 @ 2 # (replicate 8 0 :: u8 list)"
      by (simp add: blit_def NETADDR_MAX_LENGTH_def)
    then have "blit (na_addr ?b) 0 bs = prefix_bytes bs"
      using bs 2 by (simp add: blit_def [of _ 0] prefix_bytes_def NETADDR_MAX_LENGTH_def)
    ultimately show ?thesis using 2 bs
      by (simp add: parse_address_def link_scan_def scan_none_def link_addr_def netaddr_invalidate_def Let_def)
  qed
qed

text \<open>The text with its suffix, as the parser gets it.\<close>

lemma hex_text_hd: "bs \<noteq> [] \<Longrightarrow> \<exists>c d t. hex_text sep bs = c # d # t \<and> hexchar c \<and> hexchar d"
  by (cases bs) (auto simp: hex_text_Cons hex2_def read_hex2)

lemma hex_text_nospace: "sep = 58 \<or> sep = 45 \<Longrightarrow> \<forall>c \<in> set (hex_text sep bs). c \<noteq> 0 \<and> \<not> isspace c"
proof (induction bs)
  case (Cons b bs)
  have "sep \<noteq> 0 \<and> \<not> isspace sep" using Cons.prems by (auto simp: isspace_def)
  then show ?case using Cons hexcharD(1,2) [OF read_hex2(3) [of b]] hexcharD(1,2) [OF read_hex2(4) [of b]]
    by (auto simp: hex_text_Cons hex2_def)
qed (simp add: hex_text_def)

definition prefix_suffix :: "u8 option \<Rightarrow> u8 list" where
  "prefix_suffix pl = (case pl of None \<Rightarrow> [] | Some l \<Rightarrow> 47 # decimal (unat l))"

lemma prefix_suffix_nospace: "\<forall>c \<in> set (prefix_suffix pl). c \<noteq> 0 \<and> \<not> isspace c"
  using decimal_digits isdigitD by (auto simp: prefix_suffix_def isspace_def split: option.splits)

lemma trimmed_id: "\<forall>c \<in> set t. \<not> isspace c \<Longrightarrow> trimmed t = t"
proof -
  have id: "dropWhile isspace u = u" if "\<forall>c \<in> set u. \<not> isspace c" for u using that by (cases u) simp_all
  assume "\<forall>c \<in> set t. \<not> isspace c"
  then show ?thesis using id [of t] id [of "rev t"] by (simp add: trimmed_def)
qed

lemma parse_prefixed_link:
  assumes kind: "link_kind F sep ty (length bs)" and pl: "\<And>l. pl = Some l \<Longrightarrow> unat l \<le> 8 * length bs"
  shows "parse_prefixed I F (link_scan sep (length bs)) (hex_text sep bs) (prefix_suffix pl @ 0 # q) netaddr_invalidate =
    Inr (link_addr bs ty (case pl of None \<Rightarrow> of_nat (8 * length bs) | Some l \<Rightarrow> l), 0)"
proof (cases pl)
  case None
  then show ?thesis using parse_address_link [OF kind refl, of I q "0 # q" "-1"] by (simp add: parse_prefixed_def prefix_suffix_def)
next
  case (Some l)
  let ?d = "decimal (unat l) @ 0 # q" and ?n = "8 * length bs"
  obtain c cs where d: "decimal (unat l) = c # cs" and c: "isdigit c" using decimal_hd [of "unat l"] by (cases "decimal (unat l)") auto
  have slash: "\<not> isspace 47" by (simp add: isspace_def)
  have split: "split_prefix (hex_text sep bs) (47 # ?d) = Inr (hex_text sep bs @ 0 # ?d, ?d)"
    using d isdigitD [OF c] slash by (simp add: split_prefix_def)
  have l: "unat l \<le> ?n" "?n \<le> 64" using pl [OF Some] link_kindD [OF kind] by simp_all
  have small: "uint (of_nat m :: u8) = int m" if "m < 256" for m
    using that by (simp add: unsigned_of_nat take_bit_nat_eq_self)
  have n: "uint (of_nat ?n :: u8) = int ?n" by (rule small) (use l(2) in simp)
  have signed: "sint (of_nat m :: u32) = int m" if "m < 256" for m
    using that by (simp add: signed_of_nat signed_take_bit_int_eq_self)
  have sl: "sint (of_nat (unat l) :: u32) = int (unat l)" by (rule signed) (use l in simp)
  have tl: "strtoul ?d = Inr (of_nat (unat l), 0 # q)" by (rule strtoul_decimal) (use l in simp)
  have "at ?d = Inr c" "c \<noteq> 0" using d isdigitD [OF c] by simp_all
  moreover have "parse_address I F (link_scan sep (length bs)) (hex_text sep bs @ 0 # ?d) ?d (sint (of_nat (unat l) :: u32)) netaddr_invalidate =
      Inr (0, link_addr bs ty (of_nat ?n), sint (of_nat (unat l) :: u32))"
    by (rule parse_address_link [OF kind refl])
  moreover have "\<not> int (unat l) < 0" "\<not> int ?n < int (unat l)" using l by linarith+
  ultimately show ?thesis
    unfolding parse_prefixed_def Some prefix_suffix_def option.case append_Cons split tl
    using n sl by (simp add: split tl link_addr_def)
qed

lemma from_string_link:
  assumes kind: "link_kind F sep ty (length bs)" and pl: "\<And>l. pl = Some l \<Longrightarrow> unat l \<le> 8 * length bs"
    and room: "length (hex_text sep bs @ prefix_suffix pl) < str_size I"
  shows "netaddr_from_string I F ((hex_text sep bs @ prefix_suffix pl) @ 0 # r) =
    Inr (link_addr bs ty (case pl of None \<Rightarrow> of_nat (8 * length bs) | Some l \<Rightarrow> l), 0)"
proof -
  let ?t = "hex_text sep bs @ prefix_suffix pl" and ?q = "replicate (str_size I - length (hex_text sep bs @ prefix_suffix pl) - 1) (0 :: u8)"
  have sep: "sep = 58 \<or> sep = 45" and ne: "bs \<noteq> []" using link_kindD [OF kind] by auto
  have clean: "\<forall>c \<in> set ?t. c \<noteq> 0 \<and> \<not> isspace c" using hex_text_nospace [OF sep] prefix_suffix_nospace by auto
  then have no0: "0 \<notin> set ?t" by auto
  obtain c d t where t: "hex_text sep bs = c # d # t" "hexchar c" "hexchar d" using hex_text_hd [OF ne] by blast
  then have src: "?t @ 0 # r = c # d # (t @ prefix_suffix pl @ 0 # r)" by simp
  from not_known_name(1) [OF t(2,3)] obtain x where x: "x \<noteq> 0" "str_compare id None (?t @ 0 # r) (lit ''-'' @ [0]) = Inr x" unfolding src by blast
  have known: "find_known (?t @ 0 # r) (known_prefixes F) = Inr None" unfolding src by (rule not_known_name(2) [OF t(2,3)])
  have "strscpy (Some (replicate (str_size I) 0)) (Some (?t @ 0 # r)) (str_size I) =
      Inr (Some (take (str_size I - 1) ?t @ replicate (str_size I - min (str_size I - 1) (length ?t)) 0 @ drop (str_size I) (replicate (str_size I) 0)))"
    by (rule strscpy_spec [OF no0]) (use room in simp_all)
  also have "take (str_size I - 1) ?t @ replicate (str_size I - min (str_size I - 1) (length ?t)) 0 @ drop (str_size I) (replicate (str_size I) 0) = ?t @ 0 # ?q"
    using room by (simp add: min_absorb2 flip: replicate_Suc)
  finally have copy: "strscpy (Some (replicate (str_size I) 0)) (Some (?t @ 0 # r)) (str_size I) = Inr (Some (?t @ 0 # ?q))" .
  have id: "dropWhile isspace ?t = ?t" using t hexcharD(2) [OF t(2)] by simp
  have trim: "str_trim (Some (?t @ 0 # ?q)) = Inr (Some (?t @ 0 # ?q))"
    using str_trim_spec [OF no0, of ?q] trimmed_id [of ?t] clean id by simp
  have scan: "scan_address (?t @ 0 # ?q) scan_none = Inr (link_scan sep (length bs), hex_text sep bs, prefix_suffix pl @ 0 # ?q)"
  proof -
    obtain c' p where cp: "prefix_suffix pl @ 0 # ?q = c' # p" "c' = 0 \<or> c' = 47" by (cases pl) (auto simp: prefix_suffix_def)
    show ?thesis unfolding append_assoc cp(1) scan_hex_text [OF sep ne cp(2)] by (simp add: link_scan_def scan_none_def)
  qed
  show ?thesis
    unfolding netaddr_from_string_def Let_def x(2) known copy bnd.simps if_not_P [OF x(1)] option.case trim deref_simps scan prod.case
    by (rule parse_prefixed_link [OF kind pl])
qed

text \<open>The other direction: what is printed.\<close>

lemma to_string_link:
  assumes kind: "link_kind F sep ty n" and F: "af_ok F" and a: "na_type a = ty" "length (na_addr a) = 16"
    and dst: "length dst = str_size I" "30 \<le> str_size I" and len: "unat (na_prefix_len a) \<le> 8 * n"
  shows "\<exists>r. netaddr_to_prefixstring I F dst (Some a) force = Inr (True,
    (hex_text sep (take n (na_addr a)) @ prefix_suffix (if force \<or> unat (na_prefix_len a) < 8 * n then Some (na_prefix_len a) else None)) @ 0 # r)"
proof -
  let ?bs = "take n (na_addr a)" and ?l = "na_prefix_len a"
  let ?t = "hex_text sep ?bs" and ?rest = "drop (3 * n) dst"
  have sep: "sep = 58 \<or> sep = 45" "sep \<noteq> 0" "0 < n" "n \<le> 8" using link_kindD [OF kind] by auto
  have bs: "length ?bs = n" "?bs \<noteq> []" using a(2) sep by auto
  have mac: "mac_to_string dst (str_size I) ?bs sep = Inr (True, ?t @ 0 # ?rest)"
    using mac_to_string_text [OF sep(2), of ?bs "str_size I" dst] bs dst sep by simp
  have max: "netaddr_get_maxprefix F a = of_nat (8 * n)"
    using kind F a(1) by (auto simp: link_kind_def netaddr_get_maxprefix_def netaddr_get_af_maxprefix_def af_ok_def)
  have small: "unat (of_nat m :: u8) = m" if "m < 256" for m using that by (simp add: unsigned_of_nat take_bit_nat_eq_self)
  have "unat (of_nat (8 * n) :: u8) = 8 * n" by (rule small) (use sep in simp)
  then have below: "?l < netaddr_get_maxprefix F a \<longleftrightarrow> unat ?l < 8 * n" unfolding max word_less_nat_alt by simp
  define fin where "fin = (\<lambda>(ok, d). if force \<or> ?l < netaddr_get_maxprefix F a
      then bnd (guard ok NullDeref) (\<lambda>_. bnd (c_strlen d) (\<lambda>l. bnd (snprintf d l 5 (lit ''/'' @ decimal (unat ?l))) (\<lambda>d. Inr (ok, d))))
      else Inr (ok, d))"
  have "netaddr_to_prefixstring I F dst (Some a) force = bnd (mac_to_string dst (str_size I) ?bs sep) fin"
    using kind F a(1) by (auto simp: link_kind_def netaddr_to_prefixstring_def af_ok_def fin_def Let_def)
  then have run: "netaddr_to_prefixstring I F dst (Some a) force = fin (True, ?t @ 0 # ?rest)" unfolding mac by simp
  show ?thesis
  proof (cases "force \<or> unat ?l < 8 * n")
    case False
    with run show ?thesis by (auto simp: fin_def below prefix_suffix_def)
  next
    case True
    let ?s = "47 # decimal (unat ?l)"
    have "0 \<notin> set ?t" using hex_text_nospace [OF sep(1), of ?bs] by auto
    then have strlen: "c_strlen (?t @ 0 # ?rest) = Inr (length ?t)" by (rule c_strlen_str)
    have l: "length (decimal (unat ?l)) \<le> 3" by (rule decimal_short) (use len sep in simp)
    have slash: "lit ''/'' = [47]" by code_simp
    have "take (5 - 1) (lit ''/'' @ decimal (unat ?l)) @ [0] = ?s @ [0]" unfolding slash using l by simp
    moreover have "length ?t + length (?s @ [0]) \<le> length (?t @ 0 # ?rest)" using l bs dst sep by simp
    ultimately have "snprintf (?t @ 0 # ?rest) (length ?t) 5 (lit ''/'' @ decimal (unat ?l)) =
        Inr (?t @ (?s @ [0]) @ drop (length (?s @ [0]) - 1) ?rest)"
      unfolding snprintf_def by (simp add: mem_write_def blit_def)
    with run strlen True show ?thesis by (auto simp: fin_def below prefix_suffix_def)
  qed
qed

text \<open>
  C32. A MAC address or an EUI-64, with its prefix length, that is printed into a string is parsed from it unchanged, whether
  the printing of a full prefix length is forced or not.
\<close>

theorem link_address_text_roundtrip:
  assumes "link_kind F sep ty n" and "af_ok F" and "na_type a = ty" and "length (na_addr a) = 16" and "drop n (na_addr a) = replicate (16 - n) 0"
    and "unat (na_prefix_len a) \<le> 8 * n" and "length dst = str_size I" and "30 \<le> str_size I"
  shows "\<exists>d. netaddr_to_prefixstring I F dst (Some a) force = Inr (True, d) \<and> netaddr_from_string I F d = Inr (a, 0)"
proof -
  let ?bs = "take n (na_addr a)" and ?l = "na_prefix_len a"
  let ?pl = "if force \<or> unat ?l < 8 * n then Some ?l else None"
  have n: "0 < n" "n \<le> 8" using link_kindD [OF assms(1)] by auto
  then have bs: "length ?bs = n" using assms(4) by simp
  obtain r where print: "netaddr_to_prefixstring I F dst (Some a) force = Inr (True, (hex_text sep ?bs @ prefix_suffix ?pl) @ 0 # r)"
    using to_string_link [OF assms(1-4,7,8,6)] by blast
  have "length (prefix_suffix ?pl) \<le> 4" using decimal_short [of "unat ?l"] assms(6) n by (auto simp: prefix_suffix_def split: option.split)
  then have room: "length (hex_text sep ?bs @ prefix_suffix ?pl) < str_size I" using bs n assms(8) by simp
  have "netaddr_from_string I F ((hex_text sep ?bs @ prefix_suffix ?pl) @ 0 # r) =
      Inr (link_addr ?bs ty (case ?pl of None \<Rightarrow> of_nat (8 * length ?bs) | Some l \<Rightarrow> l), 0)"
    by (rule from_string_link [OF _ _ room]) (use assms(1,6) bs in \<open>auto split: if_splits\<close>)
  moreover have "(case ?pl of None \<Rightarrow> of_nat (8 * length ?bs) | Some l \<Rightarrow> l) = ?l"
  proof (cases "unat ?l = 8 * n")
    case True
    then have "of_nat (8 * n) = ?l" unfolding True [symmetric] by simp
    then show ?thesis using bs by simp
  qed (use assms(6) in simp)
  moreover have "link_addr ?bs ty ?l = a"
  proof -
    have "prefix_bytes ?bs = ?bs @ drop n (na_addr a)" using bs assms(5) by (simp add: prefix_bytes_def NETADDR_MAX_LENGTH_def)
    then show ?thesis using assms(3) by (cases a) (simp add: link_addr_def)
  qed
  ultimately show ?thesis using print by auto
qed

theorem link_address_text_roundtrip_witness:
  "\<exists>I d. let a = \<lparr>na_addr = [0x0a, 0xb1, 0xc2, 3, 4, 0xff] @ replicate 10 0, na_type = AF_MAC48 af_ref, na_prefix_len = 24\<rparr> in
     netaddr_to_prefixstring I af_ref (replicate (str_size I) 7) (Some a) False = Inr (True, d) \<and> netaddr_from_string I af_ref d = Inr (a, 0)"
proof -
  let ?I = "\<lparr>inet_pton = (\<lambda>f t. None), inet_ntop = (\<lambda>f bs n. None), str_size = 62\<rparr>"
  let ?a = "\<lparr>na_addr = [0x0a, 0xb1, 0xc2, 3, 4, 0xff] @ replicate 10 0, na_type = AF_MAC48 af_ref, na_prefix_len = 24\<rparr>"
  have "\<exists>d. netaddr_to_prefixstring ?I af_ref (replicate 62 7) (Some ?a) False = Inr (True, d) \<and> netaddr_from_string ?I af_ref d = Inr (?a, 0)"
    by (rule link_address_text_roundtrip [where n = 6 and sep = 58]) (simp_all add: link_kind_def)
  then show ?thesis by (auto simp: Let_def intro!: exI [of _ ?I])
qed

section \<open>Sockets: what is stored is read back\<close>

lemma ntohs_htons: "ntohs (htons p) = p"
  by (rule bit_word_eqI) (auto simp: ntohs_def htons_def bit_simps)

lemma family_inj: "(ucast (x :: u8) :: u16) = ucast y \<longleftrightarrow> x = y"
proof
  assume "(ucast x :: u16) = ucast y"
  then have "(ucast (ucast x :: u16) :: u8) = ucast (ucast y :: u16)" by (rule arg_cong)
  then show "x = y" by (simp add: ucast_up_ucast_id is_up)
qed simp

text \<open>
  A socket made from an IP address and a port gives both back, and compares as equal with the address exactly when
  the address is a host; every other address is refused.
\<close>

lemma netaddr_socket_roundtrip:
  assumes F: "af_ok F" and a: "length (na_addr a) = 16" and ip: "na_type a = AF_INET F \<and> drop 4 (na_addr a) = replicate 12 0 \<or> na_type a = AF_INET6 F"
  shows "\<exists>s. netaddr_socket_init F a port i = (s, 0) \<and> netaddr_from_socket F x s = (a\<lparr>na_prefix_len := netaddr_get_maxprefix F a\<rparr>, 0) \<and>
    netaddr_socket_get_port F s = port \<and> (netaddr_cmp_to_socket F a s = 0 \<longleftrightarrow> netaddr_is_host F a)"
proof -
  have same: "memcmp bs bs = 0" for bs by (induction bs) simp_all
  have up: "(ucast (ucast f :: u16) :: u8) = f" for f :: u8 by (simp add: ucast_up_ucast_id is_up)
  have fam: "uint (ucast f :: u16) = uint f" for f :: u8 by (simp add: uint_up_ucast is_up)
  have word: "uint l = 32 \<longleftrightarrow> l = 32" "uint l = 128 \<longleftrightarrow> l = 128" for l :: u8
    by (auto simp: word_uint_eq_iff)
  from ip show ?thesis
  proof
    assume 4: "na_type a = AF_INET F \<and> drop 4 (na_addr a) = replicate 12 0"
    then have "take 4 (na_addr a) @ replicate 12 0 = na_addr a" by (metis append_take_drop_id)
    with 4 F a show ?thesis
      by (cases a) (auto simp: netaddr_socket_init_def netaddr_from_socket_def netaddr_socket_get_port_def netaddr_cmp_to_socket_def netaddr_is_host_def
          netaddr_get_maxprefix_def netaddr_get_af_maxprefix_def ntohs_htons same up fam NETADDR_MAX_LENGTH_def blit_def Let_def word)
  next
    assume 6: "na_type a = AF_INET6 F"
    with F a show ?thesis
      by (cases a) (auto simp: netaddr_socket_init_def netaddr_from_socket_def netaddr_socket_get_port_def netaddr_cmp_to_socket_def netaddr_is_host_def
          netaddr_get_maxprefix_def netaddr_get_af_maxprefix_def ntohs_htons same up fam family_inj af_ok_def NETADDR_MAX_LENGTH_def blit_def Let_def word)
  qed
qed

lemma netaddr_socket_roundtrip_witness:
  "\<exists>s. netaddr_socket_init af_ref \<lparr>na_addr = [10, 0, 0, 1] @ replicate 12 0, na_type = 2, na_prefix_len = 32\<rparr> 269 0 = (s, 0) \<and> netaddr_socket_get_port af_ref s = 269"
  using netaddr_socket_roundtrip [OF af_ok_ref, of "\<lparr>na_addr = [10, 0, 0, 1] @ replicate 12 0, na_type = 2, na_prefix_len = 32\<rparr>" 269 0 netaddr_invalidate]
  by (auto simp: af_ref_def)

end
