(* ===== verification/Autobuf.thy ===== *)
theory Autobuf
  imports Netaddr OonfString
begin

text \<open>
  Growing text buffers, \<open>core/contrib/oonf_api/common/autobuf.c\<close> and \<open>autobuf.h\<close>. The allocator is a parameter (see
  \<open>OonfString\<close>), and so is the text that \<open>vsnprintf\<close> and \<open>strftime\<close> make of a format and its arguments.
\<close>

section \<open>Data\<close>

record autobuf =
  ab_total :: nat
  ab_len :: nat
  ab_buf :: "u8 list option"
  ab_error :: bool

definition PAGESIZE :: nat where "PAGESIZE = 512"

definition ROUND_UP_TO_POWER_OF_2 :: "nat \<Rightarrow> nat \<Rightarrow> nat" where
  "ROUND_UP_TO_POWER_OF_2 val pow2 = unat ((of_nat val + of_nat pow2 - 1) AND NOT (of_nat pow2 - 1) :: u32)"

section \<open>Operations\<close>

text \<open>\<open>calloc\<close> succeeds or not; the field \<open>ab_total\<close> of a failed buffer keeps what it was.\<close>

definition abuf_init :: "bool \<Rightarrow> autobuf \<Rightarrow> int \<times> autobuf" where
  "abuf_init memory a =
     (let a = a\<lparr>ab_len := 0\<rparr> in
      if \<not> memory then (-1, a\<lparr>ab_buf := None, ab_error := True\<rparr>)
      else (0, a\<lparr>ab_buf := Some (replicate PAGESIZE 0), ab_total := PAGESIZE, ab_error := False\<rparr>))"

definition abuf_free :: "autobuf \<Rightarrow> autobuf" where
  "abuf_free a = \<lparr>ab_total = 0, ab_len = 0, ab_buf = None, ab_error = False\<rparr>"

definition autobuf_enlarge :: "realloc \<Rightarrow> nat \<Rightarrow> autobuf \<Rightarrow> (int \<times> autobuf) outcome" where
  "autobuf_enlarge A new_size a =
     (let new_size = new_size + 1 in
      if new_size > ab_total a
      then let roundUpSize = ROUND_UP_TO_POWER_OF_2 (new_size + 1) PAGESIZE in
        (case A (ab_buf a) roundUpSize of
           None \<Rightarrow> Inr (-1, a\<lparr>ab_error := True\<rparr>)
         | Some p \<Rightarrow>
             bnd (mem_write p (ab_total a) (replicate (size_diff roundUpSize (ab_total a)) 0)) (\<lambda>p.
             Inr (0, a\<lparr>ab_buf := Some p, ab_total := roundUpSize\<rparr>)))
      else Inr (0, a))"

text \<open>A store into the buffer, \<open>autobuf->_buf[off] = ...\<close> and the copies that begin there.\<close>

definition buf_write :: "nat \<Rightarrow> u8 list \<Rightarrow> autobuf \<Rightarrow> autobuf outcome" where
  "buf_write off bs a = bnd (deref (ab_buf a)) (\<lambda>b. bnd (mem_write b off bs) (\<lambda>b. Inr (a\<lparr>ab_buf := Some b\<rparr>)))"

text \<open>
  \<open>vsnprintf(autobuf->_buf + autobuf->_len, autobuf->_total - autobuf->_len, ...)\<close>: \<open>None\<close> is an error of the format. With
  no room nothing is written, not even through a null pointer.
\<close>

definition vsnprintf_end :: "u8 list option \<Rightarrow> autobuf \<Rightarrow> (int \<times> autobuf) outcome" where
  "vsnprintf_end txt a =
     (case txt of None \<Rightarrow> Inr (-1, a)
      | Some t \<Rightarrow>
          let n = size_diff (ab_total a) (ab_len a) in
          if n = 0 then Inr (int (length t), a)
          else bnd (buf_write (ab_len a) (take (n - 1) t @ [0]) a) (\<lambda>a. Inr (int (length t), a)))"

definition vappendf :: "realloc \<Rightarrow> u8 list option \<Rightarrow> autobuf \<Rightarrow> (int \<times> autobuf) outcome" where
  "vappendf A txt a =
     bnd (vsnprintf_end txt a) (\<lambda>(rc, a).
     if rc < 0 then Inr (rc, a\<lparr>ab_error := True\<rparr>)
     else let min_size = ab_len a + nat rc in
       bnd (if min_size \<ge> ab_total a
            then bnd (autobuf_enlarge A min_size a) (\<lambda>(e, a).
                 if e < 0 then bnd (buf_write (ab_len a) [0] a) (\<lambda>a. Inr (Some (-1), a))
                 else bnd (vsnprintf_end txt a) (\<lambda>(rc, a). if rc < 0 then Inr (Some rc, a\<lparr>ab_error := True\<rparr>) else Inr (None, a)))
            else Inr (None, a)) (\<lambda>(ret, a).
       case ret of Some r \<Rightarrow> Inr (r, a) | None \<Rightarrow> Inr (rc, a\<lparr>ab_len := min_size\<rparr>)))"

definition abuf_appendf :: "realloc \<Rightarrow> u8 list option \<Rightarrow> autobuf option \<Rightarrow> (int \<times> autobuf option) outcome" where
  "abuf_appendf A txt a =
     (case a of None \<Rightarrow> Inr (0, None) | Some a \<Rightarrow> bnd (vappendf A txt a) (\<lambda>(r, a). Inr (r, Some a)))"

definition abuf_puts :: "realloc \<Rightarrow> u8 list option \<Rightarrow> autobuf option \<Rightarrow> (int \<times> autobuf option) outcome" where
  "abuf_puts A s a =
     (case (a, s) of
        (Some a, Some s) \<Rightarrow>
          bnd (c_strlen s) (\<lambda>len.
          bnd (autobuf_enlarge A (ab_len a + len + 1) a) (\<lambda>(e, a).
          if e < 0 then Inr (-1, Some a)
          else bnd (mem_read s 0 (len + 1)) (\<lambda>bs.
               bnd (buf_write (ab_len a) bs a) (\<lambda>a. Inr (int len, Some (a\<lparr>ab_len := ab_len a + len\<rparr>))))))
      | _ \<Rightarrow> Inr (0, a))"

text \<open>\<open>strftime\<close>: given the room it returns the number of bytes, 0 if they did not fit, and what it wrote.\<close>

definition strftime_end :: "(nat \<Rightarrow> nat \<times> u8 list) \<Rightarrow> autobuf \<Rightarrow> (nat \<times> autobuf) outcome" where
  "strftime_end st a =
     (let n = size_diff (ab_total a) (ab_len a); (rc, bs) = st n in
      if bs = [] then Inr (rc, a) else bnd (buf_write (ab_len a) (take n bs) a) (\<lambda>a. Inr (rc, a)))"

definition abuf_strftime :: "realloc \<Rightarrow> (nat \<Rightarrow> nat \<times> u8 list) \<Rightarrow> autobuf option \<Rightarrow> (int \<times> autobuf option) outcome" where
  "abuf_strftime A st a =
     (case a of None \<Rightarrow> Inr (0, None)
      | Some a \<Rightarrow>
          let done = (\<lambda>rc a. Inr (int rc, Some (a\<lparr>ab_len := ab_len a + rc\<rparr>)));
              failed = (\<lambda>a. bnd (buf_write (ab_len a) [0] a) (\<lambda>a. Inr (-1, Some a)))
          in bnd (strftime_end st a) (\<lambda>(rc, a).
             if rc \<noteq> 0 then done rc a
             else bnd (autobuf_enlarge A (ab_total a + PAGESIZE) a) (\<lambda>(e, a).
                  if e < 0 then failed a
                  else bnd (strftime_end st a) (\<lambda>(rc, a). if rc = 0 then failed a else done rc a))))"

definition abuf_memcpy :: "realloc \<Rightarrow> u8 list \<Rightarrow> nat \<Rightarrow> autobuf option \<Rightarrow> (int \<times> autobuf option) outcome" where
  "abuf_memcpy A p len a =
     (case a of None \<Rightarrow> Inr (0, None)
      | Some a \<Rightarrow>
          if len = 0 then Inr (0, Some a)
          else bnd (autobuf_enlarge A (ab_len a + len) a) (\<lambda>(e, a).
               if e < 0 then Inr (-1, Some a)
               else bnd (mem_read p 0 len) (\<lambda>bs.
                    bnd (buf_write (ab_len a) bs a) (\<lambda>a.
                    let a = a\<lparr>ab_len := ab_len a + len\<rparr> in
                    bnd (buf_write (ab_len a) [0] a) (\<lambda>a. Inr (0, Some a))))))"

definition abuf_memcpy_prepend :: "realloc \<Rightarrow> u8 list \<Rightarrow> nat \<Rightarrow> autobuf option \<Rightarrow> (int \<times> autobuf option) outcome" where
  "abuf_memcpy_prepend A p len a =
     (case a of None \<Rightarrow> Inr (0, None)
      | Some a \<Rightarrow>
          if len = 0 then Inr (0, Some a)
          else bnd (autobuf_enlarge A (ab_len a + len) a) (\<lambda>(e, a).
               if e < 0 then Inr (-1, Some a)
               else bnd (deref (ab_buf a)) (\<lambda>b.
                    bnd (mem_read b 0 (ab_len a)) (\<lambda>old.
                    bnd (buf_write len old a) (\<lambda>a.
                    bnd (mem_read p 0 len) (\<lambda>bs.
                    bnd (buf_write 0 bs a) (\<lambda>a.
                    let a = a\<lparr>ab_len := ab_len a + len\<rparr> in
                    bnd (buf_write (ab_len a) [0] a) (\<lambda>a. Inr (0, Some a)))))))))"

definition abuf_pull :: "realloc \<Rightarrow> nat \<Rightarrow> autobuf option \<Rightarrow> autobuf option outcome" where
  "abuf_pull A len a =
     (case a of None \<Rightarrow> Inr None
      | Some a \<Rightarrow>
          if len = 0 then Inr (Some a)
          else bnd (if len \<noteq> ab_len a
                    then bnd (deref (ab_buf a)) (\<lambda>b. bnd (mem_read b len (size_diff (ab_len a) len)) (\<lambda>bs. buf_write 0 bs a))
                    else Inr a) (\<lambda>a.
               let a = a\<lparr>ab_len := size_diff (ab_len a) len\<rparr> in
               if ab_len a + PAGESIZE > ab_total a then Inr (Some a)
               else let a = a\<lparr>ab_total := ab_total a - PAGESIZE\<rparr>;
                        newsize = (if ab_total a < PAGESIZE then PAGESIZE else ab_total a)
                 in case A (ab_buf a) newsize of
                      None \<Rightarrow> Inr (Some a)
                    | Some p \<Rightarrow> Inr (Some (a\<lparr>ab_buf := Some p, ab_total := newsize\<rparr>))))"

text \<open>\<open>autobuf.h\<close>\<close>

definition abuf_clear :: "autobuf \<Rightarrow> autobuf outcome" where
  "abuf_clear a = (let a = a\<lparr>ab_len := 0, ab_error := False\<rparr> in buf_write 0 (replicate (ab_total a) 0) a)"

definition abuf_getptr :: "autobuf \<Rightarrow> u8 list option" where "abuf_getptr a = ab_buf a"
definition abuf_getlen :: "autobuf \<Rightarrow> nat" where "abuf_getlen a = ab_len a"
definition abuf_getmax :: "autobuf \<Rightarrow> nat" where "abuf_getmax a = ab_total a"
definition abuf_has_failed :: "autobuf \<Rightarrow> bool" where "abuf_has_failed a = ab_error a"

definition abuf_setlen :: "nat \<Rightarrow> autobuf \<Rightarrow> autobuf outcome" where
  "abuf_setlen len a =
     (let a = (if ab_total a > len then a\<lparr>ab_len := len\<rparr> else a) in
      bnd (buf_write len [0] a) (\<lambda>a. Inr (a\<lparr>ab_error := False\<rparr>)))"

definition abuf_append_uint8 :: "realloc \<Rightarrow> u8 \<Rightarrow> autobuf option \<Rightarrow> (int \<times> autobuf option) outcome" where
  "abuf_append_uint8 A c a = abuf_memcpy A [c] 1 a"

definition netaddr_to_autobuf :: "realloc \<Rightarrow> af \<Rightarrow> netaddr \<Rightarrow> autobuf option \<Rightarrow> (int \<times> autobuf option) outcome" where
  "netaddr_to_autobuf A F src a =
     (let addr_len = unat (drop_bit 3 (netaddr_get_maxprefix F src)) in
      if addr_len = 0 then Inr (-1, a) else abuf_memcpy A (na_addr src) addr_len a)"

section \<open>Hexdumps\<close>

text \<open>\<open>%0wzx\<close>, a number in lower case hexadecimal, filled up with zeros.\<close>

definition hexchar_of :: "nat \<Rightarrow> u8" where
  "hexchar_of d = (if d < 10 then of_nat (48 + d) else of_nat (87 + d))"

fun hexadecimal :: "nat \<Rightarrow> u8 list" where
  "hexadecimal n = (if n < 16 then [hexchar_of n] else hexadecimal (n div 16) @ [hexchar_of (n mod 16)])"

declare hexadecimal.simps [simp del]

definition hexpad :: "nat \<Rightarrow> nat \<Rightarrow> u8 list" where
  "hexpad w n = (let h = hexadecimal n in replicate (w - length h) 48 @ h)"

text \<open>A sequence of calls whose results are ignored.\<close>

type_synonym print = "autobuf option \<Rightarrow> autobuf option outcome"

definition put_text :: "realloc \<Rightarrow> u8 list \<Rightarrow> print" where
  "put_text A t a = bnd (abuf_puts A (Some (t @ [0])) a) (\<lambda>(r, a). Inr a)"

definition put_format :: "realloc \<Rightarrow> u8 list \<Rightarrow> print" where
  "put_format A t a = bnd (abuf_appendf A (Some t) a) (\<lambda>(r, a). Inr a)"

fun seq_print :: "print list \<Rightarrow> print" where
  "seq_print [] a = Inr a"
| "seq_print (f # fs) a = bnd (f a) (seq_print fs)"

text \<open>Line of a dump; \<open>buf\<close> is the memory from \<open>&buf[j]\<close> on, of which \<open>len\<close> bytes are printed.\<close>

definition print_hexline :: "realloc \<Rightarrow> u8 list \<Rightarrow> nat \<Rightarrow> print" where
  "print_hexline A buf len =
     seq_print
      (map (\<lambda>i a. bnd (if i mod 4 = 0 then put_text A [32] a else Inr a) (\<lambda>a.
                  if i < len then bnd (mem_get buf i) (\<lambda>b. put_format A (hexpad 2 (unat b)) a) else put_text A [32, 32] a)) [0..<32]
       @ [put_text A [32]]
       @ map (\<lambda>i a. bnd (mem_get buf i) (\<lambda>b. if 32 \<le> b \<and> b < 127 then put_format A [b] a else put_text A [46] a)) [0..<len])"

function hexdump_from :: "realloc \<Rightarrow> u8 list \<Rightarrow> u8 list \<Rightarrow> nat \<Rightarrow> nat \<Rightarrow> print" where
  "hexdump_from A prefix buf len j a =
     (if j < len
      then bnd (put_format A (prefix @ hexpad 4 j @ [58]) a) (\<lambda>a.
           bnd (print_hexline A (drop j buf) (min (len - j) 32) a) (\<lambda>a.
           bnd (put_text A [10] a) (hexdump_from A prefix buf len (j + 32))))
      else Inr a)"
  by pat_completeness auto
termination by (relation "measure (\<lambda>(A, prefix, buf, len, j, a). len - j)") auto

declare hexdump_from.simps [simp del]

definition abuf_hexdump :: "realloc \<Rightarrow> u8 list \<Rightarrow> u8 list \<Rightarrow> nat \<Rightarrow> print" where
  "abuf_hexdump A prefix buf len = hexdump_from A prefix buf len 0"

section \<open>What a buffer holds\<close>

text \<open>The buffer \<open>a\<close> holds the bytes \<open>bs\<close>, with room for a zero byte; \<open>ends a\<close> says that there is one.\<close>

definition ab_holds :: "autobuf \<Rightarrow> u8 list \<Rightarrow> bool" where
  "ab_holds a bs \<longleftrightarrow> ab_len a = length bs \<and> length bs < ab_total a \<and> ab_total a < 2 ^ 30 \<and>
     (\<exists>b. ab_buf a = Some b \<and> take (length bs) b = bs \<and> ab_total a \<le> length b)"

definition ends :: "autobuf \<Rightarrow> bool" where
  "ends a \<longleftrightarrow> (\<exists>b. ab_buf a = Some b \<and> b ! ab_len a = 0)"

lemma abuf_init_holds: "abuf_init True a = (r, a') \<Longrightarrow> r = 0 \<and> ab_holds a' [] \<and> ends a'"
  by (auto simp: abuf_init_def ab_holds_def ends_def PAGESIZE_def Let_def)

lemma round_up: "n < 2 ^ 31 \<Longrightarrow> n \<le> ROUND_UP_TO_POWER_OF_2 n PAGESIZE \<and> ROUND_UP_TO_POWER_OF_2 n PAGESIZE \<le> n + 511"
proof -
  assume n: "n < 2 ^ 31"
  have "(of_nat PAGESIZE - 1 :: u32) = mask 9" by (simp add: PAGESIZE_def mask_eq_exp_minus_1)
  moreover have "of_nat n + of_nat PAGESIZE - 1 = (of_nat (n + 511) :: u32)" by (simp add: PAGESIZE_def)
  ultimately have "ROUND_UP_TO_POWER_OF_2 n PAGESIZE = unat (of_nat (n + 511) :: u32) div 2 ^ 9 * 2 ^ 9"
    by (simp only: ROUND_UP_TO_POWER_OF_2_def unat_and_not_mask)
  also have "unat (of_nat (n + 511) :: u32) = n + 511" using n by (simp only: unsigned_of_nat) (simp add: take_bit_nat_eq_self)
  finally have "ROUND_UP_TO_POWER_OF_2 n PAGESIZE = (n + 511) div 512 * 512" by simp
  moreover have "(n + 511) div 512 * 512 + (n + 511) mod 512 = n + 511" by (rule div_mult_mod_eq)
  moreover have "(n + 511) mod 512 < 512" by simp
  ultimately show ?thesis by linarith
qed

text \<open>Enlarging keeps the contents, or fails and changes nothing but the error flag.\<close>

definition enlarged :: "autobuf \<Rightarrow> u8 list \<Rightarrow> nat \<Rightarrow> int \<times> autobuf \<Rightarrow> bool" where
  "enlarged a bs n = (\<lambda>(r, a'). r = 0 \<and> ab_holds a' bs \<and> n < ab_total a' \<and> (ends a \<longrightarrow> ends a') \<or> r = -1 \<and> a' = a\<lparr>ab_error := True\<rparr>)"

lemma autobuf_enlarge_holds:
  assumes A: "realloc_ok A" and a: "ab_holds a bs" and n: "n < 2 ^ 30 - 1000"
  shows "\<exists>x. autobuf_enlarge A n a = Inr x \<and> enlarged a bs n x"
proof (cases "n + 1 > ab_total a")
  case False
  then show ?thesis using a by (simp add: autobuf_enlarge_def enlarged_def)
next
  case True
  let ?R = "ROUND_UP_TO_POWER_OF_2 (n + 1 + 1) PAGESIZE"
  have R: "n + 2 \<le> ?R" "?R < 2 ^ 30" using round_up [of "n + 1 + 1"] n by simp_all
  obtain b where b: "ab_buf a = Some b" "take (length bs) b = bs" "ab_total a \<le> length b" and len: "ab_len a = length bs" "length bs < ab_total a"
    using a by (auto simp: ab_holds_def)
  show ?thesis
  proof (cases "A (ab_buf a) ?R")
    case None
    with True show ?thesis by (simp add: autobuf_enlarge_def enlarged_def Let_def)
  next
    case (Some p)
    then have p: "length p = ?R" "take (length b) p = take ?R b" using A b by (auto simp: realloc_ok_def)
    have T: "ab_total a < ?R" using True R by simp
    let ?q = "blit p (ab_total a) (replicate (?R - ab_total a) 0)"
    have take_p: "take (ab_total a) p = take (ab_total a) b"
    proof -
      have "take (ab_total a) p = take (ab_total a) (take (length b) p)" using b(3) by (simp add: min_absorb1)
      then show ?thesis unfolding p(2) using T by (simp add: min_absorb1)
    qed
    have q: "length ?q = ?R" "take (ab_total a) ?q = take (ab_total a) b" using T p(1) take_p b(3) by (simp_all add: blit_def min_absorb2)
    have "take (length bs) ?q = take (length bs) (take (ab_total a) ?q)" using len by (simp add: min_absorb1)
    also have "\<dots> = bs" unfolding q(2) using len b(2) by (simp add: min_absorb1)
    finally have bs: "take (length bs) ?q = bs" .
    have "take (ab_total a) ?q ! length bs = take (ab_total a) b ! length bs" by (simp only: q(2))
    then have nth: "?q ! length bs = b ! length bs" using len by simp
    have "mem_write p (ab_total a) (replicate (size_diff ?R (ab_total a)) 0) = Inr ?q"
      using T R p(1) by (simp add: size_diff mem_write_def)
    then have "autobuf_enlarge A n a = Inr (0, a\<lparr>ab_buf := Some ?q, ab_total := ?R\<rparr>)"
      using True Some by (simp add: autobuf_enlarge_def Let_def)
    moreover have "enlarged a bs n (0, a\<lparr>ab_buf := Some ?q, ab_total := ?R\<rparr>)"
      using bs q(1) R T len nth b(1) by (auto simp: enlarged_def ab_holds_def ends_def)
    ultimately show ?thesis by blast
  qed
qed

lemma enlargedD:
  assumes "enlarged a bs n (r, a')" and "\<not> r < 0"
  shows "ab_holds a' bs" and "n < ab_total a'" and "ends a \<Longrightarrow> ends a'"
  using assms by (auto simp: enlarged_def)

lemma enlarged_failed: "enlarged a bs n (r, a') \<Longrightarrow> r < 0 \<Longrightarrow> r = -1 \<and> a' = a\<lparr>ab_error := True\<rparr>"
  by (auto simp: enlarged_def)

text \<open>Text stored behind the contents.\<close>

lemma buf_write_end:
  assumes "ab_holds a bs" and "length bs + length t < ab_total a"
  shows "\<exists>a'. buf_write (ab_len a) (t @ [0]) a = Inr a' \<and> ab_len a' = ab_len a \<and> ab_total a' = ab_total a \<and> ab_error a' = ab_error a \<and>
    ab_holds (a'\<lparr>ab_len := ab_len a + length t\<rparr>) (bs @ t) \<and> ends (a'\<lparr>ab_len := ab_len a + length t\<rparr>)"
proof -
  obtain b where b: "ab_buf a = Some b" "take (length bs) b = bs" "ab_total a \<le> length b" and len: "ab_len a = length bs" "ab_total a < 2 ^ 30"
    using assms(1) by (auto simp: ab_holds_def)
  let ?b = "blit b (length bs) (t @ [0])"
  have "buf_write (ab_len a) (t @ [0]) a = Inr (a\<lparr>ab_buf := Some ?b\<rparr>)"
    using b len assms(2) by (simp add: buf_write_def mem_write_def)
  moreover have "?b = (bs @ t) @ 0 # drop (length bs + length t + 1) b" using b(2) by (simp add: blit_def)
  then have "take (length (bs @ t)) ?b = bs @ t" "?b ! length (bs @ t) = 0" by (simp_all only: append_eq_conv_conj nth_append_length) simp
  moreover have "length ?b = length b" using assms(2) b(3) by simp
  ultimately show ?thesis using b len assms(2) by (auto simp: ab_holds_def ends_def)
qed

lemma ab_holds_shorter: "ab_holds (a\<lparr>ab_len := n\<rparr>) (bs @ t) \<Longrightarrow> ab_len a = length bs \<Longrightarrow> ab_holds a bs"
proof -
  assume h: "ab_holds (a\<lparr>ab_len := n\<rparr>) (bs @ t)" and l: "ab_len a = length bs"
  then obtain b where b: "ab_buf a = Some b" "take (length (bs @ t)) b = bs @ t" "ab_total a \<le> length b" by (auto simp: ab_holds_def)
  have "take (length bs) b = take (length bs) (take (length (bs @ t)) b)" by simp
  also have "\<dots> = bs" unfolding b(2) by simp
  finally show ?thesis using h l b by (auto simp: ab_holds_def)
qed

lemma ab_holds_error [simp]: "ab_holds (a\<lparr>ab_error := e\<rparr>) bs = ab_holds a bs" "ends (a\<lparr>ab_error := e\<rparr>) = ends a"
  by (simp_all add: ab_holds_def ends_def)

lemma ab_holdsD: "ab_holds a bs \<Longrightarrow> ab_len a = length bs \<and> length bs < ab_total a \<and> ab_total a < 2 ^ 30"
  by (simp add: ab_holds_def)

lemma vsnprintf_end_fits:
  assumes "ab_holds a bs" and "length bs + length t < ab_total a"
  shows "\<exists>a'. vsnprintf_end (Some t) a = Inr (int (length t), a') \<and> ab_len a' = ab_len a \<and> ab_total a' = ab_total a \<and> ab_error a' = ab_error a \<and>
    ab_holds (a'\<lparr>ab_len := ab_len a + length t\<rparr>) (bs @ t) \<and> ends (a'\<lparr>ab_len := ab_len a + length t\<rparr>)"
proof -
  have n: "size_diff (ab_total a) (ab_len a) = ab_total a - length bs" using ab_holdsD [OF assms(1)] by (simp add: size_diff)
  then have "take (size_diff (ab_total a) (ab_len a) - 1) t = t" "size_diff (ab_total a) (ab_len a) \<noteq> 0" using assms(2) by simp_all
  then show ?thesis using buf_write_end [OF assms] by (auto simp: vsnprintf_end_def Let_def)
qed

lemma vsnprintf_end_cut:
  assumes "ab_holds a bs" and "ab_total a \<le> length bs + length t"
  shows "\<exists>a'. vsnprintf_end (Some t) a = Inr (int (length t), a') \<and> ab_len a' = ab_len a \<and> ab_total a' = ab_total a \<and> ab_holds a' bs"
proof -
  let ?n = "size_diff (ab_total a) (ab_len a)"
  have n: "?n = ab_total a - length bs" using ab_holdsD [OF assms(1)] by (simp add: size_diff)
  have "length bs + length (take (?n - 1) t) < ab_total a" using n ab_holdsD [OF assms(1)] by auto
  from buf_write_end [OF assms(1) this] obtain a' where
    a': "buf_write (ab_len a) (take (?n - 1) t @ [0]) a = Inr a'" "ab_len a' = ab_len a" "ab_total a' = ab_total a"
      "ab_holds (a'\<lparr>ab_len := ab_len a + length (take (?n - 1) t)\<rparr>) (bs @ take (?n - 1) t)" by blast
  moreover have "ab_holds a' bs" by (rule ab_holds_shorter [OF a'(4)]) (use a'(2) ab_holdsD [OF assms(1)] in simp)
  moreover have "?n \<noteq> 0" using n ab_holdsD [OF assms(1)] by simp
  ultimately show ?thesis by (auto simp: vsnprintf_end_def Let_def)
qed

text \<open>The result of appending \<open>t\<close>: it is behind the contents, or they are as before and the buffer remembers the error.\<close>

definition appended_text :: "u8 list \<Rightarrow> u8 list \<Rightarrow> int \<Rightarrow> int \<times> autobuf option \<Rightarrow> bool" where
  "appended_text bs t ok = (\<lambda>(r, a). \<exists>a'. a = Some a' \<and>
     (r = ok \<and> ab_holds a' (bs @ t) \<and> ends a' \<or> r = -1 \<and> ab_error a' \<and> ab_holds a' bs))"

text \<open>
  C35. Formatted text of any length is appended to the contents of a buffer, which grows when it has to; when memory runs
  out, the contents stay and the error is noted. The length that is returned is that of the text.
\<close>

theorem abuf_appendf_appends:
  assumes A: "realloc_ok A" and a: "ab_holds a bs" and n: "length bs + length t < 2 ^ 30 - 1000"
  shows "\<exists>x. abuf_appendf A (Some t) (Some a) = Inr x \<and> appended_text bs t (int (length t)) x"
proof (cases "length bs + length t < ab_total a")
  case True
  from vsnprintf_end_fits [OF a this] obtain a' where
    "vsnprintf_end (Some t) a = Inr (int (length t), a')" "ab_len a' = ab_len a" "ab_total a' = ab_total a"
    "ab_holds (a'\<lparr>ab_len := ab_len a + length t\<rparr>) (bs @ t)" "ends (a'\<lparr>ab_len := ab_len a + length t\<rparr>)" by blast
  then show ?thesis using True ab_holdsD [OF a] by (auto simp: abuf_appendf_def vappendf_def appended_text_def)
next
  case False
  from False have "ab_total a \<le> length bs + length t" by simp
  from vsnprintf_end_cut [OF a this] obtain a1 where
    a1: "vsnprintf_end (Some t) a = Inr (int (length t), a1)" "ab_len a1 = ab_len a" "ab_total a1 = ab_total a" "ab_holds a1 bs" by blast
  have len: "ab_len a1 + nat (int (length t)) = length bs + length t" using a1(2) ab_holdsD [OF a] by simp
  obtain r a2 where e: "autobuf_enlarge A (length bs + length t) a1 = Inr (r, a2)" "enlarged a1 bs (length bs + length t) (r, a2)"
    using autobuf_enlarge_holds [OF A a1(4) n] by auto
  have step: "vappendf A (Some t) a = bnd (if r < 0 then bnd (buf_write (ab_len a2) [0] a2) (\<lambda>a. Inr (Some (-1), a))
      else bnd (vsnprintf_end (Some t) a2) (\<lambda>(rc, a). if rc < 0 then Inr (Some rc, a\<lparr>ab_error := True\<rparr>) else Inr (None, a)))
      (\<lambda>(ret, a). case ret of Some r \<Rightarrow> Inr (r, a) | None \<Rightarrow> Inr (int (length t), a\<lparr>ab_len := length bs + length t\<rparr>))"
  proof -
    have neg: "\<not> int (length t) < 0" by simp
    have ge: "length bs + length t \<ge> ab_total a1" using False a1(3) by simp
    show ?thesis unfolding vappendf_def a1(1) bnd.simps prod.case if_not_P [OF neg] Let_def len if_P [OF ge] e(1) by (rule refl)
  qed
  show ?thesis
  proof (cases "r < 0")
    case True
    then have a2: "a2 = a1\<lparr>ab_error := True\<rparr>" using enlarged_failed [OF e(2)] by simp
    have "length bs + length ([] :: u8 list) < ab_total a2" using a2 ab_holdsD [OF a1(4)] by simp
    moreover have "ab_holds a2 bs" using a2 a1(4) by simp
    ultimately obtain a3 where "buf_write (ab_len a2) [0] a2 = Inr a3" "ab_len a3 = ab_len a2" "ab_error a3 = ab_error a2" "ab_holds (a3\<lparr>ab_len := ab_len a2\<rparr>) bs"
      using buf_write_end [of a2 bs "[]"] by auto
    moreover from this have "ab_holds a3 bs" using ab_holds_shorter [where a = a3 and n = "ab_len a2" and bs = bs and t = "[]"] a2 a1 ab_holdsD [OF a] by simp
    ultimately show ?thesis using step True a2 by (auto simp: abuf_appendf_def appended_text_def)
  next
    case False
    have a2: "ab_holds a2 bs" "length bs + length t < ab_total a2" using enlargedD [OF e(2) False] by simp_all
    from vsnprintf_end_fits [OF this] obtain a3 where
      "vsnprintf_end (Some t) a2 = Inr (int (length t), a3)" "ab_holds (a3\<lparr>ab_len := ab_len a2 + length t\<rparr>) (bs @ t)" "ends (a3\<lparr>ab_len := ab_len a2 + length t\<rparr>)" by blast
    then show ?thesis using step False ab_holdsD [OF a2(1)] by (auto simp: abuf_appendf_def appended_text_def)
  qed
qed

theorem abuf_appendf_appends_witness:
  "\<exists>x. abuf_appendf realloc_ref (Some [65, 66]) (Some \<lparr>ab_total = 2, ab_len = 1, ab_buf = Some [64, 0], ab_error = False\<rparr>) = Inr x \<and> appended_text [64] [65, 66] 2 x"
proof -
  have "ab_holds \<lparr>ab_total = 2, ab_len = 1, ab_buf = Some [64, 0], ab_error = False\<rparr> [64]" by (simp add: ab_holds_def)
  from abuf_appendf_appends [OF realloc_ref_ok this, of "[65, 66]"] show ?thesis by simp
qed

lemma abuf_puts_appends:
  assumes A: "realloc_ok A" and a: "ab_holds a bs" and n: "length bs + length t + 1 < 2 ^ 30 - 1000" and t: "0 \<notin> set t"
  shows "\<exists>x. abuf_puts A (Some (t @ 0 # r)) (Some a) = Inr x \<and> appended_text bs t (int (length t)) x"
proof -
  have len: "ab_len a + length t + 1 = length bs + length t + 1" using ab_holdsD [OF a] by simp
  obtain e a1 where e: "autobuf_enlarge A (length bs + length t + 1) a = Inr (e, a1)" "enlarged a bs (length bs + length t + 1) (e, a1)"
    using autobuf_enlarge_holds [OF A a n] by auto
  have read: "mem_read (t @ 0 # r) 0 (length t + 1) = Inr (t @ [0])" by (simp add: mem_read_def)
  have run: "abuf_puts A (Some (t @ 0 # r)) (Some a) = (if e < 0 then Inr (-1, Some a1)
      else bnd (buf_write (ab_len a1) (t @ [0]) a1) (\<lambda>a. Inr (int (length t), Some (a\<lparr>ab_len := ab_len a + length t\<rparr>))))"
    unfolding abuf_puts_def prod.case option.case c_strlen_str [OF t] bnd.simps len e(1) read by (rule refl)
  show ?thesis
  proof (cases "e < 0")
    case True
    then show ?thesis using run enlarged_failed [OF e(2)] a by (simp add: appended_text_def)
  next
    case False
    have a1: "ab_holds a1 bs" "length bs + length t < ab_total a1" using enlargedD [OF e(2) False] by simp_all
    from buf_write_end [OF this] run False show ?thesis by (auto simp: appended_text_def)
  qed
qed

lemma abuf_memcpy_appends:
  assumes A: "realloc_ok A" and a: "ab_holds a bs" and n: "length bs + length t < 2 ^ 30 - 1000" and t: "t \<noteq> []"
  shows "\<exists>x. abuf_memcpy A (t @ r) (length t) (Some a) = Inr x \<and> appended_text bs t 0 x"
proof -
  have len: "ab_len a + length t = length bs + length t" using ab_holdsD [OF a] by simp
  obtain e a1 where e: "autobuf_enlarge A (length bs + length t) a = Inr (e, a1)" "enlarged a bs (length bs + length t) (e, a1)"
    using autobuf_enlarge_holds [OF A a n] by auto
  have read: "mem_read (t @ r) 0 (length t) = Inr t" by (simp add: mem_read_def)
  show ?thesis
  proof (cases "e < 0")
    case True
    then show ?thesis using len e(1) t enlarged_failed [OF e(2)] a by (simp add: abuf_memcpy_def appended_text_def)
  next
    case False
    have a1: "ab_holds a1 bs" "length bs + length t < ab_total a1" using enlargedD [OF e(2) False] by simp_all
    obtain b where b: "ab_buf a1 = Some b" "take (length bs) b = bs" "ab_total a1 \<le> length b" "ab_len a1 = length bs" "ab_total a1 < 2 ^ 30"
      using a1(1) by (auto simp: ab_holds_def)
    let ?b1 = "blit b (length bs) t" and ?b2 = "blit (blit b (length bs) t) (length bs + length t) [0]"
    have w1: "buf_write (ab_len a1) t a1 = Inr (a1\<lparr>ab_buf := Some ?b1\<rparr>)" using b a1(2) by (simp add: buf_write_def mem_write_def)
    have w2: "buf_write (length bs + length t) [0] (a1\<lparr>ab_buf := Some ?b1, ab_len := length bs + length t\<rparr>) =
        Inr (a1\<lparr>ab_buf := Some ?b2, ab_len := length bs + length t\<rparr>)" using b a1(2) by (simp add: buf_write_def mem_write_def)
    have "?b2 = (bs @ t) @ 0 # drop (length bs + length t + 1) b" using b(2,3) a1(2) by (simp add: blit_def)
    then have "take (length (bs @ t)) ?b2 = bs @ t" "?b2 ! length (bs @ t) = 0" by (simp_all only: append_eq_conv_conj nth_append_length) simp
    moreover have "length ?b2 = length b" using b(3) a1(2) by simp
    moreover have "abuf_memcpy A (t @ r) (length t) (Some a) = Inr (0, Some (a1\<lparr>ab_buf := Some ?b2, ab_len := length bs + length t\<rparr>))"
      using len e(1) t False w1 w2 read b(4) by (simp add: abuf_memcpy_def Let_def)
    ultimately show ?thesis using b a1(2) by (auto simp: appended_text_def ab_holds_def ends_def)
  qed
qed

text \<open>
  C36. Pulling \<open>n\<close> bytes leaves the rest of the contents, but not the zero byte behind them: while the block keeps its size,
  the byte there is an old byte of the contents. And there is no room for a zero byte when the block is shrunk to
  exactly the length of the rest (the case that is left out).
\<close>

theorem abuf_pull_spec:
  assumes A: "realloc_ok A" and a: "ab_holds a bs" and n: "0 < n" "n \<le> length bs"
  shows "\<exists>a'. abuf_pull A n (Some a) = Inr (Some a') \<and>
    (length bs - n + PAGESIZE \<noteq> ab_total a \<longrightarrow> ab_holds a' (drop n bs)) \<and>
    (length bs - n + PAGESIZE > ab_total a \<longrightarrow> (ends a' \<longleftrightarrow> bs ! (length bs - n) = 0))"
proof -
  obtain b where b: "ab_buf a = Some b" "take (length bs) b = bs" "ab_total a \<le> length b" and len: "ab_len a = length bs" "length bs < ab_total a" "ab_total a < 2 ^ 30"
    using a by (auto simp: ab_holds_def)
  let ?k = "length bs - n" and ?a1 = "a\<lparr>ab_buf := Some (if n = length bs then b else blit b 0 (drop n bs)), ab_len := length bs - n\<rparr>"
  let ?b1 = "if n = length bs then b else blit b 0 (drop n bs)"
  have diff: "size_diff (length bs) n = ?k" using n len by (simp add: size_diff)
  have "take ?k (drop n b) = drop n (take (length bs) b)" using n(2) by (simp add: take_drop)
  then have moved: "take ?k (drop n b) = drop n bs" unfolding b(2) .
  have move: "bnd (if n \<noteq> ab_len a then bnd (deref (ab_buf a)) (\<lambda>b. bnd (mem_read b n (size_diff (ab_len a) n)) (\<lambda>bs. buf_write 0 bs a)) else Inr a) f =
      f (a\<lparr>ab_buf := Some ?b1\<rparr>)" for f :: "autobuf \<Rightarrow> autobuf option outcome"
  proof -
    have same: "a\<lparr>ab_buf := Some b\<rparr> = a" using b(1) by (cases a) simp
    have "?k \<le> length b" "length bs \<le> length b" using len b(3) by simp_all
    then show ?thesis using b len n moved diff by (cases "n = length bs") (simp_all add: mem_read_def buf_write_def mem_write_def same)
  qed
  have b1: "length ?b1 = length b" "take ?k ?b1 = drop n bs" using b(3) len n by (simp_all add: blit_def)
  have after: "?b1 ! ?k = bs ! ?k"
  proof -
    have "b ! ?k = take (length bs) b ! ?k" using n by simp
    then have "b ! ?k = bs ! ?k" unfolding b(2) .
    then show ?thesis using b(3) len n by (cases "n = length bs") (simp_all add: blit_def nth_append)
  qed
  have run: "abuf_pull A n (Some a) = (if ?k + PAGESIZE > ab_total a then Inr (Some ?a1)
      else case A (Some ?b1) (if ab_total a - PAGESIZE < PAGESIZE then PAGESIZE else ab_total a - PAGESIZE) of
          None \<Rightarrow> Inr (Some (?a1\<lparr>ab_total := ab_total a - PAGESIZE\<rparr>))
        | Some p \<Rightarrow> Inr (Some (?a1\<lparr>ab_buf := Some p, ab_total := if ab_total a - PAGESIZE < PAGESIZE then PAGESIZE else ab_total a - PAGESIZE\<rparr>)))"
  proof -
    have n0: "\<not> n = 0" using n by simp
    have len1: "ab_len (a\<lparr>ab_buf := Some ?b1\<rparr>) = length bs" using len(1) by simp
    show ?thesis unfolding abuf_pull_def option.case if_not_P [OF n0] move Let_def len1 diff
      by (simp split del: if_split cong: if_cong option.case_cong)
  qed
  show ?thesis
  proof (cases "?k + PAGESIZE > ab_total a")
    case True
    have "ab_holds ?a1 (drop n bs)" using b1 b len n by (auto simp: ab_holds_def)
    moreover have "ends ?a1 \<longleftrightarrow> bs ! ?k = 0" using after by (simp add: ends_def)
    ultimately show ?thesis using run True by (intro exI [of _ ?a1]) auto
  next
    case False
    define T where "T = (if ab_total a - PAGESIZE < PAGESIZE then PAGESIZE else ab_total a - PAGESIZE)"
    have T: "ab_total a - PAGESIZE \<le> T" "T < 2 ^ 30" using len by (auto simp: T_def PAGESIZE_def intro: le_less_trans [OF diff_le_self])
    show ?thesis
    proof (cases "A (Some ?b1) T")
      case None
      have "ab_holds (?a1\<lparr>ab_total := ab_total a - PAGESIZE\<rparr>) (drop n bs)" if "?k + PAGESIZE \<noteq> ab_total a"
        using False that b1 b len n by (auto simp: ab_holds_def)
      then show ?thesis using run False None unfolding T_def by (intro exI [of _ "?a1\<lparr>ab_total := ab_total a - PAGESIZE\<rparr>"]) auto
    next
      case (Some p)
      have p: "length p = T" "take (length ?b1) p = take T ?b1" using A Some by (auto simp: realloc_ok_def)
      have "take ?k p = drop n bs" if "?k < T"
      proof -
        have "take ?k p = take ?k (take (length ?b1) p)" using b1(1) b(3) len by (simp add: min_absorb1)
        also have "\<dots> = take ?k ?b1" unfolding p(2) using that by (simp add: min_absorb1)
        finally show ?thesis using b1(2) by simp
      qed
      then have "ab_holds (?a1\<lparr>ab_buf := Some p, ab_total := T\<rparr>) (drop n bs)" if "?k + PAGESIZE \<noteq> ab_total a"
        using False that T p(1) n by (auto simp: ab_holds_def)
      then show ?thesis using run False Some unfolding T_def by (intro exI [of _ "?a1\<lparr>ab_buf := Some p, ab_total := T\<rparr>"]) (auto simp: T_def)
    qed
  qed
qed

theorem abuf_pull_spec_witness:
  "\<exists>a'. abuf_pull realloc_ref 1 (Some \<lparr>ab_total = 3, ab_len = 2, ab_buf = Some [64, 65, 0], ab_error = False\<rparr>) = Inr (Some a') \<and>
     ab_holds a' [65] \<and> \<not> ends a'"
proof -
  have "ab_holds \<lparr>ab_total = 3, ab_len = 2, ab_buf = Some [64, 65, 0], ab_error = False\<rparr> [64, 65]" by (simp add: ab_holds_def)
  from abuf_pull_spec [OF realloc_ref_ok this, of 1] show ?thesis by (auto simp: PAGESIZE_def)
qed

lemma abuf_setlen_leaves_buffer:
  "ab_buf a = Some b \<Longrightarrow> length b \<le> n \<Longrightarrow> abuf_setlen n a = Inl OutOfBounds"
  by (auto simp: abuf_setlen_def buf_write_def mem_write_def Let_def)

end
