(* ===== verification/Avl.thy ===== *)
theory Avl
  imports OonfList "HOL-Library.Tree"
begin

text \<open>
  The AVL trees of \<open>core/contrib/oonf_api/common/avl.c\<close> and \<open>avl.h\<close>, pointer by pointer: nodes live in a
  memory, with parent, left and right pointers and a balance each, and are threaded by a list
  (theory \<open>OonfList\<close>) that also holds the elements with equal keys. The list entity is the first member of a
  node, so a node and its list entity have one address. Recursions take fuel.
\<close>

section \<open>State\<close>

record 'k avl_node =
  av_parent :: "addr option"
  av_left :: "addr option"
  av_right :: "addr option"
  av_key :: 'k
  av_balance :: int
  av_follower :: bool

record 'k avl_tree =
  at_links :: links
  at_mem :: "addr \<Rightarrow> 'k avl_node"
  at_head :: addr
  at_root :: "addr option"
  at_count :: u32
  at_dups :: bool

text \<open>A value stored in a \<open>signed char\<close>.\<close>

definition schar :: "int \<Rightarrow> int" where
  "schar x = signed_take_bit 7 x"

definition upd :: "addr \<Rightarrow> ('k avl_node \<Rightarrow> 'k avl_node) \<Rightarrow> 'k avl_tree \<Rightarrow> 'k avl_tree" where
  "upd a f t = t\<lparr>at_mem := (at_mem t)(a := f (at_mem t a))\<rparr>"

abbreviation set_parent :: "addr \<Rightarrow> addr option \<Rightarrow> 'k avl_tree \<Rightarrow> 'k avl_tree" where
  "set_parent a p \<equiv> upd a (av_parent_update (\<lambda>_. p))"
abbreviation set_left :: "addr \<Rightarrow> addr option \<Rightarrow> 'k avl_tree \<Rightarrow> 'k avl_tree" where
  "set_left a p \<equiv> upd a (av_left_update (\<lambda>_. p))"
abbreviation set_right :: "addr \<Rightarrow> addr option \<Rightarrow> 'k avl_tree \<Rightarrow> 'k avl_tree" where
  "set_right a p \<equiv> upd a (av_right_update (\<lambda>_. p))"
abbreviation set_balance :: "addr \<Rightarrow> int \<Rightarrow> 'k avl_tree \<Rightarrow> 'k avl_tree" where
  "set_balance a b \<equiv> upd a (av_balance_update (\<lambda>_. schar b))"
abbreviation set_follower :: "addr \<Rightarrow> bool \<Rightarrow> 'k avl_tree \<Rightarrow> 'k avl_tree" where
  "set_follower a b \<equiv> upd a (av_follower_update (\<lambda>_. b))"

abbreviation prnt :: "'k avl_tree \<Rightarrow> addr \<Rightarrow> addr option" where "prnt t a \<equiv> av_parent (at_mem t a)"
abbreviation lft :: "'k avl_tree \<Rightarrow> addr \<Rightarrow> addr option" where "lft t a \<equiv> av_left (at_mem t a)"
abbreviation rgt :: "'k avl_tree \<Rightarrow> addr \<Rightarrow> addr option" where "rgt t a \<equiv> av_right (at_mem t a)"
abbreviation bal :: "'k avl_tree \<Rightarrow> addr \<Rightarrow> int" where "bal t a \<equiv> av_balance (at_mem t a)"
abbreviation key_of :: "'k avl_tree \<Rightarrow> addr \<Rightarrow> 'k" where "key_of t a \<equiv> av_key (at_mem t a)"
abbreviation fol :: "'k avl_tree \<Rightarrow> addr \<Rightarrow> bool" where "fol t a \<equiv> av_follower (at_mem t a)"

definition avl_init :: "bool \<Rightarrow> 'k avl_tree \<Rightarrow> 'k avl_tree" where
  "avl_init allow_dups t = t\<lparr>at_links := oonf_list_init_head (at_head t) (at_links t), at_root := None, at_count := 0, at_dups := allow_dups\<rparr>"

section \<open>Lookup\<close>

text \<open>\<open>_avl_find_rec\<close>: the last node on the way down and the last comparison.\<close>

fun avl_find_rec :: "nat \<Rightarrow> ('k \<Rightarrow> 'k \<Rightarrow> int) \<Rightarrow> addr \<Rightarrow> 'k \<Rightarrow> 'k avl_tree \<Rightarrow> (addr \<times> int) outcome" where
  "avl_find_rec 0 cmp node key t = Inl NoFuel"
| "avl_find_rec (Suc k) cmp node key t =
     (let diff = cmp key (key_of t node) in
      if diff < 0 then (case lft t node of Some l \<Rightarrow> avl_find_rec k cmp l key t | None \<Rightarrow> Inr (node, diff))
      else if diff > 0 then (case rgt t node of Some r \<Rightarrow> avl_find_rec k cmp r key t | None \<Rightarrow> Inr (node, diff))
      else Inr (node, diff))"

definition avl_find :: "nat \<Rightarrow> ('k \<Rightarrow> 'k \<Rightarrow> int) \<Rightarrow> 'k \<Rightarrow> 'k avl_tree \<Rightarrow> addr option outcome" where
  "avl_find k cmp key t =
     (case at_root t of
        None \<Rightarrow> Inr None
      | Some r \<Rightarrow> bnd (avl_find_rec k cmp r key t) (\<lambda>(node, diff). Inr (if diff = 0 then Some node else None)))"

text \<open>
  The two loops of \<open>avl_find_lessequal\<close> and of \<open>avl_find_greaterequal\<close>. The first ends with the node and its
  comparison, or with no node.
\<close>

fun le_left :: "nat \<Rightarrow> ('k \<Rightarrow> 'k \<Rightarrow> int) \<Rightarrow> 'k \<Rightarrow> addr \<Rightarrow> int \<Rightarrow> 'k avl_tree \<Rightarrow> (addr \<times> int) option outcome" where
  "le_left 0 cmp key node diff t = Inl NoFuel"
| "le_left (Suc k) cmp key node diff t =
     (if diff < 0 then
        if oonf_list_is_first (at_head t) node (at_links t) then Inr None
        else bnd (deref (le_prev (at_links t node))) (\<lambda>node. le_left k cmp key node (cmp key (key_of t node)) t)
      else Inr (Some (node, diff)))"

fun le_right :: "nat \<Rightarrow> ('k \<Rightarrow> 'k \<Rightarrow> int) \<Rightarrow> 'k \<Rightarrow> addr \<Rightarrow> addr \<Rightarrow> int \<Rightarrow> 'k avl_tree \<Rightarrow> addr outcome" where
  "le_right 0 cmp key node nxt diff t = Inl NoFuel"
| "le_right (Suc k) cmp key node nxt diff t =
     (if diff \<ge> 0 then
        if oonf_list_is_last (at_head t) nxt (at_links t) then Inr nxt
        else bnd (deref (le_next (at_links t nxt))) (\<lambda>n. le_right k cmp key nxt n (cmp key (key_of t n)) t)
      else Inr node)"

definition avl_find_lessequal :: "nat \<Rightarrow> ('k \<Rightarrow> 'k \<Rightarrow> int) \<Rightarrow> 'k \<Rightarrow> 'k avl_tree \<Rightarrow> addr option outcome" where
  "avl_find_lessequal k cmp key t =
     (case at_root t of
        None \<Rightarrow> Inr None
      | Some r \<Rightarrow> bnd (avl_find_rec k cmp r key t) (\<lambda>(node, diff).
          bnd (le_left k cmp key node diff t) (\<lambda>l. case l of
            None \<Rightarrow> Inr None
          | Some (node, diff) \<Rightarrow> bnd (le_right k cmp key node node diff t) (\<lambda>n. Inr (Some n)))))"

fun ge_right :: "nat \<Rightarrow> ('k \<Rightarrow> 'k \<Rightarrow> int) \<Rightarrow> 'k \<Rightarrow> addr \<Rightarrow> int \<Rightarrow> 'k avl_tree \<Rightarrow> (addr \<times> int) option outcome" where
  "ge_right 0 cmp key node diff t = Inl NoFuel"
| "ge_right (Suc k) cmp key node diff t =
     (if diff > 0 then
        if oonf_list_is_last (at_head t) node (at_links t) then Inr None
        else bnd (deref (le_next (at_links t node))) (\<lambda>node. ge_right k cmp key node (cmp key (key_of t node)) t)
      else Inr (Some (node, diff)))"

fun ge_left :: "nat \<Rightarrow> ('k \<Rightarrow> 'k \<Rightarrow> int) \<Rightarrow> 'k \<Rightarrow> addr \<Rightarrow> addr \<Rightarrow> int \<Rightarrow> 'k avl_tree \<Rightarrow> addr outcome" where
  "ge_left 0 cmp key node nxt diff t = Inl NoFuel"
| "ge_left (Suc k) cmp key node nxt diff t =
     (if diff \<le> 0 then
        if oonf_list_is_first (at_head t) nxt (at_links t) then Inr nxt
        else bnd (deref (le_prev (at_links t nxt))) (\<lambda>n. ge_left k cmp key nxt n (cmp key (key_of t n)) t)
      else Inr node)"

definition avl_find_greaterequal :: "nat \<Rightarrow> ('k \<Rightarrow> 'k \<Rightarrow> int) \<Rightarrow> 'k \<Rightarrow> 'k avl_tree \<Rightarrow> addr option outcome" where
  "avl_find_greaterequal k cmp key t =
     (case at_root t of
        None \<Rightarrow> Inr None
      | Some r \<Rightarrow> bnd (avl_find_rec k cmp r key t) (\<lambda>(node, diff).
          bnd (ge_right k cmp key node diff t) (\<lambda>l. case l of
            None \<Rightarrow> Inr None
          | Some (node, diff) \<Rightarrow> bnd (ge_left k cmp key node node diff t) (\<lambda>n. Inr (Some n)))))"

section \<open>Rotations\<close>

text \<open>The step of a rotation that hangs \<open>p\<close> in the place of \<open>node\<close> below \<open>parent\<close>.\<close>

definition replace_child :: "addr option \<Rightarrow> addr \<Rightarrow> addr option \<Rightarrow> 'k avl_tree \<Rightarrow> 'k avl_tree" where
  "replace_child parent node p t =
     (case parent of
        None \<Rightarrow> t\<lparr>at_root := p\<rparr>
      | Some q \<Rightarrow> if lft t q = Some node then set_left q p t else set_right q p t)"

definition set_parent_opt :: "addr option \<Rightarrow> addr option \<Rightarrow> 'k avl_tree \<Rightarrow> 'k avl_tree" where
  "set_parent_opt c p t = (case c of None \<Rightarrow> t | Some c \<Rightarrow> set_parent c p t)"

text \<open>The new balances of a rotation, its last lines.\<close>

definition rotate_right_balance :: "addr \<Rightarrow> addr \<Rightarrow> 'k avl_tree \<Rightarrow> 'k avl_tree" where
  "rotate_right_balance node l t =
     (let t = set_balance node (bal t node + 1) t;
          t = (if bal t l < 0 then set_balance node (bal t node - bal t l) t else t);
          t = set_balance l (bal t l + 1) t
      in if bal t node > 0 then set_balance l (bal t l + bal t node) t else t)"

definition rotate_left_balance :: "addr \<Rightarrow> addr \<Rightarrow> 'k avl_tree \<Rightarrow> 'k avl_tree" where
  "rotate_left_balance node r t =
     (let t = set_balance node (bal t node - 1) t;
          t = (if bal t r > 0 then set_balance node (bal t node - bal t r) t else t);
          t = set_balance r (bal t r - 1) t
      in if bal t node < 0 then set_balance r (bal t r + bal t node) t else t)"

definition avl_rotate_right :: "addr \<Rightarrow> 'k avl_tree \<Rightarrow> 'k avl_tree outcome" where
  "avl_rotate_right node t =
     bnd (deref (lft t node)) (\<lambda>l.
     let parent = prnt t node;
         t = set_parent l parent t;
         t = set_parent node (Some l) t;
         t = replace_child parent node (Some l) t;
         t = set_left node (rgt t l) t;
         t = set_right l (Some node) t;
         t = set_parent_opt (lft t node) (Some node) t
     in Inr (rotate_right_balance node l t))"

definition avl_rotate_left :: "addr \<Rightarrow> 'k avl_tree \<Rightarrow> 'k avl_tree outcome" where
  "avl_rotate_left node t =
     bnd (deref (rgt t node)) (\<lambda>r.
     let parent = prnt t node;
         t = set_parent r parent t;
         t = set_parent node (Some r) t;
         t = replace_child parent node (Some r) t;
         t = set_right node (lft t r) t;
         t = set_left r (Some node) t;
         t = set_parent_opt (rgt t node) (Some node) t
     in Inr (rotate_left_balance node r t))"

text \<open>\<open>node->parent->parent\<close>, of which a rotation is then asked.\<close>

definition grandparent :: "addr \<Rightarrow> 'k avl_tree \<Rightarrow> addr outcome" where
  "grandparent node t = bnd (deref (prnt t node)) (\<lambda>p. deref (prnt t p))"

section \<open>Insertion\<close>

fun post_insert :: "nat \<Rightarrow> addr \<Rightarrow> 'k avl_tree \<Rightarrow> 'k avl_tree outcome" where
  "post_insert 0 node t = Inl NoFuel"
| "post_insert (Suc k) node t =
     (case prnt t node of
        None \<Rightarrow> Inr t
      | Some p \<Rightarrow>
          if lft t p = Some node then
            let t = set_balance p (bal t p - 1) t in
            if bal t p = 0 then Inr t
            else if bal t p = -1 then post_insert k p t
            else if bal t node = -1 then avl_rotate_right p t
            else bnd (avl_rotate_left node t) (\<lambda>t. bnd (grandparent node t) (\<lambda>g. avl_rotate_right g t))
          else
            let t = set_balance p (bal t p + 1) t in
            if bal t p = 0 then Inr t
            else if bal t p = 1 then post_insert k p t
            else if bal t node = 1 then avl_rotate_left p t
            else bnd (avl_rotate_right node t) (\<lambda>t. bnd (grandparent node t) (\<lambda>g. avl_rotate_left g t)))"

definition avl_insert_before :: "addr \<Rightarrow> addr \<Rightarrow> 'k avl_tree \<Rightarrow> 'k avl_tree outcome" where
  "avl_insert_before pos_node node t =
     bnd (oonf_list_add_before pos_node node (at_links t)) (\<lambda>ls. Inr (t\<lparr>at_links := ls, at_count := at_count t + 1\<rparr>))"

definition avl_insert_after :: "addr \<Rightarrow> addr \<Rightarrow> 'k avl_tree \<Rightarrow> 'k avl_tree outcome" where
  "avl_insert_after pos_node node t =
     bnd (oonf_list_add_after pos_node node (at_links t)) (\<lambda>ls. Inr (t\<lparr>at_links := ls, at_count := at_count t + 1\<rparr>))"

fun avl_find_last :: "nat \<Rightarrow> addr \<Rightarrow> 'k avl_tree \<Rightarrow> addr outcome" where
  "avl_find_last 0 lst t = Inl NoFuel"
| "avl_find_last (Suc k) lst t =
     (if oonf_list_is_last (at_head t) lst (at_links t) then Inr lst
      else bnd (deref (le_next (at_links t lst))) (\<lambda>n. if \<not> fol t n then Inr lst else avl_find_last k n t))"

definition avl_insert :: "nat \<Rightarrow> ('k \<Rightarrow> 'k \<Rightarrow> int) \<Rightarrow> addr \<Rightarrow> 'k avl_tree \<Rightarrow> (int \<times> 'k avl_tree) outcome" where
  "avl_insert k cmp new t =
     (let t = upd new (\<lambda>n. n\<lparr>av_parent := None, av_left := None, av_right := None, av_balance := 0, av_follower := False\<rparr>) t in
      case at_root t of
        None \<Rightarrow> bnd (oonf_list_add_head (at_head t) new (at_links t)) (\<lambda>ls. Inr (0, t\<lparr>at_links := ls, at_root := Some new, at_count := 1\<rparr>))
      | Some r \<Rightarrow> bnd (avl_find_rec k cmp r (key_of t new) t) (\<lambda>(node, _).
          let diff = cmp (key_of t new) (key_of t node) in
          if diff = 0 then
            if \<not> at_dups t then Inr (-1, t)
            else bnd (avl_insert_after node new (set_follower new True t)) (\<lambda>t. Inr (0, t))
          else
            let t = set_parent new (Some node) t in
            if bal t node = 1 then
              bnd (avl_insert_before node new t) (\<lambda>t. Inr (0, set_left node (Some new) (set_balance node 0 t)))
            else if bal t node = -1 then
              bnd (avl_find_last k node t) (\<lambda>l. bnd (avl_insert_after l new t) (\<lambda>t.
              Inr (0, set_right node (Some new) (set_balance node 0 t))))
            else if diff < 0 then
              bnd (avl_insert_before node new t) (\<lambda>t.
              bnd (post_insert k node (set_left node (Some new) (set_balance node (-1) t))) (\<lambda>t. Inr (0, t)))
            else
              bnd (avl_find_last k node t) (\<lambda>l. bnd (avl_insert_after l new t) (\<lambda>t.
              bnd (post_insert k node (set_right node (Some new) (set_balance node 1 t))) (\<lambda>t. Inr (0, t))))))"

section \<open>Removal\<close>

text \<open>
  The rest of \<open>_avl_post_remove\<close> and of the first case of \<open>_avl_remove_worker\<close> once the left (right) child of
  \<open>p\<close> has lost a level; \<open>self\<close> is the recursive call.
\<close>

definition left_shrunk :: "(addr \<Rightarrow> 'k avl_tree \<Rightarrow> 'k avl_tree outcome) \<Rightarrow> addr \<Rightarrow> 'k avl_tree \<Rightarrow> 'k avl_tree outcome" where
  "left_shrunk self p t =
     (let t = set_balance p (bal t p + 1) t in
      if bal t p = 0 then self p t
      else if bal t p = 1 then Inr t
      else bnd (deref (rgt t p)) (\<lambda>r.
        if bal t r = 0 then avl_rotate_left p t
        else if bal t r = 1 then bnd (avl_rotate_left p t) (\<lambda>t. bnd (deref (prnt t p)) (\<lambda>q. self q t))
        else bnd (avl_rotate_right r t) (\<lambda>t. bnd (avl_rotate_left p t) (\<lambda>t. bnd (deref (prnt t p)) (\<lambda>q. self q t)))))"

definition right_shrunk :: "(addr \<Rightarrow> 'k avl_tree \<Rightarrow> 'k avl_tree outcome) \<Rightarrow> addr \<Rightarrow> 'k avl_tree \<Rightarrow> 'k avl_tree outcome" where
  "right_shrunk self p t =
     (let t = set_balance p (bal t p - 1) t in
      if bal t p = 0 then self p t
      else if bal t p = -1 then Inr t
      else bnd (deref (lft t p)) (\<lambda>l.
        if bal t l = 0 then avl_rotate_right p t
        else if bal t l = -1 then bnd (avl_rotate_right p t) (\<lambda>t. bnd (deref (prnt t p)) (\<lambda>q. self q t))
        else bnd (avl_rotate_left l t) (\<lambda>t. bnd (avl_rotate_right p t) (\<lambda>t. bnd (deref (prnt t p)) (\<lambda>q. self q t)))))"

primrec avl_post_remove :: "nat \<Rightarrow> addr \<Rightarrow> 'k avl_tree \<Rightarrow> 'k avl_tree outcome" where
  "avl_post_remove 0 = (\<lambda>node t. Inl NoFuel)"
| "avl_post_remove (Suc k) = (\<lambda>node t.
     (case prnt t node of
        None \<Rightarrow> Inr t
      | Some p \<Rightarrow> if lft t p = Some node then left_shrunk (avl_post_remove k) p t else right_shrunk (avl_post_remove k) p t))"

fun avl_local_min :: "nat \<Rightarrow> addr \<Rightarrow> 'k avl_tree \<Rightarrow> addr outcome" where
  "avl_local_min 0 node t = Inl NoFuel"
| "avl_local_min (Suc k) node t = (case lft t node of Some l \<Rightarrow> avl_local_min k l t | None \<Rightarrow> Inr node)"

text \<open>\<open>_avl_remove_worker\<close>, which calls itself for a node without a left child: \<open>d\<close> bounds that depth.\<close>

fun avl_remove_worker :: "nat \<Rightarrow> nat \<Rightarrow> addr \<Rightarrow> 'k avl_tree \<Rightarrow> 'k avl_tree outcome" where
  "avl_remove_worker 0 k node t = Inl NoFuel"
| "avl_remove_worker (Suc d) k node t =
     (let parent = prnt t node in
      case (lft t node, rgt t node) of
        (None, None) \<Rightarrow>
          (case parent of
             None \<Rightarrow> Inr (t\<lparr>at_root := None\<rparr>)
           | Some p \<Rightarrow> if lft t p = Some node then left_shrunk (avl_post_remove k) p (set_left p None t)
                       else right_shrunk (avl_post_remove k) p (set_right p None t))
      | (None, Some r) \<Rightarrow>
          (case parent of
             None \<Rightarrow> Inr (set_parent r None (t\<lparr>at_root := Some r\<rparr>))
           | Some p \<Rightarrow> avl_post_remove k r (replace_child parent node (Some r) (set_parent r parent t)))
      | (Some l, None) \<Rightarrow>
          (case parent of
             None \<Rightarrow> Inr (set_parent l None (t\<lparr>at_root := Some l\<rparr>))
           | Some p \<Rightarrow> avl_post_remove k l (replace_child parent node (Some l) (set_parent l parent t)))
      | (Some l, Some r) \<Rightarrow>
          bnd (avl_local_min k r t) (\<lambda>mn.
          bnd (avl_remove_worker d k mn t) (\<lambda>t.
          let parent = prnt t node;
              t = upd mn (\<lambda>n. n\<lparr>av_balance := bal t node, av_parent := parent, av_left := lft t node, av_right := rgt t node\<rparr>) t;
              t = set_parent_opt (lft t mn) (Some mn) t;
              t = set_parent_opt (rgt t mn) (Some mn) t
          in Inr (replace_child parent node (Some mn) t))))"

text \<open>\<open>_avl_remove\<close>.\<close>

definition avl_unlink :: "addr \<Rightarrow> 'k avl_tree \<Rightarrow> 'k avl_tree outcome" where
  "avl_unlink node t = bnd (oonf_list_remove node (at_links t)) (\<lambda>ls. Inr (t\<lparr>at_links := ls, at_count := at_count t - 1\<rparr>))"

text \<open>\<open>avl_remove\<close>: a node that has a follower hands its place in the tree to it.\<close>

definition avl_hand_over :: "addr \<Rightarrow> addr \<Rightarrow> 'k avl_tree \<Rightarrow> 'k avl_tree" where
  "avl_hand_over node nxt t =
     (let parent = prnt t node; l = lft t node; r = rgt t node;
          t = upd nxt (\<lambda>n. n\<lparr>av_follower := False, av_balance := bal t node, av_parent := parent, av_left := l, av_right := r\<rparr>) t;
          t = replace_child parent node (Some nxt) t;
          t = set_parent_opt l (Some nxt) t
      in set_parent_opt r (Some nxt) t)"

definition avl_remove :: "nat \<Rightarrow> addr \<Rightarrow> 'k avl_tree \<Rightarrow> 'k avl_tree outcome" where
  "avl_remove k node t =
     bnd (if fol t node then Inr t
          else if at_dups t \<and> \<not> oonf_list_is_last (at_head t) node (at_links t) then
            bnd (deref (le_next (at_links t node))) (\<lambda>nxt.
            if fol t nxt then Inr (avl_hand_over node nxt t) else avl_remove_worker 2 k node t)
          else avl_remove_worker 2 k node t)
     (avl_unlink node)"

section \<open>The functions of the header\<close>

definition avl_is_first :: "addr \<Rightarrow> 'k avl_tree \<Rightarrow> bool" where
  "avl_is_first node t \<longleftrightarrow> le_next (at_links t (at_head t)) = Some node"

definition avl_is_last :: "addr \<Rightarrow> 'k avl_tree \<Rightarrow> bool" where
  "avl_is_last node t \<longleftrightarrow> le_prev (at_links t (at_head t)) = Some node"

definition avl_is_empty :: "'k avl_tree \<Rightarrow> bool" where
  "avl_is_empty t \<longleftrightarrow> at_count t = 0"

definition avl_is_node_added :: "addr \<Rightarrow> 'k avl_tree \<Rightarrow> bool" where
  "avl_is_node_added node t = oonf_list_is_node_added node (at_links t)"

end
