(* ===== verification/AvlShape.thy ===== *)
theory AvlShape
  imports Avl
begin

text \<open>
  The pointer structure of the AVL trees: \<open>tok m p s\<close> says that the memory holds the tree shape \<open>s\<close> below
  parent \<open>p\<close>, \<open>cok m root p c\<close> that it holds the path \<open>c\<close> from the root down to a place that points to
  \<open>p\<close>. Rotations and the rebalancing after an insertion are followed along such paths.
\<close>

section \<open>Shapes and paths\<close>

fun root_of :: "addr tree \<Rightarrow> addr option" where
  "root_of Leaf = None"
| "root_of (Node l a r) = Some a"

fun tok :: "(addr \<Rightarrow> 'k avl_node) \<Rightarrow> addr option \<Rightarrow> addr tree \<Rightarrow> bool" where
  "tok m p Leaf \<longleftrightarrow> True"
| "tok m p (Node l a r) \<longleftrightarrow> av_parent (m a) = p \<and> av_left (m a) = root_of l \<and> av_right (m a) = root_of r \<and>
     tok m (Some a) l \<and> tok m (Some a) r"

text \<open>A step of a path: down to the left child of \<open>a\<close>, whose right subtree is \<open>r\<close>, or to the right one.\<close>

datatype frame = LF addr "addr tree" | RF "addr tree" addr

fun plug :: "frame list \<Rightarrow> addr tree \<Rightarrow> addr tree" where
  "plug [] s = s"
| "plug (LF a r # c) s = plug c (Node s a r)"
| "plug (RF l a # c) s = plug c (Node l a s)"

fun lefts :: "frame list \<Rightarrow> addr list" where
  "lefts [] = []"
| "lefts (LF a r # c) = lefts c"
| "lefts (RF l a # c) = lefts c @ inorder l @ [a]"

fun rights :: "frame list \<Rightarrow> addr list" where
  "rights [] = []"
| "rights (LF a r # c) = a # inorder r @ rights c"
| "rights (RF l a # c) = rights c"

fun ctop :: "frame list \<Rightarrow> addr option" where
  "ctop [] = None"
| "ctop (LF a r # c) = Some a"
| "ctop (RF l a # c) = Some a"

fun cok :: "(addr \<Rightarrow> 'k avl_node) \<Rightarrow> addr option \<Rightarrow> addr option \<Rightarrow> frame list \<Rightarrow> bool" where
  "cok m root p [] \<longleftrightarrow> root = p"
| "cok m root p (LF a r # c) \<longleftrightarrow> av_left (m a) = p \<and> av_right (m a) = root_of r \<and> av_parent (m a) = ctop c \<and>
     tok m (Some a) r \<and> cok m root (Some a) c"
| "cok m root p (RF l a # c) \<longleftrightarrow> av_left (m a) = root_of l \<and> av_right (m a) = p \<and> av_parent (m a) = ctop c \<and>
     tok m (Some a) l \<and> cok m root (Some a) c"

definition cnodes :: "frame list \<Rightarrow> addr set" where
  "cnodes c = set (lefts c) \<union> set (rights c)"

lemma cnodes_simps [simp]:
  "cnodes [] = {}" "cnodes (LF a r # c) = insert a (set_tree r \<union> cnodes c)" "cnodes (RF l a # c) = insert a (set_tree l \<union> cnodes c)"
  by (auto simp: cnodes_def)

lemma inorder_plug [simp]: "inorder (plug c s) = lefts c @ inorder s @ rights c"
  by (induction c s rule: plug.induct) simp_all

lemma set_plug [simp]: "set_tree (plug c s) = set_tree s \<union> cnodes c"
  by (simp flip: set_inorder add: cnodes_def Un_ac)

lemma tok_plug: "tok m None (plug c s) \<and> root = root_of (plug c s) \<longleftrightarrow> cok m root (root_of s) c \<and> tok m (ctop c) s"
  by (induction c s rule: plug.induct) auto

lemma top_in: "ctop c = Some q \<Longrightarrow> q \<in> cnodes c"
  by (cases c rule: ctop.cases) auto

lemma root_of_in: "root_of s = Some a \<Longrightarrow> a \<in> set_tree s"
  by (cases s) auto

text \<open>The places a path and a shape occupy are distinct.\<close>

definition apart :: "frame list \<Rightarrow> addr tree \<Rightarrow> bool" where
  "apart c s \<longleftrightarrow> distinct (inorder (plug c s))"

lemma apart_LF [simp]: "apart (LF a r # c) s \<longleftrightarrow> apart c (Node s a r)"
  by (simp add: apart_def)

lemma apart_RF [simp]: "apart (RF l a # c) s \<longleftrightarrow> apart c (Node l a s)"
  by (simp add: apart_def)

lemma apartD: "apart c s \<Longrightarrow> distinct (inorder s) \<and> set_tree s \<inter> cnodes c = {}"
  by (auto simp: apart_def cnodes_def simp flip: set_inorder)

lemma apart_mono: "apart c s \<Longrightarrow> inorder s' = inorder s \<Longrightarrow> apart c s'"
  by (simp add: apart_def)

lemma apart_sub: "apart c (Node l a r) \<Longrightarrow> apart c l \<and> apart c r"
  by (auto simp: apart_def)

section \<open>Frames\<close>

definition node_links :: "'k avl_node \<Rightarrow> addr option \<times> addr option \<times> addr option" where
  "node_links n = (av_parent n, av_left n, av_right n)"

lemma tok_frame: "tok m p s \<Longrightarrow> (\<And>a. a \<in> set_tree s \<Longrightarrow> node_links (m' a) = node_links (m a)) \<Longrightarrow> tok m' p s"
  by (induction s arbitrary: p) (auto simp: node_links_def)

lemma cok_frame: "cok m root p c \<Longrightarrow> (\<And>a. a \<in> cnodes c \<Longrightarrow> node_links (m' a) = node_links (m a)) \<Longrightarrow> cok m' root p c"
proof (induction c arbitrary: p)
  case (Cons f c)
  have tok: "tok m q s \<Longrightarrow> set_tree s \<subseteq> cnodes (f # c) \<Longrightarrow> tok m' q s" for q s
    using Cons.prems(2) by (blast intro: tok_frame)
  have cok: "cok m root q c \<Longrightarrow> cnodes c \<subseteq> cnodes (f # c) \<Longrightarrow> cok m' root q c" for q
    using Cons.prems(2) by (blast intro: Cons.IH)
  show ?case
  proof (cases f)
    case (LF a r)
    then show ?thesis
      using Cons.prems(1) Cons.prems(2) [of a] tok [of "Some a" r] cok [of "Some a"] by (auto simp: node_links_def)
  next
    case (RF l a)
    then show ?thesis
      using Cons.prems(1) Cons.prems(2) [of a] tok [of "Some a" l] cok [of "Some a"] by (auto simp: node_links_def)
  qed
qed simp

lemma tok_reparent:
  assumes "tok m p s" and "distinct (inorder s)"
    and "\<And>a. a \<in> set_tree s \<Longrightarrow> root_of s \<noteq> Some a \<Longrightarrow> node_links (m' a) = node_links (m a)"
    and "\<And>a. root_of s = Some a \<Longrightarrow> node_links (m' a) = (p', av_left (m a), av_right (m a))"
  shows "tok m' p' s"
proof (cases s)
  case (Node l a r)
  have "tok m' (Some a) l" "tok m' (Some a) r"
    using assms(1,2,3) Node by (auto intro!: tok_frame [of m])
  with assms(1,4) Node show ?thesis by (auto simp: node_links_def)
qed simp

section \<open>Updates\<close>

lemma mem_upd [simp]: "at_mem (upd a f t) y = (if y = a then f (at_mem t a) else at_mem t y)"
  by (simp add: upd_def)

lemma upd_fields [simp]:
  "at_root (upd a f t) = at_root t" "at_links (upd a f t) = at_links t" "at_head (upd a f t) = at_head t"
  "at_count (upd a f t) = at_count t" "at_dups (upd a f t) = at_dups t"
  by (simp_all add: upd_def)

lemma mem_replace_child [simp]:
  "at_mem (replace_child q a p t) y =
     (if q = Some y then if lft t y = Some a then (at_mem t y)\<lparr>av_left := p\<rparr> else (at_mem t y)\<lparr>av_right := p\<rparr> else at_mem t y)"
  by (auto simp: replace_child_def split: option.splits)

lemma replace_child_fields [simp]:
  "at_root (replace_child q a p t) = (if q = None then p else at_root t)" "at_links (replace_child q a p t) = at_links t"
  "at_head (replace_child q a p t) = at_head t" "at_count (replace_child q a p t) = at_count t" "at_dups (replace_child q a p t) = at_dups t"
  by (auto simp: replace_child_def split: option.splits)

lemma mem_set_parent_opt [simp]:
  "at_mem (set_parent_opt c p t) y = (if c = Some y then (at_mem t y)\<lparr>av_parent := p\<rparr> else at_mem t y)"
  by (auto simp: set_parent_opt_def split: option.splits)

lemma set_parent_opt_fields [simp]:
  "at_root (set_parent_opt c p t) = at_root t" "at_links (set_parent_opt c p t) = at_links t" "at_head (set_parent_opt c p t) = at_head t"
  "at_count (set_parent_opt c p t) = at_count t" "at_dups (set_parent_opt c p t) = at_dups t"
  by (simp_all add: set_parent_opt_def split: option.splits)

lemma schar_id [simp]: "-128 \<le> x \<Longrightarrow> x < 128 \<Longrightarrow> schar x = x"
  by (simp add: schar_def signed_take_bit_int_eq_self)

text \<open>Nothing but pointers and balances of nodes in \<open>S\<close>, and the root, changes.\<close>

definition keeps :: "addr set \<Rightarrow> 'k avl_tree \<Rightarrow> 'k avl_tree \<Rightarrow> bool" where
  "keeps S t t' \<longleftrightarrow> at_links t' = at_links t \<and> at_head t' = at_head t \<and> at_count t' = at_count t \<and> at_dups t' = at_dups t \<and>
     (\<forall>y. key_of t' y = key_of t y \<and> fol t' y = fol t y) \<and> (\<forall>y. y \<notin> S \<longrightarrow> at_mem t' y = at_mem t y)"

lemma keeps_refl [simp]: "keeps S t t"
  by (simp add: keeps_def)

lemma keeps_trans: "keeps S t t' \<Longrightarrow> keeps S t' t'' \<Longrightarrow> keeps S t t''"
  by (simp add: keeps_def)

lemma keeps_mono: "keeps S t t' \<Longrightarrow> S \<subseteq> T \<Longrightarrow> keeps T t t'"
  by (auto simp: keeps_def)

lemma keeps_upd:
  "a \<in> S \<Longrightarrow> (\<And>n. av_key (f n) = av_key n \<and> av_follower (f n) = av_follower n) \<Longrightarrow> keeps S t t' \<Longrightarrow> keeps S t (upd a f t')"
  by (auto simp: keeps_def)

lemma keeps_replace_child: "(\<And>q. p = Some q \<Longrightarrow> q \<in> S) \<Longrightarrow> keeps S t t' \<Longrightarrow> keeps S t (replace_child p a x t')"
  by (auto simp: keeps_def)

lemma keeps_set_parent_opt: "(\<And>q. c = Some q \<Longrightarrow> q \<in> S) \<Longrightarrow> keeps S t t' \<Longrightarrow> keeps S t (set_parent_opt c p t')"
  by (auto simp: keeps_def)

text \<open>Hanging another node into the end of a path.\<close>

lemma cok_replace:
  assumes "cok (at_mem t) (at_root t) (Some a) c" and "a \<notin> cnodes c" and "distinct (lefts c @ rights c)"
  shows "cok (at_mem (replace_child (ctop c) a p t)) (at_root (replace_child (ctop c) a p t)) p c"
proof (cases c rule: ctop.cases)
  case 1
  then show ?thesis by (simp add: replace_child_def)
next
  case (2 q r d)
  with assms have "q \<notin> set_tree r" "q \<notin> cnodes d" by (auto simp: cnodes_def)
  with assms 2 show ?thesis
    by (auto simp: node_links_def intro!: tok_frame [of "at_mem t" _ r] cok_frame [of "at_mem t" _ _ d])
next
  case (3 l q d)
  with assms have "q \<notin> set_tree l" "q \<notin> cnodes d" by (auto simp: cnodes_def)
  moreover have "root_of l \<noteq> Some a" using assms(2) 3 root_of_in by auto
  ultimately show ?thesis using assms 3
    by (auto simp: node_links_def intro!: tok_frame [of "at_mem t" _ l] cok_frame [of "at_mem t" _ _ d])
qed

section \<open>Rotations\<close>

lemma rotate_right_balance_ok:
  fixes t :: "'k avl_tree"
  assumes "a \<noteq> x" and "\<bar>bal t a\<bar> \<le> 2" and "\<bar>bal t x\<bar> \<le> 2"
  defines "t' \<equiv> rotate_right_balance a x t"
  shows "bal t' a = bal t a + 1 - min (bal t x) 0 \<and> bal t' x = bal t x + 1 + max (bal t' a) 0 \<and> (\<forall>y. y \<notin> {a, x} \<longrightarrow> bal t' y = bal t y) \<and>
    (\<forall>y. node_links (at_mem t' y) = node_links (at_mem t y)) \<and> at_root t' = at_root t \<and> keeps {a, x} t t'"
proof -
  define na where "na = bal t a + 1 - min (bal t x) 0"
  define nx where "nx = bal t x + 1 + max na 0"
  from assms(2,3) have na: "\<bar>na\<bar> \<le> 5" and nx: "\<bar>nx\<bar> \<le> 8" and b1: "schar (bal t a + 1) = bal t a + 1" and b2: "schar (bal t x + 1) = bal t x + 1"
    and n1: "schar na = na" and n2: "schar nx = nx"
    by (auto simp: na_def nx_def)
  let ?f = "\<lambda>t :: 'k avl_tree. if bal t x < 0 then set_balance a (bal t a - bal t x) t else t"
  let ?g = "\<lambda>t :: 'k avl_tree. if bal t a > 0 then set_balance x (bal t x + bal t a) t else t"
  have f: "?f (set_balance a (bal t a + 1) t) = set_balance a na t"
    using assms(1) n1 b1 by (auto simp: na_def upd_def min_def)
  have g: "?g (set_balance x (bal u x + 1) u) = set_balance x nx u" if "u = set_balance a na t" for u
    using assms(1) n1 b2 n2 unfolding that by (auto simp: nx_def upd_def max_def)
  have "t' = (let u = ?f (set_balance a (bal t a + 1) t) in ?g (set_balance x (bal u x + 1) u))"
    unfolding t'_def rotate_right_balance_def Let_def by (rule refl)
  then have "t' = set_balance x nx (set_balance a na t)" unfolding f Let_def using g [OF refl] by simp
  then show ?thesis
    using assms(1) n1 n2 by (auto simp: keeps_def node_links_def na_def nx_def)
qed

lemma rotate_right_ok:
  assumes c: "cok (at_mem t) (at_root t) (Some a) c" and s: "tok (at_mem t) (ctop c) (Node (Node A x B) a C)"
    and d: "apart c (Node (Node A x B) a C)" and small: "\<bar>bal t a\<bar> \<le> 2" "\<bar>bal t x\<bar> \<le> 2"
  shows "\<exists>t'. avl_rotate_right a t = Inr t' \<and> cok (at_mem t') (at_root t') (Some x) c \<and> tok (at_mem t') (ctop c) (Node A x (Node B a C)) \<and>
    bal t' a = bal t a + 1 - min (bal t x) 0 \<and> bal t' x = bal t x + 1 + max (bal t' a) 0 \<and> (\<forall>y. y \<notin> {a, x} \<longrightarrow> bal t' y = bal t y) \<and>
    keeps (insert a (insert x (set_tree B \<union> cnodes c))) t t'"
proof -
  let ?S = "insert a (insert x (set_tree B \<union> cnodes c))"
  from d have out: "a \<notin> cnodes c" "x \<notin> cnodes c" "set_tree A \<inter> cnodes c = {}" "set_tree B \<inter> cnodes c = {}" "set_tree C \<inter> cnodes c = {}"
    and ne: "a \<noteq> x" "a \<notin> set_tree A" "a \<notin> set_tree B" "a \<notin> set_tree C" "x \<notin> set_tree A" "x \<notin> set_tree B" "x \<notin> set_tree C"
    and dis: "set_tree A \<inter> set_tree B = {}" "set_tree B \<inter> set_tree C = {}" and dB: "distinct (inorder B)" and dc: "distinct (lefts c @ rights c)"
    using apartD [OF d] by (auto simp: apart_def)
  from s have m: "lft t a = root_of (Node A x B)" "rgt t a = root_of (C)" "prnt t a = ctop c" "prnt t x = Some a"
      "lft t x = root_of A" "rgt t x = root_of B"
    and kA: "tok (at_mem t) (Some x) A" and kB: "tok (at_mem t) (Some x) B" and kC: "tok (at_mem t) (Some a) C" by auto
  let ?t1 = "set_parent a (Some x) (set_parent x (ctop c) t)"
  let ?t2 = "replace_child (ctop c) a (Some x) ?t1"
  let ?t3 = "set_right x (Some a) (set_left a (rgt ?t2 x) ?t2)"
  let ?t4 = "set_parent_opt (lft ?t3 a) (Some a) ?t3"
  have topc: "ctop c \<noteq> Some a" "ctop c \<noteq> Some x" "\<And>q. ctop c = Some q \<Longrightarrow> q \<in> cnodes c" using out top_in by auto
  have B: "\<And>b. root_of B = Some b \<Longrightarrow> b \<in> set_tree B \<and> b \<noteq> a \<and> b \<noteq> x \<and> ctop c \<noteq> Some b"
    using root_of_in [of B] ne out topc(3) by blast
  have tB: "ctop c \<noteq> Some b" if "b \<in> set_tree A \<union> set_tree B \<union> set_tree C" for b using that out topc(3) by blast
  have r4: "lft ?t4 a = root_of B" "rgt ?t4 a = rgt t a" "prnt ?t4 a = Some x"
      "lft ?t4 x = root_of A" "rgt ?t4 x = Some a" "prnt ?t4 x = ctop c"
    using topc m ne B by auto
  have cok4: "cok (at_mem ?t4) (at_root ?t4) (Some x) c"
  proof -
    have "cok (at_mem ?t1) (at_root ?t1) (Some a) c" using c out by (auto simp: node_links_def intro: cok_frame)
    then have "cok (at_mem ?t2) (at_root ?t2) (Some x) c" by (rule cok_replace) (use out dc in auto)
    then have "cok (at_mem ?t4) (at_root ?t2) (Some x) c"
      by (rule cok_frame) (use out B m ne topc in \<open>auto simp: node_links_def\<close>)
    then show ?thesis by simp
  qed
  have A4: "tok (at_mem ?t4) (Some x) A"
    using kA by (rule tok_frame) (use ne dis tB B m topc in \<open>auto simp: node_links_def\<close>)
  have C4: "tok (at_mem ?t4) (Some a) C"
    using kC by (rule tok_frame) (use ne dis tB B m topc in \<open>auto simp: node_links_def\<close>)
  have B4: "tok (at_mem ?t4) (Some a) B"
    using kB dB by (rule tok_reparent) (use ne dis tB B m topc in \<open>auto simp: node_links_def\<close>)
  have keep4: "keeps ?S t ?t4"
    by (intro keeps_set_parent_opt keeps_upd keeps_replace_child keeps_refl) (use m ne topc B in auto)
  have bal4: "bal ?t4 y = bal t y" for y by simp
  let ?t = "rotate_right_balance a x ?t4"
  from rotate_right_balance_ok [of a x ?t4] ne(1) small
  have b: "bal ?t a = bal t a + 1 - min (bal t x) 0" "bal ?t x = bal t x + 1 + max (bal ?t a) 0" "\<forall>y. y \<notin> {a, x} \<longrightarrow> bal ?t y = bal t y"
    and same: "\<And>y. node_links (at_mem ?t y) = node_links (at_mem ?t4 y)" "at_root ?t = at_root ?t4" and keep: "keeps {a, x} ?t4 ?t"
    unfolding bal4 by blast+
  have run: "avl_rotate_right a t = Inr ?t" using m by (simp add: avl_rotate_right_def Let_def)
  have "cok (at_mem ?t) (at_root ?t) (Some x) c" unfolding same(2) using cok4 by (rule cok_frame) (rule same(1))
  moreover have "tok (at_mem ?t4) (ctop c) (Node A x (Node B a C))"
    using A4 B4 C4 r4 m(2) by (simp only: tok.simps root_of.simps)
  then have "tok (at_mem ?t) (ctop c) (Node A x (Node B a C))"
    by (rule tok_frame) (rule same(1))
  moreover have "keeps ?S t ?t" using keep4 keep by (blast intro: keeps_trans keeps_mono)
  ultimately show ?thesis using b unfolding run by blast
qed

lemma rotate_left_balance_ok:
  fixes t :: "'k avl_tree"
  assumes "a \<noteq> x" and "\<bar>bal t a\<bar> \<le> 2" and "\<bar>bal t x\<bar> \<le> 2"
  defines "t' \<equiv> rotate_left_balance a x t"
  shows "bal t' a = bal t a - 1 - max (bal t x) 0 \<and> bal t' x = bal t x - 1 + min (bal t' a) 0 \<and> (\<forall>y. y \<notin> {a, x} \<longrightarrow> bal t' y = bal t y) \<and>
    (\<forall>y. node_links (at_mem t' y) = node_links (at_mem t y)) \<and> at_root t' = at_root t \<and> keeps {a, x} t t'"
proof -
  define na where "na = bal t a - 1 - max (bal t x) 0"
  define nx where "nx = bal t x - 1 + min na 0"
  from assms(2,3) have na: "\<bar>na\<bar> \<le> 5" and nx: "\<bar>nx\<bar> \<le> 8" and b1: "schar (bal t a - 1) = bal t a - 1" and b2: "schar (bal t x - 1) = bal t x - 1"
    and n1: "schar na = na" and n2: "schar nx = nx"
    by (auto simp: na_def nx_def)
  let ?f = "\<lambda>t :: 'k avl_tree. if bal t x > 0 then set_balance a (bal t a - bal t x) t else t"
  let ?g = "\<lambda>t :: 'k avl_tree. if bal t a < 0 then set_balance x (bal t x + bal t a) t else t"
  have f: "?f (set_balance a (bal t a - 1) t) = set_balance a na t"
    using assms(1) n1 b1 by (auto simp: na_def upd_def max_def)
  have g: "?g (set_balance x (bal u x - 1) u) = set_balance x nx u" if "u = set_balance a na t" for u
    using assms(1) n1 b2 n2 unfolding that by (auto simp: nx_def upd_def min_def)
  have "t' = (let u = ?f (set_balance a (bal t a - 1) t) in ?g (set_balance x (bal u x - 1) u))"
    unfolding t'_def rotate_left_balance_def Let_def by (rule refl)
  then have "t' = set_balance x nx (set_balance a na t)" unfolding f Let_def using g [OF refl] by simp
  then show ?thesis
    using assms(1) n1 n2 by (auto simp: keeps_def node_links_def na_def nx_def)
qed

lemma rotate_left_ok:
  assumes c: "cok (at_mem t) (at_root t) (Some a) c" and s: "tok (at_mem t) (ctop c) (Node A a (Node B x C))"
    and d: "apart c (Node A a (Node B x C))" and small: "\<bar>bal t a\<bar> \<le> 2" "\<bar>bal t x\<bar> \<le> 2"
  shows "\<exists>t'. avl_rotate_left a t = Inr t' \<and> cok (at_mem t') (at_root t') (Some x) c \<and> tok (at_mem t') (ctop c) (Node (Node A a B) x C) \<and>
    bal t' a = bal t a - 1 - max (bal t x) 0 \<and> bal t' x = bal t x - 1 + min (bal t' a) 0 \<and> (\<forall>y. y \<notin> {a, x} \<longrightarrow> bal t' y = bal t y) \<and>
    keeps (insert a (insert x (set_tree B \<union> cnodes c))) t t'"
proof -
  let ?S = "insert a (insert x (set_tree B \<union> cnodes c))"
  from d have out: "a \<notin> cnodes c" "x \<notin> cnodes c" "set_tree A \<inter> cnodes c = {}" "set_tree B \<inter> cnodes c = {}" "set_tree C \<inter> cnodes c = {}"
    and ne: "a \<noteq> x" "a \<notin> set_tree A" "a \<notin> set_tree B" "a \<notin> set_tree C" "x \<notin> set_tree A" "x \<notin> set_tree B" "x \<notin> set_tree C"
    and dis: "set_tree A \<inter> set_tree B = {}" "set_tree B \<inter> set_tree C = {}" and dB: "distinct (inorder B)" and dc: "distinct (lefts c @ rights c)"
    using apartD [OF d] by (auto simp: apart_def)
  from s have m: "rgt t a = root_of (Node B x C)" "lft t a = root_of A" "prnt t a = ctop c" "prnt t x = Some a"
      "rgt t x = root_of C" "lft t x = root_of B"
    and kA: "tok (at_mem t) (Some a) A" and kB: "tok (at_mem t) (Some x) B" and kC: "tok (at_mem t) (Some x) C" by auto
  let ?t1 = "set_parent a (Some x) (set_parent x (ctop c) t)"
  let ?t2 = "replace_child (ctop c) a (Some x) ?t1"
  let ?t3 = "set_left x (Some a) (set_right a (lft ?t2 x) ?t2)"
  let ?t4 = "set_parent_opt (rgt ?t3 a) (Some a) ?t3"
  have topc: "ctop c \<noteq> Some a" "ctop c \<noteq> Some x" "\<And>q. ctop c = Some q \<Longrightarrow> q \<in> cnodes c" using out top_in by auto
  have B: "\<And>b. root_of B = Some b \<Longrightarrow> b \<in> set_tree B \<and> b \<noteq> a \<and> b \<noteq> x \<and> ctop c \<noteq> Some b"
    using root_of_in [of B] ne out topc(3) by blast
  have tB: "ctop c \<noteq> Some b" if "b \<in> set_tree A \<union> set_tree B \<union> set_tree C" for b using that out topc(3) by blast
  have r4: "rgt ?t4 a = root_of B" "lft ?t4 a = lft t a" "prnt ?t4 a = Some x"
      "rgt ?t4 x = root_of C" "lft ?t4 x = Some a" "prnt ?t4 x = ctop c"
    using topc m ne B by auto
  have cok4: "cok (at_mem ?t4) (at_root ?t4) (Some x) c"
  proof -
    have "cok (at_mem ?t1) (at_root ?t1) (Some a) c" using c out by (auto simp: node_links_def intro: cok_frame)
    then have "cok (at_mem ?t2) (at_root ?t2) (Some x) c" by (rule cok_replace) (use out dc in auto)
    then have "cok (at_mem ?t4) (at_root ?t2) (Some x) c"
      by (rule cok_frame) (use out B m ne topc in \<open>auto simp: node_links_def\<close>)
    then show ?thesis by simp
  qed
  have A4: "tok (at_mem ?t4) (Some a) A"
    using kA by (rule tok_frame) (use ne dis tB B m topc in \<open>auto simp: node_links_def\<close>)
  have C4: "tok (at_mem ?t4) (Some x) C"
    using kC by (rule tok_frame) (use ne dis tB B m topc in \<open>auto simp: node_links_def\<close>)
  have B4: "tok (at_mem ?t4) (Some a) B"
    using kB dB by (rule tok_reparent) (use ne dis tB B m topc in \<open>auto simp: node_links_def\<close>)
  have keep4: "keeps ?S t ?t4"
    by (intro keeps_set_parent_opt keeps_upd keeps_replace_child keeps_refl) (use m ne topc B in auto)
  have bal4: "bal ?t4 y = bal t y" for y by simp
  let ?t = "rotate_left_balance a x ?t4"
  from rotate_left_balance_ok [of a x ?t4] ne(1) small
  have b: "bal ?t a = bal t a - 1 - max (bal t x) 0" "bal ?t x = bal t x - 1 + min (bal ?t a) 0" "\<forall>y. y \<notin> {a, x} \<longrightarrow> bal ?t y = bal t y"
    and same: "\<And>y. node_links (at_mem ?t y) = node_links (at_mem ?t4 y)" "at_root ?t = at_root ?t4" and keep: "keeps {a, x} ?t4 ?t"
    unfolding bal4 by blast+
  have run: "avl_rotate_left a t = Inr ?t" using m by (simp add: avl_rotate_left_def Let_def)
  have "cok (at_mem ?t) (at_root ?t) (Some x) c" unfolding same(2) using cok4 by (rule cok_frame) (rule same(1))
  moreover have "tok (at_mem ?t4) (ctop c) (Node (Node A a B) x C)"
    using A4 B4 C4 r4 m(2) by (simp only: tok.simps root_of.simps)
  then have "tok (at_mem ?t) (ctop c) (Node (Node A a B) x C)"
    by (rule tok_frame) (rule same(1))
  moreover have "keeps ?S t ?t" using keep4 keep by (blast intro: keeps_trans keeps_mono)
  ultimately show ?thesis using b unfolding run by blast
qed

section \<open>Balance\<close>

definition diff :: "addr tree \<Rightarrow> addr tree \<Rightarrow> int" where
  "diff l r = int (height r) - int (height l)"

fun bok :: "(addr \<Rightarrow> 'k avl_node) \<Rightarrow> addr tree \<Rightarrow> bool" where
  "bok m Leaf \<longleftrightarrow> True"
| "bok m (Node l a r) \<longleftrightarrow> av_balance (m a) = diff l r \<and> \<bar>diff l r\<bar> \<le> 1 \<and> bok m l \<and> bok m r"

text \<open>The balances along a path whose end has height \<open>h\<close>.\<close>

fun cbal :: "(addr \<Rightarrow> 'k avl_node) \<Rightarrow> nat \<Rightarrow> frame list \<Rightarrow> bool" where
  "cbal m h [] \<longleftrightarrow> True"
| "cbal m h (LF a r # c) \<longleftrightarrow> av_balance (m a) = int (height r) - int h \<and> \<bar>int (height r) - int h\<bar> \<le> 1 \<and> bok m r \<and>
     cbal m (Suc (max h (height r))) c"
| "cbal m h (RF l a # c) \<longleftrightarrow> av_balance (m a) = int h - int (height l) \<and> \<bar>int h - int (height l)\<bar> \<le> 1 \<and> bok m l \<and>
     cbal m (Suc (max (height l) h)) c"

lemma bok_plug: "bok m (plug c s) \<longleftrightarrow> bok m s \<and> cbal m (height s) c"
  by (induction c s rule: plug.induct) (auto simp: diff_def)

lemma bok_frame: "bok m s \<Longrightarrow> (\<And>a. a \<in> set_tree s \<Longrightarrow> av_balance (m' a) = av_balance (m a)) \<Longrightarrow> bok m' s"
  by (induction s) auto

lemma cbal_frame: "cbal m h c \<Longrightarrow> (\<And>a. a \<in> cnodes c \<Longrightarrow> av_balance (m' a) = av_balance (m a)) \<Longrightarrow> cbal m' h c"
proof (induction c arbitrary: h)
  case (Cons f c)
  have bok: "bok m s \<Longrightarrow> set_tree s \<subseteq> cnodes (f # c) \<Longrightarrow> bok m' s" for s
    using Cons.prems(2) by (blast intro: bok_frame)
  have cbal: "cbal m h c \<Longrightarrow> cnodes c \<subseteq> cnodes (f # c) \<Longrightarrow> cbal m' h c" for h
    using Cons.prems(2) by (blast intro: Cons.IH)
  show ?case
    using Cons.prems(1) Cons.prems(2) bok cbal by (cases f) (auto 4 4)
qed simp

lemma bok_avoid: "bok m s \<Longrightarrow> (\<And>a. a \<notin> S \<Longrightarrow> av_balance (m' a) = av_balance (m a)) \<Longrightarrow> S \<inter> set_tree s = {} \<Longrightarrow> bok m' s"
  by (erule bok_frame) blast

lemma cbal_avoid: "cbal m h c \<Longrightarrow> (\<And>a. a \<notin> S \<Longrightarrow> av_balance (m' a) = av_balance (m a)) \<Longrightarrow> S \<inter> cnodes c = {} \<Longrightarrow> cbal m' h c"
  by (erule cbal_frame) blast

text \<open>A tree in memory, balanced.\<close>

definition holds_tree :: "'k avl_tree \<Rightarrow> addr tree \<Rightarrow> bool" where
  "holds_tree t s \<longleftrightarrow> tok (at_mem t) None s \<and> at_root t = root_of s \<and> bok (at_mem t) s \<and> distinct (inorder s)"

lemma holds_tree_plug:
  "holds_tree t (plug c s) \<longleftrightarrow> cok (at_mem t) (at_root t) (root_of s) c \<and> tok (at_mem t) (ctop c) s \<and>
     bok (at_mem t) s \<and> cbal (at_mem t) (height s) c \<and> apart c s"
  using tok_plug [of "at_mem t" c s "at_root t"] by (auto simp: holds_tree_def bok_plug apart_def)

section \<open>Restoring the balance of one node\<close>

text \<open>The memory holds \<open>s\<close> at the end of the path \<open>c\<close>; nothing is said of balances.\<close>

definition at_path :: "'k avl_tree \<Rightarrow> frame list \<Rightarrow> addr tree \<Rightarrow> bool" where
  "at_path t c s \<longleftrightarrow> cok (at_mem t) (at_root t) (root_of s) c \<and> tok (at_mem t) (ctop c) s \<and> apart c s"

lemma holds_tree_at_path:
  "holds_tree t (plug c s) \<longleftrightarrow> at_path t c s \<and> bok (at_mem t) s \<and> cbal (at_mem t) (height s) c"
  by (auto simp: holds_tree_plug at_path_def)

lemma at_path_LF: "at_path t c (Node s a r) \<longleftrightarrow> at_path t (LF a r # c) s"
  by (auto simp: at_path_def)

lemma at_path_RF: "at_path t c (Node l a s) \<longleftrightarrow> at_path t (RF l a # c) s"
  by (auto simp: at_path_def)

lemma at_path_balance: "at_path (set_balance a b t) c s \<longleftrightarrow> at_path t c s"
proof -
  have "node_links (at_mem (set_balance a b t) y) = node_links (at_mem t y)" for y by (simp add: node_links_def)
  then show ?thesis unfolding at_path_def upd_fields by (metis cok_frame tok_frame)
qed

text \<open>What a rotation at the end of a path does, with the shape left open.\<close>

definition rotated :: "'k avl_tree \<Rightarrow> frame list \<Rightarrow> addr tree \<Rightarrow> addr tree \<Rightarrow> 'k avl_tree \<Rightarrow> bool" where
  "rotated t c s s' t' \<longleftrightarrow> at_path t' c s' \<and> bok (at_mem t') s' \<and> (\<forall>h. cbal (at_mem t) h c \<longrightarrow> cbal (at_mem t') h c) \<and>
     keeps (set_tree s \<union> cnodes c) t t'"

lemma single_right:
  assumes path: "at_path t c (Node (Node l a r) p R)" and bal: "bal t p = -2" "bal t a = diff l r" "diff l r \<in> {-1, 0}" "diff (Node l a r) R = -2"
    and bok: "bok (at_mem t) l" "bok (at_mem t) r" "bok (at_mem t) R"
  shows "\<exists>t'. avl_rotate_right p t = Inr t' \<and> rotated t c (Node (Node l a r) p R) (Node l a (Node r p R)) t'"
proof -
  from path have apart: "apart c (Node (Node l a r) p R)" by (simp add: at_path_def)
  from rotate_right_ok [of t p c l a r R] path bal obtain t' where
    run: "avl_rotate_right p t = Inr t'" and cok: "cok (at_mem t') (at_root t') (Some a) c" and tok: "tok (at_mem t') (ctop c) (Node l a (Node r p R))"
    and b: "bal t' p = bal t p + 1 - min (bal t a) 0" "bal t' a = bal t a + 1 + max (bal t' p) 0" "\<And>y. y \<notin> {p, a} \<Longrightarrow> bal t' y = bal t y"
    and keep: "keeps (insert p (insert a (set_tree r \<union> cnodes c))) t t'"
    by (auto simp: at_path_def)
  have ne: "p \<notin> set_tree l" "p \<notin> set_tree r" "p \<notin> set_tree R" "a \<notin> set_tree l" "a \<notin> set_tree r" "a \<notin> set_tree R" "p \<notin> cnodes c" "a \<notin> cnodes c"
    using apartD [OF apart] by auto
  have "bok (at_mem t') l" "bok (at_mem t') r" "bok (at_mem t') R"
    using bok ne by (auto intro: bok_avoid [OF _ b(3)])
  then have "bok (at_mem t') (Node l a (Node r p R))"
    using b(1,2) bal by (auto simp: diff_def)
  moreover have "cbal (at_mem t') h c" if "cbal (at_mem t) h c" for h
    using that b(3) by (rule cbal_avoid [where S = "{p, a}"]) (use ne in auto)
  moreover have "apart c (Node l a (Node r p R))" using apart by (rule apart_mono) simp
  moreover have "keeps (set_tree (Node (Node l a r) p R) \<union> cnodes c) t t'" using keep by (rule keeps_mono) auto
  ultimately show ?thesis using run cok tok by (auto simp: rotated_def at_path_def)
qed

lemma double_right:
  assumes path: "at_path t c (Node (Node l a (Node B1 y B2)) p R)" and bal: "bal t p = -2" "bal t a = 1" "bal t y = diff B1 B2" "\<bar>diff B1 B2\<bar> \<le> 1"
      "diff l (Node B1 y B2) = 1" "diff (Node l a (Node B1 y B2)) R = -2"
    and bok: "bok (at_mem t) l" "bok (at_mem t) B1" "bok (at_mem t) B2" "bok (at_mem t) R"
  shows "\<exists>t1 t'. avl_rotate_left a t = Inr t1 \<and> grandparent a t1 = Inr p \<and> avl_rotate_right p t1 = Inr t' \<and>
    rotated t c (Node (Node l a (Node B1 y B2)) p R) (Node (Node l a B1) y (Node B2 p R)) t'"
proof -
  from path have apart: "apart c (Node (Node l a (Node B1 y B2)) p R)" by (simp add: at_path_def)
  from path have "at_path t (LF p R # c) (Node l a (Node B1 y B2))" by (simp only: at_path_LF)
  with rotate_left_ok [of t a "LF p R # c" l B1 y B2] bal obtain t1 where
    run1: "avl_rotate_left a t = Inr t1" and cok1: "cok (at_mem t1) (at_root t1) (Some y) (LF p R # c)"
    and tok1: "tok (at_mem t1) (Some p) (Node (Node l a B1) y B2)"
    and b1: "bal t1 a = bal t a - 1 - max (bal t y) 0" "bal t1 y = bal t y - 1 + min (bal t1 a) 0" "\<And>x. x \<notin> {a, y} \<Longrightarrow> bal t1 x = bal t x"
    and keep1: "keeps (insert a (insert y (set_tree B1 \<union> cnodes (LF p R # c)))) t t1"
    by (auto simp: at_path_def)
  have ne: "p \<notin> set_tree l" "p \<notin> set_tree B1" "p \<notin> set_tree B2" "p \<notin> set_tree R" "a \<notin> set_tree l" "a \<notin> set_tree B1" "a \<notin> set_tree B2" "a \<notin> set_tree R"
      "y \<notin> set_tree l" "y \<notin> set_tree B1" "y \<notin> set_tree B2" "y \<notin> set_tree R" "p \<notin> cnodes c" "a \<notin> cnodes c" "y \<notin> cnodes c" "p \<noteq> a" "p \<noteq> y" "a \<noteq> y"
    using apartD [OF apart] by auto
  have apart1: "apart c (Node (Node (Node l a B1) y B2) p R)" using apart by (rule apart_mono) simp
  have p1: "bal t1 p = -2" using b1(3) [of p] ne bal(1) by simp
  from cok1 tok1 have path1: "cok (at_mem t1) (at_root t1) (Some p) c" "tok (at_mem t1) (ctop c) (Node (Node (Node l a B1) y B2) p R)" by auto
  have small1: "\<bar>bal t1 p\<bar> \<le> 2" "\<bar>bal t1 y\<bar> \<le> 2" using p1 b1 bal by auto
  from rotate_right_ok [OF path1 apart1 small1] obtain t' where
    run2: "avl_rotate_right p t1 = Inr t'" and cok: "cok (at_mem t') (at_root t') (Some y) c" and tok: "tok (at_mem t') (ctop c) (Node (Node l a B1) y (Node B2 p R))"
    and b2: "bal t' p = bal t1 p + 1 - min (bal t1 y) 0" "bal t' y = bal t1 y + 1 + max (bal t' p) 0" "\<And>x. x \<notin> {p, y} \<Longrightarrow> bal t' x = bal t1 x"
    and keep2: "keeps (insert p (insert y (set_tree B2 \<union> cnodes c))) t1 t'"
    by blast
  have same: "bal t' x = bal t x" if "x \<notin> {p, a, y}" for x using that b1(3) b2(3) by simp
  have "bok (at_mem t') l" "bok (at_mem t') B1" "bok (at_mem t') B2" "bok (at_mem t') R"
    using bok ne by (auto intro: bok_avoid [OF _ same])
  moreover have "bal t' a = bal t1 a" using b2(3) [of a] ne by simp
  ultimately have "bok (at_mem t') (Node (Node l a B1) y (Node B2 p R))"
    using b1(1,2) b2(1,2) p1 bal by (auto simp: diff_def)
  moreover have "cbal (at_mem t') h c" if "cbal (at_mem t) h c" for h
    using that same by (rule cbal_avoid [where S = "{p, a, y}"]) (use ne in auto)
  moreover have "apart c (Node (Node l a B1) y (Node B2 p R))" using apart by (rule apart_mono) simp
  moreover have "keeps (set_tree (Node (Node l a (Node B1 y B2)) p R) \<union> cnodes c) t t'"
    by (rule keeps_trans [OF keeps_mono [OF keep1] keeps_mono [OF keep2]]) auto
  moreover have "grandparent a t1 = Inr p" using tok1 cok1 by (simp add: grandparent_def)
  ultimately show ?thesis using run1 run2 cok tok by (auto simp: rotated_def at_path_def)
qed

lemma single_left:
  assumes path: "at_path t c (Node R p (Node l a r))" and bal: "bal t p = 2" "bal t a = diff l r" "diff l r \<in> {0, 1}" "diff R (Node l a r) = 2"
    and bok: "bok (at_mem t) l" "bok (at_mem t) r" "bok (at_mem t) R"
  shows "\<exists>t'. avl_rotate_left p t = Inr t' \<and> rotated t c (Node R p (Node l a r)) (Node (Node R p l) a r) t'"
proof -
  from path have apart: "apart c (Node R p (Node l a r))" by (simp add: at_path_def)
  from rotate_left_ok [of t p c R l a r] path bal obtain t' where
    run: "avl_rotate_left p t = Inr t'" and cok: "cok (at_mem t') (at_root t') (Some a) c" and tok: "tok (at_mem t') (ctop c) (Node (Node R p l) a r)"
    and b: "bal t' p = bal t p - 1 - max (bal t a) 0" "bal t' a = bal t a - 1 + min (bal t' p) 0" "\<And>y. y \<notin> {p, a} \<Longrightarrow> bal t' y = bal t y"
    and keep: "keeps (insert p (insert a (set_tree l \<union> cnodes c))) t t'"
    by (auto simp: at_path_def)
  have ne: "p \<notin> set_tree l" "p \<notin> set_tree r" "p \<notin> set_tree R" "a \<notin> set_tree l" "a \<notin> set_tree r" "a \<notin> set_tree R" "p \<notin> cnodes c" "a \<notin> cnodes c"
    using apartD [OF apart] by auto
  have "bok (at_mem t') l" "bok (at_mem t') r" "bok (at_mem t') R"
    using bok ne by (auto intro: bok_avoid [OF _ b(3)])
  then have "bok (at_mem t') (Node (Node R p l) a r)"
    using b(1,2) bal by (auto simp: diff_def)
  moreover have "cbal (at_mem t') h c" if "cbal (at_mem t) h c" for h
    using that b(3) by (rule cbal_avoid [where S = "{p, a}"]) (use ne in auto)
  moreover have "apart c (Node (Node R p l) a r)" using apart by (rule apart_mono) simp
  moreover have "keeps (set_tree (Node R p (Node l a r)) \<union> cnodes c) t t'" using keep by (rule keeps_mono) auto
  ultimately show ?thesis using run cok tok by (auto simp: rotated_def at_path_def)
qed

lemma double_left:
  assumes path: "at_path t c (Node R p (Node (Node B1 y B2) a r))" and bal: "bal t p = 2" "bal t a = -1" "bal t y = diff B1 B2" "\<bar>diff B1 B2\<bar> \<le> 1"
      "diff (Node B1 y B2) r = -1" "diff R (Node (Node B1 y B2) a r) = 2"
    and bok: "bok (at_mem t) r" "bok (at_mem t) B1" "bok (at_mem t) B2" "bok (at_mem t) R"
  shows "\<exists>t1 t'. avl_rotate_right a t = Inr t1 \<and> grandparent a t1 = Inr p \<and> avl_rotate_left p t1 = Inr t' \<and>
    rotated t c (Node R p (Node (Node B1 y B2) a r)) (Node (Node R p B1) y (Node B2 a r)) t'"
proof -
  from path have apart: "apart c (Node R p (Node (Node B1 y B2) a r))" by (simp add: at_path_def)
  from path have "at_path t (RF R p # c) (Node (Node B1 y B2) a r)" by (simp only: at_path_RF)
  with rotate_right_ok [of t a "RF R p # c" B1 y B2 r] bal obtain t1 where
    run1: "avl_rotate_right a t = Inr t1" and cok1: "cok (at_mem t1) (at_root t1) (Some y) (RF R p # c)"
    and tok1: "tok (at_mem t1) (Some p) (Node B1 y (Node B2 a r))"
    and b1: "bal t1 a = bal t a + 1 - min (bal t y) 0" "bal t1 y = bal t y + 1 + max (bal t1 a) 0" "\<And>x. x \<notin> {a, y} \<Longrightarrow> bal t1 x = bal t x"
    and keep1: "keeps (insert a (insert y (set_tree B2 \<union> cnodes (RF R p # c)))) t t1"
    by (auto simp: at_path_def)
  have ne: "p \<notin> set_tree r" "p \<notin> set_tree B1" "p \<notin> set_tree B2" "p \<notin> set_tree R" "a \<notin> set_tree r" "a \<notin> set_tree B1" "a \<notin> set_tree B2" "a \<notin> set_tree R"
      "y \<notin> set_tree r" "y \<notin> set_tree B1" "y \<notin> set_tree B2" "y \<notin> set_tree R" "p \<notin> cnodes c" "a \<notin> cnodes c" "y \<notin> cnodes c" "p \<noteq> a" "p \<noteq> y" "a \<noteq> y"
    using apartD [OF apart] by auto
  have apart1: "apart c (Node R p (Node B1 y (Node B2 a r)))" using apart by (rule apart_mono) simp
  have p1: "bal t1 p = 2" using b1(3) [of p] ne bal(1) by simp
  from cok1 tok1 have path1: "cok (at_mem t1) (at_root t1) (Some p) c" "tok (at_mem t1) (ctop c) (Node R p (Node B1 y (Node B2 a r)))" by auto
  have small1: "\<bar>bal t1 p\<bar> \<le> 2" "\<bar>bal t1 y\<bar> \<le> 2" using p1 b1 bal by auto
  from rotate_left_ok [OF path1 apart1 small1] obtain t' where
    run2: "avl_rotate_left p t1 = Inr t'" and cok: "cok (at_mem t') (at_root t') (Some y) c" and tok: "tok (at_mem t') (ctop c) (Node (Node R p B1) y (Node B2 a r))"
    and b2: "bal t' p = bal t1 p - 1 - max (bal t1 y) 0" "bal t' y = bal t1 y - 1 + min (bal t' p) 0" "\<And>x. x \<notin> {p, y} \<Longrightarrow> bal t' x = bal t1 x"
    and keep2: "keeps (insert p (insert y (set_tree B1 \<union> cnodes c))) t1 t'"
    by blast
  have same: "bal t' x = bal t x" if "x \<notin> {p, a, y}" for x using that b1(3) b2(3) by simp
  have "bok (at_mem t') r" "bok (at_mem t') B1" "bok (at_mem t') B2" "bok (at_mem t') R"
    using bok ne by (auto intro: bok_avoid [OF _ same])
  moreover have "bal t' a = bal t1 a" using b2(3) [of a] ne by simp
  ultimately have "bok (at_mem t') (Node (Node R p B1) y (Node B2 a r))"
    using b1(1,2) b2(1,2) p1 bal by (auto simp: diff_def)
  moreover have "cbal (at_mem t') h c" if "cbal (at_mem t) h c" for h
    using that same by (rule cbal_avoid [where S = "{p, a, y}"]) (use ne in auto)
  moreover have "apart c (Node (Node R p B1) y (Node B2 a r))" using apart by (rule apart_mono) simp
  moreover have "keeps (set_tree (Node R p (Node (Node B1 y B2) a r)) \<union> cnodes c) t t'"
    by (rule keeps_trans [OF keeps_mono [OF keep1] keeps_mono [OF keep2]]) auto
  moreover have "grandparent a t1 = Inr p" using tok1 cok1 by (simp add: grandparent_def)
  ultimately show ?thesis using run1 run2 cok tok by (auto simp: rotated_def at_path_def)
qed

section \<open>Rebalancing after an insertion\<close>

lemma rotated_holds: "rotated t c s s' t' \<Longrightarrow> cbal (at_mem t) (height s') c \<Longrightarrow> holds_tree t' (plug c s') \<and> keeps (set_tree s \<union> cnodes c) t t'"
  by (auto simp: rotated_def holds_tree_at_path)

text \<open>What changing the balance of the node at the end of a path leaves alone.\<close>

lemma set_balance_frames:
  assumes "a \<notin> set_tree s" and "a \<notin> cnodes c"
  shows "bok (at_mem (set_balance a b t)) s \<longleftrightarrow> bok (at_mem t) s" "cbal (at_mem (set_balance a b t)) h c \<longleftrightarrow> cbal (at_mem t) h c"
  by (rule iffI; erule bok_avoid [where S = "{a}"]; use assms in auto)
     (rule iffI; erule cbal_avoid [where S = "{a}"]; use assms in auto)

lemma keeps_balance: "keeps S (set_balance a b t) t' \<Longrightarrow> a \<in> S \<Longrightarrow> keeps S t t'"
  by (auto simp: keeps_def)

text \<open>
  The subtree at the end of the path \<open>c\<close> has grown from height \<open>h\<close> to \<open>h + 1\<close>; the balances along the path are
  still those before.
\<close>

definition grown :: "'k avl_tree \<Rightarrow> frame list \<Rightarrow> addr tree \<Rightarrow> bool" where
  "grown t c s \<longleftrightarrow> at_path t c s \<and> bok (at_mem t) s \<and> (\<exists>l a r h. s = Node l a r \<and> height s = Suc h \<and> diff l r \<noteq> 0 \<and> cbal (at_mem t) h c)"

lemma post_insert_left:
  fixes t :: "'k avl_tree"
  assumes g: "grown t (LF p R # c) s"
    and IH: "\<And>t :: 'k avl_tree. grown t c (Node s p R) \<Longrightarrow> \<exists>t' s'. post_insert j p t = Inr t' \<and> holds_tree t' s' \<and> inorder s' = inorder (plug c (Node s p R)) \<and>
      keeps (set_tree (plug c (Node s p R))) t t'"
  shows "\<exists>t' s'. post_insert (Suc j) (value s) t = Inr t' \<and> holds_tree t' s' \<and> inorder s' = inorder (plug (LF p R # c) s) \<and>
    keeps (set_tree (plug (LF p R # c) s)) t t'"
proof -
  from g obtain l a r h where s: "s = Node l a r" "height s = Suc h" "diff l r \<noteq> 0" and cb: "cbal (at_mem t) h (LF p R # c)"
    and path: "at_path t (LF p R # c) s" and bs: "bok (at_mem t) s" unfolding grown_def by blast
  define u where "u = set_balance p (bal t p - 1) t"
  from path have "at_path t c (Node s p R)" by (simp add: at_path_LF)
  then have path1: "at_path u c (Node s p R)" unfolding u_def by (simp only: at_path_balance)
  then have "apart c (Node s p R)" by (simp add: at_path_def)
  from apartD [OF this] have ne: "p \<notin> set_tree s" "p \<notin> set_tree R" "p \<notin> cnodes c" by auto
  from cb have b: "bal t p = int (height R) - int h" "\<bar>int (height R) - int h\<bar> \<le> 1" and cb': "cbal (at_mem t) (Suc (max h (height R))) c" and bR: "bok (at_mem t) R" by auto
  note frames = set_balance_frames [where a = p and t = t and b = "bal t p - 1" and c = c, folded u_def]
  have bs1: "bok (at_mem u) s" and bR1: "bok (at_mem u) R" and cb1: "cbal (at_mem u) (Suc (max h (height R))) c"
    using bs bR cb' frames(1) [where s = s] frames(1) [where s = R] frames(2) [where s = Leaf] ne by auto
  have p1: "bal u p = int (height R) - int h - 1" using b by (simp add: u_def)
  have ptr: "prnt t a = Some p" "lft t p = Some a" using path s by (auto simp: at_path_def)
  have step: "post_insert (Suc j) a t = (if bal u p = 0 then Inr u else if bal u p = -1 then post_insert j p u
      else if bal t a = -1 then avl_rotate_right p u
      else bnd (avl_rotate_left a u) (\<lambda>t. bnd (grandparent a t) (\<lambda>g. avl_rotate_right g t)))"
    using ptr ne s by (simp add: Let_def u_def)
  let ?S = "set_tree (Node s p R) \<union> cnodes c"
  have a1: "bal u a = diff l r" "bal t a = diff l r" using bs s ne by (auto simp: u_def)
  have keep: "keeps ?S u t' \<Longrightarrow> keeps ?S t t'" for t' unfolding u_def by (erule keeps_balance) simp
  consider "height R = Suc h" | "height R = h" | "Suc (height R) = h" using b(2) by linarith
  then have "\<exists>t' s'. post_insert (Suc j) a t = Inr t' \<and> holds_tree t' (plug c s') \<and> inorder s' = inorder (Node s p R) \<and> keeps ?S t t' \<or>
      post_insert (Suc j) a t = post_insert j p u \<and> grown u c (Node s p R)"
  proof cases
    case 1
    then have "holds_tree u (plug c (Node s p R))"
      using path1 bs1 bR1 cb1 p1 s by (auto simp: holds_tree_at_path diff_def)
    moreover have "keeps ?S t u" by (rule keep) simp
    ultimately show ?thesis using 1 p1 step by (intro exI [of _ u] exI [of _ "Node s p R"]) simp
  next
    case 2
    then have "grown u c (Node s p R)"
      using path1 bs1 bR1 cb1 p1 s by (auto simp: grown_def diff_def)
    then show ?thesis using 2 p1 step by auto
  next
    case 3
    show ?thesis
    proof (cases "bal t a = -1")
      case True
      with bs s 3 have h: "height l = h" "height r = height R" "diff l r = -1" by (auto simp: diff_def)
      with 3 p1 have "bal u p = -2" "diff (Node l a r) R = -2" by (simp_all add: diff_def)
      with single_right [OF path1 [unfolded s(1)], of] a1 h bs1 bR1 s obtain t' where run: "avl_rotate_right p u = Inr t'"
        and rot: "rotated u c (Node s p R) (Node l a (Node r p R)) t'" by auto
      have "height (Node l a (Node r p R)) = Suc (max h (height R))" using h 3 by simp
      with rotated_holds [OF rot] cb1 have "holds_tree t' (plug c (Node l a (Node r p R)))" "keeps ?S u t'" by simp_all
      then show ?thesis using run step True p1 3 keep s by (intro exI [of _ t'] exI [of _ "Node l a (Node r p R)"]) auto
    next
      case False
      with bs s have d: "diff l r = 1" by auto
      with s 3 have h: "height r = h" "height l = height R" by (auto simp: diff_def)
      with 3 obtain B1 y B2 where r: "r = Node B1 y B2" by (cases r) auto
      have "bal u p = -2" "diff (Node l a r) R = -2" using 3 p1 h by (simp_all add: diff_def)
      with double_right [OF path1 [unfolded s(1) r], of] a1 d bs1 bR1 s r obtain t1 t' where
        run: "avl_rotate_left a u = Inr t1" "grandparent a t1 = Inr p" "avl_rotate_right p t1 = Inr t'"
        and rot: "rotated u c (Node s p R) (Node (Node l a B1) y (Node B2 p R)) t'" by auto
      have "height (Node (Node l a B1) y (Node B2 p R)) = Suc (max h (height R))"
        using h 3 r bs s by (auto simp: diff_def)
      with rotated_holds [OF rot] cb1 have "holds_tree t' (plug c (Node (Node l a B1) y (Node B2 p R)))" "keeps ?S u t'" by simp_all
      then show ?thesis using run step False p1 3 keep s r
        by (intro exI [of _ t'] exI [of _ "Node (Node l a B1) y (Node B2 p R)"]) auto
    qed
  qed
  then show ?thesis
  proof (elim exE disjE)
    fix t' s' assume "post_insert (Suc j) a t = Inr t' \<and> holds_tree t' (plug c s') \<and> inorder s' = inorder (Node s p R) \<and> keeps ?S t t'"
    then show ?thesis using s(1) by (intro exI [of _ t'] exI [of _ "plug c s'"]) (auto simp: Un_ac)
  next
    fix t' s' assume "post_insert (Suc j) a t = post_insert j p u \<and> grown u c (Node s p R)"
    with IH [of u] obtain t' s' where "post_insert (Suc j) a t = Inr t'" "holds_tree t' s'" "inorder s' = inorder (plug c (Node s p R))"
      "keeps (set_tree (plug c (Node s p R))) u t'" by auto
    then show ?thesis using s(1) keep [of t'] by (intro exI [of _ t'] exI [of _ s']) auto
  qed
qed

lemma post_insert_right:
  fixes t :: "'k avl_tree"
  assumes g: "grown t (RF R p # c) s"
    and IH: "\<And>t :: 'k avl_tree. grown t c (Node R p s) \<Longrightarrow> \<exists>t' s'. post_insert j p t = Inr t' \<and> holds_tree t' s' \<and> inorder s' = inorder (plug c (Node R p s)) \<and>
      keeps (set_tree (plug c (Node R p s))) t t'"
  shows "\<exists>t' s'. post_insert (Suc j) (value s) t = Inr t' \<and> holds_tree t' s' \<and> inorder s' = inorder (plug (RF R p # c) s) \<and>
    keeps (set_tree (plug (RF R p # c) s)) t t'"
proof -
  from g obtain l a r h where s: "s = Node l a r" "height s = Suc h" "diff l r \<noteq> 0" and cb: "cbal (at_mem t) h (RF R p # c)"
    and path: "at_path t (RF R p # c) s" and bs: "bok (at_mem t) s" unfolding grown_def by blast
  define u where "u = set_balance p (bal t p + 1) t"
  from path have "at_path t c (Node R p s)" by (simp add: at_path_RF)
  then have path1: "at_path u c (Node R p s)" unfolding u_def by (simp only: at_path_balance)
  then have ap: "apart c (Node R p s)" by (simp add: at_path_def)
  from apartD [OF this] have ne: "p \<notin> set_tree s" "p \<notin> set_tree R" "p \<notin> cnodes c" by auto
  from cb have b: "bal t p = int h - int (height R)" "\<bar>int h - int (height R)\<bar> \<le> 1" and cb': "cbal (at_mem t) (Suc (max (height R) h)) c" and bR: "bok (at_mem t) R" by auto
  note frames = set_balance_frames [where a = p and t = t and b = "bal t p + 1" and c = c, folded u_def]
  have bs1: "bok (at_mem u) s" and bR1: "bok (at_mem u) R" and cb1: "cbal (at_mem u) (Suc (max (height R) h)) c"
    using bs bR cb' frames(1) [where s = s] frames(1) [where s = R] frames(2) [where s = Leaf] ne by auto
  have p1: "bal u p = int h - int (height R) + 1" using b by (simp add: u_def)
  have ptr: "prnt t a = Some p" "rgt t p = Some a" "lft t p \<noteq> Some a" using path s root_of_in [of R] apartD [OF ap] by (auto simp: at_path_def)
  have step: "post_insert (Suc j) a t = (if bal u p = 0 then Inr u else if bal u p = 1 then post_insert j p u
      else if bal t a = 1 then avl_rotate_left p u
      else bnd (avl_rotate_right a u) (\<lambda>t. bnd (grandparent a t) (\<lambda>g. avl_rotate_left g t)))"
    using ptr ne s by (simp add: Let_def u_def)
  let ?S = "set_tree (Node R p s) \<union> cnodes c"
  have a1: "bal u a = diff l r" "bal t a = diff l r" using bs s ne by (auto simp: u_def)
  have keep: "keeps ?S u t' \<Longrightarrow> keeps ?S t t'" for t' unfolding u_def by (erule keeps_balance) simp
  consider "height R = Suc h" | "height R = h" | "Suc (height R) = h" using b(2) by linarith
  then have "\<exists>t' s'. post_insert (Suc j) a t = Inr t' \<and> holds_tree t' (plug c s') \<and> inorder s' = inorder (Node R p s) \<and> keeps ?S t t' \<or>
      post_insert (Suc j) a t = post_insert j p u \<and> grown u c (Node R p s)"
  proof cases
    case 1
    then have "holds_tree u (plug c (Node R p s))"
      using path1 bs1 bR1 cb1 p1 s by (auto simp: holds_tree_at_path diff_def)
    moreover have "keeps ?S t u" by (rule keep) simp
    ultimately show ?thesis using 1 p1 step by (intro exI [of _ u] exI [of _ "Node R p s"]) simp
  next
    case 2
    then have "grown u c (Node R p s)"
      using path1 bs1 bR1 cb1 p1 s by (auto simp: grown_def diff_def)
    then show ?thesis using 2 p1 step by auto
  next
    case 3
    show ?thesis
    proof (cases "bal t a = 1")
      case True
      with bs s 3 have h: "height r = h" "height l = height R" "diff l r = 1" by (auto simp: diff_def)
      with 3 p1 have "bal u p = 2" "diff R (Node l a r) = 2" by (simp_all add: diff_def)
      with single_left [OF path1 [unfolded s(1)], of] a1 h bs1 bR1 s obtain t' where run: "avl_rotate_left p u = Inr t'"
        and rot: "rotated u c (Node R p s) (Node (Node R p l) a r) t'" by auto
      have "height (Node (Node R p l) a r) = Suc (max (height R) h)" using h 3 by simp
      with rotated_holds [OF rot] cb1 have "holds_tree t' (plug c (Node (Node R p l) a r))" "keeps ?S u t'" by simp_all
      then show ?thesis using run step True p1 3 keep s by (intro exI [of _ t'] exI [of _ "Node (Node R p l) a r"]) auto
    next
      case False
      with bs s have d: "diff l r = -1" by auto
      with s 3 have h: "height l = h" "height r = height R" by (auto simp: diff_def)
      with 3 obtain B1 y B2 where r: "l = Node B1 y B2" by (cases l) auto
      have "bal u p = 2" "diff R (Node l a r) = 2" using 3 p1 h by (simp_all add: diff_def)
      with double_left [OF path1 [unfolded s(1) r], of] a1 d bs1 bR1 s r obtain t1 t' where
        run: "avl_rotate_right a u = Inr t1" "grandparent a t1 = Inr p" "avl_rotate_left p t1 = Inr t'"
        and rot: "rotated u c (Node R p s) (Node (Node R p B1) y (Node B2 a r)) t'" by auto
      have "height (Node (Node R p B1) y (Node B2 a r)) = Suc (max (height R) h)"
        using h 3 r bs s by (auto simp: diff_def)
      with rotated_holds [OF rot] cb1 have "holds_tree t' (plug c (Node (Node R p B1) y (Node B2 a r)))" "keeps ?S u t'" by simp_all
      then show ?thesis using run step False p1 3 keep s r
        by (intro exI [of _ t'] exI [of _ "Node (Node R p B1) y (Node B2 a r)"]) auto
    qed
  qed
  then show ?thesis
  proof (elim exE disjE)
    fix t' s' assume "post_insert (Suc j) a t = Inr t' \<and> holds_tree t' (plug c s') \<and> inorder s' = inorder (Node R p s) \<and> keeps ?S t t'"
    then show ?thesis using s(1) by (intro exI [of _ t'] exI [of _ "plug c s'"]) (auto simp: Un_ac)
  next
    fix t' s' assume "post_insert (Suc j) a t = post_insert j p u \<and> grown u c (Node R p s)"
    with IH [of u] obtain t' s' where "post_insert (Suc j) a t = Inr t'" "holds_tree t' s'" "inorder s' = inorder (plug c (Node R p s))"
      "keeps (set_tree (plug c (Node R p s))) u t'" by auto
    then show ?thesis using s(1) keep [of t'] by (intro exI [of _ t'] exI [of _ s']) auto
  qed
qed

lemma post_insert_ok:
  fixes t :: "'k avl_tree"
  assumes "length c < k" and "grown t c s"
  shows "\<exists>t' s'. post_insert k (value s) t = Inr t' \<and> holds_tree t' s' \<and> inorder s' = inorder (plug c s) \<and> keeps (set_tree (plug c s)) t t'"
  using assms
proof (induction c arbitrary: k s t)
  case Nil
  then obtain j where k: "k = Suc j" by (cases k) auto
  from Nil(2) have "holds_tree t s" "\<exists>a. s = Node (left s) a (right s) \<and> value s = a \<and> prnt t a = None"
    by (auto simp: grown_def at_path_def holds_tree_def apart_def)
  with k show ?case by auto
next
  case (Cons f c)
  from Cons.prems(1) obtain j where k: "k = Suc j" and j: "length c < j" by (cases k) auto
  show ?case
  proof (cases f)
    case (LF p R)
    from Cons.prems(2) have "grown t (LF p R # c) s" unfolding LF .
    from post_insert_left [OF this] Cons.IH [OF j, of _ "Node s p R"] show ?thesis unfolding LF k by simp
  next
    case (RF L p)
    from Cons.prems(2) have "grown t (RF L p # c) s" unfolding RF .
    from post_insert_right [OF this] Cons.IH [OF j, of _ "Node L p s"] show ?thesis unfolding RF k by simp
  qed
qed

end
