(* ===== verification/AvlSpec.thy ===== *)
theory AvlSpec
  imports AvlShape
begin

text \<open>
  What the AVL trees promise: \<open>avl_rep cmp t xs\<close> says that the tree \<open>t\<close> holds the elements \<open>xs\<close>, in the order
  of their keys; finding, inserting and removing are what \<open>find\<close>, \<open>tree_add\<close> and taking out of the list are on
  \<open>xs\<close>. The rest of the development uses these list operations for the trees of the reader and the writer.
\<close>

section \<open>The elements of a tree\<close>

text \<open>
  The list of the elements falls into groups with equal keys. The first of each group is a node of the tree,
  the others are followers.
\<close>

definition group_ok :: "('k \<Rightarrow> 'k \<Rightarrow> int) \<Rightarrow> 'k avl_tree \<Rightarrow> addr list \<Rightarrow> bool" where
  "group_ok cmp t g \<longleftrightarrow> g \<noteq> [] \<and> \<not> fol t (hd g) \<and> (\<forall>f \<in> set (tl g). fol t f) \<and> (\<forall>f \<in> set g. cmp (key_of t (hd g)) (key_of t f) = 0)"

definition groups_ok :: "('k \<Rightarrow> 'k \<Rightarrow> int) \<Rightarrow> 'k avl_tree \<Rightarrow> addr list list \<Rightarrow> bool" where
  "groups_ok cmp t gs \<longleftrightarrow> (\<forall>g \<in> set gs. group_ok cmp t g) \<and> sorted_wrt (\<lambda>a b. cmp (key_of t a) (key_of t b) < 0) (map hd gs)"

definition avl_rep :: "('k \<Rightarrow> 'k \<Rightarrow> int) \<Rightarrow> 'k avl_tree \<Rightarrow> addr list \<Rightarrow> bool" where
  "avl_rep cmp t xs \<longleftrightarrow> (\<exists>s gs. holds_tree t s \<and> inorder s = map hd gs \<and> groups_ok cmp t gs \<and> xs = concat gs) \<and>
     dlist (at_links t) (at_head t) xs \<and> at_count t = of_nat (length xs) \<and> (at_dups t \<or> (\<forall>y \<in> set xs. \<not> fol t y))"

lemma groups_ok_append: "groups_ok cmp t (gl @ gr) \<longleftrightarrow> groups_ok cmp t gl \<and> groups_ok cmp t gr \<and>
    (\<forall>g \<in> set gl. \<forall>h \<in> set gr. cmp (key_of t (hd g)) (key_of t (hd h)) < 0)"
  by (auto simp: groups_ok_def sorted_wrt_append)

lemma groups_ok_frame:
  assumes "groups_ok cmp t gs" and "\<And>y. y \<in> set (concat gs) \<Longrightarrow> key_of t' y = key_of t y \<and> fol t' y = fol t y"
  shows "groups_ok cmp t' gs"
proof -
  have hd: "key_of t' (hd g) = key_of t (hd g) \<and> fol t' (hd g) = fol t (hd g)" if "g \<in> set gs" for g
  proof -
    from that assms(1) have "hd g \<in> set g" by (simp add: groups_ok_def group_ok_def)
    with that assms(2) [of "hd g"] show ?thesis by auto
  qed
  have mem: "key_of t' f = key_of t f \<and> fol t' f = fol t f" if "g \<in> set gs" "f \<in> set g" for f g
    using that assms(2) [of f] by auto
  have tl: "f \<in> set (tl g) \<Longrightarrow> f \<in> set g" for f and g :: "addr list" by (cases g) auto
  have "group_ok cmp t' g" if "g \<in> set gs" for g
  proof -
    from that assms(1) have "group_ok cmp t g" by (simp add: groups_ok_def)
    with hd [OF that] mem [OF that] tl [of _ g] show ?thesis by (simp add: group_ok_def)
  qed
  moreover have "sorted_wrt (\<lambda>a b. cmp (key_of t' a) (key_of t' b) < 0) (map hd gs)"
    using assms(1) hd by (auto simp: groups_ok_def sorted_wrt_map elim!: sorted_wrt_mono_rel [rotated])
  ultimately show ?thesis by (simp add: groups_ok_def)
qed

lemma groups_ok_swap: "groups_ok cmp t (gl @ g # gr) \<Longrightarrow> group_ok cmp t g' \<Longrightarrow> hd g' = hd g \<Longrightarrow> groups_ok cmp t (gl @ g' # gr)"
  by (simp add: groups_ok_def)

lemma hd_in_concat: "groups_ok cmp t gs \<Longrightarrow> set (map hd gs) \<subseteq> set (concat gs)"
  by (auto simp: groups_ok_def group_ok_def)

section \<open>Where a search ends\<close>

text \<open>A path as the search for \<open>k\<close> takes it.\<close>

fun search_path :: "('k \<Rightarrow> 'k \<Rightarrow> int) \<Rightarrow> 'k \<Rightarrow> 'k avl_tree \<Rightarrow> frame list \<Rightarrow> bool" where
  "search_path cmp k t [] \<longleftrightarrow> True"
| "search_path cmp k t (LF q r # c) \<longleftrightarrow> cmp k (key_of t q) < 0 \<and> search_path cmp k t c"
| "search_path cmp k t (RF l q # c) \<longleftrightarrow> 0 < cmp k (key_of t q) \<and> search_path cmp k t c"

lemma find_rec_ends:
  assumes "tok (at_mem t) p s" and "s \<noteq> Leaf" and "height s < n" and "search_path cmp k t c"
  shows "\<exists>c' l a r. avl_find_rec n cmp (value s) k t = Inr (a, cmp k (key_of t a)) \<and> plug c' (Node l a r) = plug c s \<and>
    (cmp k (key_of t a) < 0 \<longrightarrow> l = Leaf) \<and> (0 < cmp k (key_of t a) \<longrightarrow> r = Leaf) \<and> search_path cmp k t c'"
  using assms
proof (induction s arbitrary: n p c)
  case (Node l a r)
  then obtain m where n: "n = Suc m" and m: "height l < m" "height r < m" by (cases n) auto
  from Node.prems(1) have ptr: "lft t a = root_of l" "rgt t a = root_of r" "tok (at_mem t) (Some a) l" "tok (at_mem t) (Some a) r" by auto
  consider "cmp k (key_of t a) < 0" "l \<noteq> Leaf" | "0 < cmp k (key_of t a)" "r \<noteq> Leaf"
    | "cmp k (key_of t a) < 0 \<longrightarrow> l = Leaf" "0 < cmp k (key_of t a) \<longrightarrow> r = Leaf" by blast
  then show ?case
  proof cases
    case 1
    then obtain b where "root_of l = Some b" "value l = b" by (cases l) auto
    with Node.IH(1) [of "Some a" m "LF a r # c"] 1 ptr m n Node.prems(4) show ?thesis by simp
  next
    case 2
    then obtain b where "root_of r = Some b" "value r = b" by (cases r) auto
    with Node.IH(2) [of "Some a" m "RF l a # c"] 2 ptr m n Node.prems(4) show ?thesis by simp
  next
    case 3
    then have "avl_find_rec n cmp (value (Node l a r)) k t = Inr (a, cmp k (key_of t a))" using n ptr by (auto simp: Let_def)
    with 3 Node.prems(4) show ?thesis by blast
  qed
qed simp

lemma map_hd_split: "map hd gs = xs @ a # ys \<Longrightarrow> \<exists>gl g gr. gs = gl @ g # gr \<and> map hd gl = xs \<and> hd g = a \<and> map hd gr = ys"
  by (auto simp: map_eq_append_conv map_eq_Cons_conv)

context key_order
begin

lemma search_path_sides:
  assumes "search_path cmp k t c" and "sorted_wrt (\<lambda>a b. cmp (key_of t a) (key_of t b) < 0) (inorder (plug c s))"
  shows "(\<forall>y \<in> set (lefts c). 0 < cmp k (key_of t y)) \<and> (\<forall>y \<in> set (rights c). cmp k (key_of t y) < 0)"
  using assms
proof (induction c arbitrary: s)
  case (Cons f c)
  show ?case
  proof (cases f)
    case (LF q r)
    with Cons.prems have q: "cmp k (key_of t q) < 0" and "\<forall>y \<in> set_tree r. cmp (key_of t q) (key_of t y) < 0"
      by (auto simp: sorted_wrt_append)
    then have "\<forall>y \<in> set_tree r. cmp k (key_of t y) < 0" using less_trans by blast
    with q Cons.IH [of "Node s q r"] Cons.prems LF show ?thesis by auto
  next
    case (RF l q)
    with Cons.prems have q: "0 < cmp k (key_of t q)" and "\<forall>y \<in> set_tree l. cmp (key_of t y) (key_of t q) < 0"
      by (auto simp: sorted_wrt_append)
    then have "\<forall>y \<in> set_tree l. 0 < cmp k (key_of t y)" using greater_trans flip by blast
    with q Cons.IH [of "Node l q s"] Cons.prems RF show ?thesis by auto
  qed
qed simp

text \<open>A search in a tree with elements ends at the group where \<open>k\<close> belongs.\<close>

lemma find_rec_group:
  assumes tree: "holds_tree t s" "s \<noteq> Leaf" and io: "inorder s = map hd gs" and gs: "groups_ok cmp t gs" and fuel: "length gs < n"
  shows "\<exists>c l r gl g gr. avl_find_rec n cmp (value s) k t = Inr (hd g, cmp k (key_of t (hd g))) \<and> s = plug c (Node l (hd g) r) \<and>
    gs = gl @ g # gr \<and> map hd gl = lefts c @ inorder l \<and> map hd gr = inorder r @ rights c \<and>
    (cmp k (key_of t (hd g)) < 0 \<longrightarrow> l = Leaf) \<and> (0 < cmp k (key_of t (hd g)) \<longrightarrow> r = Leaf) \<and>
    (\<forall>y \<in> set (concat gl). 0 < cmp k (key_of t y)) \<and> (\<forall>y \<in> set (concat gr). cmp k (key_of t y) < 0) \<and>
    (\<forall>y \<in> set g. sgn (cmp k (key_of t y)) = sgn (cmp k (key_of t (hd g))))"
proof -
  have "height s < n" using height_le_size_tree [of s] fuel arg_cong [OF io, of length] by simp
  with find_rec_ends [of t None s n cmp k "[]"] tree obtain c l a r where
    run: "avl_find_rec n cmp (value s) k t = Inr (a, cmp k (key_of t a))" and s: "s = plug c (Node l a r)"
    and ends: "cmp k (key_of t a) < 0 \<longrightarrow> l = Leaf" "0 < cmp k (key_of t a) \<longrightarrow> r = Leaf" and path: "search_path cmp k t c"
    by (auto simp: holds_tree_def)
  from io s have "map hd gs = (lefts c @ inorder l) @ a # (inorder r @ rights c)" by simp
  then obtain gl g gr where split: "gs = gl @ g # gr" "map hd gl = lefts c @ inorder l" "hd g = a" "map hd gr = inorder r @ rights c"
    using map_hd_split by metis
  have sorted: "sorted_wrt (\<lambda>a b. cmp (key_of t a) (key_of t b) < 0) (inorder s)" using gs io by (simp add: groups_ok_def)
  from search_path_sides [OF path] sorted s
  have sides: "\<And>y. y \<in> set (lefts c) \<Longrightarrow> 0 < cmp k (key_of t y)" "\<And>y. y \<in> set (rights c) \<Longrightarrow> cmp k (key_of t y) < 0" by blast+
  have near: "\<And>y. y \<in> set_tree l \<Longrightarrow> cmp (key_of t y) (key_of t a) < 0" "\<And>y. y \<in> set_tree r \<Longrightarrow> cmp (key_of t a) (key_of t y) < 0"
    using sorted s by (auto simp: sorted_wrt_append)
  have "0 < cmp k (key_of t y)" if "y \<in> set_tree l" for y
    using near(1) [OF that] that ends(1) greater_trans [of k "key_of t a" "key_of t y"] equal_greater [of k "key_of t a" "key_of t y"] flip
    by (cases "cmp k (key_of t a)" "0 :: int" rule: linorder_cases) auto
  moreover have "cmp k (key_of t y) < 0" if "y \<in> set_tree r" for y
    using near(2) [OF that] that ends(2) less_trans [of k "key_of t a" "key_of t y"] equal_less [of k "key_of t a" "key_of t y"]
    by (cases "cmp k (key_of t a)" "0 :: int" rule: linorder_cases) auto
  ultimately have heads: "\<And>y. y \<in> set (map hd gl) \<Longrightarrow> 0 < cmp k (key_of t y)" "\<And>y. y \<in> set (map hd gr) \<Longrightarrow> cmp k (key_of t y) < 0"
    unfolding split(2,4) using sides by auto
  have same: "sgn (cmp k (key_of t y)) = sgn (cmp k (key_of t (hd h)))" if "h \<in> set gs" "y \<in> set h" for h y
  proof -
    from that gs have "cmp (key_of t (hd h)) (key_of t y) = 0" by (auto simp: groups_ok_def group_ok_def)
    then show ?thesis
      using less_equal [of k "key_of t (hd h)" "key_of t y"] greater_equal [of k "key_of t (hd h)" "key_of t y"] equal_trans [of k "key_of t (hd h)" "key_of t y"]
      by (cases "cmp k (key_of t (hd h))" "0 :: int" rule: linorder_cases) auto
  qed
  have "0 < cmp k (key_of t y)" if "h \<in> set gl" "y \<in> set h" for h y
    using same [of h y] heads(1) [of "hd h"] that split(1) by (metis Un_iff image_eqI list.set_map set_append sgn_greater)
  moreover have "cmp k (key_of t y) < 0" if "h \<in> set gr" "y \<in> set h" for h y
    using same [of h y] heads(2) [of "hd h"] that split(1) by (metis Un_iff image_eqI list.set_intros(2) list.set_map set_append sgn_less)
  ultimately have "\<forall>y \<in> set (concat gl). 0 < cmp k (key_of t y)" "\<forall>y \<in> set (concat gr). cmp k (key_of t y) < 0" by auto
  note concats = this
  have same_g: "\<forall>y \<in> set g. sgn (cmp k (key_of t y)) = sgn (cmp k (key_of t (hd g)))" using same [of g] split(1) by simp
  note found = run [folded split(3)] s [folded split(3)] ends [folded split(3)]
  show ?thesis
    by (intro exI [of _ c] exI [of _ l] exI [of _ r] exI [of _ gl] exI [of _ g] exI [of _ gr] conjI) (rule found split concats same_g)+
qed

end

lemma length_groups: "groups_ok cmp t gs \<Longrightarrow> length gs \<le> length (concat gs)"
proof (induction gs)
  case (Cons g gs)
  then have "g \<noteq> []" "length gs \<le> length (concat gs)" by (auto simp: groups_ok_def group_ok_def)
  then show ?case by (cases g) auto
qed simp

lemma holds_tree_frame:
  assumes "holds_tree t s" and "\<And>y. y \<in> set_tree s \<Longrightarrow> node_links (at_mem t' y) = node_links (at_mem t y) \<and> bal t' y = bal t y" and "at_root t' = at_root t"
  shows "holds_tree t' s"
  using assms by (auto simp: holds_tree_def intro: tok_frame [of "at_mem t"] bok_frame [of "at_mem t"])

section \<open>Finding\<close>

lemma find_append: "find P (xs @ ys) = (case find P xs of None \<Rightarrow> find P ys | Some x \<Rightarrow> Some x)"
  by (induction xs) auto

lemma find_absent: "(\<And>x. x \<in> set xs \<Longrightarrow> \<not> P x) \<Longrightarrow> find P xs = None"
  by (simp add: find_None_iff)

context key_order
begin

lemma avl_find_ok:
  assumes "avl_rep cmp t xs" and "length xs < n"
  shows "avl_find n cmp k t = Inr (find (\<lambda>y. cmp k (key_of t y) = 0) xs)"
proof -
  from assms(1) obtain s gs where tree: "holds_tree t s" and io: "inorder s = map hd gs" and gs: "groups_ok cmp t gs" and xs: "xs = concat gs"
    by (auto simp: avl_rep_def)
  show ?thesis
  proof (cases s)
    case Leaf
    with tree io xs show ?thesis by (simp add: avl_find_def holds_tree_def)
  next
    case (Node l0 a0 r0)
    with find_rec_group [OF tree _ io gs, of n k] length_groups [OF gs] assms(2) xs obtain gl g gr where
      run: "avl_find_rec n cmp a0 k t = Inr (hd g, cmp k (key_of t (hd g)))" and split: "gs = gl @ g # gr"
      and sides: "\<forall>y \<in> set (concat gl). 0 < cmp k (key_of t y)" "\<forall>y \<in> set (concat gr). cmp k (key_of t y) < 0"
      and same: "\<forall>y \<in> set g. sgn (cmp k (key_of t y)) = sgn (cmp k (key_of t (hd g)))" by auto
    have "g \<noteq> []" using gs split by (simp add: groups_ok_def group_ok_def)
    then obtain g' where g: "g = hd g # g'" by (cases g) auto
    have "find (\<lambda>y. cmp k (key_of t y) = 0) (concat gl) = None" "find (\<lambda>y. cmp k (key_of t y) = 0) (concat gr) = None"
      using sides by (intro find_absent; force)+
    moreover have "find (\<lambda>y. cmp k (key_of t y) = 0) g = (if cmp k (key_of t (hd g)) = 0 then Some (hd g) else None)"
    proof (cases "cmp k (key_of t (hd g)) = 0")
      case True
      then show ?thesis by (subst g) simp
    next
      case False
      have "cmp k (key_of t y) \<noteq> 0" if "y \<in> set g" for y using same that False by (metis sgn_0_0)
      with False show ?thesis by (simp add: find_absent)
    qed
    moreover have "at_root t = Some a0" using tree Node by (simp add: holds_tree_def)
    ultimately show ?thesis using run xs split by (simp add: avl_find_def find_append)
  qed
qed

end

section \<open>The last element of a group\<close>

lemma find_last_ok:
  assumes "dlist (at_links t) (at_head t) (pre @ a # fs @ post)" and "\<forall>f \<in> set fs. fol t f" and "post = [] \<or> \<not> fol t (hd post)" and "length fs < n"
  shows "avl_find_last n a t = Inr (last (a # fs))"
  using assms
proof (induction fs arbitrary: pre a n)
  case Nil
  then obtain m where n: "n = Suc m" by (cases n) auto
  from Nil.prems(1) have d: "distinct (at_head t # pre @ a # post)" by (simp add: dlist_def)
  from dlist_nexts [of "at_links t" "at_head t" pre a post] Nil.prems(1) have nx: "le_next (at_links t a) = Some (hd (post @ [at_head t]))" by simp
  have "oonf_list_is_last (at_head t) a (at_links t) \<longleftrightarrow> post = []"
    using dlist_ends [OF Nil.prems(1)] d last_in_set [of post] by (auto simp: oonf_list_is_last_def)
  with nx n Nil.prems(3) show ?case by auto
next
  case (Cons f fs)
  then obtain m where n: "n = Suc m" and m: "length fs < m" by (cases n) auto
  from Cons.prems(1) have d: "distinct (at_head t # pre @ a # f # fs @ post)" by (simp add: dlist_def)
  from dlist_nexts [of "at_links t" "at_head t" pre a "f # fs @ post"] Cons.prems(1) have nx: "le_next (at_links t a) = Some f" by simp
  have "last (f # fs @ post) \<in> set (f # fs @ post)" by (rule last_in_set) simp
  with d have "last (f # fs @ post) \<noteq> a" by (auto simp del: last.simps)
  with dlist_ends [OF Cons.prems(1)] have "\<not> oonf_list_is_last (at_head t) a (at_links t)" by (simp add: oonf_list_is_last_def)
  with nx n Cons.IH [of "pre @ [a]" f m] Cons.prems m show ?case by simp
qed

section \<open>Hanging in a new node\<close>

lemma attach_left:
  assumes path: "at_path u c (Node Leaf a r)" and new: "new \<notin> set_tree (Node Leaf a r) \<union> cnodes c" "node_links (at_mem u new) = (Some a, None, None)" "bal u new = 0"
    and bok: "bok (at_mem u) r" and b: "\<bar>b\<bar> \<le> 1"
  defines "t \<equiv> set_left a (Some new) (set_balance a b u)"
  shows "at_path t c (Node (Node Leaf new Leaf) a r) \<and> bal t a = b \<and> bok (at_mem t) (Node Leaf new Leaf) \<and> bok (at_mem t) r \<and>
    (\<forall>h. cbal (at_mem u) h c \<longrightarrow> cbal (at_mem t) h c)"
proof -
  have ap: "apart c (Node Leaf a r)" using path by (simp add: at_path_def)
  with apartD [OF ap] have ne: "a \<notin> set_tree r" "a \<notin> cnodes c" "new \<noteq> a" "new \<notin> set_tree r" "new \<notin> cnodes c" using new by auto
  have links: "node_links (at_mem t y) = node_links (at_mem u y)" if "y \<noteq> a" for y using that by (simp add: t_def node_links_def)
  have "cok (at_mem u) (at_root u) (Some a) c" using path by (simp add: at_path_def)
  then have "cok (at_mem t) (at_root u) (Some a) c" by (rule cok_frame) (rule links, use ne(2) in blast)
  then have "cok (at_mem t) (at_root t) (Some a) c" by (simp add: t_def)
  moreover have "tok (at_mem u) (Some a) r" using path by (simp add: at_path_def)
  then have "tok (at_mem t) (Some a) r" by (rule tok_frame) (rule links, use ne(1) in blast)
  moreover have "prnt t a = ctop c" "lft t a = Some new" "rgt t a = root_of r" using path ne by (auto simp: at_path_def t_def)
  moreover have "prnt t new = Some a" "lft t new = None" "rgt t new = None" using links [OF ne(3)] new(2) by (auto simp: node_links_def)
  moreover have "apart c (Node (Node Leaf new Leaf) a r)" using ap ne new(1) by (auto simp: apart_def cnodes_def)
  ultimately have "at_path t c (Node (Node Leaf new Leaf) a r)" by (simp add: at_path_def)
  moreover have bal: "bal t y = bal u y" if "y \<noteq> a" for y using that by (simp add: t_def)
  moreover have "bal t a = b" using b by (simp add: t_def)
  moreover have "bok (at_mem t) r" using bok by (rule bok_frame) (rule bal, use ne(1) in blast)
  moreover have "cbal (at_mem t) h c" if "cbal (at_mem u) h c" for h using that by (rule cbal_frame) (rule bal, use ne(2) in blast)
  ultimately show ?thesis using new(3) ne(3) by (auto simp: diff_def)
qed

lemma attach_right:
  assumes path: "at_path u c (Node l a Leaf)" and new: "new \<notin> set_tree (Node l a Leaf) \<union> cnodes c" "node_links (at_mem u new) = (Some a, None, None)" "bal u new = 0"
    and bok: "bok (at_mem u) l" and b: "\<bar>b\<bar> \<le> 1"
  defines "t \<equiv> set_right a (Some new) (set_balance a b u)"
  shows "at_path t c (Node l a (Node Leaf new Leaf)) \<and> bal t a = b \<and> bok (at_mem t) (Node Leaf new Leaf) \<and> bok (at_mem t) l \<and>
    (\<forall>h. cbal (at_mem u) h c \<longrightarrow> cbal (at_mem t) h c)"
proof -
  have ap: "apart c (Node l a Leaf)" using path by (simp add: at_path_def)
  with apartD [OF ap] have ne: "a \<notin> set_tree l" "a \<notin> cnodes c" "new \<noteq> a" "new \<notin> set_tree l" "new \<notin> cnodes c" using new by auto
  have links: "node_links (at_mem t y) = node_links (at_mem u y)" if "y \<noteq> a" for y using that by (simp add: t_def node_links_def)
  have "cok (at_mem u) (at_root u) (Some a) c" using path by (simp add: at_path_def)
  then have "cok (at_mem t) (at_root u) (Some a) c" by (rule cok_frame) (rule links, use ne(2) in blast)
  then have "cok (at_mem t) (at_root t) (Some a) c" by (simp add: t_def)
  moreover have "tok (at_mem u) (Some a) l" using path by (simp add: at_path_def)
  then have "tok (at_mem t) (Some a) l" by (rule tok_frame) (rule links, use ne(1) in blast)
  moreover have "prnt t a = ctop c" "rgt t a = Some new" "lft t a = root_of l" using path ne by (auto simp: at_path_def t_def)
  moreover have "prnt t new = Some a" "lft t new = None" "rgt t new = None" using links [OF ne(3)] new(2) by (auto simp: node_links_def)
  moreover have "apart c (Node l a (Node Leaf new Leaf))" using ap ne new(1) by (auto simp: apart_def cnodes_def)
  ultimately have "at_path t c (Node l a (Node Leaf new Leaf))" by (simp add: at_path_def)
  moreover have bal: "bal t y = bal u y" if "y \<noteq> a" for y using that by (simp add: t_def)
  moreover have "bal t a = b" using b by (simp add: t_def)
  moreover have "bok (at_mem t) l" using bok by (rule bok_frame) (rule bal, use ne(1) in blast)
  moreover have "cbal (at_mem t) h c" if "cbal (at_mem u) h c" for h using that by (rule cbal_frame) (rule bal, use ne(2) in blast)
  ultimately show ?thesis using new(3) ne(3) by (auto simp: diff_def)
qed

lemma insert_left:
  assumes path: "at_path u c (Node Leaf a r)" and bok: "bok (at_mem u) (Node Leaf a r)" and cb: "cbal (at_mem u) (height (Node Leaf a r)) c"
    and new: "new \<notin> set_tree (Node Leaf a r) \<union> cnodes c" "node_links (at_mem u new) = (Some a, None, None)" "bal u new = 0" and k: "length c < k"
  shows "\<exists>t' s'. (if bal u a = 1 then Inr (set_left a (Some new) (set_balance a 0 u)) else post_insert k a (set_left a (Some new) (set_balance a (-1) u))) = Inr t' \<and>
    holds_tree t' s' \<and> inorder s' = lefts c @ new # a # inorder r @ rights c \<and> keeps (insert new (set_tree (plug c (Node Leaf a r)))) u t'"
proof (cases "bal u a = 1")
  case True
  let ?t = "set_left a (Some new) (set_balance a 0 u)" and ?s = "Node (Node Leaf new Leaf) a r"
  from bok True have r: "height r = 1" "bok (at_mem u) r" by (auto simp: diff_def)
  have "at_path ?t c ?s \<and> bal ?t a = 0 \<and> bok (at_mem ?t) (Node Leaf new Leaf) \<and> bok (at_mem ?t) r \<and> (\<forall>h. cbal (at_mem u) h c \<longrightarrow> cbal (at_mem ?t) h c)"
    by (rule attach_left [OF path new r(2)]) simp
  then have "holds_tree ?t (plug c ?s)" using cb r(1) by (auto simp: holds_tree_at_path diff_def)
  moreover have "keeps (insert new (set_tree (plug c (Node Leaf a r)))) u ?t" by (intro keeps_upd keeps_refl) auto
  ultimately show ?thesis using True by (intro exI [of _ ?t] exI [of _ "plug c ?s"]) simp
next
  case False
  let ?t = "set_left a (Some new) (set_balance a (-1) u)" and ?s = "Node (Node Leaf new Leaf) a r"
  from bok False have r: "r = Leaf" by (cases r) (auto simp: diff_def)
  have at: "at_path ?t c ?s \<and> bal ?t a = -1 \<and> bok (at_mem ?t) (Node Leaf new Leaf) \<and> bok (at_mem ?t) r \<and> (\<forall>h. cbal (at_mem u) h c \<longrightarrow> cbal (at_mem ?t) h c)"
    by (rule attach_left [OF path new]) (simp_all add: r)
  then have "grown ?t c ?s" using cb r by (auto simp: grown_def diff_def)
  from post_insert_ok [OF k this] obtain t' s' where t': "post_insert k a ?t = Inr t'" "holds_tree t' s'" "inorder s' = inorder (plug c ?s)"
    "keeps (set_tree (plug c ?s)) ?t t'" by auto
  have "keeps (insert new (set_tree (plug c (Node Leaf a r)))) u ?t" by (intro keeps_upd keeps_refl) auto
  moreover have "set_tree (plug c ?s) = insert new (set_tree (plug c (Node Leaf a r)))" by auto
  ultimately have "keeps (insert new (set_tree (plug c (Node Leaf a r)))) u t'" using t'(4) keeps_trans by metis
  with t' False show ?thesis by auto
qed

lemma insert_right:
  assumes path: "at_path u c (Node l a Leaf)" and bok: "bok (at_mem u) (Node l a Leaf)" and cb: "cbal (at_mem u) (height (Node l a Leaf)) c"
    and new: "new \<notin> set_tree (Node l a Leaf) \<union> cnodes c" "node_links (at_mem u new) = (Some a, None, None)" "bal u new = 0" and k: "length c < k"
  shows "\<exists>t' s'. (if bal u a = -1 then Inr (set_right a (Some new) (set_balance a 0 u)) else post_insert k a (set_right a (Some new) (set_balance a 1 u))) = Inr t' \<and>
    holds_tree t' s' \<and> inorder s' = lefts c @ inorder l @ a # new # rights c \<and> keeps (insert new (set_tree (plug c (Node l a Leaf)))) u t'"
proof (cases "bal u a = -1")
  case True
  let ?t = "set_right a (Some new) (set_balance a 0 u)" and ?s = "Node l a (Node Leaf new Leaf)"
  from bok True have l: "height l = 1" "bok (at_mem u) l" by (auto simp: diff_def)
  have "at_path ?t c ?s \<and> bal ?t a = 0 \<and> bok (at_mem ?t) (Node Leaf new Leaf) \<and> bok (at_mem ?t) l \<and> (\<forall>h. cbal (at_mem u) h c \<longrightarrow> cbal (at_mem ?t) h c)"
    by (rule attach_right [OF path new l(2)]) simp
  then have "holds_tree ?t (plug c ?s)" using cb l(1) by (auto simp: holds_tree_at_path diff_def)
  moreover have "keeps (insert new (set_tree (plug c (Node l a Leaf)))) u ?t" by (intro keeps_upd keeps_refl) auto
  ultimately show ?thesis using True by (intro exI [of _ ?t] exI [of _ "plug c ?s"]) simp
next
  case False
  let ?t = "set_right a (Some new) (set_balance a 1 u)" and ?s = "Node l a (Node Leaf new Leaf)"
  from bok False have l: "l = Leaf" by (cases l) (auto simp: diff_def)
  have at: "at_path ?t c ?s \<and> bal ?t a = 1 \<and> bok (at_mem ?t) (Node Leaf new Leaf) \<and> bok (at_mem ?t) l \<and> (\<forall>h. cbal (at_mem u) h c \<longrightarrow> cbal (at_mem ?t) h c)"
    by (rule attach_right [OF path new]) (simp_all add: l)
  then have "grown ?t c ?s" using cb l by (auto simp: grown_def diff_def)
  from post_insert_ok [OF k this] obtain t' s' where t': "post_insert k a ?t = Inr t'" "holds_tree t' s'" "inorder s' = inorder (plug c ?s)"
    "keeps (set_tree (plug c ?s)) ?t t'" by auto
  have "keeps (insert new (set_tree (plug c (Node l a Leaf)))) u ?t" by (intro keeps_upd keeps_refl) auto
  moreover have "set_tree (plug c ?s) = insert new (set_tree (plug c (Node l a Leaf)))" by auto
  ultimately have "keeps (insert new (set_tree (plug c (Node l a Leaf)))) u t'" using t'(4) keeps_trans by metis
  with t' False show ?thesis by auto
qed

section \<open>Insertion\<close>

lemma tree_add_between:
  "(\<forall>y \<in> set xs. 0 < c y) \<Longrightarrow> (\<forall>y \<in> set ys. c y < 0) \<Longrightarrow> tree_add c x (xs @ ys) = xs @ x # ys"
  by (induction xs) (auto, cases ys, auto)

lemma tree_add_second:
  "(\<forall>y \<in> set xs. 0 < c y) \<Longrightarrow> c a = 0 \<Longrightarrow> tree_add c x (xs @ a # ys) = xs @ a # x # ys"
  by (induction xs) auto

lemma length_path: "length c \<le> length (lefts c @ rights c)"
  by (induction c rule: lefts.induct) auto

text \<open>Fields of the tree that the order of its elements depends on.\<close>

lemma rep_new_group:
  assumes tree: "holds_tree t' s'" "inorder s' = map hd gl @ new # map hd gr" and gs: "groups_ok cmp t (gl @ gr)"
    and same: "\<And>y. y \<in> set (concat (gl @ gr)) \<Longrightarrow> key_of t' y = key_of t y \<and> fol t' y = fol t y" and new: "\<not> fol t' new" "cmp (key_of t' new) (key_of t' new) = 0"
    and sides: "\<And>g. g \<in> set gl \<Longrightarrow> cmp (key_of t' (hd g)) (key_of t' new) < 0" "\<And>g. g \<in> set gr \<Longrightarrow> cmp (key_of t' new) (key_of t' (hd g)) < 0"
    and l: "dlist (at_links t') (at_head t') (concat gl @ new # concat gr)" and n: "at_count t' = of_nat (Suc (length (concat (gl @ gr))))"
    and nf: "at_dups t' \<or> (\<forall>y \<in> set (concat (gl @ gr)). \<not> fol t y)"
  shows "avl_rep cmp t' (concat gl @ new # concat gr)"
proof -
  have "groups_ok cmp t' (gl @ gr)" by (rule groups_ok_frame [OF gs same])
  then have "groups_ok cmp t' (gl @ [new] # gr)"
    using new sides by (auto simp: groups_ok_append) (auto simp: groups_ok_def group_ok_def)
  moreover have "at_dups t' \<or> (\<forall>y \<in> set (concat gl @ new # concat gr). \<not> fol t' y)" using nf same new(1) by auto
  ultimately show ?thesis using tree l n
    unfolding avl_rep_def by (intro conjI exI [of _ s'] exI [of _ "gl @ [new] # gr"]) simp_all
qed

lemma keeps_other: "keeps S t t' \<Longrightarrow> y \<notin> S \<Longrightarrow> at_mem t' y = at_mem t y"
  by (simp add: keeps_def)

lemma keepsD: "keeps S t t' \<Longrightarrow> at_links t' = at_links t \<and> at_head t' = at_head t \<and> at_count t' = at_count t \<and> at_dups t' = at_dups t \<and>
    (\<forall>y. key_of t' y = key_of t y \<and> fol t' y = fol t y)"
  by (simp add: keeps_def)

text \<open>The tree and the new node once the new node's fields are initialised and its parent is set.\<close>

lemma parent_set:
  assumes "holds_tree t (plug c s)" and "s = Node l a r" and "new \<notin> set_tree (plug c s)" and "node_links (at_mem t new) = (None, None, None)" and "bal t new = 0"
    and "at_mem u = at_mem (set_parent new (Some a) t)" and "at_root u = at_root t"
  shows "at_path u c s \<and> bok (at_mem u) s \<and> cbal (at_mem u) (height s) c \<and> node_links (at_mem u new) = (Some a, None, None) \<and> bal u new = 0"
proof -
  have "holds_tree u (plug c s)" using assms(1) by (rule holds_tree_frame) (use assms(3,6,7) in \<open>auto simp: node_links_def\<close>)
  then show ?thesis using assms(4-6) by (auto simp: holds_tree_at_path node_links_def)
qed

context key_order
begin

lemma insert_before_group:
  assumes tree: "holds_tree t (plug c (Node Leaf a r))" and gs: "groups_ok cmp t (gl @ g # gr)" and g: "hd g = a"
    and io: "map hd gl = lefts c" "map hd gr = inorder r @ rights c" and l: "dlist (at_links t) (at_head t) (concat (gl @ g # gr))"
    and n: "at_count t = of_nat (length (concat (gl @ g # gr)))"
    and nf: "at_dups t \<or> (\<forall>y \<in> set (concat (gl @ g # gr)). \<not> fol t y)"
    and new: "new \<notin> insert (at_head t) (set (concat (gl @ g # gr)))" "node_links (at_mem t new) = (None, None, None)" "bal t new = 0" "\<not> fol t new"
    and below: "\<forall>y \<in> set (concat gl). 0 < cmp (key_of t new) (key_of t y)" "\<forall>y \<in> set (concat (g # gr)). cmp (key_of t new) (key_of t y) < 0" and k: "length (concat (gl @ g # gr)) < k"
  defines "u \<equiv> set_parent new (Some a) t"
  shows "\<exists>v t'. avl_insert_before a new u = Inr v \<and> bal v a = bal t a \<and>
    (if bal v a = 1 then Inr (set_left a (Some new) (set_balance a 0 v)) else post_insert k a (set_left a (Some new) (set_balance a (-1) v))) = Inr t' \<and>
    avl_rep cmp t' (tree_add (\<lambda>y. cmp (key_of t new) (key_of t y)) new (concat (gl @ g # gr))) \<and>
    at_dups t' = at_dups t \<and> at_head t' = at_head t \<and> (\<forall>y. key_of t' y = key_of t y)"
proof -
  from gs have "g \<noteq> []" by (simp add: groups_ok_def group_ok_def)
  with g have ga: "g = a # tl g" by (cases g) auto
  then have l': "dlist (at_links t) (at_head t) (concat gl @ a # (tl g @ concat gr))" using l by (metis concat.simps(2) concat_append append_Cons)
  have in_xs: "set_tree (plug c (Node Leaf a r)) \<subseteq> set (concat (gl @ g # gr))"
    using hd_in_concat [OF gs] io g by (auto simp: cnodes_def)
  have ne: "new \<noteq> a" "new \<notin> set_tree (plug c (Node Leaf a r))" using new(1) in_xs by auto
  from add_before_dlist [OF l', of new] new(1) ga obtain ls where
    ls: "oonf_list_add_before a new (at_links t) = Inr ls" "dlist ls (at_head t) (concat gl @ new # concat (g # gr))"
    by (metis append_Cons concat.simps(2) concat_append list.simps(15))
  define v where "v = u\<lparr>at_links := ls, at_count := at_count t + 1\<rparr>"
  have run: "avl_insert_before a new u = Inr v" using ls(1) by (simp add: avl_insert_before_def v_def u_def)
  have v: "at_mem v = at_mem (set_parent new (Some a) t)" "at_root v = at_root t" by (simp_all add: v_def u_def)
  from parent_set [OF tree refl ne(2) new(2,3) v]
  have path: "at_path v c (Node Leaf a r)" "bok (at_mem v) (Node Leaf a r)" "cbal (at_mem v) (height (Node Leaf a r)) c"
    and nv: "node_links (at_mem v new) = (Some a, None, None)" "bal v new = 0" by auto
  have "length c \<le> length (concat (gl @ g # gr))"
    using length_path [of c] length_groups [OF gs] arg_cong [OF io(1), of length] arg_cong [OF io(2), of length] by simp
  with k have k': "length c < k" by simp
  have "new \<notin> set_tree (Node Leaf a r) \<union> cnodes c" using ne(2) by simp
  from insert_left [OF path this nv k'] obtain t' s' where
    t': "(if bal v a = 1 then Inr (set_left a (Some new) (set_balance a 0 v)) else post_insert k a (set_left a (Some new) (set_balance a (-1) v))) = Inr t'"
    and s': "holds_tree t' s'" "inorder s' = lefts c @ new # a # inorder r @ rights c" and keep: "keeps (insert new (set_tree (plug c (Node Leaf a r)))) v t'" by blast
  note kp = keepsD [OF keep]
  have same: "key_of t' y = key_of t y \<and> (y \<noteq> new \<longrightarrow> fol t' y = fol t y)" "\<not> fol t' new" for y using kp new(4) by (auto simp: v_def u_def)
  have heads: "hd h \<in> set h" if "h \<in> set (gl @ g # gr)" for h using gs that by (auto simp: groups_ok_def group_ok_def)
  have "avl_rep cmp t' (concat gl @ new # concat (g # gr))"
  proof (rule rep_new_group [OF s'(1) _ gs])
    show "inorder s' = map hd gl @ new # map hd (g # gr)" using s'(2) io g by simp
    show "key_of t' y = key_of t y \<and> fol t' y = fol t y" if "y \<in> set (concat (gl @ g # gr))" for y using same(1) [of y] that new(1) by auto
    show "cmp (key_of t' (hd h)) (key_of t' new) < 0" if "h \<in> set gl" for h using below(1) heads [of h] that same by (auto simp: flip)
    show "cmp (key_of t' new) (key_of t' (hd h)) < 0" if "h \<in> set (g # gr)" for h using below(2) heads [of h] that same by auto
    show "dlist (at_links t') (at_head t') (concat gl @ new # concat (g # gr))" using kp ls(2) by (simp add: v_def u_def)
    show "at_count t' = of_nat (Suc (length (concat (gl @ g # gr))))" using kp n by (simp add: v_def u_def)
    show "at_dups t' \<or> (\<forall>y \<in> set (concat (gl @ g # gr)). \<not> fol t y)" using nf kp by (simp add: v_def u_def)
  qed (use same in auto)
  moreover have "tree_add (\<lambda>y. cmp (key_of t new) (key_of t y)) new (concat (gl @ g # gr)) = concat gl @ new # concat (g # gr)"
    using tree_add_between [of "concat gl" "\<lambda>y. cmp (key_of t new) (key_of t y)" "concat (g # gr)" new] below by simp
  ultimately have rep: "avl_rep cmp t' (tree_add (\<lambda>y. cmp (key_of t new) (key_of t y)) new (concat (gl @ g # gr)))" by simp
  have fields: "bal v a = bal t a" "at_dups t' = at_dups t" "at_head t' = at_head t" "\<forall>y. key_of t' y = key_of t y"
    using kp ne(1) by (simp_all add: v_def u_def)
  show ?thesis by (intro exI [of _ v] exI [of _ t'] conjI) (rule run t' rep fields)+
qed

lemma insert_after_group:
  assumes tree: "holds_tree t (plug c (Node l a Leaf))" and gs: "groups_ok cmp t (gl @ g # gr)" and g: "hd g = a"
    and io: "map hd gl = lefts c @ inorder l" "map hd gr = rights c" and dl: "dlist (at_links t) (at_head t) (concat (gl @ g # gr))"
    and n: "at_count t = of_nat (length (concat (gl @ g # gr)))"
    and nf: "at_dups t \<or> (\<forall>y \<in> set (concat (gl @ g # gr)). \<not> fol t y)"
    and new: "new \<notin> insert (at_head t) (set (concat (gl @ g # gr)))" "node_links (at_mem t new) = (None, None, None)" "bal t new = 0" "\<not> fol t new"
    and below: "\<forall>y \<in> set (concat (gl @ [g])). 0 < cmp (key_of t new) (key_of t y)" "\<forall>y \<in> set (concat gr). cmp (key_of t new) (key_of t y) < 0" and k: "length (concat (gl @ g # gr)) < k"
  defines "u \<equiv> set_parent new (Some a) t"
  shows "\<exists>p v t'. avl_find_last k a u = Inr p \<and> avl_insert_after p new u = Inr v \<and> bal v a = bal t a \<and>
    (if bal v a = -1 then Inr (set_right a (Some new) (set_balance a 0 v)) else post_insert k a (set_right a (Some new) (set_balance a 1 v))) = Inr t' \<and>
    avl_rep cmp t' (tree_add (\<lambda>y. cmp (key_of t new) (key_of t y)) new (concat (gl @ g # gr))) \<and>
    at_dups t' = at_dups t \<and> at_head t' = at_head t \<and> (\<forall>y. key_of t' y = key_of t y)"
proof -
  from gs have ne_g: "g \<noteq> []" by (simp add: groups_ok_def group_ok_def)
  with g have ga: "g = a # tl g" by (cases g) auto
  have in_xs: "set_tree (plug c (Node l a Leaf)) \<subseteq> set (concat (gl @ g # gr))"
    using hd_in_concat [OF gs] io g by (auto simp: cnodes_def)
  have ne: "new \<noteq> a" "new \<notin> set_tree (plug c (Node l a Leaf))" using new(1) in_xs by auto
  have fol_u: "fol u y = fol t y" for y by (simp add: u_def)
  have "concat gr = [] \<or> \<not> fol u (hd (concat gr))"
    using gs unfolding fol_u by (cases gr) (auto simp: groups_ok_def group_ok_def hd_append)
  moreover have "\<forall>f \<in> set (tl g). fol u f" using gs unfolding fol_u by (simp add: groups_ok_def group_ok_def)
  moreover have "dlist (at_links u) (at_head u) (concat gl @ a # tl g @ concat gr)"
    using dl ga by (simp add: u_def) (metis append_Cons)
  moreover have "length (tl g) < k" using k by (simp add: less_imp_diff_less)
  ultimately have find: "avl_find_last k a u = Inr (last g)" using find_last_ok [of u "concat gl" a "tl g" "concat gr" k] ga by metis
  have l': "dlist (at_links t) (at_head t) ((concat gl @ butlast g) @ last g # concat gr)"
    using dl append_butlast_last_id [OF ne_g] by (metis append.assoc append_Cons append_Nil concat.simps(2) concat_append)
  have lg: "new \<noteq> last g" using new(1) last_in_set [OF ne_g] by auto
  from add_after_dlist [OF l', of new] new(1) ne_g obtain ls where
    ls: "oonf_list_add_after (last g) new (at_links t) = Inr ls" "dlist ls (at_head t) ((concat gl @ butlast g) @ last g # new # concat gr)"
    using in_set_butlastD [of new g] lg by auto
  then have ls2: "dlist ls (at_head t) (concat (gl @ [g]) @ new # concat gr)" using append_butlast_last_id [OF ne_g] by simp (metis append.assoc append_Cons append_Nil)
  define v where "v = u\<lparr>at_links := ls, at_count := at_count t + 1\<rparr>"
  have run: "avl_insert_after (last g) new u = Inr v" using ls(1) by (simp add: avl_insert_after_def v_def u_def)
  have v: "at_mem v = at_mem (set_parent new (Some a) t)" "at_root v = at_root t" by (simp_all add: v_def u_def)
  from parent_set [OF tree refl ne(2) new(2,3) v]
  have path: "at_path v c (Node l a Leaf)" "bok (at_mem v) (Node l a Leaf)" "cbal (at_mem v) (height (Node l a Leaf)) c"
    and nv: "node_links (at_mem v new) = (Some a, None, None)" "bal v new = 0" by auto
  have "length c \<le> length (concat (gl @ g # gr))"
    using length_path [of c] length_groups [OF gs] arg_cong [OF io(1), of length] arg_cong [OF io(2), of length] by simp
  with k have k': "length c < k" by simp
  have "new \<notin> set_tree (Node l a Leaf) \<union> cnodes c" using ne(2) by simp
  from insert_right [OF path this nv k'] obtain t' s' where
    t': "(if bal v a = -1 then Inr (set_right a (Some new) (set_balance a 0 v)) else post_insert k a (set_right a (Some new) (set_balance a 1 v))) = Inr t'"
    and s': "holds_tree t' s'" "inorder s' = lefts c @ inorder l @ a # new # rights c" and keep: "keeps (insert new (set_tree (plug c (Node l a Leaf)))) v t'" by blast
  note kp = keepsD [OF keep]
  have same: "key_of t' y = key_of t y \<and> (y \<noteq> new \<longrightarrow> fol t' y = fol t y)" "\<not> fol t' new" for y using kp new(4) by (auto simp: v_def u_def)
  have gs': "groups_ok cmp t ((gl @ [g]) @ gr)" using gs by simp
  have heads: "hd h \<in> set h" if "h \<in> set (gl @ g # gr)" for h using gs that by (auto simp: groups_ok_def group_ok_def)
  have "avl_rep cmp t' (concat (gl @ [g]) @ new # concat gr)"
  proof (rule rep_new_group [OF s'(1) _ gs'])
    show "inorder s' = map hd (gl @ [g]) @ new # map hd gr" using s'(2) io g by simp
    show "key_of t' y = key_of t y \<and> fol t' y = fol t y" if "y \<in> set (concat ((gl @ [g]) @ gr))" for y using same(1) [of y] that new(1) by auto
    show "cmp (key_of t' (hd h)) (key_of t' new) < 0" if "h \<in> set (gl @ [g])" for h
    proof -
      from that heads [of h] below(1) have "0 < cmp (key_of t new) (key_of t (hd h))" by auto
      then show ?thesis using same by (simp add: flip)
    qed
    show "cmp (key_of t' new) (key_of t' (hd h)) < 0" if "h \<in> set gr" for h using below(2) heads [of h] that same by auto
    show "dlist (at_links t') (at_head t') (concat (gl @ [g]) @ new # concat gr)" using kp ls2 by (simp add: v_def u_def)
    show "at_count t' = of_nat (Suc (length (concat ((gl @ [g]) @ gr))))" using kp n by (simp add: v_def u_def)
    show "at_dups t' \<or> (\<forall>y \<in> set (concat ((gl @ [g]) @ gr)). \<not> fol t y)" using nf kp by (simp add: v_def u_def)
  qed (use same in auto)
  moreover have "tree_add (\<lambda>y. cmp (key_of t new) (key_of t y)) new (concat (gl @ g # gr)) = concat (gl @ [g]) @ new # concat gr"
    using tree_add_between [of "concat (gl @ [g])" "\<lambda>y. cmp (key_of t new) (key_of t y)" "concat gr" new] below by simp
  ultimately have rep: "avl_rep cmp t' (tree_add (\<lambda>y. cmp (key_of t new) (key_of t y)) new (concat (gl @ g # gr)))" by simp
  have fields: "bal v a = bal t a" "at_dups t' = at_dups t" "at_head t' = at_head t" "\<forall>y. key_of t' y = key_of t y"
    using kp ne(1) by (simp_all add: v_def u_def)
  show ?thesis by (intro exI [of _ "last g"] exI [of _ v] exI [of _ t'] conjI) (rule find run t' rep fields)+
qed

lemma insert_follower:
  assumes tree: "holds_tree t s" and gs: "groups_ok cmp t (gl @ g # gr)" and io: "inorder s = map hd (gl @ g # gr)"
    and dl: "dlist (at_links t) (at_head t) (concat (gl @ g # gr))" and n: "at_count t = of_nat (length (concat (gl @ g # gr)))"
    and new: "new \<notin> insert (at_head t) (set (concat (gl @ g # gr)))" and eq: "cmp (key_of t new) (key_of t (hd g)) = 0" and dups: "at_dups t"
    and below: "\<forall>y \<in> set (concat gl). 0 < cmp (key_of t new) (key_of t y)"
  shows "\<exists>t'. avl_insert_after (hd g) new (set_follower new True t) = Inr t' \<and>
    avl_rep cmp t' (tree_add (\<lambda>y. cmp (key_of t new) (key_of t y)) new (concat (gl @ g # gr))) \<and>
    at_dups t' = at_dups t \<and> at_head t' = at_head t \<and> (\<forall>y. key_of t' y = key_of t y)"
proof -
  let ?a = "hd g"
  from gs have "g \<noteq> []" by (simp add: groups_ok_def group_ok_def)
  then have ga: "g = ?a # tl g" by (cases g) auto
  have xs: "concat (gl @ g # gr) = concat gl @ ?a # (tl g @ concat gr)" using ga by simp
  from add_after_dlist [OF dl [unfolded xs], of new] new [unfolded xs] obtain ls where
    ls: "oonf_list_add_after ?a new (at_links t) = Inr ls" "dlist ls (at_head t) (concat gl @ ?a # new # tl g @ concat gr)" by auto
  define t' where "t' = (set_follower new True t)\<lparr>at_links := ls, at_count := at_count t + 1\<rparr>"
  have run: "avl_insert_after ?a new (set_follower new True t) = Inr t'" using ls(1) by (simp add: avl_insert_after_def t'_def)
  let ?g = "?a # new # tl g"
  have in_xs: "set_tree s \<subseteq> set (concat (gl @ g # gr))" using hd_in_concat [OF gs] io by (simp flip: set_inorder)
  have "holds_tree t' s" using tree by (rule holds_tree_frame) (use new in_xs in \<open>auto simp: t'_def node_links_def\<close>)
  moreover have "groups_ok cmp t' (gl @ g # gr)" by (rule groups_ok_frame [OF gs]) (use new in \<open>auto simp: t'_def\<close>)
  then have "groups_ok cmp t' (gl @ ?g # gr)"
  proof (rule groups_ok_swap)
    have "group_ok cmp t' g" using \<open>groups_ok cmp t' (gl @ g # gr)\<close> by (simp add: groups_ok_def)
    moreover have "fol t' new" "cmp (key_of t' ?a) (key_of t' new) = 0" using eq by (simp_all add: t'_def equal_sym)
    moreover have "set (tl g) \<subseteq> set g" "?a \<in> set g" by (subst (2) ga, auto)+
    ultimately show "group_ok cmp t' ?g" by (auto simp: group_ok_def)
  qed simp
  moreover have "inorder s = map hd (gl @ ?g # gr)" using io by simp
  moreover have "dlist (at_links t') (at_head t') (concat (gl @ ?g # gr))" using ls(2) by (simp add: t'_def)
  moreover have "length (concat (gl @ ?g # gr)) = Suc (length (concat (gl @ g # gr)))" using \<open>g \<noteq> []\<close> by (cases g) simp_all
  then have "at_count t' = of_nat (length (concat (gl @ ?g # gr)))" using n by (simp only: t'_def) simp
  moreover have "at_dups t'" using dups by (simp add: t'_def)
  ultimately have "avl_rep cmp t' (concat (gl @ ?g # gr))" unfolding avl_rep_def by blast
  moreover have "tree_add (\<lambda>y. cmp (key_of t new) (key_of t y)) new (concat (gl @ g # gr)) = concat (gl @ ?g # gr)"
    unfolding xs using tree_add_second [of "concat gl" "\<lambda>y. cmp (key_of t new) (key_of t y)" ?a new "tl g @ concat gr"] below eq by simp
  ultimately have rep: "avl_rep cmp t' (tree_add (\<lambda>y. cmp (key_of t new) (key_of t y)) new (concat (gl @ g # gr)))" by simp
  have fields: "at_dups t' = at_dups t" "at_head t' = at_head t" "\<forall>y. key_of t' y = key_of t y" by (simp_all add: t'_def)
  show ?thesis by (intro exI [of _ t'] conjI) (rule run rep fields)+
qed

lemma avl_insert_ok:
  assumes rep: "avl_rep cmp t xs" and new: "new \<notin> insert (at_head t) (set xs)" and fuel: "length xs < n"
  shows "\<exists>r t'. avl_insert n cmp new t = Inr (r, t') \<and> at_dups t' = at_dups t \<and> at_head t' = at_head t \<and> (\<forall>y. key_of t' y = key_of t y) \<and>
    (if \<not> at_dups t \<and> (\<exists>y \<in> set xs. cmp (key_of t new) (key_of t y) = 0) then r = -1 \<and> avl_rep cmp t' xs
     else r = 0 \<and> avl_rep cmp t' (tree_add (\<lambda>y. cmp (key_of t new) (key_of t y)) new xs))"
proof -
  let ?k = "key_of t new" and ?c = "\<lambda>y. cmp (key_of t new) (key_of t y)"
  define u where "u = upd new (\<lambda>n. n\<lparr>av_parent := None, av_left := None, av_right := None, av_balance := 0, av_follower := False\<rparr>) t"
  have u: "at_root u = at_root t" "at_links u = at_links t" "at_head u = at_head t" "at_count u = at_count t" "at_dups u = at_dups t"
      "\<And>y. key_of u y = key_of t y" "\<And>y. y \<noteq> new \<Longrightarrow> at_mem u y = at_mem t y"
      "node_links (at_mem u new) = (None, None, None)" "bal u new = 0" "\<not> fol u new"
    by (simp_all add: u_def node_links_def)
  from rep obtain s gs where tree: "holds_tree t s" and io: "inorder s = map hd gs" and gs: "groups_ok cmp t gs" and xs: "xs = concat gs"
    and dl: "dlist (at_links t) (at_head t) xs" and cnt: "at_count t = of_nat (length xs)" and nf: "at_dups t \<or> (\<forall>y \<in> set xs. \<not> fol t y)"
    by (auto simp: avl_rep_def)
  have in_xs: "set_tree s \<subseteq> set xs" using hd_in_concat [OF gs] io xs by (simp flip: set_inorder)
  have mem: "at_mem u y = at_mem t y" if "y \<in> set xs" for y by (rule u(7)) (use new that in blast)
  then have mem_s: "at_mem u y = at_mem t y" if "y \<in> set_tree s" for y using that in_xs by blast
  have tree_u: "holds_tree u s" by (rule holds_tree_frame [OF tree]) (simp_all add: mem_s u(1))
  have gs_u: "groups_ok cmp u gs" by (rule groups_ok_frame [OF gs]) (simp add: mem xs)
  show ?thesis
  proof (cases s)
    case Leaf
    with io xs have "gs = []" "xs = []" by auto
    with dl new add_head_dlist [of "at_links t" "at_head t" "[]" new] obtain ls where
      ls: "oonf_list_add_head (at_head t) new (at_links t) = Inr ls" "dlist ls (at_head t) [new]" by auto
    define t' where "t' = u\<lparr>at_links := ls, at_root := Some new, at_count := 1\<rparr>"
    have "at_root t = None" using tree Leaf by (simp add: holds_tree_def)
    then have "avl_insert n cmp new t = Inr (0, t')" using ls(1) u by (simp add: avl_insert_def t'_def u_def)
    moreover have "holds_tree t' (Node Leaf new Leaf)" using u(8,9) by (simp add: holds_tree_def t'_def node_links_def diff_def)
    then have "avl_rep cmp t' [new]"
      unfolding avl_rep_def using ls(2) u by (intro conjI exI [of _ "Node Leaf new Leaf"] exI [of _ "[[new]]"])
        (simp_all add: t'_def groups_ok_def group_ok_def)
    ultimately show ?thesis using u \<open>xs = []\<close> by (auto simp: t'_def)
  next
    case (Node l0 a0 r0)
    then have root: "at_root t = Some a0" using tree by (simp add: holds_tree_def)
    from find_rec_group [OF tree_u _ io gs_u, of n ?k] Node length_groups [OF gs] fuel xs obtain c l r gl g gr where
      run: "avl_find_rec n cmp a0 ?k u = Inr (hd g, cmp ?k (key_of u (hd g)))" and s: "s = plug c (Node l (hd g) r)" and split: "gs = gl @ g # gr"
      and hds: "map hd gl = lefts c @ inorder l" "map hd gr = inorder r @ rights c"
      and ends: "cmp ?k (key_of u (hd g)) < 0 \<longrightarrow> l = Leaf" "0 < cmp ?k (key_of u (hd g)) \<longrightarrow> r = Leaf"
      and sides: "\<forall>y \<in> set (concat gl). 0 < cmp ?k (key_of u y)" "\<forall>y \<in> set (concat gr). cmp ?k (key_of u y) < 0"
      and same: "\<forall>y \<in> set g. sgn (cmp ?k (key_of u y)) = sgn (cmp ?k (key_of u (hd g)))" by auto
    let ?a = "hd g" and ?d = "cmp ?k (key_of u (hd g))"
    note step = avl_insert_def [of n cmp new t, folded u_def, unfolded Let_def u(1) root option.case u(6) [of new], unfolded run [unfolded u(6)] bnd.simps prod.case]
    have bal_a: "bal u ?a = diff l r" using tree_u s by (simp add: holds_tree_plug)
    have g_sgn: "y \<in> set g \<Longrightarrow> (cmp ?k (key_of u y) = 0 \<longleftrightarrow> ?d = 0) \<and> (0 < cmp ?k (key_of u y) \<longleftrightarrow> 0 < ?d) \<and> (cmp ?k (key_of u y) < 0 \<longleftrightarrow> ?d < 0)" for y
      using same sgn_0_0 sgn_greater sgn_less by metis
    have "?a \<in> set g" using gs split by (simp add: groups_ok_def group_ok_def)
    have found: "(\<exists>y \<in> set xs. cmp ?k (key_of t y) = 0) \<longleftrightarrow> ?d = 0"
    proof
      assume "\<exists>y \<in> set xs. cmp ?k (key_of t y) = 0"
      then obtain y where y: "y \<in> set (concat gl) \<or> y \<in> set g \<or> y \<in> set (concat gr)" "cmp ?k (key_of u y) = 0"
        unfolding xs split u(6) by auto
      with sides g_sgn [of y] show "?d = 0" by fastforce
    next
      assume "?d = 0"
      with \<open>?a \<in> set g\<close> show "\<exists>y \<in> set xs. cmp ?k (key_of t y) = 0" unfolding xs split u(6) by auto
    qed
    have dl_u: "dlist (at_links u) (at_head u) (concat (gl @ g # gr))" and cnt_u: "at_count u = of_nat (length (concat (gl @ g # gr)))"
      and new_u: "new \<notin> insert (at_head u) (set (concat (gl @ g # gr)))" and fuel_u: "length (concat (gl @ g # gr)) < n"
      using dl cnt new fuel u xs split by auto
    have nf_xs: "at_dups u \<or> (\<forall>y \<in> set xs. \<not> fol u y)" using nf mem u(5) by auto
    then have nf_u: "at_dups u \<or> (\<forall>y \<in> set (concat (gl @ g # gr)). \<not> fol u y)" by (simp only: xs split)
    consider "?d = 0" | "?d < 0" | "0 < ?d" by linarith
    then show ?thesis
    proof cases
      case 1
      show ?thesis
      proof (cases "at_dups t")
        case True
        from insert_follower [OF tree_u gs_u [unfolded split] io [unfolded split] dl_u cnt_u new_u _ True [folded u(5)] sides(1) [folded u(6) [of new]]] 1
        obtain t' where t': "avl_insert_after ?a new (set_follower new True u) = Inr t'"
          and rep': "avl_rep cmp t' (tree_add (\<lambda>y. cmp (key_of u new) (key_of u y)) new (concat (gl @ g # gr)))"
          and fields: "at_dups t' = at_dups u" "at_head t' = at_head u" "\<forall>y. key_of t' y = key_of u y" unfolding u(6) by blast
        have "avl_insert n cmp new t = Inr (0, t')" using step 1 True t' u by simp
        with rep' fields True u xs split show ?thesis by simp
      next
        case False
        then have "avl_insert n cmp new t = Inr (-1, u)" using step 1 u by simp
        moreover have "avl_rep cmp u xs" unfolding avl_rep_def using tree_u io gs_u xs dl cnt u(1-5) nf_xs by auto
        ultimately show ?thesis using found 1 False u by simp
      qed
    next
      case 2
      with ends have l: "l = Leaf" by simp
      have above: "\<forall>y \<in> set (concat (g # gr)). cmp (key_of u new) (key_of u y) < 0"
        using g_sgn 2 sides(2) unfolding u(6) [of new] by auto
      from insert_before_group [OF tree_u [unfolded s l] gs_u [unfolded split] refl _ hds(2) dl_u cnt_u nf_u new_u u(8-10) sides(1) [folded u(6) [of new]] above fuel_u] hds(1) l
      obtain v t' where t': "avl_insert_before ?a new (set_parent new (Some ?a) u) = Inr v" "bal v ?a = bal u ?a"
          "(if bal v ?a = 1 then Inr (set_left ?a (Some new) (set_balance ?a 0 v)) else post_insert n ?a (set_left ?a (Some new) (set_balance ?a (-1) v))) = Inr t'"
        and rep': "avl_rep cmp t' (tree_add (\<lambda>y. cmp (key_of u new) (key_of u y)) new (concat (gl @ g # gr)))"
        and fields: "at_dups t' = at_dups u" "at_head t' = at_head u" "\<forall>y. key_of t' y = key_of u y" by auto
      have "?a \<noteq> new" using \<open>?a \<in> set g\<close> new xs split by auto
      moreover have "bal u ?a \<noteq> -1" using bal_a l by (simp add: diff_def)
      ultimately have "avl_insert n cmp new t = Inr (0, t')" using step 2 t' u by (auto split: if_splits)
      with rep' fields 2 found u xs split show ?thesis by auto
    next
      case 3
      with ends have r: "r = Leaf" by simp
      have below: "\<forall>y \<in> set (concat (gl @ [g])). 0 < cmp (key_of u new) (key_of u y)"
        using g_sgn 3 sides(1) unfolding u(6) [of new] by auto
      from insert_after_group [OF tree_u [unfolded s r] gs_u [unfolded split] refl hds(1) _ dl_u cnt_u nf_u new_u u(8-10) below sides(2) [folded u(6) [of new]] fuel_u] hds(2) r
      obtain p v t' where t': "avl_find_last n ?a (set_parent new (Some ?a) u) = Inr p" "avl_insert_after p new (set_parent new (Some ?a) u) = Inr v" "bal v ?a = bal u ?a"
          "(if bal v ?a = -1 then Inr (set_right ?a (Some new) (set_balance ?a 0 v)) else post_insert n ?a (set_right ?a (Some new) (set_balance ?a 1 v))) = Inr t'"
        and rep': "avl_rep cmp t' (tree_add (\<lambda>y. cmp (key_of u new) (key_of u y)) new (concat (gl @ g # gr)))"
        and fields: "at_dups t' = at_dups u" "at_head t' = at_head u" "\<forall>y. key_of t' y = key_of u y" by auto
      have "?a \<noteq> new" using \<open>?a \<in> set g\<close> new xs split by auto
      moreover have "bal u ?a \<noteq> 1" using bal_a r by (simp add: diff_def)
      ultimately have "avl_insert n cmp new t = Inr (0, t')" using step 3 t' u by (auto split: if_splits)
      with rep' fields 3 found u xs split show ?thesis by auto
    qed
  qed
qed

end

end
