(* ===== verification/AvlRemove.thy ===== *)
theory AvlRemove
  imports AvlSpec
begin

text \<open>
  Removal from the AVL trees: the rebalancing on the way up, the exchange of a node with the smallest of its
  right subtree, and handing a node's place over to its first follower.
\<close>

section \<open>Rebalancing after a removal\<close>

text \<open>The subtree at the end of the path has lost a level that the balances along the path still count.\<close>

definition shrunk :: "'k avl_tree \<Rightarrow> frame list \<Rightarrow> addr tree \<Rightarrow> bool" where
  "shrunk t c s \<longleftrightarrow> at_path t c s \<and> bok (at_mem t) s \<and> cbal (at_mem t) (Suc (height s)) c"

definition rebalances :: "'k avl_tree outcome \<Rightarrow> 'k avl_tree \<Rightarrow> frame list \<Rightarrow> addr tree \<Rightarrow> bool" where
  "rebalances m t c s \<longleftrightarrow> (\<exists>t' s'. m = Inr t' \<and> holds_tree t' s' \<and> inorder s' = inorder (plug c s) \<and> keeps (set_tree (plug c s)) t t')"

lemma rebalances_from: "rebalances m u c s' \<Longrightarrow> keeps (set_tree s \<union> cnodes c) t u \<Longrightarrow> inorder s' = inorder s \<Longrightarrow> rebalances m t c s"
proof -
  assume a: "rebalances m u c s'" "keeps (set_tree s \<union> cnodes c) t u" "inorder s' = inorder s"
  then have "set_tree s' = set_tree s" by (metis set_inorder)
  with a show ?thesis by (auto simp: rebalances_def intro: keeps_trans)
qed

lemma rebalances_now: "holds_tree u (plug c s') \<Longrightarrow> keeps (set_tree s \<union> cnodes c) t u \<Longrightarrow> inorder s' = inorder s \<Longrightarrow> rebalances (Inr u) t c s"
  by (auto simp: rebalances_def)

lemma rotated_keeps: "rotated t c s s' t' \<Longrightarrow> keeps (set_tree s \<union> cnodes c) t t'"
  by (simp add: rotated_def)

lemma rotated_shrunk: "rotated t c s s' t' \<Longrightarrow> cbal (at_mem t) (Suc (height s')) c \<Longrightarrow> shrunk t' c s'"
  by (auto simp: rotated_def shrunk_def)

lemma left_shrunk_ok:
  fixes t :: "'k avl_tree"
  assumes g: "shrunk t (LF p R # c) s"
    and IH: "\<And>(t :: 'k avl_tree) s. shrunk t c s \<Longrightarrow> s \<noteq> Leaf \<Longrightarrow> rebalances (self (value s) t) t c s"
  shows "rebalances (left_shrunk self p t) t (LF p R # c) s"
proof -
  define u where "u = set_balance p (bal t p + 1) t"
  define h where "h = height s"
  let ?S = "set_tree (Node s p R) \<union> cnodes c"
  from g have path: "at_path t (LF p R # c) s" and bs: "bok (at_mem t) s" and cb: "cbal (at_mem t) (Suc h) (LF p R # c)" by (auto simp: shrunk_def h_def)
  from path have "at_path t c (Node s p R)" by (simp add: at_path_LF)
  then have path1: "at_path u c (Node s p R)" unfolding u_def by (simp only: at_path_balance)
  then have "apart c (Node s p R)" by (simp add: at_path_def)
  from apartD [OF this] have ne: "p \<notin> set_tree s" "p \<notin> set_tree R" "p \<notin> cnodes c" by auto
  from cb have b: "bal t p = int (height R) - int h - 1" "\<bar>int (height R) - int h - 1\<bar> \<le> 1" and cb': "cbal (at_mem t) (Suc (max (Suc h) (height R))) c" and bR: "bok (at_mem t) R" by auto
  note frames = set_balance_frames [where a = p and t = t and b = "bal t p + 1" and c = c, folded u_def]
  have bs1: "bok (at_mem u) s" and bR1: "bok (at_mem u) R" and cb1: "cbal (at_mem u) (Suc (max (Suc h) (height R))) c"
    using bs bR cb' frames(1) [where s = s] frames(1) [where s = R] frames(2) [where s = Leaf] ne by auto
  have p1: "bal u p = int (height R) - int h" using b by (simp add: u_def)
  have "keeps ?S u t' \<Longrightarrow> keeps ?S t t'" for t' unfolding u_def by (erule keeps_balance) simp
  then have keep: "rebalances m u c (Node s p R) \<Longrightarrow> rebalances m t c (Node s p R)" for m by (auto simp: rebalances_def)
  have step: "left_shrunk self p t = (if bal u p = 0 then self p u else if bal u p = 1 then Inr u
      else bnd (deref (rgt u p)) (\<lambda>r.
        if bal u r = 0 then avl_rotate_left p u
        else if bal u r = 1 then bnd (avl_rotate_left p u) (\<lambda>t. bnd (deref (prnt t p)) (\<lambda>q. self q t))
        else bnd (avl_rotate_right r u) (\<lambda>t. bnd (avl_rotate_left p t) (\<lambda>t. bnd (deref (prnt t p)) (\<lambda>q. self q t)))))"
    unfolding left_shrunk_def Let_def u_def by (rule refl)
  consider "height R = h" | "height R = Suc h" | "height R = Suc (Suc h)" using b(2) by linarith
  then have "rebalances (left_shrunk self p t) u c (Node s p R)"
  proof cases
    case 1
    then have "shrunk u c (Node s p R)" using path1 bs1 bR1 cb1 p1 by (auto simp: shrunk_def diff_def h_def)
    from IH [OF this] 1 p1 step show ?thesis by simp
  next
    case 2
    then have "holds_tree u (plug c (Node s p R))" using path1 bs1 bR1 cb1 p1 by (auto simp: holds_tree_at_path diff_def h_def)
    with 2 p1 step show ?thesis using rebalances_now [of u c "Node s p R" "Node s p R" u] by simp
  next
    case 3
    note h3 = 3
    from 3 obtain l a r where R: "R = Node l a r" by (cases R) auto
    from path1 R have ra: "rgt u p = Some a" by (simp add: at_path_def)
    from bR1 R have ba: "bal u a = diff l r" "\<bar>diff l r\<bar> \<le> 1" "bok (at_mem u) l" "bok (at_mem u) r" by auto
    have p2: "bal u p = 2" "diff s (Node l a r) = 2" using p1 h3 R by (simp_all add: diff_def h_def)
    consider "diff l r = 0" | "diff l r = 1" | "diff l r = -1" using ba(2) by linarith
    then show ?thesis
    proof cases
      case 1
      with single_left [OF path1 [unfolded R] p2(1) ba(1) _ p2(2) ba(3,4) bs1] obtain t' where
        run: "avl_rotate_left p u = Inr t'" and rot: "rotated u c (Node s p R) (Node (Node s p l) a r) t'" using R by auto
      have "height (Node (Node s p l) a r) = Suc (max (Suc h) (height R))" using 1 h3 R by (auto simp: diff_def h_def)
      with rotated_holds [OF rot] cb1 have "holds_tree t' (plug c (Node (Node s p l) a r))" by simp
      from rebalances_now [OF this rotated_keeps [OF rot]] run step p2 1 ra ba R show ?thesis by simp
    next
      case 2
      with single_left [OF path1 [unfolded R] p2(1) ba(1) _ p2(2) ba(3,4) bs1] obtain t' where
        run: "avl_rotate_left p u = Inr t'" and rot: "rotated u c (Node s p R) (Node (Node s p l) a r) t'" using R by auto
      have "Suc (height (Node (Node s p l) a r)) = Suc (max (Suc h) (height R))" using 2 h3 R by (auto simp: diff_def h_def)
      with rotated_shrunk [OF rot] cb1 have sh: "shrunk t' c (Node (Node s p l) a r)" by simp
      then have "prnt t' p = Some a" by (simp add: shrunk_def at_path_def)
      with rebalances_from [OF IH [OF sh] rotated_keeps [OF rot]] run step p2 2 ra ba R show ?thesis by simp
    next
      case 3
      then obtain B1 y B2 where l: "l = Node B1 y B2" by (cases l) (auto simp: diff_def)
      from double_left [OF path1 [unfolded R l] p2(1)] ba p2 bs1 3 l obtain t1 t' where
        run: "avl_rotate_right a u = Inr t1" "avl_rotate_left p t1 = Inr t'"
        and rot: "rotated u c (Node s p R) (Node (Node s p B1) y (Node B2 a r)) t'" unfolding R l by auto
      have "Suc (height (Node (Node s p B1) y (Node B2 a r))) = Suc (max (Suc h) (height R))" using 3 h3 R l ba by (auto simp: diff_def h_def)
      with rotated_shrunk [OF rot] cb1 have sh: "shrunk t' c (Node (Node s p B1) y (Node B2 a r))" by simp
      then have "prnt t' p = Some y" by (simp add: shrunk_def at_path_def)
      with rebalances_from [OF IH [OF sh] rotated_keeps [OF rot]] run step p2 3 ra ba R l show ?thesis by simp
    qed
  qed
  then have "rebalances (left_shrunk self p t) t c (Node s p R)" by (rule keep)
  then show ?thesis by (simp add: rebalances_def)
qed

lemma right_shrunk_ok:
  fixes t :: "'k avl_tree"
  assumes g: "shrunk t (RF R p # c) s"
    and IH: "\<And>(t :: 'k avl_tree) s. shrunk t c s \<Longrightarrow> s \<noteq> Leaf \<Longrightarrow> rebalances (self (value s) t) t c s"
  shows "rebalances (right_shrunk self p t) t (RF R p # c) s"
proof -
  define u where "u = set_balance p (bal t p - 1) t"
  define h where "h = height s"
  let ?S = "set_tree (Node R p s) \<union> cnodes c"
  from g have path: "at_path t (RF R p # c) s" and bs: "bok (at_mem t) s" and cb: "cbal (at_mem t) (Suc h) (RF R p # c)" by (auto simp: shrunk_def h_def)
  from path have "at_path t c (Node R p s)" by (simp add: at_path_RF)
  then have path1: "at_path u c (Node R p s)" unfolding u_def by (simp only: at_path_balance)
  then have "apart c (Node R p s)" by (simp add: at_path_def)
  from apartD [OF this] have ne: "p \<notin> set_tree s" "p \<notin> set_tree R" "p \<notin> cnodes c" by auto
  from cb have b: "bal t p = int h + 1 - int (height R)" "\<bar>int h + 1 - int (height R)\<bar> \<le> 1" and cb': "cbal (at_mem t) (Suc (max (height R) (Suc h))) c" and bR: "bok (at_mem t) R" by auto
  note frames = set_balance_frames [where a = p and t = t and b = "bal t p - 1" and c = c, folded u_def]
  have bs1: "bok (at_mem u) s" and bR1: "bok (at_mem u) R" and cb1: "cbal (at_mem u) (Suc (max (height R) (Suc h))) c"
    using bs bR cb' frames(1) [where s = s] frames(1) [where s = R] frames(2) [where s = Leaf] ne by auto
  have p1: "bal u p = int h - int (height R)" using b by (simp add: u_def)
  have "keeps ?S u t' \<Longrightarrow> keeps ?S t t'" for t' unfolding u_def by (erule keeps_balance) simp
  then have keep: "rebalances m u c (Node R p s) \<Longrightarrow> rebalances m t c (Node R p s)" for m by (auto simp: rebalances_def)
  have step: "right_shrunk self p t = (if bal u p = 0 then self p u else if bal u p = -1 then Inr u
      else bnd (deref (lft u p)) (\<lambda>r.
        if bal u r = 0 then avl_rotate_right p u
        else if bal u r = -1 then bnd (avl_rotate_right p u) (\<lambda>t. bnd (deref (prnt t p)) (\<lambda>q. self q t))
        else bnd (avl_rotate_left r u) (\<lambda>t. bnd (avl_rotate_right p t) (\<lambda>t. bnd (deref (prnt t p)) (\<lambda>q. self q t)))))"
    unfolding right_shrunk_def Let_def u_def by (rule refl)
  consider "height R = h" | "height R = Suc h" | "height R = Suc (Suc h)" using b(2) by linarith
  then have "rebalances (right_shrunk self p t) u c (Node R p s)"
  proof cases
    case 1
    then have "shrunk u c (Node R p s)" using path1 bs1 bR1 cb1 p1 by (auto simp: shrunk_def diff_def h_def)
    from IH [OF this] 1 p1 step show ?thesis by simp
  next
    case 2
    then have "holds_tree u (plug c (Node R p s))" using path1 bs1 bR1 cb1 p1 by (auto simp: holds_tree_at_path diff_def h_def)
    with 2 p1 step show ?thesis using rebalances_now [of u c "Node R p s" "Node R p s" u] by simp
  next
    case 3
    note h3 = 3
    from 3 obtain l a r where R: "R = Node l a r" by (cases R) auto
    from path1 R have ra: "lft u p = Some a" by (simp add: at_path_def)
    from bR1 R have ba: "bal u a = diff l r" "\<bar>diff l r\<bar> \<le> 1" "bok (at_mem u) l" "bok (at_mem u) r" by auto
    have p2: "bal u p = -2" "diff (Node l a r) s = -2" using p1 h3 R by (simp_all add: diff_def h_def)
    consider "diff l r = 0" | "diff l r = -1" | "diff l r = 1" using ba(2) by linarith
    then show ?thesis
    proof cases
      case 1
      with single_right [OF path1 [unfolded R] p2(1) ba(1) _ p2(2) ba(3,4) bs1] obtain t' where
        run: "avl_rotate_right p u = Inr t'" and rot: "rotated u c (Node R p s) (Node l a (Node r p s)) t'" using R by auto
      have "height (Node l a (Node r p s)) = Suc (max (height R) (Suc h))" using 1 h3 R by (auto simp: diff_def h_def)
      with rotated_holds [OF rot] cb1 have "holds_tree t' (plug c (Node l a (Node r p s)))" by simp
      from rebalances_now [OF this rotated_keeps [OF rot]] run step p2 1 ra ba R show ?thesis by simp
    next
      case 2
      with single_right [OF path1 [unfolded R] p2(1) ba(1) _ p2(2) ba(3,4) bs1] obtain t' where
        run: "avl_rotate_right p u = Inr t'" and rot: "rotated u c (Node R p s) (Node l a (Node r p s)) t'" using R by auto
      have "Suc (height (Node l a (Node r p s))) = Suc (max (height R) (Suc h))" using 2 h3 R by (auto simp: diff_def h_def)
      with rotated_shrunk [OF rot] cb1 have sh: "shrunk t' c (Node l a (Node r p s))" by simp
      then have "prnt t' p = Some a" by (simp add: shrunk_def at_path_def)
      with rebalances_from [OF IH [OF sh] rotated_keeps [OF rot]] run step p2 2 ra ba R show ?thesis by simp
    next
      case 3
      then obtain B1 y B2 where l: "r = Node B1 y B2" by (cases r) (auto simp: diff_def)
      from double_right [OF path1 [unfolded R l] p2(1)] ba p2 bs1 3 l obtain t1 t' where
        run: "avl_rotate_left a u = Inr t1" "avl_rotate_right p t1 = Inr t'"
        and rot: "rotated u c (Node R p s) (Node (Node l a B1) y (Node B2 p s)) t'" unfolding R l by auto
      have "Suc (height (Node (Node l a B1) y (Node B2 p s))) = Suc (max (height R) (Suc h))" using 3 h3 R l ba by (auto simp: diff_def h_def)
      with rotated_shrunk [OF rot] cb1 have sh: "shrunk t' c (Node (Node l a B1) y (Node B2 p s))" by simp
      then have "prnt t' p = Some y" by (simp add: shrunk_def at_path_def)
      with rebalances_from [OF IH [OF sh] rotated_keeps [OF rot]] run step p2 3 ra ba R l show ?thesis by simp
    qed
  qed
  then have "rebalances (right_shrunk self p t) t c (Node R p s)" by (rule keep)
  then show ?thesis by (simp add: rebalances_def)
qed

lemma post_remove_ok:
  fixes t :: "'k avl_tree"
  assumes "length c < k" and "shrunk t c s" and "s \<noteq> Leaf"
  shows "rebalances (avl_post_remove k (value s) t) t c s"
  using assms
proof (induction c arbitrary: k s t)
  case Nil
  then obtain j where k: "k = Suc j" by (cases k) auto
  from Nil(2,3) have "holds_tree t s" "prnt t (value s) = None"
    by (auto simp: shrunk_def at_path_def holds_tree_def apart_def neq_Leaf_iff)
  with k show ?case by (auto simp: rebalances_def)
next
  case (Cons f c)
  from Cons.prems(1) obtain j where k: "k = Suc j" and j: "length c < j" by (cases k) auto
  from Cons.prems(3) obtain l a r where s: "s = Node l a r" by (cases s) auto
  have path: "at_path t (f # c) s" using Cons.prems(2) by (simp add: shrunk_def)
  show ?case
  proof (cases f)
    case (LF p R)
    have "prnt t a = Some p" "lft t p = Some a" using path s LF by (auto simp: at_path_def)
    with k s have "avl_post_remove k (value s) t = left_shrunk (avl_post_remove j) p t" by simp
    with left_shrunk_ok [of t p R c s "avl_post_remove j"] Cons.IH [OF j] Cons.prems(2) LF show ?thesis by simp
  next
    case (RF L p)
    have "apart c (Node L p s)" using path RF by (simp add: at_path_def)
    from apartD [OF this] have "a \<notin> set_tree L" using s by auto
    then have "prnt t a = Some p" "lft t p \<noteq> Some a" using path s RF root_of_in [of L] by (auto simp: at_path_def)
    with k s have "avl_post_remove k (value s) t = right_shrunk (avl_post_remove j) p t" by simp
    with right_shrunk_ok [of t L p c s "avl_post_remove j"] Cons.IH [OF j] Cons.prems(2) RF show ?thesis by simp
  qed
qed

section \<open>A node with at most one child\<close>

text \<open>The only child, if any, takes the place of the node.\<close>

lemma cut_shrunk:
  fixes t :: "'k avl_tree"
  assumes tree: "holds_tree t (plug c (Node l a r))" and one: "l = Leaf \<and> ch = r \<or> r = Leaf \<and> ch = l"
  defines "u \<equiv> replace_child (ctop c) a (root_of ch) (set_parent_opt (root_of ch) (ctop c) t)"
  shows "shrunk u c ch \<and> keeps (set_tree (plug c (Node l a r))) t u \<and> (\<forall>y. bal u y = bal t y)"
proof -
  let ?t1 = "set_parent_opt (root_of ch) (ctop c) t"
  from tree have cok: "cok (at_mem t) (at_root t) (Some a) c" and tok: "tok (at_mem t) (Some a) ch"
    and bok: "bok (at_mem t) ch" and cb: "cbal (at_mem t) (height (Node l a r)) c" and ap: "apart c (Node l a r)"
    using one by (auto simp: holds_tree_plug)
  from apartD [OF ap] have ne: "a \<notin> cnodes c" "a \<notin> set_tree ch" "set_tree ch \<inter> cnodes c = {}" and dch: "distinct (inorder ch)"
    using one by auto
  have dc: "distinct (lefts c @ rights c)" using ap by (auto simp: apart_def)
  have topc: "\<And>q. ctop c = Some q \<Longrightarrow> q \<in> cnodes c" by (rule top_in)
  have in_c: "root_of ch \<noteq> Some y" if "y \<in> cnodes c" for y using ne(3) root_of_in [of ch y] that by auto
  have in_ch: "ctop c \<noteq> Some y" if "y \<in> set_tree ch" for y using ne(3) topc that by auto
  have "cok (at_mem ?t1) (at_root ?t1) (Some a) c"
    unfolding set_parent_opt_fields using cok by (rule cok_frame) (use in_c in \<open>simp add: node_links_def\<close>)
  then have "cok (at_mem u) (at_root u) (root_of ch) c" unfolding u_def by (rule cok_replace) (use ne dc in auto)
  moreover have "tok (at_mem u) (ctop c) ch"
    using tok dch by (rule tok_reparent) (use in_ch root_of_in in \<open>auto simp: u_def node_links_def\<close>)
  moreover have "apart c ch" using apart_sub [OF ap] one by auto
  moreover have b: "bal u y = bal t y" for y by (simp add: u_def)
  then have "bok (at_mem u) ch" "cbal (at_mem u) (height (Node l a r)) c" using bok cb by (auto intro: bok_frame cbal_frame)
  moreover have "height (Node l a r) = Suc (height ch)" using one by auto
  moreover have "keeps (set_tree (plug c (Node l a r))) t u" unfolding u_def
    by (intro keeps_replace_child keeps_set_parent_opt keeps_refl) (use one topc root_of_in in auto)
  ultimately show ?thesis using b by (auto simp: shrunk_def at_path_def)
qed

lemma rebalances_cut:
  assumes "rebalances m u c ch" and "keeps (set_tree (plug c (Node l a r))) t u" and "inorder ch = inorder l @ inorder r"
  shows "\<exists>t' s'. m = Inr t' \<and> holds_tree t' s' \<and> inorder s' = lefts c @ inorder l @ inorder r @ rights c \<and> keeps (set_tree (plug c (Node l a r))) t t'"
proof -
  have sub: "set_tree (plug c ch) \<subseteq> set_tree (plug c (Node l a r))" using assms(3) by (auto simp flip: set_inorder)
  from assms(1) obtain t' s' where "m = Inr t'" "holds_tree t' s'" "inorder s' = inorder (plug c ch)" "keeps (set_tree (plug c ch)) u t'"
    unfolding rebalances_def by blast
  moreover from this(4) sub have "keeps (set_tree (plug c (Node l a r))) u t'" by (rule keeps_mono)
  ultimately show ?thesis using assms(2,3) keeps_trans by (intro exI [of _ t'] exI [of _ s']) auto
qed

lemma remove_worker_cut:
  fixes t :: "'k avl_tree"
  assumes tree: "holds_tree t (plug c (Node l a r))" and one: "l = Leaf \<or> r = Leaf" and k: "length c < k"
  shows "\<exists>t' s'. avl_remove_worker (Suc d) k a t = Inr t' \<and> holds_tree t' s' \<and> inorder s' = lefts c @ inorder l @ inorder r @ rights c \<and>
    keeps (set_tree (plug c (Node l a r))) t t'"
proof -
  define ch where "ch = (if l = Leaf then r else l)"
  define u where "u = replace_child (ctop c) a (root_of ch) (set_parent_opt (root_of ch) (ctop c) t)"
  have ch: "l = Leaf \<and> ch = r \<or> r = Leaf \<and> ch = l" "inorder ch = inorder l @ inorder r" using one by (auto simp: ch_def)
  note cut = cut_shrunk [OF tree ch(1), folded u_def]
  from tree have ptr: "prnt t a = ctop c" "lft t a = root_of l" "rgt t a = root_of r" and cok: "cok (at_mem t) (at_root t) (Some a) c"
    and ap: "apart c (Node l a r)"
    by (auto simp: holds_tree_plug)
  have "rebalances (avl_remove_worker (Suc d) k a t) u c ch"
  proof (cases c)
    case Nil
    then have "holds_tree u ch" using cut by (auto simp: shrunk_def at_path_def holds_tree_def apart_def)
    moreover have "avl_remove_worker (Suc d) k a t = Inr u"
      using ptr Nil ch(1) by (cases ch) (auto simp: u_def replace_child_def set_parent_opt_def upd_def)
    ultimately show ?thesis using Nil by (auto simp: rebalances_def)
  next
    case (Cons f e)
    then have e: "length e < k" using k by simp
    have up: "rebalances (avl_post_remove k (value s) v) v e s" if "shrunk v e s" "s \<noteq> Leaf" for v :: "'k avl_tree" and s
      using e that by (rule post_remove_ok)
    show ?thesis
    proof (cases "ch = Leaf")
      case False
      then obtain x where x: "root_of ch = Some x" "value ch = x" by (cases ch) auto
      obtain p where p: "ctop c = Some p" using Cons by (cases f) auto
      have "avl_remove_worker (Suc d) k a t = avl_post_remove k (value ch) u"
        using ptr p x ch(1) by (auto simp: u_def set_parent_opt_def Let_def)
      with post_remove_ok [OF k _ False, of u] cut show ?thesis by (simp del: avl_remove_worker.simps)
    next
      case True
      then have leaf: "l = Leaf" "r = Leaf" using ch(1) by auto
      show ?thesis
      proof (cases f)
        case (LF p R)
        then have p: "ctop c = Some p" "lft t p = Some a" using Cons cok by auto
        then have "avl_remove_worker (Suc d) k a t = left_shrunk (avl_post_remove k) p u"
          using ptr leaf True by (simp add: u_def replace_child_def set_parent_opt_def)
        with left_shrunk_ok [of u p R e ch "avl_post_remove k"] up cut Cons LF show ?thesis by (simp del: avl_remove_worker.simps)
      next
        case (RF L p)
        from apartD [OF ap] have "a \<notin> set_tree L" using Cons RF by auto
        then have p: "ctop c = Some p" "lft t p \<noteq> Some a" using Cons RF cok root_of_in [of L] by auto
        then have "avl_remove_worker (Suc d) k a t = right_shrunk (avl_post_remove k) p u"
          using ptr leaf True by (simp add: u_def replace_child_def set_parent_opt_def)
        with right_shrunk_ok [of u L p e ch "avl_post_remove k"] up cut Cons RF show ?thesis by (simp del: avl_remove_worker.simps)
      qed
    qed
  qed
  from rebalances_cut [OF this _ ch(2)] cut show ?thesis by blast
qed

section \<open>Another node in the place of a node\<close>

text \<open>
  \<open>b\<close>, which is not in the tree, gets the balance and the pointers of \<open>a\<close>, and the neighbours of \<open>a\<close> point to
  it: the exchange in \<open>_avl_remove_worker\<close> and the one in \<open>avl_remove\<close>.
\<close>

definition takes_place :: "addr \<Rightarrow> addr \<Rightarrow> 'k avl_tree \<Rightarrow> 'k avl_tree \<Rightarrow> bool" where
  "takes_place a b t t' \<longleftrightarrow>
     (\<forall>y. node_links (at_mem t' y) =
        (if y = b then node_links (at_mem t a)
         else (if lft t a = Some y \<or> rgt t a = Some y then Some b else prnt t y,
               if prnt t a = Some y \<and> lft t y = Some a then Some b else lft t y,
               if prnt t a = Some y \<and> lft t y \<noteq> Some a then Some b else rgt t y))) \<and>
     (\<forall>y. bal t' y = (if y = b then bal t a else bal t y)) \<and> at_root t' = (if prnt t a = None then Some b else at_root t)"

lemma takes_place_path:
  assumes cok: "cok (at_mem t) (at_root t) (Some a) c" and ap: "apart c (Node l a r)" and b: "b \<notin> cnodes c" "b \<notin> set_tree l" "b \<notin> set_tree r"
    and ptr: "prnt t a = ctop c" "lft t a = root_of l" "rgt t a = root_of r" and new: "takes_place a b t t'"
  shows "cok (at_mem t') (at_root t') (Some b) c"
proof -
  let ?u = "replace_child (ctop c) a (Some b) t"
  from apartD [OF ap] have ne: "a \<notin> cnodes c" "set_tree l \<inter> cnodes c = {}" "set_tree r \<inter> cnodes c = {}" by auto
  have dc: "distinct (lefts c @ rights c)" using ap by (auto simp: apart_def)
  have "cok (at_mem ?u) (at_root ?u) (Some b) c" using cok ne(1) dc by (rule cok_replace)
  moreover have "node_links (at_mem t' y) = node_links (at_mem ?u y)" if "y \<in> cnodes c" for y
  proof -
    have "y \<noteq> b" "y \<noteq> a" "root_of l \<noteq> Some y" "root_of r \<noteq> Some y" using that b(1) ne root_of_in by auto
    then show ?thesis using new ptr by (auto simp: takes_place_def node_links_def)
  qed
  ultimately have "cok (at_mem t') (at_root ?u) (Some b) c" by (rule cok_frame)
  moreover have "at_root t' = at_root ?u" using new ptr(1) by (simp add: takes_place_def)
  ultimately show ?thesis by simp
qed

lemma takes_place_child:
  assumes tok: "tok (at_mem t) (Some a) l" and d: "distinct (inorder l)" and ne: "b \<notin> set_tree l" "set_tree l \<inter> S = {}"
    and S: "\<And>y. prnt t a = Some y \<Longrightarrow> y \<in> S" "\<And>y. (lft t a = Some y \<or> rgt t a = Some y) \<and> root_of l \<noteq> Some y \<Longrightarrow> y \<in> S"
    and child: "\<And>y. root_of l = Some y \<Longrightarrow> lft t a = Some y \<or> rgt t a = Some y" and new: "takes_place a b t t'"
  shows "tok (at_mem t') (Some b) l"
  using tok d
proof (rule tok_reparent)
  fix y assume y: "y \<in> set_tree l" "root_of l \<noteq> Some y"
  then have "y \<noteq> b" "prnt t a \<noteq> Some y" "lft t a \<noteq> Some y" "rgt t a \<noteq> Some y" using ne S by blast+
  then show "node_links (at_mem t' y) = node_links (at_mem t y)" using new by (simp add: takes_place_def node_links_def)
next
  fix y assume y: "root_of l = Some y"
  then have "y \<in> set_tree l" by (rule root_of_in)
  then have "y \<noteq> b" "prnt t a \<noteq> Some y" using ne S(1) by blast+
  with child [OF y] show "node_links (at_mem t' y) = (Some b, lft t y, rgt t y)" using new by (simp add: takes_place_def node_links_def)
qed

lemma takes_place_ok:
  assumes tree: "holds_tree t (plug c (Node l a r))" and b: "b \<notin> set_tree (plug c (Node l a r))" and new: "takes_place a b t t'"
  shows "holds_tree t' (plug c (Node l b r))"
proof -
  from tree have cok: "cok (at_mem t) (at_root t) (Some a) c" and tokl: "tok (at_mem t) (Some a) l" and tokr: "tok (at_mem t) (Some a) r"
    and ptr: "prnt t a = ctop c" "lft t a = root_of l" "rgt t a = root_of r"
    and bok: "bok (at_mem t) (Node l a r)" and cb: "cbal (at_mem t) (height (Node l a r)) c" and ap: "apart c (Node l a r)"
    by (auto simp: holds_tree_plug)
  from apartD [OF ap] have d: "distinct (inorder l)" "distinct (inorder r)" "set_tree l \<inter> set_tree r = {}"
    and out: "set_tree l \<inter> cnodes c = {}" "set_tree r \<inter> cnodes c = {}" by auto
  have nb: "b \<notin> cnodes c" "b \<notin> set_tree l" "b \<notin> set_tree r" using b by auto
  have "tok (at_mem t') (Some b) l"
    using tokl d(1) nb(2) _ _ _ _ new by (rule takes_place_child [where S = "cnodes c \<union> set_tree r"])
      (use d(3) out ptr top_in root_of_in in auto)
  moreover have "tok (at_mem t') (Some b) r"
    using tokr d(2) nb(3) _ _ _ _ new by (rule takes_place_child [where S = "cnodes c \<union> set_tree l"])
      (use d(3) out ptr top_in root_of_in in auto)
  moreover have "cok (at_mem t') (at_root t') (Some b) c" by (rule takes_place_path [OF cok ap nb ptr new])
  moreover have "prnt t' b = ctop c" "lft t' b = root_of l" "rgt t' b = root_of r" "bal t' b = diff l r"
    using new ptr bok by (auto simp: takes_place_def node_links_def split: if_splits)
  moreover have bal: "bal t' y = bal t y" if "y \<noteq> b" for y using new that by (simp add: takes_place_def)
  have "bok (at_mem t') l" "bok (at_mem t') r" "cbal (at_mem t') (height (Node l a r)) c"
    using bok cb nb bal by (auto intro: bok_avoid [where S = "{b}"] cbal_avoid [where S = "{b}"])
  moreover have "apart c (Node l b r)" using ap nb by (auto simp: apart_def cnodes_def)
  ultimately show ?thesis using bok by (simp add: holds_tree_plug)
qed

text \<open>The node's neighbours are other nodes.\<close>

lemma neighbours:
  assumes "holds_tree t (plug c (Node l a r))"
  shows "prnt t a = ctop c \<and> lft t a = root_of l \<and> rgt t a = root_of r \<and>
    (\<forall>q. ctop c = Some q \<longrightarrow> q \<in> cnodes c) \<and> a \<notin> cnodes c \<union> set_tree l \<union> set_tree r \<and> set_tree l \<inter> set_tree r = {} \<and>
    (set_tree l \<union> set_tree r) \<inter> cnodes c = {}"
proof -
  from assms have "apart c (Node l a r)" by (simp add: holds_tree_plug)
  from apartD [OF this] assms show ?thesis by (auto simp: holds_tree_plug top_in)
qed

lemma hand_over_takes_place:
  assumes "holds_tree t (plug c (Node l a r))" and "b \<notin> set_tree (plug c (Node l a r))"
  shows "takes_place a b t (avl_hand_over a b t)"
  using neighbours [OF assms(1)] assms(2) root_of_in [of l] root_of_in [of r]
  unfolding takes_place_def avl_hand_over_def Let_def node_links_def
  by auto

lemma tree_split: "a \<in> set_tree s \<Longrightarrow> \<exists>c l r. s = plug c (Node l a r)"
proof (induction s)
  case (Node l x r)
  then consider "a = x" | "a \<in> set_tree l" | "a \<in> set_tree r" by auto
  then show ?case
  proof cases
    case 1
    then show ?thesis by (intro exI [of _ "[]"]) auto
  next
    case 2
    with Node.IH(1) obtain c l' r' where "l = plug c (Node l' a r')" by blast
    moreover have "plug (c @ [LF x r]) s = Node (plug c s) x r" for s by (induction c s rule: plug.induct) auto
    ultimately show ?thesis by metis
  next
    case 3
    with Node.IH(2) obtain c l' r' where "r = plug c (Node l' a r')" by blast
    moreover have "plug (c @ [RF l x]) s = Node l x (plug c s)" for s by (induction c s rule: plug.induct) auto
    ultimately show ?thesis by metis
  qed
qed simp

lemma local_min_ok:
  assumes "tok (at_mem t) p (Node l a r)" and "height (Node l a r) < k"
  shows "\<exists>c m q. avl_local_min k a t = Inr m \<and> Node l a r = plug c (Node Leaf m q) \<and> lefts c = []"
  using assms
proof (induction l arbitrary: p a r k)
  case Leaf
  then obtain j where k: "k = Suc j" by (cases k) auto
  with Leaf show ?case by (intro exI [of _ "[]"]) auto
next
  case (Node l1 x l2)
  then obtain j where k: "k = Suc j" by (cases k) auto
  from Node.IH(1) [of "Some a" x l2 j] Node.prems k obtain c m q where
    "avl_local_min j x t = Inr m" "Node l1 x l2 = plug c (Node Leaf m q)" "lefts c = []" by auto
  moreover have "plug (c @ [LF a r]) s = Node (plug c s) a r" for s by (induction c s rule: plug.induct) auto
  moreover have "lefts (c @ [LF a r]) = lefts c" by (induction c rule: lefts.induct) auto
  moreover have "avl_local_min k a t = avl_local_min j x t" using k Node.prems(1) by simp
  ultimately show ?case by (intro exI [of _ "c @ [LF a r]"] exI [of _ m] exI [of _ q]) simp
qed

section \<open>Removal from the tree\<close>

lemma plug_append: "plug (c @ d) s = plug d (plug c s)"
  by (induction c s rule: plug.induct) auto

lemma lefts_append: "lefts (c @ d) = lefts d @ lefts c"
  by (induction c rule: lefts.induct) auto

lemma rights_append: "rights (c @ d) = rights c @ rights d"
  by (induction c rule: rights.induct) auto

lemma split_unique: "xs @ a # ys = xs' @ a # ys' \<Longrightarrow> a \<notin> set xs \<Longrightarrow> a \<notin> set ys \<Longrightarrow> xs = xs' \<and> ys = ys'"
  by (auto simp: append_eq_append_conv2 append_eq_Cons_conv Cons_eq_append_conv)

text \<open>The exchange at the end of \<open>_avl_remove_worker\<close>.\<close>

lemma exchange_takes_place:
  assumes tree: "holds_tree t (plug c (Node l a r))" and b: "b \<notin> set_tree (plug c (Node l a r))"
  defines "u \<equiv> upd b (\<lambda>n. n\<lparr>av_balance := bal t a, av_parent := prnt t a, av_left := lft t a, av_right := rgt t a\<rparr>) t"
  shows "takes_place a b t (replace_child (prnt t a) a (Some b) (set_parent_opt (rgt (set_parent_opt (lft u b) (Some b) u) b) (Some b) (set_parent_opt (lft u b) (Some b) u)))"
  using neighbours [OF tree] b root_of_in [of l] root_of_in [of r]
  unfolding takes_place_def u_def node_links_def by auto

lemma remove_worker_ok:
  fixes t :: "'k avl_tree"
  assumes tree: "holds_tree t s" and io: "inorder s = xs @ a # ys" and k: "size s < k"
  shows "\<exists>t' s'. avl_remove_worker 2 k a t = Inr t' \<and> holds_tree t' s' \<and> inorder s' = xs @ ys \<and> keeps (set_tree s) t t'"
proof -
  have "a \<in> set_tree s" using io by (simp flip: set_inorder)
  then obtain c l r where s: "s = plug c (Node l a r)" using tree_split by blast
  have dis: "distinct (xs @ a # ys)" using tree io by (simp add: holds_tree_def)
  have "xs @ a # ys = (lefts c @ inorder l) @ a # (inorder r @ rights c)" using io s by simp
  from split_unique [OF this] dis have xs: "xs = lefts c @ inorder l" "ys = inorder r @ rights c" by auto
  have "length c \<le> length (inorder s)" using length_path [of c] s by simp
  with k have kc: "length c < k" by simp
  show ?thesis
  proof (cases "l = Leaf \<or> r = Leaf")
    case True
    from remove_worker_cut [OF tree [unfolded s] True kc, of 1] xs s show ?thesis by (simp add: numeral_2_eq_2 del: avl_remove_worker.simps)
  next
    case False
    then obtain l1 x l2 r1 y r2 where lr: "l = Node l1 x l2" "r = Node r1 y r2" by (auto simp: neq_Leaf_iff)
    have "tok (at_mem t) (Some a) r" and ptr: "lft t a = Some x" "rgt t a = Some y" using tree s lr by (auto simp: holds_tree_plug)
    have "length (inorder r) \<le> length (inorder s)" using s by simp
    then have "height r < k" using height_le_size_tree [of r] k by (simp del: inorder_plug)
    then obtain e m q where run: "avl_local_min k y t = Inr m" and r: "r = plug e (Node Leaf m q)" and e: "lefts e = []"
      using local_min_ok [of t "Some a" r1 y r2 k] \<open>tok (at_mem t) (Some a) r\<close> lr by blast
    let ?c = "e @ RF l a # c"
    have s1: "s = plug ?c (Node Leaf m q)" unfolding plug_append using s r by simp
    have "length ?c \<le> length (inorder s)" using length_path [of ?c] s1 by simp
    with k have "length ?c < k" by simp
    from remove_worker_cut [OF tree [unfolded s1] _ this, of 0] obtain t1 s2 where
      run1: "avl_remove_worker 1 k m t = Inr t1" and tree1: "holds_tree t1 s2" and io1: "inorder s2 = lefts ?c @ inorder q @ rights ?c"
      and keep1: "keeps (set_tree s) t t1" unfolding s1 [symmetric] by auto
    have ys: "ys = m # inorder q @ rights e @ rights c" using xs(2) r e by simp
    have io2: "inorder s2 = xs @ a # inorder q @ rights e @ rights c" using io1 xs(1) e by (simp add: lefts_append rights_append)
    have m: "m \<notin> set_tree s2" using dis io2 ys by (simp flip: set_inorder)
    have "a \<in> set_tree s2" using io2 by (simp flip: set_inorder)
    then obtain c2 l2 r2 where s2: "s2 = plug c2 (Node l2 a r2)" using tree_split by blast
    have "xs @ a # (inorder q @ rights e @ rights c) = (lefts c2 @ inorder l2) @ a # (inorder r2 @ rights c2)" using io2 s2 by simp
    from split_unique [OF this] dis ys have xs2: "xs = lefts c2 @ inorder l2" "inorder q @ rights e @ rights c = inorder r2 @ rights c2" by auto
    note ex = exchange_takes_place [OF tree1 [unfolded s2] m [unfolded s2]]
    let ?u = "upd m (\<lambda>n. n\<lparr>av_balance := bal t1 a, av_parent := prnt t1 a, av_left := lft t1 a, av_right := rgt t1 a\<rparr>) t1"
    let ?v = "set_parent_opt (lft ?u m) (Some m) ?u"
    let ?t = "replace_child (prnt t1 a) a (Some m) (set_parent_opt (rgt ?v m) (Some m) ?v)"
    have "holds_tree ?t (plug c2 (Node l2 m r2))" by (rule takes_place_ok [OF tree1 [unfolded s2] m [unfolded s2] ex])
    moreover have "inorder (plug c2 (Node l2 m r2)) = xs @ ys" using xs2 ys by simp
    moreover have "avl_remove_worker 2 k a t = Inr ?t" using ptr run run1 by (simp add: numeral_2_eq_2 Let_def del: avl_remove_worker.simps(2)) (simp add: avl_remove_worker.simps(2) Let_def)
    moreover have "set_tree s = insert m (set_tree s2)" using io io2 ys by (auto simp flip: set_inorder)
    then have "keeps (set_tree s) t1 ?t"
      using neighbours [OF tree1 [unfolded s2]] root_of_in [of l2] root_of_in [of r2] s2
      by (intro keeps_replace_child keeps_set_parent_opt keeps_upd keeps_refl) (auto split: if_splits)
    ultimately show ?thesis using keep1 keeps_trans by (intro exI [of _ ?t] exI [of _ "plug c2 (Node l2 m r2)"]) blast
  qed
qed

section \<open>Removal\<close>

text \<open>A list of groups around the element \<open>a\<close>: it is the first of its group, alone or not, or a follower.\<close>

lemma groups_split:
  assumes "concat gs = xs @ a # ys"
  shows "\<exists>gl g1 g2 gr. gs = gl @ (g1 @ a # g2) # gr \<and> xs = concat gl @ g1 \<and> ys = g2 @ concat gr"
  using assms
proof (induction gs arbitrary: xs)
  case (Cons g gs)
  show ?case
  proof (cases "length xs < length g")
    case True
    with Cons.prems obtain zs where "g = xs @ a # zs" "ys = zs @ concat gs"
      by (auto simp: append_eq_append_conv2 append_eq_Cons_conv Cons_eq_append_conv)
    then show ?thesis by (intro exI [of _ "[]"] exI [of _ xs] exI [of _ zs] exI [of _ gs]) simp
  next
    case False
    with Cons.prems obtain zs where z: "xs = g @ zs" "concat gs = zs @ a # ys"
      by (auto simp: append_eq_append_conv2 append_eq_Cons_conv Cons_eq_append_conv)
    from Cons.IH [OF z(2)] obtain gl g1 g2 gr where "gs = gl @ (g1 @ a # g2) # gr" "zs = concat gl @ g1" "ys = g2 @ concat gr" by blast
    with z(1) show ?thesis by (intro exI [of _ "g # gl"] exI [of _ g1] exI [of _ g2] exI [of _ gr]) simp
  qed
qed simp

text \<open>Taking the node out of the list, once the tree is as it should be.\<close>

lemma unlink_rep:
  assumes tree: "holds_tree u s" "inorder s = map hd gs" "groups_ok cmp u gs" and xs: "xs @ ys = concat gs"
    and dl: "dlist (at_links u) (at_head u) (xs @ a # ys)" and n: "at_count u = of_nat (length (xs @ a # ys))"
    and nf: "at_dups u \<or> (\<forall>y \<in> set (xs @ ys). \<not> fol u y)"
  shows "\<exists>t'. avl_unlink a u = Inr t' \<and> avl_rep cmp t' (xs @ ys) \<and> at_dups t' = at_dups u \<and> at_head t' = at_head u \<and> (\<forall>y. key_of t' y = key_of u y)"
proof -
  from dlist_remove [OF dl] obtain ls where ls: "oonf_list_remove a (at_links u) = Inr ls" "dlist ls (at_head u) (xs @ ys)" by blast
  define t' where "t' = u\<lparr>at_links := ls, at_count := at_count u - 1\<rparr>"
  have "avl_unlink a u = Inr t'" using ls(1) by (simp add: avl_unlink_def t'_def)
  moreover have "holds_tree t' s" using tree(1) by (rule holds_tree_frame) (simp_all add: t'_def)
  moreover have "groups_ok cmp t' gs" using tree(3) by (rule groups_ok_frame) (simp add: t'_def)
  moreover have "at_count t' = of_nat (length (xs @ ys))" using n by (simp add: t'_def)
  ultimately show ?thesis using tree(2) xs ls(2) nf unfolding avl_rep_def
    by (intro exI [of _ t'] conjI exI [of _ s] exI [of _ gs]) (simp_all add: t'_def)
qed

lemma group_in_tree: "inorder s = map hd gs \<Longrightarrow> g \<in> set gs \<Longrightarrow> hd g \<in> set_tree s"
  by (simp flip: set_inorder)

text \<open>The cases of \<open>avl_remove\<close>, told by what follows the node.\<close>

lemma remove_follower_step: "fol t a \<Longrightarrow> avl_remove n a t = avl_unlink a t"
  by (simp add: avl_remove_def)

lemma remove_hand_over_step:
  assumes "\<not> fol t a" and "at_dups t" and "fol t b" and "dlist (at_links t) (at_head t) (xs @ a # b # ys)"
  shows "avl_remove n a t = avl_unlink a (avl_hand_over a b t)"
proof -
  have "distinct (at_head t # xs @ a # b # ys)" using assms(4) by (simp add: dlist_def)
  moreover have "xs @ a # b # ys \<noteq> zs @ [a]" if "distinct (xs @ a # b # ys)" for zs
  proof
    assume "xs @ a # b # ys = zs @ [a]"
    then have "last (xs @ a # b # ys) = a" by simp
    then have "last (b # ys) = a" by simp
    with that last_in_set [of "b # ys"] show False by (simp del: last.simps)
  qed
  ultimately have "\<not> oonf_list_is_last (at_head t) a (at_links t)" using dlist_is_last [OF assms(4), of a] by auto
  with dlist_nexts [OF assms(4)] assms(1-3) show ?thesis by (simp add: avl_remove_def)
qed

lemma remove_worker_step:
  assumes "\<not> fol t a" and "ys = [] \<or> \<not> fol t (hd ys)" and "dlist (at_links t) (at_head t) (xs @ a # ys)"
  shows "avl_remove n a t = bnd (avl_remove_worker 2 n a t) (avl_unlink a)"
proof (cases ys)
  case Nil
  have "a \<noteq> at_head t" using assms(3) by (auto simp: dlist_def)
  with dlist_is_last [OF assms(3)] Nil assms(1) show ?thesis by (simp add: avl_remove_def del: avl_remove_worker.simps)
next
  case (Cons b zs)
  with dlist_nexts [OF assms(3)] assms(1,2) show ?thesis by (simp add: avl_remove_def del: avl_remove_worker.simps)
qed

lemma hand_over_fields:
  assumes "holds_tree t (plug c (Node l a r))" and "b \<notin> set_tree (plug c (Node l a r))"
  shows "at_links (avl_hand_over a b t) = at_links t \<and> at_head (avl_hand_over a b t) = at_head t \<and> at_count (avl_hand_over a b t) = at_count t \<and>
    at_dups (avl_hand_over a b t) = at_dups t \<and> (\<forall>y. key_of (avl_hand_over a b t) y = key_of t y \<and> fol (avl_hand_over a b t) y = (fol t y \<and> y \<noteq> b))"
  by (auto simp: avl_hand_over_def Let_def)

context key_order
begin

lemma equal_sgn:
  assumes "cmp a b = 0"
  shows "cmp a x < 0 \<longleftrightarrow> cmp b x < 0" and "cmp x a < 0 \<longleftrightarrow> cmp x b < 0" and "cmp a x = 0 \<longleftrightarrow> cmp b x = 0"
proof -
  have "cmp b a = 0" using assms equal_sym by blast
  with assms show "cmp a x < 0 \<longleftrightarrow> cmp b x < 0" "cmp x a < 0 \<longleftrightarrow> cmp x b < 0" "cmp a x = 0 \<longleftrightarrow> cmp b x = 0"
    using equal_less less_equal equal_trans by blast+
qed

lemma groups_ok_next:
  assumes gs: "groups_ok cmp t (gl @ (a # f # g) # gr)" and d: "distinct (concat (gl @ (a # f # g) # gr))"
    and u: "\<And>y. key_of u y = key_of t y \<and> fol u y = (fol t y \<and> y \<noteq> f)"
  shows "groups_ok cmp u (gl @ (f # g) # gr)"
proof -
  have f: "cmp (key_of t a) (key_of t f) = 0" using gs by (simp add: groups_ok_def group_ok_def)
  note sg = equal_sgn [OF f]
  have other: "group_ok cmp u h" if "h \<in> set gl \<union> set gr" for h
  proof -
    have "group_ok cmp t h" "f \<notin> set h" using gs d that by (auto simp: groups_ok_def)
    moreover have "f \<notin> set (tl h)" using \<open>f \<notin> set h\<close> list.set_sel(2) [of h f] by (cases h) auto
    ultimately show ?thesis using u by (auto simp: group_ok_def)
  qed
  moreover have "group_ok cmp u (f # g)"
    using gs d u sg(3) by (auto simp: groups_ok_def group_ok_def)
  moreover have "sorted_wrt (\<lambda>a b. cmp (key_of u a) (key_of u b) < 0) (map hd (gl @ (f # g) # gr))"
    using gs u sg(1,2) by (auto simp: groups_ok_def sorted_wrt_append)
  ultimately show ?thesis unfolding groups_ok_def by auto
qed

lemma avl_remove_ok:
  assumes rep: "avl_rep cmp t (xs @ a # ys)" and fuel: "length (xs @ a # ys) < n"
  shows "\<exists>t'. avl_remove n a t = Inr t' \<and> avl_rep cmp t' (xs @ ys) \<and> at_dups t' = at_dups t \<and> at_head t' = at_head t \<and> (\<forall>y. key_of t' y = key_of t y)"
proof -
  from rep obtain s gs where tree: "holds_tree t s" and io: "inorder s = map hd gs" and gs: "groups_ok cmp t gs" and cs: "concat gs = xs @ a # ys"
    and dl: "dlist (at_links t) (at_head t) (xs @ a # ys)" and cnt: "at_count t = of_nat (length (xs @ a # ys))"
    and nf: "at_dups t \<or> (\<forall>y \<in> set (xs @ a # ys). \<not> fol t y)" unfolding avl_rep_def by metis
  from groups_split [OF cs] obtain gl g1 g2 gr where split: "gs = gl @ (g1 @ a # g2) # gr" "xs = concat gl @ g1" "ys = g2 @ concat gr" by blast
  have grp: "group_ok cmp t (g1 @ a # g2)" using gs split(1) by (simp add: groups_ok_def)
  have dis: "distinct (xs @ a # ys)" using dl by (simp add: dlist_def)
  consider (follower) b g where "g1 = b # g" | (heir) b g where "g1 = []" "g2 = b # g" | (single) "g1 = []" "g2 = []" by (cases g1; cases g2) auto
  then show ?thesis
  proof cases
    case follower
    have "group_ok cmp t (g1 @ g2)" using grp follower by (auto simp: group_ok_def)
    then have "groups_ok cmp t (gl @ (g1 @ g2) # gr)" using gs split(1) follower by (auto intro: groups_ok_swap)
    moreover have "inorder s = map hd (gl @ (g1 @ g2) # gr)" using io split(1) follower by simp
    ultimately have "\<exists>t'. avl_unlink a t = Inr t' \<and> avl_rep cmp t' (xs @ ys) \<and> at_dups t' = at_dups t \<and> at_head t' = at_head t \<and> (\<forall>y. key_of t' y = key_of t y)"
      using dl cnt nf split(2,3) by (intro unlink_rep [OF tree]) auto
    moreover have "fol t a" using grp follower by (simp add: group_ok_def)
    ultimately show ?thesis by (simp add: remove_follower_step)
  next
    case heir
    have fol: "\<not> fol t a" "fol t b" using grp heir by (simp_all add: group_ok_def)
    have dups: "at_dups t" using nf fol(2) split heir by auto
    have "a \<in> set_tree s" using group_in_tree [OF io, of "a # g2"] split heir by simp
    then obtain c l r where s: "s = plug c (Node l a r)" using tree_split by blast
    have b: "b \<notin> set_tree s"
    proof
      assume "b \<in> set_tree s"
      then have "b \<in> hd ` set gs" using io by (simp flip: set_inorder)
      then show False using gs fol(2) by (auto simp: groups_ok_def group_ok_def)
    qed
    let ?u = "avl_hand_over a b t"
    note fields = hand_over_fields [OF tree [unfolded s] b [unfolded s]]
    have "holds_tree ?u (plug c (Node l b r))"
      by (rule takes_place_ok [OF tree [unfolded s] b [unfolded s] hand_over_takes_place [OF tree [unfolded s] b [unfolded s]]])
    moreover have "inorder (plug c (Node l b r)) = map hd (gl @ g2 # gr)"
    proof -
      have "(lefts c @ inorder l) @ a # (inorder r @ rights c) = map hd gl @ a # map hd gr" using io split(1) heir s by simp
      moreover have "distinct (inorder s)" using tree by (simp add: holds_tree_def)
      then have "a \<notin> set (lefts c @ inorder l)" "a \<notin> set (inorder r @ rights c)" using s by auto
      ultimately have "lefts c @ inorder l = map hd gl \<and> inorder r @ rights c = map hd gr" by (rule split_unique)
      with heir show ?thesis by simp
    qed
    moreover have "groups_ok cmp ?u (gl @ g2 # gr)" unfolding heir(2)
    proof (rule groups_ok_next [of t])
      show "groups_ok cmp t (gl @ (a # b # g) # gr)" using gs split(1) heir by simp
      show "distinct (concat (gl @ (a # b # g) # gr))" using dis split heir by simp
    qed (use fields in blast)
    ultimately have "\<exists>t'. avl_unlink a ?u = Inr t' \<and> avl_rep cmp t' (xs @ ys) \<and> at_dups t' = at_dups ?u \<and> at_head t' = at_head ?u \<and> (\<forall>y. key_of t' y = key_of ?u y)"
    proof (rule unlink_rep)
      show "xs @ ys = concat (gl @ g2 # gr)" using split heir by simp
      show "dlist (at_links ?u) (at_head ?u) (xs @ a # ys)" using dl fields by simp
      show "at_count ?u = of_nat (length (xs @ a # ys))" using cnt fields by simp
      show "at_dups ?u \<or> (\<forall>y \<in> set (xs @ ys). \<not> fol ?u y)" using dups fields by simp
    qed
    moreover have "avl_remove n a t = avl_unlink a ?u" using fol dups dl heir split by (intro remove_hand_over_step) auto
    ultimately show ?thesis using fields by simp
  next
    case single
    have fol: "\<not> fol t a" using grp single by (simp add: group_ok_def)
    have "inorder s = map hd gl @ a # map hd gr" using io split(1) single by simp
    moreover have "length gs \<le> length (concat gs)" by (rule length_groups [OF gs])
    then have "size s < n" using arg_cong [OF io, of length] fuel cs by simp
    ultimately obtain u s' where run: "avl_remove_worker 2 n a t = Inr u" and u: "holds_tree u s'" "inorder s' = map hd gl @ map hd gr" and keep: "keeps (set_tree s) t u"
      using remove_worker_ok [OF tree] by blast
    note kp = keepsD [OF keep]
    have "groups_ok cmp t (gl @ gr)" using gs split(1) by (simp add: groups_ok_append) (simp add: groups_ok_def)
    then have "groups_ok cmp u (gl @ gr)" by (rule groups_ok_frame) (use kp in simp)
    then have "\<exists>t'. avl_unlink a u = Inr t' \<and> avl_rep cmp t' (xs @ ys) \<and> at_dups t' = at_dups u \<and> at_head t' = at_head u \<and> (\<forall>y. key_of t' y = key_of u y)"
      using dl cnt nf kp u split single by (intro unlink_rep [OF u(1)]) auto
    moreover have "ys = [] \<or> \<not> fol t (hd ys)"
      using gs split single by (cases gr) (auto simp: groups_ok_def group_ok_def hd_append)
    with fol have "avl_remove n a t = bnd (avl_remove_worker 2 n a t) (avl_unlink a)" using dl by (rule remove_worker_step)
    ultimately show ?thesis using run kp by simp
  qed
qed

end

section \<open>The trees refine sorted lists\<close>

text \<open>An empty tree, and a tree with two elements of one key: the element 7 follows the element 5.\<close>

lemma avl_init_rep: "avl_rep cmp (avl_init d t) []"
  unfolding avl_rep_def by (intro conjI exI [of _ Leaf] exI [of _ "[]"]) (simp_all add: avl_init_def holds_tree_def groups_ok_def)

definition tree_ref :: "u8 avl_tree" where
  "tree_ref = \<lparr>at_links = links_ref,
     at_mem = (\<lambda>a. \<lparr>av_parent = None, av_left = None, av_right = None, av_key = 3, av_balance = 0, av_follower = (a = 7)\<rparr>),
     at_head = 0, at_root = Some 5, at_count = 2, at_dups = True\<rparr>"

lemma tree_ref_rep: "avl_rep avl_comp tree_ref [5, 7]"
  unfolding avl_rep_def
  by (intro conjI exI [of _ "Node Leaf 5 Leaf"] exI [of _ "[[5, 7]]"])
    (simp_all add: tree_ref_def holds_tree_def diff_def groups_ok_def group_ok_def dlist_ref)

text \<open>
  C6. \<open>avl_insert\<close> refines insertion into a sorted list: on any well-formed tree (ordered, balanced, threaded by its
  list) that holds the elements \<open>xs\<close>, and a node that is not in it, it never faults and leaves a well-formed tree that
  holds \<open>tree_add\<close> of the node to \<open>xs\<close>; without duplicates a node whose key is there is refused with -1 and
  the tree holds the same elements. Fuel above the number of elements is enough.
\<close>

theorem avl_insert_refines:
  assumes "avl_rep avl_comp t xs" and "new \<notin> insert (at_head t) (set xs)" and "length xs < n"
  shows "\<exists>r t'. avl_insert n avl_comp new t = Inr (r, t') \<and> at_dups t' = at_dups t \<and> at_head t' = at_head t \<and> (\<forall>y. key_of t' y = key_of t y) \<and>
    (if \<not> at_dups t \<and> (\<exists>y \<in> set xs. key_of t new = key_of t y) then r = -1 \<and> avl_rep avl_comp t' xs
     else r = 0 \<and> avl_rep avl_comp t' (tree_add (\<lambda>y. avl_comp (key_of t new) (key_of t y)) new xs))"
  using avl_keys.avl_insert_ok [OF assms] by simp

theorem avl_insert_refines_witness:
  "\<exists>t'. avl_insert 3 avl_comp 9 tree_ref = Inr (0, t') \<and> avl_rep avl_comp t' [5, 9, 7]"
proof -
  have "at_head tree_ref = 0" "at_dups tree_ref" "key_of tree_ref y = 3" for y by (simp_all add: tree_ref_def)
  then show ?thesis using avl_insert_refines [OF tree_ref_rep, of 9 3] by auto
qed

text \<open>
  C8. \<open>avl_find\<close> refines a search of the list: it returns the first of the elements with the key, and NULL
  when there is none.
\<close>

theorem avl_find_refines:
  assumes "avl_rep avl_comp t xs" and "length xs < n"
  shows "avl_find n avl_comp k t = Inr (find (\<lambda>y. key_of t y = k) xs)"
  using avl_keys.avl_find_ok [OF assms, of k] by (simp add: eq_commute [of k])

theorem avl_find_refines_witness: "avl_find 3 avl_comp 3 tree_ref = Inr (Some 5) \<and> avl_find 3 avl_comp 4 tree_ref = Inr None"
  using avl_find_refines [OF tree_ref_rep, of 3 3] avl_find_refines [OF tree_ref_rep, of 3 4] by (simp add: tree_ref_def)

text \<open>
  C7. \<open>avl_remove\<close> refines taking an element out of the list: it never faults on a well-formed tree and leaves
  a well-formed (in particular, balanced) tree with the other elements in their order; a node with followers
  hands its place in the tree over to the first of them.
\<close>

theorem avl_remove_refines:
  assumes "avl_rep avl_comp t (xs @ a # ys)" and "length (xs @ a # ys) < n"
  shows "\<exists>t'. avl_remove n a t = Inr t' \<and> avl_rep avl_comp t' (xs @ ys) \<and> at_dups t' = at_dups t \<and> at_head t' = at_head t \<and>
    (\<forall>y. key_of t' y = key_of t y)"
  by (rule avl_keys.avl_remove_ok [OF assms])

theorem avl_remove_refines_witness: "\<exists>t'. avl_remove 3 5 tree_ref = Inr t' \<and> avl_rep avl_comp t' [7]"
  using avl_remove_refines [of tree_ref "[]" 5 "[7]" 3] tree_ref_rep by auto

end
