(* ===== verification/Bq27441.thy ===== *)
theory Bq27441
  imports Riot
begin

text \<open>
  The driver of the BQ27441 fuel gauge, \<open>mesh/sys/drivers/bq27441/bq27441.c\<close>. The I2C bus, the timer and the
  uninitialised stack are parameters in the record \<open>gauge\<close>, which also logs what the driver does on the bus.
  Every call passes two bytes to \<open>_bq27441_write_regs\<close> and \<open>_bq27441_read_regs\<close>, so their assertions on
  the length hold.
\<close>

section \<open>Registers\<close>

definition BQ27441_REG_CONTROL :: u16 where "BQ27441_REG_CONTROL = 0x00"
definition BQ27441_REG_TEMPERATURE :: u16 where "BQ27441_REG_TEMPERATURE = 0x02"
definition BQ27441_REG_VOLTAGE :: u16 where "BQ27441_REG_VOLTAGE = 0x04"
definition BQ27441_REG_FLAGS :: u16 where "BQ27441_REG_FLAGS = 0x06"
definition BQ27441_REG_NOMINAL_AVAILABLE_CAPACITY :: u16 where "BQ27441_REG_NOMINAL_AVAILABLE_CAPACITY = 0x08"
definition BQ27441_REG_FULL_AVAILABLE_CAPACITY :: u16 where "BQ27441_REG_FULL_AVAILABLE_CAPACITY = 0x0a"
definition BQ27441_REG_REMAINING_CAPACITY :: u16 where "BQ27441_REG_REMAINING_CAPACITY = 0x0c"
definition BQ27441_REG_FULL_CHARGE_CAPACITY :: u16 where "BQ27441_REG_FULL_CHARGE_CAPACITY = 0x0e"
definition BQ27441_REG_AVERAGE_CURRENT :: u16 where "BQ27441_REG_AVERAGE_CURRENT = 0x10"
definition BQ27441_REG_STANDBY_CURRENT :: u16 where "BQ27441_REG_STANDBY_CURRENT = 0x12"
definition BQ27441_REG_MAX_LOAD_CURRENT :: u16 where "BQ27441_REG_MAX_LOAD_CURRENT = 0x14"
definition BQ27441_REG_AVERAGE_POWER :: u16 where "BQ27441_REG_AVERAGE_POWER = 0x18"
definition BQ27441_REG_STATE_OF_CHARGE :: u16 where "BQ27441_REG_STATE_OF_CHARGE = 0x1c"
definition BQ27441_REG_INTERNAL_TEMPERATURE :: u16 where "BQ27441_REG_INTERNAL_TEMPERATURE = 0x1e"
definition BQ27441_REG_STATE_OF_HEALTH :: u16 where "BQ27441_REG_STATE_OF_HEALTH = 0x20"
definition BQ27441_REG_REMAINING_CAPACITY_UNFILTERED :: u16 where "BQ27441_REG_REMAINING_CAPACITY_UNFILTERED = 0x28"
definition BQ27441_REG_REMAINING_CAPACITY_FILTERED :: u16 where "BQ27441_REG_REMAINING_CAPACITY_FILTERED = 0x2a"
definition BQ27441_REG_FULL_CHARGE_CAPACITY_UNFILTERED :: u16 where "BQ27441_REG_FULL_CHARGE_CAPACITY_UNFILTERED = 0x2c"
definition BQ27441_REG_FULL_CHARGE_CAPACITY_FILTERED :: u16 where "BQ27441_REG_FULL_CHARGE_CAPACITY_FILTERED = 0x2e"
definition BQ27441_REG_STATE_OF_CHARGE_UNFILTERED :: u16 where "BQ27441_REG_STATE_OF_CHARGE_UNFILTERED = 0x30"
definition BQ27441_CONTROL_CONTROL_STATUS :: u16 where "BQ27441_CONTROL_CONTROL_STATUS = 0"
definition BQ27441_CONTROL_SEALED :: u16 where "BQ27441_CONTROL_SEALED = 0x20"
definition BQ27441_CONTROL_UNSEAL :: u16 where "BQ27441_CONTROL_UNSEAL = 0x8000"
definition BQ27441_CONTROL_STATUS_SS :: u16 where "BQ27441_CONTROL_STATUS_SS = 0x2000"

definition BQ27441_BUS_FREE_US :: u32 where "BQ27441_BUS_FREE_US = 66"
definition BQ27441_OK :: int where "BQ27441_OK = 0"
definition BQ27441_ERROR_I2C :: int where "BQ27441_ERROR_I2C = -1"

section \<open>State\<close>

datatype bus_op = I2cAcquire | I2cRelease | I2cWrite u16 u8 | I2cRead u16 | Usleep u32

text \<open>
  The \<open>k\<close>-th call on the bus or the clock is answered by the entry \<open>k\<close>: a read gives a byte or fails, a
  write succeeds or fails. \<open>g_uint64\<close> is RIOT's \<open>timex_uint64\<close>, \<open>g_stack\<close> what the two bytes of an
  uninitialised buffer hold.
\<close>

record gauge =
  g_read :: "nat \<Rightarrow> u16 \<Rightarrow> u8 option"
  g_write_ok :: "nat \<Rightarrow> bool"
  g_now :: "nat \<Rightarrow> timex"
  g_uint64 :: "timex \<Rightarrow> u64"
  g_stack :: "u8 \<times> u8"
  g_tick :: nat
  g_log :: "bus_op list"

record bq27441_params =
  bq_dev :: nat
  bq_design_cap :: int

record bq27441 =
  bq_params :: bq27441_params
  bq_last0 :: timex
  bq_last1 :: timex

definition g_do :: "bus_op \<Rightarrow> gauge \<Rightarrow> gauge" where
  "g_do e g = g\<lparr>g_log := g_log g @ [e]\<rparr>"

definition g_next :: "gauge \<Rightarrow> gauge" where
  "g_next g = g\<lparr>g_tick := Suc (g_tick g)\<rparr>"

section \<open>Pacing\<close>

definition cmd_wait_time :: "riot \<Rightarrow> bq27441 \<Rightarrow> gauge \<Rightarrow> bq27441 \<times> gauge" where
  "cmd_wait_time R dev g =
     (let null = timex_set R 0 0; sec = timex_set R 1 0; diff = timex_sub R (bq_last1 dev) (bq_last0 dev) in
      if timex_cmp R diff sec < 0 \<and> timex_cmp R (bq_last0 dev) null \<noteq> 0 \<and> timex_cmp R (bq_last1 dev) null \<noteq> 0
      then (dev\<lparr>bq_last0 := null, bq_last1 := null\<rparr>, g_do (Usleep (ucast (g_uint64 g diff))) g)
      else (dev, g))"

definition cmd_update_timestamp :: "riot \<Rightarrow> bq27441 \<Rightarrow> gauge \<Rightarrow> bq27441 \<times> gauge" where
  "cmd_update_timestamp R dev g =
     (let null = timex_set R 0 0; now = g_now g (g_tick g); g = g_next g in
      if timex_cmp R (bq_last0 dev) null = 0 then (dev\<lparr>bq_last0 := now, bq_last1 := null\<rparr>, g)
      else (dev\<lparr>bq_last1 := now\<rparr>, g))"

section \<open>The bus\<close>

text \<open>The loop of \<open>_bq27441_write_regs\<close>: whether all bytes were written. Its register is \<open>reg + 1\<close> for every byte.\<close>

fun write_bytes :: "u16 \<Rightarrow> u8 list \<Rightarrow> gauge \<Rightarrow> bool \<times> gauge" where
  "write_bytes reg [] g = (True, g)"
| "write_bytes reg (b # bs) g =
     (let ok = g_write_ok g (g_tick g); g = g_next (g_do (I2cWrite (reg + 1) b) g) in
      if \<not> ok then (False, g) else write_bytes reg bs (g_do (Usleep BQ27441_BUS_FREE_US) g))"

definition bq27441_write_regs :: "riot \<Rightarrow> u8 \<Rightarrow> u8 \<times> u8 \<Rightarrow> bq27441 \<Rightarrow> gauge \<Rightarrow> int \<times> bq27441 \<times> gauge" where
  "bq27441_write_regs R reg bytes dev g =
     (let (dev, g) = cmd_wait_time R dev (g_do I2cAcquire g);
          (ok, g) = write_bytes (ucast reg) [fst bytes, snd bytes] g
      in if \<not> ok then (BQ27441_ERROR_I2C, dev, g_do I2cRelease g)
         else let (dev, g) = cmd_update_timestamp R dev g in (BQ27441_OK, dev, g_do I2cRelease g))"

text \<open>
  The loop of \<open>_bq27441_read_regs\<close>: \<open>buf\<close> is the buffer, filled from index \<open>i\<close> on while reads succeed.
\<close>

fun read_bytes :: "u16 \<Rightarrow> nat \<Rightarrow> nat \<Rightarrow> u8 list \<Rightarrow> gauge \<Rightarrow> bool \<times> u8 list \<times> gauge" where
  "read_bytes reg i 0 buf g = (True, buf, g)"
| "read_bytes reg i (Suc k) buf g =
     (let r = g_read g (g_tick g) (reg + of_nat i); g = g_next (g_do (I2cRead (reg + of_nat i)) g) in
      case r of
        None \<Rightarrow> (False, buf, g)
      | Some b \<Rightarrow> read_bytes reg (Suc i) k (buf[i := b]) (g_do (Usleep BQ27441_BUS_FREE_US) g))"

definition bq27441_read_regs :: "riot \<Rightarrow> u8 \<Rightarrow> u8 list \<Rightarrow> bq27441 \<Rightarrow> gauge \<Rightarrow> int \<times> u8 list \<times> bq27441 \<times> gauge" where
  "bq27441_read_regs R reg buf dev g =
     (let (dev, g) = cmd_wait_time R dev (g_do I2cAcquire g);
          (ok, buf, g) = read_bytes (ucast reg) 0 (length buf) buf g
      in if \<not> ok then (BQ27441_ERROR_I2C, buf, dev, g_do I2cRelease g)
         else let (dev, g) = cmd_update_timestamp R dev g in (BQ27441_OK, buf, dev, g_do I2cRelease g))"

text \<open>\<open>_bq27441_read_word\<close>: the register number is cut to 8 bits; the word is written even after an error.\<close>

definition bq27441_read_word :: "riot \<Rightarrow> u16 \<Rightarrow> bq27441 \<Rightarrow> gauge \<Rightarrow> int \<times> u16 \<times> bq27441 \<times> gauge" where
  "bq27441_read_word R reg dev g =
     (let (r, buf, dev, g) = bq27441_read_regs R (ucast reg) [fst (g_stack g), snd (g_stack g)] dev g
      in (r, push_bit 8 (ucast (buf ! 1)) OR ucast (buf ! 0), dev, g))"

section \<open>Commands\<close>

text \<open>\<open>bq27441_init\<close> leaves the timestamps as they are.\<close>

definition bq27441_init :: "bq27441_params \<Rightarrow> bq27441 \<Rightarrow> int \<times> bq27441" where
  "bq27441_init params dev = (BQ27441_OK, dev\<lparr>bq_params := params\<rparr>)"

text \<open>\<open>want\<close>: the caller gave a place for the result.\<close>

definition bq27441_control :: "riot \<Rightarrow> u16 \<Rightarrow> bool \<Rightarrow> bq27441 \<Rightarrow> gauge \<Rightarrow> int \<times> u16 option \<times> bq27441 \<times> gauge" where
  "bq27441_control R f want dev g =
     (let (r, dev, g) = bq27441_write_regs R (ucast BQ27441_REG_CONTROL) (ucast (f AND 0xff), ucast (drop_bit 8 f)) dev g
      in if r \<noteq> BQ27441_OK then (r, None, dev, g)
         else if want then let (r, v, dev, g) = bq27441_read_word R BQ27441_REG_CONTROL dev g in (r, Some v, dev, g)
         else (BQ27441_OK, None, dev, g))"

definition bq27441_unseal :: "riot \<Rightarrow> bq27441 \<Rightarrow> gauge \<Rightarrow> int \<times> bq27441 \<times> gauge" where
  "bq27441_unseal R dev g =
     (let (r, _, dev, g) = bq27441_control R BQ27441_CONTROL_UNSEAL False dev g in
      if r \<noteq> BQ27441_OK then (r, dev, g)
      else let (r, _, dev, g) = bq27441_control R BQ27441_CONTROL_UNSEAL False dev g in
        if r \<noteq> BQ27441_OK then (r, dev, g) else (BQ27441_OK, dev, g))"

definition bq27441_seal :: "riot \<Rightarrow> bq27441 \<Rightarrow> gauge \<Rightarrow> int \<times> bq27441 \<times> gauge" where
  "bq27441_seal R dev g = (let (r, _, dev, g) = bq27441_control R BQ27441_CONTROL_SEALED False dev g in (r, dev, g))"

text \<open>\<open>sealed\<close> is the flag as the caller had it; it is set when the status can be read.\<close>

definition bq27441_sealed :: "riot \<Rightarrow> bool \<Rightarrow> bq27441 \<Rightarrow> gauge \<Rightarrow> int \<times> bool \<times> bq27441 \<times> gauge" where
  "bq27441_sealed R sealed dev g =
     (let (r, v, dev, g) = bq27441_control R BQ27441_CONTROL_CONTROL_STATUS True dev g in
      if r \<noteq> BQ27441_OK then (r, sealed, dev, g)
      else (BQ27441_OK, the v AND BQ27441_CONTROL_STATUS_SS \<noteq> 0, dev, g))"

definition bq27441_set_temperature :: "riot \<Rightarrow> u16 \<Rightarrow> bq27441 \<Rightarrow> gauge \<Rightarrow> int \<times> bq27441 \<times> gauge" where
  "bq27441_set_temperature R t = bq27441_write_regs R (ucast BQ27441_REG_TEMPERATURE) (ucast (t AND 0xff), ucast (drop_bit 8 t))"

section \<open>Measurements\<close>

text \<open>Currents and power are signed: \<open>bq27441_read_word\<close> fills them through a cast pointer, so the word is read by \<open>sint\<close>.\<close>

definition bq27441_temperature :: "riot \<Rightarrow> bq27441 \<Rightarrow> gauge \<Rightarrow> int \<times> u16 \<times> bq27441 \<times> gauge" where
  "bq27441_temperature R = bq27441_read_word R BQ27441_REG_TEMPERATURE"

definition bq27441_voltage :: "riot \<Rightarrow> bq27441 \<Rightarrow> gauge \<Rightarrow> int \<times> u16 \<times> bq27441 \<times> gauge" where
  "bq27441_voltage R = bq27441_read_word R BQ27441_REG_VOLTAGE"

definition bq27441_flags :: "riot \<Rightarrow> bq27441 \<Rightarrow> gauge \<Rightarrow> int \<times> u16 \<times> bq27441 \<times> gauge" where
  "bq27441_flags R = bq27441_read_word R BQ27441_REG_FLAGS"

definition bq27441_nominal_available_capacity :: "riot \<Rightarrow> bq27441 \<Rightarrow> gauge \<Rightarrow> int \<times> u16 \<times> bq27441 \<times> gauge" where
  "bq27441_nominal_available_capacity R = bq27441_read_word R BQ27441_REG_NOMINAL_AVAILABLE_CAPACITY"

definition bq27441_full_available_capacity :: "riot \<Rightarrow> bq27441 \<Rightarrow> gauge \<Rightarrow> int \<times> u16 \<times> bq27441 \<times> gauge" where
  "bq27441_full_available_capacity R = bq27441_read_word R BQ27441_REG_FULL_AVAILABLE_CAPACITY"

definition bq27441_remaining_capacity :: "riot \<Rightarrow> bq27441 \<Rightarrow> gauge \<Rightarrow> int \<times> u16 \<times> bq27441 \<times> gauge" where
  "bq27441_remaining_capacity R = bq27441_read_word R BQ27441_REG_REMAINING_CAPACITY"

definition bq27441_full_charge_capacity :: "riot \<Rightarrow> bq27441 \<Rightarrow> gauge \<Rightarrow> int \<times> u16 \<times> bq27441 \<times> gauge" where
  "bq27441_full_charge_capacity R = bq27441_read_word R BQ27441_REG_FULL_CHARGE_CAPACITY"

definition bq27441_average_current :: "riot \<Rightarrow> bq27441 \<Rightarrow> gauge \<Rightarrow> int \<times> int \<times> bq27441 \<times> gauge" where
  "bq27441_average_current R dev g = (let (r, v, s) = bq27441_read_word R BQ27441_REG_AVERAGE_CURRENT dev g in (r, sint v, s))"

definition bq27441_standby_current :: "riot \<Rightarrow> bq27441 \<Rightarrow> gauge \<Rightarrow> int \<times> int \<times> bq27441 \<times> gauge" where
  "bq27441_standby_current R dev g = (let (r, v, s) = bq27441_read_word R BQ27441_REG_STANDBY_CURRENT dev g in (r, sint v, s))"

definition bq27441_max_load_current :: "riot \<Rightarrow> bq27441 \<Rightarrow> gauge \<Rightarrow> int \<times> int \<times> bq27441 \<times> gauge" where
  "bq27441_max_load_current R dev g = (let (r, v, s) = bq27441_read_word R BQ27441_REG_MAX_LOAD_CURRENT dev g in (r, sint v, s))"

definition bq27441_average_power :: "riot \<Rightarrow> bq27441 \<Rightarrow> gauge \<Rightarrow> int \<times> int \<times> bq27441 \<times> gauge" where
  "bq27441_average_power R dev g = (let (r, v, s) = bq27441_read_word R BQ27441_REG_AVERAGE_POWER dev g in (r, sint v, s))"

definition bq27441_state_of_charge :: "riot \<Rightarrow> bq27441 \<Rightarrow> gauge \<Rightarrow> int \<times> u16 \<times> bq27441 \<times> gauge" where
  "bq27441_state_of_charge R = bq27441_read_word R BQ27441_REG_STATE_OF_CHARGE"

definition bq27441_internal_temperature :: "riot \<Rightarrow> bq27441 \<Rightarrow> gauge \<Rightarrow> int \<times> u16 \<times> bq27441 \<times> gauge" where
  "bq27441_internal_temperature R = bq27441_read_word R BQ27441_REG_INTERNAL_TEMPERATURE"

definition bq27441_state_of_health :: "riot \<Rightarrow> bq27441 \<Rightarrow> gauge \<Rightarrow> int \<times> u16 \<times> bq27441 \<times> gauge" where
  "bq27441_state_of_health R = bq27441_read_word R BQ27441_REG_STATE_OF_HEALTH"

definition bq27441_remaining_capacity_unfiltered :: "riot \<Rightarrow> bq27441 \<Rightarrow> gauge \<Rightarrow> int \<times> u16 \<times> bq27441 \<times> gauge" where
  "bq27441_remaining_capacity_unfiltered R = bq27441_read_word R BQ27441_REG_REMAINING_CAPACITY_UNFILTERED"

definition bq27441_remaining_capacity_filtered :: "riot \<Rightarrow> bq27441 \<Rightarrow> gauge \<Rightarrow> int \<times> u16 \<times> bq27441 \<times> gauge" where
  "bq27441_remaining_capacity_filtered R = bq27441_read_word R BQ27441_REG_REMAINING_CAPACITY_FILTERED"

definition bq27441_full_charge_capacity_unfiltered :: "riot \<Rightarrow> bq27441 \<Rightarrow> gauge \<Rightarrow> int \<times> u16 \<times> bq27441 \<times> gauge" where
  "bq27441_full_charge_capacity_unfiltered R = bq27441_read_word R BQ27441_REG_FULL_CHARGE_CAPACITY_UNFILTERED"

definition bq27441_full_charge_capacity_filtered :: "riot \<Rightarrow> bq27441 \<Rightarrow> gauge \<Rightarrow> int \<times> u16 \<times> bq27441 \<times> gauge" where
  "bq27441_full_charge_capacity_filtered R = bq27441_read_word R BQ27441_REG_FULL_CHARGE_CAPACITY_FILTERED"

definition bq27441_state_of_charge_unfiltered :: "riot \<Rightarrow> bq27441 \<Rightarrow> gauge \<Rightarrow> int \<times> u16 \<times> bq27441 \<times> gauge" where
  "bq27441_state_of_charge_unfiltered R = bq27441_read_word R BQ27441_REG_STATE_OF_CHARGE_UNFILTERED"

section \<open>What reaches the gauge\<close>

lemma g_do_simps [simp]:
  "g_log (g_do e g) = g_log g @ [e]" "g_tick (g_do e g) = g_tick g" "g_read (g_do e g) = g_read g"
  "g_write_ok (g_do e g) = g_write_ok g" "g_now (g_do e g) = g_now g" "g_stack (g_do e g) = g_stack g"
  "g_uint64 (g_do e g) = g_uint64 g"
  by (simp_all add: g_do_def)

lemma g_next_simps [simp]:
  "g_log (g_next g) = g_log g" "g_tick (g_next g) = Suc (g_tick g)" "g_read (g_next g) = g_read g"
  "g_write_ok (g_next g) = g_write_ok g" "g_now (g_next g) = g_now g" "g_stack (g_next g) = g_stack g"
  "g_uint64 (g_next g) = g_uint64 g"
  by (simp_all add: g_next_def)

text \<open>The bytes written, with their registers.\<close>

definition bus_writes :: "gauge \<Rightarrow> (u16 \<times> u8) list" where
  "bus_writes g = concat (map (\<lambda>e. case e of I2cWrite r b \<Rightarrow> [(r, b)] | _ \<Rightarrow> []) (g_log g))"

lemma bus_writes_do [simp]:
  "bus_writes (g_do e g) = bus_writes g @ (case e of I2cWrite r b \<Rightarrow> [(r, b)] | _ \<Rightarrow> [])"
  by (simp add: bus_writes_def)

lemma bus_writes_next [simp]: "bus_writes (g_next g) = bus_writes g"
  by (simp add: bus_writes_def)

lemma cmd_wait_time_keeps:
  "cmd_wait_time R dev g = (dev', g') \<Longrightarrow> bus_writes g' = bus_writes g \<and> g_tick g' = g_tick g \<and> g_read g' = g_read g \<and>
     g_write_ok g' = g_write_ok g \<and> g_stack g' = g_stack g"
  by (auto simp: cmd_wait_time_def Let_def split: if_splits)

lemma cmd_update_keeps: "cmd_update_timestamp R dev g = (dev', g') \<Longrightarrow> bus_writes g' = bus_writes g \<and> g_stack g' = g_stack g"
  by (auto simp: cmd_update_timestamp_def Let_def split: if_splits)

text \<open>
  C30. A word that the driver writes never reaches its first register: both bytes go to the register after it,
  one over the other, so that register ends up with the high byte and register \<open>reg\<close> is never written. The
  driver reports success exactly when the bus took both bytes.
\<close>

theorem bq27441_write_misses_register:
  assumes "bq27441_write_regs R reg (lo, hi) dev g = (r, dev', g')"
  shows "(r = BQ27441_OK \<longleftrightarrow> g_write_ok g (g_tick g) \<and> g_write_ok g (Suc (g_tick g))) \<and>
    (r = BQ27441_OK \<longrightarrow> bus_writes g' = bus_writes g @ [(ucast reg + 1, lo), (ucast reg + 1, hi)]) \<and>
    (\<forall>w \<in> set (drop (length (bus_writes g)) (bus_writes g')). fst w \<noteq> ucast reg)"
proof -
  obtain dev1 g1 where wait: "cmd_wait_time R dev (g_do I2cAcquire g) = (dev1, g1)" by fastforce
  from cmd_wait_time_keeps [OF wait] have g1: "bus_writes g1 = bus_writes g" "g_tick g1 = g_tick g" "g_write_ok g1 = g_write_ok g" by simp_all
  have next_reg: "ucast reg + (1 :: u16) \<noteq> ucast reg" by simp
  show ?thesis
    using assms wait next_reg
    by (auto simp: bq27441_write_regs_def Let_def BQ27441_OK_def BQ27441_ERROR_I2C_def g1
        split: if_splits prod.splits dest!: cmd_update_keeps)
qed

definition gauge_ref :: "(u16 \<Rightarrow> u8) \<Rightarrow> timex \<Rightarrow> gauge" where
  "gauge_ref regs now = \<lparr>g_read = (\<lambda>_ r. Some (regs r)), g_write_ok = (\<lambda>_. True), g_now = (\<lambda>_. now), g_uint64 = of_nat \<circ> usec,
     g_stack = (0, 0), g_tick = 0, g_log = []\<rparr>"

definition bq27441_boot :: bq27441 where
  "bq27441_boot = \<lparr>bq_params = \<lparr>bq_dev = 0, bq_design_cap = 1000\<rparr>, bq_last0 = timex_zero, bq_last1 = timex_zero\<rparr>"

theorem bq27441_write_misses_register_witness:
  "\<exists>dev' g'. bq27441_set_temperature riot_ref 0x0BB8 bq27441_boot (gauge_ref (\<lambda>_. 0) timex_zero) = (BQ27441_OK, dev', g') \<and>
     bus_writes g' = [(3, 0xB8), (3, 0x0B)]"
proof -
  obtain r dev' g' where run: "bq27441_write_regs riot_ref 2 (0xB8, 0x0B) bq27441_boot (gauge_ref (\<lambda>_. 0) timex_zero) = (r, dev', g')"
    by (metis prod_cases3)
  then have "bq27441_set_temperature riot_ref 0x0BB8 bq27441_boot (gauge_ref (\<lambda>_. 0) timex_zero) = (r, dev', g')"
    by (simp add: bq27441_set_temperature_def BQ27441_REG_TEMPERATURE_def)
  with bq27441_write_misses_register [OF run] show ?thesis
    by (simp add: gauge_ref_def bus_writes_def)
qed

text \<open>
  Reading a word: success exactly when the bus answers for both registers, and then the word is the first
  register as low byte and the next as high byte.
\<close>

lemma bq27441_read_word_spec:
  assumes "bq27441_read_word R reg dev g = (r, v, dev', g')" and "unat reg < 255"
  shows "(case (g_read g (g_tick g) reg, g_read g (Suc (g_tick g)) (reg + 1)) of
      (Some lo, Some hi) \<Rightarrow> r = BQ27441_OK \<and> ucast v = lo \<and> ucast (drop_bit 8 v) = hi
    | _ \<Rightarrow> r = BQ27441_ERROR_I2C) \<and> bus_writes g' = bus_writes g"
proof -
  obtain dev1 g1 where wait: "cmd_wait_time R dev (g_do I2cAcquire g) = (dev1, g1)" by fastforce
  from cmd_wait_time_keeps [OF wait] have g1: "bus_writes g1 = bus_writes g" "g_tick g1 = g_tick g" "g_read g1 = g_read g" by simp_all
  have reg: "ucast (ucast reg :: u8) = reg"
    using assms(2) by (simp add: word_unat_eq_iff unsigned_ucast_eq take_bit_eq_mod unat_mod)
  have low: "(ucast (push_bit 8 (ucast hi) OR (ucast lo :: u16)) :: u8) = lo" for hi lo :: u8
    by (rule bit_word_eqI) (auto simp: bit_simps)
  have high: "(ucast (drop_bit 8 (push_bit 8 (ucast hi)) OR drop_bit 8 (ucast lo :: u16)) :: u8) = hi" for hi lo :: u8
    by (rule bit_word_eqI) (auto simp: bit_simps dest: bit_imp_le_length)
  show ?thesis
    using assms(1) wait
    by (auto simp: bq27441_read_word_def bq27441_read_regs_def Let_def numeral_2_eq_2 reg low high g1 BQ27441_OK_def
        BQ27441_ERROR_I2C_def split: if_splits prod.splits option.splits dest!: cmd_update_keeps)
qed

lemma bq27441_read_word_spec_witness:
  "\<exists>v dev' g'. bq27441_voltage riot_ref bq27441_boot (gauge_ref (\<lambda>r. if r = 4 then 0x74 else 0x0E) timex_zero) = (BQ27441_OK, v, dev', g') \<and>
     ucast v = (0x74 :: u8) \<and> ucast (drop_bit 8 v) = (0x0E :: u8)"
proof -
  let ?g = "gauge_ref (\<lambda>r. if r = 4 then 0x74 else 0x0E) timex_zero"
  obtain r v dev' g' where run: "bq27441_read_word riot_ref 4 bq27441_boot ?g = (r, v, dev', g')" by (metis prod_cases4)
  with bq27441_read_word_spec [OF run] show ?thesis
    by (simp add: gauge_ref_def bq27441_voltage_def BQ27441_REG_VOLTAGE_def)
qed

section \<open>Pacing\<close>

text \<open>
  The pause between commands is wrong: when the last two commands were less than a second apart the
  driver sleeps for the time that was between them, where the rest of the second is meant, and forgets both
  times. Two commands \<open>d\<close> microseconds apart are followed by the next one about \<open>2 * d\<close> after the first.
\<close>

lemma bq27441_pause_is_gap:
  assumes "timex_ok R" and "normal (bq_last0 dev)" and "normal (bq_last1 dev)" and "g_uint64 g = of_nat \<circ> usec"
    and "0 < usec (bq_last0 dev)" and "usec (bq_last0 dev) \<le> usec (bq_last1 dev)" and "d = usec (bq_last1 dev) - usec (bq_last0 dev)"
  shows "cmd_wait_time R dev g =
    (if d < 1000000 then (dev\<lparr>bq_last0 := timex_zero, bq_last1 := timex_zero\<rparr>, g_do (Usleep (of_nat d)) g) else (dev, g))"
proof -
  have null: "timex_set R 0 0 = timex_zero" and sec: "timex_set R 1 0 = \<lparr>seconds = 1, microseconds = 0\<rparr>"
    using assms(1) by (simp_all add: timex_set_sec timex_zero_def)
  let ?diff = "timex_sub R (bq_last1 dev) (bq_last0 dev)"
  from timex_sub_usec [OF assms(1,3,2,6)] assms(7) have diff: "normal ?diff" "usec ?diff = d" by simp_all
  have "timex_cmp R ?diff (timex_set R 1 0) < 0 \<longleftrightarrow> d < 1000000"
    using timex_cmp_usec [OF assms(1) diff(1), of "\<lparr>seconds = 1, microseconds = 0\<rparr>"] diff(2) by (simp add: sec)
  moreover have "timex_cmp R (bq_last0 dev) timex_zero \<noteq> 0" "timex_cmp R (bq_last1 dev) timex_zero \<noteq> 0"
    using timex_cmp_usec [OF assms(1,2) normal_zero] timex_cmp_usec [OF assms(1,3) normal_zero] assms(5,6) by simp_all
  moreover have "(ucast (of_nat d :: u64) :: u32) = of_nat d" if "d < 1000000"
    using that by (simp add: unsigned_of_nat take_bit_nat_eq_self)
  ultimately show ?thesis
    by (simp add: cmd_wait_time_def null Let_def assms(4) diff)
qed

lemma bq27441_pause_is_gap_witness:
  "\<exists>dev. cmd_wait_time riot_ref (bq27441_boot\<lparr>bq_last0 := of_usec 7000000, bq_last1 := of_usec 7000010\<rparr>) (gauge_ref (\<lambda>_. 0) timex_zero) =
     (dev, g_do (Usleep 10) (gauge_ref (\<lambda>_. 0) timex_zero))"
proof -
  let ?dev = "bq27441_boot\<lparr>bq_last0 := of_usec 7000000, bq_last1 := of_usec 7000010\<rparr>"
  have "normal (bq_last0 ?dev)" "normal (bq_last1 ?dev)" "usec (bq_last0 ?dev) = 7000000" "usec (bq_last1 ?dev) = 7000010"
    using of_usec [of 7000000] of_usec [of 7000010] by simp_all
  moreover have "g_uint64 (gauge_ref (\<lambda>_. 0) timex_zero) = of_nat \<circ> usec" by (simp add: gauge_ref_def)
  ultimately show ?thesis
    using bq27441_pause_is_gap [OF timex_ok_ref, of ?dev "gauge_ref (\<lambda>_. 0) timex_zero" 10] by simp
qed

end
