(* ===== verification/Nvs.thy ===== *)
theory Nvs
  imports Prelude
begin

text \<open>
  The settings the Wi-Fi board keeps in flash: \<open>wifi/sys/storage/nvs/nvs.c\<close>, a wrapper of Espressif's
  \<open>nvs_flash\<close>, and \<open>wifi/sys/storage/wifisettings/wifisettings.c\<close> on top of it. The library is a parameter,
  a record of its functions over a state \<open>'f\<close> of the flash; \<open>flash_ok\<close> says what its documentation promises
  of strings.
\<close>

section \<open>The library\<close>

definition ESP_OK :: int where "ESP_OK = 0"
definition ESP_FAIL :: int where "ESP_FAIL = -1"

text \<open>
  Reading takes the size of the buffer and gives the value when it fits. What \<open>fl_get_blob\<close> is given as
  length is a pointer.
\<close>

record 'f flash_lib =
  fl_init :: "'f \<Rightarrow> int \<times> 'f"
  fl_erase :: "'f \<Rightarrow> int \<times> 'f"
  fl_open :: "string \<Rightarrow> 'f \<Rightarrow> int \<times> u32 \<times> 'f"
  fl_set_str :: "u32 \<Rightarrow> string \<Rightarrow> string \<Rightarrow> 'f \<Rightarrow> int \<times> 'f"
  fl_get_str :: "u32 \<Rightarrow> string \<Rightarrow> nat \<Rightarrow> 'f \<Rightarrow> int \<times> string option"
  fl_set_u8 :: "u32 \<Rightarrow> string \<Rightarrow> u8 \<Rightarrow> 'f \<Rightarrow> int \<times> 'f"
  fl_get_u8 :: "u32 \<Rightarrow> string \<Rightarrow> 'f \<Rightarrow> int \<times> u8"
  fl_commit :: "u32 \<Rightarrow> 'f \<Rightarrow> int \<times> 'f"
  fl_close :: "u32 \<Rightarrow> 'f \<Rightarrow> 'f"
  fl_set_blob :: "u32 \<Rightarrow> string \<Rightarrow> u8 list \<Rightarrow> 'f \<Rightarrow> int \<times> 'f"

text \<open>
  Errors of the library are positive numbers. A string that was stored is read back when the buffer holds
  it with its terminating 0; storing a string leaves the strings under other keys alone.
\<close>

definition flash_ok :: "'f flash_lib \<Rightarrow> bool" where
  "flash_ok L \<longleftrightarrow>
     (\<forall>h k v s. 0 \<le> fst (fl_set_str L h k v s)) \<and> (\<forall>h k n s. 0 \<le> fst (fl_get_str L h k n s)) \<and>
     (\<forall>h k v s s' n. fl_set_str L h k v s = (ESP_OK, s') \<longrightarrow> length v < n \<longrightarrow> fl_get_str L h k n s' = (ESP_OK, Some v)) \<and>
     (\<forall>h k v s e s' k' n. fl_set_str L h k v s = (e, s') \<longrightarrow> k' \<noteq> k \<longrightarrow> fl_get_str L h k' n s' = fl_get_str L h k' n s)"

section \<open>The wrapper\<close>

text \<open>\<open>_handle\<close> and \<open>is_open\<close>, with the flash behind them.\<close>

record 'f nvs =
  nvs_handle :: u32
  is_open :: bool
  flash :: 'f

text \<open>\<open>nvs_init\<close>: the result of opening; a failed initialisation erases the flash and is tried once more.\<close>

definition nvs_init :: "'f flash_lib \<Rightarrow> 'f nvs \<Rightarrow> int \<times> 'f nvs" where
  "nvs_init L s =
     (let (err, f) = fl_init L (flash s);
          f = (if err \<noteq> ESP_OK then snd (fl_init L (snd (fl_erase L f))) else f);
          (err, h, f) = fl_open L ''storage'' f
      in (err, \<lparr>nvs_handle = h, is_open = True, flash = f\<rparr>))"

definition nvs_set_string :: "'f flash_lib \<Rightarrow> string \<Rightarrow> string \<Rightarrow> 'f nvs \<Rightarrow> int \<times> 'f nvs" where
  "nvs_set_string L key v s =
     (if \<not> is_open s then (ESP_FAIL, s)
      else let (err, f) = fl_set_str L (nvs_handle s) key v (flash s) in (err, s\<lparr>flash := f\<rparr>))"

definition nvs_get_string :: "'f flash_lib \<Rightarrow> string \<Rightarrow> nat \<Rightarrow> 'f nvs \<Rightarrow> int \<times> string option" where
  "nvs_get_string L key len s =
     (if \<not> is_open s then (ESP_FAIL, None) else fl_get_str L (nvs_handle s) key len (flash s))"

definition set_bool :: "'f flash_lib \<Rightarrow> string \<Rightarrow> bool \<Rightarrow> 'f nvs \<Rightarrow> int \<times> 'f nvs" where
  "set_bool L key v s =
     (if \<not> is_open s then (ESP_FAIL, s)
      else let (err, f) = fl_set_u8 L (nvs_handle s) key (if v then 1 else 0) (flash s) in (err, s\<lparr>flash := f\<rparr>))"

text \<open>\<open>v\<close> is the caller's variable before the call.\<close>

definition get_bool :: "'f flash_lib \<Rightarrow> string \<Rightarrow> bool \<Rightarrow> 'f nvs \<Rightarrow> int \<times> bool" where
  "get_bool L key v s =
     (if \<not> is_open s then (ESP_FAIL, v)
      else let (err, b) = fl_get_u8 L (nvs_handle s) key (flash s) in
        if err \<noteq> ESP_OK then (err, v) else (0, b = 1))"

definition nvs_commit_wrap :: "'f flash_lib \<Rightarrow> 'f nvs \<Rightarrow> int \<times> 'f nvs" where
  "nvs_commit_wrap L s =
     (if \<not> is_open s then (ESP_FAIL, s)
      else let (err, f) = fl_commit L (nvs_handle s) (flash s) in (err, s\<lparr>flash := f\<rparr>))"

text \<open>\<open>_nvs_close\<close> closes the handle when it is not open.\<close>

definition nvs_close_wrap :: "'f flash_lib \<Rightarrow> 'f nvs \<Rightarrow> int \<times> 'f nvs" where
  "nvs_close_wrap L s =
     (let f = (if \<not> is_open s then fl_close L (nvs_handle s) (flash s) else flash s)
      in (ESP_OK, s\<lparr>is_open := False, flash := f\<rparr>))"

definition set_blob :: "'f flash_lib \<Rightarrow> string \<Rightarrow> u8 list \<Rightarrow> 'f nvs \<Rightarrow> int \<times> 'f nvs" where
  "set_blob L key buf s =
     (if \<not> is_open s then (ESP_FAIL, s)
      else let (err, f) = fl_set_blob L (nvs_handle s) key buf (flash s) in (err, s\<lparr>flash := f\<rparr>))"

text \<open>\<open>get_blob\<close> casts the length to a pointer, which the library reads and writes: the access is outside every object.\<close>

definition get_blob :: "'f flash_lib \<Rightarrow> string \<Rightarrow> nat \<Rightarrow> 'f nvs \<Rightarrow> int outcome" where
  "get_blob L key len s = (if \<not> is_open s then Inr ESP_FAIL else Inl OutOfBounds)"

section \<open>The settings\<close>

definition SSID_LENGTH :: nat where "SSID_LENGTH = 32"
definition PASSWORD_LENGTH :: nat where "PASSWORD_LENGTH = 64"

text \<open>The contents of the two arrays up to their terminating 0.\<close>

record wifi_settings =
  ssid :: string
  password :: string

definition set_ap_credentials :: "'f flash_lib \<Rightarrow> wifi_settings \<Rightarrow> 'f nvs \<Rightarrow> int \<times> 'f nvs" where
  "set_ap_credentials L v s =
     (let (r, s) = nvs_set_string L ''ap_ssid'' (ssid v) s in
      if r < 0 then (-1, s)
      else let (r, s) = nvs_set_string L ''ap_password'' (password v) s in
        if r < 0 then (-1, s) else (0, s))"

text \<open>\<open>v\<close> is the caller's structure before the call; a value that was not read stays.\<close>

definition get_ap_credentials :: "'f flash_lib \<Rightarrow> wifi_settings \<Rightarrow> 'f nvs \<Rightarrow> int \<times> wifi_settings" where
  "get_ap_credentials L v s =
     (let (r, x) = nvs_get_string L ''ap_ssid'' SSID_LENGTH s;
          v = (case x of None \<Rightarrow> v | Some x \<Rightarrow> v\<lparr>ssid := x\<rparr>)
      in if r < 0 then (-1, v)
         else let (r, x) = nvs_get_string L ''ap_password'' PASSWORD_LENGTH s;
                  v = (case x of None \<Rightarrow> v | Some x \<Rightarrow> v\<lparr>password := x\<rparr>)
           in if r < 0 then (-1, v) else (0, v))"

definition set_global_ipv6 :: "'f flash_lib \<Rightarrow> u8 list \<Rightarrow> 'f nvs \<Rightarrow> int \<times> 'f nvs" where
  "set_global_ipv6 L ip6 s = (let (r, s) = set_blob L ''global_ipv6'' ip6 s in (if r < 0 then -1 else 0, s))"

definition get_global_ipv6 :: "'f flash_lib \<Rightarrow> 'f nvs \<Rightarrow> int outcome" where
  "get_global_ipv6 L s = bnd (get_blob L ''global_ipv6'' 16 s) (\<lambda>r. Inr (if r < 0 then -1 else 0))"

section \<open>Credentials\<close>

text \<open>
  Credentials that both calls of the library stored are read back unchanged, provided the SSID and the
  password leave room for the terminating 0 in their arrays.
\<close>

lemma credentials_roundtrip:
  assumes "flash_ok L" and "is_open s" and "length (ssid v) < SSID_LENGTH" and "length (password v) < PASSWORD_LENGTH"
    and "nvs_set_string L ''ap_ssid'' (ssid v) s = (ESP_OK, s1)" and "nvs_set_string L ''ap_password'' (password v) s1 = (ESP_OK, s2)"
  shows "set_ap_credentials L v s = (0, s2) \<and> get_ap_credentials L v0 s2 = (0, v)"
proof -
  obtain f1 where f1: "fl_set_str L (nvs_handle s) ''ap_ssid'' (ssid v) (flash s) = (ESP_OK, f1)" and s1: "s1 = s\<lparr>flash := f1\<rparr>"
    using assms(2,5) by (auto simp: nvs_set_string_def split: prod.splits)
  obtain f2 where f2: "fl_set_str L (nvs_handle s) ''ap_password'' (password v) f1 = (ESP_OK, f2)" and s2: "s2 = s\<lparr>flash := f2\<rparr>"
    using assms(2,6) by (auto simp: nvs_set_string_def s1 split: prod.splits)
  have "fl_get_str L (nvs_handle s) ''ap_ssid'' SSID_LENGTH f2 = (ESP_OK, Some (ssid v))"
    using assms(1,3) f1 f2 by (simp add: flash_ok_def)
  moreover have "fl_get_str L (nvs_handle s) ''ap_password'' PASSWORD_LENGTH f2 = (ESP_OK, Some (password v))"
    using assms(1,4) f2 by (simp add: flash_ok_def)
  ultimately have "get_ap_credentials L v0 s2 = (0, v0\<lparr>ssid := ssid v, password := password v\<rparr>)"
    using assms(2) by (simp add: get_ap_credentials_def nvs_get_string_def s2 ESP_OK_def)
  moreover have "v0\<lparr>ssid := ssid v, password := password v\<rparr> = v" by simp
  ultimately show ?thesis
    using assms(5,6) by (simp add: set_ap_credentials_def ESP_OK_def)
qed

text \<open>A library whose flash is a map from keys to strings, for the concrete inputs.\<close>

definition flash_ref :: "(string \<Rightarrow> string option) flash_lib" where
  "flash_ref = \<lparr>fl_init = (\<lambda>f. (ESP_OK, f)), fl_erase = (\<lambda>_. (ESP_OK, \<lambda>_. None)), fl_open = (\<lambda>_ f. (ESP_OK, 1, f)),
     fl_set_str = (\<lambda>_ k v f. (ESP_OK, f(k \<mapsto> v))),
     fl_get_str = (\<lambda>_ k n f. case f k of None \<Rightarrow> (0x1102, None) | Some v \<Rightarrow> if length v < n then (ESP_OK, Some v) else (0x110c, None)),
     fl_set_u8 = (\<lambda>_ k v f. (ESP_OK, f)), fl_get_u8 = (\<lambda>_ k f. (0x1102, 0)), fl_commit = (\<lambda>_ f. (ESP_OK, f)), fl_close = (\<lambda>_ f. f),
     fl_set_blob = (\<lambda>_ k v f. (ESP_OK, f))\<rparr>"

lemma flash_ok_ref: "flash_ok flash_ref"
  by (auto simp: flash_ok_def flash_ref_def ESP_OK_def split: option.splits)

lemma credentials_roundtrip_witness:
  "\<exists>s. set_ap_credentials flash_ref \<lparr>ssid = ''locha'', password = ''secret''\<rparr> (snd (nvs_init flash_ref \<lparr>nvs_handle = 0, is_open = False, flash = Map.empty\<rparr>)) = (0, s) \<and>
     get_ap_credentials flash_ref \<lparr>ssid = [], password = []\<rparr> s = (0, \<lparr>ssid = ''locha'', password = ''secret''\<rparr>)"
proof -
  let ?s = "\<lparr>nvs_handle = 1, is_open = True, flash = Map.empty\<rparr>" and ?v = "\<lparr>ssid = ''locha'', password = ''secret''\<rparr>"
  have boot: "snd (nvs_init flash_ref \<lparr>nvs_handle = 0, is_open = False, flash = Map.empty\<rparr>) = ?s"
    by (simp add: nvs_init_def flash_ref_def)
  have "nvs_set_string flash_ref ''ap_ssid'' (ssid ?v) ?s = (ESP_OK, ?s\<lparr>flash := [''ap_ssid'' \<mapsto> ''locha'']\<rparr>)"
    by (simp add: nvs_set_string_def flash_ref_def)
  moreover have "nvs_set_string flash_ref ''ap_password'' (password ?v) (?s\<lparr>flash := [''ap_ssid'' \<mapsto> ''locha'']\<rparr>) =
      (ESP_OK, ?s\<lparr>flash := [''ap_ssid'' \<mapsto> ''locha'', ''ap_password'' \<mapsto> ''secret'']\<rparr>)"
    by (simp add: nvs_set_string_def flash_ref_def)
  ultimately show ?thesis
    unfolding boot using credentials_roundtrip [OF flash_ok_ref, of ?s ?v] by (simp add: SSID_LENGTH_def PASSWORD_LENGTH_def)
qed

text \<open>
  C31. Errors of the library are lost: on an open store \<open>set_ap_credentials\<close> and \<open>get_ap_credentials\<close> never
  fail, whatever the library answers, since its errors are positive and the test is for negative ones.
\<close>

theorem credentials_hide_errors:
  assumes "flash_ok L"
  shows "(fst (set_ap_credentials L v s) = -1 \<longleftrightarrow> \<not> is_open s) \<and> (fst (get_ap_credentials L v s) = -1 \<longleftrightarrow> \<not> is_open s)"
proof -
  have set_ok: "\<not> fst (nvs_set_string L k x t) < 0 \<longleftrightarrow> is_open t" and keep: "is_open (snd (nvs_set_string L k x t)) = is_open t" for k x t
    using assms by (auto simp: nvs_set_string_def flash_ok_def ESP_FAIL_def split: prod.splits) (metis fst_conv not_less)+
  have get_ok: "\<not> fst (nvs_get_string L k n t) < 0 \<longleftrightarrow> is_open t" for k n t
    using assms by (auto simp: nvs_get_string_def flash_ok_def ESP_FAIL_def not_less)
  show ?thesis
    using set_ok keep get_ok
    by (auto simp: set_ap_credentials_def get_ap_credentials_def Let_def split: prod.splits if_splits) (metis fst_conv snd_conv)+
qed

theorem credentials_hide_errors_witness:
  "get_ap_credentials flash_ref \<lparr>ssid = [], password = []\<rparr> \<lparr>nvs_handle = 1, is_open = True, flash = Map.empty\<rparr> = (0, \<lparr>ssid = [], password = []\<rparr>)"
proof -
  have "fst (get_ap_credentials flash_ref \<lparr>ssid = [], password = []\<rparr> \<lparr>nvs_handle = 1, is_open = True, flash = Map.empty\<rparr>) \<noteq> -1"
    using credentials_hide_errors [OF flash_ok_ref] by simp
  then show ?thesis
    by (auto simp: get_ap_credentials_def nvs_get_string_def flash_ref_def Let_def split: if_splits)
qed

section \<open>Closing\<close>

text \<open>
  \<open>_nvs_close\<close> has its test inverted: an open handle is never given back to the library, and closing again
  closes a handle that is not open.
\<close>

lemma nvs_close_leaks:
  "is_open s \<Longrightarrow> nvs_close_wrap L s = (ESP_OK, s\<lparr>is_open := False\<rparr>)"
  "\<not> is_open s \<Longrightarrow> flash (snd (nvs_close_wrap L s)) = fl_close L (nvs_handle s) (flash s)"
  by (simp_all add: nvs_close_wrap_def)

end
