(* ===== verification/Cjson.thy ===== *)
theory Cjson
  imports Riot OonfString
begin

text \<open>
  The data of the JSON library, \<open>core/contrib/cjson/cJSON.h\<close>, and its printer, \<open>core/contrib/cjson/cJSON.c\<close>. An item is a
  value of a datatype, its children a list (the pointers that chain them are not modelled); the strings of an item are
  the bytes before their zero byte. The print buffer is memory that grows by \<open>realloc\<close>, and every store into it is checked.
  Floating-point numbers are those of the C compiler and library: a type \<open>'d\<close> with the operations of the record \<open>fp\<close>.
\<close>

section \<open>Data\<close>

record 'd fp =
  fp_isnan :: "'d \<Rightarrow> bool"
  fp_isinf :: "'d \<Rightarrow> bool"
  fp_le :: "'d \<Rightarrow> 'd \<Rightarrow> bool"
  fp_gt :: "'d \<Rightarrow> 'd \<Rightarrow> bool"
  fp_sub :: "'d \<Rightarrow> 'd \<Rightarrow> 'd"
  fp_mul :: "'d \<Rightarrow> 'd \<Rightarrow> 'd"
  fp_fabs :: "'d \<Rightarrow> 'd"
  fp_epsilon :: 'd
  fp_of_int :: "int \<Rightarrow> 'd"
  fp_to_int :: "'d \<Rightarrow> int"
  fp_nan :: 'd
  sprintf_15g :: "'d \<Rightarrow> u8 list option"
  sprintf_17g :: "'d \<Rightarrow> u8 list option"
  sscanf_lg :: "u8 list \<Rightarrow> 'd option"
  strtod :: "u8 list \<Rightarrow> 'd \<times> nat"

definition cJSON_Invalid :: u32 where "cJSON_Invalid = 0"
definition cJSON_False :: u32 where "cJSON_False = 1"
definition cJSON_True :: u32 where "cJSON_True = 2"
definition cJSON_NULL :: u32 where "cJSON_NULL = 4"
definition cJSON_Number :: u32 where "cJSON_Number = 8"
definition cJSON_String :: u32 where "cJSON_String = 16"
definition cJSON_Array :: u32 where "cJSON_Array = 32"
definition cJSON_Object :: u32 where "cJSON_Object = 64"
definition cJSON_Raw :: u32 where "cJSON_Raw = 128"
definition cJSON_IsReference :: u32 where "cJSON_IsReference = 256"
definition cJSON_StringIsConst :: u32 where "cJSON_StringIsConst = 512"

lemmas cJSON_types = cJSON_Invalid_def cJSON_False_def cJSON_True_def cJSON_NULL_def cJSON_Number_def cJSON_String_def
  cJSON_Array_def cJSON_Object_def cJSON_Raw_def

datatype 'd cjson = CJSON (j_type: u32) (j_valuestring: "u8 list option") (j_valueint: int) (j_valuedouble: 'd)
  (j_string: "u8 list option") (j_child: "'d cjson list")

definition INT_MAX :: int where "INT_MAX = 2147483647"
definition INT_MIN :: int where "INT_MIN = - 2147483648"

text \<open>The bytes of the literals and of the characters with a meaning.\<close>

definition txt_null :: "u8 list" where "txt_null = [110, 117, 108, 108]"
definition txt_true :: "u8 list" where "txt_true = [116, 114, 117, 101]"
definition txt_false :: "u8 list" where "txt_false = [102, 97, 108, 115, 101]"

section \<open>The print buffer\<close>

text \<open>The hooks: \<open>None\<close> for a reallocate function that is NULL. Memory that is given back is of no interest.\<close>

record hooks =
  h_allocate :: "nat \<Rightarrow> u8 list option"
  h_reallocate :: "realloc option"

record printbuffer =
  pb_buffer :: "u8 list option"
  pb_length :: nat
  pb_offset :: nat
  pb_depth :: nat
  pb_noalloc :: bool
  pb_format :: bool

text \<open>The growth of the buffer, by \<open>reallocate\<close> or by hand.\<close>

definition pb_grow :: "hooks \<Rightarrow> u8 list \<Rightarrow> nat \<Rightarrow> printbuffer \<Rightarrow> u8 list option outcome" where
  "pb_grow H b newsize p =
     (case h_reallocate H of
        Some A \<Rightarrow> Inr (A (Some b) newsize)
      | None \<Rightarrow> (case h_allocate H newsize of
            None \<Rightarrow> Inr None
          | Some nb \<Rightarrow> bnd (mem_read b 0 (pb_offset p + 1)) (\<lambda>old. bnd (mem_write nb 0 old) (\<lambda>nb. Inr (Some nb)))))"

definition ensure :: "hooks \<Rightarrow> nat \<Rightarrow> printbuffer \<Rightarrow> (nat option \<times> printbuffer) outcome" where
  "ensure H needed p =
     (case pb_buffer p of
        None \<Rightarrow> Inr (None, p)
      | Some b \<Rightarrow>
          if pb_length p > 0 \<and> pb_offset p \<ge> pb_length p then Inr (None, p)
          else if int needed > INT_MAX then Inr (None, p)
          else let needed = needed + pb_offset p + 1 in
            if needed \<le> pb_length p then Inr (Some (pb_offset p), p)
            else if pb_noalloc p then Inr (None, p)
            else if int needed > INT_MAX div 2 \<and> int needed > INT_MAX then Inr (None, p)
            else let newsize = (if int needed > INT_MAX div 2 then nat INT_MAX else needed * 2) in
              bnd (pb_grow H b newsize p) (\<lambda>nb.
              case nb of
                None \<Rightarrow> Inr (None, p\<lparr>pb_length := 0, pb_buffer := None\<rparr>)
              | Some nb \<Rightarrow> Inr (Some (pb_offset p), p\<lparr>pb_length := newsize, pb_buffer := Some nb\<rparr>)))"

definition pb_write :: "nat \<Rightarrow> u8 list \<Rightarrow> printbuffer \<Rightarrow> printbuffer outcome" where
  "pb_write off bs p = bnd (deref (pb_buffer p)) (\<lambda>b. bnd (mem_write b off bs) (\<lambda>b. Inr (p\<lparr>pb_buffer := Some b\<rparr>)))"

text \<open>
  The pattern of every output: ensure that there is room for \<open>needed\<close> bytes, store \<open>bs\<close> behind the offset, and advance the
  offset by \<open>adv\<close>. The result says whether there was room.
\<close>

definition pb_put :: "hooks \<Rightarrow> nat \<Rightarrow> u8 list \<Rightarrow> nat \<Rightarrow> printbuffer \<Rightarrow> (bool \<times> printbuffer) outcome" where
  "pb_put H needed bs adv p =
     bnd (ensure H needed p) (\<lambda>(out, p).
     case out of
       None \<Rightarrow> Inr (False, p)
     | Some off \<Rightarrow> bnd (pb_write off bs p) (\<lambda>p. Inr (True, p\<lparr>pb_offset := pb_offset p + adv\<rparr>)))"

text \<open>\<open>if (!...) return false;\<close>\<close>

definition and_then :: "(bool \<times> 'p) outcome \<Rightarrow> ('p \<Rightarrow> (bool \<times> 'p) outcome) \<Rightarrow> (bool \<times> 'p) outcome" where
  "and_then m f = bnd m (\<lambda>(ok, p). if ok then f p else Inr (False, p))"

definition update_offset :: "printbuffer \<Rightarrow> printbuffer outcome" where
  "update_offset p =
     (case pb_buffer p of
        None \<Rightarrow> Inr p
      | Some b \<Rightarrow> bnd (c_strlen (drop (pb_offset p) b)) (\<lambda>n. Inr (p\<lparr>pb_offset := pb_offset p + n\<rparr>)))"

section \<open>Numbers and strings\<close>

definition compare_double :: "'d fp \<Rightarrow> 'd \<Rightarrow> 'd \<Rightarrow> bool" where
  "compare_double F a b =
     (let maxVal = (if fp_gt F (fp_fabs F a) (fp_fabs F b) then fp_fabs F a else fp_fabs F b) in
      fp_le F (fp_fabs F (fp_sub F a b)) (fp_mul F maxVal (fp_epsilon F)))"

definition number_text :: "'d fp \<Rightarrow> 'd \<Rightarrow> u8 list option" where
  "number_text F d =
     (if fp_isnan F d \<or> fp_isinf F d then Some txt_null
      else case sprintf_15g F d of
          None \<Rightarrow> sprintf_17g F d
        | Some t \<Rightarrow> (case sscanf_lg F t of
              None \<Rightarrow> sprintf_17g F d
            | Some test \<Rightarrow> if compare_double F test d then Some t else sprintf_17g F d))"

definition the_default :: "u8 list option \<Rightarrow> u8 list" where
  "the_default t = (case t of None \<Rightarrow> [] | Some t \<Rightarrow> t)"

text \<open>
  \<open>print_number\<close>: \<open>sprintf\<close> writes into an array of 26 bytes, before its result is compared with 25. The decimal point of
  the locale is the full stop.
\<close>

definition print_number :: "'d fp \<Rightarrow> hooks \<Rightarrow> 'd \<Rightarrow> printbuffer \<Rightarrow> (bool \<times> printbuffer) outcome" where
  "print_number F H d p =
     bnd (guard (fp_isnan F d \<or> fp_isinf F d \<or> length (the_default (sprintf_15g F d)) + 1 \<le> 26) OutOfBounds) (\<lambda>_.
     case number_text F d of
       None \<Rightarrow> Inr (False, p)
     | Some t \<Rightarrow>
         bnd (guard (length t + 1 \<le> 26) OutOfBounds) (\<lambda>_.
         pb_put H (length t + 1) (t @ [0]) (length t) p))"

definition escape_extra :: "u8 \<Rightarrow> nat" where
  "escape_extra c =
     (if c = 34 \<or> c = 92 \<or> c = 8 \<or> c = 12 \<or> c = 10 \<or> c = 13 \<or> c = 9 then 1 else if c < 32 then 5 else 0)"

definition hex_digit :: "u8 \<Rightarrow> u8" where
  "hex_digit n = (if n < 10 then 48 + n else 87 + n)"

text \<open>A byte of the output loop; \<open>sprintf("u%04x", c)\<close> for the other control characters.\<close>

definition escape_char :: "u8 \<Rightarrow> u8 list" where
  "escape_char c =
     (if c > 31 \<and> c \<noteq> 34 \<and> c \<noteq> 92 then [c]
      else 92 # (if c = 92 then [92] else if c = 34 then [34] else if c = 8 then [98] else if c = 12 then [102]
            else if c = 10 then [110] else if c = 13 then [114] else if c = 9 then [116]
            else [117, 48, 48, hex_digit (drop_bit 4 c), hex_digit (c AND 15)]))"

definition print_string_ptr :: "hooks \<Rightarrow> u8 list option \<Rightarrow> printbuffer \<Rightarrow> (bool \<times> printbuffer) outcome" where
  "print_string_ptr H input p =
     (case input of
        None \<Rightarrow> pb_put H 3 [34, 34, 0] 0 p
      | Some s \<Rightarrow>
          let escape_characters = sum_list (map escape_extra s); output_length = length s + escape_characters in
          bnd (ensure H (output_length + 3) p) (\<lambda>(out, p).
          case out of
            None \<Rightarrow> Inr (False, p)
          | Some off \<Rightarrow>
              if escape_characters = 0
              then bnd (pb_write off (34 # s @ [34, 0]) p) (\<lambda>p. Inr (True, p))
              else bnd (pb_write off (34 # concat (map escape_char s)) p) (\<lambda>p.
                   bnd (pb_write (off + output_length + 1) [34, 0] p) (\<lambda>p. Inr (True, p)))))"

section \<open>Values\<close>

text \<open>
  \<open>print_value\<close>, \<open>print_array\<close> with its loop \<open>print_elements\<close>, \<open>print_object\<close> with its loop \<open>print_members\<close>.
\<close>

definition with_depth :: "(nat \<Rightarrow> nat) \<Rightarrow> printbuffer \<Rightarrow> printbuffer" where
  "with_depth f p = p\<lparr>pb_depth := f (pb_depth p)\<rparr>"

fun print_value :: "'d fp \<Rightarrow> hooks \<Rightarrow> 'd cjson \<Rightarrow> printbuffer \<Rightarrow> (bool \<times> printbuffer) outcome"
and print_elements :: "'d fp \<Rightarrow> hooks \<Rightarrow> 'd cjson list \<Rightarrow> printbuffer \<Rightarrow> (bool \<times> printbuffer) outcome"
and print_members :: "'d fp \<Rightarrow> hooks \<Rightarrow> 'd cjson list \<Rightarrow> printbuffer \<Rightarrow> (bool \<times> printbuffer) outcome" where
  "print_value F H (CJSON ty vs vi vd nm ch) p =
     (let kind = ty AND 0xFF in
      if kind = cJSON_NULL then pb_put H 5 (txt_null @ [0]) 0 p
      else if kind = cJSON_False then pb_put H 6 (txt_false @ [0]) 0 p
      else if kind = cJSON_True then pb_put H 5 (txt_true @ [0]) 0 p
      else if kind = cJSON_Number then print_number F H vd p
      else if kind = cJSON_Raw then
        (case vs of None \<Rightarrow> Inr (False, p) | Some raw \<Rightarrow> pb_put H (length raw + 1) (raw @ [0]) 0 p)
      else if kind = cJSON_String then print_string_ptr H vs p
      else if kind = cJSON_Array then
        and_then (pb_put H 1 [91] 1 p) (\<lambda>p.
        and_then (print_elements F H ch (with_depth Suc p)) (\<lambda>p.
        and_then (pb_put H 2 [93, 0] 0 p) (\<lambda>p. Inr (True, with_depth (\<lambda>d. d - 1) p))))
      else if kind = cJSON_Object then
        (let fmt = pb_format p; start = 123 # (if fmt then [10] else []) in
        and_then (pb_put H (length start + 1) start (length start) p) (\<lambda>p.
        and_then (print_members F H ch (with_depth Suc p)) (\<lambda>p.
        and_then (pb_put H (if fmt then pb_depth p + 1 else 2) ((if fmt then replicate (pb_depth p - 1) 9 else []) @ [125, 0]) 0 p) (\<lambda>p.
        Inr (True, with_depth (\<lambda>d. d - 1) p)))))
      else Inr (False, p))"
| "print_elements F H [] p = Inr (True, p)"
| "print_elements F H (e # es) p =
     and_then (print_value F H e p) (\<lambda>p.
     bnd (update_offset p) (\<lambda>p.
     if es = [] then Inr (True, p)
     else let sep = 44 # (if pb_format p then [32] else []) in
          and_then (pb_put H (length sep + 1) (sep @ [0]) (length sep) p) (\<lambda>p. print_elements F H es p)))"
| "print_members F H [] p = Inr (True, p)"
| "print_members F H (e # es) p =
     and_then (if pb_format p then pb_put H (pb_depth p) (replicate (pb_depth p) 9) (pb_depth p) p else Inr (True, p)) (\<lambda>p.
     and_then (print_string_ptr H (j_string e) p) (\<lambda>p.
     bnd (update_offset p) (\<lambda>p.
     let colon = 58 # (if pb_format p then [9] else []) in
     and_then (pb_put H (length colon) colon (length colon) p) (\<lambda>p.
     and_then (print_value F H e p) (\<lambda>p.
     bnd (update_offset p) (\<lambda>p.
     let sep = (if es = [] then [] else [44]) @ (if pb_format p then [10] else []) in
     and_then (pb_put H (length sep + 1) (sep @ [0]) (length sep) p) (\<lambda>p. print_members F H es p)))))))"

section \<open>Printing into memory\<close>

text \<open>\<open>print\<close>: the memory of the result, \<open>None\<close> for NULL.\<close>

definition print_json :: "'d fp \<Rightarrow> hooks \<Rightarrow> bool \<Rightarrow> 'd cjson \<Rightarrow> u8 list option outcome" where
  "print_json F H format item =
     (case h_allocate H 256 of
        None \<Rightarrow> Inr None
      | Some b \<Rightarrow>
          bnd (print_value F H item \<lparr>pb_buffer = Some b, pb_length = 256, pb_offset = 0, pb_depth = 0, pb_noalloc = False,
                 pb_format = format\<rparr>) (\<lambda>(ok, p).
          if \<not> ok then Inr None
          else bnd (update_offset p) (\<lambda>p.
               bnd (deref (pb_buffer p)) (\<lambda>b.
               case h_reallocate H of
                 Some A \<Rightarrow> Inr (A (Some b) (pb_offset p + 1))
               | None \<Rightarrow> (case h_allocate H (pb_offset p + 1) of
                     None \<Rightarrow> Inr None
                   | Some printed \<Rightarrow>
                       bnd (mem_read b 0 (min (pb_length p) (pb_offset p + 1))) (\<lambda>bs.
                       bnd (mem_write printed 0 bs) (\<lambda>printed.
                       bnd (mem_write printed (pb_offset p) [0]) (\<lambda>printed. Inr (Some printed)))))))))"

definition cJSON_Print :: "'d fp \<Rightarrow> hooks \<Rightarrow> 'd cjson \<Rightarrow> u8 list option outcome" where
  "cJSON_Print F H item = print_json F H True item"

definition cJSON_PrintUnformatted :: "'d fp \<Rightarrow> hooks \<Rightarrow> 'd cjson \<Rightarrow> u8 list option outcome" where
  "cJSON_PrintUnformatted F H item = print_json F H False item"

definition cJSON_PrintBuffered :: "'d fp \<Rightarrow> hooks \<Rightarrow> 'd cjson \<Rightarrow> int \<Rightarrow> bool \<Rightarrow> u8 list option outcome" where
  "cJSON_PrintBuffered F H item prebuffer fmt =
     (if prebuffer < 0 then Inr None
      else case h_allocate H (nat prebuffer) of
          None \<Rightarrow> Inr None
        | Some b \<Rightarrow>
            bnd (print_value F H item \<lparr>pb_buffer = Some b, pb_length = nat prebuffer, pb_offset = 0, pb_depth = 0,
                   pb_noalloc = False, pb_format = fmt\<rparr>) (\<lambda>(ok, p).
            Inr (if ok then pb_buffer p else None)))"

text \<open>The caller's buffer with the text, and whether it was enough.\<close>

definition cJSON_PrintPreallocated :: "'d fp \<Rightarrow> hooks \<Rightarrow> 'd cjson \<Rightarrow> u8 list option \<Rightarrow> int \<Rightarrow> bool \<Rightarrow> (bool \<times> u8 list option) outcome" where
  "cJSON_PrintPreallocated F H item buffer len format =
     (if len < 0 \<or> buffer = None then Inr (False, buffer)
      else bnd (print_value F H item \<lparr>pb_buffer = buffer, pb_length = nat len, pb_offset = 0, pb_depth = 0, pb_noalloc = True,
                  pb_format = format\<rparr>) (\<lambda>(ok, p). Inr (ok, pb_buffer p)))"

section \<open>The text of an item\<close>

text \<open>The specification of the printer: the text of an item at a depth, \<open>None\<close> for an item that cannot be printed.\<close>

definition string_text :: "u8 list option \<Rightarrow> u8 list" where
  "string_text s = (case s of None \<Rightarrow> [34, 34] | Some s \<Rightarrow> 34 # concat (map escape_char s) @ [34])"

definition opt_append :: "u8 list option \<Rightarrow> u8 list option \<Rightarrow> u8 list option" where
  "opt_append s t = (case s of None \<Rightarrow> None | Some s \<Rightarrow> map_option ((@) s) t)"

fun json_text :: "'d fp \<Rightarrow> bool \<Rightarrow> nat \<Rightarrow> 'd cjson \<Rightarrow> u8 list option"
and elements_text :: "'d fp \<Rightarrow> bool \<Rightarrow> nat \<Rightarrow> 'd cjson list \<Rightarrow> u8 list option"
and members_text :: "'d fp \<Rightarrow> bool \<Rightarrow> nat \<Rightarrow> 'd cjson list \<Rightarrow> u8 list option" where
  "json_text F fmt n (CJSON ty vs vi vd nm ch) =
     (let kind = ty AND 0xFF in
      if kind = cJSON_NULL then Some txt_null
      else if kind = cJSON_False then Some txt_false
      else if kind = cJSON_True then Some txt_true
      else if kind = cJSON_Number then number_text F vd
      else if kind = cJSON_Raw then vs
      else if kind = cJSON_String then Some (string_text vs)
      else if kind = cJSON_Array then opt_append (Some [91]) (opt_append (elements_text F fmt (Suc n) ch) (Some [93]))
      else if kind = cJSON_Object then
        opt_append (Some (123 # (if fmt then [10] else [])))
          (opt_append (members_text F fmt (Suc n) ch) (Some ((if fmt then replicate n 9 else []) @ [125])))
      else None)"
| "elements_text F fmt n [] = Some []"
| "elements_text F fmt n (e # es) =
     opt_append (json_text F fmt n e)
       (opt_append (Some (if es = [] then [] else 44 # (if fmt then [32] else []))) (elements_text F fmt n es))"
| "members_text F fmt n [] = Some []"
| "members_text F fmt n (e # es) =
     opt_append (Some ((if fmt then replicate n 9 else []) @ string_text (j_string e) @ 58 # (if fmt then [9] else [])))
       (opt_append (json_text F fmt n e)
         (opt_append (Some ((if es = [] then [] else [44]) @ (if fmt then [10] else []))) (members_text F fmt n es)))"

lemma opt_append_Some_iff: "opt_append s t = Some u \<longleftrightarrow> (\<exists>a b. s = Some a \<and> t = Some b \<and> u = a @ b)"
  by (auto simp: opt_append_def split: option.splits)

lemma opt_append_simps [simp]: "opt_append None t = None" "opt_append s None = None" "opt_append (Some a) (Some b) = Some (a @ b)"
  by (auto simp: opt_append_def split: option.split)

text \<open>
  Items as the library makes them: their strings are C strings, and a number has a text that fits the array of
  \<open>print_number\<close>.
\<close>

definition number_ok :: "'d fp \<Rightarrow> 'd \<Rightarrow> bool" where
  "number_ok F d \<longleftrightarrow> (fp_isnan F d \<or> fp_isinf F d \<or> length (the_default (sprintf_15g F d)) \<le> 25) \<and>
     (\<forall>t. number_text F d = Some t \<longrightarrow> length t \<le> 25 \<and> 0 \<notin> set t)"

definition str_ok :: "u8 list option \<Rightarrow> bool" where
  "str_ok s \<longleftrightarrow> 0 \<notin> set (the_default s)"

fun item_ok :: "'d fp \<Rightarrow> 'd cjson \<Rightarrow> bool" where
  "item_ok F (CJSON ty vs vi vd nm ch) \<longleftrightarrow>
     str_ok vs \<and> str_ok nm \<and> (ty AND 0xFF = cJSON_Number \<longrightarrow> number_ok F vd) \<and> (\<forall>c \<in> set ch. item_ok F c)"

definition hooks_ok :: "hooks \<Rightarrow> bool" where
  "hooks_ok H \<longleftrightarrow> (\<forall>n b. h_allocate H n = Some b \<longrightarrow> length b = n) \<and> (\<forall>A. h_reallocate H = Some A \<longrightarrow> realloc_ok A)"

text \<open>Memory never runs out.\<close>

definition hooks_total :: "hooks \<Rightarrow> bool" where
  "hooks_total H \<longleftrightarrow> (\<forall>n. h_allocate H n \<noteq> None) \<and> (\<forall>A. h_reallocate H = Some A \<longrightarrow> (\<forall>p n. A p n \<noteq> None))"

section \<open>The printer writes the text\<close>

lemma length_escape_char: "length (escape_char c) = Suc (escape_extra c)"
proof -
  have "c > 31 \<Longrightarrow> \<not> c < 32" by unat_arith
  moreover have "\<not> c > 31 \<Longrightarrow> c < 32" by unat_arith
  ultimately show ?thesis by (auto simp: escape_char_def escape_extra_def)
qed

lemma length_escaped: "length (concat (map escape_char s)) = length s + sum_list (map escape_extra s)"
  by (induction s) (auto simp: length_escape_char)

lemma unescaped: "sum_list (map escape_extra s) = 0 \<Longrightarrow> concat (map escape_char s) = s"
proof (induction s)
  case (Cons c s)
  then have "escape_extra c = 0" by simp
  then have "c \<noteq> 34 \<and> c \<noteq> 92 \<and> \<not> c < 32" by (auto simp: escape_extra_def split: if_splits)
  moreover from this have "c > 31" by unat_arith
  ultimately show ?case using Cons by (simp add: escape_char_def)
qed simp

lemma hex_digit_nonzero: "n < 16 \<Longrightarrow> hex_digit n \<noteq> 0"
proof -
  assume "n < 16"
  have "unat (48 + n) = 48 + unat n" "unat (87 + n) = 87 + unat n"
    using \<open>n < 16\<close> by (auto simp: unat_word_ariths word_less_nat_alt)
  then have "48 + n \<noteq> 0" "87 + n \<noteq> 0" by (metis add_is_0 unat_0 zero_neq_numeral)+
  then show ?thesis by (simp add: hex_digit_def)
qed

lemma escape_char_nonzero: "c \<noteq> 0 \<Longrightarrow> 0 \<notin> set (escape_char c)"
proof -
  have "unat (drop_bit 4 c) < 16" using unsigned_less [where 'a = nat and w = c] by (simp add: unat_drop)
  then have "hex_digit (drop_bit 4 c) \<noteq> 0" by (intro hex_digit_nonzero) (simp add: word_less_nat_alt)
  moreover have "hex_digit (c AND 15) \<noteq> 0" by (intro hex_digit_nonzero) (simp add: word_less_nat_alt and_15)
  ultimately show "c \<noteq> 0 \<Longrightarrow> 0 \<notin> set (escape_char c)" by (auto simp: escape_char_def)
qed

lemma string_text_nonzero: "str_ok s \<Longrightarrow> 0 \<notin> set (string_text s)"
  by (cases s) (auto simp: str_ok_def the_default_def string_text_def, metis escape_char_nonzero)


text \<open>\<open>gives S R m\<close>: the step returns; if it says yes, \<open>R\<close> holds for the buffer; and it says yes if \<open>S\<close>.\<close>

definition gives :: "bool \<Rightarrow> ('p \<Rightarrow> bool) \<Rightarrow> (bool \<times> 'p) outcome \<Rightarrow> bool" where
  "gives S R m \<longleftrightarrow> (\<exists>ok p. m = Inr (ok, p) \<and> (ok \<longrightarrow> R p) \<and> (S \<longrightarrow> ok))"

lemma gives_True [simp]: "gives S R (Inr (True, p)) \<longleftrightarrow> R p"
  by (auto simp: gives_def)

lemma gives_and_then: "gives S Q m \<Longrightarrow> (\<And>p. Q p \<Longrightarrow> gives S R (f p)) \<Longrightarrow> gives S R (and_then m f)"
  by (fastforce simp: gives_def and_then_def)

lemma gives_mono: "gives S Q m \<Longrightarrow> (\<And>p. Q p \<Longrightarrow> R p) \<Longrightarrow> (T \<Longrightarrow> S) \<Longrightarrow> gives T R m"
  by (fastforce simp: gives_def)

text \<open>The buffer holds the text \<open>u\<close>, and the offset is behind it; or a text and its zero byte, with the offset at or before its end.\<close>

definition at_text :: "u8 list \<Rightarrow> printbuffer \<Rightarrow> bool" where
  "at_text u p \<longleftrightarrow> (\<exists>b. pb_buffer p = Some b \<and> length b = pb_length p \<and> pb_offset p = length u \<and> take (length u) b = u \<and>
     length u < length b)"

definition done_text :: "u8 list \<Rightarrow> u8 list \<Rightarrow> printbuffer \<Rightarrow> bool" where
  "done_text u t p \<longleftrightarrow> (\<exists>b r. pb_buffer p = Some b \<and> length b = pb_length p \<and> b = u @ t @ 0 # r \<and>
     length u \<le> pb_offset p \<and> pb_offset p \<le> length u + length t)"

definition same_mode :: "printbuffer \<Rightarrow> printbuffer \<Rightarrow> bool" where
  "same_mode p q \<longleftrightarrow> pb_format q = pb_format p \<and> pb_depth q = pb_depth p \<and> pb_noalloc q = pb_noalloc p \<and>
     (pb_noalloc p \<longrightarrow> pb_length q = pb_length p)"

lemma update_offset_done:
  assumes "done_text u t p" and "0 \<notin> set t"
  shows "\<exists>q. update_offset p = Inr q \<and> at_text (u @ t) q \<and> same_mode p q"
proof -
  from assms(1) obtain b r where b: "pb_buffer p = Some b" "length b = pb_length p" "b = u @ t @ 0 # r"
    "length u \<le> pb_offset p" "pb_offset p \<le> length u + length t" by (auto simp: done_text_def)
  let ?k = "pb_offset p - length u"
  have drop: "drop (pb_offset p) b = drop ?k t @ 0 # r" using b(3-5) by simp
  have strlen: "c_strlen (v @ 0 # r) = Inr (length v)" if "0 \<notin> set v" for v using that by (induction v) auto
  have "c_strlen (drop (pb_offset p) b) = Inr (length t - ?k)"
    unfolding drop using assms(2) by (subst strlen) (auto dest: in_set_dropD)
  then show ?thesis using b by (simp add: update_offset_def at_text_def same_mode_def)
qed

text \<open>Room for a text of \<open>n\<close> bytes and its zero byte: the request is not too large, and memory does not run out, or the caller's
  buffer has that many bytes.\<close>

definition room :: "hooks \<Rightarrow> printbuffer \<Rightarrow> nat \<Rightarrow> bool" where
  "room H p n \<longleftrightarrow> int n + 1 \<le> INT_MAX \<and> (if pb_noalloc p then n + 1 \<le> pb_length p else hooks_total H)"

lemma pb_grow_spec:
  assumes "hooks_ok H" and "at_text u p" and "pb_buffer p = Some b" and "length b \<le> newsize" and "length u < newsize"
  shows "\<exists>nb. pb_grow H b newsize p = Inr nb \<and> (\<forall>c. nb = Some c \<longrightarrow> length c = newsize \<and> take (length u) c = u) \<and> (hooks_total H \<longrightarrow> nb \<noteq> None)"
proof -
  have b: "take (length u) b = u" "pb_offset p = length u" "length u < length b" using assms by (auto simp: at_text_def)
  show ?thesis
  proof (cases "h_reallocate H")
    case None
    show ?thesis
    proof (cases "h_allocate H newsize")
      case (Some nb)
      have len: "length nb = newsize" using assms(1) Some by (simp add: hooks_ok_def)
      have "take (length u) (blit nb 0 (take (Suc (length u)) b)) = u"
        using b(1,3) by (simp add: blit_def min_def)
      with None Some b len assms(5) show ?thesis by (simp add: pb_grow_def mem_read_def mem_write_def)
    qed (use None in \<open>auto simp: pb_grow_def hooks_total_def\<close>)
  next
    case (Some A)
    have "length c = newsize \<and> take (length u) c = u" if "A (Some b) newsize = Some c" for c
    proof -
      from assms(1) Some that have c: "length c = newsize" "take (length b) c = take newsize b"
        by (auto simp: hooks_ok_def realloc_ok_def)
      have "take (length u) c = take (length u) (take (length b) c)" using b(3) by simp
      also have "\<dots> = u" using c(2) b(1) assms(4) by simp
      finally show ?thesis using c(1) by simp
    qed
    with Some show ?thesis by (auto simp: pb_grow_def hooks_total_def)
  qed
qed

lemma ensure_spec:
  assumes "hooks_ok H" and "at_text u p"
  shows "\<exists>out q. ensure H n p = Inr (out, q) \<and>
    (\<forall>off. out = Some off \<longrightarrow> off = length u \<and> at_text u q \<and> length u + n + 1 \<le> pb_length q \<and> same_mode p q) \<and>
    (room H p (length u + n) \<longrightarrow> out \<noteq> None)"
proof -
  from assms(2) obtain b where b: "pb_buffer p = Some b" "length b = pb_length p" "pb_offset p = length u"
    "take (length u) b = u" "length u < length b" by (auto simp: at_text_def)
  let ?need = "n + length u + 1"
  let ?new = "if int ?need > INT_MAX div 2 then nat INT_MAX else ?need * 2"
  consider (big) "int n > INT_MAX" | (fits) "\<not> int n > INT_MAX" "?need \<le> pb_length p"
    | (noalloc) "\<not> int n > INT_MAX" "\<not> ?need \<le> pb_length p" "pb_noalloc p"
    | (large) "\<not> int n > INT_MAX" "\<not> ?need \<le> pb_length p" "\<not> pb_noalloc p" "int ?need > INT_MAX"
    | (grow) "\<not> int n > INT_MAX" "\<not> ?need \<le> pb_length p" "\<not> pb_noalloc p" "int ?need \<le> INT_MAX" by linarith
  then show ?thesis
  proof cases
    case grow
    have sizes: "length b \<le> ?new" "length u < ?new" "?need \<le> ?new" using grow b(2) by (auto simp: INT_MAX_def)
    from pb_grow_spec [OF assms(1,2) b(1) sizes(1,2)] obtain nb where nb: "pb_grow H b ?new p = Inr nb"
      "\<forall>c. nb = Some c \<longrightarrow> length c = ?new \<and> take (length u) c = u" "hooks_total H \<longrightarrow> nb \<noteq> None" by blast
    have eq: "ensure H n p = bnd (pb_grow H b ?new p) (\<lambda>nb. case nb of
                None \<Rightarrow> Inr (None, p\<lparr>pb_length := 0, pb_buffer := None\<rparr>)
              | Some nb \<Rightarrow> Inr (Some (pb_offset p), p\<lparr>pb_length := ?new, pb_buffer := Some nb\<rparr>))"
      using grow b by (simp add: ensure_def Let_def)
    show ?thesis unfolding eq nb(1)
      using nb(2,3) sizes(2,3) b(3) grow(3) by (cases nb) (auto simp: at_text_def same_mode_def room_def)
  qed (use b assms(2) in \<open>auto simp: ensure_def Let_def room_def same_mode_def INT_MAX_def\<close>)
qed

lemma take_eq_split: "take (length u) b = u \<Longrightarrow> b = u @ drop (length u) b"
  by (metis append_take_drop_id)

lemma blit_end: "take (length u) b = u \<Longrightarrow> blit b (length u) bs = u @ bs @ drop (length u + length bs) b"
  by (simp add: blit_def)

lemma blit_next:
  "blit (u @ x @ drop (length u + length x) b) (length u + length x) y = u @ x @ y @ drop (length u + length x + length y) b"
proof -
  have "take (length u + length x) (u @ x @ c) = u @ x" and "drop (length u + length x + length y) (u @ x @ c) = drop (length y) c" for c
    by (simp_all add: add.assoc)
  then show ?thesis by (simp add: blit_def add.commute add.left_commute)
qed

lemma put_spec:
  assumes "hooks_ok H" and "at_text u p" and "length bs \<le> n + 1"
  shows "gives (room H p (length u + n)) (\<lambda>q. \<exists>r. pb_buffer q = Some (u @ bs @ r) \<and>
     length (u @ bs @ r) = pb_length q \<and> pb_offset q = length u + adv \<and> length u + n + 1 \<le> pb_length q \<and> same_mode p q)
     (pb_put H n bs adv p)"
proof -
  from ensure_spec [OF assms(1,2), of n] obtain out q where e: "ensure H n p = Inr (out, q)"
    "out = Some off \<Longrightarrow> off = length u \<and> at_text u q \<and> length u + n + 1 \<le> pb_length q \<and> same_mode p q"
    "room H p (length u + n) \<longrightarrow> out \<noteq> None" for off by blast
  show ?thesis
  proof (cases out)
    case (Some off)
    from e(2) [OF Some] have off: "off = length u" "length u + n + 1 \<le> pb_length q" "same_mode p q" and "at_text u q" by simp_all
    from \<open>at_text u q\<close> obtain b where "pb_buffer q = Some b" "length b = pb_length q" "pb_offset q = length u" "take (length u) b = u"
      unfolding at_text_def by blast
    with off have b: "pb_buffer q = Some b" "length b = pb_length q" "pb_offset q = length u"
      "take (length u) b = u" "off = length u" "length u + n + 1 \<le> length b" "same_mode p q" by simp_all
    have "pb_put H n bs adv p = Inr (True, q\<lparr>pb_buffer := Some (u @ bs @ drop (length u + length bs) b), pb_offset := length u + adv\<rparr>)"
    proof -
      have "length u + length bs \<le> length b" using b(6) assms(3) by simp
      then have "mem_write b (length u) bs = Inr (u @ bs @ drop (length u + length bs) b)"
        using blit_end [OF b(4)] by (simp only: mem_write_def if_True)
      with e(1) Some b(1,3,5) show ?thesis by (simp add: pb_put_def pb_write_def)
    qed
    moreover have "length (u @ bs @ drop (length u + length bs) b) = length b" using b(6) assms(3) by simp
    ultimately show ?thesis using b(2,6,7) unfolding gives_def by (auto simp: same_mode_def)
  qed (use e in \<open>auto simp: pb_put_def gives_def\<close>)
qed

lemma put_at:
  assumes "hooks_ok H" and "at_text u p" and "length t \<le> n" and "length (t @ z) \<le> n + 1" and "adv = length t"
  shows "gives (room H p (length u + n)) (\<lambda>q. at_text (u @ t) q \<and> same_mode p q) (pb_put H n (t @ z) adv p)"
proof (rule gives_mono [OF put_spec [OF assms(1,2,4), of adv]])
  fix q assume "\<exists>r. pb_buffer q = Some (u @ (t @ z) @ r) \<and> length (u @ (t @ z) @ r) = pb_length q \<and>
    pb_offset q = length u + adv \<and> length u + n + 1 \<le> pb_length q \<and> same_mode p q"
  then obtain r where r: "pb_buffer q = Some (u @ (t @ z) @ r)" "length (u @ (t @ z) @ r) = pb_length q"
    "pb_offset q = length u + adv" "length u + n + 1 \<le> pb_length q" "same_mode p q" by blast
  from r(2,4) assms(3) have "length (u @ t) < length (u @ (t @ z) @ r)" by simp
  with r assms(5) show "at_text (u @ t) q \<and> same_mode p q" unfolding at_text_def by simp
qed

lemma put_done:
  assumes "hooks_ok H" and "at_text u p" and "length t \<le> n" and "adv \<le> length t"
  shows "gives (room H p (length u + n)) (\<lambda>q. done_text u t q \<and> same_mode p q) (pb_put H n (t @ [0]) adv p)"
proof -
  have "length (t @ [0]) \<le> n + 1" using assms(3) by simp
  from put_spec [OF assms(1,2) this, of adv] show ?thesis
    by (rule gives_mono) (use assms(4) in \<open>auto simp: done_text_def\<close>)
qed

text \<open>
  The step \<open>m\<close>, begun in \<open>p\<close> behind the text \<open>u\<close>, writes the text \<open>txt\<close>: never a fault, and when it says yes, the text is in the
  buffer, with the offset behind it (\<open>D\<close> false) or not yet (\<open>D\<close> true). It says yes if there is a text and room for it.
\<close>

definition text_ends :: "bool \<Rightarrow> u8 list \<Rightarrow> u8 list \<Rightarrow> printbuffer \<Rightarrow> bool" where
  "text_ends D u t q = (if D then done_text u t q else at_text (u @ t) q)"

definition writes :: "hooks \<Rightarrow> bool \<Rightarrow> u8 list \<Rightarrow> printbuffer \<Rightarrow> u8 list option \<Rightarrow> (bool \<times> printbuffer) outcome \<Rightarrow> bool" where
  "writes H D u p txt m \<longleftrightarrow>
     gives (txt \<noteq> None \<and> room H p (length u + length (the_default txt) + 3))
       (\<lambda>q. \<exists>t. txt = Some t \<and> text_ends D u t q \<and> same_mode p q) m"

lemma text_ends_append: "text_ends D (u @ a) b q \<Longrightarrow> text_ends D u (a @ b) q"
  by (auto simp: text_ends_def done_text_def)

lemma same_mode_trans: "same_mode p q \<Longrightarrow> same_mode q r \<Longrightarrow> same_mode p r"
  by (simp add: same_mode_def)

lemma the_default_append: "the_default (opt_append (Some a) (Some b)) = a @ b"
  by (simp add: the_default_def)

lemma writes_Some: "gives S (\<lambda>q. text_ends D u t q \<and> same_mode p q) m \<Longrightarrow>
    (room H p (length u + length t + 3) \<Longrightarrow> S) \<Longrightarrow> writes H D u p (Some t) m"
  unfolding writes_def by (rule gives_mono, assumption) (auto simp: the_default_def)

lemma writes_then:
  assumes "writes H False u p a m"
    and "\<And>q t. a = Some t \<Longrightarrow> at_text (u @ t) q \<Longrightarrow> same_mode p q \<Longrightarrow> writes H D (u @ t) q b (f q)"
  shows "writes H D u p (opt_append a b) (and_then m f)"
  unfolding writes_def
proof (rule gives_and_then)
  show "gives (opt_append a b \<noteq> None \<and> room H p (length u + length (the_default (opt_append a b)) + 3))
      (\<lambda>q. \<exists>t. a = Some t \<and> text_ends False u t q \<and> same_mode p q) m"
    using assms(1) unfolding writes_def
    by (rule gives_mono) (auto simp: room_def the_default_def opt_append_def split: option.splits)
next
  fix q assume "\<exists>t. a = Some t \<and> text_ends False u t q \<and> same_mode p q"
  then obtain t where t: "a = Some t" "at_text (u @ t) q" "same_mode p q" by (auto simp: text_ends_def)
  from assms(2) [OF t] show "gives (opt_append a b \<noteq> None \<and> room H p (length u + length (the_default (opt_append a b)) + 3))
      (\<lambda>q. \<exists>t. opt_append a b = Some t \<and> text_ends D u t q \<and> same_mode p q) (f q)"
    unfolding writes_def
  proof (rule gives_mono)
    fix r assume "\<exists>t'. b = Some t' \<and> text_ends D (u @ t) t' r \<and> same_mode q r"
    then show "\<exists>t. opt_append a b = Some t \<and> text_ends D u t r \<and> same_mode p r"
      using t(1,3) by (auto intro: text_ends_append same_mode_trans)
  qed (use t in \<open>auto simp: room_def the_default_def opt_append_def same_mode_def split: option.splits\<close>)
qed

lemma writes_update:
  assumes "writes H True u p a m" and "\<And>t. a = Some t \<Longrightarrow> 0 \<notin> set t"
    and "\<And>q t. a = Some t \<Longrightarrow> at_text (u @ t) q \<Longrightarrow> same_mode p q \<Longrightarrow> writes H D (u @ t) q b (f q)"
  shows "writes H D u p (opt_append a b) (and_then m (\<lambda>q. bnd (update_offset q) f))"
proof -
  have "writes H False u p a (and_then m (\<lambda>q. bnd (update_offset q) (\<lambda>q. Inr (True, q))))"
    unfolding writes_def
  proof (rule gives_and_then)
    fix q assume "\<exists>t. a = Some t \<and> text_ends True u t q \<and> same_mode p q"
    then obtain t where t: "a = Some t" "done_text u t q" "same_mode p q" by (auto simp: text_ends_def)
    from update_offset_done [OF t(2) assms(2) [OF t(1)]] obtain r where
      "update_offset q = Inr r" "at_text (u @ t) r" "same_mode q r" by blast
    then show "gives (a \<noteq> None \<and> room H p (length u + length (the_default a) + 3))
       (\<lambda>q. \<exists>t. a = Some t \<and> text_ends False u t q \<and> same_mode p q) (bnd (update_offset q) (\<lambda>q. Inr (True, q)))"
      using t by (auto simp: text_ends_def intro: same_mode_trans)
  qed (use assms(1) in \<open>simp add: writes_def\<close>)
  from writes_then [OF this assms(3)] have "writes H D u p (opt_append a b)
    (and_then (and_then m (\<lambda>q. bnd (update_offset q) (\<lambda>q. Inr (True, q)))) f)" .
  moreover have "and_then (and_then m (\<lambda>q. bnd (update_offset q) (\<lambda>q. Inr (True, q)))) f = and_then m (\<lambda>q. bnd (update_offset q) f)"
  proof (cases m)
    case (Inr x)
    obtain ok q where x: "x = (ok, q)" by (cases x)
    show ?thesis by (cases "update_offset q") (auto simp: Inr x and_then_def)
  qed (simp add: and_then_def)
  ultimately show ?thesis by simp
qed

lemma put_writes_at:
  assumes "hooks_ok H" and "at_text u p" and "length t \<le> n" and "n \<le> length t + 3" and "length (t @ z) \<le> n + 1" and "adv = length t"
  shows "writes H False u p (Some t) (pb_put H n (t @ z) adv p)"
  by (rule writes_Some [OF _ _, of "room H p (length u + n)"])
    (use put_at [OF assms(1,2,3,5,6)] assms(4) in \<open>auto simp: text_ends_def room_def\<close>)

lemma put_writes_done:
  assumes "hooks_ok H" and "at_text u p" and "length t \<le> n" and "n \<le> length t + 3" and "adv \<le> length t"
  shows "writes H True u p (Some t) (pb_put H n (t @ [0]) adv p)"
  by (rule writes_Some [OF _ _, of "room H p (length u + n)"])
    (use put_done [OF assms(1-3,5)] assms(4) in \<open>auto simp: text_ends_def room_def\<close>)

lemma writes_None: "writes H D u p None (Inr (False, q))"
  by (auto simp: writes_def gives_def)

lemma print_number_writes:
  assumes "hooks_ok H" and "at_text u p" and "number_ok F d"
  shows "writes H True u p (number_text F d) (print_number F H d p)"
proof -
  have guard: "fp_isnan F d \<or> fp_isinf F d \<or> length (the_default (sprintf_15g F d)) + 1 \<le> 26"
    using assms(3) by (auto simp: number_ok_def)
  show ?thesis
  proof (cases "number_text F d")
    case None
    with guard show ?thesis by (auto simp: print_number_def guard_def writes_None)
  next
    case (Some t)
    then have "length t + 1 \<le> 26" using assms(3) by (simp add: number_ok_def)
    with guard Some have "print_number F H d p = pb_put H (length t + 1) (t @ [0]) (length t) p"
      by (simp add: print_number_def guard_def)
    with put_writes_done [OF assms(1,2), of t "length t + 1" "length t"] Some show ?thesis by simp
  qed
qed

lemma print_string_writes:
  assumes "hooks_ok H" and "at_text u p"
  shows "writes H True u p (Some (string_text s)) (print_string_ptr H s p)"
proof (cases s)
  case None
  then show ?thesis using put_writes_done [OF assms, of "[34, 34]" 3 0] by (simp add: string_text_def print_string_ptr_def)
next
  case (Some v)
  let ?k = "sum_list (map escape_extra v)" let ?e = "concat (map escape_char v)" let ?n = "length v + ?k + 3"
  let ?t = "34 # ?e @ [34]"
  have len: "length ?e = length v + ?k" by (rule length_escaped)
  have "gives (room H p (length u + ?n)) (\<lambda>q. done_text u ?t q \<and> same_mode p q) (print_string_ptr H s p)"
  proof -
    from ensure_spec [OF assms, of ?n] obtain out q where e: "ensure H ?n p = Inr (out, q)"
      "\<And>off. out = Some off \<Longrightarrow> off = length u \<and> at_text u q \<and> length u + ?n + 1 \<le> pb_length q \<and> same_mode p q"
      "room H p (length u + ?n) \<longrightarrow> out \<noteq> None" by blast
    show ?thesis
    proof (cases out)
      case (Some off)
      from e(2) [OF Some] have off: "off = length u" "length u + ?n + 1 \<le> pb_length q" "same_mode p q" and "at_text u q" by simp_all
      from \<open>at_text u q\<close> obtain b where b: "pb_buffer q = Some b" "length b = pb_length q" "pb_offset q = length u"
        "take (length u) b = u" unfolding at_text_def by blast
      let ?r = "drop (length u + length (?t @ [0])) b"
      have fits: "length u + ?n + 1 \<le> length b" using off(2) b(2) by simp
      have whole: "mem_write b (length u) (?t @ [0]) = Inr (u @ (?t @ [0]) @ ?r)"
        using blit_end [OF b(4), of "?t @ [0]"] fits len by (simp add: mem_write_def)
      have "print_string_ptr H s p = Inr (True, q\<lparr>pb_buffer := Some (u @ (?t @ [0]) @ ?r)\<rparr>)"
      proof (cases "?k = 0")
        case True
        then have "?e = v" by (rule unescaped)
        with whole True e(1) Some off(1) b(1) \<open>s = Some v\<close> show ?thesis
          by (simp add: print_string_ptr_def pb_write_def)
      next
        case False
        have w1: "mem_write b (length u) (34 # ?e) = Inr (u @ (34 # ?e) @ drop (length u + length (34 # ?e)) b)"
          using blit_end [OF b(4), of "34 # ?e"] fits len by (simp add: mem_write_def)
        let ?b1 = "u @ (34 # ?e) @ drop (length u + length (34 # ?e)) b"
        have pos: "length u + (length v + ?k) + 1 = length (u @ 34 # ?e)" using len by simp
        from blit_next [of u "34 # ?e" b "[34, 0]"]
        have "blit ?b1 (length (u @ 34 # ?e)) [34, 0] = u @ (?t @ [0]) @ ?r" by (simp add: add_ac)
        moreover have "length (u @ 34 # ?e) + 2 \<le> length ?b1" using fits len by simp
        ultimately have w2: "mem_write ?b1 (length (u @ 34 # ?e)) [34, 0] = Inr (u @ (?t @ [0]) @ ?r)"
          by (simp only: mem_write_def) simp
        have eq: "print_string_ptr H s p = bnd (pb_write (length u) (34 # ?e) q) (\<lambda>p.
            bnd (pb_write (length (u @ 34 # ?e)) [34, 0] p) (\<lambda>p. Inr (True, p)))"
          unfolding pos [symmetric] using False e(1) Some off(1) \<open>s = Some v\<close>
          by (simp add: print_string_ptr_def Let_def del: sum_list_eq_0_iff)
        show ?thesis unfolding eq using w1 w2 b(1) by (simp add: pb_write_def)
      qed
      moreover have "done_text u ?t (q\<lparr>pb_buffer := Some (u @ (?t @ [0]) @ ?r)\<rparr>)"
        unfolding done_text_def using b(2,3) fits len by (intro exI [of _ "u @ (?t @ [0]) @ ?r"] exI [of _ ?r]) auto
      ultimately show ?thesis using off(3) by (simp add: same_mode_def)
    qed (use e \<open>s = Some v\<close> in \<open>auto simp: print_string_ptr_def gives_def\<close>)
  qed
  then have "gives (room H p (length u + ?n)) (\<lambda>q. text_ends True u ?t q \<and> same_mode p q) (print_string_ptr H s p)"
    by (simp add: text_ends_def)
  moreover have "string_text s = ?t" by (simp add: string_text_def Some)
  ultimately show ?thesis using len by (auto simp: room_def intro!: writes_Some)
qed

section \<open>The whole of the printer\<close>

lemma json_text_nonzero:
  "item_ok F e \<Longrightarrow> json_text F fmt n e = Some t \<Longrightarrow> 0 \<notin> set t"
  "\<forall>e \<in> set es. item_ok F e \<Longrightarrow> elements_text F fmt n es = Some t \<Longrightarrow> 0 \<notin> set t"
  "\<forall>e \<in> set es. item_ok F e \<Longrightarrow> members_text F fmt n es = Some t \<Longrightarrow> 0 \<notin> set t"
proof (induction F fmt n e and F fmt n es and F fmt n es arbitrary: t and t and t
    rule: json_text_elements_text_members_text.induct)
  case (1 F fmt n ty vs vi vd nm ch)
  from "1.prems"(2) show ?case
    using "1.IH" "1.prems"(1) string_text_nonzero [of vs]
    by (auto simp: Let_def opt_append_Some_iff number_ok_def str_ok_def the_default_def txt_null_def txt_true_def txt_false_def
        split: if_splits)
next
  case (3 F fmt n e es)
  then show ?case by (auto simp: opt_append_Some_iff split: if_splits)
next
  case (5 F fmt n e es)
  have "0 \<notin> set (string_text (j_string e))" using "5.prems"(1) using string_text_nonzero [of "j_string e"] by (cases e) auto
  with 5 show ?case by (auto simp: opt_append_Some_iff split: if_splits)
qed auto

lemma with_depth_simps [simp]:
  "pb_format (with_depth f p) = pb_format p" "pb_depth (with_depth f p) = f (pb_depth p)" "pb_noalloc (with_depth f p) = pb_noalloc p"
  "pb_length (with_depth f p) = pb_length p"
  "at_text u (with_depth f p) = at_text u p" "done_text u t (with_depth f p) = done_text u t p"
  "room H (with_depth f p) k = room H p k"
  by (simp_all add: with_depth_def at_text_def done_text_def room_def)

text \<open>A container: the opening, the contents one level deeper, the closing.\<close>

lemma writes_nested:
  assumes "writes H False u p (Some a) m"
    and "\<And>q. at_text (u @ a) q \<Longrightarrow> same_mode p q \<Longrightarrow> writes H False (u @ a) (with_depth Suc q) b (f (with_depth Suc q))"
    and "\<And>q t. b = Some t \<Longrightarrow> at_text (u @ a @ t) q \<Longrightarrow> same_mode (with_depth Suc p) q \<Longrightarrow> writes H True (u @ a @ t) q (Some c) (g q)"
  shows "writes H True u p (opt_append (Some a) (opt_append b (Some c)))
    (and_then m (\<lambda>q. and_then (f (with_depth Suc q)) (\<lambda>q. and_then (g q) (\<lambda>q. Inr (True, with_depth (\<lambda>d. d - 1) q)))))"
proof (rule writes_then [OF assms(1)])
  fix q t assume t: "Some a = Some t" "at_text (u @ t) q" "same_mode p q"
  let ?q = "with_depth Suc q"
  have q: "at_text (u @ a) q" "same_mode p q" using t by simp_all
  have "writes H True (u @ a) ?q (opt_append b (Some c)) (and_then (f ?q) g)"
  proof (rule writes_then [OF assms(2) [OF q]])
    fix r t' assume "b = Some t'" "at_text ((u @ a) @ t') r" "same_mode ?q r"
    then show "writes H True ((u @ a) @ t') r (Some c) (g r)"
      using assms(3) [of t' r] q(2) by (simp add: same_mode_def)
  qed
  then have "gives (opt_append b (Some c) \<noteq> None \<and> room H q (length (u @ a) + length (the_default (opt_append b (Some c))) + 3))
      (\<lambda>r. \<exists>t. opt_append b (Some c) = Some t \<and> text_ends True (u @ a) t r \<and> same_mode ?q r) (and_then (f ?q) g)"
    by (simp add: writes_def)
  then have "writes H True (u @ a) q (opt_append b (Some c)) (and_then (and_then (f ?q) g) (\<lambda>q. Inr (True, with_depth (\<lambda>d. d - 1) q)))"
    unfolding writes_def by (rule gives_and_then) (auto simp: text_ends_def same_mode_def)
  moreover have "and_then (and_then (f ?q) g) k = and_then (f ?q) (\<lambda>q. and_then (g q) k)" for k :: "printbuffer \<Rightarrow> (bool \<times> printbuffer) outcome"
  proof (cases "f ?q")
    case (Inr x)
    then show ?thesis by (cases x) (auto simp: and_then_def)
  qed (simp add: and_then_def)
  ultimately show "writes H True (u @ t) q (opt_append b (Some c))
      (and_then (f ?q) (\<lambda>q. and_then (g q) (\<lambda>q. Inr (True, with_depth (\<lambda>d. d - 1) q))))" using t(1) by simp
qed

lemma writes_nothing: "at_text u p \<Longrightarrow> writes H False u p (Some []) (Inr (True, p))"
  by (simp add: writes_def text_ends_def same_mode_def)

lemma print_writes:
  "hooks_ok H \<Longrightarrow> item_ok F e \<Longrightarrow> at_text u p \<Longrightarrow> pb_format p = fmt \<Longrightarrow> pb_depth p = n \<Longrightarrow>
    writes H True u p (json_text F fmt n e) (print_value F H e p)"
  "hooks_ok H \<Longrightarrow> \<forall>e \<in> set es. item_ok F e \<Longrightarrow> at_text u p \<Longrightarrow> pb_format p = fmt \<Longrightarrow> pb_depth p = n \<Longrightarrow>
    writes H False u p (elements_text F fmt n es) (print_elements F H es p)"
  "hooks_ok H \<Longrightarrow> \<forall>e \<in> set es. item_ok F e \<Longrightarrow> at_text u p \<Longrightarrow> pb_format p = fmt \<Longrightarrow> pb_depth p = n \<Longrightarrow>
    writes H False u p (members_text F fmt n es) (print_members F H es p)"
proof (induction F fmt n e and F fmt n es and F fmt n es arbitrary: u p and u p and u p
    rule: json_text_elements_text_members_text.induct)
  case (1 F fmt n ty vs vi vd nm ch)
  let ?k = "ty AND 0xFF"
  note prems = "1.prems"
  consider "?k = cJSON_NULL" | "?k = cJSON_False" | "?k = cJSON_True" | "?k = cJSON_Number" | "?k = cJSON_Raw" | "?k = cJSON_String"
    | (array) "?k = cJSON_Array" | (obj) "?k = cJSON_Object"
    | (other) "?k \<notin> {cJSON_NULL, cJSON_False, cJSON_True, cJSON_Number, cJSON_Raw, cJSON_String, cJSON_Array, cJSON_Object}" by blast
  then show ?case
  proof cases
    case array
    have "writes H False u p (Some [91]) (pb_put H 1 [91] 1 p)"
      using put_writes_at [OF prems(1,3), of "[91]" 1 "[]" 1] by simp
    moreover have "writes H False (u @ [91]) (with_depth Suc q) (elements_text F fmt (Suc n) ch) (print_elements F H ch (with_depth Suc q))"
      if "at_text (u @ [91]) q" "same_mode p q" for q
      by (rule "1.IH"(1) [OF refl]) (use array that prems in \<open>simp_all add: same_mode_def cJSON_types\<close>)
    moreover have "writes H True (u @ [91] @ t) q (Some [93]) (pb_put H 2 [93, 0] 0 q)" if "at_text (u @ [91] @ t) q" for q t
      using put_writes_done [OF prems(1) that, of "[93]" 2 0] by simp
    ultimately have "writes H True u p (opt_append (Some [91]) (opt_append (elements_text F fmt (Suc n) ch) (Some [93])))
      (and_then (pb_put H 1 [91] 1 p) (\<lambda>q. and_then (print_elements F H ch (with_depth Suc q)) (\<lambda>q. and_then (pb_put H 2 [93, 0] 0 q)
        (\<lambda>q. Inr (True, with_depth (\<lambda>d. d - 1) q)))))" by (rule writes_nested)
    with array show ?thesis by (simp add: cJSON_types)
  next
    case obj
    let ?start = "(123 :: u8) # (if fmt then [10] else [])" let ?close = "(if fmt then replicate n (9 :: u8) else []) @ [125]"
    have "writes H False u p (Some ?start) (pb_put H (length ?start + 1) ?start (length ?start) p)"
      using put_writes_at [OF prems(1,3), of ?start "length ?start + 1" "[]" "length ?start"] by simp
    moreover have "writes H False (u @ ?start) (with_depth Suc q) (members_text F fmt (Suc n) ch) (print_members F H ch (with_depth Suc q))"
      if "at_text (u @ ?start) q" "same_mode p q" for q
      by (rule "1.IH"(2) [OF refl]) (use obj that prems in \<open>simp_all add: same_mode_def cJSON_types\<close>)
    moreover have "writes H True (u @ ?start @ t) q (Some ?close)
        (pb_put H (if fmt then pb_depth q + 1 else 2) ((if fmt then replicate (pb_depth q - 1) 9 else []) @ [125, 0]) 0 q)"
      if "at_text (u @ ?start @ t) q" and "same_mode (with_depth Suc p) q" for q t
      using put_writes_done [OF prems(1) that(1), of ?close "if fmt then pb_depth q + 1 else 2" 0] that(2) prems(5)
      by (cases fmt) (simp_all add: same_mode_def)
    ultimately have "writes H True u p (opt_append (Some ?start) (opt_append (members_text F fmt (Suc n) ch) (Some ?close)))
      (and_then (pb_put H (length ?start + 1) ?start (length ?start) p) (\<lambda>q. and_then (print_members F H ch (with_depth Suc q))
        (\<lambda>q. and_then (pb_put H (if fmt then pb_depth q + 1 else 2) ((if fmt then replicate (pb_depth q - 1) 9 else []) @ [125, 0]) 0 q)
        (\<lambda>q. Inr (True, with_depth (\<lambda>d. d - 1) q)))))" by (rule writes_nested)
    with obj prems(4) show ?thesis by (simp add: cJSON_types Let_def)
  next
    case other
    then show ?thesis by (simp add: Let_def writes_None)
  next
    case 5
    show ?thesis
    proof (cases vs)
      case (Some raw)
      with 5 put_writes_done [OF prems(1,3), of raw "length raw + 1" 0] show ?thesis by (simp add: cJSON_types)
    qed (use 5 in \<open>simp add: cJSON_types writes_None\<close>)
  qed (use prems put_writes_done [OF prems(1,3), of txt_null 5 0] put_writes_done [OF prems(1,3), of txt_false 6 0]
      put_writes_done [OF prems(1,3), of txt_true 5 0] print_number_writes [OF prems(1,3), of F vd] print_string_writes [OF prems(1,3), of vs]
      in \<open>simp_all add: cJSON_types txt_null_def txt_false_def txt_true_def\<close>)
next
  case (2 F fmt n)
  then show ?case by (simp add: writes_nothing)
next
  case (4 F fmt n)
  then show ?case by (simp add: writes_nothing)
next
  case (3 F fmt n e es)
  note prems = "3.prems"
  let ?sep = "44 # (if fmt then [32] else [])"
  have "writes H False u p (opt_append (json_text F fmt n e)
       (opt_append (Some (if es = [] then [] else ?sep)) (elements_text F fmt n es)))
     (and_then (print_value F H e p) (\<lambda>p. bnd (update_offset p) (\<lambda>p. if es = [] then Inr (True, p)
     else let sep = 44 # (if pb_format p then [32] else []) in
          and_then (pb_put H (length sep + 1) (sep @ [0]) (length sep) p) (\<lambda>p. print_elements F H es p))))"
  proof (rule writes_update)
    fix q t assume t: "json_text F fmt n e = Some t" "at_text (u @ t) q" "same_mode p q"
    show "writes H False (u @ t) q (opt_append (Some (if es = [] then [] else ?sep)) (elements_text F fmt n es))
      (if es = [] then Inr (True, q) else let sep = 44 # (if pb_format q then [32] else []) in
          and_then (pb_put H (length sep + 1) (sep @ [0]) (length sep) q) (\<lambda>p. print_elements F H es p))"
    proof (cases "es = []")
      case False
      have fmt: "pb_format q = fmt" using t(3) prems(4) by (simp add: same_mode_def)
      have "writes H False (u @ t) q (opt_append (Some ?sep) (elements_text F fmt n es))
        (and_then (pb_put H (length ?sep + 1) (?sep @ [0]) (length ?sep) q) (\<lambda>p. print_elements F H es p))"
      proof (rule writes_then)
        show "writes H False (u @ t) q (Some ?sep) (pb_put H (length ?sep + 1) (?sep @ [0]) (length ?sep) q)"
          by (rule put_writes_at [OF prems(1) t(2)]) simp_all
        fix r s assume "Some ?sep = Some s" "at_text ((u @ t) @ s) r" "same_mode q r"
        then show "writes H False ((u @ t) @ s) r (elements_text F fmt n es) (print_elements F H es r)"
          using "3.IH"(2) [OF prems(1), of "(u @ t) @ s" r] prems t(3) by (simp add: same_mode_def)
      qed
      with False fmt show ?thesis by (simp add: Let_def)
    qed (use t writes_nothing [of "u @ t" q H] in simp)
  qed (use "3.IH"(1) [OF prems(1) _ prems(3-5)] prems(2) json_text_nonzero(1) [of F e fmt n] in auto)
  then show ?case by simp
next
  case (5 F fmt n e es)
  note prems = "5.prems"
  let ?tabs = "if fmt then replicate n (9 :: u8) else []" and ?colon = "(58 :: u8) # (if fmt then [9] else [])"
  let ?sep = "(if es = [] then [] else [44 :: u8]) @ (if fmt then [10] else [])"
  have str: "0 \<notin> set (string_text (j_string e))" using prems(2) string_text_nonzero [of "j_string e"] by (cases e) auto
  have val: "writes H True v q (json_text F fmt n e) (print_value F H e q)" if "at_text v q" "same_mode p q" for v q
    using "5.IH"(1) [OF prems(1) _ that(1)] prems(2,4,5) that(2) by (simp add: same_mode_def)
  have rest: "writes H False v q (members_text F fmt n es) (print_members F H es q)" if "at_text v q" "same_mode p q" for v q
    using "5.IH"(2) [OF prems(1) _ that(1)] prems(2,4,5) that(2) by (simp add: same_mode_def)
  have mode: "pb_format q = fmt \<and> pb_depth q = n" if "same_mode p q" for q using that prems(4,5) by (simp add: same_mode_def)
  let ?M4 = "\<lambda>p. let sep = (if es = [] then [] else [44]) @ (if pb_format p then [10] else []) in
     and_then (pb_put H (length sep + 1) (sep @ [0]) (length sep) p) (\<lambda>p. print_members F H es p)"
  let ?M3 = "\<lambda>p. and_then (print_value F H e p) (\<lambda>p. bnd (update_offset p) ?M4)"
  let ?M2 = "\<lambda>p. let colon = 58 # (if pb_format p then [9] else []) in and_then (pb_put H (length colon) colon (length colon) p) ?M3"
  let ?t4 = "opt_append (Some ?sep) (members_text F fmt n es)" let ?t3 = "opt_append (json_text F fmt n e) ?t4"
  have m4: "writes H False v q ?t4 (?M4 q)" if q: "at_text v q" "same_mode p q" for v q
  proof -
    have "writes H False v q ?t4 (and_then (pb_put H (length ?sep + 1) (?sep @ [0]) (length ?sep) q) (\<lambda>p. print_members F H es p))"
    proof (rule writes_then)
      show "writes H False v q (Some ?sep) (pb_put H (length ?sep + 1) (?sep @ [0]) (length ?sep) q)"
        by (rule put_writes_at [OF prems(1) q(1)]) simp_all
    qed (rule rest, assumption, rule same_mode_trans [OF q(2)])
    with mode [OF q(2)] show ?thesis by (simp add: Let_def)
  qed
  have m3: "writes H False v q ?t3 (?M3 q)" if q: "at_text v q" "same_mode p q" for v q
  proof (rule writes_update [OF val [OF q]])
    show "0 \<notin> set t" if "json_text F fmt n e = Some t" for t using json_text_nonzero(1) [OF _ that] prems(2) by simp
  qed (rule m4, assumption, rule same_mode_trans [OF q(2)])
  have m2: "writes H False v q (opt_append (Some ?colon) ?t3) (?M2 q)" if q: "at_text v q" "same_mode p q" for v q
  proof -
    have "writes H False v q (Some ?colon) (pb_put H (length ?colon) ?colon (length ?colon) q)"
      using put_writes_at [OF prems(1) q(1), of ?colon "length ?colon" "[]" "length ?colon"] by simp
    then have "writes H False v q (opt_append (Some ?colon) ?t3) (and_then (pb_put H (length ?colon) ?colon (length ?colon) q) ?M3)"
      by (rule writes_then) (rule m3, assumption, rule same_mode_trans [OF q(2)])
    with mode [OF q(2)] show ?thesis by (simp add: Let_def)
  qed
  have tabs: "writes H False u p (Some ?tabs)
      (if pb_format p then pb_put H (pb_depth p) (replicate (pb_depth p) 9) (pb_depth p) p else Inr (True, p))"
    using put_writes_at [OF prems(1,3), of "replicate n 9" n "[]" n] writes_nothing [OF prems(3)] prems(4,5) by auto
  have "writes H False u p (opt_append (Some ?tabs) (opt_append (Some (string_text (j_string e))) (opt_append (Some ?colon) ?t3)))
    (print_members F H (e # es) p)" unfolding print_members.simps
  proof (rule writes_then [OF tabs])
    fix q t assume t: "Some ?tabs = Some t" "at_text (u @ t) q" "same_mode p q"
    show "writes H False (u @ t) q (opt_append (Some (string_text (j_string e))) (opt_append (Some ?colon) ?t3))
      (and_then (print_string_ptr H (j_string e) q) (\<lambda>p. bnd (update_offset p) ?M2))"
    proof (rule writes_update [OF print_string_writes [OF prems(1) t(2)]])
      show "0 \<notin> set s" if "Some (string_text (j_string e)) = Some s" for s using str that by simp
    qed (rule m2, assumption, rule same_mode_trans [OF t(3)])
  qed
  moreover have "opt_append (Some ?tabs) (opt_append (Some (string_text (j_string e))) (opt_append (Some ?colon) ?t3)) =
      members_text F fmt n (e # es)" by (cases ?t3) (simp_all del: opt_append_simps(3) add: opt_append_def split: option.split)
  ultimately show ?case by simp
qed


section \<open>A concrete instance\<close>

text \<open>Hooks and numbers for the witnesses: memory never runs out, and the numbers are the integers.\<close>

definition hooks_ref :: hooks where
  "hooks_ref = \<lparr>h_allocate = (\<lambda>n. Some (replicate n 0xAA)), h_reallocate = Some realloc_ref\<rparr>"

fun digits_text :: "nat \<Rightarrow> nat \<Rightarrow> u8 list" where
  "digits_text 0 n = []"
| "digits_text (Suc f) n = (if n < 10 then [of_nat (48 + n)] else digits_text f (n div 10) @ [of_nat (48 + n mod 10)])"

definition int_text :: "int \<Rightarrow> u8 list" where
  "int_text d = (if d < 0 then [45] else []) @ digits_text 20 (nat \<bar>d\<bar>)"

definition int_value :: "u8 list \<Rightarrow> int \<times> nat" where
  "int_value t =
     (let neg = (t \<noteq> [] \<and> hd t = 45); ds = takeWhile (\<lambda>b. 48 \<le> b \<and> b \<le> 57) (if neg then tl t else t);
          v = foldl (\<lambda>v b. 10 * v + (uint b - 48)) 0 ds in
      if ds = [] then (0, 0) else (if neg then - v else v, length ds + (if neg then 1 else 0)))"

definition fp_ref :: "int fp" where
  "fp_ref = \<lparr>fp_isnan = (\<lambda>_. False), fp_isinf = (\<lambda>_. False), fp_le = (\<le>), fp_gt = (>), fp_sub = (-), fp_mul = (*), fp_fabs = abs,
     fp_epsilon = 0, fp_of_int = (\<lambda>i. i), fp_to_int = (\<lambda>i. i), fp_nan = 0, sprintf_15g = (\<lambda>d. Some (int_text d)),
     sprintf_17g = (\<lambda>d. Some (int_text d)), sscanf_lg = (\<lambda>t. Some (fst (int_value t))), strtod = int_value\<rparr>"

lemma hooks_ref_ok: "hooks_ok hooks_ref" "hooks_total hooks_ref"
  using realloc_ref_ok by (auto simp: hooks_ok_def hooks_total_def hooks_ref_def) (simp add: realloc_ref_def)

section \<open>Printing a whole item\<close>

lemma print_value_starts:
  assumes "hooks_ok H" and "item_ok F item" and "length b = n" and "0 < n"
  obtains ok q where
    "print_value F H item \<lparr>pb_buffer = Some b, pb_length = n, pb_offset = 0, pb_depth = 0, pb_noalloc = na, pb_format = fmt\<rparr> = Inr (ok, q)"
    and "ok \<Longrightarrow> \<exists>t. json_text F fmt 0 item = Some t \<and> done_text [] t q \<and> (na \<longrightarrow> pb_length q = n)"
    and "\<And>t. json_text F fmt 0 item = Some t \<Longrightarrow> int (length t) + 4 \<le> INT_MAX \<Longrightarrow>
      (if na then length t + 4 \<le> n else hooks_total H) \<Longrightarrow> ok"
proof -
  let ?p = "\<lparr>pb_buffer = Some b, pb_length = n, pb_offset = 0, pb_depth = 0, pb_noalloc = na, pb_format = fmt\<rparr>"
  have "at_text [] ?p" using assms(3,4) by (auto simp: at_text_def)
  from print_writes(1) [OF assms(1,2) this, of fmt 0] have
    "gives (json_text F fmt 0 item \<noteq> None \<and> room H ?p (length (the_default (json_text F fmt 0 item)) + 3))
       (\<lambda>q. \<exists>t. json_text F fmt 0 item = Some t \<and> done_text [] t q \<and> same_mode ?p q) (print_value F H item ?p)"
    by (simp add: writes_def text_ends_def)
  then obtain ok q where "print_value F H item ?p = Inr (ok, q)"
    "ok \<longrightarrow> (\<exists>t. json_text F fmt 0 item = Some t \<and> done_text [] t q \<and> same_mode ?p q)"
    "json_text F fmt 0 item \<noteq> None \<and> room H ?p (length (the_default (json_text F fmt 0 item)) + 3) \<longrightarrow> ok"
    unfolding gives_def by blast
  then show thesis by (intro that [of ok q]) (auto simp: room_def the_default_def same_mode_def split: if_splits)
qed

lemma give_back:
  assumes "hooks_ok H" and "at_text t p" and "pb_buffer p = Some b"  and "b = t @ 0 # r"
  shows "\<exists>m. (case h_reallocate H of
                 Some A \<Rightarrow> Inr (A (Some b) (pb_offset p + 1))
               | None \<Rightarrow> (case h_allocate H (pb_offset p + 1) of
                     None \<Rightarrow> Inr None
                   | Some printed \<Rightarrow>
                       bnd (mem_read b 0 (min (pb_length p) (pb_offset p + 1))) (\<lambda>bs.
                       bnd (mem_write printed 0 bs) (\<lambda>printed.
                       bnd (mem_write printed (pb_offset p) [0]) (\<lambda>printed. Inr (Some printed)))))) = Inr m \<and>
     (\<forall>c. m = Some c \<longrightarrow> c = t @ [0]) \<and> (hooks_total H \<longrightarrow> m \<noteq> None)"
proof -
  have p: "pb_offset p = length t" "length b = pb_length p" using assms(2,3) by (auto simp: at_text_def)
  show ?thesis
  proof (cases "h_reallocate H")
    case (Some A)
    have "c = t @ [0]" if "A (Some b) (Suc (length t)) = Some c" for c
    proof -
      have c: "length c = Suc (length t)" "take (length b) c = take (Suc (length t)) b"
        using assms(1) Some that by (auto simp: hooks_ok_def realloc_ok_def)
      then show ?thesis using assms(4) by simp
    qed
    with Some p show ?thesis by (auto simp: hooks_total_def)
  next
    case None
    show ?thesis
    proof (cases "h_allocate H (Suc (length t))")
      case (Some c)
      then have "length c = Suc (length t)" using assms(1) by (simp add: hooks_ok_def)
      moreover have "min (pb_length p) (Suc (length t)) = Suc (length t)" using p(2) assms(4) by auto
      ultimately show ?thesis using None Some p(1) assms(4) by (simp add: mem_read_def mem_write_def blit_def)
    qed (use None p in \<open>auto simp: hooks_total_def\<close>)
  qed
qed

text \<open>
  \<open>print\<close> never leaves its buffers and returns NULL or memory that holds the text and its zero byte and nothing else; it
  returns NULL only for an item without a text, for a text beyond \<open>INT_MAX\<close>, or when memory runs out.
\<close>

lemma print_json_exact:
  assumes "hooks_ok H" and "item_ok F item"
  shows "\<exists>r. print_json F H fmt item = Inr r \<and>
    (\<forall>m. r = Some m \<longrightarrow> (\<exists>t. json_text F fmt 0 item = Some t \<and> m = t @ [0])) \<and>
    (hooks_total H \<and> (\<exists>t. json_text F fmt 0 item = Some t \<and> int (length t) + 4 \<le> INT_MAX) \<longrightarrow> r \<noteq> None)"
proof (cases "h_allocate H 256")
  case (Some b)
  let ?p = "\<lparr>pb_buffer = Some b, pb_length = 256, pb_offset = 0, pb_depth = 0, pb_noalloc = False, pb_format = fmt\<rparr>"
  have len: "length b = 256" using assms(1) Some by (simp add: hooks_ok_def)
  obtain ok q where q: "print_value F H item ?p = Inr (ok, q)"
    "ok \<Longrightarrow> \<exists>t. json_text F fmt 0 item = Some t \<and> done_text [] t q"
    "\<And>t. json_text F fmt 0 item = Some t \<Longrightarrow> int (length t) + 4 \<le> INT_MAX \<Longrightarrow> hooks_total H \<Longrightarrow> ok"
    by (rule print_value_starts [OF assms len, of False fmt]) auto
  show ?thesis
  proof (cases ok)
    case True
    with q(2) obtain t where t: "json_text F fmt 0 item = Some t" "done_text [] t q" by blast
    have "0 \<notin> set t" by (rule json_text_nonzero(1) [OF assms(2) t(1)])
    from update_offset_done [OF t(2) this] obtain q' where q': "update_offset q = Inr q'" "at_text t q'" by auto
    from t(2) obtain c r where c: "pb_buffer q = Some c" "c = t @ 0 # r" by (auto simp: done_text_def)
    have same: "pb_buffer q' = Some c"
      using q'(1) c(1) by (cases "c_strlen (drop (pb_offset q) c)") (auto simp: update_offset_def)
    from give_back [OF assms(1) q'(2) same c(2)] show ?thesis
      using q(1) True q'(1) same t(1) by (auto simp: print_json_def Some)
  qed (use q in \<open>auto simp: print_json_def Some\<close>)
qed (use assms in \<open>auto simp: print_json_def hooks_total_def\<close>)

text \<open>
  Printing into a buffer of the caller, of any length: nothing is written outside it; if the function says yes, the buffer holds
  the text and its zero byte and has kept its length; and four bytes more than the text is long are always enough.
\<close>

lemma preallocated_enough:
  assumes "hooks_ok H" and "item_ok F item" and "length b = nat len" and "0 < len" and "len \<le> INT_MAX"
  shows "\<exists>ok m. cJSON_PrintPreallocated F H item (Some b) len fmt = Inr (ok, m) \<and>
    (ok \<longrightarrow> (\<exists>t r. json_text F fmt 0 item = Some t \<and> m = Some (t @ 0 # r) \<and> length (t @ 0 # r) = length b)) \<and>
    (\<forall>t. json_text F fmt 0 item = Some t \<and> int (length t) + 4 \<le> len \<longrightarrow> ok)"
proof -
  let ?p = "\<lparr>pb_buffer = Some b, pb_length = nat len, pb_offset = 0, pb_depth = 0, pb_noalloc = True, pb_format = fmt\<rparr>"
  have "0 < nat len" using assms(4) by simp
  then obtain ok q where q: "print_value F H item ?p = Inr (ok, q)"
    "ok \<Longrightarrow> \<exists>t. json_text F fmt 0 item = Some t \<and> done_text [] t q \<and> pb_length q = nat len"
    "\<And>t. json_text F fmt 0 item = Some t \<Longrightarrow> int (length t) + 4 \<le> INT_MAX \<Longrightarrow> length t + 4 \<le> nat len \<Longrightarrow> ok"
    by (rule print_value_starts [OF assms(1-3), of True fmt]) auto
  have "cJSON_PrintPreallocated F H item (Some b) len fmt = Inr (ok, pb_buffer q)"
    using q(1) assms(4) by (simp add: cJSON_PrintPreallocated_def)
  moreover have "ok" if "json_text F fmt 0 item = Some t" "int (length t) + 4 \<le> len" for t
    by (rule q(3) [OF that(1)]) (use that(2) assms(5) in linarith)+
  ultimately show ?thesis using q(2) assms(3) by (auto simp: done_text_def)
qed

lemma preallocated_enough_witness:
  "\<exists>m. cJSON_PrintPreallocated fp_ref hooks_ref (CJSON cJSON_True None 1 0 None []) (Some (replicate 8 7)) 8 True = Inr (True, m)"
proof -
  let ?item = "CJSON cJSON_True None 1 (0 :: int) None []"
  have "item_ok fp_ref ?item" by (simp add: str_ok_def the_default_def cJSON_types)
  moreover have "json_text fp_ref True 0 ?item = Some txt_true" "int (length txt_true) + 4 \<le> 8" by (simp_all add: cJSON_types txt_true_def)
  ultimately show ?thesis
    using preallocated_enough [OF hooks_ref_ok(1), of fp_ref ?item "replicate 8 7" 8 True] by (auto simp: INT_MAX_def)
qed

text \<open>
  \<open>cJSON_PrintBuffered\<close> with a prebuffer of no bytes: without \<open>realloc\<close> its first growth copies \<open>offset + 1\<close> bytes out of
  the empty buffer. With a larger prebuffer it returns the text and its zero byte, followed by what is left of the buffer.
\<close>

lemma empty_prebuffer_over_read:
  assumes "hooks_ok H" and "hooks_total H" and "h_reallocate H = None"
  shows "cJSON_PrintBuffered F H (CJSON cJSON_True None 1 vd None []) 0 fmt = Inl OutOfBounds"
proof -
  obtain b c where "h_allocate H 0 = Some b" "h_allocate H 12 = Some c" using assms(2) by (meson hooks_total_def not_None_eq)
  moreover from this(1) have "b = []" using assms(1) by (auto simp: hooks_ok_def)
  ultimately show ?thesis using assms(3)
    by (simp add: cJSON_PrintBuffered_def cJSON_types pb_put_def ensure_def pb_grow_def mem_read_def INT_MAX_def)
qed

lemma print_buffered:
  assumes "hooks_ok H" and "item_ok F item" and "0 < prebuffer"
  shows "\<exists>r. cJSON_PrintBuffered F H item prebuffer fmt = Inr r \<and>
    (\<forall>m. r = Some m \<longrightarrow> (\<exists>t s. json_text F fmt 0 item = Some t \<and> m = t @ 0 # s))"
proof (cases "h_allocate H (nat prebuffer)")
  case (Some b)
  have len: "length b = nat prebuffer" using assms(1) Some by (simp add: hooks_ok_def)
  have "0 < nat prebuffer" using assms(3) by simp
  then obtain ok q where
    "print_value F H item \<lparr>pb_buffer = Some b, pb_length = nat prebuffer, pb_offset = 0, pb_depth = 0, pb_noalloc = False,
       pb_format = fmt\<rparr> = Inr (ok, q)"
    "ok \<Longrightarrow> \<exists>t. json_text F fmt 0 item = Some t \<and> done_text [] t q"
    by (rule print_value_starts [OF assms(1,2) len, of False fmt]) auto
  then show ?thesis using assms(3) by (cases ok) (auto simp: done_text_def cJSON_PrintBuffered_def Some)
qed (use assms(3) in \<open>simp add: cJSON_PrintBuffered_def\<close>)

end
