(* ===== verification/CjsonParse.thy ===== *)
theory CjsonParse
  imports Cjson
begin

text \<open>
  The parser of \<open>core/contrib/cjson/cJSON.c\<close>. The input is memory of which the code was told a length; every byte it reads is
  checked against the memory, not against that length. A parse function returns the item or text, \<open>None\<close> for \<open>false\<close>, with
  the parse buffer it leaves. The recursion is bounded by fuel, and a theorem says that it does not run out.
\<close>

section \<open>The parse buffer\<close>

record parse_buffer =
  pi_content :: "u8 list"
  pi_length :: nat
  pi_offset :: nat
  pi_depth :: nat

definition can_access :: "parse_buffer \<Rightarrow> nat \<Rightarrow> bool" where
  "can_access p i \<longleftrightarrow> pi_offset p + i < pi_length p"

definition byte_at :: "parse_buffer \<Rightarrow> nat \<Rightarrow> u8 outcome" where
  "byte_at p i = mem_get (pi_content p) (pi_offset p + i)"

definition move_on :: "nat \<Rightarrow> parse_buffer \<Rightarrow> parse_buffer" where
  "move_on n p = p\<lparr>pi_offset := pi_offset p + n\<rparr>"

definition step_back :: "parse_buffer \<Rightarrow> parse_buffer" where
  "step_back p = p\<lparr>pi_offset := pi_offset p - 1\<rparr>"

text \<open>\<open>can_access_at_index(b, 0) && (buffer_at_offset(b)[0] == c)\<close>, and \<open>can_read\<close> with \<open>strncmp\<close>.\<close>

definition peek :: "(u8 \<Rightarrow> bool) \<Rightarrow> parse_buffer \<Rightarrow> bool outcome" where
  "peek P p = (if can_access p 0 then bnd (byte_at p 0) (\<lambda>b. Inr (P b)) else Inr False)"

definition literal :: "u8 list \<Rightarrow> parse_buffer \<Rightarrow> bool outcome" where
  "literal t p =
     (if pi_offset p + length t \<le> pi_length p
      then bnd (mem_read (pi_content p) (pi_offset p) (length t)) (\<lambda>bs. Inr (bs = t)) else Inr False)"

function skip_spaces :: "u8 list \<Rightarrow> nat \<Rightarrow> nat \<Rightarrow> nat outcome" where
  "skip_spaces c len off =
     (if off < len then bnd (mem_get c off) (\<lambda>b. if b \<le> 32 then skip_spaces c len (Suc off) else Inr off) else Inr off)"
  by pat_completeness auto
termination by (relation "measure (\<lambda>(c, len, off). len - off)") auto

declare skip_spaces.simps [simp del]

definition buffer_skip_whitespace :: "parse_buffer \<Rightarrow> parse_buffer outcome" where
  "buffer_skip_whitespace p =
     (if \<not> can_access p 0 then Inr p
      else bnd (skip_spaces (pi_content p) (pi_length p) (pi_offset p)) (\<lambda>off.
           Inr (p\<lparr>pi_offset := if off = pi_length p then off - 1 else off\<rparr>)))"

definition skip_utf8_bom :: "parse_buffer \<Rightarrow> parse_buffer outcome" where
  "skip_utf8_bom p =
     (if can_access p 4 then bnd (mem_read (pi_content p) (pi_offset p) 3) (\<lambda>bs.
        Inr (if bs = [0xEF, 0xBB, 0xBF] then move_on 3 p else p)) else Inr p)"

section \<open>Numbers\<close>

definition number_char :: "u8 \<Rightarrow> bool" where
  "number_char b \<longleftrightarrow> (48 \<le> b \<and> b \<le> 57) \<or> b = 43 \<or> b = 45 \<or> b = 101 \<or> b = 69 \<or> b = 46"

fun copy_number :: "nat \<Rightarrow> u8 list \<Rightarrow> nat \<Rightarrow> nat \<Rightarrow> u8 list outcome" where
  "copy_number 0 c len pos = Inr []"
| "copy_number (Suc n) c len pos =
     (if pos < len then bnd (mem_get c pos) (\<lambda>b.
        if number_char b then map_sum id ((#) b) (copy_number n c len (Suc pos)) else Inr []) else Inr [])"

definition saturated :: "'d fp \<Rightarrow> 'd \<Rightarrow> int" where
  "saturated F d =
     (if fp_le F (fp_of_int F INT_MAX) d then INT_MAX else if fp_le F d (fp_of_int F INT_MIN) then INT_MIN else fp_to_int F d)"

text \<open>\<open>number_c_string\<close> has 64 bytes, the last one for the zero.\<close>

definition parse_number :: "'d fp \<Rightarrow> u8 list option \<Rightarrow> parse_buffer \<Rightarrow> ('d cjson option \<times> parse_buffer) outcome" where
  "parse_number F nm p =
     bnd (copy_number 63 (pi_content p) (pi_length p) (pi_offset p)) (\<lambda>t.
     let (d, n) = strtod F t in
     Inr (if n = 0 then (None, p) else (Some (CJSON cJSON_Number None (saturated F d) d nm []), move_on n p)))"

section \<open>Strings\<close>

definition hex_value :: "u8 \<Rightarrow> u32 option" where
  "hex_value b =
     (if 48 \<le> b \<and> b \<le> 57 then Some (ucast b - 48)
      else if 65 \<le> b \<and> b \<le> 70 then Some (10 + ucast b - 65)
      else if 97 \<le> b \<and> b \<le> 102 then Some (10 + ucast b - 97) else None)"

fun hex_digits :: "nat \<Rightarrow> u8 list \<Rightarrow> nat \<Rightarrow> u32 \<Rightarrow> u32 outcome" where
  "hex_digits 0 c pos h = Inr h"
| "hex_digits (Suc n) c pos h =
     bnd (mem_get c pos) (\<lambda>b.
     case hex_value b of None \<Rightarrow> Inr 0
     | Some v \<Rightarrow> hex_digits n c (Suc pos) (if n = 0 then h + v else push_bit 4 (h + v)))"

definition parse_hex4 :: "u8 list \<Rightarrow> nat \<Rightarrow> u32 outcome" where
  "parse_hex4 c pos = hex_digits 4 c pos 0"

fun utf8_rest :: "nat \<Rightarrow> u32 \<Rightarrow> u8 list \<Rightarrow> u32 \<times> u8 list" where
  "utf8_rest 0 cp acc = (cp, acc)"
| "utf8_rest (Suc n) cp acc = utf8_rest n (drop_bit 6 cp) (ucast ((cp OR 0x80) AND 0xBF) # acc)"

definition utf8_encode :: "nat \<Rightarrow> u32 \<Rightarrow> u32 \<Rightarrow> u8 list" where
  "utf8_encode n mark cp =
     (let (cp, bs) = utf8_rest (n - 1) cp [] in (if n > 1 then ucast ((cp OR mark) AND 0xFF) else ucast (cp AND 0x7F)) # bs)"

definition codepoint_to_utf8 :: "u32 \<Rightarrow> u8 list option" where
  "codepoint_to_utf8 cp =
     (if cp < 0x80 then Some (utf8_encode 1 0 cp) else if cp < 0x800 then Some (utf8_encode 2 0xC0 cp)
      else if cp < 0x10000 then Some (utf8_encode 3 0xE0 cp) else if cp \<le> 0x10FFFF then Some (utf8_encode 4 0xF0 cp) else None)"

text \<open>The length of the sequence, 0 for a failure, and the bytes written.\<close>

definition finish_utf8 :: "nat \<Rightarrow> u32 \<Rightarrow> (nat \<times> u8 list) outcome" where
  "finish_utf8 n cp = Inr (case codepoint_to_utf8 cp of None \<Rightarrow> (0, []) | Some bs \<Rightarrow> (n, bs))"

definition utf16_literal_to_utf8 :: "u8 list \<Rightarrow> nat \<Rightarrow> nat \<Rightarrow> (nat \<times> u8 list) outcome" where
  "utf16_literal_to_utf8 c pos e =
     (if e - pos < 6 then Inr (0, [])
      else bnd (parse_hex4 c (pos + 2)) (\<lambda>first_code.
        if 0xDC00 \<le> first_code \<and> first_code \<le> 0xDFFF then Inr (0, [])
        else if 0xD800 \<le> first_code \<and> first_code \<le> 0xDBFF then
          if e - (pos + 6) < 6 then Inr (0, [])
          else bnd (mem_get c (pos + 6)) (\<lambda>b. bnd (if b \<noteq> 92 then Inr b else mem_get c (pos + 7)) (\<lambda>b'.
            if b \<noteq> 92 \<or> b' \<noteq> 117 then Inr (0, [])
            else bnd (parse_hex4 c (pos + 8)) (\<lambda>second_code.
              if second_code < 0xDC00 \<or> second_code > 0xDFFF then Inr (0, [])
              else finish_utf8 12 (0x10000 + (push_bit 10 (first_code AND 0x3FF) OR (second_code AND 0x3FF))))))
        else finish_utf8 6 first_code))"

text \<open>The first loop: the closing quote and the number of skipped bytes.\<close>

function scan_string :: "u8 list \<Rightarrow> nat \<Rightarrow> nat \<Rightarrow> nat \<Rightarrow> (nat \<times> nat) option outcome" where
  "scan_string c len e k =
     (if e < len then bnd (mem_get c e) (\<lambda>b.
        if b = 34 then Inr (Some (e, k))
        else if b = 92 then (if len \<le> Suc e then Inr None else scan_string c len (e + 2) (Suc k))
        else scan_string c len (Suc e) k)
      else Inr None)"
  by pat_completeness auto
termination by (relation "measure (\<lambda>(c, len, e, k). len - e)") auto

declare scan_string.simps [simp del]

definition simple_escape :: "u8 \<Rightarrow> u8 option" where
  "simple_escape b =
     (if b = 98 then Some 8 else if b = 102 then Some 12 else if b = 110 then Some 10 else if b = 114 then Some 13
      else if b = 116 then Some 9 else if b = 34 \<or> b = 92 \<or> b = 47 then Some b else None)"

text \<open>The second loop, from \<open>pos\<close> to the closing quote \<open>e\<close>, with the memory of the output and the place in it.\<close>

function unescape :: "u8 list \<Rightarrow> nat \<Rightarrow> nat \<Rightarrow> u8 list \<Rightarrow> nat \<Rightarrow> (bool \<times> nat \<times> u8 list \<times> nat) outcome" where
  "unescape c e pos out k =
     (if pos < e then
        bnd (mem_get c pos) (\<lambda>b.
        if b \<noteq> 92 then bnd (mem_write out k [b]) (\<lambda>out. unescape c e (Suc pos) out (Suc k))
        else if e - pos < 1 then Inr (False, pos, out, k)
        else bnd (mem_get c (Suc pos)) (\<lambda>d.
          case simple_escape d of
            Some x \<Rightarrow> bnd (mem_write out k [x]) (\<lambda>out. unescape c e (pos + 2) out (Suc k))
          | None \<Rightarrow>
              if d = 117 then bnd (utf16_literal_to_utf8 c pos e) (\<lambda>(n, bs).
                if n = 0 then Inr (False, pos, out, k)
                else bnd (mem_write out k bs) (\<lambda>out. unescape c e (pos + n) out (k + length bs)))
              else Inr (False, pos, out, k)))
      else Inr (True, pos, out, k))"
  by pat_completeness auto
termination by (relation "measure (\<lambda>(c, e, pos, out, k). e - pos)") auto

declare unescape.simps [simp del]

text \<open>A zero byte in the output ends the string as the rest of the program sees it.\<close>

definition parse_string :: "hooks \<Rightarrow> parse_buffer \<Rightarrow> (u8 list option \<times> parse_buffer) outcome" where
  "parse_string H p =
     bnd (byte_at p 0) (\<lambda>b.
     if b \<noteq> 34 then Inr (None, move_on 1 p)
     else bnd (scan_string (pi_content p) (pi_length p) (Suc (pi_offset p)) 0) (\<lambda>r.
       case r of
         None \<Rightarrow> Inr (None, move_on 1 p)
       | Some (e, skipped) \<Rightarrow>
           (case h_allocate H (e - pi_offset p - skipped + 1) of
              None \<Rightarrow> Inr (None, move_on 1 p)
            | Some out \<Rightarrow>
                bnd (unescape (pi_content p) e (Suc (pi_offset p)) out 0) (\<lambda>(ok, pos, out, k).
                if \<not> ok then Inr (None, p\<lparr>pi_offset := pos\<rparr>)
                else bnd (mem_write out k [0]) (\<lambda>out. bnd (c_strlen out) (\<lambda>n.
                     Inr (Some (take n out), p\<lparr>pi_offset := Suc e\<rparr>)))))))"

section \<open>Values\<close>

text \<open>\<open>sizeof(cJSON)\<close> with the layout of the ESP32, and the limit of the nesting.\<close>

definition sizeof_cJSON :: nat where "sizeof_cJSON = 40"
definition CJSON_NESTING_LIMIT :: nat where "CJSON_NESTING_LIMIT = 1000"

definition new_item_ok :: "hooks \<Rightarrow> bool" where
  "new_item_ok H \<longleftrightarrow> h_allocate H sizeof_cJSON \<noteq> None"

text \<open>What \<open>parse_array\<close> and \<open>parse_object\<close> have in common: the depth, the brackets and the empty container.\<close>

definition bracketed :: "u8 \<Rightarrow> (parse_buffer \<Rightarrow> ('i list option \<times> parse_buffer) outcome) \<Rightarrow> parse_buffer \<Rightarrow>
    ('i list option \<times> parse_buffer) outcome" where
  "bracketed cl items p =
     bnd (buffer_skip_whitespace (move_on 1 p)) (\<lambda>p.
     bnd (peek (\<lambda>b. b = cl) p) (\<lambda>closed.
     if closed then Inr (Some [], p) else if \<not> can_access p 0 then Inr (None, step_back p) else items (step_back p)))"

definition with_items :: "u8 \<Rightarrow> u8 \<Rightarrow> (parse_buffer \<Rightarrow> ('i list option \<times> parse_buffer) outcome) \<Rightarrow> ('i list \<Rightarrow> 'i) \<Rightarrow>
    parse_buffer \<Rightarrow> ('i option \<times> parse_buffer) outcome" where
  "with_items op cl items build p =
     (if CJSON_NESTING_LIMIT \<le> pi_depth p then Inr (None, p)
      else let p = p\<lparr>pi_depth := Suc (pi_depth p)\<rparr> in
      bnd (peek (\<lambda>b. b = op) p) (\<lambda>opened.
      if \<not> opened then Inr (None, p)
      else bnd (bracketed cl items p) (\<lambda>(is, p).
      case is of
        None \<Rightarrow> Inr (None, p)
      | Some is \<Rightarrow> Inr (Some (build is), move_on 1 (p\<lparr>pi_depth := pi_depth p - 1\<rparr>)))))"

text \<open>What the loops of both do with an item: a comma and the rest of the items, or the closing bracket.\<close>

definition next_item :: "u8 \<Rightarrow> (parse_buffer \<Rightarrow> ('i list option \<times> parse_buffer) outcome) \<Rightarrow> 'i option \<times> parse_buffer \<Rightarrow>
    ('i list option \<times> parse_buffer) outcome" where
  "next_item cl rest = (\<lambda>(i, p).
     case i of
       None \<Rightarrow> Inr (None, p)
     | Some i \<Rightarrow>
         bnd (buffer_skip_whitespace p) (\<lambda>p.
         bnd (peek (\<lambda>b. b = 44) p) (\<lambda>more.
         if more then bnd (rest p) (\<lambda>(is, p). Inr (map_option ((#) i) is, p))
         else bnd (peek (\<lambda>b. b = cl) p) (\<lambda>closed. Inr (if closed then Some [i] else None, p)))))"

fun parse_value :: "nat \<Rightarrow> 'd fp \<Rightarrow> hooks \<Rightarrow> u8 list option \<Rightarrow> parse_buffer \<Rightarrow> ('d cjson option \<times> parse_buffer) outcome"
and parse_elements :: "nat \<Rightarrow> 'd fp \<Rightarrow> hooks \<Rightarrow> parse_buffer \<Rightarrow> ('d cjson list option \<times> parse_buffer) outcome"
and parse_members :: "nat \<Rightarrow> 'd fp \<Rightarrow> hooks \<Rightarrow> parse_buffer \<Rightarrow> ('d cjson list option \<times> parse_buffer) outcome" where
  "parse_value 0 F H nm p = Inl NoFuel"
| "parse_value (Suc f) F H nm p =
     bnd (literal txt_null p) (\<lambda>is. if is then Inr (Some (CJSON cJSON_NULL None 0 (fp_of_int F 0) nm []), move_on 4 p) else
     bnd (literal txt_false p) (\<lambda>is. if is then Inr (Some (CJSON cJSON_False None 0 (fp_of_int F 0) nm []), move_on 5 p) else
     bnd (literal txt_true p) (\<lambda>is. if is then Inr (Some (CJSON cJSON_True None 1 (fp_of_int F 0) nm []), move_on 4 p) else
     bnd (peek (\<lambda>b. b = 34) p) (\<lambda>is.
       if is then bnd (parse_string H p) (\<lambda>(s, p).
         Inr (map_option (\<lambda>s. CJSON cJSON_String (Some s) 0 (fp_of_int F 0) nm []) s, p)) else
     bnd (peek (\<lambda>b. b = 45 \<or> 48 \<le> b \<and> b \<le> 57) p) (\<lambda>is. if is then parse_number F nm p else
     bnd (peek (\<lambda>b. b = 91) p) (\<lambda>is.
       if is then with_items 91 93 (parse_elements f F H) (CJSON cJSON_Array None 0 (fp_of_int F 0) nm) p else
     bnd (peek (\<lambda>b. b = 123) p) (\<lambda>is.
       if is then with_items 123 125 (parse_members f F H) (CJSON cJSON_Object None 0 (fp_of_int F 0) nm) p else
     Inr (None, p))))))))"
| "parse_elements 0 F H p = Inl NoFuel"
| "parse_elements (Suc f) F H p =
     (if \<not> new_item_ok H then Inr (None, p)
      else bnd (buffer_skip_whitespace (move_on 1 p)) (\<lambda>p.
      bnd (parse_value f F H None p) (next_item 93 (parse_elements f F H))))"
| "parse_members 0 F H p = Inl NoFuel"
| "parse_members (Suc f) F H p =
     (if \<not> new_item_ok H then Inr (None, p)
      else bnd (buffer_skip_whitespace (move_on 1 p)) (\<lambda>p.
      bnd (parse_string H p) (\<lambda>(nm, p).
      case nm of
        None \<Rightarrow> Inr (None, p)
      | Some nm \<Rightarrow>
          bnd (buffer_skip_whitespace p) (\<lambda>p.
          bnd (peek (\<lambda>b. b = 58) p) (\<lambda>colon.
          if \<not> colon then Inr (None, p)
          else bnd (buffer_skip_whitespace (move_on 1 p)) (\<lambda>p.
          bnd (parse_value f F H (Some nm) p) (next_item 125 (parse_members f F H))))))))"

section \<open>The entry points\<close>

text \<open>The item or NULL, the position of \<open>*return_parse_end\<close>, and that of \<open>global_error\<close> (None for its reset value).\<close>

type_synonym 'd parsed = "'d cjson option \<times> nat option \<times> nat option"

definition parse_failed :: "nat \<Rightarrow> nat \<Rightarrow> 'd parsed" where
  "parse_failed len off = (let pos = if off < len then off else if len > 0 then len - 1 else 0 in (None, Some pos, Some pos))"

definition cJSON_ParseWithLengthOpts :: "'d fp \<Rightarrow> hooks \<Rightarrow> u8 list option \<Rightarrow> nat \<Rightarrow> bool \<Rightarrow> 'd parsed outcome" where
  "cJSON_ParseWithLengthOpts F H val len require_null_terminated =
     (case val of
        None \<Rightarrow> Inr (None, None, None)
      | Some c \<Rightarrow>
          if len = 0 \<or> \<not> new_item_ok H then Inr (parse_failed len 0)
          else bnd (skip_utf8_bom \<lparr>pi_content = c, pi_length = len, pi_offset = 0, pi_depth = 0\<rparr>) (\<lambda>p.
          bnd (buffer_skip_whitespace p) (\<lambda>p.
          bnd (parse_value (2 * len + 2) F H None p) (\<lambda>(i, p).
          if i = None then Inr (parse_failed len (pi_offset p))
          else bnd (if require_null_terminated
                    then bnd (buffer_skip_whitespace p) (\<lambda>p. bnd (peek (\<lambda>b. b = 0) p) (\<lambda>ok. Inr (ok, p))) else Inr (True, p)) (\<lambda>(ok, p).
               if ok then Inr (i, Some (pi_offset p), None) else Inr (parse_failed len (pi_offset p)))))))"

definition cJSON_ParseWithOpts :: "'d fp \<Rightarrow> hooks \<Rightarrow> u8 list option \<Rightarrow> bool \<Rightarrow> 'd parsed outcome" where
  "cJSON_ParseWithOpts F H val require_null_terminated =
     (case val of
        None \<Rightarrow> Inr (None, None, None)
      | Some c \<Rightarrow> bnd (c_strlen c) (\<lambda>n. cJSON_ParseWithLengthOpts F H val (n + 1) require_null_terminated))"

definition cJSON_Parse :: "'d fp \<Rightarrow> hooks \<Rightarrow> u8 list option \<Rightarrow> 'd parsed outcome" where
  "cJSON_Parse F H val = cJSON_ParseWithOpts F H val False"

definition cJSON_ParseWithLength :: "'d fp \<Rightarrow> hooks \<Rightarrow> u8 list option \<Rightarrow> nat \<Rightarrow> 'd parsed outcome" where
  "cJSON_ParseWithLength F H val len = cJSON_ParseWithLengthOpts F H val len False"


section \<open>No read outside the input\<close>

text \<open>The step returns, and what it returns satisfies \<open>P\<close>.\<close>

definition returns :: "('a \<Rightarrow> bool) \<Rightarrow> 'a outcome \<Rightarrow> bool" where
  "returns P m \<longleftrightarrow> (\<exists>x. m = Inr x \<and> P x)"

lemma returns_Inr [simp]: "returns P (Inr x) \<longleftrightarrow> P x" "\<not> returns P (Inl e)"
  by (simp_all add: returns_def)

lemma returns_bnd: "returns Q m \<Longrightarrow> (\<And>x. Q x \<Longrightarrow> returns P (f x)) \<Longrightarrow> returns P (bnd m f)"
  by (auto simp: returns_def)

lemma returns_mono: "returns Q m \<Longrightarrow> (\<And>x. Q x \<Longrightarrow> P x) \<Longrightarrow> returns P m"
  by (auto simp: returns_def)

lemma returns_get [simp]: "returns P (mem_get c i) \<longleftrightarrow> i < length c \<and> P (c ! i)"
  by (auto simp: returns_def mem_get_Inr_iff)

lemma returns_bnd_get [simp]: "i < length c \<Longrightarrow> bnd (mem_get c i) f = f (c ! i)"
  by (simp add: mem_get_def)

lemma skip_spaces_returns: "len \<le> length c \<Longrightarrow> returns (\<lambda>k. off \<le> k \<and> (off \<le> len \<longrightarrow> k \<le> len)) (skip_spaces c len off)"
proof (induction c len off rule: skip_spaces.induct)
  case (1 c len off)
  show ?case
  proof (cases "off < len")
    case True
    have "returns (\<lambda>k. Suc off \<le> k \<and> (Suc off \<le> len \<longrightarrow> k \<le> len)) (skip_spaces c len (Suc off))" if "c ! off \<le> 32"
      using 1 True that by (simp add: mem_get_def)
    then show ?thesis using True 1(2) by (subst skip_spaces.simps) (auto elim!: returns_mono)
  qed (simp add: skip_spaces.simps)
qed

lemma copy_number_returns: "len \<le> length c \<Longrightarrow> returns (\<lambda>t. pos + length t \<le> max pos len) (copy_number n c len pos)"
proof (induction n arbitrary: pos)
  case (Suc n)
  from Suc.IH [of "Suc pos"] Suc.prems show ?case by (auto simp: returns_def)
qed simp

lemma unat_u8_u32 [simp]: "unat (ucast (b :: u8) :: u32) = unat b"
  using unsigned_less [where 'a = nat and w = b] by (simp add: unsigned_ucast_eq take_bit_nat_eq_self)

lemma hex_value_bound: "hex_value b = Some v \<Longrightarrow> unat v \<le> 15"
proof -
  have "unat (ucast b - 48 :: u32) = unat b - 48" if "48 \<le> b"
    using that by (simp add: unat_sub word_le_nat_alt unat_u8_u32)
  moreover have "unat (10 + ucast b - 65 :: u32) = unat b - 55" if "65 \<le> b"
  proof -
    have "10 + ucast b - 65 = (ucast b - 55 :: u32)" by simp
    then show ?thesis using that by (simp add: unat_sub word_le_nat_alt unat_u8_u32)
  qed
  moreover have "unat (10 + ucast b - 97 :: u32) = unat b - 87" if "97 \<le> b"
  proof -
    have "10 + ucast b - 97 = (ucast b - 87 :: u32)" by simp
    then show ?thesis using that by (simp add: unat_sub word_le_nat_alt unat_u8_u32)
  qed
  ultimately show "hex_value b = Some v \<Longrightarrow> unat v \<le> 15"
    by (auto simp: hex_value_def word_le_nat_alt split: if_splits)
qed

lemma hex_digits_returns:
  assumes "pos + n \<le> length c" and "0 < n" and "n \<le> 4" and "unat h + 16 \<le> 16 ^ (5 - n)"
  shows "returns (\<lambda>r. unat r < 65536) (hex_digits n c pos h)"
  using assms
proof (induction n arbitrary: pos h)
  case (Suc m)
  show ?case
  proof (cases "hex_value (c ! pos)")
    case (Some v)
    have v: "unat v \<le> 15" by (rule hex_value_bound [OF Some])
    have h: "unat h + 16 \<le> 16 ^ (4 - m)" using Suc.prems(4) by simp
    also have "\<dots> \<le> (16 :: nat) ^ 4" by (rule power_increasing) simp_all
    finally have "unat (h + v) = unat h + unat v" using v by (simp add: unat_word_ariths)
    show ?thesis
    proof (cases m)
      case 0
      with Suc.prems Some v h \<open>unat (h + v) = _\<close> show ?thesis by simp
    next
      case (Suc k)
      then have m: "m \<in> {1, 2, 3}" using Suc.prems(3) by auto
      then have "(16 :: nat) ^ (4 - m) \<le> 4096" by auto
      with h v \<open>unat (h + v) = _\<close> have "unat (push_bit 4 (h + v)) = (unat h + unat v) * 16" by (simp add: unat_push)
      moreover have "(16 :: nat) ^ (5 - m) = 16 * 16 ^ (4 - m)" using m by auto
      ultimately have "unat (push_bit 4 (h + v)) + 16 \<le> 16 ^ (5 - m)" using h v by simp
      with Suc.IH [of "Suc pos" "push_bit 4 (h + v)"] Suc.prems Some m show ?thesis by auto
    qed
  qed (use Suc.prems in simp)
qed simp

lemma parse_hex4_returns: "pos + 4 \<le> length c \<Longrightarrow> returns (\<lambda>r. unat r < 65536) (parse_hex4 c pos)"
  unfolding parse_hex4_def by (rule hex_digits_returns) simp_all

lemma length_utf8_rest: "length (snd (utf8_rest n cp acc)) = n + length acc"
  by (induction n cp acc rule: utf8_rest.induct) simp_all

lemma length_utf8_encode: "0 < n \<Longrightarrow> length (utf8_encode n mark cp) = n"
  using length_utf8_rest [of "n - 1" cp "[]"] by (simp add: utf8_encode_def split_beta Let_def)

lemma length_codepoint: "codepoint_to_utf8 cp = Some bs \<Longrightarrow> length bs \<le> (if unat cp < 65536 then 3 else 4)"
  by (auto simp: codepoint_to_utf8_def length_utf8_encode word_less_nat_alt split: if_splits)

lemma utf16_returns:
  assumes "pos < e" and "e \<le> length c"
  shows "returns (\<lambda>(n, bs). n = 0 \<or> n \<le> e - pos \<and> length bs + (n + 1) div 2 \<le> n) (utf16_literal_to_utf8 c pos e)"
proof (cases "e - pos < 6")
  case False
  have hex: "returns (\<lambda>r. unat r < 65536) (parse_hex4 c (pos + 2))" by (rule parse_hex4_returns) (use False assms in simp)
  have hex2: "returns (\<lambda>r. True) (parse_hex4 c (pos + 8))" if "\<not> e - (pos + 6) < 6"
    by (rule returns_mono [OF parse_hex4_returns]) (use that assms in simp_all)
  have "returns (\<lambda>(n, bs). n = 0 \<or> n \<le> e - pos \<and> length bs + (n + 1) div 2 \<le> n) (finish_utf8 6 r)" if "unat r < 65536" for r
    using length_codepoint [of r] that False by (auto simp: finish_utf8_def split: option.splits)
  moreover have "returns (\<lambda>(n, bs). n = 0 \<or> n \<le> e - pos \<and> length bs + (n + 1) div 2 \<le> n) (finish_utf8 12 r)"
    if "\<not> e - (pos + 6) < 6" for r
    using length_codepoint [of r] that assms by (auto simp: finish_utf8_def split: option.splits if_splits)
  moreover have "pos + 7 < length c" if "\<not> e - (pos + 6) < 6" using that assms by simp
  ultimately show ?thesis unfolding utf16_literal_to_utf8_def if_not_P [OF False]
    by (intro returns_bnd [OF hex]) (auto intro!: returns_bnd [OF hex2])
qed (simp add: utf16_literal_to_utf8_def)


text \<open>
  The places where the first loop of \<open>parse_string\<close> skips a byte. The second loop may read escapes at other places (an
  escape \<open>u\<close> takes six bytes whatever they are), but \<open>n\<close> bytes in a row hold at most half of \<open>n\<close> such places, rounded up, so
  its output stays within the allocation.
\<close>

function skips :: "u8 list \<Rightarrow> nat \<Rightarrow> nat \<Rightarrow> nat set" where
  "skips c e q = (if q < e then if c ! q = 92 then insert q (skips c e (q + 2)) else skips c e (Suc q) else {})"
  by pat_completeness auto
termination by (relation "measure (\<lambda>(c, e, q). e - q)") auto

declare skips.simps [simp del]

lemma skips_in: "x \<in> skips c e q \<Longrightarrow> q \<le> x \<and> x < e \<and> c ! x = 92"
proof (induction c e q rule: skips.induct)
  case (1 c e q)
  from "1.prems" show ?case
    using "1.IH" by (subst (asm) skips.simps) (fastforce split: if_splits)
qed

lemma skips_apart: "x \<in> skips c e q \<Longrightarrow> Suc x \<notin> skips c e q"
proof (induction c e q rule: skips.induct)
  case (1 c e q)
  show ?case
  proof (cases "q < e")
    case True
    then show ?thesis
      using 1 skips_in [of _ c e "q + 2"] by (subst skips.simps, subst (asm) (3) skips.simps) (fastforce split: if_splits)
  qed (use "1.prems" in \<open>simp add: skips.simps\<close>)
qed

lemma finite_skips [simp]: "finite (skips c e q)"
  by (rule finite_subset [of _ "{q..<e}"]) (use skips_in in \<open>fastforce simp: subset_eq\<close>, simp)

lemma card_apart: "\<forall>x \<in> A. Suc x \<notin> A \<Longrightarrow> card (A \<inter> {p..<p + n}) \<le> Suc n div 2"
proof (induction n arbitrary: p rule: less_induct)
  case (less n)
  consider "n = 0" | "n = 1" | m where "n = Suc (Suc m)" by (cases n; cases "n - 1") auto
  then show ?case
  proof cases
    case (3 m)
    have "{p..<p + n} = {p, Suc p} \<union> {p + 2..<p + 2 + m}" using 3 by auto
    then have "A \<inter> {p..<p + n} = (A \<inter> {p, Suc p}) \<union> (A \<inter> {p + 2..<p + 2 + m})" by blast
    then have "card (A \<inter> {p..<p + n}) \<le> card (A \<inter> {p, Suc p}) + card (A \<inter> {p + 2..<p + 2 + m})" by (simp only: card_Un_le)
    moreover have "card (A \<inter> {p, Suc p}) \<le> 1"
    proof (cases "p \<in> A")
      case True
      then have "A \<inter> {p, Suc p} = {p}" using less.prems by auto
      then show ?thesis by simp
    next
      case False
      then have "A \<inter> {p, Suc p} \<subseteq> {Suc p}" by auto
      from card_mono [OF _ this] show ?thesis by simp
    qed
    ultimately show ?thesis using less.IH [of m "p + 2"] less.prems 3 by simp
  next
    case 2
    have "A \<inter> {p..<p + n} \<subseteq> {p}" using 2 by auto
    from card_mono [OF _ this] 2 show ?thesis by simp
  qed simp
qed

lemma scan_string_returns:
  assumes "len \<le> length c"
  shows "returns (\<lambda>r. \<forall>e k. r = Some (e, k) \<longrightarrow> q \<le> e \<and> e < len \<and> c ! e = 34 \<and> k = k0 + card (skips c e q)) (scan_string c len q k0)"
  using assms
proof (induction c len q k0 rule: scan_string.induct)
  case (1 c len q k0)
  show ?case
  proof (cases "q < len \<and> c ! q \<noteq> 34 \<and> \<not> (c ! q = 92 \<and> len \<le> Suc q)")
    case False
    then show ?thesis using 1 by (subst scan_string.simps) (auto simp: skips.simps [of c q q])
  next
    case True
    show ?thesis
    proof (cases "c ! q = 92")
      case esc: True
      have "card (skips c e q) = Suc (card (skips c e (q + 2)))" if "q + 2 \<le> e" for e
      proof -
        have "q \<notin> skips c e (q + 2)" using skips_in [of q c e "q + 2"] by auto
        then show ?thesis using that esc by (subst skips.simps) simp
      qed
      moreover have "returns (\<lambda>r. \<forall>e k. r = Some (e, k) \<longrightarrow> q + 2 \<le> e \<and> e < len \<and> c ! e = 34 \<and> k = Suc k0 + card (skips c e (q + 2)))
          (scan_string c len (q + 2) (Suc k0))" using 1 True esc by (simp add: mem_get_def)
      ultimately show ?thesis using True esc 1(3) by (subst scan_string.simps) (auto elim!: returns_mono)
    next
      case plain: False
      have "card (skips c e q) = card (skips c e (Suc q))" if "Suc q \<le> e" for e
        using that plain by (subst skips.simps) auto
      moreover have "returns (\<lambda>r. \<forall>e k. r = Some (e, k) \<longrightarrow> Suc q \<le> e \<and> e < len \<and> c ! e = 34 \<and> k = k0 + card (skips c e (Suc q)))
          (scan_string c len (Suc q) k0)" using 1 True plain by (simp add: mem_get_def)
      ultimately show ?thesis using True plain 1(3) by (subst scan_string.simps) (auto elim!: returns_mono)
    qed
  qed
qed

text \<open>The account of the second loop: \<open>k\<close> bytes are written when it has come to \<open>pos\<close>.\<close>

definition account :: "u8 list \<Rightarrow> nat \<Rightarrow> nat \<Rightarrow> nat \<Rightarrow> nat \<Rightarrow> bool" where
  "account c e start pos k \<longleftrightarrow> start \<le> pos \<and> pos \<le> Suc e \<and> k + card (skips c e start \<inter> {..<pos}) \<le> pos - start"

lemma account_step:
  assumes "account c e start pos k" and "pos + n \<le> Suc e" and "m + card (skips c e start \<inter> {pos..<pos + n}) \<le> n"
  shows "account c e start (pos + n) (k + m)"
proof -
  have "skips c e start \<inter> {..<pos + n} = (skips c e start \<inter> {..<pos}) \<union> (skips c e start \<inter> {pos..<pos + n})" by auto
  then have "card (skips c e start \<inter> {..<pos + n}) \<le> card (skips c e start \<inter> {..<pos}) + card (skips c e start \<inter> {pos..<pos + n})"
    by (simp only: card_Un_le)
  then show ?thesis using assms unfolding account_def by linarith
qed

lemma account_esc:
  assumes "account c e start pos k" and "pos + n \<le> Suc e" and "m + Suc n div 2 \<le> n"
  shows "account c e start (pos + n) (k + m)"
  by (rule account_step [OF assms(1,2)]) (use card_apart [of "skips c e start" pos n] skips_apart assms(3) in force)

lemma account_fits:
  assumes "account c e start pos k" and "start \<le> e"
  shows "k + card (skips c e start) \<le> Suc e - start"
proof -
  let ?A = "skips c e start"
  have "?A = (?A \<inter> {..<pos}) \<union> (?A \<inter> {pos..<pos + (e - pos)})" using skips_in [of _ c e start] by fastforce
  then have "card ?A \<le> card (?A \<inter> {..<pos}) + card (?A \<inter> {pos..<pos + (e - pos)})" by (metis card_Un_le)
  moreover have "card (?A \<inter> {pos..<pos + (e - pos)}) \<le> e - pos"
    using card_mono [of "{pos..<pos + (e - pos)}" "?A \<inter> {pos..<pos + (e - pos)}"] by simp
  ultimately show ?thesis using assms unfolding account_def by linarith
qed


lemma unescape_returns:
  assumes "account c e start pos k" and "start \<le> e" and "e < length c" and "c ! e = 34"
    and "Suc e - start + 1 \<le> length out + card (skips c e start)"
  shows "returns (\<lambda>(ok, pos, out', k). k < length out' \<and> length out' = length out) (unescape c e pos out k)"
  using assms
proof (induction c e pos out k rule: unescape.induct)
  case (1 c e pos out k)
  note prems = "1.prems"
  have fits: "k' < length out" if "account c e start pos' k'" for pos' k'
    using account_fits [OF that prems(2)] prems(5) by linarith
  show ?case
  proof (cases "pos < e")
    case True
    have in1: "pos < length c" "Suc pos < length c" using True prems(3) by simp_all
    have store: "mem_write out k bs = Inr (blit out k bs)" "length (blit out k bs) = length out"
      if "account c e start pos' (k + length bs)" for pos' bs
      using fits [OF that] by (simp_all add: mem_write_def)
    let ?P = "\<lambda>(ok, pos, out', k). k < length out' \<and> length out' = length out"
    consider (plain) "c ! pos \<noteq> 92" | (simple) x where "c ! pos = 92" "simple_escape (c ! Suc pos) = Some x"
      | (u) "c ! pos = 92" "simple_escape (c ! Suc pos) = None" "c ! Suc pos = 117"
      | (other) "c ! pos = 92" "simple_escape (c ! Suc pos) = None" "c ! Suc pos \<noteq> 117" by blast
    then show ?thesis
    proof cases
      case plain
      have "skips c e start \<inter> {pos..<pos + 1} = {}" using skips_in [of pos c e start] plain by auto
      then have acc: "account c e start (pos + 1) (k + length [c ! pos])"
        by (intro account_step [OF prems(1)]) (use True in simp_all)
      then have "returns ?P (unescape c e (Suc pos) (blit out k [c ! pos]) (Suc k))"
        using "1.IH"(1) [of "c ! pos" "blit out k [c ! pos]"] True in1 plain store [OF acc] prems by (simp add: mem_get_def)
      then show ?thesis using True in1 plain store [OF acc] by (subst unescape.simps) simp
    next
      case (simple x)
      have acc: "account c e start (pos + 2) (k + length [x])"
        by (rule account_esc [OF prems(1)]) (use True in simp_all)
      then have "returns ?P (unescape c e (pos + 2) (blit out k [x]) (Suc k))"
        using "1.IH"(3) [of "c ! pos" "c ! Suc pos" x "blit out k [x]"] True in1 simple store [OF acc] prems
        by (simp add: mem_get_def)
      then show ?thesis using True in1 simple store [OF acc] by (subst unescape.simps) simp
    next
      case u
      have "returns (\<lambda>(n, bs). n = 0 \<or> n \<le> e - pos \<and> length bs + (n + 1) div 2 \<le> n) (utf16_literal_to_utf8 c pos e)"
        by (rule utf16_returns) (use True prems(3) in simp_all)
      then obtain n bs where n: "utf16_literal_to_utf8 c pos e = Inr (n, bs)"
        "n = 0 \<or> n \<le> e - pos \<and> length bs + (n + 1) div 2 \<le> n" by (auto simp: returns_def)
      show ?thesis
      proof (cases "n = 0")
        case False
        have acc: "account c e start (pos + n) (k + length bs)"
          by (rule account_esc [OF prems(1)]) (use True n(2) False in auto)
        then have "returns ?P (unescape c e (pos + n) (blit out k bs) (k + length bs))"
          using "1.IH"(2) [of "c ! pos" "c ! Suc pos" "(n, bs)" n bs "blit out k bs"] True in1 u n(1) False store [OF acc] prems
          by (simp add: mem_get_def)
        then show ?thesis using True in1 u n(1) False store [OF acc] by (subst unescape.simps) simp
      qed (use True in1 u n(1) fits [OF prems(1)] in \<open>subst unescape.simps, simp\<close>)
    qed (use True in1 fits [OF prems(1)] in \<open>subst unescape.simps, simp\<close>)
  qed (use fits [OF prems(1)] in \<open>subst unescape.simps, simp\<close>)
qed

lemma c_strlen_returns: "k < length m \<Longrightarrow> m ! k = 0 \<Longrightarrow> returns (\<lambda>n. True) (c_strlen m)"
proof (induction m arbitrary: k)
  case (Cons b m)
  show ?case
  proof (cases "b = 0")
    case False
    with Cons.prems obtain j where "k = Suc j" by (cases k) auto
    with Cons.IH [of j] Cons.prems False show ?thesis by (auto simp: returns_def)
  qed simp
qed simp

section \<open>The whole parser\<close>

text \<open>The same input, at a later place of it.\<close>

definition same_input :: "parse_buffer \<Rightarrow> parse_buffer \<Rightarrow> bool" where
  "same_input p q \<longleftrightarrow> pi_content q = pi_content p \<and> pi_length q = pi_length p"

text \<open>The memory has the length that the code was told, and its last byte is not a comma: a C string ends with its zero byte.\<close>

definition input_ok :: "parse_buffer \<Rightarrow> bool" where
  "input_ok p \<longleftrightarrow> pi_length p \<le> length (pi_content p) \<and> pi_content p ! (pi_length p - 1) \<noteq> 44"

lemma parse_string_returns:
  assumes "hooks_ok H" and "input_ok p" and "pi_offset p < pi_length p"
  shows "returns (\<lambda>(s, q). same_input p q \<and> (s \<noteq> None \<longrightarrow> pi_offset p < pi_offset q \<and> pi_offset q \<le> pi_length p \<and> pi_depth q = pi_depth p))
    (parse_string H p)"
proof -
  let ?c = "pi_content p" and ?off = "pi_offset p"
  let ?P = "\<lambda>(s, q). same_input p q \<and> (s \<noteq> None \<longrightarrow> pi_offset p < pi_offset q \<and> pi_offset q \<le> pi_length p \<and> pi_depth q = pi_depth p)"
  have len: "pi_length p \<le> length ?c" using assms(2) by (simp add: input_ok_def)
  then have byte: "byte_at p 0 = Inr (?c ! ?off)" using assms(3) by (simp add: byte_at_def mem_get_def)
  show ?thesis
  proof (cases "?c ! ?off = 34")
    case quote: True
    from scan_string_returns [OF len, of "Suc ?off" 0] obtain r where
      r: "scan_string ?c (pi_length p) (Suc ?off) 0 = Inr r"
        "\<And>e k. r = Some (e, k) \<Longrightarrow> Suc ?off \<le> e \<and> e < pi_length p \<and> ?c ! e = 34 \<and> k = card (skips ?c e (Suc ?off))"
      by (auto simp: returns_def)
    show ?thesis
    proof (cases r)
      case (Some ek)
      obtain e k0 where "ek = (e, k0)" by (cases ek)
      with r(2) [of e k0] Some have ek: "ek = (e, card (skips ?c e (Suc ?off)))" and e: "Suc ?off \<le> e" "e < pi_length p" "?c ! e = 34"
        by simp_all
      let ?n = "e - ?off - card (skips ?c e (Suc ?off)) + 1"
      show ?thesis
      proof (cases "h_allocate H ?n")
        case alloc: (Some out)
        have "length out = ?n" using assms(1) alloc by (simp add: hooks_ok_def)
        moreover have acc: "account ?c e (Suc ?off) (Suc ?off) 0"
        proof -
          have "skips ?c e (Suc ?off) \<inter> {..<Suc ?off} = {}" using skips_in [of _ ?c e "Suc ?off"] by fastforce
          then show ?thesis using e by (simp add: account_def)
        qed
        moreover have "card (skips ?c e (Suc ?off)) \<le> Suc e - Suc ?off" using account_fits [OF acc e(1)] by simp
        ultimately have "Suc e - Suc ?off + 1 \<le> length out + card (skips ?c e (Suc ?off))" using e(1) by simp
        from unescape_returns [OF acc e(1) _ e(3) this] obtain ok pos out' k where
          u: "unescape ?c e (Suc ?off) out 0 = Inr (ok, pos, out', k)" "k < length out'"
          using e(2) len by (auto simp: returns_def)
        have "returns (\<lambda>n. True) (c_strlen (blit out' k [0]))"
          by (rule c_strlen_returns [of k]) (use u(2) in \<open>simp_all add: blit_def nth_append\<close>)
        then obtain n where "c_strlen (blit out' k [0]) = Inr n" by (auto simp: returns_def)
        then show ?thesis using byte quote r(1) Some ek alloc u e
          by (auto simp: parse_string_def mem_write_def same_input_def)
      qed (use byte quote r(1) Some ek in \<open>simp add: parse_string_def same_input_def move_on_def\<close>)
    qed (use byte quote r(1) in \<open>simp add: parse_string_def same_input_def move_on_def\<close>)
  qed (use byte in \<open>simp add: parse_string_def same_input_def move_on_def\<close>)
qed


text \<open>\<open>strtod\<close> does not read beyond the end of its string.\<close>

definition strtod_ok :: "'d fp \<Rightarrow> bool" where
  "strtod_ok F \<longleftrightarrow> (\<forall>t. snd (strtod F t) \<le> length t)"

lemma same_input_refl [simp]: "same_input p p"
  by (simp add: same_input_def)

lemma same_input_trans: "same_input p q \<Longrightarrow> same_input q r \<Longrightarrow> same_input p r"
  by (simp add: same_input_def)

lemma same_input_ok: "same_input p q \<Longrightarrow> input_ok p \<Longrightarrow> input_ok q"
  by (simp add: same_input_def input_ok_def)

lemma move_on_simps [simp]:
  "pi_content (move_on n p) = pi_content p" "pi_length (move_on n p) = pi_length p" "pi_offset (move_on n p) = pi_offset p + n"
  "pi_depth (move_on n p) = pi_depth p" "same_input q (move_on n p) = same_input q p"
  by (simp_all add: move_on_def same_input_def)

lemma step_back_simps [simp]:
  "pi_content (step_back p) = pi_content p" "pi_length (step_back p) = pi_length p" "pi_offset (step_back p) = pi_offset p - 1"
  "pi_depth (step_back p) = pi_depth p" "same_input q (step_back p) = same_input q p"
  by (simp_all add: step_back_def same_input_def)

lemma peek_returns:
  "input_ok p \<Longrightarrow> returns (\<lambda>b. b \<longrightarrow> pi_offset p < pi_length p \<and> P (pi_content p ! pi_offset p)) (peek P p)"
  by (simp add: peek_def can_access_def byte_at_def input_ok_def)

lemma literal_returns: "input_ok p \<Longrightarrow> returns (\<lambda>b. b \<longrightarrow> pi_offset p + length t \<le> pi_length p) (literal t p)"
  by (simp add: literal_def mem_read_def input_ok_def)

lemma skip_returns:
  assumes "input_ok p"
  shows "returns (\<lambda>q. same_input p q \<and> pi_offset p \<le> pi_offset q \<and> (pi_offset p < pi_length p \<longrightarrow> pi_offset q < pi_length p) \<and>
      (pi_length p \<le> pi_offset p \<longrightarrow> q = p)) (buffer_skip_whitespace p)"
proof (cases "can_access p 0")
  case True
  from skip_spaces_returns [of "pi_length p" "pi_content p" "pi_offset p"] assms True show ?thesis
    by (fastforce simp: buffer_skip_whitespace_def returns_def same_input_def can_access_def input_ok_def)
qed (simp add: buffer_skip_whitespace_def can_access_def)

lemma parse_number_returns:
  assumes "strtod_ok F" and "input_ok p" and "pi_offset p < pi_length p"
  shows "returns (\<lambda>(i, q). same_input p q \<and> (i \<noteq> None \<longrightarrow> pi_offset p < pi_offset q \<and> pi_offset q \<le> pi_length p)) (parse_number F nm p)"
proof -
  from copy_number_returns [of "pi_length p" "pi_content p" "pi_offset p" 63] assms(2,3) obtain t where
    t: "copy_number 63 (pi_content p) (pi_length p) (pi_offset p) = Inr t" "pi_offset p + length t \<le> pi_length p"
    by (auto simp: returns_def input_ok_def max_def)
  have "snd (strtod F t) \<le> length t" using assms(1) by (simp add: strtod_ok_def)
  with t show ?thesis by (auto simp: parse_number_def Let_def split: prod.split)
qed

lemma bracketed_returns:
  assumes ok: "input_ok p" and at: "pi_offset p < pi_length p"
    and items: "\<And>q. same_input p q \<Longrightarrow> pi_offset p \<le> pi_offset q \<Longrightarrow> Suc (pi_offset q) < pi_length p \<Longrightarrow>
      returns (\<lambda>(is, r). same_input q r \<and> (is \<noteq> None \<longrightarrow> pi_offset q < pi_offset r \<and> pi_offset r < pi_length p)) (items q)"
  shows "returns (\<lambda>(is, q). same_input p q \<and> (is \<noteq> None \<longrightarrow> pi_offset p < pi_offset q \<and> pi_offset q < pi_length p))
    (bracketed cl items p)"
  unfolding bracketed_def
proof (rule returns_bnd [OF skip_returns])
  let ?I = "\<lambda>(is, q). same_input p q \<and> (is \<noteq> None \<longrightarrow> pi_offset p < pi_offset q \<and> pi_offset q < pi_length p)"
  fix q assume q': "same_input (move_on 1 p) q \<and> pi_offset (move_on 1 p) \<le> pi_offset q \<and>
    (pi_offset (move_on 1 p) < pi_length (move_on 1 p) \<longrightarrow> pi_offset q < pi_length (move_on 1 p)) \<and>
    (pi_length (move_on 1 p) \<le> pi_offset (move_on 1 p) \<longrightarrow> q = move_on 1 p)"
  then have q: "same_input p q" "pi_offset p + 1 \<le> pi_offset q" by (simp_all add: same_input_def)
  show "returns ?I (bnd (peek (\<lambda>b. b = cl) q) (\<lambda>closed. if closed then Inr (Some [], q) else if \<not> can_access q 0 then Inr (None, step_back q)
      else items (step_back q)))"
  proof (rule returns_bnd [OF peek_returns [OF same_input_ok [OF q(1) ok]]])
    fix closed assume c: "closed \<longrightarrow> pi_offset q < pi_length q \<and> pi_content q ! pi_offset q = cl"
    have len: "pi_length q = pi_length p" using q(1) by (simp add: same_input_def)
    show "returns ?I (if closed then Inr (Some [], q) else if \<not> can_access q 0 then Inr (None, step_back q) else items (step_back q))"
    proof (cases "\<not> closed \<and> can_access q 0")
      case True
      then have "Suc (pi_offset (step_back q)) < pi_length p" "pi_offset p \<le> pi_offset (step_back q)" using q(2) len by (auto simp: can_access_def)
      from items [OF _ this(2,1)] q True show ?thesis by (fastforce elim!: returns_mono intro: same_input_trans simp: same_input_def)
    qed (use q c len in auto)
  qed
qed (use ok in \<open>simp add: input_ok_def\<close>)

lemma with_items_returns:
  assumes ok: "input_ok p" and at: "pi_offset p < pi_length p"
    and items: "\<And>q. same_input p q \<Longrightarrow> pi_offset p \<le> pi_offset q \<Longrightarrow> Suc (pi_offset q) < pi_length p \<Longrightarrow>
      returns (\<lambda>(is, r). same_input q r \<and> (is \<noteq> None \<longrightarrow> pi_offset q < pi_offset r \<and> pi_offset r < pi_length p)) (items q)"
  shows "returns (\<lambda>(i, q). same_input p q \<and> (i \<noteq> None \<longrightarrow> pi_offset p < pi_offset q \<and> pi_offset q \<le> pi_length p))
    (with_items op cl items build p)"
proof (cases "CJSON_NESTING_LIMIT \<le> pi_depth p")
  case False
  let ?p = "p\<lparr>pi_depth := Suc (pi_depth p)\<rparr>"
  have ok': "input_ok ?p" using ok by (simp add: input_ok_def)
  have inner: "returns (\<lambda>(is, q). same_input ?p q \<and> (is \<noteq> None \<longrightarrow> pi_offset ?p < pi_offset q \<and> pi_offset q < pi_length ?p))
      (bracketed cl items ?p)"
    by (rule bracketed_returns [OF ok']) (use at items in \<open>simp_all add: same_input_def\<close>)
  show ?thesis unfolding with_items_def if_not_P [OF False] Let_def
    by (intro returns_bnd [OF peek_returns [OF ok']])
      (auto simp: same_input_def intro!: returns_bnd [OF inner] split: option.splits)
qed (simp add: with_items_def)

lemma returns_if: "(b \<Longrightarrow> returns P m) \<Longrightarrow> (\<not> b \<Longrightarrow> returns P n) \<Longrightarrow> returns P (if b then m else n)"
  by simp

lemma next_item_returns:
  assumes ok: "input_ok p" and r: "same_input p r" and i: "i \<noteq> None \<Longrightarrow> pi_offset p < pi_offset r"
    and rest: "\<And>s. i \<noteq> None \<Longrightarrow> same_input p s \<Longrightarrow> pi_offset r \<le> pi_offset s \<Longrightarrow> pi_offset s < pi_length p \<Longrightarrow> pi_content p ! pi_offset s = 44 \<Longrightarrow>
      returns (\<lambda>(is, q). same_input s q \<and> (is \<noteq> None \<longrightarrow> pi_offset s < pi_offset q \<and> pi_offset q < pi_length p)) (rest s)"
  shows "returns (\<lambda>(is, q). same_input p q \<and> (is \<noteq> None \<longrightarrow> pi_offset p < pi_offset q \<and> pi_offset q < pi_length p))
    (next_item cl rest (i, r))"
proof (cases i)
  case (Some i')
  let ?E = "\<lambda>(is, q). same_input p q \<and> (is \<noteq> None \<longrightarrow> pi_offset p < pi_offset q \<and> pi_offset q < pi_length p)"
  have adv: "pi_offset p < pi_offset r" using i Some by simp
  show ?thesis unfolding next_item_def Some prod.case option.case
  proof (rule returns_bnd [OF skip_returns [OF same_input_ok [OF r(1) ok]]])
    fix s assume "same_input r s \<and> pi_offset r \<le> pi_offset s \<and> (pi_offset r < pi_length r \<longrightarrow> pi_offset s < pi_length r) \<and>
      (pi_length r \<le> pi_offset r \<longrightarrow> s = r)"
    then have s: "same_input p s" "pi_offset r \<le> pi_offset s" using r(1) by (auto intro: same_input_trans)
    then have len: "pi_length s = pi_length p" "pi_content s = pi_content p" by (simp_all add: same_input_def)
    have ok_s: "input_ok s" by (rule same_input_ok [OF s(1) ok])
    have more: "returns ?E (bnd (rest s) (\<lambda>(is, p). Inr (map_option ((#) i') is, p)))"
      if "pi_offset s < pi_length p" "pi_content p ! pi_offset s = 44"
    proof (rule returns_bnd [OF rest [OF _ s that]])
      show "\<And>x. case x of (is, q) \<Rightarrow> same_input s q \<and> (is \<noteq> None \<longrightarrow> pi_offset s < pi_offset q \<and> pi_offset q < pi_length p) \<Longrightarrow>
        returns ?E (case x of (is, p) \<Rightarrow> Inr (map_option ((#) i') is, p))"
        using s adv by (auto intro: same_input_trans)
    qed (simp add: Some)
    have last: "returns ?E (bnd (peek (\<lambda>b. b = cl) s) (\<lambda>closed. Inr (if closed then Some [i'] else None, s)))"
      by (rule returns_bnd [OF peek_returns [OF ok_s]]) (use s adv len in auto)
    show "returns ?E (bnd (peek (\<lambda>b. b = 44) s) (\<lambda>more. if more then bnd (rest s) (\<lambda>(is, p). Inr (map_option ((#) i') is, p))
       else bnd (peek (\<lambda>b. b = cl) s) (\<lambda>closed. Inr (if closed then Some [i'] else None, s))))"
      by (rule returns_bnd [OF peek_returns [OF ok_s]], rule returns_if) (rule more, use len last in simp_all)
  qed
qed (use r in \<open>simp add: next_item_def\<close>)

lemma skip_moved:
  assumes "input_ok p"
  shows "returns (\<lambda>q. same_input p q \<and> input_ok q \<and> pi_length q = pi_length p \<and> pi_offset p + n \<le> pi_offset q \<and>
      (pi_offset p + n < pi_length p \<longrightarrow> pi_offset q < pi_length p)) (buffer_skip_whitespace (move_on n p))"
proof -
  have "input_ok (move_on n p)" using assms by (simp add: input_ok_def)
  from skip_returns [OF this] show ?thesis
    by (rule returns_mono) (use assms in \<open>auto simp: same_input_def input_ok_def\<close>)
qed

lemma parse_returns:
  fixes F :: "'d fp"
  assumes H: "hooks_ok H" and F: "strtod_ok F"
  shows "input_ok p \<Longrightarrow> 2 * (pi_length p - pi_offset p) + 1 \<le> f \<Longrightarrow>
      returns (\<lambda>(i, q). same_input p q \<and> (i \<noteq> None \<longrightarrow> pi_offset p < pi_offset q \<and> pi_offset q \<le> pi_length p)) (parse_value f F H nm p)"
    and "input_ok p \<Longrightarrow> pi_offset p < pi_length p \<Longrightarrow> 2 * (pi_length p - pi_offset p) \<le> f \<Longrightarrow>
      returns (\<lambda>(is, q). same_input p q \<and> (is \<noteq> None \<longrightarrow> pi_offset p < pi_offset q \<and> pi_offset q < pi_length p)) (parse_elements f F H p)"
    and "input_ok p \<Longrightarrow> Suc (pi_offset p) < pi_length p \<Longrightarrow> 2 * (pi_length p - pi_offset p) \<le> f \<Longrightarrow>
      returns (\<lambda>(is, q). same_input p q \<and> (is \<noteq> None \<longrightarrow> pi_offset p < pi_offset q \<and> pi_offset q < pi_length p)) (parse_members f F H p)"
proof (induction f arbitrary: nm p and p and p)
  case (Suc f)
  let ?V = "\<lambda>p (i :: 'd cjson option, q). same_input p q \<and> (i \<noteq> None \<longrightarrow> pi_offset p < pi_offset q \<and> pi_offset q \<le> pi_length p)"
  let ?E = "\<lambda>p (is :: 'd cjson list option, q). same_input p q \<and> (is \<noteq> None \<longrightarrow> pi_offset p < pi_offset q \<and> pi_offset q < pi_length p)"
  {
    case 1
    have elements: "returns (\<lambda>(is, r). same_input q r \<and> (is \<noteq> None \<longrightarrow> pi_offset q < pi_offset r \<and> pi_offset r < pi_length p)) (parse_elements f F H q)"
      and members: "returns (\<lambda>(is, r). same_input q r \<and> (is \<noteq> None \<longrightarrow> pi_offset q < pi_offset r \<and> pi_offset r < pi_length p)) (parse_members f F H q)"
      if "same_input p q" "pi_offset p \<le> pi_offset q" "Suc (pi_offset q) < pi_length p" for q
      using Suc.IH(2,3) [OF same_input_ok [OF that(1) "1"(1)]] that "1"(2) by (simp_all add: same_input_def)
    show ?case unfolding parse_value.simps
      apply (rule returns_bnd [OF literal_returns [OF "1"(1)]], rule returns_if, simp add: txt_null_def)
      apply (rule returns_bnd [OF literal_returns [OF "1"(1)]], rule returns_if, simp add: txt_false_def)
      apply (rule returns_bnd [OF literal_returns [OF "1"(1)]], rule returns_if, simp add: txt_true_def)
      apply (rule returns_bnd [OF peek_returns [OF "1"(1)]], rule returns_if)
       apply (rule returns_bnd [OF parse_string_returns [OF H "1"(1)]], simp, fastforce)
      apply (rule returns_bnd [OF peek_returns [OF "1"(1)]], rule returns_if)
       apply (rule parse_number_returns [OF F "1"(1)], simp)
      apply (rule returns_bnd [OF peek_returns [OF "1"(1)]], rule returns_if)
       apply (rule with_items_returns [OF "1"(1) _ elements], simp, assumption+)
      apply (rule returns_bnd [OF peek_returns [OF "1"(1)]], rule returns_if)
       apply (rule with_items_returns [OF "1"(1) _ members], simp, assumption+)
      apply simp
      done
  next
    case 2
    show ?case unfolding parse_elements.simps
    proof (rule returns_if, simp, rule returns_bnd [OF skip_moved [OF "2"(1)]])
      fix q assume q: "same_input p q \<and> input_ok q \<and> pi_length q = pi_length p \<and> pi_offset p + 1 \<le> pi_offset q \<and>
        (pi_offset p + 1 < pi_length p \<longrightarrow> pi_offset q < pi_length p)"
      have "returns (?V q) (parse_value f F H None q)" by (rule Suc.IH(1)) (use q "2" in auto)
      then show "returns (?E p) (bnd (parse_value f F H None q) (next_item 93 (parse_elements f F H)))"
      proof (rule returns_bnd)
        fix x assume "?V q x"
        moreover obtain i r where x: "x = (i, r)" by (cases x)
        ultimately have r: "same_input p r" "i \<noteq> None \<Longrightarrow> pi_offset p < pi_offset r" using q by (auto intro: same_input_trans)
        show "returns (?E p) (next_item 93 (parse_elements f F H) x)" unfolding x
        proof (rule next_item_returns [OF "2"(1) r])
          fix s assume "i \<noteq> None" and s: "same_input p s" "pi_offset r \<le> pi_offset s" "pi_offset s < pi_length p"
          then show "returns (\<lambda>(is, q). same_input s q \<and> (is \<noteq> None \<longrightarrow> pi_offset s < pi_offset q \<and> pi_offset q < pi_length p)) (parse_elements f F H s)"
            using Suc.IH(2) [OF same_input_ok [OF s(1) "2"(1)]] r(2) "2"(3) by (simp add: same_input_def)
        qed
      qed
    qed
  next
    case 3
    show ?case unfolding parse_members.simps
    proof (rule returns_if, simp, rule returns_bnd [OF skip_moved [OF "3"(1)]])
      fix q assume q: "same_input p q \<and> input_ok q \<and> pi_length q = pi_length p \<and> pi_offset p + 1 \<le> pi_offset q \<and>
        (pi_offset p + 1 < pi_length p \<longrightarrow> pi_offset q < pi_length p)"
      have off: "pi_offset q < pi_length q" using q "3"(2) by simp
      have ok: "input_ok q" using q by simp
      show "returns (?E p) (bnd (parse_string H q) (\<lambda>(nm, p). case nm of None \<Rightarrow> Inr (None, p) | Some nm \<Rightarrow>
          bnd (buffer_skip_whitespace p) (\<lambda>p. bnd (peek (\<lambda>b. b = 58) p) (\<lambda>colon. if \<not> colon then Inr (None, p)
          else bnd (buffer_skip_whitespace (move_on 1 p)) (\<lambda>p.
          bnd (parse_value f F H (Some nm) p) (next_item 125 (parse_members f F H)))))))"
      proof (rule returns_bnd [OF parse_string_returns [OF H ok off]])
        fix x :: "u8 list option \<times> parse_buffer" assume x: "case x of (s, r) \<Rightarrow> same_input q r \<and>
          (s \<noteq> None \<longrightarrow> pi_offset q < pi_offset r \<and> pi_offset r \<le> pi_length q \<and> pi_depth r = pi_depth q)"
        obtain nm :: "u8 list option" and r where [simp]: "x = (nm, r)" by (cases x)
        have r: "same_input p r" using x q by (auto intro: same_input_trans)
        have val: "returns (?E p) (bnd (parse_value f F H (Some s) u) (next_item 125 (parse_members f F H)))"
          if u: "same_input p u" "pi_offset p + 2 \<le> pi_offset u" for u s
        proof -
          have len: "pi_length u = pi_length p" using u(1) by (simp add: same_input_def)
          have "returns (?V u) (parse_value f F H (Some s) u)"
            by (rule Suc.IH(1) [OF same_input_ok [OF u(1) "3"(1)]]) (use u(2) len "3"(2,3) in simp)
          then show ?thesis
          proof (rule returns_bnd)
            fix y assume "?V u y"
            moreover obtain i v where y: "y = (i, v)" by (cases y)
            ultimately have v: "same_input p v" "i \<noteq> None \<Longrightarrow> pi_offset u < pi_offset v" using u by (auto intro: same_input_trans)
            show "returns (?E p) (next_item 125 (parse_members f F H) y)" unfolding y
            proof (rule next_item_returns [OF "3"(1) v(1)])
              show "i \<noteq> None \<Longrightarrow> pi_offset p < pi_offset v" using v(2) u(2) by simp
              fix s assume i: "i \<noteq> None" and s: "same_input p s" "pi_offset v \<le> pi_offset s" "pi_offset s < pi_length p"
                "pi_content p ! pi_offset s = 44"
              have "pi_length p - 1 \<noteq> pi_offset s" using s(4) "3"(1) by (auto simp: input_ok_def)
              then have "Suc (pi_offset s) < pi_length p" using s(3) by linarith
              then show "returns (\<lambda>(is, q). same_input s q \<and> (is \<noteq> None \<longrightarrow> pi_offset s < pi_offset q \<and> pi_offset q < pi_length p)) (parse_members f F H s)"
                using Suc.IH(3) [OF same_input_ok [OF s(1) "3"(1)]] s v(2) i u(2) "3"(3) by (simp add: same_input_def)
            qed
          qed
        qed
        show "returns (?E p) (case x of (nm, p) \<Rightarrow> (case nm of None \<Rightarrow> Inr (None, p) | Some nm \<Rightarrow>
          bnd (buffer_skip_whitespace p) (\<lambda>p. bnd (peek (\<lambda>b. b = 58) p) (\<lambda>colon. if \<not> colon then Inr (None, p)
          else bnd (buffer_skip_whitespace (move_on 1 p)) (\<lambda>p.
          bnd (parse_value f F H (Some nm) p) (next_item 125 (parse_members f F H)))))))"
        proof (cases nm)
          case (Some s)
          have "returns (?E p) (bnd (buffer_skip_whitespace r) (\<lambda>p. bnd (peek (\<lambda>b. b = 58) p) (\<lambda>colon. if \<not> colon then Inr (None, p)
            else bnd (buffer_skip_whitespace (move_on 1 p)) (\<lambda>p.
            bnd (parse_value f F H (Some s) p) (next_item 125 (parse_members f F H))))))"
          proof (rule returns_bnd [OF skip_returns [OF same_input_ok [OF r "3"(1)]]])
            fix t assume "same_input r t \<and> pi_offset r \<le> pi_offset t \<and> (pi_offset r < pi_length r \<longrightarrow> pi_offset t < pi_length r) \<and>
              (pi_length r \<le> pi_offset r \<longrightarrow> t = r)"
            then have t: "same_input p t" "pi_offset p + 2 \<le> pi_offset t" using r x q Some by (auto intro: same_input_trans)
            note ok_t = same_input_ok [OF t(1) "3"(1)]
            show "returns (?E p) (bnd (peek (\<lambda>b. b = 58) t) (\<lambda>colon. if \<not> colon then Inr (None, t)
              else bnd (buffer_skip_whitespace (move_on 1 t)) (\<lambda>p.
              bnd (parse_value f F H (Some s) p) (next_item 125 (parse_members f F H)))))"
              by (intro returns_bnd [OF peek_returns [OF ok_t]] returns_if returns_bnd [OF skip_moved [OF ok_t]] val)
                (use t in \<open>auto intro: same_input_trans\<close>)
          qed
          then show ?thesis by (simp add: Some)
        qed (use r in simp)
      qed
    qed
  }
qed simp_all


declare parse_value.simps [simp del] parse_elements.simps [simp del] parse_members.simps [simp del]

lemma bnd_assoc: "bnd (bnd m f) g = bnd m (\<lambda>x. bnd (f x) g)"
  by (cases m) simp_all

lemma bom_returns:
  "input_ok p \<Longrightarrow> returns (\<lambda>q. same_input p q \<and> pi_offset p \<le> pi_offset q \<and> (pi_offset p < pi_length p \<longrightarrow> pi_offset q < pi_length p))
     (skip_utf8_bom p)"
  by (auto simp: skip_utf8_bom_def can_access_def mem_read_def input_ok_def)

text \<open>
  C34. A C string is parsed without a read or write outside its memory, whatever its bytes and whether or not memory can be
  allocated, and the recursion ends: the parse returns, provided that blocks have the size asked for (\<open>hooks_ok\<close>) and \<open>strtod\<close>
  stays in its string (\<open>strtod_ok\<close>). The position that the caller is given, of the end of the value or of the error, is in the string, at its zero byte or, for the
  end of a value, one behind that.
\<close>

theorem parse_never_faults:
  assumes "hooks_ok H" and "strtod_ok F" and "0 \<notin> set s"
  shows "\<exists>i e g. cJSON_ParseWithOpts F H (Some (s @ 0 # r)) req = Inr (i, e, g) \<and>
    (i \<noteq> None \<longrightarrow> (\<exists>k \<le> Suc (length s). e = Some k) \<and> g = None) \<and> (i = None \<longrightarrow> (\<exists>k \<le> length s. e = Some k) \<and> g = e)"
proof -
  let ?n = "length s + 1" and ?c = "s @ 0 # r"
  let ?p = "\<lparr>pi_content = ?c, pi_length = ?n, pi_offset = 0, pi_depth = 0\<rparr>"
  let ?Q = "\<lambda>(i, e, g). (i \<noteq> None \<longrightarrow> (\<exists>k \<le> ?n. e = Some k) \<and> g = None) \<and> (i = None \<longrightarrow> (\<exists>k \<le> length s. e = Some k) \<and> g = e)"
  have failed: "?Q (parse_failed ?n off)" for off by (auto simp: parse_failed_def Let_def)
  have ok: "input_ok ?p" by (simp add: input_ok_def nth_append)
  have "returns ?Q (cJSON_ParseWithLengthOpts F H (Some ?c) ?n req)"
  proof (cases "new_item_ok H")
    case True
    have step: "returns (\<lambda>p. input_ok p \<and> pi_length p = ?n) (bnd (skip_utf8_bom ?p) buffer_skip_whitespace)"
      by (rule returns_bnd [OF bom_returns [OF ok]], rule returns_mono [OF skip_returns])
        (use ok in \<open>auto simp: same_input_def input_ok_def\<close>)
    then obtain q where q: "bnd (skip_utf8_bom ?p) buffer_skip_whitespace = Inr q" "input_ok q" "pi_length q = ?n"
      by (auto simp: returns_def)
    have "2 * (pi_length q - pi_offset q) + 1 \<le> 2 * ?n + 2" using q(3) by simp
    from parse_returns(1) [OF assms(1,2) q(2) this, of None] obtain i u where
      u: "parse_value (2 * ?n + 2) F H None q = Inr (i, u)" "same_input q u" "i \<noteq> None \<longrightarrow> pi_offset u \<le> ?n"
      using q(3) by (auto simp: returns_def)
    have ok_u: "input_ok u" by (rule same_input_ok [OF u(2) q(2)])
    have len_u: "pi_length u = ?n" using u(2) q(3) by (simp add: same_input_def)
    have fin: "returns ?Q (bnd (if req then bnd (buffer_skip_whitespace u) (\<lambda>p. bnd (peek (\<lambda>b. b = 0) p) (\<lambda>ok. Inr (ok, p))) else Inr (True, u))
        (\<lambda>(ok, p). if ok then Inr (i, Some (pi_offset p), None) else Inr (parse_failed ?n (pi_offset p))))" if "i \<noteq> None"
    proof (cases req)
      case True
      from skip_returns [OF ok_u] obtain v where v: "buffer_skip_whitespace u = Inr v" "same_input u v" by (auto simp: returns_def)
      from peek_returns [OF same_input_ok [OF v(2) ok_u], of "\<lambda>b. b = 0"] obtain b where
        "peek (\<lambda>b. b = 0) v = Inr b" "b \<longrightarrow> pi_offset v < pi_length v" by (auto simp: returns_def)
      then show ?thesis using True v that len_u failed [of "pi_offset v"] by (cases b) (simp_all add: same_input_def)
    qed (use that u(3) in auto)
    have eq: "cJSON_ParseWithLengthOpts F H (Some ?c) ?n req =
      bnd (bnd (skip_utf8_bom ?p) buffer_skip_whitespace) (\<lambda>p. bnd (parse_value (2 * ?n + 2) F H None p) (\<lambda>(i, p).
          if i = None then Inr (parse_failed ?n (pi_offset p))
          else bnd (if req then bnd (buffer_skip_whitespace p) (\<lambda>p. bnd (peek (\<lambda>b. b = 0) p) (\<lambda>ok. Inr (ok, p))) else Inr (True, p)) (\<lambda>(ok, p).
               if ok then Inr (i, Some (pi_offset p), None) else Inr (parse_failed ?n (pi_offset p)))))"
    proof -
      have "(?n = 0 \<or> \<not> new_item_ok H) = False" using True by simp
      then show ?thesis by (simp only: cJSON_ParseWithLengthOpts_def option.case if_False bnd_assoc)
    qed
    show ?thesis
    proof (cases "i = None")
      case True
      then show ?thesis unfolding eq using q(1) u(1) failed [of "pi_offset u"] by simp
    next
      case False
      from fin [OF this] False show ?thesis unfolding eq by (simp only: q(1) u(1) bnd.simps prod.case if_False)
    qed
  qed (use failed in \<open>simp add: cJSON_ParseWithLengthOpts_def\<close>)
  then show ?thesis using c_strlen_str [OF assms(3), of r] by (auto simp: cJSON_ParseWithOpts_def returns_def)
qed


lemma strtod_ref_ok: "strtod_ok fp_ref"
proof -
  have "snd (int_value t) \<le> length t" for t
    using length_takeWhile_le [of "\<lambda>b. 48 \<le> b \<and> b \<le> 57" t] length_takeWhile_le [of "\<lambda>b. 48 \<le> b \<and> b \<le> 57" "tl t"]
    by (cases t) (auto simp: int_value_def Let_def)
  then show ?thesis by (simp add: strtod_ok_def fp_ref_def)
qed

theorem parse_never_faults_witness:
  "\<exists>i e g. cJSON_ParseWithOpts fp_ref hooks_ref (Some ([123, 34, 92, 117, 48, 92, 34, 44] @ 0 # [7])) True = Inr (i, e, g)"
  using parse_never_faults [OF hooks_ref_ok(1) strtod_ref_ok, of "[123, 34, 92, 117, 48, 92, 34, 44]" "[7]" True] by auto

text \<open>
  Without a zero byte behind the text there is no such promise: the text \<open>{"a":{},\<close> of eight bytes makes \<open>parse_string\<close> read
  the byte behind the buffer, because \<open>parse_object\<close> does not check that anything follows the comma.
\<close>

lemma bnd_weak_cong: "m = m' \<Longrightarrow> bnd m f = bnd m' f"
  by simp

lemmas parse_run = parse_value.simps(2) [of "pred_numeral k" for k, folded numeral_eq_Suc]
  parse_elements.simps(2) [of "pred_numeral k" for k, folded numeral_eq_Suc]
  parse_members.simps(2) [of "pred_numeral k" for k, folded numeral_eq_Suc]
  buffer_skip_whitespace_def skip_spaces.simps literal_def peek_def byte_at_def can_access_def mem_get_def mem_read_def mem_write_def
  move_on_def step_back_def with_items_def bracketed_def next_item_def parse_string_def scan_string.simps unescape.simps
  skip_utf8_bom_def new_item_ok_def sizeof_cJSON_def CJSON_NESTING_LIMIT_def txt_null_def txt_false_def txt_true_def blit_def

lemma members_over_read:
  "cJSON_ParseWithLength fp_ref hooks_ref (Some [123, 34, 97, 34, 58, 123, 125, 44]) 8 = Inl OutOfBounds"
  by (simp add: cJSON_ParseWithLength_def cJSON_ParseWithLengthOpts_def parse_run hooks_ref_def cong: bnd_weak_cong)

end
