(* ===== verification/CjsonRoundTrip.thy ===== *)
theory CjsonRoundTrip
  imports CjsonParse
begin

text \<open>
  Printing and parsing (\<open>core/contrib/cjson/cJSON.c\<close>) are inverse: the text of an item, formatted or not, is parsed into that
  item. What is left of the input is read as a list, and every parse function is described by what it does to that list.
\<close>

section \<open>The rest of the input\<close>

definition rest_at :: "u8 list \<Rightarrow> nat \<Rightarrow> nat \<Rightarrow> u8 list" where
  "rest_at c len pos = drop pos (take len c)"

definition rest :: "parse_buffer \<Rightarrow> u8 list" where
  "rest p = rest_at (pi_content p) (pi_length p) (pi_offset p)"



lemma rest_at_Nil: "len \<le> length c \<Longrightarrow> rest_at c len pos = [] \<longleftrightarrow> len \<le> pos"
  by (auto simp: rest_at_def)

definition at_end_ok :: "parse_buffer \<Rightarrow> bool" where
  "at_end_ok p \<longleftrightarrow> pi_length p \<le> length (pi_content p)"


lemma at_end_ok_move [simp]: "at_end_ok (move_on n p) = at_end_ok p" "at_end_ok (p\<lparr>pi_depth := d\<rparr>) = at_end_ok p"
  by (simp_all add: at_end_ok_def)

lemma rest_depth [simp]: "rest (p\<lparr>pi_depth := d\<rparr>) = rest p"
  by (simp add: rest_def)





section \<open>Numbers\<close>




section \<open>Strings\<close>




definition escaped :: "u8 \<Rightarrow> bool" where
  "escaped ch \<longleftrightarrow> \<not> (ch > 31 \<and> ch \<noteq> 34 \<and> ch \<noteq> 92)"














section \<open>Values\<close>




lemma move_on_move_on [simp]: "move_on a (move_on b p) = move_on (b + a) p"
  by (simp add: move_on_def add.assoc)

lemma move_on_0 [simp]: "move_on 0 p = p"
  by (simp add: move_on_def)

lemma step_back_move_on [simp]: "step_back (move_on (Suc n) p) = move_on n p"
  by (simp add: step_back_def move_on_def)

lemma depth_back [simp]: "(move_on n (p\<lparr>pi_depth := d\<rparr>))\<lparr>pi_depth := pi_depth p\<rparr> = move_on n p"
  by (simp add: move_on_def)


















section \<open>Printing, then parsing\<close>






end
