(* ===== verification/Spec2Isabelle.thy ===== *)
theory Spec2Isabelle
  imports AodvRouter RfcForward RfcRegistry RfcConsumers Rfc5444 Compat NetaddrText Autobuf AvlRemove Bq27441 Nvs CjsonRoundTrip
begin

text \<open>
  A verification of the Turpial firmware: a node that carries messages over a mesh of radios. A Turpial has two
  boards. The \<^bold>\<open>mesh board\<close> (\<open>src/mesh\<close>, on RIOT-OS) is a router: it finds routes with AODVv2, whose messages are
  RFC 5444 packets, and hands IPv6 packets to the network stack GNRC. The \<^bold>\<open>Wi-Fi board\<close> (\<open>src/wifi\<close>) is the access
  point of the users: it configures the mesh board over UDP (VAINA) and keeps its own settings in flash. The library
  for RFC 5444 and its containers are in \<open>src/core/contrib/oonf_api\<close>.

  \<^bold>\<open>How the parts interact.\<close> A datagram reaches the AODVv2 thread (\<open>aodvv2.c\<close>), which gives it to the RFC 5444 reader.
  The reader parses it and calls the AODVv2 reader callbacks (\<open>aodvv2_reader.c\<close>), which fill a message and, at its end,
  consult the tables: the multicast message set (has the request been seen?), the local route set (is the route better?),
  the client set (is the target ours?). They answer or forward by putting a message into the thread's queue; the thread
  gives it to the AODVv2 writer (\<open>aodvv2_writer.c\<close>), which feeds the RFC 5444 writer, and sends the packets that come
  out. A packet of a user without a route waits in the packet buffer until the route is found. Reader and writer keep
  their consumers, TLV types and targets in the oonf lists and AVL trees.

  \<^bold>\<open>Theories.\<close> One per component, each naming its source file at the top.

  \<^item> \<open>Prelude\<close>: words, outcomes (a result or the fault that C code runs into: NULL, out of bounds, failed assertion,
    division by zero, a loop out of fuel), memory access, and the locales \<open>key_order\<close> (the laws of a comparison function),
    \<open>slot_table\<close> (arrays with a used flag) and \<open>step_system\<close> (invariants of step relations). \<open>Riot\<close>: the functions of
    RIOT-OS and the environment as parameters, and what is assumed of them.
  \<^item> The AODVv2 router, \<open>mesh/sys/net/aodvv2\<close>: \<open>Metric\<close>, \<open>Seqnum\<close>, \<open>Rcs\<close>, \<open>Buffer\<close>, \<open>Message\<close>, \<open>Lrs\<close>, \<open>Mcmsg\<close> (one table
    or value each, a record and one definition per function), \<open>Compat\<close> (address conversion), \<open>Node\<close> (the state of the
    router and its queue), \<open>AodvReader\<close>, \<open>AodvWriter\<close>, \<open>AodvThread\<close>, \<open>AodvHandlers\<close>, and \<open>AodvRouter\<close>, the composition:
    the steps of the thread and of the other threads, with the invariant of all reachable states.
  \<^item> RFC 5444, \<open>core/contrib/oonf_api/rfc5444\<close>: \<open>RfcParse\<close> (bytes to TLVs and addresses), \<open>RfcSchedule\<close> (consumers and
    contexts; \<open>rfc5444_reader_handle_packet\<close>), \<open>RfcTlvWriter\<close>, \<open>RfcWriter\<close>, \<open>RfcCompress\<close>, \<open>RfcPacket\<close>, \<open>RfcMessage\<close>,
    \<open>RfcGenerator\<close>, \<open>RfcForward\<close>, \<open>RfcRegistry\<close> (what is registered with the writer, and its cleanup), \<open>RfcConsumers\<close> (the
    links of a consumer's entries, pointer by pointer), and \<open>RfcWriterKeeps\<close>, the contract between the writer and those who register callbacks.
  \<^item> Containers and addresses, \<open>core/contrib/oonf_api/common\<close>: \<open>OonfList\<close>, \<open>Avl\<close> (both pointer by pointer on a memory of
    nodes), \<open>AvlShape\<close>, \<open>AvlSpec\<close>, \<open>AvlRemove\<close> (the refinement to a sorted list), \<open>Netaddr\<close> (bytes) and
    \<open>NetaddrText\<close> (printing, parsing, sockets), \<open>OonfString\<close> (C strings and arrays of strings), \<open>Autobuf\<close> (growing buffers).
    \<open>Rfc5444\<close> has the number formats of \<open>rfc5444.c\<close>: time and metric TLVs, and the order of sequence numbers.
  \<^item> The Wi-Fi board and the drivers: \<open>Vaina\<close> (both ends of the protocol), \<open>Nvs\<close> (settings in flash), \<open>Bq27441\<close> (fuel gauge),
    and the JSON library \<open>core/contrib/cjson\<close> with which the CoAP server writes its answers: \<open>Cjson\<close> (items, the print buffer and
    the printer, with the text of an item as its specification), \<open>CjsonParse\<close> (the parser, which stays in its input) and \<open>CjsonRoundTrip\<close>.

  \<^bold>\<open>How state corresponds to the code.\<close> A struct is a record with the same fields; a static variable is a field of the
  record of its component; a pointer into an array is an index, a pointer to an object that lives in a list or tree is
  its number. A function takes the state and returns the new one; integers keep their width. Functions that can run into
  undefined behaviour return an \<open>outcome\<close>. Mutual exclusion is not visible in a sequential call; where a function leaves
  its critical section half way (\<open>Rcs\<close>) or a number is taken in several atomic operations (\<open>Seqnum\<close>), the steps are modelled one by one.
  The router as a whole (\<open>AodvRouter\<close>) is a sequential system: its steps are whole calls, which do not overlap. An object
  with an intrusive list node that is registered a second time is a fault of the model; in C its list is then corrupted.

  \<^bold>\<open>What the lemmas show.\<close> Every table keeps its invariant (unique keys, valid values), and each operation does what its
  name says, or a property says precisely what it does instead (see the findings in the manifest). \<open>AodvHandlers\<close> has the
  four outcomes of route requests and replies. \<open>RfcParse\<close> and \<open>RfcCompress\<close> determine exactly for which inputs the code
  stays within its buffers. \<open>RfcTlvWriter\<close> is a round trip between writer and parser. The AVL trees refine sorted lists.
  \<open>AodvRouter\<close> shows that whatever arrives, in whatever order, the router's tables stay well formed as long as calls do not
  overlap; \<open>Rcs\<close> and \<open>Seqnum\<close> show what overlapping calls do to the clients and to the sequence number. \<open>CjsonRoundTrip\<close> shows that
  the JSON parser reads back what the printer writes.

  \<^bold>\<open>Loops and fuel.\<close> Loops over an array or a list of numbers are structural recursions. Fuel is used for these loops
  only: walks along pointers (lists and trees; a fuel above the number of nodes suffices, and the refinement theorems show
  that the operations then return), the parsing loops (each round consumes a byte, so that the fuel, the length of the
  input, suffices: \<open>tlvblock_parse_ok\<close>; for JSON twice that length, \<open>parse_never_faults\<close>) and \<open>create_loop\<close> of \<open>RfcGenerator\<close>, whose C original may fail to end (a
  finding); there, running out of fuel is the fault \<open>NoFuel\<close>, and \<open>CREATE_ROUNDS\<close> bounds the rounds.

  \<^bold>\<open>Parameters.\<close> What is not under \<open>src/\<close> is an argument: the record \<open>riot\<close> (IPv6 addresses, timex), the record \<open>world\<close>
  of the environment's answers (time, allocation, threads, GNRC), the flash library of the ESP32, the I2C bus, the C
  library's functions where their result is not determined by the standard, floating-point numbers (a type and its operations, \<open>fp\<close>). The records of callbacks (\<open>cbs\<close>, \<open>consumers\<close>)
  are parameters of the RFC 5444 library because they are so in C; \<open>AodvReader\<close> and \<open>AodvWriter\<close> instantiate them.

  \<^bold>\<open>Not modelled.\<close> The functions of \<open>core/contrib/cjson\<close> that build and change items in memory, \<open>rfc5444_print.c\<close>
  (debug output of packets), the tables of names and numbers (\<open>rfc5444_iana.c\<close>, \<open>rfc5444_context.c\<close>),
  the shell commands (\<open>mesh/sys/shell_extended\<close>) and the CoAP
  server (\<open>wifi/sys/net/coap\<close>), which print or forward what the other parts hold, \<open>main.c\<close> of both boards, the board
  support, and the Rust client in \<open>dist\<close>.
\<close>

end
